(* ===== verification/Luatos_Prelude.thy ===== *)
theory Luatos_Prelude
  imports Main "HOL-Library.Word" "HOL-Library.Monad_Syntax"
begin

text \<open>
  Shared vocabulary of the development: the machine types of the 32-bit build, byte
  buffers with checked access, little-endian encoding, and the interface of a
  first-in first-out message store that several components of the port provide.

  The C code is modelled for the ILP32 data model that the 32-bit build scripts select
  (\<open>int\<close>, \<open>size_t\<close> and pointers are 32 bits wide). Undefined behaviour of C (a
  null or dangling pointer, an access outside of an object) is the value \<^const>\<open>None\<close>
  of the option type, so that a definition that returns \<^const>\<open>Some\<close> is known to be
  free of it.
\<close>

unbundle bit_operations_syntax

named_theorems port_defs \<open>definitions of the port that proofs unfold together\<close>
named_theorems buf_simps \<open>rewrite rules for checked buffer accesses\<close>

type_synonym byte = "8 word"
type_synonym u16 = "16 word"
type_synonym u32 = "32 word"
type_synonym u64 = "64 word"
type_synonym addr = nat
type_synonym ptr = "addr option"

section \<open>Buffers\<close>

text \<open>A write of \<open>src\<close> at offset \<open>off\<close>, and a read of \<open>n\<close> cells there: both are
  defined only inside of the buffer, as \<open>memcpy\<close> is.\<close>

definition poke :: "nat \<Rightarrow> 'a list \<Rightarrow> 'a list \<Rightarrow> 'a list option" where
  "poke off src buf =
     (if off + length src \<le> length buf
      then Some (take off buf @ src @ drop (off + length src) buf) else None)"

definition peek :: "nat \<Rightarrow> nat \<Rightarrow> 'a list \<Rightarrow> 'a list option" where
  "peek off n buf = (if off + n \<le> length buf then Some (take n (drop off buf)) else None)"

lemma poke_length [buf_simps]: "poke off src buf = Some buf' \<Longrightarrow> length buf' = length buf"
  by (auto simp: poke_def split: if_splits)

lemma poke_Some_iff: "(\<exists>buf'. poke off src buf = Some buf') \<longleftrightarrow> off + length src \<le> length buf"
  by (simp add: poke_def)

lemma peek_Some_iff: "(\<exists>xs. peek off n buf = Some xs) \<longleftrightarrow> off + n \<le> length buf"
  by (simp add: peek_def)

lemma peek_length [buf_simps]: "peek off n buf = Some xs \<Longrightarrow> length xs = n"
  by (auto simp: peek_def split: if_splits)

lemma peek_poke_same:
  "poke off src buf = Some buf' \<Longrightarrow> peek off (length src) buf' = Some src"
  by (auto simp: poke_def peek_def split: if_splits)

lemma peek_poke_disjoint:
  assumes "poke off src buf = Some buf'"
    and "off' + n \<le> off \<or> off + length src \<le> off'"
  shows "peek off' n buf' = peek off' n buf"
proof -
  from assms(1) have le: "off + length src \<le> length buf"
    and buf': "buf' = take off buf @ src @ drop (off + length src) buf"
    by (auto simp: poke_def split: if_splits)
  from le have len: "length buf' = length buf" by (simp add: buf')
  have "take n (drop off' buf') = take n (drop off' buf)" if "off' + n \<le> length buf"
  proof (rule nth_equalityI)
    show "length (take n (drop off' buf')) = length (take n (drop off' buf))"
      using len by simp
  next
    fix i
    assume "i < length (take n (drop off' buf'))"
    with that len have i: "i < n" by simp
    with assms(2) that le show "take n (drop off' buf') ! i = take n (drop off' buf) ! i"
      by (auto simp: buf' nth_append)
  qed
  with len show ?thesis by (simp add: peek_def)
qed

section \<open>Little-endian encoding\<close>

primrec le_bytes :: "nat \<Rightarrow> nat \<Rightarrow> byte list" where
  "le_bytes 0 v = []"
| "le_bytes (Suc k) v = of_nat v # le_bytes k (v div 256)"

primrec le_val :: "byte list \<Rightarrow> nat" where
  "le_val [] = 0"
| "le_val (b # bs) = unat b + 256 * le_val bs"

lemma length_le_bytes [simp]: "length (le_bytes k v) = k"
  by (induction k arbitrary: v) auto

lemma unat_of_nat_byte: "unat (of_nat v :: byte) = v mod 256"
  by (simp add: unat_of_nat)

lemma le_val_le_bytes_mod: "le_val (le_bytes k v) = v mod 256 ^ k"
proof (induction k arbitrary: v)
  case 0
  then show ?case by simp
next
  case (Suc k)
  have "v mod 256 ^ Suc k = v mod 256 + 256 * (v div 256 mod 256 ^ k)"
    by (simp add: mod_mult2_eq)
  with Suc show ?case by (simp add: unat_of_nat_byte)
qed

lemma le_val_le_bytes [simp]: "v < 256 ^ k \<Longrightarrow> le_val (le_bytes k v) = v"
  by (simp add: le_val_le_bytes_mod)

lemma le_val_bound: "le_val bs < 256 ^ length bs"
proof (induction bs)
  case Nil
  then show ?case by simp
next
  case (Cons b bs)
  have "unat b < 256" using unsigned_less [of b] by simp
  with Cons.IH have "unat b + 256 * le_val bs < 256 * 256 ^ length bs" by linarith
  then show ?case by simp
qed

lemma le_bytes_le_val: "le_bytes (length bs) (le_val bs) = bs"
proof (induction bs)
  case Nil
  then show ?case by simp
next
  case (Cons b bs)
  have b: "unat b < 256" using unsigned_less [of b] by simp
  have "(256 :: byte) = 0" by simp
  then have "(of_nat (unat b + 256 * le_val bs) :: byte) = of_nat (unat b)"
    by (simp only: of_nat_add of_nat_mult of_nat_numeral) simp
  moreover have "(unat b + 256 * le_val bs) div 256 = le_val bs"
    using b by simp
  ultimately show ?case using Cons.IH by simp
qed

section \<open>First-in first-out message stores\<close>

text \<open>
  The message bus, the event queue of a task and the datagram queue of a socket are all
  lists of heap cells that are filled at the tail and emptied at the head. What their
  clients rely on is the same: an accepted message goes behind all the others, and a
  removal yields the oldest one. A store may refuse a message (no memory left), which
  leaves it unchanged.
\<close>

datatype 'm store_op = Put 'm | Get

text \<open>A run of client operations: the accepted messages, the delivered ones, the end.\<close>

fun store_run :: "('m \<Rightarrow> 's \<Rightarrow> bool \<times> 's) \<Rightarrow> ('s \<Rightarrow> 'm option \<times> 's) \<Rightarrow>
    'm store_op list \<Rightarrow> 's \<Rightarrow> 'm list \<times> 'm list \<times> 's" where
  "store_run put get [] s = ([], [], s)"
| "store_run put get (Put m # ops) s =
     (let (ok, s1) = put m s; (acc, del, s2) = store_run put get ops s1
      in (if ok then m # acc else acc, del, s2))"
| "store_run put get (Get # ops) s =
     (let (r, s1) = get s; (acc, del, s2) = store_run put get ops s1
      in (acc, (case r of None \<Rightarrow> del | Some m \<Rightarrow> m # del), s2))"

locale fifo_store =
  fixes put :: "'m \<Rightarrow> 's \<Rightarrow> bool \<times> 's"
    and get :: "'s \<Rightarrow> 'm option \<times> 's"
    and contents :: "'s \<Rightarrow> 'm list"
    and invar :: "'s \<Rightarrow> bool"
    and ready :: "'s \<Rightarrow> bool"
  assumes put_ok: "invar s \<Longrightarrow> put m s = (True, s') \<Longrightarrow> invar s' \<and> contents s' = contents s @ [m]"
    and put_refused: "invar s \<Longrightarrow> put m s = (False, s') \<Longrightarrow> invar s' \<and> contents s' = contents s"
    and get_none: "invar s \<Longrightarrow> get s = (None, s') \<Longrightarrow> invar s' \<and> contents s' = contents s"
    and get_some: "invar s \<Longrightarrow> get s = (Some m, s') \<Longrightarrow> invar s' \<and> contents s = m # contents s'"
    and get_ready: "invar s \<Longrightarrow> ready s \<Longrightarrow> contents s \<noteq> [] \<Longrightarrow> fst (get s) \<noteq> None"
begin

lemma run_fifo:
  assumes "invar s" and "store_run put get ops s = (acc, del, s')"
  shows "invar s' \<and> contents s @ acc = del @ contents s'"
  using assms
proof (induction ops arbitrary: s acc del)
  case Nil
  then show ?case by simp
next
  case (Cons x ops)
  show ?case
  proof (cases x)
    case (Put m)
    obtain ok s1 where p: "put m s = (ok, s1)" by force
    obtain acc1 del1 s2 where r: "store_run put get ops s1 = (acc1, del1, s2)"
      by (metis prod_cases3)
    have "invar s1 \<and> contents s1 = (if ok then contents s @ [m] else contents s)"
      using put_ok [OF Cons.prems(1)] put_refused [OF Cons.prems(1)] p by (cases ok) auto
    with Cons.IH [of s1 acc1 del1] Cons.prems(2) p r Put show ?thesis
      by (auto split: if_splits)
  next
    case Get
    obtain rr s1 where g: "get s = (rr, s1)" by force
    obtain acc1 del1 s2 where r: "store_run put get ops s1 = (acc1, del1, s2)"
      by (metis prod_cases3)
    have "invar s1 \<and> contents s = (case rr of None \<Rightarrow> [] | Some m \<Rightarrow> [m]) @ contents s1"
      using get_none [OF Cons.prems(1)] get_some [OF Cons.prems(1)] g by (cases rr) auto
    with Cons.IH [of s1 acc1 del1] Cons.prems(2) g r Get show ?thesis
      by (auto split: option.splits)
  qed
qed

text \<open>A message is delivered once, and only if it was accepted or there at the start.\<close>

lemma run_delivers_prefix:
  assumes "invar s" and "store_run put get ops s = (acc, del, s')"
  shows "del = take (length del) (contents s @ acc)"
  using run_fifo [OF assms] by simp

lemma ready_get:
  assumes "invar s" and "ready s" and "contents s = m # ms"
  shows "\<exists>s'. get s = (Some m, s') \<and> invar s' \<and> contents s' = ms"
proof -
  obtain r s' where g: "get s = (r, s')" by force
  with get_ready [OF assms(1,2)] assms(3) obtain m' where "r = Some m'" by auto
  with get_some [OF assms(1), of m' s'] g assms(3) show ?thesis by auto
qed

end

end
