(* ===== verification/Queue_Pc.thy ===== *)
theory Queue_Pc
  imports Luatos_Prelude
begin

text \<open>
  The intrusive message queue of \<open>port/rtos/luat_queue_pc.c\<close>: a sentinel item whose
  \<open>next\<close> field heads a singly linked list of heap cells, filled at the tail by
  \<open>luat_queue_push\<close> and emptied at the head by \<open>luat_queue_pop\<close>. Memory is a partial map
  from addresses to items; the \<open>msg\<close> area of an item is as long as its allocation makes
  it. The lemmas show that both operations implement appending to and taking from a list,
  and what they leave alone in memory.
\<close>

section \<open>Items and the two operations\<close>

record uv_queue_item =
  qi_next :: ptr
  qi_size :: nat
  qi_msg :: "byte list"

type_synonym qheap = "addr \<rightharpoonup> uv_queue_item"

text \<open>The search for the last item: it does not return on a cyclic list, and it is
  undefined on a dangling pointer.\<close>

partial_function (option) queue_last :: "qheap \<Rightarrow> addr \<Rightarrow> addr option" where
  "queue_last h a =
     (case h a of None \<Rightarrow> None
      | Some it \<Rightarrow> (case qi_next it of Some b \<Rightarrow> queue_last h b | None \<Rightarrow> Some a))"

definition luat_queue_push :: "qheap \<Rightarrow> ptr \<Rightarrow> ptr \<Rightarrow> (int \<times> qheap) option" where
  "luat_queue_push h queue item =
     (case queue of None \<Rightarrow> Some (-1, h) | Some q \<Rightarrow>
      (case item of None \<Rightarrow> Some (-1, h) | Some i \<Rightarrow>
        do { l \<leftarrow> queue_last h q;
             it \<leftarrow> h l;
             Some (0, h(l \<mapsto> it\<lparr>qi_next := Some i\<rparr>)) }))"

definition item_free :: "addr \<Rightarrow> qheap \<Rightarrow> qheap" where
  "item_free a h = h(a := None)"

text \<open>\<open>memcpy(item, head, head->size + sizeof(uv_queue_item_t) - 4)\<close> copies the two header
  words and \<open>head->size\<close> bytes of the message.\<close>

definition item_copy :: "uv_queue_item \<Rightarrow> uv_queue_item \<Rightarrow> uv_queue_item option" where
  "item_copy dst src =
     do { bs \<leftarrow> peek 0 (qi_size src) (qi_msg src);
          m \<leftarrow> poke 0 bs (qi_msg dst);
          Some \<lparr>qi_next = qi_next src, qi_size = qi_size src, qi_msg = m\<rparr> }"

definition luat_queue_pop :: "qheap \<Rightarrow> ptr \<Rightarrow> ptr \<Rightarrow> (int \<times> qheap) option" where
  "luat_queue_pop h queue item =
     (case queue of None \<Rightarrow> Some (-1, h) | Some q \<Rightarrow>
      (case item of None \<Rightarrow> Some (-1, h) | Some i \<Rightarrow>
        do { sq \<leftarrow> h q;
             (case qi_next sq of None \<Rightarrow> Some (-1, h) | Some head \<Rightarrow>
               do { src \<leftarrow> h head;
                    dst \<leftarrow> h i;
                    dst' \<leftarrow> item_copy dst src;
                    let h1 = h(i \<mapsto> dst');
                    src1 \<leftarrow> h1 head;
                    sq1 \<leftarrow> h1 q;
                    Some (0, item_free head
                       (h1(q \<mapsto> sq1\<lparr>qi_next :=
                          (case qi_next src1 of None \<Rightarrow> None | Some n \<Rightarrow> Some n)\<rparr>))) }) }))"

text \<open>\<open>luat_heap_malloc\<close> hands out a block that is not in use, or \<open>NULL\<close>. Allocators with
  that property form a type, so that every allocator of the model is one.\<close>

typedef allocator = "{al :: qheap \<Rightarrow> nat \<Rightarrow> ptr. \<forall>h n a. al h n = Some a \<longrightarrow> h a = None}"
  by (rule exI [of _ "\<lambda>_ _. None"]) simp

definition malloc :: "allocator \<Rightarrow> qheap \<Rightarrow> nat \<Rightarrow> ptr" where
  "malloc al = Rep_allocator al"

lemma malloc_fresh: "malloc al h n = Some a \<Longrightarrow> h a = None"
  using Rep_allocator [of al] by (auto simp: malloc_def)

lemma malloc_Abs:
  assumes "\<And>h n a. f h n = Some a \<Longrightarrow> h a = None"
  shows "malloc (Abs_allocator f) = f"
  using assms by (simp add: malloc_def Abs_allocator_inverse)

section \<open>Representation of a queue in memory\<close>

primrec chain :: "qheap \<Rightarrow> ptr \<Rightarrow> addr list \<Rightarrow> bool" where
  "chain h p [] \<longleftrightarrow> p = None"
| "chain h p (a # as) \<longleftrightarrow> p = Some a \<and>
     (\<exists>it. h a = Some it \<and> qi_size it \<le> length (qi_msg it) \<and> chain h (qi_next it) as)"

definition payload :: "qheap \<Rightarrow> addr \<Rightarrow> byte list" where
  "payload h a = (case h a of None \<Rightarrow> [] | Some it \<Rightarrow> take (qi_size it) (qi_msg it))"

text \<open>The sentinel at \<open>q\<close> heads the items at the addresses \<open>as\<close>.\<close>

definition queue_rep :: "qheap \<Rightarrow> addr \<Rightarrow> addr list \<Rightarrow> bool" where
  "queue_rep h q as \<longleftrightarrow> chain h (Some q) (q # as) \<and> distinct (q # as)"

lemma chain_fun_upd [simp]: "a \<notin> set as \<Longrightarrow> chain (h(a := x)) p as \<longleftrightarrow> chain h p as"
  by (induction as arbitrary: p) auto

lemma payload_fun_upd [simp]: "b \<noteq> a \<Longrightarrow> payload (h(a := x)) b = payload h b"
  by (simp add: payload_def)

lemma map_payload_fun_upd [simp]:
  "a \<notin> set as \<Longrightarrow> map (payload (h(a := x))) as = map (payload h) as"
  by (induction as) auto

lemma payload_relink [simp]:
  "h a = Some it \<Longrightarrow> payload (h(a \<mapsto> it\<lparr>qi_next := p\<rparr>)) = payload h"
  by (rule ext) (simp add: payload_def)

lemma chain_mem_dom: "chain h p as \<Longrightarrow> a \<in> set as \<Longrightarrow> \<exists>it. h a = Some it \<and> qi_size it \<le> length (qi_msg it)"
  by (induction as arbitrary: p) auto

lemma chain_cong: "(\<And>a. a \<in> set as \<Longrightarrow> h' a = h a) \<Longrightarrow> chain h' p as = chain h p as"
  by (induction as arbitrary: p) auto

lemma queue_last_chain: "chain h (Some a) (a # as) \<Longrightarrow> queue_last h a = Some (last (a # as))"
proof (induction as arbitrary: a)
  case Nil
  then show ?case by (auto simp: queue_last.simps)
next
  case (Cons b as)
  then show ?case by (subst queue_last.simps) auto
qed

lemma chain_extend:
  assumes "chain h (Some a) (a # as)" and "distinct (a # as)" and "i \<notin> set (a # as)"
    and "chain h (Some i) [i]" and "h (last (a # as)) = Some it"
  shows "chain (h(last (a # as) \<mapsto> it\<lparr>qi_next := Some i\<rparr>)) (Some a) (a # as @ [i])"
  using assms
proof (induction as arbitrary: a)
  case Nil
  then show ?case by auto
next
  case (Cons b as)
  define h' where "h' = h(last (b # as) \<mapsto> it\<lparr>qi_next := Some i\<rparr>)"
  from Cons.prems have "chain h' (Some b) (b # as @ [i])"
    unfolding h'_def by (intro Cons.IH) auto
  moreover have "last (b # as) \<noteq> a"
    using Cons.prems(2) last_in_set [of "b # as"] by auto
  then have "h' a = h a" by (simp add: h'_def)
  ultimately have "chain h' (Some a) (a # b # as @ [i])"
    using Cons.prems(1) by auto
  then show ?case by (simp only: h'_def last.simps append_Cons if_False list.distinct)
qed

section \<open>What the operations do\<close>

lemma push_null: "luat_queue_push h None i = Some (-1, h)" "luat_queue_push h q None = Some (-1, h)"
  by (auto simp: luat_queue_push_def split: option.splits)

lemma pop_null: "luat_queue_pop h None i = Some (-1, h)" "luat_queue_pop h q None = Some (-1, h)"
  by (auto simp: luat_queue_pop_def split: option.splits)

lemma push_appends:
  assumes rep: "queue_rep h q as" and i: "i \<notin> set (q # as)" "chain h (Some i) [i]"
  shows "\<exists>h'. luat_queue_push h (Some q) (Some i) = Some (0, h') \<and> queue_rep h' q (as @ [i]) \<and>
           payload h' = payload h \<and> dom h' = dom h \<and> (\<forall>a. a \<notin> set (q # as) \<longrightarrow> h' a = h a)"
proof -
  let ?l = "last (q # as)"
  from rep have c: "chain h (Some q) (q # as)" and d: "distinct (q # as)"
    by (auto simp: queue_rep_def)
  have l: "?l \<in> set (q # as)" by (rule last_in_set) simp
  from chain_mem_dom [OF c l] obtain it where it: "h ?l = Some it" by blast
  let ?h = "h(?l \<mapsto> it\<lparr>qi_next := Some i\<rparr>)"
  have "luat_queue_push h (Some q) (Some i) = Some (0, ?h)"
    using queue_last_chain [OF c] it by (simp add: luat_queue_push_def)
  moreover have "queue_rep ?h q (as @ [i])"
    using chain_extend [OF c d i(1) i(2) it] d i(1) by (simp add: queue_rep_def)
  moreover have "payload ?h = payload h" using it by (rule payload_relink)
  moreover have "dom ?h = dom h" using it by auto
  moreover have "\<forall>a. a \<notin> set (q # as) \<longrightarrow> ?h a = h a" using l by auto
  ultimately show ?thesis by blast
qed

lemma pop_empty: "queue_rep h q [] \<Longrightarrow> luat_queue_pop h (Some q) i = Some (-1, h)"
  by (cases i) (auto simp: luat_queue_pop_def queue_rep_def)

lemma item_copy_fits:
  assumes "qi_size src \<le> length (qi_msg src)" and "qi_size src \<le> length (qi_msg dst)"
  shows "\<exists>dst'. item_copy dst src = Some dst' \<and> qi_next dst' = qi_next src \<and>
           qi_size dst' = qi_size src \<and> length (qi_msg dst') = length (qi_msg dst) \<and>
           take (qi_size dst') (qi_msg dst') = take (qi_size src) (qi_msg src)"
  using assms by (auto simp: item_copy_def peek_def poke_def)

lemma item_copy_overflow: "length (qi_msg dst) < qi_size src \<Longrightarrow> item_copy dst src = None"
  by (auto simp: item_copy_def peek_def poke_def Option.bind_def split: if_splits option.splits)

lemma pop_removes_head:
  assumes rep: "queue_rep h q (a # as)" and i: "i \<notin> set (q # a # as)" "h i = Some dst"
    and fits: "length (payload h a) \<le> length (qi_msg dst)"
  shows "\<exists>h' dst'. luat_queue_pop h (Some q) (Some i) = Some (0, h') \<and> queue_rep h' q as \<and>
           payload h' i = payload h a \<and> h' i = Some dst' \<and> length (qi_msg dst') = length (qi_msg dst) \<and>
           h' a = None \<and> (\<forall>b\<in>set as. payload h' b = payload h b) \<and> dom h' = dom h - {a} \<and>
           (\<forall>b. b \<notin> {q, a, i} \<longrightarrow> h' b = h b)"
proof -
  from rep obtain sq src where sq: "h q = Some sq" "qi_next sq = Some a" "qi_size sq \<le> length (qi_msg sq)"
    and src: "h a = Some src" "qi_size src \<le> length (qi_msg src)" "chain h (qi_next src) as"
    and d: "distinct (q # a # as)" by (auto simp: queue_rep_def)
  from fits src have "qi_size src \<le> length (qi_msg dst)" by (simp add: payload_def)
  with src(2) obtain dst' where dst': "item_copy dst src = Some dst'" "qi_next dst' = qi_next src"
      "qi_size dst' = qi_size src" "length (qi_msg dst') = length (qi_msg dst)"
      "take (qi_size dst') (qi_msg dst') = take (qi_size src) (qi_msg src)"
    using item_copy_fits by blast
  let ?h = "item_free a ((h(i \<mapsto> dst'))(q \<mapsto> sq\<lparr>qi_next := qi_next src\<rparr>))"
  have eq: "(case p of None \<Rightarrow> None | Some n \<Rightarrow> Some n) = p" for p :: ptr
    by (cases p) auto
  have "luat_queue_pop h (Some q) (Some i) = Some (0, ?h)"
    using sq src dst' i d by (simp add: luat_queue_pop_def Let_def eq)
  moreover have "chain ?h (qi_next src) as"
    using src(3) d i by (subst chain_cong [of as _ h]) (auto simp: item_free_def)
  then have "queue_rep ?h q as"
    using sq d by (auto simp: queue_rep_def item_free_def)
  moreover have "?h i = Some dst'" using i by (simp add: item_free_def)
  moreover have "payload ?h i = payload h a"
    using i dst'(5) src(1) by (simp add: payload_def item_free_def)
  moreover have "?h a = None" by (simp add: item_free_def)
  moreover have "\<forall>b\<in>set as. payload ?h b = payload h b"
    using d i by (auto simp: payload_def item_free_def)
  moreover have "dom ?h = dom h - {a}"
    using sq(1) src(1) i d by (auto simp: item_free_def)
  moreover have "\<forall>b. b \<notin> {q, a, i} \<longrightarrow> ?h b = h b" by (simp add: item_free_def)
  ultimately show ?thesis using dst'(4) by blast
qed

text \<open>A message that is longer than the receive buffer is copied past the end of it.\<close>

lemma pop_overflow:
  assumes rep: "queue_rep h q (a # as)" and i: "h i = Some dst"
    and long: "length (qi_msg dst) < length (payload h a)"
  shows "luat_queue_pop h (Some q) (Some i) = None"
proof -
  from rep obtain sq src where sq: "h q = Some sq" "qi_next sq = Some a"
    and src: "h a = Some src" "qi_size src \<le> length (qi_msg src)"
    by (auto simp: queue_rep_def)
  from long src have "length (qi_msg dst) < qi_size src" by (simp add: payload_def)
  with sq src i show ?thesis
    by (simp add: luat_queue_pop_def item_copy_overflow)
qed

section \<open>The messages of a queue\<close>

text \<open>A cell as \<open>luat_heap_malloc\<close> returns it for \<open>n\<close> bytes of message behind a whole
  \<open>uv_queue_item_t\<close>: the four bytes of the declared \<open>msg[4]\<close> come on top. The block is
  zeroed, since \<open>luat_heap_malloc\<close> allocates with \<open>luat_bgetz\<close>.\<close>

definition item_new :: "nat \<Rightarrow> uv_queue_item" where
  "item_new n = \<lparr>qi_next = None, qi_size = 0, qi_msg = replicate (n + 4) 0\<rparr>"

definition item_with :: "byte list \<Rightarrow> uv_queue_item" where
  "item_with bs = \<lparr>qi_next = None, qi_size = length bs, qi_msg = bs @ replicate 4 0\<rparr>"

lemma item_with_is_memcpy:
  "poke 0 bs (qi_msg (item_new (length bs))) = Some (qi_msg (item_with bs))"
  by (simp add: item_new_def item_with_def poke_def)

lemma chain_item_with [simp]: "chain (h(a \<mapsto> item_with bs)) (Some a) [a]"
  by (simp add: item_with_def)

lemma payload_item_with [simp]: "payload (h(a \<mapsto> item_with bs)) a = bs"
  by (simp add: payload_def item_with_def)

text \<open>The addresses that the \<open>next\<close> fields visit.\<close>

partial_function (option) queue_items :: "qheap \<Rightarrow> ptr \<Rightarrow> addr list option" where
  "queue_items h p =
     (case p of None \<Rightarrow> Some []
      | Some a \<Rightarrow> do { it \<leftarrow> h a; as \<leftarrow> queue_items h (qi_next it); Some (a # as) })"

definition queue_msgs :: "qheap \<Rightarrow> addr \<Rightarrow> byte list list" where
  "queue_msgs h q =
     (case queue_items h (Some q) of None \<Rightarrow> [] | Some as \<Rightarrow> map (payload h) (tl as))"

lemma queue_items_chain: "chain h p as \<Longrightarrow> queue_items h p = Some as"
proof (induction as arbitrary: p)
  case Nil
  then show ?case by (simp add: queue_items.simps)
next
  case (Cons a as)
  then obtain it where "p = Some a" "h a = Some it" "chain h (qi_next it) as" by auto
  with Cons.IH [of "qi_next it"] show ?case by (subst queue_items.simps) simp
qed

lemma queue_msgs_rep: "queue_rep h q as \<Longrightarrow> queue_msgs h q = map (payload h) as"
  using queue_items_chain [of h "Some q" "q # as"] by (simp add: queue_msgs_def queue_rep_def)

text \<open>A well-formed queue whose messages all have at most \<open>n\<close> bytes.\<close>

definition queue_wf :: "nat \<Rightarrow> qheap \<Rightarrow> addr \<Rightarrow> bool" where
  "queue_wf n h q \<longleftrightarrow> (\<exists>as. queue_rep h q as) \<and> (\<forall>bs\<in>set (queue_msgs h q). length bs \<le> n)"

lemma queue_wfE:
  assumes "queue_wf n h q"
  obtains as where "queue_rep h q as" and "queue_msgs h q = map (payload h) as"
    and "\<forall>a\<in>set as. length (payload h a) \<le> n"
  using assms queue_msgs_rep by (fastforce simp: queue_wf_def)

lemma queue_wf_head_dom: "queue_wf n h q \<Longrightarrow> \<exists>sq. h q = Some sq"
  by (auto simp: queue_wf_def queue_rep_def)

lemma queue_rep_fresh: "queue_rep h q as \<Longrightarrow> h i = None \<Longrightarrow> i \<notin> set (q # as)"
  by (auto simp: queue_rep_def dest: chain_mem_dom)

lemma queue_rep_upd_fresh:
  "queue_rep h q as \<Longrightarrow> h i = None \<Longrightarrow> queue_rep (h(i := x)) q as"
  using queue_rep_fresh [of h q as i] by (simp add: queue_rep_def del: chain.simps)

lemma queue_wf_upd_fresh:
  assumes "queue_wf n h q" and "h i = None"
  shows "queue_wf n (h(i := x)) q \<and> queue_msgs (h(i := x)) q = queue_msgs h q"
proof -
  from assms(1) obtain as where as: "queue_rep h q as" "queue_msgs h q = map (payload h) as"
    "\<forall>a\<in>set as. length (payload h a) \<le> n" by (rule queue_wfE)
  from as(1) assms(2) have r: "queue_rep (h(i := x)) q as" by (rule queue_rep_upd_fresh)
  have "i \<notin> set as" using queue_rep_fresh [OF as(1) assms(2)] by simp
  then have "map (payload (h(i := x))) as = map (payload h) as" by simp
  with queue_msgs_rep [OF r] as r show ?thesis by (auto simp: queue_wf_def)
qed

text \<open>Allocating a cell, filling it and pushing it appends its message.\<close>

lemma push_item_with:
  assumes wf: "queue_wf n h q" and fresh: "h a = None" and len: "length bs \<le> n"
  shows "\<exists>h'. luat_queue_push (h(a \<mapsto> item_with bs)) (Some q) (Some a) = Some (0, h') \<and>
           queue_wf n h' q \<and> queue_msgs h' q = queue_msgs h q @ [bs]"
proof -
  let ?h = "h(a \<mapsto> item_with bs)"
  from wf obtain as where as: "queue_rep h q as" "queue_msgs h q = map (payload h) as"
    "\<forall>a\<in>set as. length (payload h a) \<le> n" by (rule queue_wfE)
  have a: "a \<notin> set (q # as)" using as(1) fresh by (rule queue_rep_fresh)
  have "queue_rep ?h q as" using as(1) fresh by (rule queue_rep_upd_fresh)
  from push_appends [OF this a chain_item_with] obtain h' where
    h': "luat_queue_push ?h (Some q) (Some a) = Some (0, h')" "queue_rep h' q (as @ [a])"
      "payload h' = payload ?h" by blast
  have "map (payload ?h) as = map (payload h) as" using a by simp
  then have "queue_msgs h' q = queue_msgs h q @ [bs]"
    using queue_msgs_rep [OF h'(2)] h'(3) as(2) by simp
  with h' as len show ?thesis by (auto simp: queue_wf_def)
qed

lemma pop_into:
  assumes wf: "queue_wf n h q" and i: "h i = None" and msgs: "queue_msgs h q = bs # ms"
    and cap: "n \<le> length (qi_msg dst)"
  shows "\<exists>h' dst'. luat_queue_pop (h(i \<mapsto> dst)) (Some q) (Some i) = Some (0, h') \<and>
           h' i = Some dst' \<and> take (length bs) (qi_msg dst') = bs \<and>
           length (qi_msg dst') = length (qi_msg dst) \<and>
           queue_wf n (item_free i h') q \<and> queue_msgs (item_free i h') q = ms"
proof -
  let ?h = "h(i \<mapsto> dst)"
  from wf obtain as0 where as0: "queue_rep h q as0" "queue_msgs h q = map (payload h) as0"
    "\<forall>a\<in>set as0. length (payload h a) \<le> n" by (rule queue_wfE)
  from as0(2) msgs obtain a as where as: "as0 = a # as" "payload h a = bs" "map (payload h) as = ms"
    by (cases as0) auto
  have ni: "i \<notin> set (q # a # as)" using queue_rep_fresh [OF as0(1) i] as(1) by simp
  have "queue_rep ?h q (a # as)" using queue_rep_upd_fresh [OF as0(1) i] as(1) by simp
  moreover have "length (payload ?h a) \<le> length (qi_msg dst)"
    using ni as0(3) as(1) cap by auto
  ultimately obtain h' dst' where h': "luat_queue_pop ?h (Some q) (Some i) = Some (0, h')"
      "queue_rep h' q as" "payload h' i = payload ?h a" "h' i = Some dst'"
      "length (qi_msg dst') = length (qi_msg dst)" "\<forall>b\<in>set as. payload h' b = payload ?h b"
    using pop_removes_head [of ?h q a as i dst] ni by fastforce
  have nq: "i \<notin> set (q # as)" using ni by simp
  have rep: "queue_rep (item_free i h') q as"
    using h'(2) nq by (simp add: queue_rep_def item_free_def del: chain.simps)
  have "map (payload h') as = map (payload ?h) as" using h'(6) by simp
  with nq have "map (payload (item_free i h')) as = map (payload h) as"
    by (simp add: item_free_def)
  with queue_msgs_rep [OF rep] as(3) have ms: "queue_msgs (item_free i h') q = ms" by simp
  have "queue_wf n (item_free i h') q"
    unfolding queue_wf_def ms using rep as0(3) as(1) as(3) [symmetric] by auto
  moreover have "payload h' i = bs" using h'(3) as(2) ni by simp
  then have "take (length bs) (qi_msg dst') = bs"
    using h'(4) by (auto simp: payload_def min_def)
  ultimately show ?thesis using h'(1,4,5) ms by blast
qed

text \<open>A cell outside of the queue takes no part in a push.\<close>

lemma push_frame:
  assumes "queue_rep h q as" and "h i = None"
    and "luat_queue_push h (Some q) (Some a) = Some (r, h')"
  shows "luat_queue_push (h(i \<mapsto> x)) (Some q) (Some a) = Some (r, h'(i \<mapsto> x)) \<and> h' i = None"
proof -
  obtain l where l_def: "l = last (q # as)" by blast
  from assms(1,2) have "queue_rep (h(i \<mapsto> x)) q as" by (rule queue_rep_upd_fresh)
  then have l: "queue_last h q = Some l" "queue_last (h(i \<mapsto> x)) q = Some l"
    using assms(1) queue_last_chain unfolding queue_rep_def l_def by blast+
  have "l \<in> set (q # as)" unfolding l_def by (rule last_in_set) simp
  with queue_rep_fresh [OF assms(1,2)] have "l \<noteq> i" by metis
  with l assms(2,3) show ?thesis
    by (auto simp: luat_queue_push_def fun_upd_twist bind_eq_Some_conv)
qed

lemma pop_none: "queue_wf n h q \<Longrightarrow> queue_msgs h q = [] \<Longrightarrow> luat_queue_pop h (Some q) i = Some (-1, h)"
  by (auto elim!: queue_wfE intro: pop_empty)

section \<open>Receiving into a buffer\<close>

text \<open>The callers of \<open>luat_queue_pop\<close> own a receive cell, at \<open>i\<close>, that is not part of the
  queue and has room for messages of \<open>n\<close> bytes.\<close>

definition recv_cell :: "nat \<Rightarrow> addr \<Rightarrow> qheap \<Rightarrow> addr \<Rightarrow> bool" where
  "recv_cell n i h q \<longleftrightarrow> (\<exists>dst. h i = Some dst \<and> n \<le> length (qi_msg dst)) \<and> queue_wf n (item_free i h) q"

abbreviation recv_msgs :: "addr \<Rightarrow> qheap \<Rightarrow> addr \<Rightarrow> byte list list" where
  "recv_msgs i h q \<equiv> queue_msgs (item_free i h) q"

lemma item_free_none [simp]: "item_free i h i = None"
  by (simp add: item_free_def)

lemma item_free_upd [simp]: "item_free i (h(i := x)) = item_free i h"
  by (simp add: item_free_def)

lemma item_free_restore: "h i = Some d \<Longrightarrow> (item_free i h)(i \<mapsto> d) = h"
  by (auto simp: item_free_def)

lemma item_free_idle: "h i = None \<Longrightarrow> item_free i h = h"
  by (auto simp: item_free_def)

lemma recv_cell_start:
  "queue_wf n h q \<Longrightarrow> h i = None \<Longrightarrow> n \<le> length (qi_msg dst) \<Longrightarrow> recv_cell n i (h(i \<mapsto> dst)) q"
  by (simp add: recv_cell_def item_free_idle)

lemma pop_recv_empty:
  assumes "recv_cell n i h q" and "recv_msgs i h q = []"
  shows "luat_queue_pop h (Some q) (Some i) = Some (-1, h)"
proof -
  from assms obtain dst where d: "h i = Some dst" and wf: "queue_wf n (item_free i h) q"
    by (auto simp: recv_cell_def)
  from queue_wf_upd_fresh [OF wf item_free_none, of "Some dst"] assms(2)
  show ?thesis unfolding item_free_restore [of h i dst, OF d] by (auto intro: pop_none)
qed

lemma pop_recv:
  assumes "recv_cell n i h q" and "recv_msgs i h q = bs # ms"
  shows "\<exists>h' dst. luat_queue_pop h (Some q) (Some i) = Some (0, h') \<and> h' i = Some dst \<and>
           n \<le> length (qi_msg dst) \<and> take (length bs) (qi_msg dst) = bs \<and>
           recv_cell n i h' q \<and> recv_msgs i h' q = ms"
proof -
  from assms obtain dst where d: "h i = Some dst" "n \<le> length (qi_msg dst)"
    and wf: "queue_wf n (item_free i h) q"
    by (auto simp: recv_cell_def)
  from pop_into [OF wf item_free_none assms(2) d(2)] d show ?thesis
    unfolding item_free_restore [of h i dst, OF d(1)] recv_cell_def by metis
qed

text \<open>An allocator over ten addresses, for concrete runs.\<close>

definition small_alloc :: allocator where
  "small_alloc = Abs_allocator (\<lambda>h n. find (\<lambda>a. h a = None) [1..<11])"

lemma malloc_small [simp]: "malloc small_alloc h n = find (\<lambda>a. h a = None) [1..<11]"
  unfolding small_alloc_def by (subst malloc_Abs) (auto simp: find_Some_iff)

end
