(* ===== verification/Msgbus_Pc.thy ===== *)
theory Msgbus_Pc
  imports Queue_Pc
begin

text \<open>
  The message bus of \<open>port/rtos/luat_msgbus_pc.c\<close>, through which timers, UART and network
  callbacks hand messages to the Lua main task. It keeps one queue of
  \<open>luat_queue_pc.c\<close>; \<open>luat_msgbus_get\<close> runs one iteration of the libuv loop whenever
  the queue is empty. The lemmas show that the bus is a first-in first-out store and when
  the receiving loop ends.
\<close>

section \<open>Messages\<close>

record rtos_msg =
  rm_handler :: u32
  rm_ptr :: u32
  rm_arg1 :: u32
  rm_arg2 :: u32

definition rtos_msg_bytes :: "rtos_msg \<Rightarrow> byte list" where
  "rtos_msg_bytes m = le_bytes 4 (unat (rm_handler m)) @ le_bytes 4 (unat (rm_ptr m)) @
     le_bytes 4 (unat (rm_arg1 m)) @ le_bytes 4 (unat (rm_arg2 m))"

definition rtos_msg_of :: "byte list \<Rightarrow> rtos_msg" where
  "rtos_msg_of bs = \<lparr>rm_handler = of_nat (le_val (take 4 bs)),
     rm_ptr = of_nat (le_val (take 4 (drop 4 bs))),
     rm_arg1 = of_nat (le_val (take 4 (drop 8 bs))),
     rm_arg2 = of_nat (le_val (take 4 (drop 12 bs)))\<rparr>"

lemma length_rtos_msg_bytes [simp]: "length (rtos_msg_bytes m) = 16"
  by (simp add: rtos_msg_bytes_def)

lemma le_val_u32 [simp]: "le_val (le_bytes 4 (unat (w :: u32))) = unat w"
  using unsigned_less [of w, where 'a = nat] by simp

lemma rtos_msg_of_bytes [simp]: "rtos_msg_of (rtos_msg_bytes m) = m"
  by (simp add: rtos_msg_of_def rtos_msg_bytes_def)

section \<open>The bus\<close>

record msgbus =
  mb_heap :: qheap
  mb_head :: addr

text \<open>The static list head starts out zeroed; \<open>luat_msgbus_init\<close> adds the lock that makes
  each of the queue operations below one step.\<close>

definition luat_msgbus_init :: "qheap \<Rightarrow> addr \<Rightarrow> msgbus" where
  "luat_msgbus_init h a =
     \<lparr>mb_heap = h(a \<mapsto> \<lparr>qi_next = None, qi_size = 0, qi_msg = replicate 4 0\<rparr>), mb_head = a\<rparr>"

definition luat_msgbus_put :: "allocator \<Rightarrow> rtos_msg \<Rightarrow> msgbus \<Rightarrow> (int \<times> msgbus) option" where
  "luat_msgbus_put al msg s =
     (case malloc al (mb_heap s) (12 + 16) of
        None \<Rightarrow> Some (1, s)
      | Some a \<Rightarrow>
          do { m \<leftarrow> poke 0 (rtos_msg_bytes msg) (qi_msg (item_new 16));
               let item = \<lparr>qi_next = None, qi_size = 16, qi_msg = m\<rparr>;
               (ret, h) \<leftarrow> luat_queue_push ((mb_heap s)(a \<mapsto> item)) (Some (mb_head s)) (Some a);
               Some (ret, s\<lparr>mb_heap := h\<rparr>) })"

text \<open>The receiving loop. \<open>uv_run\<close> is one iteration of the libuv main loop: it runs the
  callbacks that are due, which may post to the bus and change the rest \<open>w\<close> of the
  program. The receiving loop need not end.\<close>

partial_function (option) msgbus_wait ::
    "('w \<Rightarrow> msgbus \<Rightarrow> 'w \<times> msgbus) \<Rightarrow> ptr \<Rightarrow> 'w \<Rightarrow> msgbus \<Rightarrow> (rtos_msg \<times> 'w \<times> msgbus) option" where
  "msgbus_wait uv_run item w s =
     do { (ret, h) \<leftarrow> luat_queue_pop (mb_heap s) (Some (mb_head s)) item;
          if ret = 0
          then do { i \<leftarrow> item;
                    it \<leftarrow> h i;
                    bs \<leftarrow> peek 0 16 (qi_msg it);
                    Some (rtos_msg_of bs, w, s\<lparr>mb_heap := item_free i h\<rparr>) }
          else (case uv_run w (s\<lparr>mb_heap := h\<rparr>) of (w', s') \<Rightarrow> msgbus_wait uv_run item w' s') }"

definition luat_msgbus_get ::
    "allocator \<Rightarrow> ('w \<Rightarrow> msgbus \<Rightarrow> 'w \<times> msgbus) \<Rightarrow> 'w \<Rightarrow> msgbus \<Rightarrow> (rtos_msg \<times> 'w \<times> msgbus) option" where
  "luat_msgbus_get al uv_run w s =
     (let item = malloc al (mb_heap s) (12 + 16);
          h = (case item of None \<Rightarrow> mb_heap s | Some i \<Rightarrow> (mb_heap s)(i \<mapsto> item_new 16))
      in msgbus_wait uv_run item w (s\<lparr>mb_heap := h\<rparr>))"

definition luat_msgbus_freesize :: "msgbus \<Rightarrow> nat" where
  "luat_msgbus_freesize s = 1"

definition luat_msgbus_is_empty :: "msgbus \<Rightarrow> nat option" where
  "luat_msgbus_is_empty s =
     do { sq \<leftarrow> mb_heap s (mb_head s); Some (if qi_next sq = None then 1 else 0) }"

section \<open>The bus as a first-in first-out store\<close>

definition msgbus_inv :: "msgbus \<Rightarrow> bool" where
  "msgbus_inv s \<longleftrightarrow> queue_wf 16 (mb_heap s) (mb_head s) \<and>
     (\<forall>bs\<in>set (queue_msgs (mb_heap s) (mb_head s)). length bs = 16)"

definition msgbus_pending :: "msgbus \<Rightarrow> rtos_msg list" where
  "msgbus_pending s = map rtos_msg_of (queue_msgs (mb_heap s) (mb_head s))"

lemma msgbus_init_inv:
  "h a = None \<Longrightarrow> msgbus_inv (luat_msgbus_init h a) \<and> msgbus_pending (luat_msgbus_init h a) = []"
proof -
  let ?h = "h(a \<mapsto> \<lparr>qi_next = None, qi_size = 0, qi_msg = replicate 4 0\<rparr>)"
  have r: "queue_rep ?h a []" by (simp add: queue_rep_def)
  from queue_msgs_rep [OF r] r show ?thesis
    by (auto simp: msgbus_inv_def msgbus_pending_def luat_msgbus_init_def queue_wf_def)
qed

lemma put_item [simp]:
  "\<lparr>qi_next = None, qi_size = 16, qi_msg = rtos_msg_bytes msg @ replicate 4 0\<rparr> = item_with (rtos_msg_bytes msg)"
  by (simp add: item_with_def)

lemma msgbus_put_none:
  "malloc al (mb_heap s) 28 = None \<Longrightarrow> luat_msgbus_put al msg s = Some (1, s)"
  by (simp add: luat_msgbus_put_def)

lemma msgbus_put_some:
  assumes inv: "msgbus_inv s" and a: "malloc al (mb_heap s) 28 = Some a"
  shows "\<exists>s'. luat_msgbus_put al msg s = Some (0, s') \<and> msgbus_inv s' \<and>
           msgbus_pending s' = msgbus_pending s @ [msg] \<and> mb_head s' = mb_head s"
proof -
  from inv have wf: "queue_wf 16 (mb_heap s) (mb_head s)" by (simp add: msgbus_inv_def)
  have poke: "poke 0 (rtos_msg_bytes msg) (qi_msg (item_new 16)) =
      Some (rtos_msg_bytes msg @ replicate 4 0)"
    by (simp add: poke_def item_new_def)
  from push_item_with [OF wf malloc_fresh [OF a], of "rtos_msg_bytes msg"] obtain h' where h':
    "luat_queue_push ((mb_heap s)(a \<mapsto> item_with (rtos_msg_bytes msg))) (Some (mb_head s)) (Some a)
       = Some (0, h')" "queue_wf 16 h' (mb_head s)"
    "queue_msgs h' (mb_head s) = queue_msgs (mb_heap s) (mb_head s) @ [rtos_msg_bytes msg]"
    by auto
  have "luat_msgbus_put al msg s = Some (0, s\<lparr>mb_heap := h'\<rparr>)"
    using a h'(1) poke by (simp add: luat_msgbus_put_def)
  moreover have "msgbus_inv (s\<lparr>mb_heap := h'\<rparr>)"
    using inv h' by (auto simp: msgbus_inv_def)
  ultimately show ?thesis using h'(3) by (auto simp: msgbus_pending_def)
qed

lemma msgbus_put_finite:
  "luat_msgbus_put al m s = Some (r, s') \<Longrightarrow> finite (dom (mb_heap s)) \<Longrightarrow> finite (dom (mb_heap s'))"
  by (auto simp: luat_msgbus_put_def luat_queue_push_def bind_eq_Some_conv Let_def split: option.splits if_splits)

text \<open>A bus with the receive buffer of a running \<open>luat_msgbus_get\<close> at \<open>i\<close>: taking the
  buffer away leaves a well-formed bus.\<close>

definition receiving :: "addr \<Rightarrow> msgbus \<Rightarrow> bool" where
  "receiving i s \<longleftrightarrow> mb_heap s i = Some (item_new 16) \<and>
     msgbus_inv (s\<lparr>mb_heap := item_free i (mb_heap s)\<rparr>)"

abbreviation rest :: "addr \<Rightarrow> msgbus \<Rightarrow> msgbus" where
  "rest i s \<equiv> s\<lparr>mb_heap := item_free i (mb_heap s)\<rparr>"

lemma receiving_heap:
  "receiving i s \<Longrightarrow> (item_free i (mb_heap s))(i \<mapsto> item_new 16) = mb_heap s"
  by (auto simp: receiving_def item_free_def)

lemma receiving_start:
  "msgbus_inv s \<Longrightarrow> mb_heap s i = None \<Longrightarrow>
     receiving i (s\<lparr>mb_heap := (mb_heap s)(i \<mapsto> item_new 16)\<rparr>) \<and>
     rest i (s\<lparr>mb_heap := (mb_heap s)(i \<mapsto> item_new 16)\<rparr>) = s"
  by (simp add: receiving_def item_free_def fun_upd_idem)

lemma msgbus_wait_pending:
  assumes r: "receiving i s" and p: "msgbus_pending (rest i s) = m # ms"
  shows "\<exists>s'. msgbus_wait uv_run (Some i) w s = Some (m, w, s') \<and> msgbus_inv s' \<and> msgbus_pending s' = ms"
proof -
  let ?q = "mb_head s" and ?h = "item_free i (mb_heap s)"
  from r have wf: "queue_wf 16 ?h ?q"
    and l16: "\<forall>bs\<in>set (queue_msgs ?h ?q). length bs = 16" by (auto simp: msgbus_inv_def receiving_def)
  from p obtain bs bss where b: "queue_msgs ?h ?q = bs # bss" "rtos_msg_of bs = m"
    "map rtos_msg_of bss = ms" by (auto simp: msgbus_pending_def)
  have cap: "16 \<le> length (qi_msg (item_new 16))" by (simp add: item_new_def)
  from pop_into [OF wf item_free_none b(1) cap] obtain h' dst' where h':
    "luat_queue_pop (mb_heap s) (Some ?q) (Some i) = Some (0, h')"
    "h' i = Some dst'" "take (length bs) (qi_msg dst') = bs"
    "length (qi_msg dst') = length (qi_msg (item_new 16))"
    "queue_wf 16 (item_free i h') ?q" "queue_msgs (item_free i h') ?q = bss"
    unfolding receiving_heap [OF r] by blast
  have len: "length bs = 16" using l16 b(1) by simp
  then have "peek 0 16 (qi_msg dst') = Some bs"
    using h'(3,4) by (simp add: peek_def item_new_def)
  then have "msgbus_wait uv_run (Some i) w s = Some (m, w, s\<lparr>mb_heap := item_free i h'\<rparr>)"
    using b(2) h'(1,2) by (simp add: msgbus_wait.simps)
  moreover have "msgbus_inv (s\<lparr>mb_heap := item_free i h'\<rparr>)"
    using h'(5,6) l16 b(1) by (auto simp: msgbus_inv_def)
  ultimately show ?thesis using h'(6) b(3) by (auto simp: msgbus_pending_def)
qed

lemma msgbus_wait_empty:
  assumes r: "receiving i s" and p: "msgbus_pending (rest i s) = []"
  shows "msgbus_wait uv_run (Some i) w s =
           (case uv_run w s of (w', s') \<Rightarrow> msgbus_wait uv_run (Some i) w' s')"
proof -
  let ?q = "mb_head s"
  from r p have wf: "queue_wf 16 (item_free i (mb_heap s)) ?q"
    and e: "queue_msgs (item_free i (mb_heap s)) ?q = []"
    by (auto simp: msgbus_inv_def receiving_def msgbus_pending_def)
  from queue_wf_upd_fresh [OF wf item_free_none, of "Some (item_new 16)"]
  have "luat_queue_pop (mb_heap s) (Some ?q) (Some i) = Some (-1, mb_heap s)"
    unfolding receiving_heap [OF r] e by (blast intro: pop_none)
  then show ?thesis by (subst msgbus_wait.simps) simp
qed

lemma msgbus_get_pending:
  assumes inv: "msgbus_inv s" and a: "malloc al (mb_heap s) 28 = Some i"
    and p: "msgbus_pending s = m # ms"
  shows "\<exists>s'. luat_msgbus_get al uv_run w s = Some (m, w, s') \<and> msgbus_inv s' \<and> msgbus_pending s' = ms"
  using msgbus_wait_pending [of i "s\<lparr>mb_heap := (mb_heap s)(i \<mapsto> item_new 16)\<rparr>" m ms uv_run w]
    receiving_start [OF inv malloc_fresh [OF a]] p a
  by (simp add: luat_msgbus_get_def)

text \<open>A failed allocation of the receive buffer is not noticed: the loop polls a null
  pointer and goes on for ever.\<close>

lemma msgbus_wait_Some_item: "msgbus_wait uv_run item w s = Some r \<Longrightarrow> item \<noteq> None"
proof (rule msgbus_wait.raw_induct [where P = "\<lambda>uv_run item w s r. item \<noteq> None"])
  fix f uv_run item w s r
  assume "\<And>uv_run item w s r. f uv_run item w s = Some r \<Longrightarrow> item \<noteq> None"
    and "do { (ret, h) \<leftarrow> luat_queue_pop (mb_heap s) (Some (mb_head s)) item;
          if ret = 0
          then do { i \<leftarrow> item; it \<leftarrow> h i; bs \<leftarrow> peek 0 16 (qi_msg it);
                    Some (rtos_msg_of bs, w, s\<lparr>mb_heap := item_free i h\<rparr>) }
          else (case uv_run w (s\<lparr>mb_heap := h\<rparr>) of (w', s') \<Rightarrow> f uv_run item w' s') } = Some r"
  then show "item \<noteq> None"
    by (cases item; cases r) (fastforce simp: pop_null split: prod.splits)+
qed

lemma msgbus_wait_null: "msgbus_wait uv_run None w s = None"
  using msgbus_wait_Some_item [of uv_run None w s] by (cases "msgbus_wait uv_run None w s") auto

text \<open>A client that looks before it takes, so that the receiving loop is not entered on an
  empty bus.\<close>

definition msgbus_offer :: "allocator \<Rightarrow> rtos_msg \<Rightarrow> msgbus \<Rightarrow> bool \<times> msgbus" where
  "msgbus_offer al m s =
     (case luat_msgbus_put al m s of None \<Rightarrow> (False, s) | Some (r, s') \<Rightarrow> (r = 0, s'))"

definition msgbus_poll :: "allocator \<Rightarrow> msgbus \<Rightarrow> rtos_msg option \<times> msgbus" where
  "msgbus_poll al s =
     (if luat_msgbus_is_empty s = Some 0 \<and> malloc al (mb_heap s) (12 + 16) \<noteq> None
      then (case luat_msgbus_get al Pair () s of None \<Rightarrow> (None, s) | Some (m, _, s') \<Rightarrow> (Some m, s'))
      else (None, s))"

lemma queue_rep_empty_iff:
  "queue_rep h q as \<Longrightarrow> \<exists>sq. h q = Some sq \<and> (qi_next sq = None \<longleftrightarrow> as = [])"
  by (cases as) (auto simp: queue_rep_def)

lemma msgbus_is_empty_iff:
  "msgbus_inv s \<Longrightarrow> luat_msgbus_is_empty s = Some (if msgbus_pending s = [] then 1 else 0)"
  unfolding msgbus_inv_def msgbus_pending_def luat_msgbus_is_empty_def
  by (auto elim!: queue_wfE dest!: queue_rep_empty_iff)

interpretation mbus: fifo_store "msgbus_offer al" "msgbus_poll al" msgbus_pending msgbus_inv
    "\<lambda>s. malloc al (mb_heap s) 28 \<noteq> None" for al
proof
  fix s m s'
  assume inv: "msgbus_inv s"
  show "msgbus_offer al m s = (True, s') \<Longrightarrow> msgbus_inv s' \<and> msgbus_pending s' = msgbus_pending s @ [m]"
    using msgbus_put_some [OF inv, of al _ m] msgbus_put_none [of al s m]
    by (cases "malloc al (mb_heap s) 28") (auto simp: msgbus_offer_def)
  show "msgbus_offer al m s = (False, s') \<Longrightarrow> msgbus_inv s' \<and> msgbus_pending s' = msgbus_pending s"
    using msgbus_put_some [OF inv, of al _ m] msgbus_put_none [of al s m] inv
    by (cases "malloc al (mb_heap s) 28") (auto simp: msgbus_offer_def)
next
  fix s m s'
  assume inv: "msgbus_inv s"
  have poll: "msgbus_poll al s = (case luat_msgbus_get al Pair () s of None \<Rightarrow> (None, s) | Some (m, _, s') \<Rightarrow> (Some m, s'))
      \<and> (\<exists>m ms. msgbus_pending s = m # ms)"
    if "msgbus_poll al s \<noteq> (None, s)"
    using that msgbus_is_empty_iff [OF inv]
    by (auto simp: msgbus_poll_def neq_Nil_conv split: if_splits)
  show "msgbus_poll al s = (None, s') \<Longrightarrow> msgbus_inv s' \<and> msgbus_pending s' = msgbus_pending s"
    using inv by (auto simp: msgbus_poll_def split: if_splits option.splits)
  show "msgbus_poll al s = (Some m, s') \<Longrightarrow> msgbus_inv s' \<and> msgbus_pending s = m # msgbus_pending s'"
    using poll msgbus_get_pending [OF inv, of al _ _ _ Pair "()"]
    by (fastforce simp: msgbus_poll_def split: if_splits option.splits)
  show "malloc al (mb_heap s) 28 \<noteq> None \<Longrightarrow> msgbus_pending s \<noteq> [] \<Longrightarrow> fst (msgbus_poll al s) \<noteq> None"
    using msgbus_get_pending [OF inv, of al _ _ _ Pair "()"] msgbus_is_empty_iff [OF inv]
    by (fastforce simp: msgbus_poll_def neq_Nil_conv)
qed

section \<open>The receiving loop and the callbacks of libuv\<close>

text \<open>While \<open>luat_msgbus_get\<close> waits, callbacks reach the bus through \<open>luat_msgbus_put\<close> only.
  That keeps the receive buffer apart from the queue.\<close>

lemma receiving_offer:
  assumes r: "receiving i s"
  shows "\<exists>s'. msgbus_offer al m s = (malloc al (mb_heap s) 28 \<noteq> None, s') \<and> receiving i s' \<and>
     msgbus_pending (rest i s') =
       msgbus_pending (rest i s) @ (if malloc al (mb_heap s) 28 \<noteq> None then [m] else [])"
proof (cases "malloc al (mb_heap s) 28")
  case None
  with msgbus_put_none [OF None, of m] have "msgbus_offer al m s = (False, s)"
    by (simp add: msgbus_offer_def)
  with r None show ?thesis by simp
next
  case (Some a)
  let ?h = "item_free i (mb_heap s)" and ?q = "mb_head s" and ?it = "item_with (rtos_msg_bytes m)"
  from malloc_fresh [OF Some] r have a: "a \<noteq> i" "?h a = None"
    by (auto simp: receiving_def item_free_def)
  from r have wf: "queue_wf 16 ?h ?q"
    and l16: "\<forall>bs\<in>set (queue_msgs ?h ?q). length bs = 16"
    by (auto simp: receiving_def msgbus_inv_def)
  from push_item_with [OF wf a(2), of "rtos_msg_bytes m"] obtain h' where h':
    "luat_queue_push (?h(a \<mapsto> ?it)) (Some ?q) (Some a) = Some (0, h')" "queue_wf 16 h' ?q"
    "queue_msgs h' ?q = queue_msgs ?h ?q @ [rtos_msg_bytes m]" by auto
  from queue_wf_upd_fresh [OF wf a(2), of "Some ?it"] obtain as
    where "queue_rep (?h(a \<mapsto> ?it)) ?q as" by (auto simp: queue_wf_def)
  moreover have "(?h(a \<mapsto> ?it))(i \<mapsto> item_new 16) = (mb_heap s)(a \<mapsto> ?it)"
    using receiving_heap [OF r] a(1) by (metis fun_upd_twist)
  ultimately have push: "luat_queue_push ((mb_heap s)(a \<mapsto> ?it)) (Some ?q) (Some a) = Some (0, h'(i \<mapsto> item_new 16))"
    and i: "h' i = None"
    using push_frame [OF _ _ h'(1), of as i "item_new 16"] a(1) by auto
  have free: "item_free i (h'(i \<mapsto> item_new 16)) = h'"
    using i by (simp add: item_free_def fun_upd_idem)
  have "poke 0 (rtos_msg_bytes m) (qi_msg (item_new 16)) = Some (rtos_msg_bytes m @ replicate 4 0)"
    by (simp add: poke_def item_new_def)
  then have "msgbus_offer al m s = (True, s\<lparr>mb_heap := h'(i \<mapsto> item_new 16)\<rparr>)"
    using Some push by (simp add: msgbus_offer_def luat_msgbus_put_def)
  moreover have "msgbus_inv (s\<lparr>mb_heap := h'\<rparr>)"
    using h'(2,3) l16 by (auto simp: msgbus_inv_def)
  ultimately show ?thesis
    using h'(3) Some free by (simp add: receiving_def msgbus_pending_def)
qed

abbreviation uv_iterate :: "('w \<Rightarrow> msgbus \<Rightarrow> 'w \<times> msgbus) \<Rightarrow> nat \<Rightarrow> 'w \<times> msgbus \<Rightarrow> 'w \<times> msgbus" where
  "uv_iterate uv_run k \<equiv> (\<lambda>(w, s). uv_run w s) ^^ k"

lemma msgbus_wait_eventually:
  assumes keep: "\<And>w s. receiving i s \<Longrightarrow> receiving i (snd (uv_run w s))"
    and "receiving i s"
    and "uv_iterate uv_run k (w, s) = (w', s')" and "msgbus_pending (rest i s') = m # ms"
    and "\<forall>j<k. msgbus_pending (rest i (snd (uv_iterate uv_run j (w, s)))) = []"
  shows "\<exists>t. msgbus_wait uv_run (Some i) w s = Some (m, w', t) \<and> msgbus_inv t \<and> msgbus_pending t = ms"
  using assms(2-)
proof (induction k arbitrary: w s)
  case 0
  then show ?case using msgbus_wait_pending by fastforce
next
  case (Suc k)
  obtain w1 s1 where s1: "uv_run w s = (w1, s1)" by force
  have e: "msgbus_pending (rest i s) = []" using Suc.prems(4) by force
  have "receiving i s1" using keep [OF Suc.prems(1), of w] s1 by simp
  moreover have "uv_iterate uv_run k (w1, s1) = (w', s')"
    using Suc.prems(2) s1 by (simp add: funpow_swap1)
  moreover have "\<forall>j<k. msgbus_pending (rest i (snd (uv_iterate uv_run j (w1, s1)))) = []"
  proof (intro allI impI)
    fix j assume "j < k"
    then show "msgbus_pending (rest i (snd (uv_iterate uv_run j (w1, s1)))) = []"
      using Suc.prems(4) [rule_format, of "Suc j"] s1 by (simp add: funpow_swap1)
  qed
  ultimately have "\<exists>t. msgbus_wait uv_run (Some i) w1 s1 = Some (m, w', t) \<and> msgbus_inv t \<and> msgbus_pending t = ms"
    using Suc.IH Suc.prems(3) by blast
  then show ?case unfolding msgbus_wait_empty [OF Suc.prems(1) e] s1 by simp
qed

section \<open>Properties\<close>

text \<open>C2: The message bus is a lossless first-in first-out channel. From a freshly
  initialised bus, whatever sequence of posts and receives runs and whichever allocations
  fail in it, the delivered messages followed by those still queued are exactly the
  accepted messages in the order of acceptance.\<close>

theorem msgbus_fifo:
  assumes "h a = None"
    and "store_run (msgbus_offer al) (msgbus_poll al) ops (luat_msgbus_init h a) = (acc, del, s')"
  shows "acc = del @ msgbus_pending s' \<and> msgbus_inv s'"
  using mbus.run_fifo [OF _ assms(2)] msgbus_init_inv [of h a] assms(1) by simp

theorem msgbus_fifo_witness:
  "\<exists>acc del s'. store_run (msgbus_offer small_alloc) (msgbus_poll small_alloc)
       [Put \<lparr>rm_handler = 1, rm_ptr = 2, rm_arg1 = 3, rm_arg2 = 4\<rparr>, Get]
       (luat_msgbus_init (\<lambda>_. None) 0) = (acc, del, s') \<and>
     acc = del @ msgbus_pending s' \<and> msgbus_inv s'"
proof -
  obtain acc del s' where r: "store_run (msgbus_offer small_alloc) (msgbus_poll small_alloc)
       [Put \<lparr>rm_handler = 1, rm_ptr = 2, rm_arg1 = 3, rm_arg2 = 4\<rparr>, Get]
       (luat_msgbus_init (\<lambda>_. None) 0) = (acc, del, s')" by (metis prod_cases3)
  from msgbus_fifo [OF _ this] show ?thesis using r by simp
qed

text \<open>C33: \<open>luat_msgbus_get\<close> returns as soon as a message is there. If the bus is empty and
  its receive buffer was allocated, and the \<open>k\<close>-th iteration of the libuv loop is the
  first that leaves messages on the bus, then the call returns the oldest of them after
  exactly these \<open>k\<close> iterations, and leaves the others queued. Iterations are only assumed to
  leave the receive buffer alone and the bus well-formed, as posting does.\<close>

theorem msgbus_get_returns:
  assumes "msgbus_inv s" and "malloc al (mb_heap s) 28 = Some i"
    and "\<And>w s. receiving i s \<Longrightarrow> receiving i (snd (uv_run w s))"
    and "uv_iterate uv_run k (w, s\<lparr>mb_heap := (mb_heap s)(i \<mapsto> item_new 16)\<rparr>) = (w', s')"
    and "msgbus_pending (rest i s') = m # ms"
    and "\<forall>j<k. msgbus_pending (rest i (snd (uv_iterate uv_run j
           (w, s\<lparr>mb_heap := (mb_heap s)(i \<mapsto> item_new 16)\<rparr>)))) = []"
  shows "\<exists>t. luat_msgbus_get al uv_run w s = Some (m, w', t) \<and> msgbus_inv t \<and> msgbus_pending t = ms"
  using msgbus_wait_eventually [OF assms(3) _ assms(4-6)] receiving_start [OF assms(1) malloc_fresh [OF assms(2)]]
    assms(2)
  by (simp add: luat_msgbus_get_def)

definition post_run :: "nat \<Rightarrow> msgbus \<Rightarrow> nat \<times> msgbus" where
  "post_run w s = (w - 1, if w = 1 then snd (msgbus_offer small_alloc
     \<lparr>rm_handler = 5, rm_ptr = 6, rm_arg1 = 7, rm_arg2 = 8\<rparr> s) else s)"

theorem msgbus_get_returns_witness:
  "\<exists>t. luat_msgbus_get small_alloc post_run 2 (luat_msgbus_init (\<lambda>_. None) 0) =
     Some (\<lparr>rm_handler = 5, rm_ptr = 6, rm_arg1 = 7, rm_arg2 = 8\<rparr>, 0, t)"
proof -
  let ?s = "luat_msgbus_init (\<lambda>_. None) 0" and ?m = "\<lparr>rm_handler = 5, rm_ptr = 6, rm_arg1 = 7, rm_arg2 = 8\<rparr>"
  let ?r = "?s\<lparr>mb_heap := (mb_heap ?s)(1 \<mapsto> item_new 16)\<rparr>"
  have inv: "msgbus_inv ?s" "msgbus_pending ?s = []" using msgbus_init_inv [of "\<lambda>_. None" 0] by auto
  have i: "malloc small_alloc (mb_heap ?s) 28 = Some 1"
    by (simp add: luat_msgbus_init_def upt_rec)
  have keep: "receiving 1 (snd (post_run w s))" if "receiving 1 s" for w s
    using receiving_offer [OF that, of small_alloc ?m] that by (auto simp: post_run_def)
  have r: "receiving 1 ?r" "rest 1 ?r = ?s"
    using receiving_start [OF inv(1), of 1] by (simp_all add: luat_msgbus_init_def)
  have m: "malloc small_alloc (mb_heap ?r) 28 \<noteq> None"
    by (simp add: luat_msgbus_init_def upt_rec)
  from receiving_offer [OF r(1), of small_alloc ?m] m
  have "msgbus_pending (rest 1 (snd (msgbus_offer small_alloc ?m ?r))) = [?m]"
    using r(2) inv(2) by auto
  moreover have "uv_iterate post_run 2 (2, ?r) = (0, snd (msgbus_offer small_alloc ?m ?r))"
    by (simp add: numeral_2_eq_2 post_run_def)
  moreover have "\<forall>j<2. msgbus_pending (rest 1 (snd (uv_iterate post_run j (2, ?r)))) = []"
    using r(2) inv(2) by (auto simp: less_Suc_eq numeral_2_eq_2 post_run_def)
  ultimately show ?thesis
    using msgbus_get_returns [where uv_run = post_run, OF inv(1) i keep] by blast
qed

text \<open>When the receive buffer cannot be allocated, \<open>luat_msgbus_get\<close> never returns,
  whatever the callbacks post: the queue refuses a null buffer, and the loop retries.\<close>

theorem msgbus_get_out_of_memory:
  "malloc al (mb_heap s) 28 = None \<Longrightarrow> luat_msgbus_get al uv_run w s = None"
  by (simp add: luat_msgbus_get_def msgbus_wait_null)

theorem msgbus_get_out_of_memory_witness:
  "luat_msgbus_get (Abs_allocator (\<lambda>_ _. None)) Pair () (luat_msgbus_init (\<lambda>_. None) 0) = None"
  by (rule msgbus_get_out_of_memory) (subst malloc_Abs, simp_all)

end
