(* ===== verification/Rtos_Task_Pc.thy ===== *)
theory Rtos_Task_Pc
  imports Queue_Pc
begin

text \<open>
  Tasks of \<open>port/rtos/luat_rtos_task_pc.c\<close>: a task is a libuv thread with a queue for
  events (four words) and messages (an id and a pointer). The receiving loops poll the
  queue once per millisecond. Other threads run while the receiver sleeps; they are the
  parameter \<open>others\<close>, which changes the heap and a state of their own. The lemmas show
  that a receive with a finite timeout returns, what it returns, and that sending
  and receiving form a first-in first-out store.
\<close>

section \<open>Events, messages and tasks\<close>

record luat_event =
  ev_id :: u32
  ev_param1 :: u32
  ev_param2 :: u32
  ev_param3 :: u32

record luat_message_item =
  mi_id :: u32
  mi_msg :: u32

definition luat_event_bytes :: "luat_event \<Rightarrow> byte list" where
  "luat_event_bytes e = le_bytes 4 (unat (ev_id e)) @ le_bytes 4 (unat (ev_param1 e)) @
     le_bytes 4 (unat (ev_param2 e)) @ le_bytes 4 (unat (ev_param3 e))"

definition luat_event_of :: "byte list \<Rightarrow> luat_event" where
  "luat_event_of bs = \<lparr>ev_id = of_nat (le_val (take 4 bs)),
     ev_param1 = of_nat (le_val (take 4 (drop 4 bs))),
     ev_param2 = of_nat (le_val (take 4 (drop 8 bs))),
     ev_param3 = of_nat (le_val (take 4 (drop 12 bs)))\<rparr>"

definition message_item_bytes :: "luat_message_item \<Rightarrow> byte list" where
  "message_item_bytes m = le_bytes 4 (unat (mi_id m)) @ le_bytes 4 (unat (mi_msg m))"

definition message_item_of :: "byte list \<Rightarrow> luat_message_item" where
  "message_item_of bs = \<lparr>mi_id = of_nat (le_val (take 4 bs)), mi_msg = of_nat (le_val (take 4 (drop 4 bs)))\<rparr>"

text \<open>The queue sentinel of a task is the heap cell at the address of the task; the other
  fields are kept beside it.\<close>

record utask =
  ut_task_fun :: u32
  ut_user_data :: u32
  ut_event_cout :: u16

record rtos =
  rt_heap :: qheap
  rt_tasks :: "addr \<rightharpoonup> utask"

section \<open>Operations\<close>

definition heap_free :: "ptr \<Rightarrow> qheap \<Rightarrow> qheap" where
  "heap_free p h = (case p of None \<Rightarrow> h | Some a \<Rightarrow> item_free a h)"

text \<open>\<open>usize\<close> is the size of \<open>utask_t\<close>, which the types of libuv determine, and \<open>ret\<close> what
  \<open>uv_thread_create\<close> returns. The result holds the stored task handle.\<close>

definition luat_rtos_task_create ::
    "allocator \<Rightarrow> nat \<Rightarrow> int \<Rightarrow> u32 \<Rightarrow> u32 \<Rightarrow> u16 \<Rightarrow> rtos \<Rightarrow> int \<times> ptr \<times> rtos" where
  "luat_rtos_task_create al usize ret task_fun user_data event_cout s =
     (case malloc al (rt_heap s) usize of
        None \<Rightarrow> (-1, None, s)
      | Some t \<Rightarrow>
          let s1 = s\<lparr>rt_heap := (rt_heap s)(t \<mapsto> \<lparr>qi_next = None, qi_size = 0, qi_msg = replicate 4 0\<rparr>),
                     rt_tasks := (rt_tasks s)(t \<mapsto> \<lparr>ut_task_fun = task_fun, ut_user_data = user_data,
                                                   ut_event_cout = event_cout\<rparr>)\<rparr>
          in if ret \<noteq> 0
             then (ret, None, s1\<lparr>rt_heap := item_free t (rt_heap s1), rt_tasks := (rt_tasks s1)(t := None)\<rparr>)
             else (0, Some t, s1))"

definition luat_rtos_task_delete :: "ptr \<Rightarrow> rtos \<Rightarrow> int \<times> rtos" where
  "luat_rtos_task_delete task s =
     (0, case task of None \<Rightarrow> s
         | Some t \<Rightarrow> s\<lparr>rt_heap := item_free t (rt_heap s), rt_tasks := (rt_tasks s)(t := None)\<rparr>)"

text \<open>The allocation is not checked here: \<open>memset\<close> on a null pointer is undefined.\<close>

definition luat_rtos_event_send ::
    "allocator \<Rightarrow> ptr \<Rightarrow> u32 \<Rightarrow> u32 \<Rightarrow> u32 \<Rightarrow> u32 \<Rightarrow> rtos \<Rightarrow> (int \<times> rtos) option" where
  "luat_rtos_event_send al task event_id param1 param2 param3 s =
     (case task of None \<Rightarrow> Some (-1, s) | Some t \<Rightarrow>
        do { let e = \<lparr>ev_id = event_id, ev_param1 = param1, ev_param2 = param2, ev_param3 = param3\<rparr>;
             a \<leftarrow> malloc al (rt_heap s) (12 + 16);
             m \<leftarrow> poke 0 (luat_event_bytes e) (qi_msg (item_new 16));
             let item = \<lparr>qi_next = None, qi_size = 16, qi_msg = m\<rparr>;
             (ret, h) \<leftarrow> luat_queue_push ((rt_heap s)(a \<mapsto> item)) (Some t) (Some a);
             Some (ret, s\<lparr>rt_heap := h\<rparr>) })"

text \<open>The timeout counts polls; the value \<open>(size_t)(-1)\<close> does not count down.\<close>

definition timeout_tick :: "u32 \<Rightarrow> u32" where
  "timeout_tick timeout = (if 0 < timeout \<and> timeout \<noteq> -1 then timeout - 1 else timeout)"

partial_function (option) event_wait ::
    "('w \<Rightarrow> qheap \<Rightarrow> 'w \<times> qheap) \<Rightarrow> addr \<Rightarrow> ptr \<Rightarrow> (u32 \<Rightarrow> bool) \<Rightarrow> u32 \<Rightarrow> 'w \<Rightarrow> qheap \<Rightarrow> luat_event option \<Rightarrow>
     (int \<times> luat_event option \<times> 'w \<times> qheap) option" where
  "event_wait others t item wanted timeout w h out_event =
     do { (ret, h1) \<leftarrow> luat_queue_pop h (Some t) item;
          out1 \<leftarrow> (if ret = 0
                   then do { i \<leftarrow> item; it \<leftarrow> h1 i; bs \<leftarrow> peek 0 16 (qi_msg it); Some (Some (luat_event_of bs)) }
                   else Some out_event);
          if ret = 0 \<and> (case out1 of None \<Rightarrow> False | Some e \<Rightarrow> wanted (ev_id e))
          then Some (0, out1, w, heap_free item h1)
          else if timeout = 0 then Some (1, out1, w, heap_free item h1)
          else (case others w h1 of (w', h2) \<Rightarrow>
                  event_wait others t item wanted (timeout_tick timeout) w' h2 out1) }"

text \<open>\<open>any\<close> is the constant \<open>CORE_EVENT_ID_ANY\<close>.\<close>

definition luat_rtos_event_recv ::
    "allocator \<Rightarrow> u32 \<Rightarrow> ('w \<Rightarrow> qheap \<Rightarrow> 'w \<times> qheap) \<Rightarrow> ptr \<Rightarrow> u32 \<Rightarrow> u32 \<Rightarrow> 'w \<Rightarrow> rtos \<Rightarrow>
     (int \<times> luat_event option \<times> 'w \<times> rtos) option" where
  "luat_rtos_event_recv al any others task wait_event_id timeout w s =
     (case task of None \<Rightarrow> Some (-1, None, w, s) | Some t \<Rightarrow>
        do { let item = malloc al (rt_heap s) (12 + 16);
             let h = (case item of None \<Rightarrow> rt_heap s | Some i \<Rightarrow> (rt_heap s)(i \<mapsto> item_new 16));
             (ret, out, w', h') \<leftarrow> event_wait others t item (\<lambda>id. wait_event_id = any \<or> id = wait_event_id) timeout w h None;
             Some (ret, out, w', s\<lparr>rt_heap := h'\<rparr>) })"

definition luat_rtos_message_send :: "allocator \<Rightarrow> ptr \<Rightarrow> u32 \<Rightarrow> u32 \<Rightarrow> rtos \<Rightarrow> (int \<times> rtos) option" where
  "luat_rtos_message_send al task message_id p_message s =
     (case task of None \<Rightarrow> Some (-1, s) | Some t \<Rightarrow>
       (case malloc al (rt_heap s) (12 + 8) of None \<Rightarrow> Some (-1, s) | Some a \<Rightarrow>
          do { m \<leftarrow> poke 0 (message_item_bytes \<lparr>mi_id = message_id, mi_msg = p_message\<rparr>) (qi_msg (item_new 8));
               let item = \<lparr>qi_next = None, qi_size = 8, qi_msg = m\<rparr>;
               (ret, h) \<leftarrow> luat_queue_push ((rt_heap s)(a \<mapsto> item)) (Some t) (Some a);
               Some (ret, s\<lparr>rt_heap := h\<rparr>) }))"

partial_function (option) message_wait ::
    "('w \<Rightarrow> qheap \<Rightarrow> 'w \<times> qheap) \<Rightarrow> addr \<Rightarrow> ptr \<Rightarrow> u32 \<Rightarrow> 'w \<Rightarrow> qheap \<Rightarrow>
     (int \<times> luat_message_item option \<times> 'w \<times> qheap) option" where
  "message_wait others t item timeout w h =
     do { (ret, h1) \<leftarrow> luat_queue_pop h (Some t) item;
          if ret = 0
          then do { i \<leftarrow> item; it \<leftarrow> h1 i; bs \<leftarrow> peek 0 8 (qi_msg it);
                    Some (0, Some (message_item_of bs), w, heap_free item h1) }
          else if timeout = 0 then Some (1, None, w, heap_free item h1)
          else (case others w h1 of (w', h2) \<Rightarrow>
                  message_wait others t item (timeout_tick timeout) w' h2) }"

text \<open>\<open>has_id\<close> and \<open>has_msg\<close> say whether the two output pointers are valid.\<close>

definition luat_rtos_message_recv ::
    "allocator \<Rightarrow> ('w \<Rightarrow> qheap \<Rightarrow> 'w \<times> qheap) \<Rightarrow> ptr \<Rightarrow> bool \<Rightarrow> bool \<Rightarrow> u32 \<Rightarrow> 'w \<Rightarrow> rtos \<Rightarrow>
     (int \<times> luat_message_item option \<times> 'w \<times> rtos) option" where
  "luat_rtos_message_recv al others task has_id has_msg timeout w s =
     (case task of None \<Rightarrow> Some (-1, None, w, s) | Some t \<Rightarrow>
        if \<not> has_id \<or> \<not> has_msg then Some (-1, None, w, s) else
        do { let item = malloc al (rt_heap s) (12 + 8);
             let h = (case item of None \<Rightarrow> rt_heap s | Some i \<Rightarrow> (rt_heap s)(i \<mapsto> item_new 8));
             (ret, out, w', h') \<leftarrow> message_wait others t item timeout w h;
             Some (ret, out, w', s\<lparr>rt_heap := h'\<rparr>) })"

text \<open>The port has no critical sections.\<close>

definition luat_rtos_entry_critical :: "u32" where
  "luat_rtos_entry_critical = 0"

section \<open>Encodings\<close>

lemma le_val_word32 [simp]: "le_val (le_bytes 4 (unat (w :: u32))) = unat w"
  using unsigned_less [of w, where 'a = nat] by simp

lemma length_event_bytes [simp]: "length (luat_event_bytes e) = 16"
  by (simp add: luat_event_bytes_def)

lemma event_of_bytes [simp]: "luat_event_of (luat_event_bytes e) = e"
  by (simp add: luat_event_of_def luat_event_bytes_def)

lemma length_message_bytes [simp]: "length (message_item_bytes m) = 8"
  by (simp add: message_item_bytes_def)

lemma message_of_bytes [simp]: "message_item_of (message_item_bytes m) = m"
  by (simp add: message_item_of_def message_item_bytes_def)

lemma timeout_tick_less: "timeout \<noteq> 0 \<Longrightarrow> timeout \<noteq> -1 \<Longrightarrow> unat (timeout_tick timeout) = unat timeout - 1"
  by (simp add: timeout_tick_def unat_minus_one word_gt_0)

lemma timeout_tick_finite: "timeout \<noteq> -1 \<Longrightarrow> timeout_tick timeout \<noteq> -1"
  by (auto simp: timeout_tick_def word_gt_0 diff_eq_eq)

section \<open>The receiving loop of events\<close>

lemma event_wait_empty:
  assumes "recv_cell 16 i h t" and "recv_msgs i h t = []"
  shows "event_wait others t (Some i) wanted timeout w h out =
     (if timeout = 0 then Some (1, out, w, item_free i h)
      else (case others w h of (w', h2) \<Rightarrow>
              event_wait others t (Some i) wanted (timeout_tick timeout) w' h2 out))"
  using pop_recv_empty [OF assms]
  by (subst event_wait.simps) (simp add: heap_free_def split: prod.splits)

lemma event_wait_pending:
  assumes "recv_cell 16 i h t" and "recv_msgs i h t = bs # ms"
  shows "\<exists>h1 e. recv_cell 16 i h1 t \<and> recv_msgs i h1 t = ms \<and> (length bs = 16 \<longrightarrow> e = luat_event_of bs) \<and>
     event_wait others t (Some i) wanted timeout w h out =
     (if wanted (ev_id e) then Some (0, Some e, w, item_free i h1)
      else if timeout = 0 then Some (1, Some e, w, item_free i h1)
      else (case others w h1 of (w', h2) \<Rightarrow>
              event_wait others t (Some i) wanted (timeout_tick timeout) w' h2 (Some e)))"
proof -
  from pop_recv [OF assms] obtain h1 dst where h1: "luat_queue_pop h (Some t) (Some i) = Some (0, h1)"
    "h1 i = Some dst" "16 \<le> length (qi_msg dst)" "take (length bs) (qi_msg dst) = bs"
    "recv_cell 16 i h1 t" "recv_msgs i h1 t = ms" by blast
  let ?e = "luat_event_of (take 16 (qi_msg dst))"
  have "peek 0 16 (qi_msg dst) = Some (take 16 (qi_msg dst))" using h1(3) by (simp add: peek_def)
  then have "event_wait others t (Some i) wanted timeout w h out =
     (if wanted (ev_id ?e) then Some (0, Some ?e, w, item_free i h1)
      else if timeout = 0 then Some (1, Some ?e, w, item_free i h1)
      else (case others w h1 of (w', h2) \<Rightarrow>
              event_wait others t (Some i) wanted (timeout_tick timeout) w' h2 (Some ?e)))"
    using h1(1,2) by (subst event_wait.simps) (simp add: heap_free_def split: prod.splits)
  moreover have "length bs = 16 \<longrightarrow> ?e = luat_event_of bs" using h1(4) by auto
  ultimately show ?thesis using h1(5,6) by blast
qed

lemma event_wait_returns:
  assumes keep: "\<And>w h. recv_cell 16 i h t \<Longrightarrow> recv_cell 16 i (snd (others w h)) t"
    and "recv_cell 16 i h t" and "timeout \<noteq> -1"
  shows "\<exists>r out' w' h'. event_wait others t (Some i) wanted timeout w h out = Some (r, out', w', h') \<and>
     (r = 0 \<and> (\<exists>e. out' = Some e \<and> wanted (ev_id e)) \<or> r = 1) \<and> queue_wf 16 h' t"
  using assms(2,3)
proof (induction "unat timeout" arbitrary: timeout w h out rule: less_induct)
  case less
  have next_round: "\<exists>r out' w' h'. (case others w h1 of (w', h2) \<Rightarrow>
        event_wait others t (Some i) wanted (timeout_tick timeout) w' h2 o1) = Some (r, out', w', h') \<and>
        (r = 0 \<and> (\<exists>e. out' = Some e \<and> wanted (ev_id e)) \<or> r = 1) \<and> queue_wf 16 h' t"
    if "recv_cell 16 i h1 t" "timeout \<noteq> 0" for h1 o1
  proof -
    obtain w1 h2 where o: "others w h1 = (w1, h2)" by force
    have "recv_cell 16 i h2 t" using keep [OF that(1), of w] o by simp
    moreover have "unat (timeout_tick timeout) < unat timeout"
      using timeout_tick_less [OF that(2) less.prems(2)] that(2) by (simp add: unat_gt_0)
    ultimately show ?thesis
      using less.hyps timeout_tick_finite [OF less.prems(2)] o by simp
  qed
  have wf: "queue_wf 16 (item_free i h1) t" if "recv_cell 16 i h1 t" for h1
    using that by (simp add: recv_cell_def)
  show ?case
  proof (cases "recv_msgs i h t")
    case Nil
    show ?thesis unfolding event_wait_empty [OF less.prems(1) Nil]
      using next_round [OF less.prems(1)] wf [OF less.prems(1)] by simp
  next
    case (Cons bs ms)
    from event_wait_pending [OF less.prems(1) Cons] obtain h1 e where h1: "recv_cell 16 i h1 t"
      "event_wait others t (Some i) wanted timeout w h out =
       (if wanted (ev_id e) then Some (0, Some e, w, item_free i h1)
        else if timeout = 0 then Some (1, Some e, w, item_free i h1)
        else (case others w h1 of (w', h2) \<Rightarrow>
              event_wait others t (Some i) wanted (timeout_tick timeout) w' h2 (Some e)))" by metis
    show ?thesis unfolding h1(2) using next_round [OF h1(1)] wf [OF h1(1)] by simp
  qed
qed

text \<open>What the loop computes on the queued events when no other thread sends.\<close>

fun await_event :: "(u32 \<Rightarrow> bool) \<Rightarrow> nat \<Rightarrow> luat_event list \<Rightarrow> luat_event option \<Rightarrow>
    int \<times> luat_event option \<times> luat_event list" where
  "await_event wanted n [] out = (1, out, [])"
| "await_event wanted 0 (e # es) out = (if wanted (ev_id e) then 0 else 1, Some e, es)"
| "await_event wanted (Suc n) (e # es) out =
     (if wanted (ev_id e) then (0, Some e, es) else await_event wanted n es (Some e))"

lemma await_event_head: "wanted (ev_id e) \<Longrightarrow> await_event wanted n (e # es) out = (0, Some e, es)"
  by (cases n) auto

lemma event_wait_no_time:
  assumes "recv_cell 16 i h t" and "\<forall>bs\<in>set (recv_msgs i h t). length bs = 16"
    and "await_event wanted 0 (map luat_event_of (recv_msgs i h t)) out = (r, out', es)"
  shows "\<exists>h'. event_wait Pair t (Some i) wanted 0 w h out = Some (r, out', w, h') \<and>
     queue_wf 16 h' t \<and> map luat_event_of (queue_msgs h' t) = es"
proof (cases "recv_msgs i h t")
  case Nil
  with assms show ?thesis unfolding event_wait_empty [OF assms(1) Nil] by (simp add: recv_cell_def)
next
  case (Cons bs ms)
  from event_wait_pending [OF assms(1) Cons, of Pair wanted 0 w out] assms Cons show ?thesis
    by (auto simp: recv_cell_def)
qed

lemma event_wait_quiet:
  assumes "recv_cell 16 i h t" and "\<forall>bs\<in>set (recv_msgs i h t). length bs = 16" and "timeout \<noteq> -1"
    and "await_event wanted (unat timeout) (map luat_event_of (recv_msgs i h t)) out = (r, out', es)"
  shows "\<exists>h'. event_wait Pair t (Some i) wanted timeout w h out = Some (r, out', w, h') \<and>
     queue_wf 16 h' t \<and> map luat_event_of (queue_msgs h' t) = es"
  using assms
proof (induction "unat timeout" arbitrary: timeout h out)
  case 0
  then have "timeout = 0" by (simp add: unat_eq_0)
  with event_wait_no_time [OF 0(2,3)] 0(5) show ?case by simp
next
  case (Suc n)
  have t: "timeout \<noteq> 0" using Suc.hyps(2) by auto
  have n: "n = unat (timeout_tick timeout)"
    using timeout_tick_less [OF t Suc.prems(3)] Suc.hyps(2) by simp
  note fin = timeout_tick_finite [OF Suc.prems(3)]
  show ?case
  proof (cases "recv_msgs i h t")
    case Nil
    have "await_event wanted n [] out = (r, out', es)"
      using Suc.prems(4) Suc.hyps(2) Nil by simp
    with Suc.hyps(1) [OF n Suc.prems(1,2) fin, of out] n Nil
    have "\<exists>h'. event_wait Pair t (Some i) wanted (timeout_tick timeout) w h out = Some (r, out', w, h') \<and>
       queue_wf 16 h' t \<and> map luat_event_of (queue_msgs h' t) = es" by simp
    with t show ?thesis
      by (subst event_wait_empty [OF Suc.prems(1) Nil]) simp
  next
    case (Cons bs ms)
    with Suc.prems(2) have l: "length bs = 16" by simp
    from event_wait_pending [OF Suc.prems(1) Cons, of Pair wanted timeout w out] l t
    obtain h1 where h1: "recv_cell 16 i h1 t" "recv_msgs i h1 t = ms"
      "event_wait Pair t (Some i) wanted timeout w h out =
       (if wanted (ev_id (luat_event_of bs)) then Some (0, Some (luat_event_of bs), w, item_free i h1)
        else event_wait Pair t (Some i) wanted (timeout_tick timeout) w h1 (Some (luat_event_of bs)))"
      by auto
    have spec: "(if wanted (ev_id (luat_event_of bs)) then (0, Some (luat_event_of bs), map luat_event_of ms)
        else await_event wanted n (map luat_event_of ms) (Some (luat_event_of bs))) = (r, out', es)"
      using Suc.prems(4) Cons unfolding Suc.hyps(2) [symmetric] by simp
    show ?thesis
    proof (cases "wanted (ev_id (luat_event_of bs))")
      case True
      with spec h1 show ?thesis by (auto simp: recv_cell_def)
    next
      case False
      with Suc.hyps(1) [OF n h1(1) _ fin, of "Some (luat_event_of bs)"] spec n h1 Suc.prems(2) Cons
      show ?thesis by auto
    qed
  qed
qed

section \<open>Messages between tasks as a first-in first-out store\<close>

definition message_inv :: "addr \<Rightarrow> rtos \<Rightarrow> bool" where
  "message_inv t s \<longleftrightarrow> queue_wf 8 (rt_heap s) t \<and> (\<forall>bs\<in>set (queue_msgs (rt_heap s) t). length bs = 8)"

definition task_messages :: "addr \<Rightarrow> rtos \<Rightarrow> luat_message_item list" where
  "task_messages t s = map message_item_of (queue_msgs (rt_heap s) t)"

definition message_offer :: "allocator \<Rightarrow> addr \<Rightarrow> luat_message_item \<Rightarrow> rtos \<Rightarrow> bool \<times> rtos" where
  "message_offer al t m s =
     (case luat_rtos_message_send al (Some t) (mi_id m) (mi_msg m) s of
        None \<Rightarrow> (False, s) | Some (r, s') \<Rightarrow> (r = 0, s'))"

definition message_poll :: "allocator \<Rightarrow> addr \<Rightarrow> rtos \<Rightarrow> luat_message_item option \<times> rtos" where
  "message_poll al t s =
     (case luat_rtos_message_recv al Pair (Some t) True True 0 () s of
        None \<Rightarrow> (None, s) | Some (r, out, _, s') \<Rightarrow> (out, s'))"

lemma message_send_ok:
  assumes inv: "message_inv t s" and a: "malloc al (rt_heap s) 20 = Some a"
  shows "\<exists>s'. luat_rtos_message_send al (Some t) mid p s = Some (0, s') \<and> message_inv t s' \<and>
     task_messages t s' = task_messages t s @ [\<lparr>mi_id = mid, mi_msg = p\<rparr>]"
proof -
  let ?bs = "message_item_bytes \<lparr>mi_id = mid, mi_msg = p\<rparr>"
  from inv have wf: "queue_wf 8 (rt_heap s) t" by (simp add: message_inv_def)
  from push_item_with [OF wf malloc_fresh [OF a], of ?bs] obtain h' where
    h': "luat_queue_push ((rt_heap s)(a \<mapsto> item_with ?bs)) (Some t) (Some a) = Some (0, h')"
      "queue_wf 8 h' t" "queue_msgs h' t = queue_msgs (rt_heap s) t @ [?bs]" by auto
  have "luat_rtos_message_send al (Some t) mid p s = Some (0, s\<lparr>rt_heap := h'\<rparr>)"
    using a h'(1) item_with_is_memcpy [of ?bs] by (simp add: luat_rtos_message_send_def item_with_def)
  then show ?thesis using inv h'(2,3) by (auto simp: message_inv_def task_messages_def)
qed

lemma message_send_none:
  "malloc al (rt_heap s) 20 = None \<Longrightarrow> luat_rtos_message_send al (Some t) mid p s = Some (-1, s)"
  by (simp add: luat_rtos_message_send_def)

lemma message_recv_none:
  "malloc al (rt_heap s) 20 = None \<Longrightarrow>
     luat_rtos_message_recv al Pair (Some t) True True 0 w s = Some (1, None, w, s)"
  by (simp add: luat_rtos_message_recv_def message_wait.simps pop_null heap_free_def)

lemma message_recv_some:
  assumes inv: "message_inv t s" and a: "malloc al (rt_heap s) 20 = Some i"
  shows "\<exists>s'. luat_rtos_message_recv al Pair (Some t) True True 0 w s =
       Some (case task_messages t s of [] \<Rightarrow> (1, None, w, s') | m # ms \<Rightarrow> (0, Some m, w, s')) \<and>
     message_inv t s' \<and> task_messages t s' = tl (task_messages t s)"
proof -
  let ?h = "(rt_heap s)(i \<mapsto> item_new 8)"
  note i = malloc_fresh [OF a]
  from inv have wf: "queue_wf 8 (rt_heap s) t" and l8: "\<forall>bs\<in>set (queue_msgs (rt_heap s) t). length bs = 8"
    by (auto simp: message_inv_def)
  have rc: "recv_cell 8 i ?h t" using wf i by (rule recv_cell_start) (simp add: item_new_def)
  have same: "item_free i ?h = rt_heap s" using i by (simp add: item_free_idle)
  show ?thesis
  proof (cases "queue_msgs (rt_heap s) t")
    case Nil
    then have "luat_queue_pop ?h (Some t) (Some i) = Some (-1, ?h)"
      using pop_recv_empty [OF rc] same by simp
    with a i inv Nil same show ?thesis
      by (simp add: luat_rtos_message_recv_def message_wait.simps heap_free_def task_messages_def)
  next
    case (Cons bs ms)
    from pop_recv [OF rc, unfolded same, OF Cons] obtain h1 dst where
      h1: "luat_queue_pop ?h (Some t) (Some i) = Some (0, h1)" "h1 i = Some dst" "8 \<le> length (qi_msg dst)"
        "take (length bs) (qi_msg dst) = bs" "recv_cell 8 i h1 t" "recv_msgs i h1 t = ms" by blast
    have "peek 0 8 (qi_msg dst) = Some bs" using h1(3,4) l8 Cons by (auto simp: peek_def)
    with a h1 Cons l8 show ?thesis
      by (auto simp: luat_rtos_message_recv_def message_wait.simps heap_free_def task_messages_def
          message_inv_def recv_cell_def)
  qed
qed

interpretation tmsg: fifo_store "message_offer al t" "message_poll al t" "task_messages t" "message_inv t"
    "\<lambda>s. malloc al (rt_heap s) 20 \<noteq> None" for al t
proof
  fix s m s'
  assume inv: "message_inv t s"
  show "message_offer al t m s = (True, s') \<Longrightarrow> message_inv t s' \<and> task_messages t s' = task_messages t s @ [m]"
    using message_send_ok [OF inv, of al _ "mi_id m" "mi_msg m"] message_send_none [of al s t "mi_id m" "mi_msg m"]
    by (cases "malloc al (rt_heap s) 20") (auto simp: message_offer_def)
  show "message_offer al t m s = (False, s') \<Longrightarrow> message_inv t s' \<and> task_messages t s' = task_messages t s"
    using message_send_ok [OF inv, of al _ "mi_id m" "mi_msg m"] message_send_none [of al s t "mi_id m" "mi_msg m"] inv
    by (cases "malloc al (rt_heap s) 20") (auto simp: message_offer_def)
next
  fix s m s'
  assume inv: "message_inv t s"
  note poll = message_recv_some [OF inv, of al _ "()"] message_recv_none [of al s t "()"]
  show "message_poll al t s = (None, s') \<Longrightarrow> message_inv t s' \<and> task_messages t s' = task_messages t s"
    using poll inv
    by (cases "malloc al (rt_heap s) 20"; cases "task_messages t s") (auto simp: message_poll_def)
  show "message_poll al t s = (Some m, s') \<Longrightarrow> message_inv t s' \<and> task_messages t s = m # task_messages t s'"
    using poll
    by (cases "malloc al (rt_heap s) 20"; cases "task_messages t s") (auto simp: message_poll_def)
  show "malloc al (rt_heap s) 20 \<noteq> None \<Longrightarrow> task_messages t s \<noteq> [] \<Longrightarrow> fst (message_poll al t s) \<noteq> None"
    using poll by (cases "task_messages t s") (auto simp: message_poll_def)
qed

section \<open>Properties\<close>

definition event_inv :: "addr \<Rightarrow> rtos \<Rightarrow> bool" where
  "event_inv t s \<longleftrightarrow> queue_wf 16 (rt_heap s) t \<and> (\<forall>bs\<in>set (queue_msgs (rt_heap s) t). length bs = 16)"

definition task_events :: "addr \<Rightarrow> rtos \<Rightarrow> luat_event list" where
  "task_events t s = map luat_event_of (queue_msgs (rt_heap s) t)"

lemma task_create_ok:
  assumes "luat_rtos_task_create al usize 0 f d n s = (0, Some t, s')"
  shows "event_inv t s' \<and> task_events t s' = [] \<and> message_inv t s' \<and> task_messages t s' = []"
proof -
  have "queue_rep (rt_heap s') t []"
    using assms by (auto simp: luat_rtos_task_create_def queue_rep_def split: option.splits)
  from queue_msgs_rep [OF this] this show ?thesis
    by (auto simp: event_inv_def task_events_def message_inv_def task_messages_def queue_wf_def)
qed

lemma event_send_ok:
  assumes inv: "event_inv t s" and a: "malloc al (rt_heap s) 28 = Some a"
  shows "\<exists>s'. luat_rtos_event_send al (Some t) eid p1 p2 p3 s = Some (0, s') \<and> event_inv t s' \<and>
     task_events t s' = task_events t s @ [\<lparr>ev_id = eid, ev_param1 = p1, ev_param2 = p2, ev_param3 = p3\<rparr>]"
proof -
  let ?bs = "luat_event_bytes \<lparr>ev_id = eid, ev_param1 = p1, ev_param2 = p2, ev_param3 = p3\<rparr>"
  from inv have wf: "queue_wf 16 (rt_heap s) t" by (simp add: event_inv_def)
  from push_item_with [OF wf malloc_fresh [OF a], of ?bs] obtain h' where
    h': "luat_queue_push ((rt_heap s)(a \<mapsto> item_with ?bs)) (Some t) (Some a) = Some (0, h')"
      "queue_wf 16 h' t" "queue_msgs h' t = queue_msgs (rt_heap s) t @ [?bs]" by auto
  have "luat_rtos_event_send al (Some t) eid p1 p2 p3 s = Some (0, s\<lparr>rt_heap := h'\<rparr>)"
    using a h'(1) item_with_is_memcpy [of ?bs] by (simp add: luat_rtos_event_send_def item_with_def)
  then show ?thesis using inv h'(2,3) by (auto simp: event_inv_def task_events_def)
qed

text \<open>C26: With a finite timeout \<open>luat_rtos_event_recv\<close> always returns, without touching
  memory it does not own, whatever well-behaved threads send meanwhile (they leave the
  receive buffer alone and keep the queue well-formed). It reports success only with an
  event of the wanted kind, and otherwise returns 1.\<close>

theorem event_recv_returns:
  assumes "queue_wf 16 (rt_heap s) t" and "malloc al (rt_heap s) 28 = Some i" and "timeout \<noteq> -1"
    and "\<And>w h. recv_cell 16 i h t \<Longrightarrow> recv_cell 16 i (snd (others w h)) t"
  shows "\<exists>r out w' s'. luat_rtos_event_recv al any others (Some t) want timeout w s = Some (r, out, w', s') \<and>
     (r = 0 \<and> (\<exists>e. out = Some e \<and> (want = any \<or> ev_id e = want)) \<or> r = 1) \<and> queue_wf 16 (rt_heap s') t"
proof -
  have "recv_cell 16 i ((rt_heap s)(i \<mapsto> item_new 16)) t"
    using assms(1) malloc_fresh [OF assms(2)] by (rule recv_cell_start) (simp add: item_new_def)
  from event_wait_returns [where others = others and w = w and out = None
      and wanted = "\<lambda>k. want = any \<or> k = want", OF assms(4) this assms(3)] assms(2)
  show ?thesis by (auto simp: luat_rtos_event_recv_def)
qed

theorem event_recv_returns_witness:
  "\<exists>s. \<exists>r out w' s'. luat_rtos_event_recv small_alloc 0 (\<lambda>w h. (Suc w, h)) (Some 0) 9 5 0 s = Some (r, out, w', s') \<and>
     (r = 0 \<and> (\<exists>e. out = Some e \<and> (9 = (0 :: u32) \<or> ev_id e = 9)) \<or> r = 1) \<and> queue_wf 16 (rt_heap s') 0"
proof -
  let ?s = "\<lparr>rt_heap = [0 \<mapsto> item_new 0], rt_tasks = \<lambda>_. None\<rparr>"
  have r: "queue_rep (rt_heap ?s) 0 []" by (simp add: queue_rep_def item_new_def)
  have "queue_wf 16 (rt_heap ?s) 0"
    using r queue_msgs_rep [OF r] by (auto simp: queue_wf_def)
  then show ?thesis
    by (rule exI [of _ ?s, OF event_recv_returns [where i = 1]]) (simp_all add: upt_rec)
qed

text \<open>C27: While no other thread sends, \<open>luat_rtos_event_recv\<close> computes exactly what the list
  function \<open>await_event\<close> says on the queued events: it takes the first wanted event among
  the first \<open>timeout + 1\<close> of them and drops the unwanted events before it, and returns 1
  with these dropped when there is none.\<close>

theorem event_recv_functional:
  assumes "event_inv t s" and "malloc al (rt_heap s) 28 = Some i" and "timeout \<noteq> -1"
    and "await_event (\<lambda>k. want = any \<or> k = want) (unat timeout) (task_events t s) None = (r, out, es)"
  shows "\<exists>s'. luat_rtos_event_recv al any Pair (Some t) want timeout w s = Some (r, out, w, s') \<and>
     task_events t s' = es"
proof -
  let ?h = "(rt_heap s)(i \<mapsto> item_new 16)"
  note i = malloc_fresh [OF assms(2)]
  have rc: "recv_cell 16 i ?h t"
    using i by (rule recv_cell_start [rotated]) (use assms(1) in \<open>simp_all add: item_new_def event_inv_def\<close>)
  have same: "item_free i ?h = rt_heap s" using i by (simp add: item_free_idle)
  from event_wait_quiet [OF rc _ assms(3), where wanted = "\<lambda>k. want = any \<or> k = want" and out = None and w = w]
    assms(1,2,4) same
  show ?thesis by (auto simp: luat_rtos_event_recv_def event_inv_def task_events_def)
qed

text \<open>A task at address 0 with one event of id 7 in its queue.\<close>

definition one_event :: rtos where
  "one_event = \<lparr>rt_heap = [0 \<mapsto> (item_new 0)\<lparr>qi_next := Some 1\<rparr>,
      1 \<mapsto> item_with (luat_event_bytes \<lparr>ev_id = 7, ev_param1 = 1, ev_param2 = 2, ev_param3 = 3\<rparr>)],
      rt_tasks = \<lambda>_. None\<rparr>"

lemma one_event_ok:
  "event_inv 0 one_event \<and> task_events 0 one_event = [\<lparr>ev_id = 7, ev_param1 = 1, ev_param2 = 2, ev_param3 = 3\<rparr>] \<and>
   malloc small_alloc (rt_heap one_event) n = Some 2"
proof -
  have r: "queue_rep (rt_heap one_event) 0 [1]"
    by (simp add: queue_rep_def one_event_def item_new_def item_with_def)
  have "queue_msgs (rt_heap one_event) 0 =
      [luat_event_bytes \<lparr>ev_id = 7, ev_param1 = 1, ev_param2 = 2, ev_param3 = 3\<rparr>]"
    unfolding queue_msgs_rep [OF r] by (simp add: one_event_def)
  with r show ?thesis
    by (auto simp: event_inv_def task_events_def queue_wf_def) (simp add: one_event_def upt_rec)
qed

theorem event_recv_functional_witness:
  "\<exists>s'. luat_rtos_event_recv small_alloc 0 Pair (Some 0) 7 2 () one_event =
     Some (0, Some \<lparr>ev_id = 7, ev_param1 = 1, ev_param2 = 2, ev_param3 = 3\<rparr>, (), s') \<and> task_events 0 s' = []"
  by (rule event_recv_functional [where i = 2]) (simp_all add: one_event_ok await_event_head del: malloc_small)



text \<open>Events and messages share the queue of a task but not their size. When the oldest
  entry is an event, \<open>luat_rtos_message_recv\<close> copies its 16 bytes over the end of the
  12 byte message area of its receive buffer: the call is undefined, for every timeout.\<close>

theorem message_recv_on_event_undefined:
  assumes "event_inv t s" and "task_events t s \<noteq> []" and "malloc al (rt_heap s) 20 = Some i"
  shows "luat_rtos_message_recv al others (Some t) True True timeout w s = None"
proof -
  let ?h = "(rt_heap s)(i \<mapsto> item_new 8)"
  from assms(1) obtain as where as: "queue_rep (rt_heap s) t as" "queue_msgs (rt_heap s) t = map (payload (rt_heap s)) as"
    unfolding event_inv_def by (blast elim: queue_wfE)
  from assms(2) as(2) obtain a as' where c: "as = a # as'" by (cases as) (auto simp: task_events_def)
  note i = malloc_fresh [OF assms(3)]
  have "a \<noteq> i" using queue_rep_fresh [OF as(1) i] c by auto
  moreover have "length (payload (rt_heap s) a) = 16" using assms(1) as(2) c by (auto simp: event_inv_def)
  moreover have "queue_rep ?h t (a # as')" using queue_rep_upd_fresh [OF as(1) i] c by simp
  ultimately have "luat_queue_pop ?h (Some t) (Some i) = None"
    by (intro pop_overflow [of _ _ a as' _ "item_new 8"]) (simp_all add: item_new_def)
  with assms(3) show ?thesis
    by (simp add: luat_rtos_message_recv_def message_wait.simps)
qed

theorem message_recv_on_event_undefined_witness:
  "luat_rtos_message_recv small_alloc Pair (Some 0) True True 0 () one_event = None"
  by (rule message_recv_on_event_undefined [where i = 2]) (simp_all add: one_event_ok del: malloc_small)

end
