(* ===== verification/Rtos_Mutex_Pc.thy ===== *)
theory Rtos_Mutex_Pc
  imports Luatos_Prelude
begin

text \<open>
  The mutex of \<open>port/rtos/luat_rtos_mutex_pc.c\<close>: a libuv mutex with a counter beside it.
  Locking increments the counter after the libuv mutex is taken; unlocking first tests the
  counter, then releases the libuv mutex, and decrements the counter after that, outside of the
  critical section. The threads interleave at each access to the shared fields. The
  theorems show mutual exclusion, that the counter is exact for a single user, and the
  lost update through which the mutex stays locked for ever.
\<close>

section \<open>Shared state, program points and steps\<close>

text \<open>\<open>pm_owner\<close> is the thread that holds the libuv mutex \<open>m\<close>.\<close>

record pc_mutex =
  pm_owner :: "nat option"
  pm_lock :: int

text \<open>Program points of a thread: outside, after \<open>uv_mutex_lock\<close>, with the counter loaded for
  \<open>lock ++\<close>, inside (the lock call has returned 0), after the test of the counter, after
  \<open>uv_mutex_unlock\<close>, with the counter loaded for \<open>lock --\<close>.\<close>

datatype mutex_pc = Outside | Acquired | Inc int | Inside | Checked | Released | Dec int

record mutex_sys =
  ms_mutex :: pc_mutex
  ms_pc :: "nat \<Rightarrow> mutex_pc"

definition goto :: "nat \<Rightarrow> mutex_pc \<Rightarrow> mutex_sys \<Rightarrow> mutex_sys" where
  "goto t p s = s\<lparr>ms_pc := (ms_pc s)(t := p)\<rparr>"

definition set_owner :: "nat option \<Rightarrow> mutex_sys \<Rightarrow> mutex_sys" where
  "set_owner v s = s\<lparr>ms_mutex := (ms_mutex s)\<lparr>pm_owner := v\<rparr>\<rparr>"

definition set_lock :: "int \<Rightarrow> mutex_sys \<Rightarrow> mutex_sys" where
  "set_lock v s = s\<lparr>ms_mutex := (ms_mutex s)\<lparr>pm_lock := v\<rparr>\<rparr>"

abbreviation owner :: "mutex_sys \<Rightarrow> nat option" where
  "owner s \<equiv> pm_owner (ms_mutex s)"

abbreviation lockc :: "mutex_sys \<Rightarrow> int" where
  "lockc s \<equiv> pm_lock (ms_mutex s)"

text \<open>The handles: creation zeroes the structure; a failing allocation or \<open>uv_mutex_init\<close>
  gives a null handle.\<close>

definition luat_mutex_create :: "bool \<Rightarrow> int \<Rightarrow> mutex_sys option" where
  "luat_mutex_create malloc_ok ret =
     (if \<not> malloc_ok then None
      else if ret \<noteq> 0 then None
      else Some \<lparr>ms_mutex = \<lparr>pm_owner = None, pm_lock = 0\<rparr>, ms_pc = \<lambda>_. Outside\<rparr>)"

text \<open>\<open>luat_mutex_lock\<close> by thread \<open>t\<close>, step by step; \<open>uv_mutex_lock\<close> waits for the libuv mutex to be
  free. The result is the value returned, if the step returns.\<close>

inductive luat_mutex_lock :: "nat \<Rightarrow> mutex_sys \<Rightarrow> int option \<Rightarrow> mutex_sys \<Rightarrow> bool" where
  lock_take: "ms_pc s t = Outside \<Longrightarrow> owner s = None \<Longrightarrow>
     luat_mutex_lock t s None (goto t Acquired (set_owner (Some t) s))"
| lock_load: "ms_pc s t = Acquired \<Longrightarrow>
     luat_mutex_lock t s None (goto t (Inc (lockc s)) s)"
| lock_store: "ms_pc s t = Inc v \<Longrightarrow>
     luat_mutex_lock t s (Some 0) (goto t Inside (set_lock (v + 1) s))"

text \<open>\<open>luat_mutex_unlock\<close>. A thread outside may call it too; it is turned away when the counter
  is zero. (Releasing a libuv mutex that another thread holds is undefined, and no step.)\<close>

inductive luat_mutex_unlock :: "nat \<Rightarrow> mutex_sys \<Rightarrow> int option \<Rightarrow> mutex_sys \<Rightarrow> bool" where
  unlock_refused: "ms_pc s t = Outside \<or> ms_pc s t = Inside \<Longrightarrow> lockc s = 0 \<Longrightarrow>
     luat_mutex_unlock t s (Some (-2)) s"
| unlock_check: "ms_pc s t = Inside \<Longrightarrow> lockc s \<noteq> 0 \<Longrightarrow>
     luat_mutex_unlock t s None (goto t Checked s)"
| unlock_release: "ms_pc s t = Checked \<Longrightarrow>
     luat_mutex_unlock t s None (goto t Released (set_owner None s))"
| unlock_load: "ms_pc s t = Released \<Longrightarrow>
     luat_mutex_unlock t s None (goto t (Dec (lockc s)) s)"
| unlock_store: "ms_pc s t = Dec v \<Longrightarrow>
     luat_mutex_unlock t s (Some 0) (goto t Outside (set_lock (v - 1) s))"

text \<open>\<open>luat_mutex_release\<close> tests the address of the counter, which is never null, so that it frees
  the memory without destroying the libuv mutex. The result says what was called.\<close>

datatype release_call = UvMutexDestroy | HeapFree

definition luat_mutex_release :: "nat \<Rightarrow> u32 option \<Rightarrow> release_call list" where
  "luat_mutex_release lock_offset mutex =
     (case mutex of None \<Rightarrow> []
      | Some m \<Rightarrow> (let lock_address = unat m + lock_offset in
                   (if lock_address = 0 then [UvMutexDestroy] else []) @ [HeapFree]))"

lemma mutex_release_never_destroys: "0 < off \<Longrightarrow> UvMutexDestroy \<notin> set (luat_mutex_release off m)"
  by (auto simp: luat_mutex_release_def split: option.splits)

definition mutex_step :: "nat \<Rightarrow> mutex_sys \<Rightarrow> mutex_sys \<Rightarrow> bool" where
  "mutex_step t s s' \<longleftrightarrow> (\<exists>r. luat_mutex_lock t s r s' \<or> luat_mutex_unlock t s r s')"

text \<open>Runs of a set \<open>T\<close> of threads from a new mutex.\<close>

inductive mutex_run :: "nat set \<Rightarrow> mutex_sys \<Rightarrow> bool" for T where
  run_new: "luat_mutex_create True 0 = Some s \<Longrightarrow> mutex_run T s"
| run_step: "mutex_run T s \<Longrightarrow> t \<in> T \<Longrightarrow> mutex_step t s s' \<Longrightarrow> mutex_run T s'"

inductive_cases lockE: "luat_mutex_lock t s r s'"
inductive_cases unlockE: "luat_mutex_unlock t s r s'"

lemmas mutex_defs = goto_def set_owner_def set_lock_def

lemma mutex_stepE:
  assumes "mutex_step t s s'"
  obtains "ms_pc s t = Outside" "owner s = None" "s' = goto t Acquired (set_owner (Some t) s)"
  | "ms_pc s t = Acquired" "s' = goto t (Inc (lockc s)) s"
  | v where "ms_pc s t = Inc v" "s' = goto t Inside (set_lock (v + 1) s)"
  | "ms_pc s t = Outside \<or> ms_pc s t = Inside" "lockc s = 0" "s' = s"
  | "ms_pc s t = Inside" "lockc s \<noteq> 0" "s' = goto t Checked s"
  | "ms_pc s t = Checked" "s' = goto t Released (set_owner None s)"
  | "ms_pc s t = Released" "s' = goto t (Dec (lockc s)) s"
  | v where "ms_pc s t = Dec v" "s' = goto t Outside (set_lock (v - 1) s)"
  using assms unfolding mutex_step_def by (auto elim!: lockE unlockE)

section \<open>Mutual exclusion\<close>

fun critical :: "mutex_pc \<Rightarrow> bool" where
  "critical Outside \<longleftrightarrow> False"
| "critical Acquired \<longleftrightarrow> True"
| "critical (Inc v) \<longleftrightarrow> True"
| "critical Inside \<longleftrightarrow> True"
| "critical Checked \<longleftrightarrow> True"
| "critical Released \<longleftrightarrow> False"
| "critical (Dec v) \<longleftrightarrow> False"

definition owner_inv :: "mutex_sys \<Rightarrow> bool" where
  "owner_inv s \<longleftrightarrow> (\<forall>t. critical (ms_pc s t) \<longleftrightarrow> owner s = Some t)"

lemma owner_inv_step: "owner_inv s \<Longrightarrow> mutex_step t s s' \<Longrightarrow> owner_inv s'"
proof (unfold owner_inv_def, intro allI)
  fix u
  assume inv: "\<forall>t. critical (ms_pc s t) \<longleftrightarrow> owner s = Some t" and step: "mutex_step t s s'"
  note ut = inv [rule_format, of u] inv [rule_format, of t]
  from step show "critical (ms_pc s' u) \<longleftrightarrow> owner s' = Some u"
    by (rule mutex_stepE) (use ut in \<open>cases "u = t"; simp add: mutex_defs\<close>)+
qed

lemma owner_inv_run: "mutex_run T s \<Longrightarrow> owner_inv s"
proof (induction rule: mutex_run.induct)
  case (run_new s)
  then show ?case by (auto simp: luat_mutex_create_def owner_inv_def)
qed (blast intro: owner_inv_step)

section \<open>One user\<close>

text \<open>The counter a thread sees when it is the only user of the mutex.\<close>

fun solo_lock :: "mutex_pc \<Rightarrow> int \<Rightarrow> bool" where
  "solo_lock Outside n \<longleftrightarrow> n = 0"
| "solo_lock Acquired n \<longleftrightarrow> n = 0"
| "solo_lock (Inc v) n \<longleftrightarrow> n = 0 \<and> v = 0"
| "solo_lock Inside n \<longleftrightarrow> n = 1"
| "solo_lock Checked n \<longleftrightarrow> n = 1"
| "solo_lock Released n \<longleftrightarrow> n = 1"
| "solo_lock (Dec v) n \<longleftrightarrow> n = 1 \<and> v = 1"

lemma solo_run: "mutex_run {t} s \<Longrightarrow> solo_lock (ms_pc s t) (lockc s)"
proof (induction rule: mutex_run.induct)
  case (run_new s)
  then show ?case by (auto simp: luat_mutex_create_def)
next
  case (run_step s u s')
  from run_step(3) show ?case
    by (rule mutex_stepE) (use run_step.IH run_step.hyps(2) in \<open>auto simp: mutex_defs\<close>)
qed

section \<open>Properties\<close>


text \<open>With a single user the counter is exact: a thread that holds the mutex is never turned
  away by \<open>luat_mutex_unlock\<close>, because the counter is 1 then.\<close>

theorem mutex_single_user:
  assumes "mutex_run {t} s" and "ms_pc s t = Inside"
  shows "lockc s = 1 \<and> luat_mutex_unlock t s None (goto t Checked s)"
  using solo_run [OF assms(1)] assms(2) by (auto intro: unlock_check)

text \<open>A holder that cannot release: the counter is 0 while it is inside, so that its unlock
  returns -2, and no thread of \<open>T\<close> has a step that changes anything.\<close>

definition mutex_stuck :: "nat set \<Rightarrow> nat \<Rightarrow> mutex_sys \<Rightarrow> bool" where
  "mutex_stuck T t s \<longleftrightarrow> ms_pc s t = Inside \<and> luat_mutex_unlock t s (Some (-2)) s \<and>
     (\<forall>u\<in>T. \<forall>s'. mutex_step u s s' \<longrightarrow> s' = s)"

text \<open>A state of the threads 1 and 2, to write runs down.\<close>

abbreviation two :: "nat option \<Rightarrow> int \<Rightarrow> mutex_pc \<Rightarrow> mutex_pc \<Rightarrow> mutex_sys" where
  "two w n p q \<equiv> \<lparr>ms_mutex = \<lparr>pm_owner = w, pm_lock = n\<rparr>, ms_pc = (\<lambda>_. Outside)(1 := p, 2 := q)\<rparr>"

lemma run_two_new: "mutex_run T (two None 0 Outside Outside)"
  by (rule run_new) (simp add: luat_mutex_create_def fun_upd_idem)

lemma run_lock: "mutex_run T s \<Longrightarrow> t \<in> T \<Longrightarrow> luat_mutex_lock t s r s1 \<Longrightarrow> s1 = s' \<Longrightarrow> mutex_run T s'"
  by (rule run_step) (auto simp: mutex_step_def)

lemma run_unlock: "mutex_run T s \<Longrightarrow> t \<in> T \<Longrightarrow> luat_mutex_unlock t s r s1 \<Longrightarrow> s1 = s' \<Longrightarrow> mutex_run T s'"
  by (rule run_step) (auto simp: mutex_step_def)

lemma run_first_inside: "1 \<in> T \<Longrightarrow> mutex_run T (two (Some 1) 1 Inside Outside)"
proof -
  assume T: "1 \<in> T"
  have "mutex_run T (two (Some 1) 0 Acquired Outside)"
    using run_two_new T by (rule run_lock [OF _ _ lock_take]) (simp_all add: mutex_defs fun_upd_twist)
  then have "mutex_run T (two (Some 1) 0 (Inc 0) Outside)"
    using T by (rule run_lock [OF _ _ lock_load]) (simp_all add: mutex_defs fun_upd_twist)
  then show ?thesis
    using T by (rule run_lock [OF _ _ lock_store]) (simp_all add: mutex_defs fun_upd_twist)
qed

lemma run_lost_update: "1 \<in> T \<Longrightarrow> 2 \<in> T \<Longrightarrow> mutex_run T (two (Some 2) 0 Outside Inside)"
proof -
  assume T: "1 \<in> T" "2 \<in> T"
  have "mutex_run T (two (Some 1) 1 Checked Outside)"
    using run_first_inside [OF T(1)] T(1)
    by (rule run_unlock [OF _ _ unlock_check]) (simp_all add: mutex_defs fun_upd_twist)
  then have "mutex_run T (two None 1 Released Outside)"
    using T(1) by (rule run_unlock [OF _ _ unlock_release]) (simp_all add: mutex_defs fun_upd_twist)
  then have "mutex_run T (two None 1 (Dec 1) Outside)"
    using T(1) by (rule run_unlock [OF _ _ unlock_load]) (simp_all add: mutex_defs fun_upd_twist)
  then have "mutex_run T (two (Some 2) 1 (Dec 1) Acquired)"
    using T(2) by (rule run_lock [OF _ _ lock_take]) (simp_all add: mutex_defs)
  then have "mutex_run T (two (Some 2) 1 (Dec 1) (Inc 1))"
    using T(2) by (rule run_lock [OF _ _ lock_load]) (simp_all add: mutex_defs)
  then have "mutex_run T (two (Some 2) 2 (Dec 1) Inside)"
    using T(2) by (rule run_lock [OF _ _ lock_store]) (simp_all add: mutex_defs)
  then show ?thesis
    using T(1) by (rule run_unlock [OF _ _ unlock_store]) (simp_all add: mutex_defs fun_upd_twist)
qed


theorem mutex_single_user_witness:
  "luat_mutex_unlock 1 (two (Some 1) 1 Inside Outside) None (goto 1 Checked (two (Some 1) 1 Inside Outside))"
  using mutex_single_user [OF run_first_inside [of "{1}"]] by simp

text \<open>The counter is decremented outside of the critical section, so that its update can be
  lost: two threads that each lock and unlock once can reach a state in which the second one
  holds the mutex, its \<open>luat_mutex_unlock\<close> returns -2 since the counter is 0, and neither
  thread can ever change the state again.\<close>

theorem mutex_deadlock_reachable:
  "\<exists>s. mutex_run {1, 2} s \<and> mutex_stuck {1, 2} 2 s"
proof -
  let ?s = "two (Some 2) 0 Outside Inside"
  have "luat_mutex_unlock 2 ?s (Some (-2)) ?s" by (rule unlock_refused) simp_all
  moreover have "s' = ?s" if "mutex_step u ?s s'" "u \<in> {1, 2}" for u s'
    using that(1) by (rule mutex_stepE) (use that(2) in auto)
  ultimately have "mutex_stuck {1, 2} 2 ?s" by (simp add: mutex_stuck_def)
  with run_lost_update [of "{1, 2}"] show ?thesis by blast
qed

end
