(* ===== verification/Timer_Pc.thy ===== *)
theory Timer_Pc
  imports Msgbus_Pc
begin

text \<open>
  The timers of the Lua system, \<open>port/rtos/luat_timer_pc.c\<close>: a table of 1024 libuv timer handles
  whose \<open>data\<close> fields point to the \<open>luat_timer_t\<close> of the core library. When a handle
  fires, \<open>timer_cb\<close> re-arms it while repetitions are left and posts a message to the bus.
  libuv is not part of the repository: the calls into it are recorded in the order in
  which they are made, and their return values are given by a parameter. The lemmas
  show what the table holds after each operation and how often a timer fires.
\<close>

section \<open>State\<close>

record luat_timer =
  lt_id :: u32
  lt_timeout :: u32
  lt_repeat :: int
  lt_func :: u32
  lt_os_timer :: ptr

text \<open>Calls into libuv about the handle at an address. \<open>Fired\<close> is the call back from libuv.\<close>

datatype uv_timer_call = TimerInit addr | TimerStart addr u32 | TimerStop addr | TimerClose addr | Fired addr

text \<open>The documented meaning of these calls: a started handle stays active until it fires or
  is stopped or closed.\<close>

fun timer_active :: "uv_timer_call list \<Rightarrow> addr \<Rightarrow> u32 option" where
  "timer_active [] a = None"
| "timer_active (TimerInit b # cs) a = (if a = b then None else timer_active cs a)"
| "timer_active (TimerStart b ms # cs) a = (if a = b then Some ms else timer_active cs a)"
| "timer_active (TimerStop b # cs) a = (if a = b then None else timer_active cs a)"
| "timer_active (TimerClose b # cs) a = (if a = b then None else timer_active cs a)"
| "timer_active (Fired b # cs) a = (if a = b then None else timer_active cs a)"

text \<open>\<open>ts_handles\<close> holds the \<open>data\<close> field of each live handle, \<open>ts_calls\<close> the calls into libuv,
  the last one first.\<close>

record timer_sys =
  ts_timers :: "ptr list"
  ts_handles :: "addr \<rightharpoonup> ptr"
  ts_mem :: "addr \<rightharpoonup> luat_timer"
  ts_bus :: msgbus
  ts_calls :: "uv_timer_call list"

type_synonym uv_ret = "uv_timer_call list \<Rightarrow> uv_timer_call \<Rightarrow> int"

definition uv_call :: "uv_ret \<Rightarrow> uv_timer_call \<Rightarrow> timer_sys \<Rightarrow> int \<times> timer_sys" where
  "uv_call uv c s = (uv (ts_calls s) c, s\<lparr>ts_calls := c # ts_calls s\<rparr>)"

abbreviation timer_id_max :: nat where
  "timer_id_max \<equiv> 1024"

section \<open>Operations\<close>

fun free_slot :: "ptr list \<Rightarrow> nat \<Rightarrow> int" where
  "free_slot [] i = -1"
| "free_slot (None # ps) i = int i"
| "free_slot (Some p # ps) i = free_slot ps (Suc i)"

definition get_free_timer_id :: "timer_sys \<Rightarrow> int" where
  "get_free_timer_id s = free_slot (ts_timers s) 0"

fun find_timer :: "timer_sys \<Rightarrow> u32 \<Rightarrow> ptr list \<Rightarrow> ptr option" where
  "find_timer s tid [] = Some None"
| "find_timer s tid (None # ps) = find_timer s tid ps"
| "find_timer s tid (Some a # ps) =
     do { data \<leftarrow> ts_handles s a;
          (case data of None \<Rightarrow> find_timer s tid ps
           | Some p \<Rightarrow> do { timer \<leftarrow> ts_mem s p;
                           if lt_id timer = tid then Some (Some a) else find_timer s tid ps }) }"

definition get_timer_by_id :: "timer_sys \<Rightarrow> u32 \<Rightarrow> ptr option" where
  "get_timer_by_id s tid = find_timer s tid (ts_timers s)"

text \<open>\<open>timer_cb\<close>: libuv calls it when the handle at \<open>h\<close> fires.\<close>

definition timer_cb :: "allocator \<Rightarrow> uv_ret \<Rightarrow> addr \<Rightarrow> timer_sys \<Rightarrow> timer_sys option" where
  "timer_cb al uv h s0 =
     do { let s = s0\<lparr>ts_calls := Fired h # ts_calls s0\<rparr>;
          data \<leftarrow> ts_handles s h;
          p \<leftarrow> data;
          timer \<leftarrow> ts_mem s p;
          found \<leftarrow> get_timer_by_id s (lt_id timer);
          (case found of None \<Rightarrow> Some s
           | Some t \<Rightarrow>
               do { data' \<leftarrow> ts_handles s t;
                    p' \<leftarrow> data';
                    timer' \<leftarrow> ts_mem s p';
                    let s1 = (if 0 < lt_repeat timer'
                              then snd (uv_call uv (TimerStart t (lt_timeout timer'))
                                     (s\<lparr>ts_mem := (ts_mem s)(p' \<mapsto> timer'\<lparr>lt_repeat := lt_repeat timer' - 1\<rparr>)\<rparr>))
                              else if lt_repeat timer' = -1
                              then snd (uv_call uv (TimerStart t (lt_timeout timer')) s)
                              else s);
                    (r, bus) \<leftarrow> luat_msgbus_put al \<lparr>rm_handler = lt_func timer', rm_ptr = 0,
                                 rm_arg1 = lt_id timer', rm_arg2 = 0\<rparr> (ts_bus s1);
                    Some (s1\<lparr>ts_bus := bus\<rparr>) }) }"

text \<open>\<open>luat_timer_start\<close>; \<open>new\<close> is what \<open>luat_heap_malloc\<close> returns for the handle. It is not
  checked, so that \<open>uv_timer_init\<close> would be handed a null pointer.\<close>

definition luat_timer_start :: "uv_ret \<Rightarrow> ptr \<Rightarrow> addr \<Rightarrow> timer_sys \<Rightarrow> (int \<times> timer_sys) option" where
  "luat_timer_start uv new p s =
     (let i = get_free_timer_id s in
      if i < 0 then Some (-1, s)
      else do { a \<leftarrow> new;
                let s1 = s\<lparr>ts_timers := (ts_timers s)[nat i := Some a], ts_handles := (ts_handles s)(a \<mapsto> None)\<rparr>;
                let (ret, s2) = uv_call uv (TimerInit a) s1;
                if ret \<noteq> 0
                then let (_, s3) = uv_call uv (TimerClose a) s2
                     in Some (-1, s3\<lparr>ts_timers := (ts_timers s3)[nat i := None]\<rparr>)
                else do { timer \<leftarrow> ts_mem s2 p;
                          let s3 = s2\<lparr>ts_handles := (ts_handles s2)(a \<mapsto> Some p),
                                      ts_mem := (ts_mem s2)(p \<mapsto> timer\<lparr>lt_os_timer := Some a\<rparr>)\<rparr>;
                          let (ret2, s4) = uv_call uv (TimerStart a (lt_timeout timer)) s3;
                          Some (ret2, s4) } })"

text \<open>The search of \<open>luat_timer_stop\<close> compares pointers, a null one included.\<close>

fun slot_of :: "ptr \<Rightarrow> ptr list \<Rightarrow> nat \<Rightarrow> nat option" where
  "slot_of q [] i = None"
| "slot_of q (p # ps) i = (if q = p then Some i else slot_of q ps (Suc i))"

definition luat_timer_stop :: "uv_ret \<Rightarrow> addr \<Rightarrow> timer_sys \<Rightarrow> (int \<times> timer_sys) option" where
  "luat_timer_stop uv p s =
     do { timer \<leftarrow> ts_mem s p;
          (case slot_of (lt_os_timer timer) (ts_timers s) 0 of
             None \<Rightarrow> Some (-1, s)
           | Some i \<Rightarrow> do { a \<leftarrow> lt_os_timer timer;
                           let (_, s1) = uv_call uv (TimerStop a) s;
                           let (_, s2) = uv_call uv (TimerClose a) s1;
                           Some (0, s2\<lparr>ts_timers := (ts_timers s2)[i := None]\<rparr>) }) }"

definition luat_timer_get :: "timer_sys \<Rightarrow> u32 \<Rightarrow> ptr option" where
  "luat_timer_get s tid =
     do { found \<leftarrow> get_timer_by_id s tid;
          (case found of None \<Rightarrow> Some None | Some a \<Rightarrow> ts_handles s a) }"

text \<open>The handle of a stopped timer is freed once libuv has closed it.\<close>

definition on_free :: "addr \<Rightarrow> timer_sys \<Rightarrow> timer_sys" where
  "on_free a s = s\<lparr>ts_handles := (ts_handles s)(a := None)\<rparr>"

definition luat_timer_mdelay :: "u32 \<Rightarrow> u32 list \<times> int" where
  "luat_timer_mdelay ms = (if ms \<noteq> 0 then [ms] else [], 0)"

section \<open>The table\<close>

fun somes :: "'a option list \<Rightarrow> 'a list" where
  "somes [] = []"
| "somes (None # ps) = somes ps"
| "somes (Some a # ps) = a # somes ps"

lemma set_somes [simp]: "a \<in> set (somes ps) \<longleftrightarrow> Some a \<in> set ps"
  by (induction ps rule: somes.induct) auto

text \<open>The timer structure behind a handle.\<close>

definition timer_at :: "timer_sys \<Rightarrow> addr \<Rightarrow> (addr \<times> luat_timer) option" where
  "timer_at s a = do { data \<leftarrow> ts_handles s a; p \<leftarrow> data; t \<leftarrow> ts_mem s p; Some (p, t) }"

definition timer_id :: "timer_sys \<Rightarrow> addr \<Rightarrow> u32" where
  "timer_id s a = (case timer_at s a of None \<Rightarrow> 0 | Some (p, t) \<Rightarrow> lt_id t)"

definition timer_wf :: "timer_sys \<Rightarrow> bool" where
  "timer_wf s \<longleftrightarrow> length (ts_timers s) = timer_id_max \<and> distinct (somes (ts_timers s)) \<and>
     (\<forall>a\<in>set (somes (ts_timers s)). \<exists>p t. timer_at s a = Some (p, t) \<and> lt_os_timer t = Some a) \<and>
     distinct (map (timer_id s) (somes (ts_timers s)))"

lemma timer_at_iff:
  "timer_at s a = Some (p, t) \<longleftrightarrow> ts_handles s a = Some (Some p) \<and> ts_mem s p = Some t"
  by (auto simp: timer_at_def bind_eq_Some_conv)

lemma timer_id_at: "timer_at s a = Some (p, t) \<Longrightarrow> timer_id s a = lt_id t"
  by (simp add: timer_id_def)

lemma find_timer_find:
  "(\<forall>a\<in>set (somes ps). timer_at s a \<noteq> None) \<Longrightarrow>
     find_timer s tid ps = Some (find (\<lambda>a. timer_id s a = tid) (somes ps))"
proof (induction s tid ps rule: find_timer.induct)
  case (3 s tid a ps)
  from 3(3) obtain p t where "timer_at s a = Some (p, t)" by fastforce
  then have "ts_handles s a = Some (Some p)" "ts_mem s p = Some t" "timer_id s a = lt_id t"
    by (simp_all add: timer_at_iff) (simp add: timer_id_def timer_at_def)
  with 3 show ?case by simp
qed simp_all

lemma get_timer_by_id_find:
  "timer_wf s \<Longrightarrow> get_timer_by_id s tid = Some (find (\<lambda>a. timer_id s a = tid) (somes (ts_timers s)))"
  unfolding get_timer_by_id_def by (rule find_timer_find) (fastforce simp: timer_wf_def)

lemma get_timer_by_id_entry:
  assumes wf: "timer_wf s" and a: "Some a \<in> set (ts_timers s)"
  shows "get_timer_by_id s (timer_id s a) = Some (Some a)"
proof -
  let ?ps = "somes (ts_timers s)" and ?P = "\<lambda>b. timer_id s b = timer_id s a"
  have "find ?P ?ps \<noteq> None" using a by (auto simp: find_None_iff)
  then obtain b where b: "find ?P ?ps = Some b" by blast
  then have "b \<in> set ?ps" "timer_id s b = timer_id s a"
    by (auto simp: find_Some_iff simp del: set_somes)
  moreover have "inj_on (timer_id s) (set ?ps)" using wf by (auto simp: timer_wf_def distinct_map)
  ultimately have "b = a" using a by (auto simp: inj_on_def)
  with b get_timer_by_id_find [OF wf] show ?thesis by simp
qed

lemma get_timer_by_id_none:
  assumes "timer_wf s" and "\<forall>a. Some a \<in> set (ts_timers s) \<longrightarrow> timer_id s a \<noteq> tid"
  shows "get_timer_by_id s tid = Some None"
  using get_timer_by_id_find [OF assms(1), of tid] assms(2) by (simp add: find_None_iff)

lemma free_slot_full: "free_slot ps i = -1 \<longleftrightarrow> None \<notin> set ps"
  by (induction ps i rule: free_slot.induct) auto

lemma free_slot_spec:
  "None \<in> set ps \<Longrightarrow> \<exists>n. free_slot ps i = int (i + n) \<and> n < length ps \<and> ps ! n = None \<and> (\<forall>m<n. ps ! m \<noteq> None)"
proof (induction ps i rule: free_slot.induct)
  case (2 ps i)
  then show ?case by (intro exI [of _ 0]) simp
next
  case (3 p ps i)
  then obtain n where n: "free_slot ps (Suc i) = int (Suc i + n)" "n < length ps" "ps ! n = None"
    "\<forall>m<n. ps ! m \<noteq> None" by auto
  have "\<forall>m<Suc n. (Some p # ps) ! m \<noteq> None" using n(4) by (auto simp: nth_Cons split: nat.splits)
  with n(1-3) show ?case by (intro exI [of _ "Suc n"]) simp
qed simp

lemma slot_of_None [simp]: "slot_of q ps i = None \<longleftrightarrow> q \<notin> set ps"
  by (induction q ps i rule: slot_of.induct) auto

lemma slot_of_Some: "slot_of q ps i = Some j \<Longrightarrow> i \<le> j \<and> j - i < length ps \<and> ps ! (j - i) = q"
proof (induction q ps i rule: slot_of.induct)
  case (2 q p ps i)
  show ?case
  proof (cases "q = p")
    case False
    with 2 have "Suc i \<le> j" "j - Suc i < length ps" "ps ! (j - Suc i) = q" by auto
    moreover from this(1) have "j - i = Suc (j - Suc i)" by simp
    ultimately show ?thesis by simp
  qed (use 2 in auto)
qed simp

lemma somes_update_Some:
  "n < length ps \<Longrightarrow> ps ! n = None \<Longrightarrow> \<exists>xs ys. somes ps = xs @ ys \<and> somes (ps[n := Some a]) = xs @ a # ys"
proof (induction ps arbitrary: n rule: somes.induct)
  case (2 ps)
  then show ?case
  proof (cases n)
    case 0
    then show ?thesis by (intro exI [of _ "[]"] exI [of _ "somes ps"]) simp
  qed (use 2 in auto)
next
  case (3 b ps)
  then obtain m where m: "n = Suc m" by (cases n) auto
  with 3(1) [of m] 3(2,3) obtain xs ys where "somes ps = xs @ ys" "somes (ps[m := Some a]) = xs @ a # ys"
    by auto
  with m show ?case by (intro exI [of _ "b # xs"] exI [of _ ys]) simp
qed simp

lemma somes_update_None:
  "n < length ps \<Longrightarrow> ps ! n = Some a \<Longrightarrow> \<exists>xs ys. somes ps = xs @ a # ys \<and> somes (ps[n := None]) = xs @ ys"
proof (induction ps arbitrary: n rule: somes.induct)
  case (2 ps)
  then show ?case by (cases n) auto
next
  case (3 b ps)
  then show ?case
  proof (cases n)
    case 0
    with 3 show ?thesis by (intro exI [of _ "[]"] exI [of _ "somes ps"]) auto
  next
    case (Suc m)
    with 3(1) [of m] 3(2,3) obtain xs ys where "somes ps = xs @ a # ys" "somes (ps[m := None]) = xs @ ys"
      by auto
    with Suc show ?thesis by (intro exI [of _ "b # xs"] exI [of _ ys]) simp
  qed
qed simp

lemma somes_length: "length (somes ps) \<le> length ps"
  by (induction ps rule: somes.induct) auto

lemma somes_length_less: "None \<in> set ps \<Longrightarrow> length (somes ps) < length ps"
proof (induction ps rule: somes.induct)
  case (2 ps)
  show ?case using somes_length [of ps] by simp
qed simp_all

lemma somes_length_full: "None \<notin> set ps \<Longrightarrow> length (somes ps) = length ps"
  by (induction ps rule: somes.induct) auto

section \<open>Starting and stopping\<close>

text \<open>A timer structure at \<open>p\<close> that may be started with a handle at \<open>a\<close>: neither is in use, and no
  started timer has its id.\<close>

definition startable :: "timer_sys \<Rightarrow> addr \<Rightarrow> addr \<Rightarrow> luat_timer \<Rightarrow> bool" where
  "startable s a p t \<longleftrightarrow> ts_handles s a = None \<and> ts_mem s p = Some t \<and>
     (\<forall>b\<in>set (somes (ts_timers s)). ts_handles s b \<noteq> Some (Some p) \<and> timer_id s b \<noteq> lt_id t)"

definition uv_ok :: uv_ret where
  "uv_ok cs c = 0"

lemma timer_start_result:
  assumes "startable s a p t" and "None \<in> set (ts_timers s)"
  shows "\<exists>n. n < length (ts_timers s) \<and> ts_timers s ! n = None \<and> (\<forall>m<n. ts_timers s ! m \<noteq> None) \<and>
     luat_timer_start uv_ok (Some a) p s =
       Some (0, s\<lparr>ts_timers := (ts_timers s)[n := Some a], ts_handles := (ts_handles s)(a \<mapsto> Some p),
                 ts_mem := (ts_mem s)(p \<mapsto> t\<lparr>lt_os_timer := Some a\<rparr>),
                 ts_calls := TimerStart a (lt_timeout t) # TimerInit a # ts_calls s\<rparr>)"
proof -
  from free_slot_spec [OF assms(2), of 0] obtain n where n: "free_slot (ts_timers s) 0 = int n"
    "n < length (ts_timers s)" "ts_timers s ! n = None" "\<forall>m<n. ts_timers s ! m \<noteq> None" by auto
  with assms(1) show ?thesis
    by (intro exI [of _ n])
      (simp add: luat_timer_start_def get_free_timer_id_def uv_call_def uv_ok_def startable_def)
qed

lemma distinct_map_insert:
  "distinct (map f (xs @ a # ys)) \<longleftrightarrow> f a \<notin> f ` set (xs @ ys) \<and> distinct (map f (xs @ ys))"
  by auto

lemma timer_start_wf:
  assumes wf: "timer_wf s" and st: "startable s a p t"
    and n: "n < length (ts_timers s)" "ts_timers s ! n = None"
    and s': "s' = s\<lparr>ts_timers := (ts_timers s)[n := Some a], ts_handles := (ts_handles s)(a \<mapsto> Some p),
                 ts_mem := (ts_mem s)(p \<mapsto> t\<lparr>lt_os_timer := Some a\<rparr>), ts_calls := cs\<rparr>"
  shows "timer_wf s' \<and> timer_at s' a = Some (p, t\<lparr>lt_os_timer := Some a\<rparr>) \<and>
     (\<forall>b\<in>set (somes (ts_timers s)). timer_at s' b = timer_at s b \<and> timer_id s' b = timer_id s b)"
proof -
  have tab: "ts_timers s' = (ts_timers s)[n := Some a]" by (simp add: s')
  from somes_update_Some [OF n, of a] obtain xs ys where xy: "somes (ts_timers s) = xs @ ys"
    "somes (ts_timers s') = xs @ a # ys" unfolding tab by blast
  have fresh: "ts_handles s a = None" using st by (simp add: startable_def)
  have entries: "\<exists>q u. timer_at s b = Some (q, u) \<and> lt_os_timer u = Some b" if "b \<in> set (xs @ ys)" for b
    using wf that unfolding timer_wf_def xy(1) by blast
  have old: "timer_at s' b = timer_at s b" if b: "b \<in> set (xs @ ys)" for b
  proof -
    from entries [OF b] obtain q u where qu: "timer_at s b = Some (q, u)" by blast
    then have "b \<noteq> a" using fresh by (auto simp: timer_at_iff)
    moreover have "q \<noteq> p" using st b qu xy(1) by (auto simp: startable_def timer_at_iff simp del: set_somes)
    ultimately have "timer_at s' b = Some (q, u)" using qu by (simp add: s' timer_at_iff)
    with qu show ?thesis by simp
  qed
  then have old_id: "timer_id s' b = timer_id s b" if "b \<in> set (xs @ ys)" for b
    using that by (simp add: timer_id_def)
  have new: "timer_at s' a = Some (p, t\<lparr>lt_os_timer := Some a\<rparr>)" by (simp add: s' timer_at_def)
  have na: "a \<notin> set (xs @ ys)" using entries [of a] fresh by (auto simp: timer_at_iff)
  have "timer_id s' a = lt_id t" by (simp add: timer_id_def new)
  moreover have "lt_id t \<notin> timer_id s ` set (xs @ ys)"
    using st xy(1) by (auto simp: startable_def simp del: set_somes)
  moreover have ids: "map (timer_id s') (xs @ ys) = map (timer_id s) (xs @ ys)"
    by (rule map_cong) (simp_all add: old_id del: set_append)
  moreover have "timer_id s' ` set (xs @ ys) = timer_id s ` set (xs @ ys)"
    using ids by (metis list.set_map)
  ultimately have "distinct (map (timer_id s') (xs @ a # ys))"
    using wf unfolding timer_wf_def xy(1) distinct_map_insert by metis
  moreover have "distinct (xs @ a # ys)" using wf na unfolding timer_wf_def xy(1) by auto
  moreover have "\<exists>q u. timer_at s' b = Some (q, u) \<and> lt_os_timer u = Some b" if "b \<in> set (xs @ a # ys)" for b
  proof (cases "b = a")
    case False
    with that have "b \<in> set (xs @ ys)" by auto
    with entries old show ?thesis by metis
  qed (simp add: new)
  moreover have "length (ts_timers s') = timer_id_max" using wf by (simp add: s' timer_wf_def)
  ultimately have "timer_wf s'" unfolding timer_wf_def xy(2) by blast
  then show ?thesis using new old old_id unfolding xy(1) by blast
qed

lemma timer_stop_wf:
  assumes wf: "timer_wf s" and a: "Some a \<in> set (ts_timers s)" and t: "timer_at s a = Some (p, t)"
  shows "\<exists>n s'. luat_timer_stop uv p s = Some (0, s') \<and> timer_wf s' \<and> n < timer_id_max \<and>
     ts_timers s ! n = Some a \<and> ts_timers s' = (ts_timers s)[n := None] \<and>
     ts_handles s' = ts_handles s \<and> ts_mem s' = ts_mem s \<and> Some a \<notin> set (ts_timers s') \<and>
     timer_active (ts_calls s') a = None"
proof -
  from wf a have "\<exists>p t. timer_at s a = Some (p, t) \<and> lt_os_timer t = Some a" by (simp add: timer_wf_def)
  with t have os: "lt_os_timer t = Some a" by simp
  from a obtain n where n: "slot_of (Some a) (ts_timers s) 0 = Some n" by (metis not_None_eq slot_of_None)
  then have nn: "n < length (ts_timers s)" "ts_timers s ! n = Some a" using slot_of_Some by fastforce+
  let ?s = "s\<lparr>ts_timers := (ts_timers s)[n := None], ts_calls := TimerClose a # TimerStop a # ts_calls s\<rparr>"
  have eq: "luat_timer_stop uv p s = Some (0, ?s)"
    using t os n by (simp add: luat_timer_stop_def timer_at_iff uv_call_def)
  from somes_update_None [OF nn] obtain xs ys where xy: "somes (ts_timers s) = xs @ a # ys"
    "somes (ts_timers ?s) = xs @ ys" by auto
  have at: "timer_at ?s = timer_at s" by (rule ext) (simp add: timer_at_def)
  then have ti: "timer_id ?s = timer_id s" by (rule_tac ext) (simp add: timer_id_def)
  have "timer_wf ?s" using wf unfolding timer_wf_def at ti xy by simp
  moreover have "Some a \<notin> set (ts_timers ?s)"
    using wf xy set_somes [of a "ts_timers ?s"] by (auto simp: timer_wf_def simp del: set_somes)
  ultimately show ?thesis using eq nn wf by (auto simp: timer_wf_def)
qed

lemma update_entries:
  "n < length ps \<Longrightarrow> ps ! n = None \<Longrightarrow> Some b \<in> set (ps[n := Some a]) \<longleftrightarrow> b = a \<or> Some b \<in> set ps"
  using somes_update_Some [of n ps a] set_somes [of b ps] set_somes [of b "ps[n := Some a]"]
  by (auto simp del: set_somes)

lemma startable_not_entry: "timer_wf s \<Longrightarrow> startable s a p t \<Longrightarrow> Some a \<notin> set (ts_timers s)"
  unfolding timer_wf_def startable_def using set_somes [of a "ts_timers s"]
  by (metis option.distinct(1) timer_at_iff)

lemma timer_get_entry:
  "timer_wf s \<Longrightarrow> Some a \<in> set (ts_timers s) \<Longrightarrow> timer_at s a = Some (p, t) \<Longrightarrow>
     luat_timer_get s (lt_id t) = Some (Some p)"
  using get_timer_by_id_entry [of s a] timer_id_at [of s a p t]
  by (simp add: luat_timer_get_def timer_at_iff)

lemma timer_get_none:
  "timer_wf s \<Longrightarrow> \<forall>a. Some a \<in> set (ts_timers s) \<longrightarrow> timer_id s a \<noteq> i \<Longrightarrow> luat_timer_get s i = Some None"
  using get_timer_by_id_none [of s i] by (simp add: luat_timer_get_def)

lemma timer_get_cong:
  assumes wf: "timer_wf s" and wf1: "timer_wf s1"
    and entry: "\<And>b. Some b \<in> set (ts_timers s1) \<longleftrightarrow> b = a \<or> Some b \<in> set (ts_timers s)"
    and new: "timer_at s1 a = Some (p, t)" and old: "\<And>b. Some b \<in> set (ts_timers s) \<Longrightarrow> timer_at s1 b = timer_at s b"
    and i: "i \<noteq> lt_id t"
  shows "luat_timer_get s1 i = luat_timer_get s i"
proof (cases "\<exists>b. Some b \<in> set (ts_timers s) \<and> timer_id s b = i")
  case True
  then obtain b where b: "Some b \<in> set (ts_timers s)" "timer_id s b = i" by blast
  with wf obtain q u where qu: "timer_at s b = Some (q, u)"
    unfolding timer_wf_def by (metis set_somes)
  with b have "lt_id u = i" by (simp add: timer_id_def)
  with timer_get_entry [OF wf b(1) qu] timer_get_entry [OF wf1, of b q u] entry b(1) old qu show ?thesis by simp
next
  case False
  have "timer_id s1 b \<noteq> i" if "Some b \<in> set (ts_timers s1)" for b
  proof (cases "b = a")
    case True
    with new i show ?thesis by (simp add: timer_id_def)
  next
    case neq: False
    with that entry have "Some b \<in> set (ts_timers s)" by simp
    with old False show ?thesis by (auto simp: timer_id_def)
  qed
  with timer_get_none [OF wf1] timer_get_none [OF wf] False show ?thesis by simp
qed

section \<open>Firing\<close>

definition timer_msg :: "luat_timer \<Rightarrow> rtos_msg" where
  "timer_msg t = \<lparr>rm_handler = lt_func t, rm_ptr = 0, rm_arg1 = lt_id t, rm_arg2 = 0\<rparr>"

text \<open>What one expiry of a started timer does to the structure and asks of libuv.\<close>

definition fired_timer :: "luat_timer \<Rightarrow> luat_timer" where
  "fired_timer t = (if 0 < lt_repeat t then t\<lparr>lt_repeat := lt_repeat t - 1\<rparr> else t)"

definition fired_calls :: "addr \<Rightarrow> luat_timer \<Rightarrow> uv_timer_call list" where
  "fired_calls a t = (if 0 < lt_repeat t \<or> lt_repeat t = -1 then [TimerStart a (lt_timeout t), Fired a] else [Fired a])"

lemma timer_wf_calls [simp]: "timer_wf (s\<lparr>ts_calls := cs\<rparr>) = timer_wf s"
  "timer_id (s\<lparr>ts_calls := cs\<rparr>) = timer_id s" "timer_at (s\<lparr>ts_calls := cs\<rparr>) = timer_at s"
  unfolding timer_wf_def timer_id_def timer_at_def by simp_all

lemma timer_cb_entry:
  assumes wf: "timer_wf s" and a: "Some a \<in> set (ts_timers s)" and t: "timer_at s a = Some (p, t)"
    and put: "luat_msgbus_put al (timer_msg t) (ts_bus s) = Some (r, bus)"
  shows "timer_cb al uv a s = Some (s\<lparr>ts_mem := (ts_mem s)(p \<mapsto> fired_timer t), ts_bus := bus,
           ts_calls := fired_calls a t @ ts_calls s\<rparr>)"
proof -
  let ?s = "s\<lparr>ts_calls := Fired a # ts_calls s\<rparr>"
  from t have m: "ts_handles s a = Some (Some p)" "ts_mem s p = Some t" by (auto simp: timer_at_iff)
  have "timer_id s a = lt_id t" using t by (simp add: timer_id_def)
  then have "get_timer_by_id ?s (lt_id t) = Some (Some a)"
    using get_timer_by_id_entry [of ?s a] wf a by simp
  moreover have "(ts_mem s)(p \<mapsto> t) = ts_mem s" using m(2) by auto
  ultimately show ?thesis
    using m put by (auto simp: timer_cb_def uv_call_def fired_timer_def fired_calls_def timer_msg_def)
qed

lemma fired_timer_wf:
  assumes wf: "timer_wf s" and a: "Some a \<in> set (ts_timers s)" and t: "timer_at s a = Some (p, t)"
    and s': "s' = s\<lparr>ts_mem := (ts_mem s)(p \<mapsto> fired_timer t), ts_bus := bus, ts_calls := cs\<rparr>"
  shows "timer_wf s' \<and> timer_at s' a = Some (p, fired_timer t)"
proof -
  have os: "lt_os_timer (fired_timer t) = lt_os_timer t" "lt_id (fired_timer t) = lt_id t"
    by (simp_all add: fired_timer_def)
  have at: "timer_at s' b = map_option (\<lambda>(q, u). (q, if q = p then fired_timer t else u)) (timer_at s b)"
    if "b \<in> set (somes (ts_timers s))" for b
  proof -
    from wf that obtain q u where qu: "timer_at s b = Some (q, u)" unfolding timer_wf_def by blast
    then have "timer_at s' b = Some (q, if q = p then fired_timer t else u)"
      by (auto simp: timer_at_iff s')
    with qu show ?thesis by simp
  qed
  have same: "u = t" if "timer_at s b = Some (p, u)" for b u
    using that t by (auto simp: timer_at_iff)
  have ids: "timer_id s' b = timer_id s b" if "b \<in> set (somes (ts_timers s))" for b
    using at [OF that] same os by (cases "timer_at s b") (auto simp: timer_id_def)
  have "\<exists>q u. timer_at s' b = Some (q, u) \<and> lt_os_timer u = Some b" if b: "b \<in> set (somes (ts_timers s))" for b
  proof -
    from wf b obtain q u where "timer_at s b = Some (q, u)" "lt_os_timer u = Some b"
      unfolding timer_wf_def by blast
    with at [OF b] same os show ?thesis by (cases "q = p") auto
  qed
  moreover have "map (timer_id s') (somes (ts_timers s)) = map (timer_id s) (somes (ts_timers s))"
    by (rule map_cong) (simp_all add: ids)
  moreover have "ts_timers s' = ts_timers s" by (simp add: s')
  ultimately have "timer_wf s'" using wf unfolding timer_wf_def by metis
  with at [of a] a t show ?thesis by simp
qed

text \<open>libuv calls back while the handle is active, at most \<open>k\<close> times.\<close>

fun run_timer :: "allocator \<Rightarrow> uv_ret \<Rightarrow> addr \<Rightarrow> nat \<Rightarrow> timer_sys \<Rightarrow> timer_sys option" where
  "run_timer al uv a 0 s = Some s"
| "run_timer al uv a (Suc k) s =
     (if timer_active (ts_calls s) a = None then Some s
      else do { s' \<leftarrow> timer_cb al uv a s; run_timer al uv a k s' })"

definition enough_memory :: "allocator \<Rightarrow> bool" where
  "enough_memory al \<longleftrightarrow> (\<forall>h. finite (dom h) \<longrightarrow> malloc al h 28 \<noteq> None)"

definition bus_ok :: "timer_sys \<Rightarrow> bool" where
  "bus_ok s \<longleftrightarrow> msgbus_inv (ts_bus s) \<and> finite (dom (mb_heap (ts_bus s)))"

lemma timer_cb_posts:
  assumes "timer_wf s" and "Some a \<in> set (ts_timers s)" and "timer_at s a = Some (p, t)"
    and mem: "enough_memory al" and bus: "bus_ok s"
  shows "\<exists>s'. timer_cb al uv a s = Some s' \<and> timer_wf s' \<and> bus_ok s' \<and> ts_timers s' = ts_timers s \<and>
     timer_at s' a = Some (p, fired_timer t) \<and> ts_calls s' = fired_calls a t @ ts_calls s \<and>
     msgbus_pending (ts_bus s') = msgbus_pending (ts_bus s) @ [timer_msg t]"
proof -
  from mem bus obtain b where "malloc al (mb_heap (ts_bus s)) 28 = Some b"
    by (auto simp: enough_memory_def bus_ok_def)
  with msgbus_put_some [of "ts_bus s" al b "timer_msg t"] bus obtain bus' where
    put: "luat_msgbus_put al (timer_msg t) (ts_bus s) = Some (0, bus')" "msgbus_inv bus'"
      "msgbus_pending bus' = msgbus_pending (ts_bus s) @ [timer_msg t]" by (auto simp: bus_ok_def)
  have "finite (dom (mb_heap bus'))" using msgbus_put_finite [OF put(1)] bus by (simp add: bus_ok_def)
  with put timer_cb_entry [OF assms(1-3) put(1)] fired_timer_wf [OF assms(1-3) refl] show ?thesis
    by (auto simp: bus_ok_def)
qed

lemma run_timer_once:
  assumes "timer_wf s" and "Some a \<in> set (ts_timers s)" and "timer_at s a = Some (p, t)"
    and "enough_memory al" and "bus_ok s" and "lt_repeat t = 0"
  shows "\<exists>s'. run_timer al uv a (Suc k) s = Some s' \<and> timer_active (ts_calls s') a = None \<and>
     msgbus_pending (ts_bus s') = msgbus_pending (ts_bus s) @ (if timer_active (ts_calls s) a = None then [] else [timer_msg t])"
proof (cases "timer_active (ts_calls s) a = None")
  case False
  from timer_cb_posts [OF assms(1-5), of uv] obtain s' where s': "timer_cb al uv a s = Some s'"
    "ts_calls s' = fired_calls a t @ ts_calls s"
    "msgbus_pending (ts_bus s') = msgbus_pending (ts_bus s) @ [timer_msg t]" by blast
  have "timer_active (ts_calls s') a = None" using s'(2) assms(6) by (simp add: fired_calls_def)
  then have "run_timer al uv a k s' = Some s'" by (cases k) auto
  with s' False \<open>timer_active (ts_calls s') a = None\<close> show ?thesis by simp
qed simp

lemma run_timer_count:
  assumes "timer_wf s" and "Some a \<in> set (ts_timers s)" and "timer_at s a = Some (p, t)"
    and mem: "enough_memory al" and "bus_ok s" and "lt_repeat t = int n"
    and "timer_active (ts_calls s) a \<noteq> None"
  shows "\<exists>s'. run_timer al uv a (Suc n + k) s = Some s' \<and> timer_active (ts_calls s') a = None \<and>
     msgbus_pending (ts_bus s') = msgbus_pending (ts_bus s) @ replicate (Suc n) (timer_msg t)"
  using assms(1-3,5-)
proof (induction n arbitrary: s t)
  case 0
  from run_timer_once [OF 0(1-3) mem 0(4), of uv k] 0(5,6) show ?case by simp
next
  case (Suc n)
  from timer_cb_posts [OF Suc.prems(1-3) mem Suc.prems(4), of uv] obtain s1 where s1:
    "timer_cb al uv a s = Some s1" "timer_wf s1" "bus_ok s1" "ts_timers s1 = ts_timers s"
    "timer_at s1 a = Some (p, fired_timer t)" "ts_calls s1 = fired_calls a t @ ts_calls s"
    "msgbus_pending (ts_bus s1) = msgbus_pending (ts_bus s) @ [timer_msg t]" by blast
  have ft: "lt_repeat (fired_timer t) = int n" "timer_msg (fired_timer t) = timer_msg t"
    using Suc.prems(5) by (simp_all add: fired_timer_def timer_msg_def)
  have act: "timer_active (ts_calls s1) a \<noteq> None"
    using s1(6) Suc.prems(5) by (simp add: fired_calls_def)
  have "Some a \<in> set (ts_timers s1)" using Suc.prems(2) s1(4) by simp
  from Suc.IH [OF s1(2) this s1(5) s1(3) ft(1) act] ft(2) obtain s' where
    "run_timer al uv a (Suc n + k) s1 = Some s'" "timer_active (ts_calls s') a = None"
    "msgbus_pending (ts_bus s') = msgbus_pending (ts_bus s1) @ replicate (Suc n) (timer_msg t)" by auto
  with s1(1,7) Suc.prems(6) show ?case by auto
qed

section \<open>Properties\<close>



text \<open>An empty table with one timer structure at address 5, and a bus.\<close>

definition timers_demo :: "int \<Rightarrow> timer_sys" where
  "timers_demo n = \<lparr>ts_timers = replicate timer_id_max None, ts_handles = \<lambda>_. None,
     ts_mem = [5 \<mapsto> \<lparr>lt_id = 3, lt_timeout = 100, lt_repeat = n, lt_func = 9, lt_os_timer = None\<rparr>],
     ts_bus = luat_msgbus_init (\<lambda>_. None) 0, ts_calls = []\<rparr>"

lemma somes_replicate [simp]: "somes (replicate n None) = []"
  by (induction n) auto

lemma timers_demo_ok:
  "timer_wf (timers_demo n)" "None \<in> set (ts_timers (timers_demo n))"
  "startable (timers_demo n) 7 5 \<lparr>lt_id = 3, lt_timeout = 100, lt_repeat = n, lt_func = 9, lt_os_timer = None\<rparr>"
  by (simp_all add: timers_demo_def timer_wf_def startable_def del: set_somes)


text \<open>C31: A timer with \<open>repeat = n\<close> fires exactly \<open>n + 1\<close> times: from its start on, if libuv calls
  back as long as the handle is active and memory does not run out, then exactly \<open>n + 1\<close>
  messages with its handler and id are posted to the bus, and the handle is inactive afterwards.\<close>

theorem timer_repeat_count:
  assumes "timer_wf s" and "startable s a p t" and "None \<in> set (ts_timers s)" and "lt_repeat t = int n"
    and "enough_memory al" and "bus_ok s"
  shows "\<exists>s1 s2. luat_timer_start uv_ok (Some a) p s = Some (0, s1) \<and>
     run_timer al uv_ok a (Suc n + k) s1 = Some s2 \<and> timer_active (ts_calls s2) a = None \<and>
     msgbus_pending (ts_bus s2) = msgbus_pending (ts_bus s) @ replicate (Suc n) (timer_msg t)"
proof -
  let ?t = "t\<lparr>lt_os_timer := Some a\<rparr>"
  from timer_start_result [OF assms(2,3)] obtain m s1 where m: "m < length (ts_timers s)" "ts_timers s ! m = None"
    and start: "luat_timer_start uv_ok (Some a) p s = Some (0, s1)"
    and s1: "s1 = s\<lparr>ts_timers := (ts_timers s)[m := Some a], ts_handles := (ts_handles s)(a \<mapsto> Some p),
                 ts_mem := (ts_mem s)(p \<mapsto> ?t),
                 ts_calls := TimerStart a (lt_timeout t) # TimerInit a # ts_calls s\<rparr>" by metis
  from timer_start_wf [OF assms(1,2) m s1] have wf1: "timer_wf s1" and new: "timer_at s1 a = Some (p, ?t)" by auto
  have "Some a \<in> set (ts_timers s1)" using update_entries [OF m] by (simp add: s1)
  moreover have "bus_ok s1" using assms(6) by (simp add: s1 bus_ok_def)
  ultimately have "\<exists>s2. run_timer al uv_ok a (Suc n + k) s1 = Some s2 \<and> timer_active (ts_calls s2) a = None \<and>
     msgbus_pending (ts_bus s2) = msgbus_pending (ts_bus s1) @ replicate (Suc n) (timer_msg ?t)"
    using run_timer_count [OF wf1 _ new assms(5), of n uv_ok k] assms(4) by (simp add: s1)
  moreover have "ts_bus s1 = ts_bus s" "timer_msg ?t = timer_msg t" by (simp_all add: s1 timer_msg_def)
  ultimately show ?thesis using start by auto
qed

text \<open>An allocator that finds a free address whenever there is one.\<close>

definition first_free :: allocator where
  "first_free = Abs_allocator (\<lambda>h n. if finite (dom h) then Some (LEAST a. h a = None) else None)"

lemma least_free: "finite (dom (h :: qheap)) \<Longrightarrow> h (LEAST a. h a = None) = None"
proof (rule LeastI_ex)
  assume "finite (dom h)"
  then have "dom h \<noteq> UNIV" by (metis infinite_UNIV_nat)
  then show "\<exists>a. h a = None" by auto
qed

lemma first_free_enough: "enough_memory first_free"
  unfolding enough_memory_def first_free_def
  by (subst malloc_Abs) (auto simp: least_free split: if_splits)

theorem timer_repeat_count_witness:
  "\<exists>s1 s2. luat_timer_start uv_ok (Some 7) 5 (timers_demo 2) = Some (0, s1) \<and>
     run_timer first_free uv_ok 7 3 s1 = Some s2 \<and>
     msgbus_pending (ts_bus s2) = replicate 3 \<lparr>rm_handler = 9, rm_ptr = 0, rm_arg1 = 3, rm_arg2 = 0\<rparr>"
proof -
  have "bus_ok (timers_demo 2)" "msgbus_pending (ts_bus (timers_demo 2)) = []"
    using msgbus_init_inv [of "\<lambda>_. None" 0] by (auto simp: bus_ok_def timers_demo_def luat_msgbus_init_def)
  with timer_repeat_count [OF timers_demo_ok(1) timers_demo_ok(3) timers_demo_ok(2), of 2 2 first_free 0]
    first_free_enough
  show ?thesis by (auto simp: timer_msg_def numeral_3_eq_3)
qed

text \<open>The table is a hard limit: \<open>luat_timer_start\<close> fails, leaving everything as it was, when and
  (with libuv succeeding) only when all 1024 entries are taken.\<close>

theorem timer_start_full:
  assumes "timer_wf s" and "startable s a p t"
  shows "luat_timer_start uv_ok (Some a) p s = Some (-1, s) \<longleftrightarrow> length (somes (ts_timers s)) = timer_id_max"
proof (cases "None \<in> set (ts_timers s)")
  case True
  from timer_start_result [OF assms(2) True] have "luat_timer_start uv_ok (Some a) p s \<noteq> Some (-1, s)" by auto
  with True assms(1) somes_length_less [OF True] show ?thesis by (simp add: timer_wf_def)
next
  case False
  then have "luat_timer_start uv_ok (Some a) p s = Some (-1, s)"
    using free_slot_full [of "ts_timers s" 0] by (simp add: luat_timer_start_def get_free_timer_id_def)
  with somes_length_full [OF False] assms(1) show ?thesis by (simp add: timer_wf_def)
qed

theorem timer_start_full_witness:
  "luat_timer_start uv_ok (Some 7) 5 (timers_demo 0) \<noteq> Some (-1, timers_demo 0)"
  using timer_start_full [OF timers_demo_ok(1) timers_demo_ok(3), of 0]
  by (simp add: timers_demo_def)

end
