(* ===== verification/Rtos_Timer_Pc.thy ===== *)
theory Rtos_Timer_Pc
  imports Timer_Pc
begin

text \<open>
  The RTOS timers of \<open>port/rtos/luat_rtos_timer_pc.c\<close>: a libuv handle with a \<open>timer_data_t\<close>
  behind it that holds a C callback. Both layers of the interface are modelled, the
  \<open>luat_*_rtos_timer\<close> functions and the \<open>luat_rtos_timer_*\<close> functions on top. Callbacks are a
  parameter that may change the whole state, so that a callback that releases its own timer
  is covered. Calls into libuv are recorded as in \<open>Timer_Pc\<close>.
\<close>

section \<open>State\<close>

record timer_data =
  td_cb :: "u32 option"
  td_param :: u32
  td_task_handle :: u32
  td_is_repeat :: int
  td_timeout :: u32

text \<open>\<open>rts_handles\<close> gives the \<open>data\<close> field of a handle; \<open>rts_ran\<close> the callbacks that ran, the
  last one first.\<close>

record rtimer_sys =
  rts_handles :: "addr \<rightharpoonup> ptr"
  rts_data :: "addr \<rightharpoonup> timer_data"
  rts_calls :: "uv_timer_call list"
  rts_ran :: "(u32 \<times> u32) list"

definition rcall :: "uv_timer_call \<Rightarrow> rtimer_sys \<Rightarrow> rtimer_sys" where
  "rcall c s = s\<lparr>rts_calls := c # rts_calls s\<rparr>"

section \<open>Operations\<close>

type_synonym tcb = "u32 \<Rightarrow> u32 \<Rightarrow> rtimer_sys \<Rightarrow> rtimer_sys"

definition rtos_timer_cb :: "tcb \<Rightarrow> addr \<Rightarrow> rtimer_sys \<Rightarrow> rtimer_sys option" where
  "rtos_timer_cb run h s0 =
     do { let s = rcall (Fired h) s0;
          data \<leftarrow> rts_handles s h;
          p \<leftarrow> data;
          d \<leftarrow> rts_data s p;
          let s1 = (case td_cb d of None \<Rightarrow> s
                    | Some cb \<Rightarrow> run cb (td_param d) (s\<lparr>rts_ran := (cb, td_param d) # rts_ran s\<rparr>));
          d1 \<leftarrow> rts_data s1 p;
          Some (if td_is_repeat d1 \<noteq> 0 then rcall (TimerStart h (td_timeout d1)) s1 else s1) }"

text \<open>\<open>new_handle\<close> and \<open>new_data\<close> are the results of the two allocations. When the second one
  fails, the handle is freed although libuv has been given it.\<close>

definition luat_create_rtos_timer ::
    "ptr \<Rightarrow> ptr \<Rightarrow> u32 option \<Rightarrow> u32 \<Rightarrow> u32 \<Rightarrow> rtimer_sys \<Rightarrow> ptr \<times> rtimer_sys" where
  "luat_create_rtos_timer new_handle new_data cb param task_handle s =
     (case new_handle of None \<Rightarrow> (None, s)
      | Some t \<Rightarrow>
          let s1 = rcall (TimerInit t) (s\<lparr>rts_handles := (rts_handles s)(t \<mapsto> None)\<rparr>)
          in (case new_data of
                None \<Rightarrow> (None, s1\<lparr>rts_handles := (rts_handles s1)(t := None)\<rparr>)
              | Some p \<Rightarrow>
                  (Some t, s1\<lparr>rts_handles := (rts_handles s1)(t \<mapsto> Some p),
                     rts_data := (rts_data s1)(p \<mapsto> \<lparr>td_cb = cb, td_param = param, td_task_handle = task_handle,
                                                   td_is_repeat = 0, td_timeout = 0\<rparr>)\<rparr>)))"

definition luat_start_rtos_timer :: "uv_ret \<Rightarrow> ptr \<Rightarrow> u32 \<Rightarrow> byte \<Rightarrow> rtimer_sys \<Rightarrow> (int \<times> rtimer_sys) option" where
  "luat_start_rtos_timer uv timer ms is_repeat s =
     do { t \<leftarrow> timer;
          data \<leftarrow> rts_handles s t;
          p \<leftarrow> data;
          d \<leftarrow> rts_data s p;
          let s1 = s\<lparr>rts_data := (rts_data s)(p \<mapsto> d\<lparr>td_is_repeat := uint is_repeat, td_timeout := ms\<rparr>)\<rparr>;
          Some (uv (rts_calls s1) (TimerStart t ms), rcall (TimerStart t ms) s1) }"

definition luat_stop_rtos_timer :: "ptr \<Rightarrow> rtimer_sys \<Rightarrow> rtimer_sys option" where
  "luat_stop_rtos_timer timer s = do { t \<leftarrow> timer; _ \<leftarrow> rts_handles s t; Some (rcall (TimerStop t) s) }"

definition luat_release_rtos_timer :: "ptr \<Rightarrow> rtimer_sys \<Rightarrow> rtimer_sys option" where
  "luat_release_rtos_timer timer s =
     do { t \<leftarrow> timer;
          data \<leftarrow> rts_handles s t;
          let s1 = rcall (TimerStop t) s;
          let s2 = (case data of None \<Rightarrow> s1 | Some p \<Rightarrow> s1\<lparr>rts_data := (rts_data s1)(p := None)\<rparr>);
          Some (rcall (TimerClose t) s2) }"

text \<open>The second interface; \<open>has_out\<close> says whether the output pointer is valid.\<close>

definition luat_rtos_timer_create :: "ptr \<Rightarrow> ptr \<Rightarrow> bool \<Rightarrow> rtimer_sys \<Rightarrow> int \<times> ptr \<times> rtimer_sys" where
  "luat_rtos_timer_create new_handle new_data has_out s =
     (if \<not> has_out then (-1, None, s)
      else let (h, s1) = luat_create_rtos_timer new_handle new_data None 0 0 s
           in (if h \<noteq> None then 0 else -1, h, s1))"

definition luat_rtos_timer_delete :: "ptr \<Rightarrow> rtimer_sys \<Rightarrow> (int \<times> rtimer_sys) option" where
  "luat_rtos_timer_delete timer s =
     (if timer = None then Some (-1, s) else do { s1 \<leftarrow> luat_release_rtos_timer timer s; Some (0, s1) })"

definition luat_rtos_timer_start ::
    "uv_ret \<Rightarrow> ptr \<Rightarrow> u32 \<Rightarrow> byte \<Rightarrow> u32 option \<Rightarrow> u32 \<Rightarrow> rtimer_sys \<Rightarrow> (int \<times> rtimer_sys) option" where
  "luat_rtos_timer_start uv timer timeout repeat cb user_param s =
     (if timer = None then Some (-1, s)
      else do { t \<leftarrow> timer;
                data \<leftarrow> rts_handles s t;
                p \<leftarrow> data;
                d \<leftarrow> rts_data s p;
                let s1 = s\<lparr>rts_data := (rts_data s)(p \<mapsto> d\<lparr>td_is_repeat := uint repeat, td_timeout := timeout,
                                                     td_cb := cb, td_param := user_param\<rparr>)\<rparr>;
                Some (uv (rts_calls s1) (TimerStart t timeout), rcall (TimerStart t timeout) s1) })"

definition luat_rtos_timer_stop :: "ptr \<Rightarrow> rtimer_sys \<Rightarrow> (int \<times> rtimer_sys) option" where
  "luat_rtos_timer_stop timer s =
     (if timer = None then Some (-1, s) else do { s1 \<leftarrow> luat_stop_rtos_timer timer s; Some (0, s1) })"

text \<open>\<open>due_in\<close> is \<open>uv_timer_get_due_in\<close>.\<close>

definition luat_rtos_timer_is_active :: "(addr \<Rightarrow> nat) \<Rightarrow> ptr \<Rightarrow> int" where
  "luat_rtos_timer_is_active due_in timer =
     (case timer of None \<Rightarrow> -1 | Some t \<Rightarrow> if 0 < due_in t then 1 else 0)"

definition luat_rtos_task_sleep :: "u32 \<Rightarrow> u32 list" where
  "luat_rtos_task_sleep ms = (if 0 < ms then [ms] else [])"

section \<open>Behaviour\<close>

definition rtimer_at :: "rtimer_sys \<Rightarrow> addr \<Rightarrow> (addr \<times> timer_data) option" where
  "rtimer_at s t = do { data \<leftarrow> rts_handles s t; p \<leftarrow> data; d \<leftarrow> rts_data s p; Some (p, d) }"

lemma rtimer_at_iff:
  "rtimer_at s t = Some (p, d) \<longleftrightarrow> rts_handles s t = Some (Some p) \<and> rts_data s p = Some d"
  by (auto simp: rtimer_at_def bind_eq_Some_conv)

text \<open>A callback that does not touch the timers.\<close>

abbreviation idle_cb :: tcb where
  "idle_cb cb param s \<equiv> s"

lemma rtos_timer_cb_idle:
  assumes "rtimer_at s t = Some (p, d)" and "td_cb d = Some cb"
  shows "rtos_timer_cb idle_cb t s = Some (s\<lparr>rts_ran := (cb, td_param d) # rts_ran s,
     rts_calls := (if td_is_repeat d \<noteq> 0 then [TimerStart t (td_timeout d), Fired t] else [Fired t]) @ rts_calls s\<rparr>)"
  using assms by (simp add: rtos_timer_cb_def rcall_def rtimer_at_iff)

text \<open>The expiries of a handle while it is active, at most \<open>k\<close>.\<close>

fun run_rtimer :: "tcb \<Rightarrow> addr \<Rightarrow> nat \<Rightarrow> rtimer_sys \<Rightarrow> rtimer_sys option" where
  "run_rtimer run t 0 s = Some s"
| "run_rtimer run t (Suc k) s =
     (if timer_active (rts_calls s) t = None then Some s
      else do { s' \<leftarrow> rtos_timer_cb run t s; run_rtimer run t k s' })"

lemma run_rtimer_repeat:
  assumes "rtimer_at s t = Some (p, d)" and "td_cb d = Some cb" and "td_is_repeat d \<noteq> 0"
    and "timer_active (rts_calls s) t = Some (td_timeout d)"
  shows "\<exists>s'. run_rtimer idle_cb t k s = Some s' \<and> rts_ran s' = replicate k (cb, td_param d) @ rts_ran s \<and>
     timer_active (rts_calls s') t = Some (td_timeout d)"
  using assms
proof (induction k arbitrary: s)
  case (Suc k)
  let ?s = "s\<lparr>rts_ran := (cb, td_param d) # rts_ran s,
     rts_calls := TimerStart t (td_timeout d) # Fired t # rts_calls s\<rparr>"
  have "rtimer_at ?s t = Some (p, d)" using Suc.prems(1) by (simp add: rtimer_at_iff)
  from Suc.IH [OF this Suc.prems(2,3)] obtain s' where
    "run_rtimer idle_cb t k ?s = Some s'" "timer_active (rts_calls s') t = Some (td_timeout d)"
    "rts_ran s' = replicate k (cb, td_param d) @ (cb, td_param d) # rts_ran s" by auto
  with rtos_timer_cb_idle [OF Suc.prems(1,2)] Suc.prems(3,4) show ?case
    by (auto simp: replicate_app_Cons_same)
qed simp

lemma run_rtimer_single:
  assumes "rtimer_at s t = Some (p, d)" and "td_cb d = Some cb" and "td_is_repeat d = 0"
    and "timer_active (rts_calls s) t \<noteq> None"
  shows "\<exists>s'. run_rtimer idle_cb t (Suc k) s = Some s' \<and> rts_ran s' = (cb, td_param d) # rts_ran s \<and>
     timer_active (rts_calls s') t = None"
proof -
  have "run_rtimer idle_cb t k s' = Some s'" if "timer_active (rts_calls s') t = None" for s'
    using that by (cases k) auto
  with rtos_timer_cb_idle [OF assms(1,2)] assms(3,4) show ?thesis by auto
qed

section \<open>Properties\<close>



text \<open>A callback must not release its own timer: when it does, \<open>timer_cb\<close> reads the repeat flag
  from the \<open>timer_data_t\<close> that was just freed, which is undefined.\<close>

theorem rtos_timer_release_in_callback:
  assumes "rtimer_at s t = Some (p, d)" and "td_cb d = Some cb"
    and "\<And>s'. rts_handles s' t = Some (Some p) \<Longrightarrow> luat_release_rtos_timer (Some t) s' = Some (run cb (td_param d) s')"
  shows "rtos_timer_cb run t s = None"
proof -
  let ?s = "rcall (Fired t) s"
  obtain s1 where s1: "s1 = ?s\<lparr>rts_ran := (cb, td_param d) # rts_ran ?s\<rparr>" by blast
  then have h: "rts_handles s1 t = Some (Some p)" using assms(1) by (simp add: rtimer_at_iff rcall_def)
  have "rts_data s2 p = None" if "luat_release_rtos_timer (Some t) s1 = Some s2" for s2
    using that h by (auto simp: luat_release_rtos_timer_def rcall_def)
  with assms(3) [OF h] have "rts_data (run cb (td_param d) (?s\<lparr>rts_ran := (cb, td_param d) # rts_ran ?s\<rparr>)) p = None"
    by (simp add: s1)
  then show ?thesis using assms(1,2)
    by (simp add: rtos_timer_cb_def rtimer_at_iff rcall_def)
qed

theorem rtos_timer_release_in_callback_witness:
  "rtos_timer_cb (\<lambda>cb param s. the (luat_release_rtos_timer (Some 1) s)) 1
     \<lparr>rts_handles = [1 \<mapsto> Some 2],
      rts_data = [2 \<mapsto> \<lparr>td_cb = Some 8, td_param = 0, td_task_handle = 0, td_is_repeat = 1, td_timeout = 10\<rparr>],
      rts_calls = [], rts_ran = []\<rparr> = None"
  by (rule rtos_timer_release_in_callback
      [where p = 2 and d = "\<lparr>td_cb = Some 8, td_param = 0, td_task_handle = 0, td_is_repeat = 1, td_timeout = 10\<rparr>"])
    (simp_all add: rtimer_at_iff luat_release_rtos_timer_def Let_def)

end
