(* ===== verification/Luadb2.thy ===== *)
theory Luadb2
  imports Luatos_Prelude
begin

text \<open>
  The writer of luadb images, \<open>port/luat_luadb2.c\<close>: an image is a header of tagged fields
  followed by one record per file (magic, name, length, checksum field, data). Each
  \<open>luat_luadb2_write\<close> enlarges the buffer with \<open>luat_heap_realloc\<close>, which is a parameter
  here, and appends a record. A reference decoder of the format shows that what was
  written is what a reader finds.
\<close>

section \<open>Context and operations\<close>

record luat_luadb2_ctx =
  lc_dataptr :: "byte list option"
  lc_offset :: nat
  lc_size :: nat

abbreviation luadb_magic :: "byte list" where
  "luadb_magic \<equiv> [0x01, 0x04, 0x5A, 0xA5, 0x5A, 0xA5]"

definition luat_luadb2_init :: "byte list option \<Rightarrow> luat_luadb2_ctx \<Rightarrow> (int \<times> luat_luadb2_ctx) option" where
  "luat_luadb2_init new ctx =
     (if lc_dataptr ctx \<noteq> None then Some (0, ctx)
      else do { t0 \<leftarrow> new;
                t1 \<leftarrow> poke 0 luadb_magic t0;
                t2 \<leftarrow> poke 6 [0x02, 0x02, 0x02, 0x00] t1;
                t3 \<leftarrow> poke 10 [0x03, 0x04, 0x00, 0x00, 0x00, 0x18] t2;
                t4 \<leftarrow> poke 16 [0x04, 0x02, 0x00, 0x00] t3;
                t5 \<leftarrow> poke 20 [0xFE, 0x02, 0x00, 0x00] t4;
                Some (0, ctx\<lparr>lc_dataptr := Some t5, lc_size := 1024, lc_offset := 24\<rparr>) })"

text \<open>\<open>re b n\<close> is \<open>luat_heap_realloc\<close> of the block with contents \<open>b\<close> to \<open>n\<close> bytes. The size is
  computed in \<open>size_t\<close>.\<close>

definition luat_luadb2_write ::
    "(byte list \<Rightarrow> nat \<Rightarrow> byte list option) \<Rightarrow> byte list \<Rightarrow> byte list \<Rightarrow> luat_luadb2_ctx \<Rightarrow>
     (int \<times> luat_luadb2_ctx) option" where
  "luat_luadb2_write re name data ctx =
     (case lc_dataptr ctx of None \<Rightarrow> Some (-1, ctx)
      | Some old \<Rightarrow>
          let offset = lc_offset ctx; len = length data in
          (case re old ((offset + len + 512) mod 2 ^ 32) of None \<Rightarrow> Some (-2, ctx)
           | Some t0 \<Rightarrow>
               do { t1 \<leftarrow> poke offset luadb_magic t0;
                    t2 \<leftarrow> poke (offset + 6) [0x02, of_nat (length name)] t1;
                    t3 \<leftarrow> poke (offset + 8) name t2;
                    let offset = offset + 8 + length name;
                    t4 \<leftarrow> poke offset [0x03, 0x04] t3;
                    t5 \<leftarrow> poke (offset + 2) [of_nat len, of_nat (len div 2 ^ 8), of_nat (len div 2 ^ 16), of_nat (len div 2 ^ 24)] t4;
                    t6 \<leftarrow> poke (offset + 6) [0xFE, 0x02, 0x00, 0x00] t5;
                    t7 \<leftarrow> poke (offset + 10) data t6;
                    count \<leftarrow> peek 0x12 1 t7;
                    t8 \<leftarrow> poke 0x12 [hd count + 1] t7;
                    Some (0, ctx\<lparr>lc_offset := offset + 10 + len, lc_dataptr := Some t8\<rparr>) }))"

section \<open>The format\<close>

type_synonym luadb_entry = "byte list \<times> byte list"

definition file_bytes :: "luadb_entry \<Rightarrow> byte list" where
  "file_bytes f = (case f of (name, data) \<Rightarrow>
     luadb_magic @ [0x02, of_nat (length name)] @ name @ [0x03, 0x04] @ le_bytes 4 (length data) @
     [0xFE, 0x02, 0x00, 0x00] @ data)"

definition image_head :: "byte \<Rightarrow> byte list" where
  "image_head n = luadb_magic @ [0x02, 0x02, 0x02, 0x00] @ [0x03, 0x04, 0x00, 0x00, 0x00, 0x18] @
     [0x04, 0x02, n, 0x00] @ [0xFE, 0x02, 0x00, 0x00]"

definition image_bytes :: "luadb_entry list \<Rightarrow> byte list" where
  "image_bytes fs = image_head (of_nat (length fs)) @ concat (map file_bytes fs)"

text \<open>A reference decoder: a tagged field is a tag, a length byte and the value.\<close>

definition expect :: "byte list \<Rightarrow> byte list \<Rightarrow> byte list option" where
  "expect xs bs = (if take (length xs) bs = xs then Some (drop (length xs) bs) else None)"

definition take_exact :: "nat \<Rightarrow> byte list \<Rightarrow> (byte list \<times> byte list) option" where
  "take_exact n bs = (if n \<le> length bs then Some (take n bs, drop n bs) else None)"

definition decode_file :: "byte list \<Rightarrow> (luadb_entry \<times> byte list) option" where
  "decode_file bs =
     do { b1 \<leftarrow> expect luadb_magic bs;
          b2 \<leftarrow> expect [0x02] b1;
          (n, b3) \<leftarrow> take_exact 1 b2;
          (name, b4) \<leftarrow> take_exact (le_val n) b3;
          b5 \<leftarrow> expect [0x03, 0x04] b4;
          (l, b6) \<leftarrow> take_exact 4 b5;
          b7 \<leftarrow> expect [0xFE, 0x02, 0x00, 0x00] b6;
          (data, b8) \<leftarrow> take_exact (le_val l) b7;
          Some ((name, data), b8) }"

fun decode_files :: "nat \<Rightarrow> byte list \<Rightarrow> luadb_entry list option" where
  "decode_files 0 bs = Some []"
| "decode_files (Suc n) bs = do { (f, bs') \<leftarrow> decode_file bs; fs \<leftarrow> decode_files n bs'; Some (f # fs) }"

definition decode_image :: "byte list \<Rightarrow> luadb_entry list option" where
  "decode_image bs =
     do { b1 \<leftarrow> expect (luadb_magic @ [0x02, 0x02, 0x02, 0x00] @ [0x03, 0x04, 0x00, 0x00, 0x00, 0x18] @ [0x04, 0x02]) bs;
          (n, b2) \<leftarrow> take_exact 2 b1;
          b3 \<leftarrow> expect [0xFE, 0x02, 0x00, 0x00] b2;
          decode_files (le_val n) b3 }"

section \<open>Decoding what the format says\<close>

lemma expect_append [simp]: "expect xs (xs @ bs) = Some bs"
  by (simp add: expect_def)

lemma take_exact_append: "length xs = n \<Longrightarrow> take_exact n (xs @ bs) = Some (xs, bs)"
  by (auto simp: take_exact_def)

lemma take_exact_2: "take_exact 2 (x # y # bs) = Some ([x, y], bs)"
  by (simp add: take_exact_def numeral_2_eq_2)

lemma decode_file_bytes:
  assumes "length name < 256" and "length data < 2 ^ 32"
  shows "decode_file (file_bytes (name, data) @ rest) = Some ((name, data), rest)"
proof -
  have n: "le_val [of_nat (length name)] = length name"
    using assms(1) by (simp add: unat_of_nat_byte)
  have l: "le_val (le_bytes 4 (length data)) = length data" using assms(2) by simp
  have "take_exact 1 (of_nat (length name) # bs) = Some ([of_nat (length name)], bs)" for bs
    by (simp add: take_exact_def)
  moreover have "expect [0x02] (0x02 # bs) = Some bs" for bs :: "byte list" by (simp add: expect_def)
  moreover have "file_bytes (name, data) @ rest = luadb_magic @ 0x02 # of_nat (length name) # name @ [0x03, 0x04] @
      le_bytes 4 (length data) @ [0xFE, 0x02, 0x00, 0x00] @ data @ rest"
    by (simp add: file_bytes_def)
  ultimately show ?thesis
    unfolding decode_file_def by (simp only: expect_append bind.bind_lunit prod.case n l
      take_exact_append [OF refl] take_exact_append [OF length_le_bytes])
qed

definition entry_ok :: "luadb_entry \<Rightarrow> bool" where
  "entry_ok f \<longleftrightarrow> length (fst f) < 256 \<and> length (snd f) < 2 ^ 32"

lemma decode_files_bytes:
  "\<forall>f\<in>set fs. entry_ok f \<Longrightarrow> decode_files (length fs) (concat (map file_bytes fs)) = Some fs"
  by (induction fs) (auto simp: decode_file_bytes entry_ok_def)

lemma decode_image_bytes:
  assumes "\<forall>f\<in>set fs. entry_ok f" and "length fs < 256"
  shows "decode_image (image_bytes fs) = Some fs"
proof -
  have "le_val [of_nat (length fs), 0x00] = length fs" using assms(2) by (simp add: unat_of_nat_byte)
  then show ?thesis
    using decode_files_bytes [OF assms(1)] take_exact_2
    by (simp add: decode_image_def image_bytes_def image_head_def expect_def)
qed

section \<open>The writer implements the format\<close>

lemma poke_append:
  "poke off (xs @ ys) b = do { b1 \<leftarrow> poke off xs b; poke (off + length xs) ys b1 }"
proof (cases "off + length xs + length ys \<le> length b")
  case True
  then have "take (off + length xs) (take off b @ xs @ drop (off + length xs) b) = take off b @ xs"
    "drop (off + length xs + length ys) (take off b @ xs @ drop (off + length xs) b) =
       drop (off + length xs + length ys) b"
    by (simp_all add: add.commute)
  with True show ?thesis by (simp add: poke_def add.assoc)
next
  case False
  then show ?thesis by (auto simp: poke_def)
qed

lemma poke_single: "poke i [x] b = (if i < length b then Some (b[i := x]) else None)"
  by (simp add: poke_def upd_conv_take_nth_drop)

lemma peek_single: "peek i 1 b = (if i < length b then Some [b ! i] else None)"
  by (simp add: peek_def take_Suc_conv_app_nth [of 0, simplified] hd_drop_conv_nth take_Suc)

text \<open>What the code relies on: \<open>realloc\<close> keeps the contents up to the smaller size.\<close>

definition realloc_lawful :: "(byte list \<Rightarrow> nat \<Rightarrow> byte list option) \<Rightarrow> bool" where
  "realloc_lawful re \<longleftrightarrow> (\<forall>b n b'. re b n = Some b' \<longrightarrow> length b' = n \<and> (\<forall>k\<le>min n (length b). take k b' = take k b))"

definition image_of :: "luat_luadb2_ctx \<Rightarrow> byte list" where
  "image_of ctx = (case lc_dataptr ctx of None \<Rightarrow> [] | Some b \<Rightarrow> take (lc_offset ctx) b)"

definition ctx_holds :: "luat_luadb2_ctx \<Rightarrow> luadb_entry list \<Rightarrow> bool" where
  "ctx_holds ctx fs \<longleftrightarrow> (\<exists>b. lc_dataptr ctx = Some b \<and> lc_offset ctx \<le> length b \<and>
     lc_offset ctx = length (image_bytes fs) \<and> take (lc_offset ctx) b = image_bytes fs)"

lemma len_bytes:
  "[of_nat len, of_nat (len div 2 ^ 8), of_nat (len div 2 ^ 16), of_nat (len div 2 ^ 24)] = le_bytes 4 len"
proof -
  have "len div 2 ^ 8 = len div 256" "len div 2 ^ 16 = len div 256 div 256"
    "len div 2 ^ 24 = len div 256 div 256 div 256"
    by (simp_all add: div_mult2_eq [symmetric])
  moreover have four: "(4 :: nat) = Suc (Suc (Suc (Suc 0)))" by simp
  ultimately show ?thesis unfolding four le_bytes.simps by simp
qed

lemma poke_file_bytes:
  "poke off (file_bytes (name, data)) t0 =
     do { t1 \<leftarrow> poke off luadb_magic t0;
          t2 \<leftarrow> poke (off + 6) [0x02, of_nat (length name)] t1;
          t3 \<leftarrow> poke (off + 8) name t2;
          t4 \<leftarrow> poke (off + 8 + length name) [0x03, 0x04] t3;
          t5 \<leftarrow> poke (off + 8 + length name + 2) (le_bytes 4 (length data)) t4;
          t6 \<leftarrow> poke (off + 8 + length name + 6) [0xFE, 0x02, 0x00, 0x00] t5;
          poke (off + 8 + length name + 10) data t6 }"
proof -
  have l: "length luadb_magic = 6" "length [x, y] = 2" "length [x, y, z, w] = 4" for x y z w :: byte
    by simp_all
  show ?thesis unfolding file_bytes_def prod.case poke_append l length_le_bytes
    by (simp add: ac_simps)
qed

lemma write_pokes:
  "luat_luadb2_write re name data ctx =
     (case lc_dataptr ctx of None \<Rightarrow> Some (-1, ctx)
      | Some old \<Rightarrow>
          (case re old ((lc_offset ctx + length data + 512) mod 2 ^ 32) of None \<Rightarrow> Some (-2, ctx)
           | Some t0 \<Rightarrow>
               do { t7 \<leftarrow> poke (lc_offset ctx) (file_bytes (name, data)) t0;
                    count \<leftarrow> peek 0x12 1 t7;
                    t8 \<leftarrow> poke 0x12 [hd count + 1] t7;
                    Some (0, ctx\<lparr>lc_offset := lc_offset ctx + length (file_bytes (name, data)), lc_dataptr := Some t8\<rparr>) }))"
proof -
  have off: "lc_offset ctx + length (file_bytes (name, data)) = lc_offset ctx + 8 + length name + 10 + length data"
    by (simp add: file_bytes_def)
  show ?thesis unfolding luat_luadb2_write_def Let_def len_bytes off poke_file_bytes bind_assoc ..
qed

lemma image_bytes_snoc:
  "image_bytes (fs @ [f]) =
     (image_bytes fs @ file_bytes f)[18 := of_nat (length fs) + 1]"
proof -
  have "(18 :: nat) = Suc (Suc (Suc (Suc (Suc (Suc (Suc (Suc (Suc (Suc (Suc (Suc (Suc (Suc (Suc (Suc (Suc (Suc 0)))))))))))))))))"
    by simp
  then show ?thesis by (simp add: image_bytes_def image_head_def add.commute)
qed

lemma image_bytes_nth: "image_bytes fs ! 18 = of_nat (length fs)"
  by (simp add: image_bytes_def image_head_def eval_nat_numeral)

lemma image_bytes_long: "24 \<le> length (image_bytes fs)"
  by (simp add: image_bytes_def image_head_def)

lemma length_file_bytes: "length (file_bytes (name, data)) = 18 + length name + length data"
  by (simp add: file_bytes_def)

lemma write_appends:
  assumes h: "ctx_holds ctx fs" and re: "realloc_lawful re"
    and room: "re (the (lc_dataptr ctx)) (lc_offset ctx + length data + 512) = Some t0"
    and name: "length name \<le> 494" and size: "lc_offset ctx + length data + 512 < 2 ^ 32"
  shows "\<exists>ctx'. luat_luadb2_write re name data ctx = Some (0, ctx') \<and> ctx_holds ctx' (fs @ [(name, data)])"
proof -
  let ?f = "file_bytes (name, data)" and ?o = "lc_offset ctx"
  from h obtain b where b: "lc_dataptr ctx = Some b" "?o \<le> length b" "?o = length (image_bytes fs)"
    "take ?o b = image_bytes fs" by (auto simp: ctx_holds_def)
  from re room b(1) have t0: "length t0 = ?o + length data + 512" "take ?o t0 = image_bytes fs"
    using b(2,4) by (auto simp: realloc_lawful_def)
  have fits: "?o + length ?f \<le> length t0" using name t0(1) by (simp add: length_file_bytes)
  obtain t7 where t7: "poke ?o ?f t0 = Some t7" "t7 = image_bytes fs @ ?f @ drop (?o + length ?f) t0"
    using fits t0(2) by (simp add: poke_def)
  have 18: "18 < length t7" "t7 ! 18 = of_nat (length fs)"
    using image_bytes_long [of fs] by (simp_all add: t7(2) nth_append image_bytes_nth)
  let ?t8 = "t7[18 := of_nat (length fs) + 1]"
  have "luat_luadb2_write re name data ctx = Some (0, ctx\<lparr>lc_offset := ?o + length ?f, lc_dataptr := Some ?t8\<rparr>)"
    using b(1) room size t7(1) 18 by (simp add: write_pokes peek_single [unfolded One_nat_def] poke_single)
  moreover have "take (?o + length ?f) ?t8 = image_bytes (fs @ [(name, data)])"
    using b(3) by (simp add: take_update_swap image_bytes_snoc t7(2) take_append)
  moreover have "length (image_bytes (fs @ [(name, data)])) = ?o + length ?f"
    using b(3) by (simp add: image_bytes_snoc)
  moreover have "?o + length ?f \<le> length ?t8" using fits b(3) by (simp add: t7(2))
  ultimately show ?thesis by (auto simp: ctx_holds_def)
qed

lemma init_holds:
  assumes "lc_dataptr ctx = None" and "length new = 1024"
  shows "\<exists>ctx'. luat_luadb2_init (Some new) ctx = Some (0, ctx') \<and> ctx_holds ctx' []"
proof -
  have l: "length luadb_magic = 6" "length [x, y, z, w] = 4" "length [x, y, z, w, u, v] = 6" for x y z w u v :: byte
    by simp_all
  have head: "poke 0 (image_head 0) new =
      do { t1 \<leftarrow> poke 0 luadb_magic new; t2 \<leftarrow> poke 6 [0x02, 0x02, 0x02, 0x00] t1;
           t3 \<leftarrow> poke 10 [0x03, 0x04, 0x00, 0x00, 0x00, 0x18] t2; t4 \<leftarrow> poke 16 [0x04, 0x02, 0x00, 0x00] t3;
           poke 20 [0xFE, 0x02, 0x00, 0x00] t4 }"
    unfolding image_head_def poke_append l by simp
  have lh: "length (image_head 0) = 24" by (simp add: image_head_def)
  have "luat_luadb2_init (Some new) ctx =
      do { t5 \<leftarrow> poke 0 (image_head 0) new; Some (0, ctx\<lparr>lc_dataptr := Some t5, lc_size := 1024, lc_offset := 24\<rparr>) }"
    unfolding head using assms(1) by (simp add: luat_luadb2_init_def)
  moreover have "poke 0 (image_head 0) new = Some (image_head 0 @ drop 24 new)"
    using assms(2) lh by (simp add: poke_def)
  ultimately have "luat_luadb2_init (Some new) ctx =
      Some (0, ctx\<lparr>lc_dataptr := Some (image_head 0 @ drop 24 new), lc_size := 1024, lc_offset := 24\<rparr>)"
    by simp
  with lh show ?thesis by (auto simp: ctx_holds_def image_bytes_def)
qed

section \<open>Properties\<close>

text \<open>Packing as \<open>luat_cmds.c\<close> does it: one initialisation and one write per file.\<close>

fun write_files :: "(byte list \<Rightarrow> nat \<Rightarrow> byte list option) \<Rightarrow> luadb_entry list \<Rightarrow> luat_luadb2_ctx \<Rightarrow> luat_luadb2_ctx option" where
  "write_files re [] ctx = Some ctx"
| "write_files re ((name, data) # fs) ctx =
     do { (r, ctx') \<leftarrow> luat_luadb2_write re name data ctx; if r = 0 then write_files re fs ctx' else None }"

definition pack_files :: "(byte list \<Rightarrow> nat \<Rightarrow> byte list option) \<Rightarrow> byte list option \<Rightarrow> luadb_entry list \<Rightarrow> luat_luadb2_ctx option" where
  "pack_files re new fs =
     do { (r, ctx) \<leftarrow> luat_luadb2_init new \<lparr>lc_dataptr = None, lc_offset = 0, lc_size = 0\<rparr>; write_files re fs ctx }"

lemma length_image_append:
  "length (image_bytes (fs @ gs)) = length (image_bytes fs) + length (concat (map file_bytes gs))"
  by (simp add: image_bytes_def image_head_def)

lemma write_files_holds:
  assumes "ctx_holds ctx fs" and "realloc_lawful re" and "\<And>b n. re b n \<noteq> None"
    and "\<forall>f\<in>set gs. entry_ok f" and "length (image_bytes (fs @ gs)) + 512 < 2 ^ 32"
  shows "\<exists>ctx'. write_files re gs ctx = Some ctx' \<and> ctx_holds ctx' (fs @ gs)"
  using assms(1,4,5)
proof (induction gs arbitrary: ctx fs)
  case (Cons g gs)
  obtain name data where g: "g = (name, data)" by force
  have len: "length name \<le> 494" using Cons.prems(2) g by (simp add: entry_ok_def)
  have o: "lc_offset ctx = length (image_bytes fs)" using Cons.prems(1) by (auto simp: ctx_holds_def)
  have size: "lc_offset ctx + length data + 512 < 2 ^ 32"
    using Cons.prems(3) by (simp add: o g length_image_append length_file_bytes)
  obtain t0 where "re (the (lc_dataptr ctx)) (lc_offset ctx + length data + 512) = Some t0"
    using assms(3) by blast
  from write_appends [OF Cons.prems(1) assms(2) this len size] obtain ctx1 where
    c1: "luat_luadb2_write re name data ctx = Some (0, ctx1)" "ctx_holds ctx1 (fs @ [g])" by (auto simp: g)
  from Cons.IH [OF c1(2)] Cons.prems(2,3) c1(1) show ?case by (auto simp: g)
qed simp

text \<open>C4: Round trip of luadb images. When memory does not run out, packing up to 255 files with
  names of up to 255 bytes succeeds without writing outside of the buffer, and decoding the image
  yields exactly these files, in order.\<close>

theorem luadb_roundtrip:
  assumes "realloc_lawful re" and "\<And>b n. re b n \<noteq> None" and "length new = 1024"
    and "\<forall>f\<in>set fs. entry_ok f" and "length fs < 256" and "length (image_bytes fs) + 512 < 2 ^ 32"
  shows "\<exists>ctx. pack_files re (Some new) fs = Some ctx \<and> decode_image (image_of ctx) = Some fs"
proof -
  from init_holds [of "\<lparr>lc_dataptr = None, lc_offset = 0, lc_size = 0\<rparr>" new] assms(3) obtain c0 where
    c0: "luat_luadb2_init (Some new) \<lparr>lc_dataptr = None, lc_offset = 0, lc_size = 0\<rparr> = Some (0, c0)" "ctx_holds c0 []"
    by auto
  from write_files_holds [OF c0(2) assms(1,2,4)] assms(6) obtain ctx where
    "write_files re fs c0 = Some ctx" "ctx_holds ctx fs" by auto
  with c0(1) decode_image_bytes [OF assms(4,5)] show ?thesis
    by (auto simp: pack_files_def ctx_holds_def image_of_def)
qed

definition realloc_zero :: "byte list \<Rightarrow> nat \<Rightarrow> byte list option" where
  "realloc_zero b n = Some (take n b @ replicate (n - length b) 0)"

lemma realloc_zero_lawful: "realloc_lawful realloc_zero"
  by (auto simp: realloc_lawful_def realloc_zero_def)

theorem luadb_roundtrip_witness:
  "\<exists>ctx. pack_files realloc_zero (Some (replicate 1024 0)) [([109, 97], [1, 2, 3]), ([98], [])] = Some ctx \<and>
     decode_image (image_of ctx) = Some [([109, 97], [1, 2, 3]), ([98], [])]"
  by (rule luadb_roundtrip)
    (simp_all add: realloc_zero_lawful, simp_all add: realloc_zero_def entry_ok_def image_bytes_def image_head_def file_bytes_def)

text \<open>The enlarged buffer leaves 512 bytes for a record besides its data. A file name of more than
  494 bytes does not fit there: \<open>luat_luadb2_write\<close> writes past the end of the buffer.\<close>

theorem luadb_long_name_overflow:
  assumes "lc_dataptr ctx = Some b" and "realloc_lawful re" and "494 < length name"
    and "lc_offset ctx + length data + 512 < 2 ^ 32" and "re b (lc_offset ctx + length data + 512) = Some t0"
  shows "luat_luadb2_write re name data ctx = None"
proof -
  have "length t0 = lc_offset ctx + length data + 512" using assms(2,5) by (simp add: realloc_lawful_def)
  then have "poke (lc_offset ctx) (file_bytes (name, data)) t0 = None"
    using assms(3) by (simp add: poke_def length_file_bytes)
  with assms show ?thesis by (simp add: write_pokes)
qed

theorem luadb_long_name_overflow_witness:
  "luat_luadb2_write realloc_zero (replicate 495 97) [1, 2]
     \<lparr>lc_dataptr = Some (replicate 1024 0), lc_offset = 24, lc_size = 1024\<rparr> = None"
  by (rule luadb_long_name_overflow [OF _ realloc_zero_lawful]) (simp_all add: realloc_zero_def)

text \<open>The file count is one byte: an image of 256 files announces none.\<close>

lemma luadb_count_wraps: "length fs = 256 \<Longrightarrow> decode_image (image_bytes fs) = Some []"
  by (simp add: decode_image_def image_bytes_def image_head_def expect_def take_exact_2)

end
