(* ===== verification/Cmds.thy ===== *)
theory Cmds
  imports Luadb2
begin

text \<open>
  The command line of \<open>port/luat_cmds.c\<close>: scripts and resources named on the command line (or in a
  LuaTools project file) are packed into a luadb image, scripts after compilation to Lua byte code, and
  the image can be written to a file. The file system, the allocator and the Lua compiler are parameters:
  a record of the files and directories, the success of an allocation by its size, and the pieces that
  \<open>luaU_dump\<close> hands to \<open>writer\<close>. Strings of C are lists of characters without the final zero.
\<close>

section \<open>Environment and state\<close>

text \<open>\<open>ce_dir\<close> lists the entries of a directory with the flag \<open>d_type == DT_REG\<close>; \<open>ce_compile\<close> gives the
  pieces of the dumped chunk, or nothing on a syntax error; \<open>ce_after\<close> is what lies in memory behind the
  terminator of a path; \<open>ce_luadb2\<close> is the buffer of \<open>luat_luadb2_init\<close>.\<close>

record cenv =
  ce_file :: "string \<Rightarrow> byte list option"
  ce_dir :: "string \<Rightarrow> (string \<times> bool) list option"
  ce_mem :: "nat \<Rightarrow> bool"
  ce_realloc :: "byte list \<Rightarrow> nat \<Rightarrow> byte list option"
  ce_compile :: "bool \<Rightarrow> string \<Rightarrow> byte list \<Rightarrow> byte list list option"
  ce_after :: "string \<Rightarrow> string"
  ce_luadb2 :: "byte list option"
  ce_can_write :: "string \<Rightarrow> bool"
  ce_mock :: "string \<Rightarrow> int"

record cmd_state =
  cs_ctx :: luat_luadb2_ctx
  cs_luadb_ptr :: "byte list option"
  cs_dump_path :: string
  cs_strip :: int
  cs_report :: bool
  cs_norun :: bool

definition cmd_start :: cmd_state where
  "cmd_start = \<lparr>cs_ctx = \<lparr>lc_dataptr = None, lc_offset = 0, lc_size = 0\<rparr>, cs_luadb_ptr = None,
     cs_dump_path = replicate 1024 CHR 0x00, cs_strip = 0, cs_report = False, cs_norun = False\<rparr>"

definition bytes_of :: "string \<Rightarrow> byte list" where
  "bytes_of s = map of_char s"

definition c_string :: "string \<Rightarrow> string" where
  "c_string buf = takeWhile (\<lambda>c. c \<noteq> CHR 0x00) buf"

definition is_opts :: "string \<Rightarrow> string \<Rightarrow> bool" where
  "is_opts key arg = (if length arg \<le> length key then False else take (length key) arg = key)"

section \<open>Adding files\<close>

record luac_ctx =
  lx_ptr :: "byte list option"
  lx_len :: nat

definition writer :: "cenv \<Rightarrow> byte list \<Rightarrow> luac_ctx \<Rightarrow> (int \<times> luac_ctx) option" where
  "writer env p ctx =
     (case lx_ptr ctx of
        None \<Rightarrow> if ce_mem env (length p) then Some (0, ctx\<lparr>lx_ptr := Some p, lx_len := length p\<rparr>) else None
      | Some old \<Rightarrow>
          (case ce_realloc env old (lx_len ctx + length p) of None \<Rightarrow> Some (1, ctx)
           | Some ptr \<Rightarrow> do { ptr' \<leftarrow> poke (lx_len ctx) p ptr;
                             Some (0, ctx\<lparr>lx_ptr := Some ptr', lx_len := lx_len ctx + length p\<rparr>) }))"

text \<open>\<open>luaU_dump\<close> calls the writer piece by piece and stops when it reports a failure.\<close>

fun dump_pieces :: "cenv \<Rightarrow> byte list list \<Rightarrow> luac_ctx \<Rightarrow> (int \<times> luac_ctx) option" where
  "dump_pieces env [] ctx = Some (0, ctx)"
| "dump_pieces env (p # ps) ctx =
     do { (r, ctx') \<leftarrow> writer env p ctx; if r \<noteq> 0 then Some (r, ctx') else dump_pieces env ps ctx' }"

text \<open>\<open>pmain\<close>: the result is the integer that is left on the Lua stack, if one is.\<close>

definition pmain :: "cenv \<Rightarrow> string \<Rightarrow> byte list \<Rightarrow> cmd_state \<Rightarrow> (int option \<times> cmd_state) option" where
  "pmain env name data s =
     (let strip = (if cs_strip s \<noteq> 0 then \<not> (cs_strip s = 1 \<and> name = ''main.lua'') else False) in
      case ce_compile env strip name data of None \<Rightarrow> Some (None, s)
      | Some pieces \<Rightarrow>
          if \<not> ce_mem env 8 then None
          else do { (ret, ctx) \<leftarrow> dump_pieces env pieces \<lparr>lx_ptr = None, lx_len = 0\<rparr>;
                    s' \<leftarrow> (if ret = 0
                           then do { data' \<leftarrow> (case lx_ptr ctx of None \<Rightarrow> Some [] | Some p \<Rightarrow> peek 0 (lx_len ctx) p);
                                     (_, c) \<leftarrow> luat_luadb2_write (ce_realloc env) (bytes_of name) data' (cs_ctx s);
                                     Some (s\<lparr>cs_ctx := c, cs_luadb_ptr := lc_dataptr c\<rparr>) }
                           else Some s);
                    Some (Some ret, s') })"

text \<open>\<open>to_luac\<close> reads the result with \<open>luaL_checkinteger\<close> outside of a protected call: without a result the
  program is aborted.\<close>

definition to_luac :: "cenv \<Rightarrow> string \<Rightarrow> byte list \<Rightarrow> cmd_state \<Rightarrow> (int \<times> cmd_state) option" where
  "to_luac env name data s = do { (r, s') \<leftarrow> pmain env name data s; ret \<leftarrow> r; Some (ret, s') }"

text \<open>The position behind the last separator, counted from the start; 0 without one.\<close>

fun after_separator :: "string \<Rightarrow> nat \<Rightarrow> nat" where
  "after_separator path 0 = 0"
| "after_separator path (Suc i) =
     (if path ! i = CHR ''/'' \<or> path ! i = CHR 0x5C then Suc i else after_separator path i)"

text \<open>The name under which a file is stored: \<open>memcpy(tmpname, path + i, strlen(path) - 1)\<close> copies more than
  the rest of the path, so that it reads the memory behind it.\<close>

definition entry_name :: "cenv \<Rightarrow> string \<Rightarrow> string option" where
  "entry_name env path =
     (let i = after_separator path (length path); mem = path @ CHR 0x00 # ce_after env path in
      do { tmpname \<leftarrow> (if i \<noteq> 0
                       then do { x \<leftarrow> peek i (length path - 1) mem; poke 0 x (replicate 512 CHR 0x00) }
                       else Some (replicate 512 CHR 0x00));
           if c_string tmpname = []
           then do { t \<leftarrow> poke 0 path tmpname; Some (c_string t) }
           else Some (c_string tmpname) })"

definition add_onefile :: "cenv \<Rightarrow> string \<Rightarrow> cmd_state \<Rightarrow> (int \<times> cmd_state) option" where
  "add_onefile env path s =
     (case ce_file env path of None \<Rightarrow> Some (-1, s)
      | Some data \<Rightarrow>
          if \<not> ce_mem env (length data) then Some (-2, s)
          else do { name \<leftarrow> entry_name env path;
                    ext \<leftarrow> (if length path < 4 then None else Some (drop (length path - 4) path));
                    if ext = ''.lua'' then to_luac env name data s
                    else do { (ret, c) \<leftarrow> luat_luadb2_write (ce_realloc env) (bytes_of name) data (cs_ctx s);
                              Some (ret, s\<lparr>cs_ctx := c, cs_luadb_ptr := lc_dataptr c\<rparr>) } })"

text \<open>The regular files of a directory; \<open>sprintf\<close> writes their paths into a buffer of 512 bytes.\<close>

fun add_dir :: "cenv \<Rightarrow> string \<Rightarrow> (string \<times> bool) list \<Rightarrow> cmd_state \<Rightarrow> (bool \<times> cmd_state) option" where
  "add_dir env path [] s = Some (True, s)"
| "add_dir env path ((name, regular) # es) s =
     (if \<not> regular then add_dir env path es s
      else let buff = path @ CHR ''/'' # name in
           if 512 \<le> length buff then None
           else do { (r, s') \<leftarrow> add_onefile env buff s; if r \<noteq> 0 then Some (False, s') else add_dir env path es s' })"

text \<open>\<open>check_file_path\<close> returns the image, or a null pointer on failure.\<close>

definition check_file_path :: "cenv \<Rightarrow> string \<Rightarrow> cmd_state \<Rightarrow> (byte list option \<times> cmd_state) option" where
  "check_file_path env path s =
     (if length path < 4 \<or> 512 \<le> length path then Some (None, s)
      else if last path = CHR ''/'' \<or> last path = CHR 0x5C
      then (case ce_dir env (butlast path) of None \<Rightarrow> Some (None, s)
            | Some es \<Rightarrow> do { (ok, s') \<leftarrow> add_dir env path es s; Some (if ok then cs_luadb_ptr s' else None, s') })
      else do { (r, s') \<leftarrow> add_onefile env path s; Some (if r \<noteq> 0 then None else cs_luadb_ptr s', s') })"

definition luat_cmd_load_and_analyse :: "cenv \<Rightarrow> string \<Rightarrow> cmd_state \<Rightarrow> (int \<times> cmd_state) option" where
  "luat_cmd_load_and_analyse env path s = add_onefile env path s"

section \<open>Images and project files\<close>

definition luat_cmd_load_luadb :: "cenv \<Rightarrow> string \<Rightarrow> cmd_state \<Rightarrow> int \<times> cmd_state" where
  "luat_cmd_load_luadb env path s =
     (case ce_file env path of None \<Rightarrow> (-1, s)
      | Some data \<Rightarrow> if \<not> ce_mem env (length data) then (-1, s) else (0, s\<lparr>cs_luadb_ptr := Some data\<rparr>))"

text \<open>The loop over the text: it ends at the first zero, and acts on a line when it sees the line break.\<close>

fun text_lines :: "string \<Rightarrow> string \<Rightarrow> string list" where
  "text_lines ret [] = []"
| "text_lines ret (c # cs) =
     (if c = CHR 0x00 then []
      else if c = CHR 0x0D \<or> c = CHR 0x0A then (if ret \<noteq> [] then [ret] else []) @ text_lines [] cs
      else text_lines (ret @ [c]) cs)"

text \<open>The part of a line before its first space or equals sign.\<close>

definition line_key :: "string \<Rightarrow> string option" where
  "line_key ret =
     (let key = takeWhile (\<lambda>c. c \<noteq> CHR '' '' \<and> c \<noteq> CHR ''='') ret in if length key < length ret then Some key else None)"

text \<open>One line: the new directory line, and the file to load. \<open>dirline\<close> has 512 bytes, \<open>rpath\<close> 1024.\<close>

definition luatools_line :: "string \<Rightarrow> string \<Rightarrow> (string \<times> string option) option" where
  "luatools_line dirline ret =
     (if ret = ''[info]'' then Some (dirline, None)
      else if 5 < length ret
      then if hd ret = CHR ''['' \<and> last ret = CHR '']''
           then if 512 \<le> length ret - 2 then None else Some (take (length ret - 2) (tl ret), None)
           else if dirline = [] then Some (dirline, None)
           else (case line_key ret of None \<Rightarrow> Some (dirline, None)
                 | Some key \<Rightarrow> let rpath = dirline @ CHR ''/'' # key in
                              if 1024 \<le> length rpath then None else Some (dirline, Some rpath))
      else Some (dirline, None))"

fun luatools_lines :: "cenv \<Rightarrow> string \<Rightarrow> string list \<Rightarrow> cmd_state \<Rightarrow> (int \<times> cmd_state) option" where
  "luatools_lines env dirline [] s = Some (0, s)"
| "luatools_lines env dirline (ret # lines) s =
     do { (dirline', rpath) \<leftarrow> luatools_line dirline ret;
          (case rpath of None \<Rightarrow> luatools_lines env dirline' lines s
           | Some path \<Rightarrow> do { (p, s') \<leftarrow> check_file_path env path s;
                              if p = None then Some (-2, s') else luatools_lines env dirline' lines s' }) }"

definition luat_cmd_load_luatools :: "cenv \<Rightarrow> string \<Rightarrow> cmd_state \<Rightarrow> (int \<times> cmd_state) option" where
  "luat_cmd_load_luatools env path s =
     (case ce_file env path of None \<Rightarrow> Some (-1, s)
      | Some data \<Rightarrow>
          if \<not> ce_mem env (length data + 1) then Some (-1, s)
          else luatools_lines env [] (text_lines [] (map (\<lambda>b. char_of (unat b)) data)) s)"

section \<open>The command line\<close>

abbreviation opt_value :: "string \<Rightarrow> string \<Rightarrow> string" where
  "opt_value key arg \<equiv> drop (length key) arg"

definition cmd_arg :: "cenv \<Rightarrow> string \<Rightarrow> cmd_state \<Rightarrow> (int \<times> cmd_state) option" where
  "cmd_arg env arg s =
     (if is_opts ''--load_luadb='' arg
      then let (r, s') = luat_cmd_load_luadb env (opt_value ''--load_luadb='' arg) s in Some (if r \<noteq> 0 then -1 else 0, s')
      else if is_opts ''--ldb='' arg
      then let (r, s') = luat_cmd_load_luadb env (opt_value ''--ldb='' arg) s in Some (if r \<noteq> 0 then -1 else 0, s')
      else if is_opts ''--load_luatools='' arg
      then do { (r, s') \<leftarrow> luat_cmd_load_luatools env (opt_value ''--load_luatools='' arg) s; Some (if r \<noteq> 0 then -1 else 0, s') }
      else if is_opts ''--llt='' arg
      then do { (r, s') \<leftarrow> luat_cmd_load_luatools env (opt_value ''--llt='' arg) s; Some (if r \<noteq> 0 then -1 else 0, s') }
      else if is_opts ''--mlua='' arg
      then Some (if ce_mock env (opt_value ''--mlua='' arg) \<noteq> 0 then -1 else 0, s)
      else if is_opts ''--dump_luadb='' arg
      then do { p \<leftarrow> poke 0 (opt_value ''--dump_luadb='' arg) (cs_dump_path s); Some (0, s\<lparr>cs_dump_path := p\<rparr>) }
      else if is_opts ''--luac_strip='' arg
      then Some (0, if arg = ''--luac_strip=1'' then s\<lparr>cs_strip := 1\<rparr>
                    else if arg = ''--luac_strip=0'' then s\<lparr>cs_strip := 0\<rparr>
                    else if arg = ''--luac_strip=2'' then s\<lparr>cs_strip := 2\<rparr> else s)
      else if is_opts ''--luac_report='' arg
      then Some (0, if arg = ''--luac_report=1'' then s\<lparr>cs_report := True\<rparr> else s)
      else if is_opts ''--norun='' arg
      then Some (0, if arg = ''--norun=1'' then s\<lparr>cs_norun := True\<rparr> else s)
      else if arg \<noteq> [] \<and> hd arg = CHR ''-'' then Some (0, s)
      else do { (_, s') \<leftarrow> check_file_path env arg s; Some (0, s') })"

fun cmd_args :: "cenv \<Rightarrow> string list \<Rightarrow> cmd_state \<Rightarrow> (int \<times> cmd_state) option" where
  "cmd_args env [] s = Some (0, s)"
| "cmd_args env (arg # args) s =
     do { (r, s') \<leftarrow> cmd_arg env arg s; if r \<noteq> 0 then Some (r, s') else cmd_args env args s' }"

datatype cmd_end = CmdReturn int | CmdExit int

text \<open>How \<open>luat_cmd_parse\<close> ends, and the file it writes. \<open>args\<close> are the arguments without the program name. The
  report only prints.\<close>

definition luat_cmd_parse :: "cenv \<Rightarrow> string list \<Rightarrow> cmd_state \<Rightarrow> (cmd_end \<times> (string \<times> byte list) option \<times> cmd_state) option" where
  "luat_cmd_parse env args s =
     (if args = [] then Some (CmdReturn 0, None, s)
      else do { (_, c) \<leftarrow> luat_luadb2_init (ce_luadb2 env) (cs_ctx s);
                (r, s1) \<leftarrow> cmd_args env args (s\<lparr>cs_ctx := c\<rparr>);
                if r \<noteq> 0 then Some (CmdReturn r, None, s1)
                else do { let path = c_string (cs_dump_path s1);
                          if path \<noteq> []
                          then if length path = length (cs_dump_path s1) then None
                               else if \<not> ce_can_write env path then Some (CmdExit 1, None, s1)
                               else do { image \<leftarrow> cs_luadb_ptr s1;
                                         bs \<leftarrow> peek 0 (lc_offset (cs_ctx s1)) image;
                                         Some (if cs_norun s1 then CmdExit 0 else CmdReturn 0, Some (path, bs), s1) }
                          else Some (if cs_norun s1 then CmdExit 0 else CmdReturn 0, None, s1) } })"

section \<open>Names\<close>

definition separator :: "char \<Rightarrow> bool" where
  "separator c \<longleftrightarrow> c = CHR ''/'' \<or> c = CHR 0x5C"

lemma after_separator_spec:
  "n \<le> length path \<Longrightarrow> after_separator path n \<le> n \<and>
     (\<forall>j. after_separator path n \<le> j \<and> j < n \<longrightarrow> \<not> separator (path ! j)) \<and>
     (after_separator path n \<noteq> 0 \<longrightarrow> separator (path ! (after_separator path n - 1)))"
proof (induction n)
  case (Suc n)
  then show ?case by (auto simp: separator_def less_Suc_eq)
qed simp

lemma after_separator_file:
  assumes nosep: "\<forall>c\<in>set file. \<not> separator c" and path: "path = dir @ CHR ''/'' # file"
  shows "after_separator path (length path) = length dir + 1"
proof -
  obtain i where i: "i = after_separator path (length path)" by blast
  from after_separator_spec [of "length path" path] i have
    sp: "i \<le> length path" "\<And>j. i \<le> j \<Longrightarrow> j < length path \<Longrightarrow> \<not> separator (path ! j)"
      "i \<noteq> 0 \<Longrightarrow> separator (path ! (i - 1))" by auto
  have at: "path ! length dir = CHR ''/''" "length dir < length path" by (simp_all add: path)
  have "\<not> i \<le> length dir" using sp(2) [of "length dir"] at by (auto simp: separator_def)
  moreover have "\<not> length dir + 1 < i"
  proof
    assume l: "length dir + 1 < i"
    then obtain k where k: "i - 1 = length dir + Suc k" using less_imp_Suc_add by fastforce
    then have "k < length file" using sp(1) l by (simp add: path)
    moreover have "path ! (i - 1) = file ! k" using k by (simp add: path nth_append)
    ultimately show False using sp(3) nosep l by auto
  qed
  ultimately show ?thesis using i by simp
qed

lemma after_separator_plain:
  assumes "\<forall>c\<in>set path. \<not> separator c"
  shows "after_separator path (length path) = 0"
  using after_separator_spec [of "length path" path] assms
  by (metis Suc_pred' less_Suc_eq_le neq0_conv nth_mem order_refl order_less_le_trans)

lemma c_string_prefix: "CHR 0x00 \<notin> set x \<Longrightarrow> c_string (x @ CHR 0x00 # y) = x"
  unfolding c_string_def by (induction x) auto

lemma c_string_zeros: "c_string (replicate n CHR 0x00) = []"
  by (cases n) (simp_all add: c_string_def)

text \<open>The stored name is the last component of the path, provided that the bytes read behind the path are
  readable memory.\<close>

lemma entry_name_file:
  assumes sep: "\<forall>c\<in>set file. \<not> separator c" and nz: "CHR 0x00 \<notin> set file" and ne: "file \<noteq> []"
    and len: "length dir + 1 + length file < 512"
    and mem: "length dir \<le> length (ce_after env (dir @ CHR ''/'' # file)) + 1"
  shows "entry_name env (dir @ CHR ''/'' # file) = Some file"
proof -
  let ?p = "dir @ CHR ''/'' # file" and ?a = "ce_after env (dir @ CHR ''/'' # file)"
  let ?m = "?p @ CHR 0x00 # ?a" and ?n = "length dir + length file"
  have i: "after_separator ?p (length ?p) = length dir + 1" by (rule after_separator_file [OF sep refl])
  obtain x where x: "peek (length dir + 1) ?n ?m = Some x" "x = take ?n (file @ CHR 0x00 # ?a)"
    using mem by (simp add: peek_def)
  have px: "poke 0 x (replicate 512 CHR 0x00) = Some (x @ replicate (512 - length x) CHR 0x00)"
    using len x(2) by (simp add: poke_def)
  have "c_string (x @ replicate (512 - length x) CHR 0x00) = file"
  proof (cases "dir = []")
    case True
    then have "x = file" by (simp add: x(2))
    moreover have "replicate (512 - length file) CHR 0x00 = CHR 0x00 # replicate (511 - length file) CHR 0x00"
      using len by (simp flip: replicate_Suc)
    ultimately show ?thesis using c_string_prefix [OF nz] by simp
  next
    case False
    then have "x = file @ CHR 0x00 # take (length dir - 1) ?a" by (cases dir) (simp_all add: x(2))
    then show ?thesis using c_string_prefix [OF nz] by simp
  qed
  with px x(1) i ne show ?thesis by (simp add: entry_name_def)
qed

lemma entry_name_plain:
  assumes "\<forall>c\<in>set path. \<not> separator c" and "CHR 0x00 \<notin> set path" and "length path < 512"
  shows "entry_name env path = Some path"
proof -
  have "replicate (512 - length path) CHR 0x00 = CHR 0x00 # replicate (511 - length path) CHR 0x00"
    using assms(3) by (simp flip: replicate_Suc)
  then have "c_string (path @ replicate (512 - length path) CHR 0x00) = path"
    using c_string_prefix [OF assms(2)] by simp
  with assms(3) after_separator_plain [OF assms(1)] show ?thesis
    by (simp add: entry_name_def c_string_zeros poke_def)
qed

section \<open>Packing\<close>

text \<open>Memory does not run out.\<close>

definition cenv_fine :: "cenv \<Rightarrow> bool" where
  "cenv_fine env \<longleftrightarrow> realloc_lawful (ce_realloc env) \<and> (\<forall>b n. ce_realloc env b n \<noteq> None) \<and> (\<forall>n. ce_mem env n)"

lemma fine_realloc: "cenv_fine env \<Longrightarrow> \<exists>t. ce_realloc env b n = Some t"
  by (auto simp: cenv_fine_def)

lemma writer_appends:
  assumes "cenv_fine env"
  shows "\<exists>ctx'. writer env p \<lparr>lx_ptr = Some b, lx_len = length b\<rparr> = Some (0, ctx') \<and>
     ctx' = \<lparr>lx_ptr = Some (b @ p), lx_len = length b + length p\<rparr>"
proof -
  from fine_realloc [OF assms] obtain t where t: "ce_realloc env b (length b + length p) = Some t" by blast
  with assms have len: "length t = length b + length p" and pre: "\<forall>k\<le>length b. take k t = take k b"
    by (auto simp: cenv_fine_def realloc_lawful_def)
  have "take (length b) t = b" using pre by simp
  with t len show ?thesis by (simp add: writer_def poke_def)
qed

lemma dump_pieces_more:
  assumes fine: "cenv_fine env"
  shows "dump_pieces env ps \<lparr>lx_ptr = Some b, lx_len = length b\<rparr> =
     Some (0, \<lparr>lx_ptr = Some (b @ concat ps), lx_len = length (b @ concat ps)\<rparr>)"
proof (induction ps arbitrary: b)
  case (Cons p ps)
  from writer_appends [OF fine, of p b] Cons [of "b @ p"] show ?case by simp
qed simp

text \<open>The dumped chunk is the concatenation of the pieces.\<close>

lemma dump_pieces_concat:
  assumes fine: "cenv_fine env"
  shows "\<exists>ctx. dump_pieces env ps \<lparr>lx_ptr = None, lx_len = 0\<rparr> = Some (0, ctx) \<and>
     (case lx_ptr ctx of None \<Rightarrow> Some [] | Some p \<Rightarrow> peek 0 (lx_len ctx) p) = Some (concat ps)"
proof (cases ps)
  case (Cons p qs)
  have "writer env p \<lparr>lx_ptr = None, lx_len = 0\<rparr> = Some (0, \<lparr>lx_ptr = Some p, lx_len = length p\<rparr>)"
    using fine by (simp add: writer_def cenv_fine_def)
  with dump_pieces_more [OF fine, of qs p] Cons show ?thesis by (simp add: peek_def)
qed simp

text \<open>What a path contributes to the image: a resource as it is, a script as its compiled chunk.\<close>

definition packs :: "cenv \<Rightarrow> bool \<Rightarrow> string \<Rightarrow> luadb_entry \<Rightarrow> bool" where
  "packs env strip path entry \<longleftrightarrow> 4 \<le> length path \<and> length path < 512 \<and> \<not> separator (last path) \<and>
     (\<exists>name content. entry_name env path = Some name \<and> fst entry = bytes_of name \<and> ce_file env path = Some content \<and>
        (if drop (length path - 4) path = ''.lua''
         then (\<exists>ps. ce_compile env strip name content = Some ps \<and> snd entry = concat ps)
         else snd entry = content))"

definition holds :: "cmd_state \<Rightarrow> luadb_entry list \<Rightarrow> bool" where
  "holds s fs \<longleftrightarrow> ctx_holds (cs_ctx s) fs \<and> (fs \<noteq> [] \<longrightarrow> cs_luadb_ptr s = lc_dataptr (cs_ctx s))"

lemma write_entry:
  assumes fine: "cenv_fine env" and h: "ctx_holds c fs" and ok: "entry_ok f"
    and size: "length (image_bytes (fs @ [f])) + 512 < 2 ^ 32"
  shows "\<exists>c'. luat_luadb2_write (ce_realloc env) (fst f) (snd f) c = Some (0, c') \<and> ctx_holds c' (fs @ [f])"
proof -
  obtain name data where f: "f = (name, data)" by force
  have o: "lc_offset c = length (image_bytes fs)" using h by (auto simp: ctx_holds_def)
  have "lc_offset c + length data + 512 < 2 ^ 32"
    using size by (simp add: o f length_image_append length_file_bytes)
  moreover obtain t where "ce_realloc env (the (lc_dataptr c)) (lc_offset c + length data + 512) = Some t"
    using fine_realloc [OF fine] by blast
  ultimately show ?thesis
    using write_appends [OF h, of "ce_realloc env" data t name] fine ok f by (auto simp: cenv_fine_def entry_ok_def)
qed

lemma add_onefile_packs:
  assumes fine: "cenv_fine env" and h: "holds s fs" and ok: "entry_ok f"
    and size: "length (image_bytes (fs @ [f])) + 512 < 2 ^ 32"
    and packs: "packs env False path f" and strip: "cs_strip s = 0"
  shows "\<exists>s'. add_onefile env path s = Some (0, s') \<and> holds s' (fs @ [f]) \<and> cs_strip s' = 0 \<and>
     cs_dump_path s' = cs_dump_path s \<and> cs_norun s' = cs_norun s \<and> cs_report s' = cs_report s"
proof -
  have c: "ctx_holds (cs_ctx s) fs" using h by (simp add: holds_def)
  from write_entry [OF fine c ok size] obtain c' where
    w: "luat_luadb2_write (ce_realloc env) (fst f) (snd f) (cs_ctx s) = Some (0, c')" "ctx_holds c' (fs @ [f])" by blast
  let ?s = "s\<lparr>cs_ctx := c', cs_luadb_ptr := lc_dataptr c'\<rparr>"
  from packs obtain name content where p: "4 \<le> length path" "entry_name env path = Some name" "fst f = bytes_of name"
    "ce_file env path = Some content" by (auto simp: packs_def)
  have mem: "ce_mem env n" for n using fine by (simp add: cenv_fine_def)
  have "add_onefile env path s = Some (0, ?s)"
  proof (cases "drop (length path - 4) path = ''.lua''")
    case True
    with packs p obtain ps where ps: "ce_compile env False name content = Some ps" "snd f = concat ps"
      by (auto simp: packs_def)
    from dump_pieces_concat [OF fine, of ps] obtain ctx where
      "dump_pieces env ps \<lparr>lx_ptr = None, lx_len = 0\<rparr> = Some (0, ctx)"
      "(case lx_ptr ctx of None \<Rightarrow> Some [] | Some p \<Rightarrow> peek 0 (lx_len ctx) p) = Some (concat ps)" by blast
    then show ?thesis using True p ps w(1) mem strip
      by (simp add: add_onefile_def to_luac_def pmain_def)
  next
    case False
    with packs p have "snd f = content" by (auto simp: packs_def)
    with False p w(1) mem show ?thesis by (simp add: add_onefile_def)
  qed
  with w(2) strip show ?thesis by (auto simp: holds_def)
qed

lemma is_opts_dash: "is_opts (CHR ''-'' # key) arg \<Longrightarrow> hd arg = CHR ''-''"
  by (cases arg) (auto simp: is_opts_def split: if_splits)

lemma cmd_arg_file:
  assumes "hd arg \<noteq> CHR ''-''"
  shows "cmd_arg env arg s = do { (_, s') \<leftarrow> check_file_path env arg s; Some (0, s') }"
proof -
  have "\<not> is_opts (CHR ''-'' # key) arg" for key using assms is_opts_dash by blast
  with assms show ?thesis by (simp add: cmd_arg_def)
qed

lemma cmd_files_pack:
  assumes fine: "cenv_fine env" and "holds s fs" and "\<forall>(p, f)\<in>set gs. hd p \<noteq> CHR ''-'' \<and> packs env False p f \<and> entry_ok f"
    and "length (image_bytes (fs @ map snd gs)) + 512 < 2 ^ 32" and "cs_strip s = 0"
  shows "\<exists>s'. cmd_args env (map fst gs) s = Some (0, s') \<and> holds s' (fs @ map snd gs) \<and>
     cs_dump_path s' = cs_dump_path s \<and> cs_norun s' = cs_norun s"
  using assms(2-)
proof (induction gs arbitrary: s fs)
  case (Cons g gs)
  obtain p f where g: "g = (p, f)" by (cases g) auto
  have f: "hd p \<noteq> CHR ''-''" "packs env False p f" "entry_ok f" using Cons.prems(2) g by auto
  have "length (image_bytes (fs @ [f])) + 512 < 2 ^ 32"
    using Cons.prems(3) by (simp add: g length_image_append)
  from add_onefile_packs [OF fine Cons.prems(1) f(3) this f(2) Cons.prems(4)] obtain s1 where
    s1: "add_onefile env p s = Some (0, s1)" "holds s1 (fs @ [f])" "cs_strip s1 = 0"
      "cs_dump_path s1 = cs_dump_path s" "cs_norun s1 = cs_norun s" by blast
  have "\<exists>x. check_file_path env p s = Some (x, s1)"
    using s1(1) f(2) by (auto simp: check_file_path_def packs_def separator_def)
  then have "cmd_arg env p s = Some (0, s1)" using cmd_arg_file [OF f(1)] by auto
  moreover from Cons.IH [OF s1(2)] Cons.prems(2,3) s1(3) g obtain s' where
    "cmd_args env (map fst gs) s1 = Some (0, s')" "holds s' (fs @ f # map snd gs)"
    "cs_dump_path s' = cs_dump_path s1" "cs_norun s' = cs_norun s1" by auto
  ultimately show ?case using s1(4,5) g by auto
qed simp

lemma cmd_arg_dump:
  assumes "out \<noteq> []" and "length out \<le> length (cs_dump_path s)"
  shows "cmd_arg env (''--dump_luadb='' @ out) s =
     Some (0, s\<lparr>cs_dump_path := out @ drop (length out) (cs_dump_path s)\<rparr>)"
  using assms by (simp add: cmd_arg_def is_opts_def poke_def numeral_eq_Suc)

section \<open>Properties\<close>

text \<open>C11: What is put in is what is written out. When the command line names an output file and then files
  to pack (resources, and scripts that compile), and memory does not run out, the program writes an
  image to the output file whose decoding is exactly the list of the files: each under the last component of its
  path, resources with their contents and scripts with all the pieces of their compiled chunk.\<close>

theorem cmd_pack_dump:
  assumes "cenv_fine env" and "ce_luadb2 env = Some new" and "length new = 1024"
    and "gs \<noteq> []" and "length gs < 256" and "\<forall>(p, f)\<in>set gs. hd p \<noteq> CHR ''-'' \<and> packs env False p f \<and> entry_ok f"
    and "length (image_bytes (map snd gs)) + 512 < 2 ^ 32"
    and "out \<noteq> []" and "length out < 1024" and "CHR 0x00 \<notin> set out" and "ce_can_write env out"
  shows "\<exists>image s. luat_cmd_parse env ((''--dump_luadb='' @ out) # map fst gs) cmd_start = Some (CmdReturn 0, Some (out, image), s) \<and>
     decode_image image = Some (map snd gs)"
proof -
  from init_holds [of "cs_ctx cmd_start" new] assms(3) obtain c where
    c: "luat_luadb2_init (Some new) (cs_ctx cmd_start) = Some (0, c)" "ctx_holds c []" by (auto simp: cmd_start_def)
  let ?s0 = "cmd_start\<lparr>cs_ctx := c\<rparr>"
  let ?s1 = "?s0\<lparr>cs_dump_path := out @ drop (length out) (cs_dump_path ?s0)\<rparr>"
  have d: "cmd_arg env (''--dump_luadb='' @ out) ?s0 = Some (0, ?s1)"
    by (rule cmd_arg_dump) (use assms(8,9) in \<open>simp_all add: cmd_start_def\<close>)
  have "holds ?s1 []" using c(2) by (simp add: holds_def)
  from cmd_files_pack [OF assms(1) this assms(6)] assms(7) obtain s where
    s: "cmd_args env (map fst gs) ?s1 = Some (0, s)" "holds s (map snd gs)" "cs_dump_path s = cs_dump_path ?s1"
      "cs_norun s = cs_norun ?s1" by (auto simp: cmd_start_def)
  have path: "cs_dump_path s = out @ CHR 0x00 # replicate (1023 - length out) CHR 0x00"
    using s(3) assms(9) by (simp add: cmd_start_def flip: replicate_Suc)
  then have p: "c_string (cs_dump_path s) = out" "length (cs_dump_path s) \<noteq> length out" "\<not> cs_norun s"
    using c_string_prefix [OF assms(10)] s(4) by (simp_all add: cmd_start_def)
  from s(2) assms(4) obtain b where b: "cs_luadb_ptr s = Some b" "lc_offset (cs_ctx s) \<le> length b"
    "take (lc_offset (cs_ctx s)) b = image_bytes (map snd gs)" by (auto simp: holds_def ctx_holds_def)
  have "luat_cmd_parse env ((''--dump_luadb='' @ out) # map fst gs) cmd_start =
      Some (CmdReturn 0, Some (out, image_bytes (map snd gs)), s)"
    using assms(2,8,11) c(1) d s(1) p b by (simp add: luat_cmd_parse_def peek_def)
  moreover have "decode_image (image_bytes (map snd gs)) = Some (map snd gs)"
    by (rule decode_image_bytes) (use assms(5,6) in auto)
  ultimately show ?thesis by blast
qed

text \<open>A script that compiles to two pieces, and a resource in a directory.\<close>

definition demo_cenv :: cenv where
  "demo_cenv = \<lparr>ce_file = (\<lambda>p. if p = ''main.lua'' then Some [112, 40, 41] else if p = ''res/a.txt'' then Some [104, 105] else None),
     ce_dir = (\<lambda>_. None), ce_mem = (\<lambda>_. True), ce_realloc = realloc_zero,
     ce_compile = (\<lambda>_ _ _. Some [[27, 76], [117, 97]]), ce_after = (\<lambda>_. replicate 64 CHR ''x''),
     ce_luadb2 = Some (replicate 1024 0), ce_can_write = (\<lambda>_. True), ce_mock = (\<lambda>_. 0)\<rparr>"

lemma demo_cenv_packs:
  "packs demo_cenv False ''main.lua'' (bytes_of ''main.lua'', [27, 76, 117, 97])"
  "packs demo_cenv False ''res/a.txt'' (bytes_of ''a.txt'', [104, 105])"
proof -
  have n1: "entry_name demo_cenv ''main.lua'' = Some ''main.lua''"
    by (rule entry_name_plain) (simp_all add: separator_def)
  have n2: "entry_name demo_cenv (''res'' @ CHR ''/'' # ''a.txt'') = Some ''a.txt''"
    by (rule entry_name_file) (simp_all add: separator_def demo_cenv_def)
  show "packs demo_cenv False ''main.lua'' (bytes_of ''main.lua'', [27, 76, 117, 97])"
    using n1 by (simp add: packs_def separator_def) (simp add: demo_cenv_def)
  show "packs demo_cenv False ''res/a.txt'' (bytes_of ''a.txt'', [104, 105])"
    using n2 by (simp add: packs_def separator_def) (simp add: demo_cenv_def)
qed

theorem cmd_pack_dump_witness:
  "\<exists>image s. luat_cmd_parse demo_cenv [''--dump_luadb=out'', ''main.lua'', ''res/a.txt''] cmd_start =
       Some (CmdReturn 0, Some (''out'', image), s) \<and>
     decode_image image = Some [(bytes_of ''main.lua'', [27, 76, 117, 97]), (bytes_of ''a.txt'', [104, 105])]"
proof -
  let ?gs = "[(''main.lua'', (bytes_of ''main.lua'', [27, 76, 117, 97])), (''res/a.txt'', (bytes_of ''a.txt'', [104, 105]))]"
  have "cenv_fine demo_cenv"
    using realloc_zero_lawful by (simp add: cenv_fine_def demo_cenv_def) (simp add: realloc_zero_def)
  moreover have "\<forall>(p, f)\<in>set ?gs. hd p \<noteq> CHR ''-'' \<and> packs demo_cenv False p f \<and> entry_ok f"
    using demo_cenv_packs by (simp add: entry_ok_def bytes_of_def)
  moreover have "ce_luadb2 demo_cenv = Some (replicate 1024 0)" "ce_can_write demo_cenv ''out''"
    by (simp_all add: demo_cenv_def)
  moreover have "length (image_bytes (map snd ?gs)) + 512 < 2 ^ 32"
    by (simp add: image_bytes_def image_head_def file_bytes_def bytes_of_def)
  ultimately show ?thesis using cmd_pack_dump [of demo_cenv "replicate 1024 0" ?gs "''out''"] by simp
qed

text \<open>The name of a packed file is the last component of its path. For a path \<open>dir/file\<close> of fewer than 512
  characters it is \<open>file\<close> if the memory behind the path is readable for as many bytes as \<open>dir\<close> is long, less one; if
  it is not, then the copy of the name reads outside of the path's memory.\<close>

theorem entry_name_last_component:
  assumes "\<forall>c\<in>set file. \<not> separator c" and "CHR 0x00 \<notin> set file" and "file \<noteq> []"
    and "length dir + 1 + length file < 512" and "dir \<noteq> []"
  shows "entry_name env (dir @ CHR ''/'' # file) =
     (if length dir - 1 \<le> length (ce_after env (dir @ CHR ''/'' # file)) then Some file else None)"
proof (cases "length dir - 1 \<le> length (ce_after env (dir @ CHR ''/'' # file))")
  case True
  with entry_name_file [OF assms(1-4), of env] show ?thesis by simp
next
  case False
  let ?p = "dir @ CHR ''/'' # file"
  obtain i where i: "i = after_separator ?p (length ?p)" by blast
  then have "i = length dir + 1" using after_separator_file [OF assms(1) refl, of dir] by simp
  moreover have "peek (length dir + 1) (length ?p - 1) (?p @ CHR 0x00 # ce_after env ?p) = None"
    using False by (simp add: peek_def)
  ultimately show ?thesis using False unfolding entry_name_def i [symmetric] by (simp add: Let_def)
qed

theorem entry_name_last_component_witness:
  "entry_name demo_cenv ''res/a.txt'' = Some ''a.txt''"
  using entry_name_last_component [of "''a.txt''" "''res''" demo_cenv]
  by (simp add: separator_def) (simp add: demo_cenv_def)

text \<open>A last line without a line break is not looked at.\<close>

lemma text_lines_unterminated:
  "\<forall>c\<in>set u. c \<noteq> CHR 0x0D \<and> c \<noteq> CHR 0x0A \<Longrightarrow> text_lines ret (t @ u) = text_lines ret t"
proof (induction ret t rule: text_lines.induct)
  case (1 ret)
  then show ?case by (induction u arbitrary: ret) auto
qed auto

end
