(* ===== verification/Luac_Report.thy ===== *)
theory Luac_Report
  imports Luadb2
begin

text \<open>
  The analyser of compiled scripts, \<open>port/luat_luac_report.c\<close>: it parses the chunks of a
  luadb image (the output of \<open>luaU_dump\<close>) into a table of functions and groups of data
  (strings, code, numbers, line numbers), and counts what the groups hold. The parser
  reads through a bare pointer: a read behind the readable memory is undefined, as is an
  entry behind the end of a table.

  The sizes of Lua's integers and numbers depend on the build of the Lua library and are a
  parameter, together with the test of the number in the header of a chunk. The allocator
  is a parameter \<open>al\<close> that is asked with the number of bytes left to read and the size of the
  request, which tells all the requests of a run apart. A failed request is undefined
  behaviour throughout: the code writes to the result without a test.
\<close>

section \<open>Data\<close>

record lua_vm =
  vm_int :: nat \<comment> \<open>\<open>sizeof(lua_Integer)\<close>\<close>
  vm_num :: nat \<comment> \<open>\<open>sizeof(lua_Number)\<close>\<close>
  vm_num_ok :: "byte list \<Rightarrow> bool" \<comment> \<open>the bytes represent \<open>LUAC_NUM\<close>\<close>

type_synonym alloc_oracle = "nat \<Rightarrow> nat \<Rightarrow> bool"

datatype luac_value = DNull | DBlock "byte list" | DRaw "byte list"

record luac_data =
  ld_data :: luac_value \<comment> \<open>the union: a pointer or the bytes of a number\<close>
  ld_len :: nat
  ld_mark :: byte
  ld_type :: byte

record luac_data_group =
  dg_data :: "luac_data list" \<comment> \<open>the entries below \<open>count\<close>\<close>
  dg_max_len :: nat
  dg_total_len :: nat
  dg_uni_count :: nat
  dg_emtrys :: nat

datatype luac_ref = RNum nat | RStr nat

record luf_func =
  lf_numparams :: byte
  lf_is_vararg :: byte
  lf_maxstacksize :: byte
  lf_sizeupvalues :: u32
  lf_sizek :: u32
  lf_sizecode :: nat
  lf_sizelineinfo :: u32
  lf_sizep :: u32
  lf_sizelocvars :: u32
  lf_linedefined :: u32
  lf_lastlinedefined :: u32
  lf_sizeupvalues2 :: u32
  lf_k :: "luac_ref option list"
  lf_code :: nat
  lf_lineinfo :: nat
  lf_locvars :: "(u32 \<times> u32) list"
  lf_locvars2 :: "nat list"
  lf_upvalues :: "byte list"
  lf_upvalues2 :: "nat list"
  lf_source :: nat
  lf_p :: "nat list"

record luac_report =
  lr_strs :: luac_data_group
  lr_codes :: luac_data_group
  lr_numbers :: luac_data_group
  lr_upvalues :: luac_data_group
  lr_line_numbers :: luac_data_group
  lr_luf_funcs :: "nat \<Rightarrow> luf_func"
  lr_func_count :: nat

abbreviation group_size :: nat where "group_size \<equiv> 32 * 1024"
abbreviation func_size :: nat where "func_size \<equiv> 1024"

abbreviation (input) LUA_TNIL :: byte where "LUA_TNIL \<equiv> 0"
abbreviation (input) LUA_TBOOLEAN :: byte where "LUA_TBOOLEAN \<equiv> 1"
abbreviation (input) LUA_TNUMFLT :: byte where "LUA_TNUMFLT \<equiv> 3"
abbreviation (input) LUA_TNUMINT :: byte where "LUA_TNUMINT \<equiv> 0x13"
abbreviation (input) LUA_TSHRSTR :: byte where "LUA_TSHRSTR \<equiv> 4"
abbreviation (input) LUA_TLNGSTR :: byte where "LUA_TLNGSTR \<equiv> 0x14"

text \<open>What \<open>memset(report, 0, ...)\<close> leaves.\<close>

definition zero_group :: luac_data_group where
  "zero_group = \<lparr>dg_data = [], dg_max_len = 0, dg_total_len = 0, dg_uni_count = 0, dg_emtrys = 0\<rparr>"

definition zero_func :: luf_func where
  "zero_func = \<lparr>lf_numparams = 0, lf_is_vararg = 0, lf_maxstacksize = 0, lf_sizeupvalues = 0, lf_sizek = 0,
     lf_sizecode = 0, lf_sizelineinfo = 0, lf_sizep = 0, lf_sizelocvars = 0, lf_linedefined = 0,
     lf_lastlinedefined = 0, lf_sizeupvalues2 = 0, lf_k = [], lf_code = 0, lf_lineinfo = 0, lf_locvars = [],
     lf_locvars2 = [], lf_upvalues = [], lf_upvalues2 = [], lf_source = 0, lf_p = []\<rparr>"

definition zero_report :: luac_report where
  "zero_report = \<lparr>lr_strs = zero_group, lr_codes = zero_group, lr_numbers = zero_group, lr_upvalues = zero_group,
     lr_line_numbers = zero_group, lr_luf_funcs = (\<lambda>_. zero_func), lr_func_count = 0\<rparr>"

section \<open>The parser\<close>

type_synonym tio = "byte list" \<comment> \<open>the readable memory at \<open>tio->ptr\<close>\<close>

definition LoadBlock :: "nat \<Rightarrow> tio \<Rightarrow> (byte list \<times> tio) option" where
  "LoadBlock n t = (if n \<le> length t then Some (take n t, drop n t) else None)"

definition LoadInt :: "tio \<Rightarrow> (u32 \<times> tio) option" where
  "LoadInt t = do { (b, t) \<leftarrow> LoadBlock 4 t; Some (of_nat (le_val b), t) }"

definition LoadByte :: "tio \<Rightarrow> (byte \<times> tio) option" where
  "LoadByte t = do { (b, t) \<leftarrow> LoadBlock 1 t; Some (hd b, t) }"

definition LoadNumber :: "lua_vm \<Rightarrow> tio \<Rightarrow> (byte list \<times> tio) option" where
  "LoadNumber vm t = LoadBlock (vm_num vm) t"

definition LoadInteger :: "lua_vm \<Rightarrow> tio \<Rightarrow> (byte list \<times> tio) option" where
  "LoadInteger vm t = LoadBlock (vm_int vm) t"

text \<open>A block of memory of \<open>n\<close> bytes, which the code uses without a test.\<close>

definition new_block :: "alloc_oracle \<Rightarrow> nat \<Rightarrow> tio \<Rightarrow> unit option" where
  "new_block al n t = (if al (length t) n then Some () else None)"

definition string_len :: "byte \<Rightarrow> tio \<Rightarrow> (nat \<times> tio) option" where
  "string_len b t =
     (if b = 0xFF then do { (n, t) \<leftarrow> LoadInt t; Some (unat n, t) } else Some (unat b, t))"

definition LoadString :: "alloc_oracle \<Rightarrow> tio \<Rightarrow> (luac_value \<times> nat \<times> tio) option" where
  "LoadString al t =
     do { (b, t) \<leftarrow> LoadByte t;
          if b = 0 then Some (DNull, 0, t)
          else do { (len, t) \<leftarrow> string_len b t;
                    _ \<leftarrow> new_block al len t;
                    (d, t) \<leftarrow> LoadBlock (len - 1) t;
                    Some (DBlock (d @ replicate (len - length d) 0), len, t) } }"

definition LoadCode :: "alloc_oracle \<Rightarrow> tio \<Rightarrow> (luac_value \<times> nat \<times> tio) option" where
  "LoadCode al t =
     do { (n, t) \<leftarrow> LoadInt t;
          let len = unat n * 4 mod 2 ^ 32;
          _ \<leftarrow> new_block al len t;
          (d, t) \<leftarrow> LoadBlock len t;
          Some (DBlock d, len, t) }"

text \<open>A new entry of a group.\<close>

definition group_push :: "luac_data \<Rightarrow> luac_data_group \<Rightarrow> luac_data_group option" where
  "group_push d g = (if length (dg_data g) < group_size then Some (g\<lparr>dg_data := dg_data g @ [d]\<rparr>) else None)"

definition push_str :: "luac_value \<Rightarrow> nat \<Rightarrow> byte \<Rightarrow> luac_report \<Rightarrow> (nat \<times> luac_report) option" where
  "push_str v len ty r =
     do { g \<leftarrow> group_push \<lparr>ld_data = v, ld_len = len, ld_mark = 0, ld_type = ty\<rparr> (lr_strs r);
          Some (length (dg_data (lr_strs r)), r\<lparr>lr_strs := g\<rparr>) }"

definition push_number :: "lua_vm \<Rightarrow> byte list \<Rightarrow> byte \<Rightarrow> byte \<Rightarrow> luac_report \<Rightarrow> (nat \<times> luac_report) option" where
  "push_number vm v mark ty r =
     do { g \<leftarrow> group_push \<lparr>ld_data = DRaw v, ld_len = vm_int vm, ld_mark = mark, ld_type = ty\<rparr> (lr_numbers r);
          Some (length (dg_data (lr_numbers r)), r\<lparr>lr_numbers := g\<rparr>) }"

text \<open>The type that the code gives to the strings that are not constants.\<close>

definition name_type :: "nat \<Rightarrow> byte" where
  "name_type len = (if len \<le> 41 then 4 else LUA_TLNGSTR)"

text \<open>A string that is not a constant is loaded and entered.\<close>

definition load_name :: "alloc_oracle \<Rightarrow> tio \<times> luac_report \<Rightarrow> (nat \<times> tio \<times> luac_report) option" where
  "load_name al = (\<lambda>(t, r).
     do { (v, len, t) \<leftarrow> LoadString al t;
          (i, r) \<leftarrow> push_str v len (name_type len) r;
          Some (i, t, r) })"

text \<open>One constant: whether its type is known, and the entry that it points to.\<close>

definition load_constant ::
    "lua_vm \<Rightarrow> alloc_oracle \<Rightarrow> tio \<times> luac_report \<Rightarrow> (bool \<times> luac_ref option \<times> tio \<times> luac_report) option" where
  "load_constant vm al = (\<lambda>(t, r).
     do { (ty, t) \<leftarrow> LoadByte t;
          if ty = LUA_TNIL then Some (True, None, t, r)
          else if ty = LUA_TBOOLEAN then
            do { (b, t) \<leftarrow> LoadByte t;
                 (i, r) \<leftarrow> push_number vm (le_bytes (vm_int vm) (unat b)) LUA_TBOOLEAN LUA_TBOOLEAN r;
                 Some (True, Some (RNum i), t, r) }
          else if ty = LUA_TNUMFLT then
            do { (v, t) \<leftarrow> LoadNumber vm t;
                 (i, r) \<leftarrow> push_number vm v LUA_TNUMFLT LUA_TNUMFLT r;
                 Some (True, Some (RNum i), t, r) }
          else if ty = LUA_TNUMINT then
            do { (v, t) \<leftarrow> LoadInteger vm t;
                 (i, r) \<leftarrow> push_number vm v 1 ty r;
                 Some (True, Some (RNum i), t, r) }
          else if ty = LUA_TSHRSTR \<or> ty = LUA_TLNGSTR then
            do { (v, len, t) \<leftarrow> LoadString al t;
                 (i, r) \<leftarrow> push_str v len ty r;
                 Some (True, Some (RStr i), t, r) }
          else Some (False, None, t, r) })"

fun load_constants ::
    "lua_vm \<Rightarrow> alloc_oracle \<Rightarrow> nat \<Rightarrow> nat \<Rightarrow> luac_ref option list \<Rightarrow> tio \<times> luac_report \<Rightarrow>
     (luac_ref option list \<times> tio \<times> luac_report) option" where
  "load_constants vm al 0 i ks (t, r) = Some (ks, t, r)"
| "load_constants vm al (Suc n) i ks (t, r) =
     do { (known, x, t, r) \<leftarrow> load_constant vm al (t, r);
          if \<not> known then Some (ks, t, r)
          else if x \<noteq> None \<and> \<not> i < length ks then None
          else load_constants vm al n (Suc i) (ks[i := x]) (t, r) }"

text \<open>The number of iterations of \<open>for (i = 0; i < n; i++)\<close> with an \<open>int\<close>.\<close>

definition loops :: "u32 \<Rightarrow> nat" where
  "loops n = nat (sint n)"

definition LoadConstants ::
    "lua_vm \<Rightarrow> alloc_oracle \<Rightarrow> luf_func \<Rightarrow> tio \<times> luac_report \<Rightarrow> (luf_func \<times> tio \<times> luac_report) option" where
  "LoadConstants vm al f = (\<lambda>(t, r).
     do { (n, t) \<leftarrow> LoadInt t;
          let f = f\<lparr>lf_sizek := n\<rparr>;
          if n = 0 then Some (f, t, r)
          else do { let len = unat n * 4 mod 2 ^ 32;
                    _ \<leftarrow> new_block al len t;
                    (ks, t, r) \<leftarrow> load_constants vm al (loops n) 0 (replicate (len div 4) None) (t, r);
                    Some (f\<lparr>lf_k := ks\<rparr>, t, r) } })"

definition LoadUpvalues :: "alloc_oracle \<Rightarrow> luf_func \<Rightarrow> tio \<Rightarrow> (luf_func \<times> tio) option" where
  "LoadUpvalues al f t =
     do { (n, t) \<leftarrow> LoadInt t;
          let f = f\<lparr>lf_sizeupvalues := n\<rparr>;
          if n = 0 then Some (f, t)
          else do { let len = unat n * 2 mod 2 ^ 32;
                    _ \<leftarrow> new_block al len t;
                    (d, t) \<leftarrow> LoadBlock len t;
                    Some (f\<lparr>lf_upvalues := d\<rparr>, t) } }"

text \<open>The loop of \<open>LoadProtos\<close> over a loader of functions; the result lists the new entries.\<close>

fun load_protos ::
    "(nat \<Rightarrow> tio \<times> luac_report \<Rightarrow> (tio \<times> luac_report) option) \<Rightarrow> nat \<Rightarrow> nat \<Rightarrow> nat list \<Rightarrow> tio \<times> luac_report \<Rightarrow>
     (nat list \<times> tio \<times> luac_report) option" where
  "load_protos load 0 i ps (t, r) = Some (ps, t, r)"
| "load_protos load (Suc n) i ps (t, r) =
     do { let c = lr_func_count r;
          (t, r) \<leftarrow> load c (t, r);
          if i < func_size then load_protos load n (Suc i) (ps @ [c]) (t, r) else None }"

definition LoadProtos ::
    "(nat \<Rightarrow> tio \<times> luac_report \<Rightarrow> (tio \<times> luac_report) option) \<Rightarrow> luf_func \<Rightarrow> tio \<times> luac_report \<Rightarrow>
     (luf_func \<times> tio \<times> luac_report) option" where
  "LoadProtos load f = (\<lambda>(t, r).
     do { (n, t) \<leftarrow> LoadInt t;
          (ps, t, r) \<leftarrow> load_protos load (loops n) 0 [] (t, r);
          Some (f\<lparr>lf_sizep := n, lf_p := ps\<rparr>, t, r) })"

text \<open>The names of the local variables with their ranges, and the names of the upvalues. \<open>m\<close> is the
  number of entries for which the arrays have room.\<close>

fun load_locvars ::
    "alloc_oracle \<Rightarrow> nat \<Rightarrow> nat \<Rightarrow> nat \<Rightarrow> tio \<times> luac_report \<Rightarrow>
     ((nat \<times> u32 \<times> u32) list \<times> tio \<times> luac_report) option" where
  "load_locvars al 0 i m (t, r) = Some ([], t, r)"
| "load_locvars al (Suc n) i m (t, r) =
     (if i < m then
        do { (x, t, r) \<leftarrow> load_name al (t, r);
             (a, t) \<leftarrow> LoadInt t;
             (b, t) \<leftarrow> LoadInt t;
             (vs, t, r) \<leftarrow> load_locvars al n (Suc i) m (t, r);
             Some ((x, a, b) # vs, t, r) }
      else None)"

fun load_upnames ::
    "alloc_oracle \<Rightarrow> nat \<Rightarrow> nat \<Rightarrow> nat \<Rightarrow> tio \<times> luac_report \<Rightarrow> (nat list \<times> tio \<times> luac_report) option" where
  "load_upnames al 0 i m (t, r) = Some ([], t, r)"
| "load_upnames al (Suc n) i m (t, r) =
     (if i < m then
        do { (x, t, r) \<leftarrow> load_name al (t, r);
             (xs, t, r) \<leftarrow> load_upnames al n (Suc i) m (t, r);
             Some (x # xs, t, r) }
      else None)"

text \<open>The line numbers: the entry is made also when there are none.\<close>

definition load_lines :: "alloc_oracle \<Rightarrow> u32 \<Rightarrow> tio \<times> luac_report \<Rightarrow> (nat \<times> tio \<times> luac_report) option" where
  "load_lines al n = (\<lambda>(t, r).
     do { let len = unat n * 4 mod 2 ^ 32;
          (v, t) \<leftarrow> (if 0 < sint n
                     then do { _ \<leftarrow> new_block al len t; (d, t) \<leftarrow> LoadBlock len t; Some (DBlock d, t) }
                     else Some (DNull, t));
          g \<leftarrow> group_push \<lparr>ld_data = v, ld_len = len, ld_mark = 0, ld_type = 0\<rparr> (lr_line_numbers r);
          Some (length (dg_data (lr_line_numbers r)), t, r\<lparr>lr_line_numbers := g\<rparr>) })"

definition LoadDebug ::
    "alloc_oracle \<Rightarrow> luf_func \<Rightarrow> tio \<times> luac_report \<Rightarrow> (luf_func \<times> tio \<times> luac_report) option" where
  "LoadDebug al f = (\<lambda>(t, r).
     do { (n, t) \<leftarrow> LoadInt t;
          (li, t, r) \<leftarrow> load_lines al n (t, r);
          let f = f\<lparr>lf_sizelineinfo := n, lf_lineinfo := li\<rparr>;
          (n, t) \<leftarrow> LoadInt t;
          _ \<leftarrow> (if 0 < sint n then do { _ \<leftarrow> new_block al (unat n * 4 mod 2 ^ 32) t;
                                        new_block al (unat n * 8 mod 2 ^ 32) t } else Some ());
          (vs, t, r) \<leftarrow> load_locvars al (loops n) 0
                          (min (unat n * 4 mod 2 ^ 32 div 4) (unat n * 8 mod 2 ^ 32 div 8)) (t, r);
          let f = f\<lparr>lf_sizelocvars := n, lf_locvars2 := map fst vs, lf_locvars := map snd vs\<rparr>;
          (n, t) \<leftarrow> LoadInt t;
          _ \<leftarrow> (if 0 < sint n then new_block al (unat n * 4 mod 2 ^ 32) t else Some ());
          (us, t, r) \<leftarrow> load_upnames al (loops n) 0 (unat n * 4 mod 2 ^ 32 div 4) (t, r);
          Some (f\<lparr>lf_sizeupvalues2 := n, lf_upvalues2 := us\<rparr>, t, r) })"

text \<open>The part of a function before its nested functions.\<close>

definition load_head ::
    "lua_vm \<Rightarrow> alloc_oracle \<Rightarrow> luf_func \<Rightarrow> tio \<times> luac_report \<Rightarrow> (luf_func \<times> tio \<times> luac_report) option" where
  "load_head vm al f = (\<lambda>(t, r).
     do { (src, t, r) \<leftarrow> load_name al (t, r);
          (ld, t) \<leftarrow> LoadInt t;
          (lld, t) \<leftarrow> LoadInt t;
          (np, t) \<leftarrow> LoadByte t;
          (va, t) \<leftarrow> LoadByte t;
          (ms, t) \<leftarrow> LoadByte t;
          (code, len, t) \<leftarrow> LoadCode al t;
          g \<leftarrow> group_push \<lparr>ld_data = code, ld_len = len, ld_mark = 0, ld_type = 0\<rparr> (lr_codes r);
          let f = f\<lparr>lf_source := src, lf_linedefined := ld, lf_lastlinedefined := lld, lf_numparams := np,
                    lf_is_vararg := va, lf_maxstacksize := ms, lf_code := length (dg_data (lr_codes r)),
                    lf_sizecode := len div 4\<rparr>;
          (f, t, r) \<leftarrow> LoadConstants vm al f (t, r\<lparr>lr_codes := g\<rparr>);
          (f, t) \<leftarrow> LoadUpvalues al f t;
          Some (f, t, r) })"

text \<open>One function. The fuel bounds the nesting; nested functions fill other entries of the table, so that
  the entry \<open>id\<close> is written when it is complete.\<close>

primrec LoadFunction ::
    "nat \<Rightarrow> lua_vm \<Rightarrow> alloc_oracle \<Rightarrow> nat \<Rightarrow> tio \<times> luac_report \<Rightarrow> (tio \<times> luac_report) option" where
  "LoadFunction 0 vm al i = (\<lambda>_. None)"
| "LoadFunction (Suc fuel) vm al i = (\<lambda>(t, r).
     if \<not> i < func_size then None
     else do {
       (f, t, r) \<leftarrow> load_head vm al (lr_luf_funcs r i) (t, r\<lparr>lr_func_count := lr_func_count r + 1\<rparr>);
       (f, t, r) \<leftarrow> LoadProtos (LoadFunction fuel vm al) f (t, r);
       (f, t, r) \<leftarrow> LoadDebug al f (t, r);
       Some (t, r\<lparr>lr_luf_funcs := (lr_luf_funcs r)(i := f)\<rparr>) })"

text \<open>The header of a chunk and its main function; 1024 levels are enough, since every function takes an
  entry of the table. The report is the one of the file.\<close>

abbreviation luac_signature :: "byte list" where
  "luac_signature \<equiv> [0x1B, 0x4C, 0x75, 0x61]"

abbreviation luac_data_mark :: "byte list" where
  "luac_data_mark \<equiv> [0x19, 0x93, 0x0D, 0x0A, 0x1A, 0x0A]"

definition luadb_do_report_file ::
    "lua_vm \<Rightarrow> alloc_oracle \<Rightarrow> byte list \<Rightarrow> luac_report \<Rightarrow> (int \<times> luac_report) option" where
  "luadb_do_report_file vm al data r =
     do { (sig, t) \<leftarrow> LoadBlock 4 data;
          if sig \<noteq> luac_signature then Some (-1, r)
          else do {
            (_, t) \<leftarrow> LoadBlock 2 t;
            (mark, t) \<leftarrow> LoadBlock 6 t;
            if mark \<noteq> luac_data_mark then Some (-1, r)
            else do {
              (_, t) \<leftarrow> LoadBlock 5 t;
              (x, t) \<leftarrow> LoadBlock (vm_int vm) t;
              if le_val x \<noteq> 0x5678 then Some (-1, r)
              else do {
                (y, t) \<leftarrow> LoadBlock (vm_num vm) t;
                if \<not> vm_num_ok vm y then Some (-3, r)
                else do {
                  (_, t) \<leftarrow> LoadBlock 1 t;
                  (_, r) \<leftarrow> LoadFunction func_size vm al 0 (t, r);
                  Some (0, r) } } } } }"

section \<open>Counting\<close>

text \<open>\<open>memcmp\<close> of the blocks of two entries: undefined for a null pointer and for a number.\<close>

definition block_of :: "luac_data \<Rightarrow> byte list option" where
  "block_of d = (case ld_data d of DBlock b \<Rightarrow> Some b | _ \<Rightarrow> None)"

definition same_block :: "luac_data \<Rightarrow> luac_data \<Rightarrow> bool option" where
  "same_block d e =
     (if ld_len d \<noteq> ld_len e then Some False
      else do { a \<leftarrow> block_of d; b \<leftarrow> block_of e;
                x \<leftarrow> peek 0 (ld_len d) a; y \<leftarrow> peek 0 (ld_len d) b;
                Some (x = y) })"

fun seen_before :: "luac_data \<Rightarrow> luac_data list \<Rightarrow> bool option" where
  "seen_before d [] = Some False"
| "seen_before d (e # es) = do { s \<leftarrow> same_block d e; if s then Some True else seen_before d es }"

text \<open>The loop over the entries; \<open>m0\<close> is the mark of the first entry of the group.\<close>

fun group_loop :: "byte \<Rightarrow> luac_data list \<Rightarrow> luac_data list \<Rightarrow> nat \<Rightarrow> luac_data_group \<Rightarrow> (nat \<times> luac_data_group) option" where
  "group_loop m0 before [] hits g = Some (hits, g)"
| "group_loop m0 before (d # ds) hits g =
     (let g = g\<lparr>dg_max_len := (if ld_len d > dg_max_len g then ld_len d else dg_max_len g),
                dg_total_len := (dg_total_len g + ld_len d) mod 2 ^ 32\<rparr> in
      if ld_len d = 0 \<or> ld_len d = 1 then
        group_loop m0 (before @ [d]) ds hits (g\<lparr>dg_emtrys := dg_emtrys g + 1\<rparr>)
      else do { dup \<leftarrow> (if before \<noteq> [] \<and> m0 = 0 then seen_before d before else Some False);
                group_loop m0 (before @ [d]) ds (if dup then hits else hits + 1) g })"

definition do_data_group_report :: "luac_data_group \<Rightarrow> luac_data_group option" where
  "do_data_group_report g =
     do { (hits, g) \<leftarrow> group_loop (case dg_data g of [] \<Rightarrow> 0 | d # _ \<Rightarrow> ld_mark d) [] (dg_data g) 0 g;
          Some (g\<lparr>dg_uni_count := hits\<rparr>) }"

fun group_copy :: "luac_data list \<Rightarrow> luac_data_group \<Rightarrow> luac_data_group option" where
  "group_copy [] dst = Some dst"
| "group_copy (d # ds) dst = do { dst \<leftarrow> group_push d dst; group_copy ds dst }"

definition luac_data_group_add :: "luac_data_group \<Rightarrow> luac_data_group \<Rightarrow> luac_data_group option" where
  "luac_data_group_add src dst = group_copy (dg_data src) dst"

definition luac_data_report_exec ::
    "luac_report \<Rightarrow> luac_report option \<Rightarrow> (luac_report \<times> luac_report option) option" where
  "luac_data_report_exec r up =
     do { s \<leftarrow> do_data_group_report (lr_strs r);
          c \<leftarrow> do_data_group_report (lr_codes r);
          u \<leftarrow> do_data_group_report (lr_upvalues r);
          n \<leftarrow> do_data_group_report (lr_numbers r);
          l \<leftarrow> do_data_group_report (lr_line_numbers r);
          let r = r\<lparr>lr_strs := s, lr_codes := c, lr_upvalues := u, lr_numbers := n, lr_line_numbers := l\<rparr>;
          (case up of None \<Rightarrow> Some (r, None)
           | Some w \<Rightarrow>
               do { s \<leftarrow> luac_data_group_add (lr_strs r) (lr_strs w);
                    c \<leftarrow> luac_data_group_add (lr_codes r) (lr_codes w);
                    u \<leftarrow> luac_data_group_add (lr_upvalues r) (lr_upvalues w);
                    n \<leftarrow> luac_data_group_add (lr_numbers r) (lr_numbers w);
                    l \<leftarrow> luac_data_group_add (lr_line_numbers r) (lr_line_numbers w);
                    Some (r, Some (w\<lparr>lr_strs := s, lr_codes := c, lr_upvalues := u, lr_numbers := n,
                                     lr_line_numbers := l\<rparr>)) }) }"

section \<open>The report on an image\<close>

text \<open>A file of a mounted image: its name, and the memory from its first byte to the end of the image.\<close>

record luadb_file =
  lb_name :: "char list"
  lb_mem :: "byte list"

text \<open>The comparison of the end of a name; it starts before the name when the name is too short.\<close>

definition name_ends :: "string \<Rightarrow> string \<Rightarrow> bool option" where
  "name_ends e name = (if length e \<le> length name then Some (drop (length name - length e) name = e) else None)"

definition is_script :: "string \<Rightarrow> bool option" where
  "is_script name = do { a \<leftarrow> name_ends ''.lua'' name; if a then Some True else name_ends ''.luac'' name }"

definition report_file :: "lua_vm \<Rightarrow> alloc_oracle \<Rightarrow> luadb_file \<Rightarrow> luac_report option option" where
  "report_file vm al f =
     (if length (lb_name f) \<le> 32
      then do { s \<leftarrow> is_script (lb_name f);
                if s then do { (_, r) \<leftarrow> luadb_do_report_file vm al (lb_mem f) zero_report; Some (Some r) }
                else Some None }
      else None)"

fun report_files :: "lua_vm \<Rightarrow> alloc_oracle \<Rightarrow> luadb_file list \<Rightarrow> luac_report option list option" where
  "report_files vm al [] = Some []"
| "report_files vm al (f # fs) =
     do { x \<leftarrow> report_file vm al f; xs \<leftarrow> report_files vm al fs; Some (x # xs) }"

fun sum_reports :: "luac_report option list \<Rightarrow> luac_report \<Rightarrow> luac_report option" where
  "sum_reports [] w = Some w"
| "sum_reports (None # xs) w = sum_reports xs w"
| "sum_reports (Some r # xs) w =
     do { (_, up) \<leftarrow> luac_data_report_exec r (Some w);
          w \<leftarrow> up;
          sum_reports xs w }"

text \<open>\<open>mount\<close> is \<open>luat_luadb_mount\<close>, \<open>room n\<close> tells whether the reports and the table of \<open>n\<close> files can be
  allocated. The result is the summary report; the conversion to another format that
  follows belongs to the LuatOS library.\<close>

definition luadb_do_report ::
    "lua_vm \<Rightarrow> alloc_oracle \<Rightarrow> (nat \<Rightarrow> bool) \<Rightarrow> (byte list \<Rightarrow> luadb_file list option) \<Rightarrow> byte list \<Rightarrow>
     (int \<times> luac_report) option" where
  "luadb_do_report vm al room mount img =
     (if \<not> room 1 then None
      else (case mount img of None \<Rightarrow> Some (-1, zero_report)
            | Some fs \<Rightarrow>
                if \<not> room (length fs) then None
                else do { rs \<leftarrow> report_files vm al fs;
                          w \<leftarrow> sum_reports rs zero_report;
                          (w, _) \<leftarrow> luac_data_report_exec w None;
                          Some (0, w) }))"

end
