(* ===== verification/Luac_Props.thy ===== *)
theory Luac_Props
  imports Luac_Report
begin

text \<open>
  Properties of the analyser of compiled scripts (\<open>port/luat_luac_report.c\<close>). The format of
  chunks is defined as an encoder of syntax trees, the inverse of what the parser does:
  parsing an encoded tree fills the table of functions with that tree and collects its
  strings, codes, numbers and line numbers in order. The counting part is related to the
  set of distinct blocks of a group.
\<close>

section \<open>The format of chunks\<close>

text \<open>What \<open>luaU_dump\<close> writes: strings with their length plus one, constants with their type, and functions.
  Strings of up to 253 bytes have a length of one byte.\<close>

type_synonym lstr = "byte list option"

fun enc_string :: "lstr \<Rightarrow> byte list" where
  "enc_string None = [0]"
| "enc_string (Some x) =
     (if length x + 1 < 255 then [of_nat (length x + 1)] else 0xFF # le_bytes 4 (length x + 1)) @ x"

definition enc_int :: "u32 \<Rightarrow> byte list" where
  "enc_int n = le_bytes 4 (unat n)"

definition enc_len :: "'a list \<Rightarrow> byte list" where
  "enc_len xs = le_bytes 4 (length xs)"

datatype lconst = KNil | KBool byte | KFlt "byte list" | KInt "byte list" | KShr lstr | KLng lstr

fun enc_const :: "lconst \<Rightarrow> byte list" where
  "enc_const KNil = [LUA_TNIL]"
| "enc_const (KBool b) = [LUA_TBOOLEAN, b]"
| "enc_const (KFlt v) = LUA_TNUMFLT # v"
| "enc_const (KInt v) = LUA_TNUMINT # v"
| "enc_const (KShr x) = LUA_TSHRSTR # enc_string x"
| "enc_const (KLng x) = LUA_TLNGSTR # enc_string x"

record lfun =
  fn_source :: lstr
  fn_line :: u32
  fn_last :: u32
  fn_params :: byte
  fn_vararg :: byte
  fn_stack :: byte
  fn_code :: "u32 list"
  fn_consts :: "lconst list"
  fn_upvals :: "(byte \<times> byte) list"
  fn_lines :: "u32 list"
  fn_locvars :: "(lstr \<times> u32 \<times> u32) list"
  fn_upnames :: "lstr list"

datatype lproto = LProto lfun "lproto list"

definition enc_ints :: "u32 list \<Rightarrow> byte list" where
  "enc_ints xs = concat (map enc_int xs)"

definition enc_locvar :: "lstr \<times> u32 \<times> u32 \<Rightarrow> byte list" where
  "enc_locvar v = enc_string (fst v) @ enc_int (fst (snd v)) @ enc_int (snd (snd v))"

definition enc_upvals :: "(byte \<times> byte) list \<Rightarrow> byte list" where
  "enc_upvals us = concat (map (\<lambda>(a, b). [a, b]) us)"

definition enc_debug :: "lfun \<Rightarrow> byte list" where
  "enc_debug f =
     enc_len (fn_lines f) @ enc_ints (fn_lines f) @
     enc_len (fn_locvars f) @ concat (map enc_locvar (fn_locvars f)) @
     enc_len (fn_upnames f) @ concat (map enc_string (fn_upnames f))"

definition enc_head :: "lfun \<Rightarrow> byte list" where
  "enc_head f =
     enc_string (fn_source f) @ enc_int (fn_line f) @ enc_int (fn_last f) @
     [fn_params f, fn_vararg f, fn_stack f] @
     enc_len (fn_code f) @ enc_ints (fn_code f) @
     enc_len (fn_consts f) @ concat (map enc_const (fn_consts f)) @
     enc_len (fn_upvals f) @ enc_upvals (fn_upvals f)"

primrec enc_proto :: "lproto \<Rightarrow> byte list" where
  "enc_proto (LProto f ps) = enc_head f @ enc_len ps @ concat (map enc_proto ps) @ enc_debug f"

text \<open>The lengths that the format can express, and sizes of numbers that fit the build.\<close>

fun str_ok :: "lstr \<Rightarrow> bool" where
  "str_ok None \<longleftrightarrow> True"
| "str_ok (Some x) \<longleftrightarrow> length x + 1 < 2 ^ 29"

fun const_ok :: "lua_vm \<Rightarrow> lconst \<Rightarrow> bool" where
  "const_ok vm (KFlt v) \<longleftrightarrow> length v = vm_num vm"
| "const_ok vm (KInt v) \<longleftrightarrow> length v = vm_int vm"
| "const_ok vm (KShr x) \<longleftrightarrow> str_ok x"
| "const_ok vm (KLng x) \<longleftrightarrow> str_ok x"
| "const_ok vm c \<longleftrightarrow> True"

definition fun_ok :: "lua_vm \<Rightarrow> lfun \<Rightarrow> bool" where
  "fun_ok vm f \<longleftrightarrow>
     str_ok (fn_source f) \<and> length (fn_code f) < 2 ^ 28 \<and> length (fn_consts f) < 2 ^ 28 \<and>
     list_all (const_ok vm) (fn_consts f) \<and> length (fn_upvals f) < 2 ^ 28 \<and> length (fn_lines f) < 2 ^ 28 \<and>
     length (fn_locvars f) < 2 ^ 28 \<and> list_all (\<lambda>v. str_ok (fst v)) (fn_locvars f) \<and>
     length (fn_upnames f) < 2 ^ 28 \<and> list_all str_ok (fn_upnames f)"

section \<open>What the parser collects\<close>

fun str_value :: "lstr \<Rightarrow> luac_value" where
  "str_value None = DNull"
| "str_value (Some x) = DBlock (x @ [0])"

fun str_size :: "lstr \<Rightarrow> nat" where
  "str_size None = 0"
| "str_size (Some x) = length x + 1"

definition str_data :: "byte \<Rightarrow> lstr \<Rightarrow> luac_data" where
  "str_data ty x = \<lparr>ld_data = str_value x, ld_len = str_size x, ld_mark = 0, ld_type = ty\<rparr>"

definition name_data :: "lstr \<Rightarrow> luac_data" where
  "name_data x = str_data (name_type (str_size x)) x"

fun const_strs :: "lconst \<Rightarrow> luac_data list" where
  "const_strs (KShr x) = [str_data LUA_TSHRSTR x]"
| "const_strs (KLng x) = [str_data LUA_TLNGSTR x]"
| "const_strs c = []"

definition num_data :: "lua_vm \<Rightarrow> byte list \<Rightarrow> byte \<Rightarrow> byte \<Rightarrow> luac_data" where
  "num_data vm v m ty = \<lparr>ld_data = DRaw v, ld_len = vm_int vm, ld_mark = m, ld_type = ty\<rparr>"

fun const_nums :: "lua_vm \<Rightarrow> lconst \<Rightarrow> luac_data list" where
  "const_nums vm (KBool b) = [num_data vm (le_bytes (vm_int vm) (unat b)) LUA_TBOOLEAN LUA_TBOOLEAN]"
| "const_nums vm (KFlt v) = [num_data vm v LUA_TNUMFLT LUA_TNUMFLT]"
| "const_nums vm (KInt v) = [num_data vm v 1 LUA_TNUMINT]"
| "const_nums vm c = []"

definition block_data :: "u32 list \<Rightarrow> luac_data" where
  "block_data xs = \<lparr>ld_data = DBlock (enc_ints xs), ld_len = 4 * length xs, ld_mark = 0, ld_type = 0\<rparr>"

definition lines_data :: "u32 list \<Rightarrow> luac_data" where
  "lines_data xs = (if xs = [] then \<lparr>ld_data = DNull, ld_len = 0, ld_mark = 0, ld_type = 0\<rparr> else block_data xs)"

text \<open>The functions in the order in which the parser numbers them, and the data in the order in which it
  enters them: the names of a function come behind everything of its nested functions.\<close>

primrec preorder :: "lproto \<Rightarrow> lfun list" where
  "preorder (LProto f ps) = f # concat (map preorder ps)"

primrec proto_strs :: "lproto \<Rightarrow> luac_data list" where
  "proto_strs (LProto f ps) =
     name_data (fn_source f) # concat (map const_strs (fn_consts f)) @ concat (map proto_strs ps) @
     map (name_data \<circ> fst) (fn_locvars f) @ map name_data (fn_upnames f)"

primrec proto_lines :: "lproto \<Rightarrow> luac_data list" where
  "proto_lines (LProto f ps) = concat (map proto_lines ps) @ [lines_data (fn_lines f)]"

definition proto_codes :: "lproto \<Rightarrow> luac_data list" where
  "proto_codes p = map (block_data \<circ> fn_code) (preorder p)"

definition proto_nums :: "lua_vm \<Rightarrow> lproto \<Rightarrow> luac_data list" where
  "proto_nums vm p = concat (map (concat \<circ> map (const_nums vm) \<circ> fn_consts) (preorder p))"

section \<open>Reading what was dumped\<close>

definition mem_suffices :: "alloc_oracle \<Rightarrow> bool" where
  "mem_suffices al \<longleftrightarrow> (\<forall>p n. al p n)"

lemma new_block_fine [simp]: "mem_suffices al \<Longrightarrow> new_block al n t = Some ()"
  by (simp add: new_block_def mem_suffices_def)

lemma LoadBlock_append: "length x = n \<Longrightarrow> LoadBlock n (x @ t) = Some (x, t)"
  by (auto simp: LoadBlock_def)

lemma LoadByte_Cons [simp]: "LoadByte (b # t) = Some (b, t)"
  by (simp add: LoadByte_def LoadBlock_def)

lemma LoadInt_enc [simp]: "LoadInt (enc_int n @ t) = Some (n, t)"
proof -
  have "unat n < 256 ^ 4" using unsigned_less [of n, where 'a = nat] by simp
  then show ?thesis by (simp add: LoadInt_def enc_int_def LoadBlock_append)
qed

lemma LoadInt_len [simp]: "length xs < 2 ^ 32 \<Longrightarrow> LoadInt (enc_len xs @ t) = Some (of_nat (length xs), t)"
  by (simp add: LoadInt_def enc_len_def LoadBlock_append)

lemma unat_u32 [simp]: "n < 2 ^ 32 \<Longrightarrow> unat (of_nat n :: u32) = n"
  by (simp add: unat_of_nat)

lemma sint_u32: "n < 2 ^ 31 \<Longrightarrow> sint (of_nat n :: u32) = int n"
  by (simp add: signed_of_nat signed_take_bit_int_eq_self)

lemma loops_u32 [simp]: "n < 2 ^ 31 \<Longrightarrow> loops (of_nat n) = n"
  by (simp add: loops_def sint_u32)

lemma string_len_enc:
  assumes "length x + 1 < 2 ^ 29"
  obtains b u where "enc_string (Some x) @ t = b # u" and "b \<noteq> 0" and "string_len b u = Some (length x + 1, x @ t)"
proof (cases "length x + 1 < 255")
  case True
  let ?b = "of_nat (length x + 1) :: byte"
  have u: "unat ?b = length x + 1" using True by (simp only: unat_of_nat) simp
  have "?b \<noteq> 0" using u by (metis add_is_0 one_neq_zero unat_0)
  moreover have "?b \<noteq> 0xFF"
  proof
    assume "?b = 0xFF"
    then have "unat ?b = 255" by simp
    with u True show False by simp
  qed
  ultimately show ?thesis using True u that [of ?b "x @ t"] by (simp add: string_len_def del: of_nat_add of_nat_Suc)
next
  case False
  have "LoadInt (le_bytes 4 (length x + 1) @ u) = Some (of_nat (length x + 1), u)" for u
    using assms by (simp only: LoadInt_def LoadBlock_append [OF length_le_bytes]) simp
  moreover have "unat (of_nat (length x + 1) :: u32) = length x + 1"
    using assms by (intro unat_u32) simp
  ultimately have "string_len 0xFF (le_bytes 4 (length x + 1) @ x @ t) = Some (length x + 1, x @ t)"
    by (simp only: string_len_def if_True refl) simp
  with False show ?thesis by (intro that [of "0xFF"]) simp_all
qed

lemma LoadString_enc [simp]:
  assumes "str_ok x" and "mem_suffices al"
  shows "LoadString al (enc_string x @ t) = Some (str_value x, str_size x, t)"
proof (cases x)
  case None
  then show ?thesis by (simp add: LoadString_def)
next
  case (Some y)
  with assms(1) have y: "length y + 1 < 2 ^ 29" by simp
  obtain b u where "enc_string (Some y) @ t = b # u" and "b \<noteq> 0" and "string_len b u = Some (length y + 1, y @ t)"
    using string_len_enc [OF y] .
  with assms(2) show ?thesis
    unfolding LoadString_def Some by (simp add: LoadBlock_append del: enc_string.simps)
qed

lemma length_enc_ints [simp]: "length (enc_ints xs) = 4 * length xs"
  by (induction xs) (auto simp: enc_ints_def enc_int_def)

lemma LoadCode_enc [simp]:
  assumes "length xs < 2 ^ 28" and "mem_suffices al"
  shows "LoadCode al (enc_len xs @ enc_ints xs @ t) = Some (DBlock (enc_ints xs), 4 * length xs, t)"
  using assms by (simp add: LoadCode_def LoadBlock_append)

section \<open>Growth of the groups\<close>

definition dg_app :: "luac_data list \<Rightarrow> luac_data_group \<Rightarrow> luac_data_group" where
  "dg_app xs g = g\<lparr>dg_data := dg_data g @ xs\<rparr>"

definition has_room :: "nat \<Rightarrow> luac_data_group \<Rightarrow> bool" where
  "has_room n g \<longleftrightarrow> length (dg_data g) + n \<le> group_size"

definition lookup :: "luac_data_group \<Rightarrow> nat \<Rightarrow> luac_data option" where
  "lookup g i = (if i < length (dg_data g) then Some (dg_data g ! i) else None)"

lemma dg_app_simps [simp]:
  "dg_app [] g = g" "dg_app ys (dg_app xs g) = dg_app (xs @ ys) g" "dg_data (dg_app xs g) = dg_data g @ xs"
  by (simp_all add: dg_app_def)

lemma lookup_app: "lookup g i = Some d \<Longrightarrow> lookup (dg_app xs g) i = Some d"
  by (auto simp: lookup_def nth_append split: if_splits)

lemma lookup_last [simp]: "lookup (dg_app (d # xs) g) (length (dg_data g)) = Some d"
  by (simp add: lookup_def)

lemma has_room_app [simp]: "has_room n (dg_app xs g) \<longleftrightarrow> has_room (length xs + n) g"
  by (auto simp: has_room_def)

lemma has_room_mono: "has_room n g \<Longrightarrow> m \<le> n \<Longrightarrow> has_room m g"
  by (simp add: has_room_def)

lemma group_push_app: "has_room n g \<Longrightarrow> 0 < n \<Longrightarrow> group_push d g = Some (dg_app [d] g)"
  by (simp add: group_push_def has_room_def dg_app_def)

text \<open>Strings, codes, numbers and line numbers were appended to the groups of a report.\<close>

definition adds :: "luac_data list \<Rightarrow> luac_data list \<Rightarrow> luac_data list \<Rightarrow> luac_data list \<Rightarrow> luac_report \<Rightarrow> luac_report \<Rightarrow> bool" where
  "adds ss cs ns ls r r' \<longleftrightarrow>
     lr_strs r' = dg_app ss (lr_strs r) \<and> lr_codes r' = dg_app cs (lr_codes r) \<and>
     lr_numbers r' = dg_app ns (lr_numbers r) \<and> lr_line_numbers r' = dg_app ls (lr_line_numbers r) \<and>
     lr_upvalues r' = lr_upvalues r"

lemma adds_refl: "adds [] [] [] [] r r"
  by (simp add: adds_def)

lemma adds_trans:
  "adds ss cs ns ls r r' \<Longrightarrow> adds ss' cs' ns' ls' r' r'' \<Longrightarrow>
   adds (ss @ ss') (cs @ cs') (ns @ ns') (ls @ ls') r r''"
  by (simp add: adds_def)

text \<open>Room for the strings, codes, numbers and line numbers.\<close>

definition rooms :: "nat \<Rightarrow> nat \<Rightarrow> nat \<Rightarrow> nat \<Rightarrow> luac_report \<Rightarrow> bool" where
  "rooms s c n l r \<longleftrightarrow>
     has_room s (lr_strs r) \<and> has_room c (lr_codes r) \<and> has_room n (lr_numbers r) \<and> has_room l (lr_line_numbers r)"

lemma rooms_adds:
  "adds ss cs ns ls r r' \<Longrightarrow>
   rooms s c n l r' \<longleftrightarrow> rooms (length ss + s) (length cs + c) (length ns + n) (length ls + l) r"
  by (simp add: adds_def rooms_def)

lemma rooms_mono: "rooms s c n l r \<Longrightarrow> s' \<le> s \<Longrightarrow> c' \<le> c \<Longrightarrow> n' \<le> n \<Longrightarrow> l' \<le> l \<Longrightarrow> rooms s' c' n' l' r"
  by (auto simp: rooms_def intro: has_room_mono)

text \<open>The table of functions and its size stay as they are.\<close>

definition same_funcs :: "luac_report \<Rightarrow> luac_report \<Rightarrow> bool" where
  "same_funcs r r' \<longleftrightarrow> lr_luf_funcs r' = lr_luf_funcs r \<and> lr_func_count r' = lr_func_count r"

lemma same_funcs_trans: "same_funcs r r' \<Longrightarrow> same_funcs r' r'' \<Longrightarrow> same_funcs r r''"
  by (simp add: same_funcs_def)

lemma load_name_enc:
  assumes "str_ok x" and "mem_suffices al" and "has_room n (lr_strs r)" and "0 < n"
  shows "load_name al (enc_string x @ t, r) =
         Some (length (dg_data (lr_strs r)), t, r\<lparr>lr_strs := dg_app [name_data x] (lr_strs r)\<rparr>)"
  using assms by (simp add: load_name_def push_str_def group_push_app [of n] name_data_def str_data_def)

lemma adds_str: "adds [x] [] [] [] r (r\<lparr>lr_strs := dg_app [x] (lr_strs r)\<rparr>)"
  by (simp add: adds_def)

lemma adds_num: "adds [] [] [x] [] r (r\<lparr>lr_numbers := dg_app [x] (lr_numbers r)\<rparr>)"
  by (simp add: adds_def)

lemma adds_code: "adds [] [x] [] [] r (r\<lparr>lr_codes := dg_app [x] (lr_codes r)\<rparr>)"
  by (simp add: adds_def)

lemma adds_line: "adds [] [] [] [x] r (r\<lparr>lr_line_numbers := dg_app [x] (lr_line_numbers r)\<rparr>)"
  by (simp add: adds_def)

section \<open>Entries that describe a function\<close>

fun const_at :: "lua_vm \<Rightarrow> luac_report \<Rightarrow> luac_ref option \<Rightarrow> lconst \<Rightarrow> bool" where
  "const_at vm r None c \<longleftrightarrow> c = KNil"
| "const_at vm r (Some (RStr i)) c \<longleftrightarrow> (\<exists>d. lookup (lr_strs r) i = Some d \<and> const_strs c = [d])"
| "const_at vm r (Some (RNum i)) c \<longleftrightarrow> (\<exists>d. lookup (lr_numbers r) i = Some d \<and> const_nums vm c = [d])"

definition name_at :: "luac_report \<Rightarrow> nat \<Rightarrow> lstr \<Rightarrow> bool" where
  "name_at r i x \<longleftrightarrow> lookup (lr_strs r) i = Some (name_data x)"

definition head_at :: "lua_vm \<Rightarrow> luac_report \<Rightarrow> luf_func \<Rightarrow> lfun \<Rightarrow> bool" where
  "head_at vm r e f \<longleftrightarrow>
     name_at r (lf_source e) (fn_source f) \<and> lf_linedefined e = fn_line f \<and> lf_lastlinedefined e = fn_last f \<and>
     lf_numparams e = fn_params f \<and> lf_is_vararg e = fn_vararg f \<and> lf_maxstacksize e = fn_stack f \<and>
     lookup (lr_codes r) (lf_code e) = Some (block_data (fn_code f)) \<and> lf_sizecode e = length (fn_code f) \<and>
     list_all2 (const_at vm r) (lf_k e) (fn_consts f) \<and> lf_upvalues e = enc_upvals (fn_upvals f)"

definition debug_at :: "luac_report \<Rightarrow> luf_func \<Rightarrow> lfun \<Rightarrow> bool" where
  "debug_at r e f \<longleftrightarrow>
     lookup (lr_line_numbers r) (lf_lineinfo e) = Some (lines_data (fn_lines f)) \<and>
     list_all2 (name_at r) (lf_locvars2 e) (map fst (fn_locvars f)) \<and> lf_locvars e = map snd (fn_locvars f) \<and>
     list_all2 (name_at r) (lf_upvalues2 e) (fn_upnames f)"

definition fun_at :: "lua_vm \<Rightarrow> luac_report \<Rightarrow> luf_func \<Rightarrow> lfun \<Rightarrow> bool" where
  "fun_at vm r e f \<longleftrightarrow> head_at vm r e f \<and> debug_at r e f"

text \<open>The entry \<open>i\<close> of the table describes a function with all the functions nested in it, by entries from
  \<open>lo\<close> on.\<close>

primrec tree_at :: "lua_vm \<Rightarrow> nat \<Rightarrow> luac_report \<Rightarrow> lproto \<Rightarrow> nat \<Rightarrow> bool" where
  "tree_at vm lo r (LProto f ps) = (\<lambda>i.
     lo \<le> i \<and> i < lr_func_count r \<and> fun_at vm r (lr_luf_funcs r i) f \<and>
     list_all2 (\<lambda>d j. d j) (map (tree_at vm lo r) ps) (lf_p (lr_luf_funcs r i)))"

lemma const_at_adds: "const_at vm r x c \<Longrightarrow> adds ss cs ns ls r r' \<Longrightarrow> const_at vm r' x c"
  by (cases "(vm, r, x, c)" rule: const_at.cases) (auto simp: adds_def intro: lookup_app)

lemma name_at_adds: "name_at r i x \<Longrightarrow> adds ss cs ns ls r r' \<Longrightarrow> name_at r' i x"
  by (simp add: name_at_def adds_def lookup_app)

lemma consts_at_adds:
  "list_all2 (const_at vm r) xs cs \<Longrightarrow> adds ss cc ns ls r r' \<Longrightarrow> list_all2 (const_at vm r') xs cs"
  by (erule list_all2_mono) (rule const_at_adds)

lemma names_at_adds:
  "list_all2 (name_at r) xs cs \<Longrightarrow> adds ss cc ns ls r r' \<Longrightarrow> list_all2 (name_at r') xs cs"
  by (erule list_all2_mono) (rule name_at_adds)

lemma head_at_adds: "head_at vm r e f \<Longrightarrow> adds ss cs ns ls r r' \<Longrightarrow> head_at vm r' e f"
  unfolding head_at_def
  by (auto simp: name_at_adds elim: consts_at_adds) (simp add: adds_def lookup_app)

lemma debug_at_adds: "debug_at r e f \<Longrightarrow> adds ss cs ns ls r r' \<Longrightarrow> debug_at r' e f"
  unfolding debug_at_def
  by (auto elim: names_at_adds) (simp add: adds_def lookup_app)

lemma fun_at_adds: "fun_at vm r e f \<Longrightarrow> adds ss cs ns ls r r' \<Longrightarrow> fun_at vm r' e f"
  unfolding fun_at_def using head_at_adds debug_at_adds by blast

lemma load_constant_enc:
  assumes "const_ok vm c" and "mem_suffices al" and "rooms (length (const_strs c)) 0 (length (const_nums vm c)) 0 r"
  obtains x r' where "load_constant vm al (enc_const c @ t, r) = Some (True, x, t, r')"
    and "adds (const_strs c) [] (const_nums vm c) [] r r'" and "same_funcs r r'" and "const_at vm r' x c"
proof -
  have "\<exists>x r'. load_constant vm al (enc_const c @ t, r) = Some (True, x, t, r') \<and>
    adds (const_strs c) [] (const_nums vm c) [] r r' \<and> same_funcs r r' \<and> const_at vm r' x c"
    using assms
    by (cases c) (auto simp: load_constant_def push_number_def push_str_def num_data_def str_data_def rooms_def
      LoadNumber_def LoadInteger_def LoadBlock_append adds_def same_funcs_def
      group_push_app [OF _ zero_less_one] group_push_app [where n = "Suc 0"])
  then show thesis using that by blast
qed

lemma load_constants_enc:
  assumes "list_all (const_ok vm) cs" and "mem_suffices al"
    and "rooms (length (concat (map const_strs cs))) 0 (length (concat (map (const_nums vm) cs))) 0 r"
  shows "\<exists>ks r'. load_constants vm al (length cs) (length done) (done @ replicate (length cs) None)
           (concat (map enc_const cs) @ t, r) = Some (done @ ks, t, r') \<and>
         adds (concat (map const_strs cs)) [] (concat (map (const_nums vm) cs)) [] r r' \<and> same_funcs r r' \<and>
         list_all2 (const_at vm r') ks cs"
  using assms
proof (induction cs arbitrary: "done" r)
  case Nil
  then show ?case by (simp add: adds_refl same_funcs_def)
next
  case (Cons c cs)
  have "rooms (length (const_strs c)) 0 (length (const_nums vm c)) 0 r"
    using Cons.prems(3) by (rule rooms_mono) simp_all
  then obtain x r1 where c: "load_constant vm al (enc_const c @ concat (map enc_const cs) @ t, r) =
        Some (True, x, concat (map enc_const cs) @ t, r1)"
      and a: "adds (const_strs c) [] (const_nums vm c) [] r r1" and s: "same_funcs r r1" and x: "const_at vm r1 x c"
    using load_constant_enc [of vm c al r] Cons.prems(1,2) by (metis list.pred_inject(2))
  have "rooms (length (concat (map const_strs cs))) 0 (length (concat (map (const_nums vm) cs))) 0 r1"
    using Cons.prems(3) by (simp add: rooms_adds [OF a])
  from Cons.IH [OF _ Cons.prems(2) this, of "done @ [x]"] Cons.prems(1) obtain ks r2 where
      k: "load_constants vm al (length cs) (Suc (length done)) (done @ x # replicate (length cs) None)
           (concat (map enc_const cs) @ t, r1) = Some (done @ x # ks, t, r2)"
      and a2: "adds (concat (map const_strs cs)) [] (concat (map (const_nums vm) cs)) [] r1 r2"
      and s2: "same_funcs r1 r2" and ks: "list_all2 (const_at vm r2) ks cs"
    by auto
  have "list_all2 (const_at vm r2) (x # ks) (c # cs)"
    using ks const_at_adds [OF x a2] by simp
  moreover have "load_constants vm al (length (c # cs)) (length done) (done @ replicate (length (c # cs)) None)
      (concat (map enc_const (c # cs)) @ t, r) = Some (done @ x # ks, t, r2)"
    using c k by simp
  ultimately show ?case
    using adds_trans [OF a a2] same_funcs_trans [OF s s2] by auto
qed

lemma enc_locvar_triple: "enc_locvar (x, a, b) = enc_string x @ enc_int a @ enc_int b"
  by (simp add: enc_locvar_def)

lemma load_locvars_enc:
  assumes "list_all (\<lambda>v. str_ok (fst v)) vs" and "mem_suffices al" and "i + length vs \<le> m"
    and "rooms (length vs) 0 0 0 r"
  shows "\<exists>is r'. load_locvars al (length vs) i m (concat (map enc_locvar vs) @ t, r) =
           Some (zip is (map snd vs), t, r') \<and> length is = length vs \<and>
         adds (map (name_data \<circ> fst) vs) [] [] [] r r' \<and> same_funcs r r' \<and> list_all2 (name_at r') is (map fst vs)"
  using assms
proof (induction vs arbitrary: i r)
  case Nil
  then show ?case by (simp add: adds_refl same_funcs_def)
next
  case (Cons v vs)
  obtain x a b where v: "v = (x, a, b)" by (cases v)
  define r1 where "r1 = r\<lparr>lr_strs := dg_app [name_data x] (lr_strs r)\<rparr>"
  have ad: "adds [name_data x] [] [] [] r r1" unfolding r1_def by (rule adds_str)
  have nm: "load_name al (enc_string x @ u, r) = Some (length (dg_data (lr_strs r)), u, r1)" for u
    using load_name_enc [of x al "length (v # vs)" r u] Cons.prems by (simp add: r1_def v rooms_def)
  have "rooms (length vs) 0 0 0 r1" using Cons.prems(4) by (simp add: rooms_adds [OF ad])
  moreover have "list_all (\<lambda>v. str_ok (fst v)) vs" and "Suc i + length vs \<le> m" using Cons.prems(1,3) by simp_all
  ultimately obtain "is" r2 where
      k: "load_locvars al (length vs) (Suc i) m (concat (map enc_locvar vs) @ t, r1) = Some (zip is (map snd vs), t, r2)"
      and len: "length is = length vs" and a2: "adds (map (name_data \<circ> fst) vs) [] [] [] r1 r2"
      and s2: "same_funcs r1 r2" and ks: "list_all2 (name_at r2) is (map fst vs)"
    using Cons.IH [of "Suc i" r1] Cons.prems(2) by blast
  moreover have "name_at r1 (length (dg_data (lr_strs r))) x" by (simp add: name_at_def r1_def)
  then have "name_at r2 (length (dg_data (lr_strs r))) x" by (rule name_at_adds [OF _ a2])
  moreover have "same_funcs r r2" using s2 by (simp add: same_funcs_def r1_def)
  ultimately show ?case
    using Cons.prems(3) nm adds_trans [OF ad a2]
    by (intro exI [of _ "length (dg_data (lr_strs r)) # is"] exI [of _ r2]) (simp add: v enc_locvar_triple comp_def)
qed

lemma load_upnames_enc:
  assumes "list_all str_ok xs" and "mem_suffices al" and "i + length xs \<le> m" and "rooms (length xs) 0 0 0 r"
  shows "\<exists>is r'. load_upnames al (length xs) i m (concat (map enc_string xs) @ t, r) = Some (is, t, r') \<and>
         adds (map name_data xs) [] [] [] r r' \<and> same_funcs r r' \<and> list_all2 (name_at r') is xs"
  using assms
proof (induction xs arbitrary: i r)
  case Nil
  then show ?case by (simp add: adds_refl same_funcs_def)
next
  case (Cons x xs)
  define r1 where "r1 = r\<lparr>lr_strs := dg_app [name_data x] (lr_strs r)\<rparr>"
  have ad: "adds [name_data x] [] [] [] r r1" unfolding r1_def by (rule adds_str)
  have "load_name al (enc_string x @ u, r) = Some (length (dg_data (lr_strs r)), u, r1)" for u
    using load_name_enc [of x al "length (x # xs)" r u] Cons.prems by (simp add: r1_def rooms_def)
  moreover have "rooms (length xs) 0 0 0 r1" using Cons.prems(4) by (simp add: rooms_adds [OF ad])
  from Cons.IH [OF _ Cons.prems(2) _ this, of "Suc i"] Cons.prems(1,3) obtain "is" r2 where
      k: "load_upnames al (length xs) (Suc i) m (concat (map enc_string xs) @ t, r1) = Some (is, t, r2)"
      and a2: "adds (map name_data xs) [] [] [] r1 r2" and s2: "same_funcs r1 r2"
      and ks: "list_all2 (name_at r2) is xs"
    by auto
  moreover have "name_at r1 (length (dg_data (lr_strs r))) x" by (simp add: name_at_def r1_def)
  then have "name_at r2 (length (dg_data (lr_strs r))) x" by (rule name_at_adds [OF _ a2])
  moreover have "same_funcs r r2" using s2 by (simp add: same_funcs_def r1_def)
  ultimately show ?case
    using Cons.prems(3) adds_trans [OF ad a2]
    by (intro exI [of _ "length (dg_data (lr_strs r)) # is"] exI [of _ r2]) simp
qed

lemma load_lines_enc:
  assumes "length xs < 2 ^ 28" and "mem_suffices al" and "has_room n (lr_line_numbers r)" and "0 < n"
  shows "load_lines al (of_nat (length xs)) (enc_ints xs @ t, r) =
         Some (length (dg_data (lr_line_numbers r)), t,
               r\<lparr>lr_line_numbers := dg_app [lines_data xs] (lr_line_numbers r)\<rparr>)"
proof (cases "xs = []")
  case True
  with assms show ?thesis by (simp add: load_lines_def group_push_app [of n] lines_data_def enc_ints_def)
next
  case False
  with assms show ?thesis
    by (simp add: load_lines_def sint_u32 LoadBlock_append group_push_app [of n] lines_data_def block_data_def Let_def mult.commute)
qed

lemma min_slots:
  "n < 2 ^ 28 \<Longrightarrow> min (n * 4 mod 2 ^ 32 div 4) (n * 8 mod 2 ^ 32 div 8) = (n :: nat)"
  by simp

lemma LoadConstants_enc:
  assumes "fun_ok vm f" and "mem_suffices al" and "lf_k e = []"
    and "rooms (length (concat (map const_strs (fn_consts f)))) 0 (length (concat (map (const_nums vm) (fn_consts f)))) 0 r"
  obtains ks r' where "LoadConstants vm al e (enc_len (fn_consts f) @ concat (map enc_const (fn_consts f)) @ t, r) =
      Some (e\<lparr>lf_sizek := of_nat (length (fn_consts f)), lf_k := ks\<rparr>, t, r')"
    and "adds (concat (map const_strs (fn_consts f))) [] (concat (map (const_nums vm) (fn_consts f))) [] r r'"
    and "same_funcs r r'" and "list_all2 (const_at vm r') ks (fn_consts f)"
proof -
  let ?n = "length (fn_consts f)"
  have n: "?n < 2 ^ 28" and ok: "list_all (const_ok vm) (fn_consts f)" using assms(1) by (simp_all add: fun_ok_def)
  obtain ks r' where k: "load_constants vm al ?n 0 (replicate ?n None) (concat (map enc_const (fn_consts f)) @ t, r) =
      Some (ks, t, r')"
    and a: "adds (concat (map const_strs (fn_consts f))) [] (concat (map (const_nums vm) (fn_consts f))) [] r r'"
    and s: "same_funcs r r'" and c: "list_all2 (const_at vm r') ks (fn_consts f)"
    using load_constants_enc [OF ok assms(2,4), of "[]" t] by auto
  have "LoadConstants vm al e (enc_len (fn_consts f) @ concat (map enc_const (fn_consts f)) @ t, r) =
      Some (e\<lparr>lf_sizek := of_nat ?n, lf_k := ks\<rparr>, t, r')"
  proof (cases "?n = 0")
    case True
    with k assms(3) show ?thesis by (simp add: LoadConstants_def)
  next
    case False
    have "unat (of_nat ?n :: u32) = ?n" using n by simp
    with False have "(of_nat ?n :: u32) \<noteq> 0" by (metis unat_0)
    with n k assms(2) show ?thesis by (simp add: LoadConstants_def)
  qed
  with a s c that show thesis by blast
qed

lemma length_enc_upvals [simp]: "length (enc_upvals us) = 2 * length us"
  by (induction us) (auto simp: enc_upvals_def)

lemma LoadUpvalues_enc:
  assumes "length us < 2 ^ 28" and "mem_suffices al" and "lf_upvalues e = []"
  shows "LoadUpvalues al e (enc_len us @ enc_upvals us @ t) =
         Some (e\<lparr>lf_sizeupvalues := of_nat (length us), lf_upvalues := enc_upvals us\<rparr>, t)"
proof (cases "us = []")
  case True
  with assms(3) show ?thesis by (simp add: LoadUpvalues_def enc_upvals_def)
next
  case False
  have "unat (of_nat (length us) :: u32) = length us" using assms(1) by simp
  with False have "(of_nat (length us) :: u32) \<noteq> 0" by (metis length_0_conv unat_0)
  with assms show ?thesis by (simp add: LoadUpvalues_def LoadBlock_append)
qed

lemma LoadDebug_enc:
  assumes "fun_ok vm f" and "mem_suffices al"
    and "rooms (length (fn_locvars f) + length (fn_upnames f)) 0 0 1 r"
  obtains e' r' where "LoadDebug al e (enc_debug f @ t, r) = Some (e', t, r')"
    and "adds (map (name_data \<circ> fst) (fn_locvars f) @ map name_data (fn_upnames f)) [] [] [lines_data (fn_lines f)] r r'"
    and "same_funcs r r'" and "debug_at r' e' f" and "lf_p e' = lf_p e" and "\<forall>r. head_at vm r e' f = head_at vm r e f"
proof -
  define r1 where "r1 = r\<lparr>lr_line_numbers := dg_app [lines_data (fn_lines f)] (lr_line_numbers r)\<rparr>"
  let ?vs = "fn_locvars f" let ?us = "fn_upnames f"
  note ok = assms(1) [unfolded fun_ok_def]
  have li: "load_lines al (of_nat (length (fn_lines f))) (enc_ints (fn_lines f) @ u, r) =
      Some (length (dg_data (lr_line_numbers r)), u, r1)" for u
    using load_lines_enc [of "fn_lines f" al 1 r] ok assms(2,3) by (simp add: r1_def rooms_def)
  have a1: "adds [] [] [] [lines_data (fn_lines f)] r r1" unfolding r1_def by (rule adds_line)
  have rm: "rooms (length ?vs) 0 0 0 r1"
    using assms(3) unfolding rooms_adds [OF a1] by (auto elim: rooms_mono)
  obtain "is" r2 where lv: "load_locvars al (length ?vs) 0 (length ?vs) (concat (map enc_locvar ?vs) @
        enc_len ?us @ concat (map enc_string ?us) @ t, r1) =
      Some (zip is (map snd ?vs), enc_len ?us @ concat (map enc_string ?us) @ t, r2)" and len: "length is = length ?vs"
    and a2: "adds (map (name_data \<circ> fst) ?vs) [] [] [] r1 r2" and s2: "same_funcs r1 r2"
    and ks: "list_all2 (name_at r2) is (map fst ?vs)"
    using load_locvars_enc [OF _ assms(2) _ rm, of 0 "length ?vs" "enc_len ?us @ concat (map enc_string ?us) @ t"] ok
    by (elim conjE) (simp, blast)
  have "rooms (length ?us) 0 0 0 r2"
    using assms(3) unfolding rooms_adds [OF a2] rooms_adds [OF a1] by (auto elim: rooms_mono)
  then obtain us r3 where un: "load_upnames al (length ?us) 0 (length ?us) (concat (map enc_string ?us) @ t, r2) = Some (us, t, r3)"
    and a3: "adds (map name_data ?us) [] [] [] r2 r3" and s3: "same_funcs r2 r3" and ku: "list_all2 (name_at r3) us ?us"
    using load_upnames_enc [OF _ assms(2), of ?us 0 "length ?us" r2 t] ok by (elim conjE) (simp, blast)
  define e' where "e' = e\<lparr>lf_sizelineinfo := of_nat (length (fn_lines f)), lf_lineinfo := length (dg_data (lr_line_numbers r)),
              lf_sizelocvars := of_nat (length ?vs), lf_locvars2 := is, lf_locvars := map snd ?vs,
              lf_sizeupvalues2 := of_nat (length ?us), lf_upvalues2 := us\<rparr>"
  have "LoadDebug al e (enc_debug f @ t, r) = Some (e', t, r3)"
    using ok assms(2) li lv un len by (simp add: LoadDebug_def enc_debug_def Let_def e'_def)
  then show thesis
  proof (rule that)
    show "adds (map (name_data \<circ> fst) ?vs @ map name_data ?us) [] [] [lines_data (fn_lines f)] r r3"
      using adds_trans [OF adds_trans [OF a1 a2] a3] by simp
    show "same_funcs r r3" using same_funcs_trans [OF s2 s3] by (simp add: same_funcs_def r1_def)
    have "lookup (lr_line_numbers r3) (length (dg_data (lr_line_numbers r))) = Some (lines_data (fn_lines f))"
      using a2 a3 by (simp add: adds_def r1_def)
    then show "debug_at r3 e' f" using names_at_adds [OF ks a3] ku by (simp add: debug_at_def e'_def)
  qed (simp_all add: e'_def head_at_def)
qed

section \<open>Functions\<close>

definition keeps :: "nat \<Rightarrow> luac_report \<Rightarrow> luac_report \<Rightarrow> bool" where
  "keeps lo r r' \<longleftrightarrow> lr_func_count r \<le> lr_func_count r' \<and>
     (\<forall>j. lo \<le> j \<and> j < lr_func_count r \<longrightarrow> lr_luf_funcs r' j = lr_luf_funcs r j)"

lemma tree_at_keeps:
  assumes "tree_at vm lo r p i" and "adds ss cs ns ls r r'" and "keeps lo r r'" and "lo' \<le> lo"
  shows "tree_at vm lo' r' p i"
  using assms(1)
proof (induction p arbitrary: i)
  case (LProto f ps)
  then have i: "lo \<le> i" "i < lr_func_count r" by simp_all
  with assms(3) have e: "lr_luf_funcs r' i = lr_luf_funcs r i" by (simp add: keeps_def)
  have "list_all2 (\<lambda>d j. d j) (map (tree_at vm lo r) ps) (lf_p (lr_luf_funcs r i))" using LProto.prems by simp
  then have "list_all2 (\<lambda>d j. d j) (map (tree_at vm lo' r') ps) (lf_p (lr_luf_funcs r i))"
    using LProto.IH by (auto simp: list_all2_conv_all_nth)
  with LProto.prems i e assms(3,4) show ?case
    by (auto simp: keeps_def intro: fun_at_adds [OF _ assms(2)])
qed

definition fits :: "lua_vm \<Rightarrow> lproto list \<Rightarrow> luac_report \<Rightarrow> bool" where
  "fits vm ps r \<longleftrightarrow>
     rooms (length (concat (map proto_strs ps))) (length (concat (map proto_codes ps)))
       (length (concat (map (proto_nums vm) ps))) (length (concat (map proto_lines ps))) r \<and>
     lr_func_count r + length (concat (map preorder ps)) \<le> func_size \<and>
     list_all (fun_ok vm) (concat (map preorder ps))"

definition delivers :: "lua_vm \<Rightarrow> lproto list \<Rightarrow> luac_report \<Rightarrow> luac_report \<Rightarrow> bool" where
  "delivers vm ps r r' \<longleftrightarrow>
     adds (concat (map proto_strs ps)) (concat (map proto_codes ps)) (concat (map (proto_nums vm) ps))
       (concat (map proto_lines ps)) r r' \<and>
     lr_func_count r' = lr_func_count r + length (concat (map preorder ps)) \<and> keeps 0 r r'"

lemma delivers_Nil: "delivers vm [] r r"
  by (simp add: delivers_def adds_refl keeps_def)

lemma delivers_Cons: "delivers vm [p] r r' \<Longrightarrow> delivers vm ps r' r'' \<Longrightarrow> delivers vm (p # ps) r r''"
  unfolding delivers_def by (auto simp: keeps_def dest: adds_trans)

lemma fits_Cons: "fits vm (p # ps) r \<Longrightarrow> fits vm [p] r"
  by (auto simp: fits_def elim: rooms_mono)

lemma fits_delivers: "fits vm (p # ps) r \<Longrightarrow> delivers vm [p] r r' \<Longrightarrow> fits vm ps r'"
  by (auto simp: fits_def delivers_def rooms_adds)

lemma preorder_nonempty [simp]: "preorder p \<noteq> []"
  by (cases p) simp

lemma length_preorders: "length ps \<le> length (concat (map preorder ps))"
proof (induction ps)
  case (Cons p ps)
  moreover have "0 < length (preorder p)" by simp
  then have "1 \<le> length (preorder p)" by linarith
  ultimately show ?case by simp
qed simp

definition loads :: "lua_vm \<Rightarrow> alloc_oracle \<Rightarrow> nat \<Rightarrow> lproto \<Rightarrow> bool" where
  "loads vm al fuel p \<longleftrightarrow> (\<forall>t r. fits vm [p] r \<longrightarrow> (\<forall>j\<ge>lr_func_count r. lr_luf_funcs r j = zero_func) \<longrightarrow>
     (\<exists>r'. LoadFunction fuel vm al (lr_func_count r) (enc_proto p @ t, r) = Some (t, r') \<and> delivers vm [p] r r' \<and>
           (\<forall>j\<ge>lr_func_count r'. lr_luf_funcs r' j = zero_func) \<and>
           tree_at vm (lr_func_count r) r' p (lr_func_count r)))"

lemma load_protos_enc:
  assumes "\<forall>p \<in> set ps. loads vm al fuel p" and "fits vm ps r" and "lo \<le> lr_func_count r" and "i + length ps \<le> func_size"
    and "\<forall>j\<ge>lr_func_count r. lr_luf_funcs r j = zero_func"
  shows "\<exists>js r'. load_protos (LoadFunction fuel vm al) (length ps) i acc (concat (map enc_proto ps) @ t, r) =
           Some (acc @ js, t, r') \<and> delivers vm ps r r' \<and> (\<forall>j\<ge>lr_func_count r'. lr_luf_funcs r' j = zero_func) \<and>
           list_all2 (\<lambda>d j. d j) (map (tree_at vm lo r') ps) js"
  using assms
proof (induction ps arbitrary: r i acc)
  case Nil
  then show ?case by (simp add: delivers_Nil)
next
  case (Cons p ps)
  let ?c = "lr_func_count r" let ?u = "concat (map enc_proto ps) @ t"
  have "loads vm al fuel p" using Cons.prems(1) by simp
  then obtain r1 where l: "LoadFunction fuel vm al ?c (enc_proto p @ ?u, r) = Some (?u, r1)"
      and d: "delivers vm [p] r r1" and z: "\<forall>j\<ge>lr_func_count r1. lr_luf_funcs r1 j = zero_func"
      and tr: "tree_at vm ?c r1 p ?c"
    using fits_Cons [OF Cons.prems(2)] Cons.prems(5) unfolding loads_def by blast
  have "fits vm ps r1" using fits_delivers [OF Cons.prems(2) d] .
  moreover have "lo \<le> lr_func_count r1" using d Cons.prems(3) by (simp add: delivers_def)
  moreover have "Suc i + length ps \<le> func_size" and "\<forall>p \<in> set ps. loads vm al fuel p"
    using Cons.prems(1,4) by simp_all
  ultimately obtain js r2 where
      k: "load_protos (LoadFunction fuel vm al) (length ps) (Suc i) (acc @ [?c]) (?u, r1) = Some ((acc @ [?c]) @ js, t, r2)"
      and d2: "delivers vm ps r1 r2" and z2: "\<forall>j\<ge>lr_func_count r2. lr_luf_funcs r2 j = zero_func"
      and js: "list_all2 (\<lambda>d j. d j) (map (tree_at vm lo r2) ps) js"
    using Cons.IH [of r1 "Suc i" "acc @ [?c]"] z by blast
  have "keeps ?c r1 r2" using d2 by (simp add: delivers_def keeps_def)
  then have "tree_at vm lo r2 p ?c"
    using d2 Cons.prems(3) by (auto simp: delivers_def intro: tree_at_keeps [OF tr])
  moreover have "load_protos (LoadFunction fuel vm al) (length (p # ps)) i acc (concat (map enc_proto (p # ps)) @ t, r) =
      Some (acc @ ?c # js, t, r2)"
    using k l Cons.prems(4) by simp
  ultimately show ?case using delivers_Cons [OF d d2] js z2 by (intro exI [of _ "?c # js"] exI [of _ r2]) simp
qed

lemma LoadProtos_enc:
  assumes "\<forall>p \<in> set ps. loads vm al fuel p" and "fits vm ps r" and "lo \<le> lr_func_count r"
    and "\<forall>j\<ge>lr_func_count r. lr_luf_funcs r j = zero_func"
  obtains js r' where "LoadProtos (LoadFunction fuel vm al) e (enc_len ps @ concat (map enc_proto ps) @ t, r) =
      Some (e\<lparr>lf_sizep := of_nat (length ps), lf_p := js\<rparr>, t, r')"
    and "delivers vm ps r r'" and "\<forall>j\<ge>lr_func_count r'. lr_luf_funcs r' j = zero_func"
    and "list_all2 (\<lambda>d j. d j) (map (tree_at vm lo r') ps) js"
proof -
  have len: "length ps \<le> func_size" using assms(2) length_preorders [of ps] by (simp add: fits_def)
  then have "0 + length ps \<le> func_size" by simp
  from load_protos_enc [OF assms(1,2,3) this assms(4), of "[]" t] obtain js r' where
      k: "load_protos (LoadFunction fuel vm al) (length ps) 0 [] (concat (map enc_proto ps) @ t, r) = Some (js, t, r')"
      and "delivers vm ps r r'" and "\<forall>j\<ge>lr_func_count r'. lr_luf_funcs r' j = zero_func"
      and "list_all2 (\<lambda>d j. d j) (map (tree_at vm lo r') ps) js"
    unfolding append_Nil by blast
  moreover have "LoadProtos (LoadFunction fuel vm al) e (enc_len ps @ concat (map enc_proto ps) @ t, r) =
      Some (e\<lparr>lf_sizep := of_nat (length ps), lf_p := js\<rparr>, t, r')"
    using len k by (simp add: LoadProtos_def)
  ultimately show thesis using that by blast
qed

lemma proto_parts:
  "proto_codes (LProto f ps) = block_data (fn_code f) # concat (map proto_codes ps)"
  "proto_nums vm (LProto f ps) = concat (map (const_nums vm) (fn_consts f)) @ concat (map (proto_nums vm) ps)"
  by (induction ps) (simp_all add: proto_codes_def proto_nums_def)

lemma load_head_enc:
  assumes ok: "fun_ok vm f" and mem: "mem_suffices al" and e: "lf_k e = []" "lf_upvalues e = []"
    and rm: "rooms (1 + length (concat (map const_strs (fn_consts f)))) 1 (length (concat (map (const_nums vm) (fn_consts f)))) 0 r"
  obtains e' r' where "load_head vm al e (enc_head f @ t, r) = Some (e', t, r')"
    and "adds (name_data (fn_source f) # concat (map const_strs (fn_consts f))) [block_data (fn_code f)]
           (concat (map (const_nums vm) (fn_consts f))) [] r r'"
    and "same_funcs r r'" and "head_at vm r' e' f"
proof -
  let ?cs = "concat (map const_strs (fn_consts f))" and ?ns = "concat (map (const_nums vm) (fn_consts f))"
  let ?up = "enc_len (fn_upvals f) @ enc_upvals (fn_upvals f) @ t"
  define r0 where "r0 = r\<lparr>lr_strs := dg_app [name_data (fn_source f)] (lr_strs r)\<rparr>"
  define r1 where "r1 = r0\<lparr>lr_codes := dg_app [block_data (fn_code f)] (lr_codes r0)\<rparr>"
  have a1: "adds [name_data (fn_source f)] [block_data (fn_code f)] [] [] r r1" by (simp add: adds_def r1_def r0_def)
  define e1 where "e1 = e\<lparr>lf_source := length (dg_data (lr_strs r)), lf_linedefined := fn_line f,
    lf_lastlinedefined := fn_last f, lf_numparams := fn_params f, lf_is_vararg := fn_vararg f,
    lf_maxstacksize := fn_stack f, lf_code := length (dg_data (lr_codes r)), lf_sizecode := length (fn_code f)\<rparr>"
  obtain ks r2 where k: "LoadConstants vm al e1 (enc_len (fn_consts f) @ concat (map enc_const (fn_consts f)) @ ?up, r1) =
      Some (e1\<lparr>lf_sizek := of_nat (length (fn_consts f)), lf_k := ks\<rparr>, ?up, r2)"
    and a2: "adds ?cs [] ?ns [] r1 r2" and s2: "same_funcs r1 r2" and k2: "list_all2 (const_at vm r2) ks (fn_consts f)"
  proof (rule LoadConstants_enc [OF ok mem])
    show "lf_k e1 = []" by (simp add: e1_def e)
    show "rooms (length ?cs) 0 (length ?ns) 0 r1"
      unfolding rooms_adds [OF a1] using rm by (rule rooms_mono) simp_all
  qed
  define e2 where "e2 = e1\<lparr>lf_sizek := of_nat (length (fn_consts f)), lf_k := ks,
    lf_sizeupvalues := of_nat (length (fn_upvals f)), lf_upvalues := enc_upvals (fn_upvals f)\<rparr>"
  note ok' = ok [unfolded fun_ok_def]
  have nm: "load_name al (enc_string (fn_source f) @ u, r) = Some (length (dg_data (lr_strs r)), u, r0)" for u
    unfolding r0_def by (rule load_name_enc [where n = "1 + length ?cs"]) (use ok' mem rm in \<open>simp_all add: rooms_def\<close>)
  have cd: "group_push \<lparr>ld_data = DBlock (enc_ints (fn_code f)), ld_len = 4 * length (fn_code f), ld_mark = 0, ld_type = 0\<rparr>
      (lr_codes r0) = Some (dg_app [block_data (fn_code f)] (lr_codes r0))"
    using rm group_push_app [of 1 "lr_codes r"] by (simp add: r0_def rooms_def block_data_def)
  have lu: "LoadUpvalues al (e1\<lparr>lf_sizek := of_nat (length (fn_consts f)), lf_k := ks\<rparr>) ?up = Some (e2, t)"
    using LoadUpvalues_enc [OF _ mem, of "fn_upvals f" "e1\<lparr>lf_sizek := of_nat (length (fn_consts f)), lf_k := ks\<rparr>"] ok'
    by (simp add: e2_def e1_def e)
  have "load_head vm al e (enc_head f @ t, r) = Some (e2, t, r2)"
    using nm cd k lu ok' mem by (simp add: load_head_def enc_head_def r1_def e1_def Let_def r0_def)
  then show thesis
  proof (rule that)
    show "adds (name_data (fn_source f) # ?cs) [block_data (fn_code f)] ?ns [] r r2"
      using adds_trans [OF a1 a2] by simp
    show "same_funcs r r2" using s2 by (simp add: same_funcs_def r1_def r0_def)
    show "head_at vm r2 e2 f"
      using k2 a2 by (simp add: head_at_def e2_def e1_def name_at_def adds_def r1_def r0_def)
  qed
qed

lemma fits_head:
  assumes "fits vm [LProto f ps] r"
  shows "rooms (1 + length (concat (map const_strs (fn_consts f)))) 1
           (length (concat (map (const_nums vm) (fn_consts f)))) 0 (r\<lparr>lr_func_count := n\<rparr>)"
proof -
  from assms have "rooms (length (proto_strs (LProto f ps))) (length (proto_codes (LProto f ps)))
      (length (proto_nums vm (LProto f ps))) (length (proto_lines (LProto f ps))) r"
    by (simp add: fits_def)
  then have "rooms (length (proto_strs (LProto f ps))) (length (proto_codes (LProto f ps)))
      (length (proto_nums vm (LProto f ps))) (length (proto_lines (LProto f ps))) (r\<lparr>lr_func_count := n\<rparr>)"
    by (simp add: rooms_def)
  then show ?thesis by (rule rooms_mono) (simp_all add: proto_parts)
qed

lemma fits_nested:
  assumes "fits vm [LProto f ps] r" and "lr_func_count r' = lr_func_count r + 1"
    and a: "adds (name_data (fn_source f) # concat (map const_strs (fn_consts f))) [block_data (fn_code f)]
           (concat (map (const_nums vm) (fn_consts f))) [] r r'"
  shows "fits vm ps r'"
  unfolding fits_def rooms_adds [OF a]
proof (intro conjI)
  from assms(1) have "rooms (length (proto_strs (LProto f ps))) (length (proto_codes (LProto f ps)))
      (length (proto_nums vm (LProto f ps))) (length (proto_lines (LProto f ps))) r"
    by (simp add: fits_def)
  then show "rooms (length (name_data (fn_source f) # concat (map const_strs (fn_consts f))) + length (concat (map proto_strs ps)))
     (length [block_data (fn_code f)] + length (concat (map proto_codes ps)))
     (length (concat (map (const_nums vm) (fn_consts f))) + length (concat (map (proto_nums vm) ps)))
     (length [] + length (concat (map proto_lines ps))) r"
    by (rule rooms_mono) (simp_all add: proto_parts)
qed (use assms(1,2) in \<open>simp_all add: fits_def\<close>)

lemma fits_debug:
  assumes "fits vm [LProto f ps] r"
    and a: "adds (name_data (fn_source f) # concat (map const_strs (fn_consts f)) @ concat (map proto_strs ps)) cs ns
           (concat (map proto_lines ps)) r r'"
    and "cs = proto_codes (LProto f ps)" and "ns = proto_nums vm (LProto f ps)"
  shows "rooms (length (fn_locvars f) + length (fn_upnames f)) 0 0 1 r'"
proof -
  from assms(1) have "rooms (length (proto_strs (LProto f ps))) (length cs) (length ns) (length (proto_lines (LProto f ps))) r"
    by (simp add: fits_def assms(3,4))
  then show ?thesis unfolding rooms_adds [OF a] by (rule rooms_mono) simp_all
qed

lemma zero_func_lists: "lf_k zero_func = []" "lf_upvalues zero_func = []"
  by (simp_all add: zero_func_def)

text \<open>The state after a function: its entry is written behind those of the nested functions.\<close>

lemma function_delivered:
  fixes r r2 r3 r4 :: luac_report and e4 :: luf_func
  defines "r5 \<equiv> r4\<lparr>lr_luf_funcs := (lr_luf_funcs r4)(lr_func_count r := e4)\<rparr>"
  assumes c2: "lr_func_count r2 = lr_func_count r + 1" and f2: "lr_luf_funcs r2 = lr_luf_funcs r"
    and a23: "adds (name_data (fn_source f) # concat (map const_strs (fn_consts f)) @ concat (map proto_strs ps)) (proto_codes (LProto f ps))
      (proto_nums vm (LProto f ps)) (concat (map proto_lines ps)) r r3"
    and d3: "delivers vm ps r2 r3" and z3: "\<forall>j\<ge>lr_func_count r3. lr_luf_funcs r3 j = zero_func"
    and js: "list_all2 (\<lambda>d j. d j) (map (tree_at vm (lr_func_count r + 1) r3) ps) js"
    and a4: "adds (map (name_data \<circ> fst) (fn_locvars f) @ map name_data (fn_upnames f)) [] [] [lines_data (fn_lines f)] r3 r4"
    and s4: "same_funcs r3 r4" and g4: "debug_at r4 e4 f" and p4: "lf_p e4 = js" and h4: "head_at vm r2 e4 f"
  shows "delivers vm [LProto f ps] r r5" and "\<forall>j\<ge>lr_func_count r5. lr_luf_funcs r5 j = zero_func"
    and "tree_at vm (lr_func_count r) r5 (LProto f ps) (lr_func_count r)"
proof -
  let ?i = "lr_func_count r"
  have c5: "lr_func_count r5 = ?i + 1 + length (concat (map preorder ps))" and f5: "lr_luf_funcs r5 = (lr_luf_funcs r3)(?i := e4)"
    using s4 d3 c2 by (simp_all add: same_funcs_def r5_def delivers_def)
  have a5: "adds [] [] [] [] r4 r5" by (simp add: adds_def r5_def)
  have a3: "adds (concat (map proto_strs ps)) (concat (map proto_codes ps)) (concat (map (proto_nums vm) ps)) (concat (map proto_lines ps)) r2 r3"
    using d3 by (simp add: delivers_def)
  note a45 = adds_trans [OF a4 a5] and a345 = adds_trans [OF a3 adds_trans [OF a4 a5]]
  have "keeps 0 r r5" unfolding keeps_def c5 f5 using d3 by (auto simp: delivers_def keeps_def c2 f2)
  then show "delivers vm [LProto f ps] r r5" using adds_trans [OF a23 a45] c5 by (simp add: delivers_def)
  show "\<forall>j\<ge>lr_func_count r5. lr_luf_funcs r5 j = zero_func" unfolding c5 f5 using z3 d3 c2 by (simp add: delivers_def)
  have "keeps (?i + 1) r3 r5" unfolding keeps_def c5 f5 using d3 c2 by (simp add: delivers_def)
  then have "tree_at vm ?i r5 p j" if "tree_at vm (?i + 1) r3 p j" for p j using tree_at_keeps [OF that a45] by simp
  then have "list_all2 (\<lambda>d j. d j) (map (tree_at vm ?i r5) ps) js" using js by (simp add: list_all2_conv_all_nth)
  moreover have "fun_at vm r5 e4 f" using head_at_adds [OF h4 a345] debug_at_adds [OF g4 a5] by (simp add: fun_at_def)
  ultimately show "tree_at vm ?i r5 (LProto f ps) ?i" by (simp add: c5 f5 p4)
qed

lemma loads_LProto:
  assumes IH: "\<forall>p \<in> set ps. loads vm al fuel p" and mem: "mem_suffices al"
  shows "loads vm al (Suc fuel) (LProto f ps)"
  unfolding loads_def
proof (intro allI impI)
  fix t r
  assume fit: "fits vm [LProto f ps] r" and z: "\<forall>j\<ge>lr_func_count r. lr_luf_funcs r j = zero_func"
  let ?i = "lr_func_count r" and ?cs = "concat (map const_strs (fn_consts f))"
  let ?body = "enc_len ps @ concat (map enc_proto ps) @ enc_debug f @ t"
  have ok: "fun_ok vm f" and i: "?i < func_size" using fit by (simp_all add: fits_def)
  obtain e2 r2 where h: "load_head vm al zero_func (enc_head f @ ?body, r\<lparr>lr_func_count := ?i + 1\<rparr>) = Some (e2, ?body, r2)"
    and a2: "adds (name_data (fn_source f) # ?cs) [block_data (fn_code f)]
           (concat (map (const_nums vm) (fn_consts f))) [] (r\<lparr>lr_func_count := ?i + 1\<rparr>) r2"
    and s2: "same_funcs (r\<lparr>lr_func_count := ?i + 1\<rparr>) r2" and h2: "head_at vm r2 e2 f"
    by (rule load_head_enc [OF ok mem zero_func_lists fits_head [OF fit, of "?i + 1"]])
  have a2': "adds (name_data (fn_source f) # ?cs) [block_data (fn_code f)] (concat (map (const_nums vm) (fn_consts f))) [] r r2"
    using a2 by (simp add: adds_def)
  have c2: "lr_func_count r2 = ?i + 1" and f2: "lr_luf_funcs r2 = lr_luf_funcs r"
    using s2 by (simp_all add: same_funcs_def)
  obtain js r3 where p: "LoadProtos (LoadFunction fuel vm al) e2 (?body, r2) =
      Some (e2\<lparr>lf_sizep := of_nat (length ps), lf_p := js\<rparr>, enc_debug f @ t, r3)"
    and d3: "delivers vm ps r2 r3" and z3: "\<forall>j\<ge>lr_func_count r3. lr_luf_funcs r3 j = zero_func"
    and js: "list_all2 (\<lambda>d j. d j) (map (tree_at vm (?i + 1) r3) ps) js"
  proof (rule LoadProtos_enc [OF IH fits_nested [OF fit c2 a2']])
    show "?i + 1 \<le> lr_func_count r2" by (simp only: c2)
    show "\<forall>j\<ge>lr_func_count r2. lr_luf_funcs r2 j = zero_func" unfolding c2 f2 using z by (meson add_leD1)
  qed
  from d3 have a3: "adds (concat (map proto_strs ps)) (concat (map proto_codes ps)) (concat (map (proto_nums vm) ps))
      (concat (map proto_lines ps)) r2 r3" by (simp add: delivers_def)
  have a23: "adds (name_data (fn_source f) # ?cs @ concat (map proto_strs ps)) (proto_codes (LProto f ps))
      (proto_nums vm (LProto f ps)) (concat (map proto_lines ps)) r r3"
    using adds_trans [OF a2' a3] by (simp add: proto_parts)
  obtain e4 r4 where d: "LoadDebug al (e2\<lparr>lf_sizep := of_nat (length ps), lf_p := js\<rparr>) (enc_debug f @ t, r3) = Some (e4, t, r4)"
    and a4: "adds (map (name_data \<circ> fst) (fn_locvars f) @ map name_data (fn_upnames f)) [] [] [lines_data (fn_lines f)] r3 r4"
    and s4: "same_funcs r3 r4" and g4: "debug_at r4 e4 f"
    and p4: "lf_p e4 = lf_p (e2\<lparr>lf_sizep := of_nat (length ps), lf_p := js\<rparr>)"
    and h4: "\<forall>r. head_at vm r e4 f = head_at vm r (e2\<lparr>lf_sizep := of_nat (length ps), lf_p := js\<rparr>) f"
    by (rule LoadDebug_enc [OF ok mem fits_debug [OF fit a23 refl refl],
        where e = "e2\<lparr>lf_sizep := of_nat (length ps), lf_p := js\<rparr>" and t = t])
  have "head_at vm r2 e4 f" unfolding h4 [rule_format] using h2 by (simp add: head_at_def)
  note fin = function_delivered [OF c2 f2 a23 d3 z3 js a4 s4 g4 p4 [simplified] this]
  have "lr_luf_funcs r ?i = zero_func" using z by simp
  then have "LoadFunction (Suc fuel) vm al ?i (enc_proto (LProto f ps) @ t, r) =
      Some (t, r4\<lparr>lr_luf_funcs := (lr_luf_funcs r4)(?i := e4)\<rparr>)"
    using i h p d by simp
  with fin show "\<exists>r'. LoadFunction (Suc fuel) vm al ?i (enc_proto (LProto f ps) @ t, r) = Some (t, r') \<and>
      delivers vm [LProto f ps] r r' \<and> (\<forall>j\<ge>lr_func_count r'. lr_luf_funcs r' j = zero_func) \<and>
      tree_at vm ?i r' (LProto f ps) ?i" by blast
qed

section \<open>Chunks\<close>

lemma loads_proto:
  assumes "mem_suffices al" and "length (preorder p) \<le> fuel"
  shows "loads vm al fuel p"
  using assms(2)
proof (induction p arbitrary: fuel)
  case (LProto f ps)
  then obtain k where k: "fuel = Suc k" by (cases fuel) auto
  have "\<forall>p \<in> set ps. loads vm al k p"
  proof
    fix p
    assume p: "p \<in> set ps"
    then have "length (preorder p) \<le> length (concat (map preorder ps))"
      by (metis (no_types, lifting) in_set_conv_decomp concat.simps(2) concat_append length_append
          list.simps(9) map_append le_add1 le_add2 le_trans)
    with LProto.prems k have "length (preorder p) \<le> k" by simp
    with LProto.IH [OF p] show "loads vm al k p" .
  qed
  then show ?case unfolding k by (rule loads_LProto [OF _ assms(1)])
qed

text \<open>A chunk: the header with the version, the sizes and the two test values, the number of upvalues of
  the main function, and the function.\<close>

definition enc_chunk :: "lua_vm \<Rightarrow> byte list \<Rightarrow> byte \<Rightarrow> lproto \<Rightarrow> byte list" where
  "enc_chunk vm num ups p =
     luac_signature @ [0x53, 0x00] @ luac_data_mark @ [4, 4, 4, of_nat (vm_int vm), of_nat (vm_num vm)] @
     le_bytes (vm_int vm) 0x5678 @ num @ [ups] @ enc_proto p"

lemma report_file_chunk:
  assumes "2 \<le> vm_int vm" and "length num = vm_num vm" and "vm_num_ok vm num"
  shows "luadb_do_report_file vm al (enc_chunk vm num ups p @ rest) r =
         do { (_, r) \<leftarrow> LoadFunction func_size vm al 0 (enc_proto p @ rest, r); Some (0, r) }"
proof -
  have "(0x5678 :: nat) < 256 ^ 2" by simp
  also have "\<dots> \<le> 256 ^ vm_int vm" using assms(1) by (intro power_increasing) simp_all
  finally have v: "le_val (le_bytes (vm_int vm) 0x5678) = 0x5678" by simp
  have b: "LoadBlock 4 (a1 # a2 # a3 # a4 # t) = Some ([a1, a2, a3, a4], t)"
    "LoadBlock 2 (a1 # a2 # t) = Some ([a1, a2], t)"
    "LoadBlock 6 (a1 # a2 # a3 # a4 # a5 # a6 # t) = Some ([a1, a2, a3, a4, a5, a6], t)"
    "LoadBlock 5 (a1 # a2 # a3 # a4 # a5 # t) = Some ([a1, a2, a3, a4, a5], t)"
    "LoadBlock (Suc 0) (a1 # t) = Some ([a1], t)" for a1 a2 a3 a4 a5 a6 :: byte and t
    by (simp_all add: LoadBlock_def)
  show ?thesis
    unfolding luadb_do_report_file_def enc_chunk_def
    using assms v by (simp add: b LoadBlock_append)
qed

lemma luac_chunk_loaded:
  assumes "2 \<le> vm_int vm" and "length num = vm_num vm" and "vm_num_ok vm num"
    and "mem_suffices al" and "fits vm [p] zero_report"
  shows "\<exists>r. luadb_do_report_file vm al (enc_chunk vm num ups p @ rest) zero_report = Some (0, r) \<and>
           tree_at vm 0 r p 0 \<and> delivers vm [p] zero_report r"
proof -
  have "length (preorder p) \<le> func_size" using assms(5) by (simp add: fits_def zero_report_def)
  then have "loads vm al func_size p" by (rule loads_proto [OF assms(4)])
  moreover have "\<forall>j\<ge>lr_func_count zero_report. lr_luf_funcs zero_report j = zero_func" and "lr_func_count zero_report = 0"
    by (simp_all add: zero_report_def)
  ultimately obtain r where "LoadFunction func_size vm al 0 (enc_proto p @ rest, zero_report) = Some (rest, r)"
      and d: "delivers vm [p] zero_report r" and t: "tree_at vm 0 r p 0"
    using assms(5) unfolding loads_def by metis
  then have "luadb_do_report_file vm al (enc_chunk vm num ups p @ rest) zero_report = Some (0, r)"
    by (simp add: report_file_chunk [OF assms(1-3)])
  with d t show ?thesis by blast
qed

text \<open>C3: Parsing inverts dumping. For a chunk of a build with matching sizes whose function tree fits
  the tables of a report, and with enough memory, \<open>luadb_do_report_file\<close> returns 0. The table of
  functions then holds the tree from entry 0 on, with all references resolved to the right
  strings, numbers, code and line numbers, and the groups hold the data of all functions in
  the order of the chunk and nothing else.\<close>

theorem luac_roundtrip:
  assumes "2 \<le> vm_int vm" and "length num = vm_num vm" and "vm_num_ok vm num"
    and "mem_suffices al" and "fits vm [p] zero_report"
  shows "\<exists>r. luadb_do_report_file vm al (enc_chunk vm num ups p @ rest) zero_report = Some (0, r) \<and>
           tree_at vm 0 r p 0 \<and> lr_func_count r = length (preorder p) \<and>
           dg_data (lr_strs r) = proto_strs p \<and> dg_data (lr_codes r) = proto_codes p \<and>
           dg_data (lr_numbers r) = proto_nums vm p \<and> dg_data (lr_line_numbers r) = proto_lines p"
  using luac_chunk_loaded [OF assms, of ups rest]
  by (auto simp: delivers_def adds_def zero_report_def zero_group_def)

text \<open>A main function with a nested one, on a build with 32-bit integers and numbers.\<close>

definition demo_vm :: lua_vm where
  "demo_vm = \<lparr>vm_int = 4, vm_num = 4, vm_num_ok = (\<lambda>b. b = [0x00, 0x40, 0xB9, 0x43])\<rparr>"

definition demo_fun :: "byte list \<Rightarrow> lconst list \<Rightarrow> lfun" where
  "demo_fun name cs = \<lparr>fn_source = Some name, fn_line = 0, fn_last = 3, fn_params = 1, fn_vararg = 0, fn_stack = 2,
     fn_code = [0x26, 0x800026], fn_consts = cs, fn_upvals = [(1, 0)], fn_lines = [1, 2],
     fn_locvars = [(Some [0x78], 0, 2)], fn_upnames = [Some [0x5F], None]\<rparr>"

definition demo_proto :: lproto where
  "demo_proto = LProto (demo_fun [0x40, 0x61] [KShr (Some [0x68, 0x69]), KNil, KBool 1])
     [LProto (demo_fun [0x40, 0x62] [KInt [7, 0, 0, 0]]) []]"

lemma demo_fits: "fits demo_vm [demo_proto] zero_report"
  by (simp add: fits_def demo_proto_def demo_fun_def demo_vm_def rooms_def has_room_def zero_report_def zero_group_def
      proto_codes_def proto_nums_def fun_ok_def)

theorem luac_roundtrip_witness:
  "\<exists>r. luadb_do_report_file demo_vm (\<lambda>_ _. True) (enc_chunk demo_vm [0x00, 0x40, 0xB9, 0x43] 1 demo_proto @ [0, 0]) zero_report =
     Some (0, r) \<and> lr_func_count r = 2 \<and> tree_at demo_vm 0 r demo_proto 0 \<and>
     map ld_len (dg_data (lr_strs r)) = [3, 3, 3, 2, 2, 0, 2, 2, 0]"
proof -
  from luac_roundtrip [of demo_vm "[0x00, 0x40, 0xB9, 0x43]" "\<lambda>_ _. True" demo_proto 1 "[0, 0]", OF _ _ _ _ demo_fits]
  obtain r where "luadb_do_report_file demo_vm (\<lambda>_ _. True) (enc_chunk demo_vm [0x00, 0x40, 0xB9, 0x43] 1 demo_proto @ [0, 0]) zero_report =
     Some (0, r)" and "tree_at demo_vm 0 r demo_proto 0" and "lr_func_count r = length (preorder demo_proto)"
     and "dg_data (lr_strs r) = proto_strs demo_proto"
    by (auto simp: demo_vm_def mem_suffices_def)
  then show ?thesis
    by (intro exI [of _ r]) (simp add: demo_proto_def demo_fun_def name_data_def str_data_def)
qed

section \<open>The fuel is enough\<close>

named_theorems count_kept \<open>parts of the parser that make no function\<close>

lemma push_str_count [count_kept]: "push_str v n ty r = Some (i, r') \<Longrightarrow> lr_func_count r' = lr_func_count r"
  by (auto simp: push_str_def bind_eq_Some_conv)

lemma push_number_count [count_kept]: "push_number vm v m ty r = Some (i, r') \<Longrightarrow> lr_func_count r' = lr_func_count r"
  by (auto simp: push_number_def bind_eq_Some_conv)

lemma load_name_count [count_kept]: "load_name al (t, r) = Some (i, t', r') \<Longrightarrow> lr_func_count r' = lr_func_count r"
  by (auto simp: load_name_def bind_eq_Some_conv count_kept)

lemma load_constant_count [count_kept]:
  "load_constant vm al (t, r) = Some (b, x, t', r') \<Longrightarrow> lr_func_count r' = lr_func_count r"
  by (auto simp: load_constant_def bind_eq_Some_conv count_kept split: if_splits)

lemma load_constants_count [count_kept]:
  "load_constants vm al n i ks (t, r) = Some (ks', t', r') \<Longrightarrow> lr_func_count r' = lr_func_count r"
proof (induction n arbitrary: i ks t r)
  case (Suc n)
  from Suc.prems obtain b x t1 r1 where c: "load_constant vm al (t, r) = Some (b, x, t1, r1)"
      and "\<not> b \<and> r' = r1 \<or> load_constants vm al n (Suc i) (ks[i := x]) (t1, r1) = Some (ks', t', r')"
    by (auto simp: bind_eq_Some_conv split: if_splits)
  then show ?case using load_constant_count [OF c] Suc.IH by metis
qed simp

lemma load_locvars_count [count_kept]:
  "load_locvars al n i m (t, r) = Some (vs, t', r') \<Longrightarrow> lr_func_count r' = lr_func_count r"
proof (induction n arbitrary: i t r vs)
  case (Suc n)
  from Suc.prems obtain x t1 r1 t2 vs1 where c: "load_name al (t, r) = Some (x, t1, r1)"
      and "load_locvars al n (Suc i) m (t2, r1) = Some (vs1, t', r')"
    by (auto simp: bind_eq_Some_conv split: if_splits)
  then show ?case using load_name_count [OF c] Suc.IH by metis
qed simp

lemma load_upnames_count [count_kept]:
  "load_upnames al n i m (t, r) = Some (vs, t', r') \<Longrightarrow> lr_func_count r' = lr_func_count r"
proof (induction n arbitrary: i t r vs)
  case (Suc n)
  from Suc.prems obtain x t1 r1 vs1 where c: "load_name al (t, r) = Some (x, t1, r1)"
      and "load_upnames al n (Suc i) m (t1, r1) = Some (vs1, t', r')"
    by (auto simp: bind_eq_Some_conv split: if_splits)
  then show ?case using load_name_count [OF c] Suc.IH by metis
qed simp

lemma load_lines_count [count_kept]:
  "load_lines al n (t, r) = Some (i, t', r') \<Longrightarrow> lr_func_count r' = lr_func_count r"
  by (auto simp: load_lines_def bind_eq_Some_conv Let_def)

lemma LoadDebug_count: "LoadDebug al f (t, r) = Some (f', t', r') \<Longrightarrow> lr_func_count r' = lr_func_count r"
  unfolding LoadDebug_def Let_def prod.case bind_eq_Some_conv
  by (auto simp: bind_eq_Some_conv dest!: count_kept)

lemma LoadConstants_count [count_kept]:
  "LoadConstants vm al f (t, r) = Some (f', t', r') \<Longrightarrow> lr_func_count r' = lr_func_count r"
  by (auto simp: LoadConstants_def Let_def bind_eq_Some_conv count_kept split: if_splits)

lemma load_head_count: "load_head vm al f (t, r) = Some (f', t', r') \<Longrightarrow> lr_func_count r' = lr_func_count r"
  by (auto simp: load_head_def Let_def bind_eq_Some_conv dest!: count_kept)

text \<open>A nested function makes the table longer.\<close>

definition grows :: "(nat \<Rightarrow> tio \<times> luac_report \<Rightarrow> (tio \<times> luac_report) option) \<Rightarrow> bool" where
  "grows load \<longleftrightarrow> (\<forall>i t r t' r'. load i (t, r) = Some (t', r') \<longrightarrow> lr_func_count r < lr_func_count r')"

lemma load_protos_grows:
  "grows load \<Longrightarrow> load_protos load n i ps (t, r) = Some (ps', t', r') \<Longrightarrow> lr_func_count r \<le> lr_func_count r'"
proof (induction n arbitrary: i ps t r)
  case (Suc n)
  from Suc.prems(2) obtain t1 r1 where "load (lr_func_count r) (t, r) = Some (t1, r1)"
      and "load_protos load n (Suc i) (ps @ [lr_func_count r]) (t1, r1) = Some (ps', t', r')"
    by (auto simp: bind_eq_Some_conv Let_def split: if_splits)
  then show ?case using Suc.IH [OF Suc.prems(1)] Suc.prems(1) unfolding grows_def by (meson less_imp_le order_trans)
qed simp

lemma LoadProtos_grows:
  "grows load \<Longrightarrow> LoadProtos load f (t, r) = Some (f', t', r') \<Longrightarrow> lr_func_count r \<le> lr_func_count r'"
  by (auto simp: LoadProtos_def bind_eq_Some_conv dest: load_protos_grows)

lemma LoadFunction_grows: "grows (LoadFunction fuel vm al)"
proof (induction fuel)
  case (Suc fuel)
  show ?case unfolding grows_def
  proof (intro allI impI)
    fix i t r t' r'
    assume "LoadFunction (Suc fuel) vm al i (t, r) = Some (t', r')"
    then show "lr_func_count r < lr_func_count r'"
      by (auto simp: bind_eq_Some_conv split: if_splits
          dest!: load_head_count LoadDebug_count LoadProtos_grows [OF Suc.IH])
  qed
qed (simp add: grows_def)

lemma load_protos_cong:
  assumes "grows load" and "\<And>t r. c \<le> lr_func_count r \<Longrightarrow> load (lr_func_count r) (t, r) = load' (lr_func_count r) (t, r)"
    and "c \<le> lr_func_count r"
  shows "load_protos load n i ps (t, r) = load_protos load' n i ps (t, r)"
  using assms(3)
proof (induction n arbitrary: i ps t r)
  case (Suc n)
  show ?case
  proof (cases "load (lr_func_count r) (t, r)")
    case None
    with assms(2) [OF Suc.prems] show ?thesis by (simp add: Let_def)
  next
    case (Some x)
    obtain t1 r1 where x: "x = (t1, r1)" by (cases x)
    have "lr_func_count r < lr_func_count r1" using assms(1) Some x by (auto simp: grows_def)
    then have "c \<le> lr_func_count r1" using Suc.prems by simp
    from Suc.IH [OF this, of "Suc i" "ps @ [lr_func_count r]" t1] Some x assms(2) [OF Suc.prems, of t] show ?thesis
      by (simp add: Let_def)
  qed
qed simp

text \<open>Every function takes an entry of the table, so that more levels than free entries make no difference.\<close>

lemma LoadFunction_fuel:
  assumes "func_size \<le> fuel + lr_func_count r"
  shows "LoadFunction (fuel + k) vm al (lr_func_count r) (t, r) = LoadFunction fuel vm al (lr_func_count r) (t, r)"
  using assms
proof (induction fuel arbitrary: t r)
  case 0
  then show ?case by (cases k) simp_all
next
  case (Suc fuel)
  have "LoadProtos (LoadFunction (fuel + k) vm al) f (t1, r1) = LoadProtos (LoadFunction fuel vm al) f (t1, r1)"
    if "lr_func_count r1 = lr_func_count r + 1" for f t1 r1
  proof -
    have "load_protos (LoadFunction (fuel + k) vm al) n 0 [] (u, r1) = load_protos (LoadFunction fuel vm al) n 0 [] (u, r1)" for n u
      by (rule load_protos_cong [where c = "lr_func_count r + 1", OF LoadFunction_grows])
        (use Suc.IH Suc.prems that in auto)
    then show ?thesis by (simp add: LoadProtos_def)
  qed
  then have "LoadProtos (LoadFunction (fuel + k) vm al) f (t1, r1) = LoadProtos (LoadFunction fuel vm al) f (t1, r1)"
    if "load_head vm al e (u, r\<lparr>lr_func_count := lr_func_count r + 1\<rparr>) = Some (f, t1, r1)" for e u f t1 r1
    using load_head_count [OF that] by simp
  then show ?case
    by (cases "load_head vm al (lr_luf_funcs r (lr_func_count r)) (t, r\<lparr>lr_func_count := lr_func_count r + 1\<rparr>)") auto
qed

section \<open>Counting distinct blocks\<close>

definition big :: "luac_data \<Rightarrow> bool" where
  "big d \<longleftrightarrow> 2 \<le> ld_len d"

definition block_ok :: "luac_data \<Rightarrow> bool" where
  "block_ok d \<longleftrightarrow> (big d \<longrightarrow> (\<exists>b. ld_data d = DBlock b \<and> length b = ld_len d))"

definition distinct_blocks :: "luac_data list \<Rightarrow> nat" where
  "distinct_blocks ds = card (ld_data ` set (filter big ds))"

lemma same_block_ok:
  "block_ok d \<Longrightarrow> block_ok e \<Longrightarrow> big d \<Longrightarrow> same_block d e = Some (big e \<and> ld_data e = ld_data d)"
  by (auto simp: same_block_def block_ok_def big_def block_of_def peek_def split: luac_value.splits)

lemma seen_before_ok:
  "list_all block_ok es \<Longrightarrow> block_ok d \<Longrightarrow> big d \<Longrightarrow>
   seen_before d es = Some (ld_data d \<in> ld_data ` set (filter big es))"
  by (induction es) (auto simp: same_block_ok)

text \<open>The counters that do not depend on the comparison.\<close>

definition tally :: "luac_data list \<Rightarrow> luac_data_group \<Rightarrow> luac_data_group" where
  "tally ds g = g\<lparr>dg_max_len := foldl max (dg_max_len g) (map ld_len ds),
     dg_total_len := foldl (\<lambda>a n. (a + n) mod 2 ^ 32) (dg_total_len g) (map ld_len ds),
     dg_emtrys := dg_emtrys g + length (filter (Not \<circ> big) ds)\<rparr>"

lemma group_loop_blocks:
  assumes "list_all block_ok (before @ ds)" and "hits = distinct_blocks before"
  shows "group_loop 0 before ds hits g = Some (distinct_blocks (before @ ds), tally ds g)"
  using assms
proof (induction ds arbitrary: before hits g)
  case Nil
  then show ?case by (simp add: tally_def)
next
  case (Cons d ds)
  let ?g = "g\<lparr>dg_max_len := max (dg_max_len g) (ld_len d), dg_total_len := (dg_total_len g + ld_len d) mod 2 ^ 32\<rparr>"
  have ok: "list_all block_ok ((before @ [d]) @ ds)" "list_all block_ok before" "block_ok d" using Cons.prems(1) by simp_all
  have m: "(if ld_len d > dg_max_len g then ld_len d else dg_max_len g) = max (dg_max_len g) (ld_len d)" by simp
  show ?case
  proof (cases "big d")
    case False
    then have "distinct_blocks before = distinct_blocks (before @ [d])" by (simp add: distinct_blocks_def)
    with Cons.IH [OF ok(1)] Cons.prems(2)
    have "group_loop 0 (before @ [d]) ds hits (?g\<lparr>dg_emtrys := dg_emtrys g + 1\<rparr>) =
        Some (distinct_blocks (before @ d # ds), tally ds (?g\<lparr>dg_emtrys := dg_emtrys g + 1\<rparr>))"
      by simp
    moreover have "ld_len d = 0 \<or> ld_len d = 1" using False by (auto simp: big_def)
    ultimately show ?thesis using False m by (simp add: tally_def Let_def)
  next
    case True
    let ?dup = "ld_data d \<in> ld_data ` set (filter big before)"
    have "distinct_blocks (before @ [d]) = (if ?dup then hits else hits + 1)"
      using True Cons.prems(2) by (auto simp: distinct_blocks_def insert_absorb)
    from Cons.IH [OF ok(1) this [symmetric]]
    have "group_loop 0 (before @ [d]) ds (if ?dup then hits else hits + 1) ?g =
        Some (distinct_blocks (before @ d # ds), tally ds ?g)"
      by simp
    moreover have "(if before \<noteq> [] \<and> (0 :: byte) = 0 then seen_before d before else Some False) = Some ?dup"
      using seen_before_ok [OF ok(2,3) True] by simp
    moreover have "\<not> (ld_len d = 0 \<or> ld_len d = 1)" using True by (auto simp: big_def)
    ultimately show ?thesis using True m by (simp add: tally_def Let_def)
  qed
qed

lemma group_loop_marked:
  "m0 \<noteq> 0 \<Longrightarrow> group_loop m0 before ds hits g = Some (hits + length (filter big ds), tally ds g)"
proof (induction ds arbitrary: before hits g)
  case Nil
  then show ?case by (simp add: tally_def)
next
  case (Cons d ds)
  have m: "(if ld_len d > dg_max_len g then ld_len d else dg_max_len g) = max (dg_max_len g) (ld_len d)" by simp
  have "(ld_len d = 0 \<or> ld_len d = 1) \<longleftrightarrow> \<not> big d" by (auto simp: big_def)
  then show ?case using m Cons by (simp add: tally_def Let_def)
qed

lemma do_data_group_report_blocks:
  assumes "list_all block_ok (dg_data g)" and "dg_data g = [] \<or> ld_mark (hd (dg_data g)) = 0"
  shows "do_data_group_report g = Some ((tally (dg_data g) g)\<lparr>dg_uni_count := distinct_blocks (dg_data g)\<rparr>)"
proof -
  have "(case dg_data g of [] \<Rightarrow> 0 | d # _ \<Rightarrow> ld_mark d) = 0" using assms(2) by (cases "dg_data g") simp_all
  with group_loop_blocks [of "[]" "dg_data g" 0 g] assms(1) show ?thesis
    by (simp add: do_data_group_report_def distinct_blocks_def)
qed

lemma do_data_group_report_marked:
  assumes "list_all (\<lambda>d. ld_mark d \<noteq> 0) (dg_data g)"
  shows "\<exists>n. do_data_group_report g = Some ((tally (dg_data g) g)\<lparr>dg_uni_count := n\<rparr>)"
proof (cases "dg_data g")
  case Nil
  then have "do_data_group_report g = Some (g\<lparr>dg_uni_count := 0\<rparr>)" by (simp add: do_data_group_report_def)
  with Nil show ?thesis by (intro exI [of _ 0]) (simp add: tally_def)
next
  case (Cons d ds)
  with assms show ?thesis by (auto simp: do_data_group_report_def group_loop_marked simp del: group_loop.simps)
qed

lemma group_copy_room: "has_room (length ds) g \<Longrightarrow> group_copy ds g = Some (dg_app ds g)"
proof (induction ds arbitrary: g)
  case (Cons d ds)
  then have "group_push d g = Some (dg_app [d] g)" by (intro group_push_app [of "Suc (length ds)"]) simp_all
  with Cons show ?case by simp
qed simp

lemma tally_data [simp]: "dg_data (tally ds g) = dg_data g"
  by (simp add: tally_def)

text \<open>Reports whose groups can be counted, and the execution on one of them.\<close>

definition plain :: "luac_data \<Rightarrow> bool" where
  "plain d \<longleftrightarrow> block_ok d \<and> ld_mark d = 0"

definition countable_report :: "luac_report \<Rightarrow> bool" where
  "countable_report r \<longleftrightarrow> list_all plain (dg_data (lr_strs r)) \<and> list_all plain (dg_data (lr_codes r)) \<and>
     list_all plain (dg_data (lr_line_numbers r)) \<and> list_all (\<lambda>d. ld_mark d \<noteq> 0) (dg_data (lr_numbers r)) \<and>
     dg_data (lr_upvalues r) = []"

lemma report_plain:
  assumes "list_all plain (dg_data g)"
  shows "do_data_group_report g = Some ((tally (dg_data g) g)\<lparr>dg_uni_count := distinct_blocks (dg_data g)\<rparr>)"
proof (rule do_data_group_report_blocks)
  show "list_all block_ok (dg_data g)" using assms by (simp add: plain_def list_all_iff)
  show "dg_data g = [] \<or> ld_mark (hd (dg_data g)) = 0" using assms by (cases "dg_data g") (simp_all add: plain_def)
qed

lemma exec_summary:
  assumes "countable_report r"
  shows "\<exists>r'. luac_data_report_exec r None = Some (r', None) \<and>
           lr_strs r' = (tally (dg_data (lr_strs r)) (lr_strs r))\<lparr>dg_uni_count := distinct_blocks (dg_data (lr_strs r))\<rparr>"
proof -
  note c = assms [unfolded countable_report_def]
  obtain n where "do_data_group_report (lr_numbers r) = Some ((tally (dg_data (lr_numbers r)) (lr_numbers r))\<lparr>dg_uni_count := n\<rparr>)"
    using do_data_group_report_marked c by blast
  moreover have "list_all plain (dg_data (lr_upvalues r))" using c by simp
  ultimately show ?thesis using c by (simp add: luac_data_report_exec_def report_plain Let_def)
qed

lemma exec_adds:
  assumes "countable_report r" and "rooms (length (dg_data (lr_strs r))) (length (dg_data (lr_codes r)))
      (length (dg_data (lr_numbers r))) (length (dg_data (lr_line_numbers r))) w"
  shows "\<exists>r' w'. luac_data_report_exec r (Some w) = Some (r', Some w') \<and>
           adds (dg_data (lr_strs r)) (dg_data (lr_codes r)) (dg_data (lr_numbers r)) (dg_data (lr_line_numbers r)) w w'"
proof -
  note c = assms(1) [unfolded countable_report_def]
  obtain n where "do_data_group_report (lr_numbers r) = Some ((tally (dg_data (lr_numbers r)) (lr_numbers r))\<lparr>dg_uni_count := n\<rparr>)"
    using do_data_group_report_marked c by blast
  moreover have "list_all plain (dg_data (lr_upvalues r))" using c by simp
  ultimately show ?thesis
    using c assms(2)
    by (simp add: luac_data_report_exec_def report_plain Let_def luac_data_group_add_def group_copy_room rooms_def adds_def)
qed

definition all_data :: "(luac_report \<Rightarrow> luac_data_group) \<Rightarrow> luac_report list \<Rightarrow> luac_data list" where
  "all_data grp rs = concat (map (dg_data \<circ> grp) rs)"

lemma all_data_simps [simp]: "all_data grp [] = []" "all_data grp (r # rs) = dg_data (grp r) @ all_data grp rs"
  by (simp_all add: all_data_def)

lemma sum_reports_adds:
  assumes "list_all countable_report rs"
    and "rooms (length (all_data lr_strs rs)) (length (all_data lr_codes rs)) (length (all_data lr_numbers rs))
           (length (all_data lr_line_numbers rs)) w"
  shows "\<exists>w'. sum_reports (map Some rs) w = Some w' \<and>
           adds (all_data lr_strs rs) (all_data lr_codes rs) (all_data lr_numbers rs) (all_data lr_line_numbers rs) w w'"
  using assms
proof (induction rs arbitrary: w)
  case Nil
  then show ?case by (simp add: adds_refl)
next
  case (Cons r rs)
  have "rooms (length (dg_data (lr_strs r))) (length (dg_data (lr_codes r))) (length (dg_data (lr_numbers r)))
      (length (dg_data (lr_line_numbers r))) w"
    using Cons.prems(2) by (rule rooms_mono) simp_all
  with exec_adds [of r w] Cons.prems(1) obtain r' w1 where e: "luac_data_report_exec r (Some w) = Some (r', Some w1)"
      and a: "adds (dg_data (lr_strs r)) (dg_data (lr_codes r)) (dg_data (lr_numbers r)) (dg_data (lr_line_numbers r)) w w1"
    by auto
  have "rooms (length (all_data lr_strs rs)) (length (all_data lr_codes rs)) (length (all_data lr_numbers rs))
           (length (all_data lr_line_numbers rs)) w1"
    using Cons.prems(2) by (simp add: rooms_adds [OF a])
  with Cons.IH [of w1] Cons.prems(1) obtain w2 where "sum_reports (map Some rs) w1 = Some w2" and
      "adds (all_data lr_strs rs) (all_data lr_codes rs) (all_data lr_numbers rs) (all_data lr_line_numbers rs) w1 w2"
    by auto
  with e adds_trans [OF a] show ?case by auto
qed

lemma countable_adds:
  assumes "list_all countable_report rs" and "countable_report w"
    and "adds (all_data lr_strs rs) (all_data lr_codes rs) (all_data lr_numbers rs) (all_data lr_line_numbers rs) w w'"
  shows "countable_report w'"
  using assms by (auto simp: adds_def countable_report_def all_data_def list_all_iff)

section \<open>The report on an image of scripts\<close>

lemma proto_strs_plain: "list_all plain (proto_strs p)"
proof (induction p)
  case (LProto f ps)
  have s: "plain (str_data ty x)" for ty x
    by (cases x) (auto simp: plain_def block_ok_def str_data_def big_def)
  have "plain d" if "d \<in> set (const_strs c)" for c d
    using that s by (cases c) auto
  with LProto s show ?case by (auto simp: list_all_iff name_data_def)
qed

lemma block_data_plain: "plain (block_data xs)"
  by (simp add: plain_def block_ok_def block_data_def)

lemma proto_lines_plain: "list_all plain (proto_lines p)"
proof (induction p)
  case (LProto f ps)
  have "plain (lines_data xs)" for xs
    by (simp add: lines_data_def block_data_plain) (simp add: plain_def block_ok_def big_def)
  with LProto show ?case by (auto simp: list_all_iff)
qed

lemma proto_nums_marked: "list_all (\<lambda>d. ld_mark d \<noteq> 0) (proto_nums vm p)"
proof -
  have "ld_mark d \<noteq> 0" if "d \<in> set (const_nums vm c)" for c d
    using that by (cases c) (auto simp: num_data_def)
  then show ?thesis by (auto simp: list_all_iff proto_nums_def)
qed

definition script_file :: "lua_vm \<Rightarrow> byte list \<Rightarrow> string \<times> lproto \<times> byte list \<Rightarrow> luadb_file" where
  "script_file vm num x = \<lparr>lb_name = fst x, lb_mem = enc_chunk vm num 1 (fst (snd x)) @ snd (snd x)\<rparr>"

definition script_ok :: "lua_vm \<Rightarrow> string \<times> lproto \<times> byte list \<Rightarrow> bool" where
  "script_ok vm x \<longleftrightarrow> length (fst x) \<le> 32 \<and> is_script (fst x) = Some True \<and> fits vm [fst (snd x)] zero_report"

lemma report_file_script:
  assumes "2 \<le> vm_int vm" and "length num = vm_num vm" and "vm_num_ok vm num" and "mem_suffices al" and "script_ok vm x"
  shows "\<exists>r. report_file vm al (script_file vm num x) = Some (Some r) \<and> countable_report r \<and>
           dg_data (lr_strs r) = proto_strs (fst (snd x)) \<and> dg_data (lr_codes r) = proto_codes (fst (snd x)) \<and>
           dg_data (lr_numbers r) = proto_nums vm (fst (snd x)) \<and> dg_data (lr_line_numbers r) = proto_lines (fst (snd x))"
proof -
  let ?p = "fst (snd x)"
  have fit: "fits vm [?p] zero_report" using assms(5) by (simp add: script_ok_def)
  obtain r where l: "luadb_do_report_file vm al (enc_chunk vm num 1 ?p @ snd (snd x)) zero_report = Some (0, r)"
    and d: "delivers vm [?p] zero_report r"
    using luac_chunk_loaded [OF assms(1-4) fit] by blast
  have "countable_report r"
    using d proto_strs_plain proto_lines_plain proto_nums_marked block_data_plain
    by (auto simp: delivers_def adds_def countable_report_def zero_report_def zero_group_def proto_codes_def list_all_iff)
  with l d assms(5) show ?thesis
    by (auto simp: report_file_def script_file_def script_ok_def delivers_def adds_def zero_report_def zero_group_def)
qed

lemma report_files_scripts:
  assumes "2 \<le> vm_int vm" and "length num = vm_num vm" and "vm_num_ok vm num" and "mem_suffices al"
    and "list_all (script_ok vm) xs"
  shows "\<exists>rs. report_files vm al (map (script_file vm num) xs) = Some (map Some rs) \<and> list_all countable_report rs \<and>
           all_data lr_strs rs = concat (map (proto_strs \<circ> fst \<circ> snd) xs) \<and>
           all_data lr_codes rs = concat (map (proto_codes \<circ> fst \<circ> snd) xs) \<and>
           all_data lr_numbers rs = concat (map (proto_nums vm \<circ> fst \<circ> snd) xs) \<and>
           all_data lr_line_numbers rs = concat (map (proto_lines \<circ> fst \<circ> snd) xs)"
  using assms(5)
proof (induction xs)
  case Nil
  then show ?case by (intro exI [of _ "[]"]) simp
next
  case (Cons x xs)
  then obtain rs where "report_files vm al (map (script_file vm num) xs) = Some (map Some rs)"
      and "list_all countable_report rs" and "all_data lr_strs rs = concat (map (proto_strs \<circ> fst \<circ> snd) xs)"
      and "all_data lr_codes rs = concat (map (proto_codes \<circ> fst \<circ> snd) xs)"
      and "all_data lr_numbers rs = concat (map (proto_nums vm \<circ> fst \<circ> snd) xs)"
      and "all_data lr_line_numbers rs = concat (map (proto_lines \<circ> fst \<circ> snd) xs)"
    unfolding list.pred_inject by blast
  moreover obtain r where "report_file vm al (script_file vm num x) = Some (Some r)" and "countable_report r"
      and "dg_data (lr_strs r) = proto_strs (fst (snd x))" and "dg_data (lr_codes r) = proto_codes (fst (snd x))"
      and "dg_data (lr_numbers r) = proto_nums vm (fst (snd x))" and "dg_data (lr_line_numbers r) = proto_lines (fst (snd x))"
    using report_file_script [OF assms(1-4), of x] Cons.prems unfolding list.pred_inject by blast
  ultimately show ?case by (intro exI [of _ "r # rs"]) (simp add: comp_def)
qed



end
