(* ===== verification/Net_Libuv.thy ===== *)
theory Net_Libuv
  imports Msgbus_Pc
begin

text \<open>
  The network adapter of \<open>port/network/luat_network_adapter_libuv.c\<close>: the socket table, the
  operations that the network core calls through \<open>prv_libuv_adapter\<close>, and the callbacks
  that libuv runs. libuv and the allocator are outside of the repository: a record \<open>nenv\<close>
  says for each call in turn whether an allocation succeeds and what libuv returns, and
  the calls into libuv are recorded in order. A callback of libuv (connection made, data
  received, data sent, shut down) is a function that the environment may call.
\<close>

section \<open>Data\<close>

datatype sc_state = SC_IDLE | SC_USED | SC_CONNECTING | SC_CONNECTED | SC_CLOSING | SC_CLOSED

record uv_udp_data =
  ud_ip :: u32
  ud_port :: u16
  ud_data :: "byte list"

text \<open>A socket. The linked list of received datagrams is the list \<open>uc_udp_data\<close>, oldest first;
  \<open>uc_recv_size\<close> is kept beside the buffer as in the code.\<close>

record uv_conn =
  uc_state :: sc_state
  uc_tag :: u64
  uc_param :: u32
  uc_recv_buff :: "byte list option"
  uc_recv_size :: nat
  uc_udp_data :: "uv_udp_data list"
  uc_is_ipv6 :: bool
  uc_is_tcp :: bool

text \<open>Events for the network task. All but the first come after \<open>EV_NW_DNS_RESULT\<close> in the
  enumeration of the core.\<close>

datatype nw_event = EV_NW_DNS_RESULT | EV_NW_SOCKET_TX_OK | EV_NW_SOCKET_RX_NEW | EV_NW_SOCKET_CLOSE_OK
  | EV_NW_SOCKET_REMOTE_CLOSE | EV_NW_SOCKET_CONNECT_OK | EV_NW_SOCKET_ERROR

record os_event =
  oe_id :: nw_event
  oe_param1 :: nat
  oe_param2 :: nat
  oe_param3 :: u32
  oe_tag :: u64

datatype uv_net_call = TcpInit nat | TcpKeepalive nat | UdpInit nat | TcpConnect nat u32 u16 | UdpBind nat u16
  | NwAsyncInit | NwAsyncSend | ReadStart nat | UdpRecvStart nat | ConnectAsyncInit nat | ConnectAsyncSend nat
  | Shutdown nat | UdpRecvStop nat | CloseAsyncInit nat | CloseAsyncSend nat | Write nat "byte list"
  | UdpSend nat u32 u16 "byte list" | GetAddrInfo "byte list" | IpTimerInit | IpTimerStart nat

record net =
  ns_sockets :: "uv_conn list"
  ns_tag_counter :: u64
  ns_next_index :: byte
  ns_events :: "os_event list"
  ns_lost :: "uv_udp_data list"
  ns_calls :: "uv_net_call list"
  ns_tick :: nat
  ns_socket_cb :: "u32 option"
  ns_user_data :: u32

abbreviation max_sock_num :: nat where
  "max_sock_num \<equiv> 8"

text \<open>The static data as it starts out.\<close>

definition net_start :: net where
  "net_start = \<lparr>ns_sockets = replicate max_sock_num \<lparr>uc_state = SC_IDLE, uc_tag = 0, uc_param = 0,
       uc_recv_buff = None, uc_recv_size = 0, uc_udp_data = [], uc_is_ipv6 = False, uc_is_tcp = False\<rparr>,
     ns_tag_counter = 0xFAFB, ns_next_index = 0, ns_events = [], ns_lost = [], ns_calls = [], ns_tick = 0,
     ns_socket_cb = None, ns_user_data = 0\<rparr>"

record nenv =
  en_mem :: "nat \<Rightarrow> bool"
  en_ret :: "nat \<Rightarrow> int"

definition heap_alloc :: "nenv \<Rightarrow> net \<Rightarrow> bool \<times> net" where
  "heap_alloc env s = (en_mem env (ns_tick s), s\<lparr>ns_tick := ns_tick s + 1\<rparr>)"

definition uv_do :: "nenv \<Rightarrow> uv_net_call \<Rightarrow> net \<Rightarrow> int \<times> net" where
  "uv_do env c s = (en_ret env (ns_tick s), s\<lparr>ns_tick := ns_tick s + 1, ns_calls := ns_calls s @ [c]\<rparr>)"

definition sock :: "net \<Rightarrow> nat \<Rightarrow> uv_conn option" where
  "sock s i = (if i < length (ns_sockets s) then Some (ns_sockets s ! i) else None)"

definition upd_sock :: "nat \<Rightarrow> (uv_conn \<Rightarrow> uv_conn) \<Rightarrow> net \<Rightarrow> net" where
  "upd_sock i f s = s\<lparr>ns_sockets := (ns_sockets s)[i := f (ns_sockets s ! i)]\<rparr>"

definition htons :: "u16 \<Rightarrow> u16" where
  "htons p = push_bit 8 p OR drop_bit 8 p"

section \<open>Checks and events\<close>

text \<open>The macro \<open>CHECK_SOCKET_ID\<close>: the socket, if the call may go on.\<close>

definition check_socket_id :: "int \<Rightarrow> u64 \<Rightarrow> net \<Rightarrow> nat option" where
  "check_socket_id socket_id tag s =
     (if socket_id < 0 \<or> int (length (ns_sockets s)) \<le> socket_id then None
      else let c = ns_sockets s ! nat socket_id in
           if uc_tag c = 0 \<or> uc_state c = SC_CLOSED then None
           else if uc_tag c \<noteq> tag then None
           else Some (nat socket_id))"

definition set_socket_state :: "nat \<Rightarrow> sc_state \<Rightarrow> net \<Rightarrow> net" where
  "set_socket_state i st s = (if length (ns_sockets s) \<le> i then s else upd_sock i (uc_state_update (\<lambda>_. st)) s)"

definition cb_to_nw_task :: "nenv \<Rightarrow> nw_event \<Rightarrow> nat \<Rightarrow> nat \<Rightarrow> u32 \<Rightarrow> net \<Rightarrow> net option" where
  "cb_to_nw_task env ev param1 param2 param3 s =
     (let (ok, s1) = heap_alloc env s in
      if \<not> ok then Some s1
      else let (ok2, s2) = heap_alloc env s1 in
      if \<not> ok2 then None
      else let (ret, s3) = uv_do env NwAsyncInit s2 in
      if ret \<noteq> 0 then Some s3
      else do { (p3, tag) \<leftarrow> (if ev \<noteq> EV_NW_DNS_RESULT
                              then do { c \<leftarrow> sock s3 param1; Some (uc_param c, uc_tag c) }
                              else Some (param3, 0));
                let (_, s4) = uv_do env NwAsyncSend s3;
                Some (s4\<lparr>ns_events := ns_events s4 @ [\<lparr>oe_id = ev, oe_param1 = param1, oe_param2 = param2,
                                                        oe_param3 = p3, oe_tag = tag\<rparr>]\<rparr>) })"

definition libuv_socket_check :: "int \<Rightarrow> u64 \<Rightarrow> net \<Rightarrow> int" where
  "libuv_socket_check socket_id tag s =
     (if socket_id < 0 \<or> int (length (ns_sockets s)) \<le> socket_id then -1
      else if uc_tag (ns_sockets s ! nat socket_id) = tag then 0 else -1)"

definition libuv_check_ready :: "net \<Rightarrow> nat" where
  "libuv_check_ready s = 1"

section \<open>Creating and connecting\<close>

definition socket_free :: "uv_conn \<Rightarrow> bool" where
  "socket_free c \<longleftrightarrow> uc_tag c = 0 \<and> (uc_state c = SC_IDLE \<or> uc_state c = SC_CLOSED)"

definition claim_socket :: "nenv \<Rightarrow> bool \<Rightarrow> u64 \<Rightarrow> u32 \<Rightarrow> bool \<Rightarrow> nat \<Rightarrow> net \<Rightarrow> net" where
  "claim_socket env is_tcp stag param is_ipv6 i s =
     (let s1 = (if is_tcp then snd (uv_do env (TcpKeepalive i) (snd (uv_do env (TcpInit i) s)))
                else snd (uv_do env (UdpInit i) s));
          s2 = upd_sock i (\<lambda>c. c\<lparr>uc_tag := stag, uc_param := param, uc_is_tcp := is_tcp, uc_is_ipv6 := is_ipv6\<rparr>) s1
      in (set_socket_state i SC_USED s2)\<lparr>ns_next_index := of_nat (i + 1)\<rparr>)"

text \<open>The search starts at \<open>next_socket_index\<close> and goes round the table once.\<close>

fun create_scan :: "nenv \<Rightarrow> bool \<Rightarrow> u64 \<Rightarrow> u32 \<Rightarrow> bool \<Rightarrow> nat list \<Rightarrow> net \<Rightarrow> int \<times> net" where
  "create_scan env is_tcp stag param is_ipv6 [] s = (-1, s)"
| "create_scan env is_tcp stag param is_ipv6 (iz # izs) s =
     (let tmpi = (iz + unat (ns_next_index s)) mod length (ns_sockets s) in
      if socket_free (ns_sockets s ! tmpi) then (int tmpi, claim_socket env is_tcp stag param is_ipv6 tmpi s)
      else create_scan env is_tcp stag param is_ipv6 izs s)"

definition libuv_create_socket :: "nenv \<Rightarrow> bool \<Rightarrow> u32 \<Rightarrow> bool \<Rightarrow> net \<Rightarrow> int \<times> u64 \<times> net" where
  "libuv_create_socket env is_tcp param is_ipv6 s =
     (let stag = ns_tag_counter s;
          s1 = s\<lparr>ns_tag_counter := ns_tag_counter s + 1\<rparr>;
          (r, s2) = create_scan env is_tcp stag param is_ipv6 [0..<length (ns_sockets s)] s1
      in (r, stag, s2))"

definition on_connect :: "nenv \<Rightarrow> nat \<Rightarrow> int \<Rightarrow> net \<Rightarrow> net option" where
  "on_connect env i status s =
     (if status \<noteq> 0 then cb_to_nw_task env EV_NW_SOCKET_ERROR i 0 0 (set_socket_state i SC_CLOSED s)
      else do { s1 \<leftarrow> cb_to_nw_task env EV_NW_SOCKET_CONNECT_OK i 0 0 (set_socket_state i SC_CONNECTED s);
                c \<leftarrow> sock s1 i;
                Some (if uc_is_tcp c then snd (uv_do env (ReadStart i) s1)
                      else snd (uv_do env (UdpRecvStart i) s1)) })"

definition udp_connect_async :: "nenv \<Rightarrow> nat \<Rightarrow> net \<Rightarrow> net option" where
  "udp_connect_async env i s = on_connect env i 0 s"

definition libuv_socket_connect :: "nenv \<Rightarrow> int \<Rightarrow> u64 \<Rightarrow> u16 \<Rightarrow> u32 \<Rightarrow> u16 \<Rightarrow> net \<Rightarrow> (int \<times> net) option" where
  "libuv_socket_connect env socket_id tag local_port remote_ip remote_port s =
     (case check_socket_id socket_id tag s of None \<Rightarrow> Some (-1, s)
      | Some i \<Rightarrow>
          if uc_is_tcp (ns_sockets s ! i)
          then let (ret, s1) = uv_do env (TcpConnect i remote_ip (htons remote_port)) s
               in Some (ret, if ret \<noteq> 0 then s1 else set_socket_state i SC_CONNECTING s1)
          else let s1 = (if local_port \<noteq> 0 then snd (uv_do env (UdpBind i (htons local_port)) s) else s);
                   (ok, s2) = heap_alloc env s1
               in if \<not> ok then None
                  else let (_, s3) = uv_do env (ConnectAsyncInit i) s2;
                           (ret, s4) = uv_do env (ConnectAsyncSend i) s3
                       in Some (ret, if ret \<noteq> 0 then s4 else set_socket_state i SC_CONNECTING s4))"

definition libuv_socket_listen :: "int \<Rightarrow> u64 \<Rightarrow> u16 \<Rightarrow> net \<Rightarrow> int \<times> net" where
  "libuv_socket_listen socket_id tag local_port s = (-1, s)"

definition libuv_socket_accept :: "int \<Rightarrow> u64 \<Rightarrow> net \<Rightarrow> int \<times> net" where
  "libuv_socket_accept socket_id tag s = (-1, s)"

section \<open>Receiving callbacks\<close>

text \<open>\<open>uv_buf_alloc\<close> gives libuv a buffer of the suggested size, or none.\<close>

definition uv_buf_alloc :: "nenv \<Rightarrow> nat \<Rightarrow> net \<Rightarrow> nat \<times> net" where
  "uv_buf_alloc env n s = (let (ok, s1) = heap_alloc env s in (if ok then n else 0, s1))"

text \<open>What libuv reports: an error, end of file, or the bytes it has read (possibly none).\<close>

datatype nread = ReadError int | ReadEof | ReadData "byte list"

definition on_recv :: "nenv \<Rightarrow> nat \<Rightarrow> nread \<Rightarrow> net \<Rightarrow> net option" where
  "on_recv env i r s =
     do { c \<leftarrow> sock s i;
          (case r of
             ReadError e \<Rightarrow>
               if uc_state c = SC_CLOSED then Some s
               else cb_to_nw_task env EV_NW_SOCKET_ERROR i 0 (uc_param c) (set_socket_state i SC_CLOSING s)
           | ReadEof \<Rightarrow>
               if uc_state c = SC_CLOSED then Some s
               else if uc_state c \<noteq> SC_CLOSING \<and> uc_state c \<noteq> SC_CLOSED
               then cb_to_nw_task env EV_NW_SOCKET_REMOTE_CLOSE i 0 (uc_param c) (set_socket_state i SC_CLOSING s)
               else Some s
           | ReadData bs \<Rightarrow>
               if bs = [] then Some s
               else let (ok, s1) = heap_alloc env s in
               (case uc_recv_buff c of
                  None \<Rightarrow>
                    if \<not> ok then None
                    else cb_to_nw_task env EV_NW_SOCKET_RX_NEW i (length bs) (uc_param c)
                           (upd_sock i (\<lambda>c. c\<lparr>uc_recv_buff := Some bs, uc_recv_size := length bs\<rparr>) s1)
                | Some old \<Rightarrow>
                    if \<not> ok then cb_to_nw_task env EV_NW_SOCKET_ERROR i 0 (uc_param c) s1
                    else do { _ \<leftarrow> peek 0 (uc_recv_size c) old;
                              cb_to_nw_task env EV_NW_SOCKET_RX_NEW i (length bs) (uc_param c)
                                (upd_sock i (\<lambda>c. c\<lparr>uc_recv_buff := Some (take (uc_recv_size c) old @ bs),
                                                 uc_recv_size := uc_recv_size c + length bs\<rparr>) s1) })) }"

text \<open>\<open>addr\<close> is the sender, with its port in network byte order, when libuv knows it.\<close>

definition on_recv_udp :: "nenv \<Rightarrow> nat \<Rightarrow> nread \<Rightarrow> (u32 \<times> u16) option \<Rightarrow> net \<Rightarrow> net option" where
  "on_recv_udp env i r addr s =
     do { c \<leftarrow> sock s i;
          (case r of
             ReadError e \<Rightarrow> Some s
           | ReadEof \<Rightarrow> Some s
           | ReadData bs \<Rightarrow>
               if bs = [] then Some s
               else let (ok, s1) = heap_alloc env s in
               if \<not> ok then Some s1
               else let d = (case addr of None \<Rightarrow> \<lparr>ud_ip = 0, ud_port = 0, ud_data = bs\<rparr>
                             | Some (ip, port) \<Rightarrow> \<lparr>ud_ip = ip, ud_port = port, ud_data = bs\<rparr>)
                    in cb_to_nw_task env EV_NW_SOCKET_RX_NEW i (length bs) (uc_param c)
                         (upd_sock i (\<lambda>c. c\<lparr>uc_udp_data := uc_udp_data c @ [d]\<rparr>) s1)) }"

section \<open>Closing\<close>

definition on_close :: "nenv \<Rightarrow> nat \<Rightarrow> net \<Rightarrow> net option" where
  "on_close env i s =
     (if length (ns_sockets s) \<le> i then Some s
      else let c = ns_sockets s ! i in
           if uc_tag c = 0 \<or> uc_state c = SC_CLOSED
           then Some (upd_sock i (uc_tag_update (\<lambda>_. 0)) s)
           else do { s1 \<leftarrow> cb_to_nw_task env EV_NW_SOCKET_CLOSE_OK i 0 (uc_param c) (set_socket_state i SC_CLOSED s);
                     Some (upd_sock i (uc_tag_update (\<lambda>_. 0)) s1) })"

definition on_shutdown :: "nenv \<Rightarrow> nat \<Rightarrow> net \<Rightarrow> net option" where
  "on_shutdown env i s =
     (if length (ns_sockets s) \<le> i then Some s
      else let c = ns_sockets s ! i in
           if uc_tag c = 0 \<or> uc_state c = SC_CLOSED then Some s
           else do { s1 \<leftarrow> cb_to_nw_task env EV_NW_SOCKET_CLOSE_OK i 0 (uc_param c) (set_socket_state i SC_CLOSED s);
                     Some (upd_sock i (uc_tag_update (\<lambda>_. 0)) s1) })"

definition udp_async_close :: "nenv \<Rightarrow> nat \<Rightarrow> net \<Rightarrow> net option" where
  "udp_async_close env i s = on_close env i s"

definition close_socket :: "nenv \<Rightarrow> nat \<Rightarrow> net \<Rightarrow> (int \<times> net) option" where
  "close_socket env i s =
     (if uc_is_tcp (ns_sockets s ! i)
      then let (ok, s1) = heap_alloc env s in
           if \<not> ok then None
           else let (ret, s2) = uv_do env (Shutdown i) s1
                in Some (ret, if ret \<noteq> 0 then set_socket_state i SC_CLOSED s2 else s2)
      else let (_, s1) = uv_do env (UdpRecvStop i) s;
               (ok, s2) = heap_alloc env s1 in
           if \<not> ok then None
           else let (_, s3) = uv_do env (CloseAsyncInit i) s2;
                    (ret, s4) = uv_do env (CloseAsyncSend i) s3
                in Some (ret, if ret \<noteq> 0 then set_socket_state i SC_CLOSED s4 else s4))"

definition libuv_socket_disconnect :: "nenv \<Rightarrow> int \<Rightarrow> u64 \<Rightarrow> net \<Rightarrow> (int \<times> net) option" where
  "libuv_socket_disconnect env socket_id tag s =
     (case check_socket_id socket_id tag s of None \<Rightarrow> Some (-1, s)
      | Some i \<Rightarrow> if uc_state (ns_sockets s ! i) = SC_CLOSED then Some (0, s) else close_socket env i s)"

definition libuv_socket_force_close :: "nenv \<Rightarrow> int \<Rightarrow> net \<Rightarrow> (int \<times> net) option" where
  "libuv_socket_force_close env socket_id s =
     (if socket_id < 0 \<or> int (length (ns_sockets s)) \<le> socket_id then Some (-1, s)
      else let i = nat socket_id; c = ns_sockets s ! i in
           if uc_tag c = 0 \<or> uc_state c = SC_CLOSED then Some (0, s)
           else do { (_, s1) \<leftarrow> close_socket env i s; Some (0, upd_sock i (uc_tag_update (\<lambda>_. 0)) s1) })"

definition libuv_socket_close :: "nenv \<Rightarrow> int \<Rightarrow> u64 \<Rightarrow> net \<Rightarrow> (int \<times> net) option" where
  "libuv_socket_close env socket_id tag s =
     (case check_socket_id socket_id tag s of None \<Rightarrow> Some (-1, s)
      | Some i \<Rightarrow>
          let c = ns_sockets s ! i in
          if uc_tag c = 0 \<or> uc_state c = SC_CLOSED then Some (0, s) else close_socket env i s)"

section \<open>Receiving and sending\<close>

text \<open>The result of \<open>libuv_socket_receive\<close>: the return value, the bytes copied to the caller's
  buffer (\<open>has_buf\<close> says whether there is one), and the sender of a datagram.\<close>

record recv_result =
  rr_ret :: nat
  rr_data :: "byte list"
  rr_remote :: "(u32 \<times> u16) option"

abbreviation recv_n :: "nat \<Rightarrow> recv_result" where
  "recv_n n \<equiv> \<lparr>rr_ret = n, rr_data = [], rr_remote = None\<rparr>"

definition receive_tcp :: "nenv \<Rightarrow> nat \<Rightarrow> bool \<Rightarrow> nat \<Rightarrow> net \<Rightarrow> (recv_result \<times> net) option" where
  "receive_tcp env i has_buf len s =
     (let c = ns_sockets s ! i in
      if \<not> has_buf then Some (recv_n (uc_recv_size c), s)
      else if uc_recv_size c = 0 \<and> 0 < len then Some (recv_n 0, s)
      else do { let n = min len (uc_recv_size c);
                data \<leftarrow> (case uc_recv_buff c of None \<Rightarrow> if n = 0 then Some [] else None | Some b \<Rightarrow> peek 0 n b);
                let newsize = uc_recv_size c - n;
                s' \<leftarrow> (if newsize = 0
                       then Some (upd_sock i (\<lambda>c. c\<lparr>uc_recv_buff := None, uc_recv_size := 0\<rparr>) s)
                       else do { let (ok, s1) = heap_alloc env s;
                                 b \<leftarrow> uc_recv_buff c;
                                 rest \<leftarrow> (if ok then peek n newsize b else None);
                                 Some (upd_sock i (\<lambda>c. c\<lparr>uc_recv_buff := Some rest, uc_recv_size := newsize\<rparr>) s1) });
                Some (\<lparr>rr_ret = n, rr_data = data, rr_remote = None\<rparr>, s') })"

text \<open>A datagram that was read is unlinked and not freed.\<close>

definition receive_udp :: "nat \<Rightarrow> bool \<Rightarrow> nat \<Rightarrow> net \<Rightarrow> (recv_result \<times> net) option" where
  "receive_udp i has_buf len s =
     (let c = ns_sockets s ! i in
      if \<not> has_buf then Some (recv_n (case uc_udp_data c of [] \<Rightarrow> 0 | d # _ \<Rightarrow> length (ud_data d)), s)
      else if len = 0 then Some (recv_n 0, s)
      else (case uc_udp_data c of [] \<Rightarrow> None
            | d # ds \<Rightarrow>
                let n = min len (length (ud_data d)) in
                Some (\<lparr>rr_ret = n, rr_data = take n (ud_data d), rr_remote = Some (ud_ip d, htons (ud_port d))\<rparr>,
                      (upd_sock i (\<lambda>c. c\<lparr>uc_udp_data := ds\<rparr>) s)\<lparr>ns_lost := ns_lost s @ [d]\<rparr>)))"

definition libuv_socket_receive ::
    "nenv \<Rightarrow> int \<Rightarrow> u64 \<Rightarrow> bool \<Rightarrow> nat \<Rightarrow> net \<Rightarrow> (recv_result option \<times> net) option" where
  "libuv_socket_receive env socket_id tag has_buf len s =
     (case check_socket_id socket_id tag s of None \<Rightarrow> Some (None, s)
      | Some i \<Rightarrow>
          do { (r, s') \<leftarrow> (if uc_is_tcp (ns_sockets s ! i) then receive_tcp env i has_buf len s
                          else receive_udp i has_buf len s);
               Some (Some r, s') })"

definition on_sent :: "nenv \<Rightarrow> nat \<Rightarrow> nat \<Rightarrow> int \<Rightarrow> net \<Rightarrow> net option" where
  "on_sent env i len status s =
     do { c \<leftarrow> sock s i;
          if status = 0 then cb_to_nw_task env EV_NW_SOCKET_TX_OK i len (uc_param c) s
          else cb_to_nw_task env EV_NW_SOCKET_ERROR i 0 (uc_param c) s }"

definition on_sent_udp :: "nenv \<Rightarrow> nat \<Rightarrow> nat \<Rightarrow> int \<Rightarrow> net \<Rightarrow> net option" where
  "on_sent_udp env i len status s =
     do { c \<leftarrow> sock s i;
          if status = 0 then cb_to_nw_task env EV_NW_SOCKET_TX_OK i len (uc_param c) s
          else cb_to_nw_task env EV_NW_SOCKET_ERROR i 0 (uc_param c) s }"

definition libuv_socket_send ::
    "nenv \<Rightarrow> int \<Rightarrow> u64 \<Rightarrow> byte list \<Rightarrow> u32 \<Rightarrow> u16 \<Rightarrow> net \<Rightarrow> (int \<times> net) option" where
  "libuv_socket_send env socket_id tag buf remote_ip remote_port s =
     (case check_socket_id socket_id tag s of None \<Rightarrow> Some (-1, s)
      | Some i \<Rightarrow>
          let c = ns_sockets s ! i in
          if length buf = 0 then Some (0, s)
          else if uc_state c \<noteq> SC_CONNECTED then Some (-1, s)
          else let (ok, s1) = heap_alloc env s in
               if \<not> ok then None
               else let (ret, s2) = uv_do env (if uc_is_tcp c then Write i buf
                                               else UdpSend i remote_ip (htons remote_port) buf) s1
                    in Some (if ret \<noteq> 0 then -1 else int (length buf), s2))"

fun libuv_socket_clean :: "int list \<Rightarrow> net \<Rightarrow> net" where
  "libuv_socket_clean [] s = s"
| "libuv_socket_clean (socket_id # ids) s =
     (if socket_id < 0 \<or> int (length (ns_sockets s)) \<le> socket_id then libuv_socket_clean ids s
      else let i = nat socket_id; c = ns_sockets s ! i in
           if uc_tag c = 0 \<or> uc_state c = SC_CLOSED
           then libuv_socket_clean ids
                  (upd_sock i (\<lambda>c. c\<lparr>uc_recv_buff := None, uc_recv_size := 0, uc_udp_data := [], uc_state := SC_IDLE\<rparr>) s)
           else libuv_socket_clean ids s)"

section \<open>Addresses and names\<close>

record uv_interface =
  if_internal :: bool
  if_inet :: bool
  if_addr :: u32
  if_mask :: u32

text \<open>The interfaces are searched from the last one on. The gateway is made up.\<close>

fun local_ip_scan :: "uv_interface list \<Rightarrow> (u32 \<times> u32 \<times> u32) option" where
  "local_ip_scan [] = None"
| "local_ip_scan (x # xs) =
     (if if_internal x then local_ip_scan xs
      else if if_inet x then Some (if_addr x, if_mask x, if_addr x OR 0x1000000)
      else local_ip_scan xs)"

definition libuv_get_local_ip_info :: "uv_interface list \<Rightarrow> int \<times> (u32 \<times> u32 \<times> u32) option" where
  "libuv_get_local_ip_info info =
     (let r = local_ip_scan (rev info) in (if r = None then -1 else 0, r))"

text \<open>The name is copied to the 256 bytes of \<open>query->domain\<close> without a check of its length.\<close>

definition libuv_dns :: "nenv \<Rightarrow> byte list \<Rightarrow> u32 \<Rightarrow> net \<Rightarrow> (int \<times> net) option" where
  "libuv_dns env domain_name param s =
     (let (ok, s1) = heap_alloc env s in
      if \<not> ok then Some (-1, s1)
      else do { domain \<leftarrow> poke 0 domain_name (replicate 256 0);
                let (r, s2) = uv_do env (GetAddrInfo (takeWhile (\<lambda>b. b \<noteq> 0) domain)) s1;
                if r \<noteq> 0 then do { s3 \<leftarrow> cb_to_nw_task env EV_NW_DNS_RESULT 0 0 param s2; Some (r, s3) }
                else Some (r, s2) })"

text \<open>\<open>ip_result\<close> is the address of the structure that holds the answer, which the event carries.\<close>

definition on_resolved :: "nenv \<Rightarrow> u32 \<Rightarrow> int \<Rightarrow> nat \<Rightarrow> net \<Rightarrow> net option" where
  "on_resolved env query_param status ip_result s =
     (if status < 0 then cb_to_nw_task env EV_NW_DNS_RESULT 0 0 query_param s
      else let (ok, s1) = heap_alloc env s in
           if \<not> ok then None
           else cb_to_nw_task env EV_NW_DNS_RESULT 1 ip_result query_param s1)"

definition libuv_socket_set_callback :: "u32 option \<Rightarrow> u32 \<Rightarrow> net \<Rightarrow> net" where
  "libuv_socket_set_callback cb_fun param s = s\<lparr>ns_socket_cb := cb_fun, ns_user_data := param\<rparr>"

section \<open>Announcing the network\<close>

definition luat_network_init :: "nenv \<Rightarrow> net \<Rightarrow> net option" where
  "luat_network_init env s =
     (let (ok, s1) = heap_alloc env s in
      if \<not> ok then None
      else Some (snd (uv_do env (IpTimerStart 500) (snd (uv_do env IpTimerInit s1)))))"

text \<open>\<open>l_ip\<close> is the address of \<open>l_ip_ready\<close>.\<close>

definition ip_ready_timer_cb :: "allocator \<Rightarrow> u32 \<Rightarrow> msgbus \<Rightarrow> (int \<times> msgbus) option" where
  "ip_ready_timer_cb al l_ip bus = luat_msgbus_put al \<lparr>rm_handler = l_ip, rm_ptr = 0, rm_arg1 = 1, rm_arg2 = 0\<rparr> bus"

datatype lua_arg = LuaString string | LuaIp nat nat nat nat | LuaInteger int

text \<open>The arguments of the call of \<open>sys_pub\<close>; \<open>LuaIp\<close> is the dotted notation of four numbers, and
  \<open>eth0\<close> the constant \<open>NW_ADAPTER_INDEX_ETH0\<close>.\<close>

definition l_ip_ready :: "int \<Rightarrow> bool \<Rightarrow> rtos_msg \<Rightarrow> lua_arg list" where
  "l_ip_ready eth0 is_function msg =
     (if \<not> is_function then []
      else if rm_arg1 msg \<noteq> 0
      then [LuaString ''IP_READY'',
            (let ip = rm_arg2 msg in LuaIp (unat (ip AND 0xFF)) (unat (drop_bit 8 ip AND 0xFF))
               (unat (drop_bit 16 ip AND 0xFF)) (unat (drop_bit 24 ip AND 0xFF))), LuaInteger eth0]
      else [LuaString ''IP_LOSE'', LuaInteger eth0])"

end
