(* ===== verification/Net_Props.thy ===== *)
theory Net_Props
  imports Net_Libuv
begin

text \<open>
  What holds of the network adapter: an invariant of the socket table over all operations and
  callbacks, that they change one socket only, that the bytes of a TCP connection and the
  datagrams of a UDP socket arrive unchanged and in order, and the life of a socket entry
  including the cases in which it is not given back.
\<close>

section \<open>How the table evolves\<close>

definition conn_ok :: "uv_conn \<Rightarrow> bool" where
  "conn_ok c \<longleftrightarrow> (case uc_recv_buff c of None \<Rightarrow> uc_recv_size c = 0 | Some b \<Rightarrow> length b = uc_recv_size c)"

lemma conn_ok_upd [simp]:
  "conn_ok (c\<lparr>uc_tag := t\<rparr>) = conn_ok c" "conn_ok (c\<lparr>uc_state := st\<rparr>) = conn_ok c"
  "conn_ok (c\<lparr>uc_udp_data := ds\<rparr>) = conn_ok c"
  "conn_ok (c\<lparr>uc_recv_buff := Some b\<rparr>) = (length b = uc_recv_size c)"
  "conn_ok (c\<lparr>uc_recv_buff := None, uc_recv_size := n\<rparr>) = (n = 0)"
  "conn_ok (c\<lparr>uc_recv_buff := Some b, uc_recv_size := n\<rparr>) = (length b = n)"
  by (auto simp: conn_ok_def split: option.splits)

text \<open>Between \<open>s\<close> and \<open>s'\<close> tags were only kept or cleared, sockets other than \<open>i\<close> were left alone
  and receive buffers kept their recorded size.\<close>

definition evolves :: "nat \<Rightarrow> net \<Rightarrow> net \<Rightarrow> bool" where
  "evolves i s s' \<longleftrightarrow> length (ns_sockets s') = length (ns_sockets s) \<and> ns_tag_counter s' = ns_tag_counter s \<and>
     (\<forall>j<length (ns_sockets s). j \<noteq> i \<longrightarrow> ns_sockets s' ! j = ns_sockets s ! j) \<and>
     (i < length (ns_sockets s) \<longrightarrow>
        (uc_tag (ns_sockets s' ! i) = uc_tag (ns_sockets s ! i) \<or> uc_tag (ns_sockets s' ! i) = 0) \<and>
        (conn_ok (ns_sockets s ! i) \<longrightarrow> conn_ok (ns_sockets s' ! i)))"

lemma evolves_refl [simp, intro]: "evolves i s s"
  by (simp add: evolves_def)

lemma evolves_trans [trans]: "evolves i s s' \<Longrightarrow> evolves i s' s'' \<Longrightarrow> evolves i s s''"
  unfolding evolves_def by (metis (no_types))

lemma evolves_same_table:
  "ns_sockets s' = ns_sockets s \<Longrightarrow> ns_tag_counter s' = ns_tag_counter s \<Longrightarrow> evolves i s s'"
  by (simp add: evolves_def)

lemma ns_heap_alloc [simp]:
  "ns_sockets (snd (heap_alloc env s)) = ns_sockets s" "ns_tag_counter (snd (heap_alloc env s)) = ns_tag_counter s"
  "ns_lost (snd (heap_alloc env s)) = ns_lost s"
  by (simp_all add: heap_alloc_def)

lemma ns_uv_do [simp]:
  "ns_sockets (snd (uv_do env c s)) = ns_sockets s" "ns_tag_counter (snd (uv_do env c s)) = ns_tag_counter s"
  "ns_lost (snd (uv_do env c s)) = ns_lost s"
  by (simp_all add: uv_do_def)

lemma heap_alloc_same: "heap_alloc env s = (ok, s1) \<Longrightarrow> ns_sockets s1 = ns_sockets s \<and> ns_tag_counter s1 = ns_tag_counter s \<and> ns_lost s1 = ns_lost s"
  by (auto simp: heap_alloc_def)

lemma uv_do_same: "uv_do env c s = (r, s1) \<Longrightarrow> ns_sockets s1 = ns_sockets s \<and> ns_tag_counter s1 = ns_tag_counter s \<and> ns_lost s1 = ns_lost s"
  by (auto simp: uv_do_def)

lemma cb_same:
  "cb_to_nw_task env ev a b c s = Some s' \<Longrightarrow>
     ns_sockets s' = ns_sockets s \<and> ns_tag_counter s' = ns_tag_counter s \<and> ns_lost s' = ns_lost s"
  by (auto simp: cb_to_nw_task_def Let_def bind_eq_Some_conv heap_alloc_def uv_do_def split: if_splits)

lemma sock_Some: "sock s i = Some c \<longleftrightarrow> i < length (ns_sockets s) \<and> c = ns_sockets s ! i"
  by (auto simp: sock_def)

lemma upd_sock_simps [simp]:
  "length (ns_sockets (upd_sock i f s)) = length (ns_sockets s)"
  "ns_tag_counter (upd_sock i f s) = ns_tag_counter s"
  "ns_lost (upd_sock i f s) = ns_lost s"
  "i < length (ns_sockets s) \<Longrightarrow> ns_sockets (upd_sock i f s) ! i = f (ns_sockets s ! i)"
  "j \<noteq> i \<Longrightarrow> ns_sockets (upd_sock i f s) ! j = ns_sockets s ! j"
  by (simp_all add: upd_sock_def)

lemma evolves_upd_sock:
  assumes "\<And>c. uc_tag (f c) = uc_tag c \<or> uc_tag (f c) = 0"
    and "i < length (ns_sockets s) \<Longrightarrow> conn_ok (ns_sockets s ! i) \<Longrightarrow> conn_ok (f (ns_sockets s ! i))"
  shows "evolves i s (upd_sock i f s)"
  using assms by (auto simp: evolves_def)

lemma evolves_set_state [simp, intro]: "evolves i s (set_socket_state i st s)"
  by (auto simp: set_socket_state_def intro!: evolves_upd_sock)

lemma evolves_clear_tag [simp, intro]: "evolves i s (upd_sock i (uc_tag_update (\<lambda>_. 0)) s)"
  by (auto intro!: evolves_upd_sock)

lemma evolves_cong:
  "ns_sockets s1 = ns_sockets s \<Longrightarrow> ns_tag_counter s1 = ns_tag_counter s \<Longrightarrow> evolves i s1 s' \<Longrightarrow> evolves i s s'"
  by (simp add: evolves_def)

lemma evolves_cb: "cb_to_nw_task env ev a b c s1 = Some s' \<Longrightarrow> evolves i s s1 \<Longrightarrow> evolves i s s'"
  using cb_same evolves_same_table evolves_trans by blast

lemmas env_same = heap_alloc_same uv_do_same

section \<open>Each operation changes one socket\<close>

lemma on_connect_evolves: "on_connect env i status s = Some s' \<Longrightarrow> evolves i s s'"
  unfolding on_connect_def
  by (auto simp: bind_eq_Some_conv split: if_splits intro: evolves_cb
      intro!: evolves_trans [OF _ evolves_same_table [of "snd (uv_do env c t)" t for c t]])

lemma connect_evolves:
  "libuv_socket_connect env (int i) tag lp ip rp s = Some (r, s') \<Longrightarrow> evolves i s s'"
  unfolding libuv_socket_connect_def check_socket_id_def Let_def
  by (auto split: if_splits prod.splits dest!: env_same
      intro: evolves_same_table evolves_cong [OF _ _ evolves_set_state])

lemma close_socket_evolves: "close_socket env i s = Some (r, s') \<Longrightarrow> evolves i s s'"
  unfolding close_socket_def Let_def
  by (auto split: if_splits prod.splits dest!: env_same
      intro: evolves_same_table evolves_cong [OF _ _ evolves_set_state])

lemma on_close_evolves: "on_close env i s = Some s' \<Longrightarrow> evolves i s s'"
  unfolding on_close_def Let_def
  by (auto simp: bind_eq_Some_conv split: if_splits
      intro: evolves_trans [OF _ evolves_clear_tag] evolves_cb)

lemma on_shutdown_evolves: "on_shutdown env i s = Some s' \<Longrightarrow> evolves i s s'"
  unfolding on_shutdown_def Let_def
  by (auto simp: bind_eq_Some_conv split: if_splits
      intro: evolves_trans [OF _ evolves_clear_tag] evolves_cb)

lemma force_close_evolves: "libuv_socket_force_close env (int i) s = Some (r, s') \<Longrightarrow> evolves i s s'"
  unfolding libuv_socket_force_close_def Let_def
  by (auto simp: bind_eq_Some_conv split: if_splits
      intro: evolves_trans [OF close_socket_evolves evolves_clear_tag])

lemma close_evolves: "libuv_socket_close env (int i) tag s = Some (r, s') \<Longrightarrow> evolves i s s'"
  unfolding libuv_socket_close_def check_socket_id_def Let_def
  by (auto split: if_splits intro: close_socket_evolves)

lemma disconnect_evolves: "libuv_socket_disconnect env (int i) tag s = Some (r, s') \<Longrightarrow> evolves i s s'"
  unfolding libuv_socket_disconnect_def check_socket_id_def Let_def
  by (auto split: if_splits intro: close_socket_evolves)

lemma send_evolves: "libuv_socket_send env (int i) tag buf ip port s = Some (r, s') \<Longrightarrow> evolves j s s'"
  unfolding libuv_socket_send_def Let_def
  by (auto split: if_splits prod.splits option.splits dest!: env_same intro: evolves_same_table)

lemma on_sent_evolves: "on_sent env i len status s = Some s' \<Longrightarrow> evolves j s s'"
  unfolding on_sent_def by (auto simp: bind_eq_Some_conv split: if_splits intro: evolves_cb)

lemma on_sent_udp_evolves: "on_sent_udp env i len status s = Some s' \<Longrightarrow> evolves j s s'"
  unfolding on_sent_udp_def by (auto simp: bind_eq_Some_conv split: if_splits intro: evolves_cb)

lemma evolves_upd_after:
  assumes "ns_sockets s1 = ns_sockets s" "ns_tag_counter s1 = ns_tag_counter s"
    and "\<And>c. uc_tag (f c) = uc_tag c"
    and "i < length (ns_sockets s) \<Longrightarrow> conn_ok (ns_sockets s ! i) \<Longrightarrow> conn_ok (f (ns_sockets s ! i))"
  shows "evolves i s (upd_sock i f s1)"
  using assms by (intro evolves_cong [OF assms(1,2) evolves_upd_sock]) auto

lemma on_recv_evolves: "on_recv env i r s = Some s' \<Longrightarrow> evolves i s s'"
  unfolding on_recv_def Let_def
  by (auto simp: bind_eq_Some_conv sock_Some peek_def split: nread.splits if_splits prod.splits option.splits
      dest!: env_same intro!: evolves_upd_after intro: evolves_same_table elim!: evolves_cb)

lemma on_recv_udp_evolves: "on_recv_udp env i r addr s = Some s' \<Longrightarrow> evolves i s s'"
  unfolding on_recv_udp_def Let_def
  by (auto simp: bind_eq_Some_conv sock_Some split: nread.splits if_splits prod.splits option.splits
      dest!: env_same intro!: evolves_upd_after intro: evolves_same_table elim!: evolves_cb)

lemma evolves_lost: "evolves i s s1 \<Longrightarrow> evolves i s (s1\<lparr>ns_lost := l\<rparr>)"
  by (simp add: evolves_def)

lemma receive_udp_evolves: "receive_udp i has_buf len s = Some (r, s') \<Longrightarrow> evolves i s s'"
  unfolding receive_udp_def Let_def
  by (auto split: if_splits list.splits intro!: evolves_lost evolves_upd_sock)

lemma receive_tcp_evolves: "receive_tcp env i has_buf len s = Some (r, s') \<Longrightarrow> evolves i s s'"
  unfolding receive_tcp_def Let_def
  by (auto simp: bind_eq_Some_conv split: if_splits prod.splits dest!: env_same
      intro!: evolves_upd_after dest: peek_length)

lemma receive_evolves: "libuv_socket_receive env (int i) tag has_buf len s = Some (r, s') \<Longrightarrow> evolves i s s'"
  unfolding libuv_socket_receive_def check_socket_id_def Let_def
  by (auto simp: bind_eq_Some_conv split: if_splits intro: receive_tcp_evolves receive_udp_evolves)

section \<open>The invariant of the table\<close>

definition net_inv :: "net \<Rightarrow> bool" where
  "net_inv s \<longleftrightarrow> length (ns_sockets s) = max_sock_num \<and> ns_tag_counter s \<noteq> 0 \<and>
     (\<forall>j<max_sock_num. uc_tag (ns_sockets s ! j) < ns_tag_counter s \<and> conn_ok (ns_sockets s ! j)) \<and>
     (\<forall>j<max_sock_num. \<forall>k<max_sock_num. uc_tag (ns_sockets s ! j) \<noteq> 0 \<longrightarrow>
        uc_tag (ns_sockets s ! j) = uc_tag (ns_sockets s ! k) \<longrightarrow> j = k)"

lemma net_inv_evolves: "net_inv s \<Longrightarrow> evolves i s s' \<Longrightarrow> net_inv s'"
proof -
  assume inv: "net_inv s" and ev: "evolves i s s'"
  from inv ev have len: "length (ns_sockets s') = max_sock_num" "length (ns_sockets s) = max_sock_num"
    and cnt: "ns_tag_counter s' = ns_tag_counter s" "ns_tag_counter s \<noteq> 0"
    by (auto simp: net_inv_def evolves_def)
  have tag: "uc_tag (ns_sockets s' ! j) = uc_tag (ns_sockets s ! j) \<or> uc_tag (ns_sockets s' ! j) = 0" if "j < max_sock_num" for j
    using ev that len by (cases "j = i") (auto simp: evolves_def)
  have ok: "conn_ok (ns_sockets s' ! j)" if "j < max_sock_num" for j
    using ev inv that len by (cases "j = i") (auto simp: evolves_def net_inv_def)
  have "uc_tag (ns_sockets s' ! j) < ns_tag_counter s'" if "j < max_sock_num" for j
    using tag [OF that] inv that cnt by (auto simp: net_inv_def word_gt_0)
  moreover have "j = k" if "j < max_sock_num" "k < max_sock_num" "uc_tag (ns_sockets s' ! j) \<noteq> 0"
      "uc_tag (ns_sockets s' ! j) = uc_tag (ns_sockets s' ! k)" for j k
    using tag [OF that(1)] tag [OF that(2)] inv that unfolding net_inv_def by metis
  ultimately show ?thesis using len cnt ok unfolding net_inv_def by simp
qed

lemma claim_socket_table:
  "ns_sockets (claim_socket env tcp stag p v6 i s) =
     (if i < length (ns_sockets s)
      then (ns_sockets s)[i := (ns_sockets s ! i)\<lparr>uc_tag := stag, uc_param := p, uc_is_tcp := tcp, uc_is_ipv6 := v6, uc_state := SC_USED\<rparr>]
      else ns_sockets s)"
  "ns_tag_counter (claim_socket env tcp stag p v6 i s) = ns_tag_counter s"
  by (auto simp: claim_socket_def Let_def set_socket_state_def upd_sock_def uv_do_def list_update_beyond)

text \<open>The search either finds nothing, and every entry it looked at is taken, or claims a free one.\<close>

lemma create_scan_cases:
  "0 < length (ns_sockets s) \<Longrightarrow> create_scan env tcp stag p v6 izs s = (r, s') \<Longrightarrow>
     (r = -1 \<and> s' = s \<and> (\<forall>iz\<in>set izs. \<not> socket_free (ns_sockets s ! ((iz + unat (ns_next_index s)) mod length (ns_sockets s))))) \<or>
     (\<exists>i<length (ns_sockets s). r = int i \<and> socket_free (ns_sockets s ! i) \<and> s' = claim_socket env tcp stag p v6 i s)"
  by (induction env tcp stag p v6 izs s rule: create_scan.induct) (auto simp: Let_def split: if_splits)

lemma rotate_covers:
  assumes "j < (n :: nat)"
  shows "\<exists>iz<n. (iz + k) mod n = j"
proof (intro exI conjI)
  show "(j + (n - k mod n)) mod n < n" using assms by simp
  have "((j + (n - k mod n)) mod n + k) mod n = (j + (n - k mod n) + k mod n) mod n"
    by (simp add: mod_simps)
  also have "j + (n - k mod n) + k mod n = j + n"
    using assms mod_less_divisor [of n k] by linarith
  finally show "((j + (n - k mod n)) mod n + k) mod n = j" using assms by simp
qed

lemma create_cases:
  assumes "net_inv s" and "libuv_create_socket env tcp p v6 s = (r, t, s')"
  shows "t = ns_tag_counter s \<and> ns_tag_counter s' = ns_tag_counter s + 1 \<and>
     (r = -1 \<and> ns_sockets s' = ns_sockets s \<and> (\<forall>j<max_sock_num. \<not> socket_free (ns_sockets s ! j)) \<or>
      (\<exists>i<max_sock_num. r = int i \<and> socket_free (ns_sockets s ! i) \<and>
        ns_sockets s' = (ns_sockets s)[i := (ns_sockets s ! i)\<lparr>uc_tag := t, uc_param := p, uc_is_tcp := tcp, uc_is_ipv6 := v6, uc_state := SC_USED\<rparr>]))"
proof -
  let ?s = "s\<lparr>ns_tag_counter := ns_tag_counter s + 1\<rparr>"
  have len: "length (ns_sockets s) = max_sock_num" using assms(1) by (simp add: net_inv_def)
  obtain s2 where sc: "create_scan env tcp (ns_tag_counter s) p v6 [0..<length (ns_sockets s)] ?s = (r, s2)"
    and eq: "t = ns_tag_counter s" "s' = s2"
    using assms(2) by (auto simp: libuv_create_socket_def Let_def split: prod.splits)
  have "\<not> socket_free (ns_sockets s ! j)"
    if "\<forall>iz\<in>set [0..<length (ns_sockets s)]. \<not> socket_free (ns_sockets s ! ((iz + unat (ns_next_index s)) mod length (ns_sockets s)))"
      "j < max_sock_num" for j
    using rotate_covers [of j max_sock_num "unat (ns_next_index s)"] that len by auto
  then show ?thesis
    using create_scan_cases [OF _ sc] eq len by (auto simp: claim_socket_table)
qed

lemma less_plus_one: "x \<noteq> -1 \<Longrightarrow> x < x + (1 :: u64)"
proof -
  assume x: "x \<noteq> -1"
  have "unat x + 1 \<noteq> 2 ^ 64"
  proof
    assume eq: "unat x + 1 = 2 ^ 64"
    have "x + 1 = word_of_nat (unat x + 1)" by simp
    also have "\<dots> = 0" unfolding eq by simp
    finally show False using x by (simp add: eq_neg_iff_add_eq_0)
  qed
  then have "unat x + 1 < 2 ^ 64" using unsigned_less [of x, where 'a = nat] by simp
  then have "unat (x + 1) = unat x + 1" by (simp add: unat_word_ariths)
  then show "x < x + 1" by (simp add: word_less_nat_alt)
qed

lemma create_inv:
  assumes inv: "net_inv s" and c: "libuv_create_socket env tcp p v6 s = (r, t, s')" and w: "ns_tag_counter s \<noteq> -1"
  shows "net_inv s'"
proof -
  have less: "ns_tag_counter s < ns_tag_counter s + 1"
    using w by (rule less_plus_one)
  then have mono: "x < ns_tag_counter s \<Longrightarrow> x < ns_tag_counter s + 1" for x by simp
  have nz: "ns_tag_counter s + 1 \<noteq> 0" using less by auto
  from create_cases [OF inv c] show ?thesis
  proof (elim conjE disjE exE)
    assume "ns_sockets s' = ns_sockets s" "ns_tag_counter s' = ns_tag_counter s + 1"
    then show ?thesis using inv mono nz by (auto simp: net_inv_def)
  next
    fix i
    assume i: "i < max_sock_num" "t = ns_tag_counter s" "ns_tag_counter s' = ns_tag_counter s + 1"
      and s': "ns_sockets s' = (ns_sockets s)[i := (ns_sockets s ! i)\<lparr>uc_tag := t, uc_param := p, uc_is_tcp := tcp, uc_is_ipv6 := v6, uc_state := SC_USED\<rparr>]"
    have len: "length (ns_sockets s) = max_sock_num" using inv by (simp add: net_inv_def)
    have tag: "uc_tag (ns_sockets s' ! j) = (if j = i then ns_tag_counter s else uc_tag (ns_sockets s ! j))"
      if "j < max_sock_num" for j using that len i(1,2) by (simp add: s' nth_list_update)
    have ok: "conn_ok (ns_sockets s' ! j)" if "j < max_sock_num" for j
      using that len i(1) inv by (cases "j = i") (auto simp: s' net_inv_def conn_ok_def split: option.splits)
    have old: "uc_tag (ns_sockets s ! j) < ns_tag_counter s" if "j < max_sock_num" for j
      using inv that by (simp add: net_inv_def)
    have "j = k" if "j < max_sock_num" "k < max_sock_num" "uc_tag (ns_sockets s' ! j) \<noteq> 0"
      "uc_tag (ns_sockets s' ! j) = uc_tag (ns_sockets s' ! k)" for j k
      using that tag [OF that(1)] tag [OF that(2)] old [OF that(1)] old [OF that(2)] inv
      unfolding net_inv_def by (cases "j = i"; cases "k = i") auto
    moreover have "uc_tag (ns_sockets s' ! j) < ns_tag_counter s'" if "j < max_sock_num" for j
      using tag [OF that] old [OF that] mono less i(3) by simp
    ultimately show ?thesis using len ok nz i(3) unfolding net_inv_def by (simp add: s')
  qed
qed

section \<open>All operations and callbacks\<close>

text \<open>A step of the adapter on socket \<open>i\<close>: an operation that the network core calls, or a callback
  that libuv runs.\<close>

inductive sock_step :: "nenv \<Rightarrow> nat \<Rightarrow> net \<Rightarrow> net \<Rightarrow> bool" for env i where
  step_connect: "libuv_socket_connect env (int i) tag lp ip rp s = Some (r, s') \<Longrightarrow> sock_step env i s s'"
| step_on_connect: "on_connect env i status s = Some s' \<Longrightarrow> sock_step env i s s'"
| step_udp_connect: "udp_connect_async env i s = Some s' \<Longrightarrow> sock_step env i s s'"
| step_on_recv: "on_recv env i nr s = Some s' \<Longrightarrow> sock_step env i s s'"
| step_on_recv_udp: "on_recv_udp env i nr addr s = Some s' \<Longrightarrow> sock_step env i s s'"
| step_on_close: "on_close env i s = Some s' \<Longrightarrow> sock_step env i s s'"
| step_on_shutdown: "on_shutdown env i s = Some s' \<Longrightarrow> sock_step env i s s'"
| step_udp_close: "udp_async_close env i s = Some s' \<Longrightarrow> sock_step env i s s'"
| step_disconnect: "libuv_socket_disconnect env (int i) tag s = Some (r, s') \<Longrightarrow> sock_step env i s s'"
| step_force_close: "libuv_socket_force_close env (int i) s = Some (r, s') \<Longrightarrow> sock_step env i s s'"
| step_close: "libuv_socket_close env (int i) tag s = Some (r, s') \<Longrightarrow> sock_step env i s s'"
| step_receive: "libuv_socket_receive env (int i) tag hb len s = Some (rr, s') \<Longrightarrow> sock_step env i s s'"
| step_send: "libuv_socket_send env (int i) tag buf ip port s = Some (r, s') \<Longrightarrow> sock_step env i s s'"
| step_on_sent: "on_sent env i len status s = Some s' \<Longrightarrow> sock_step env i s s'"
| step_on_sent_udp: "on_sent_udp env i len status s = Some s' \<Longrightarrow> sock_step env i s s'"

lemma sock_step_evolves: "sock_step env i s s' \<Longrightarrow> evolves i s s'"
  by (induction rule: sock_step.induct)
    (auto simp: udp_connect_async_def udp_async_close_def intro: connect_evolves on_connect_evolves
      on_recv_evolves on_recv_udp_evolves on_close_evolves on_shutdown_evolves disconnect_evolves
      force_close_evolves close_evolves receive_evolves send_evolves on_sent_evolves on_sent_udp_evolves)

lemma clean_inv: "net_inv s \<Longrightarrow> net_inv (libuv_socket_clean ids s)"
proof (induction ids s rule: libuv_socket_clean.induct)
  case (2 socket_id ids s)
  have "evolves (nat socket_id) s (upd_sock (nat socket_id)
      (\<lambda>c. c\<lparr>uc_recv_buff := None, uc_recv_size := 0, uc_udp_data := [], uc_state := SC_IDLE\<rparr>) s)"
    by (rule evolves_upd_sock) (auto simp: conn_ok_def)
  with 2 net_inv_evolves show ?case by (auto simp: Let_def)
qed simp

text \<open>Every state the adapter can reach, as long as fewer than \<open>2 ^ 64\<close> sockets were created.\<close>

inductive net_reach :: "nenv \<Rightarrow> net \<Rightarrow> bool" for env where
  reach_start: "net_reach env net_start"
| reach_create: "net_reach env s \<Longrightarrow> ns_tag_counter s \<noteq> -1 \<Longrightarrow>
    libuv_create_socket env tcp p v6 s = (r, t, s') \<Longrightarrow> net_reach env s'"
| reach_sock: "net_reach env s \<Longrightarrow> sock_step env i s s' \<Longrightarrow> net_reach env s'"
| reach_clean: "net_reach env s \<Longrightarrow> net_reach env (libuv_socket_clean ids s)"
| reach_dns: "net_reach env s \<Longrightarrow> libuv_dns env name p s = Some (r, s') \<Longrightarrow> net_reach env s'"
| reach_resolved: "net_reach env s \<Longrightarrow> on_resolved env p status ipr s = Some s' \<Longrightarrow> net_reach env s'"

lemma dns_same: "libuv_dns env name p s = Some (r, s') \<Longrightarrow> evolves 0 s s'"
  unfolding libuv_dns_def Let_def
  by (auto simp: bind_eq_Some_conv uv_do_def heap_alloc_def split: if_splits dest!: cb_same
      intro!: evolves_same_table)

lemma resolved_same: "on_resolved env p status ipr s = Some s' \<Longrightarrow> evolves 0 s s'"
  unfolding on_resolved_def Let_def
  by (auto split: if_splits prod.splits dest!: env_same cb_same intro!: evolves_same_table)

lemma net_start_inv: "net_inv net_start"
  by (auto simp: net_inv_def net_start_def conn_ok_def)

lemma net_reach_inv: "net_reach env s \<Longrightarrow> net_inv s"
proof (induction rule: net_reach.induct)
  case reach_start
  show ?case by (rule net_start_inv)
next
  case (reach_create s tcp p v6 r t s')
  then show ?case by (blast intro: create_inv)
next
  case (reach_sock s i s')
  then show ?case by (blast intro: net_inv_evolves sock_step_evolves)
next
  case (reach_clean s ids)
  then show ?case by (blast intro: clean_inv)
next
  case (reach_dns s name p r s')
  then show ?case by (blast intro: net_inv_evolves dns_same)
next
  case (reach_resolved s p status ipr s')
  then show ?case by (blast intro: net_inv_evolves resolved_same)
qed

section \<open>The bytes of a TCP connection\<close>

definition mem_ok :: "nenv \<Rightarrow> bool" where
  "mem_ok env \<longleftrightarrow> (\<forall>k. en_mem env k)"

definition tcp_live :: "nat \<Rightarrow> u64 \<Rightarrow> net \<Rightarrow> bool" where
  "tcp_live i tag s \<longleftrightarrow> i < length (ns_sockets s) \<and> tag \<noteq> 0 \<and>
     (let c = ns_sockets s ! i in uc_tag c = tag \<and> uc_state c \<noteq> SC_CLOSED \<and> uc_is_tcp c \<and> conn_ok c)"

definition tcp_buffered :: "nat \<Rightarrow> net \<Rightarrow> byte list" where
  "tcp_buffered i s = (case uc_recv_buff (ns_sockets s ! i) of None \<Rightarrow> [] | Some b \<Rightarrow> b)"

lemma heap_alloc_ok: "mem_ok env \<Longrightarrow> heap_alloc env s = (True, s\<lparr>ns_tick := ns_tick s + 1\<rparr>)"
  by (simp add: heap_alloc_def mem_ok_def)

lemma cb_total:
  assumes "mem_ok env" and "i < length (ns_sockets s)"
  shows "\<exists>s'. cb_to_nw_task env ev i b c s = Some s' \<and> ns_sockets s' = ns_sockets s"
proof -
  have "\<exists>s'. cb_to_nw_task env ev i b c s = Some s'"
    using assms by (simp add: cb_to_nw_task_def heap_alloc_ok uv_do_def Let_def sock_def split: prod.splits)
  with cb_same show ?thesis by blast
qed

lemma tcp_live_check: "tcp_live i tag s \<Longrightarrow> check_socket_id (int i) tag s = Some i"
  by (auto simp: tcp_live_def check_socket_id_def Let_def)

lemma tcp_size: "tcp_live i tag s \<Longrightarrow> uc_recv_size (ns_sockets s ! i) = length (tcp_buffered i s)"
  by (auto simp: tcp_live_def tcp_buffered_def conn_ok_def Let_def split: option.splits)

lemma tcp_arrive:
  assumes m: "mem_ok env" and l: "tcp_live i tag s"
  shows "\<exists>s'. on_recv env i (ReadData bs) s = Some s' \<and> tcp_live i tag s' \<and> tcp_buffered i s' = tcp_buffered i s @ bs"
proof (cases "bs = []")
  case True
  with l show ?thesis by (simp add: on_recv_def sock_def tcp_live_def)
next
  case False
  let ?s1 = "s\<lparr>ns_tick := ns_tick s + 1\<rparr>" and ?c = "ns_sockets s ! i"
  let ?f = "\<lambda>c. c\<lparr>uc_recv_buff := Some (tcp_buffered i s @ bs), uc_recv_size := length (tcp_buffered i s) + length bs\<rparr>"
  have i: "i < length (ns_sockets s)" using l by (simp add: tcp_live_def)
  from cb_total [OF m, of i "upd_sock i ?f ?s1" EV_NW_SOCKET_RX_NEW "length bs" "uc_param ?c"] i obtain s' where
    s': "cb_to_nw_task env EV_NW_SOCKET_RX_NEW i (length bs) (uc_param ?c) (upd_sock i ?f ?s1) = Some s'"
      "ns_sockets s' = ns_sockets (upd_sock i ?f ?s1)" by auto
  have "on_recv env i (ReadData bs) s = Some s'"
    using s'(1) False i tcp_size [OF l] m
    by (cases "uc_recv_buff ?c") (auto simp: on_recv_def sock_def heap_alloc_ok tcp_buffered_def peek_def upd_sock_def)
  moreover have "ns_sockets s' ! i = ?f ?c" using s'(2) i by simp
  ultimately show ?thesis using l s'(2) i by (auto simp: tcp_live_def Let_def tcp_buffered_def)
qed

lemma tcp_fetch:
  assumes m: "mem_ok env" and l: "tcp_live i tag s"
  shows "\<exists>s' r. libuv_socket_receive env (int i) tag True len s = Some (Some r, s') \<and> tcp_live i tag s' \<and>
     rr_ret r = min len (length (tcp_buffered i s)) \<and> rr_data r = take len (tcp_buffered i s) \<and>
     tcp_buffered i s' = drop len (tcp_buffered i s)"
proof -
  let ?c = "ns_sockets s ! i" and ?b = "tcp_buffered i s" and ?n = "min len (length (tcp_buffered i s))"
  have i: "i < length (ns_sockets s)" and tcp: "uc_is_tcp ?c" using l by (auto simp: tcp_live_def Let_def)
  note sz = tcp_size [OF l]
  have eq: "libuv_socket_receive env (int i) tag True len s = do { (r, s') \<leftarrow> receive_tcp env i True len s; Some (Some r, s') }"
    using tcp tcp_live_check [OF l] by (simp add: libuv_socket_receive_def)
  show ?thesis
  proof (cases "?b = []")
    case True
    with l sz i show ?thesis unfolding eq
      by (cases "len = 0")
        (auto simp: receive_tcp_def Let_def tcp_buffered_def peek_def tcp_live_def split: option.splits)
  next
    case False
    then obtain b where b: "uc_recv_buff ?c = Some b" "?b = b" by (auto simp: tcp_buffered_def split: option.splits)
    show ?thesis
    proof (cases "length b \<le> len")
      case True
      with l sz b i False show ?thesis unfolding eq
        by (auto simp: receive_tcp_def Let_def peek_def tcp_live_def tcp_buffered_def min_def)
    next
      case short: False
      with l sz b i False m show ?thesis unfolding eq
        by (auto simp: receive_tcp_def Let_def peek_def tcp_live_def tcp_buffered_def min_def heap_alloc_ok upd_sock_def)
    qed
  qed
qed

datatype tcp_op = Arrive "byte list" | Fetch nat

fun tcp_run :: "nenv \<Rightarrow> nat \<Rightarrow> u64 \<Rightarrow> tcp_op list \<Rightarrow> net \<Rightarrow> (byte list \<times> net) option" where
  "tcp_run env i tag [] s = Some ([], s)"
| "tcp_run env i tag (Arrive bs # ops) s = do { s1 \<leftarrow> on_recv env i (ReadData bs) s; tcp_run env i tag ops s1 }"
| "tcp_run env i tag (Fetch len # ops) s =
     do { (r, s1) \<leftarrow> libuv_socket_receive env (int i) tag True len s;
          rr \<leftarrow> r;
          (out, s2) \<leftarrow> tcp_run env i tag ops s1;
          Some (rr_data rr @ out, s2) }"

primrec arrived :: "tcp_op list \<Rightarrow> byte list" where
  "arrived [] = []"
| "arrived (x # ops) = (case x of Arrive bs \<Rightarrow> bs | Fetch n \<Rightarrow> []) @ arrived ops"

lemma tcp_run_stream:
  assumes m: "mem_ok env" and "tcp_live i tag s"
  shows "\<exists>out s'. tcp_run env i tag ops s = Some (out, s') \<and> tcp_live i tag s' \<and>
     tcp_buffered i s @ arrived ops = out @ tcp_buffered i s'"
  using assms(2)
proof (induction ops arbitrary: s)
  case (Cons x ops)
  show ?case
  proof (cases x)
    case (Arrive bs)
    from tcp_arrive [OF m Cons.prems, of bs] obtain s1 where s1: "on_recv env i (ReadData bs) s = Some s1"
      "tcp_live i tag s1" "tcp_buffered i s1 = tcp_buffered i s @ bs" by blast
    from Cons.IH [OF s1(2)] s1 Arrive show ?thesis by auto
  next
    case (Fetch len)
    from tcp_fetch [OF m Cons.prems, of len] obtain s1 r where
      s1: "libuv_socket_receive env (int i) tag True len s = Some (Some r, s1)" "tcp_live i tag s1"
      "rr_data r = take len (tcp_buffered i s)" "tcp_buffered i s1 = drop len (tcp_buffered i s)" by blast
    from Cons.IH [OF s1(2)] obtain out s' where "tcp_run env i tag ops s1 = Some (out, s')" "tcp_live i tag s'"
      "tcp_buffered i s1 @ arrived ops = out @ tcp_buffered i s'" by blast
    moreover have "tcp_buffered i s = rr_data r @ tcp_buffered i s1" by (simp add: s1)
    ultimately show ?thesis using s1(1) Fetch by auto
  qed
qed simp

section \<open>The datagrams of a UDP socket\<close>

lemma htons_involution [simp]: "htons (htons p) = p"
proof (rule bit_word_eqI)
  fix n
  assume "n < LENGTH(16)"
  then show "bit (htons (htons p)) n = bit p n"
    by (auto simp: htons_def bit_or_iff bit_push_bit_iff bit_drop_bit_eq dest: bit_imp_le_length)
qed

text \<open>No datagram is longer than 64 KiB, the size of the buffer with which the queue is read here.\<close>

definition udp_live :: "nat \<Rightarrow> u64 \<Rightarrow> net \<Rightarrow> bool" where
  "udp_live i tag s \<longleftrightarrow> i < length (ns_sockets s) \<and> tag \<noteq> 0 \<and>
     (let c = ns_sockets s ! i in uc_tag c = tag \<and> uc_state c \<noteq> SC_CLOSED \<and> \<not> uc_is_tcp c \<and>
        (\<forall>d\<in>set (uc_udp_data c). length (ud_data d) \<le> 65536))"

definition udp_queued :: "nat \<Rightarrow> net \<Rightarrow> uv_udp_data list" where
  "udp_queued i s = uc_udp_data (ns_sockets s ! i)"

definition udp_offer :: "nenv \<Rightarrow> nat \<Rightarrow> uv_udp_data \<Rightarrow> net \<Rightarrow> bool \<times> net" where
  "udp_offer env i d s =
     (if 65536 < length (ud_data d) then (False, s)
      else case on_recv_udp env i (ReadData (ud_data d)) (Some (ud_ip d, ud_port d)) s of
             None \<Rightarrow> (False, s) | Some s' \<Rightarrow> (udp_queued i s' \<noteq> udp_queued i s, s'))"

definition udp_poll :: "nenv \<Rightarrow> nat \<Rightarrow> u64 \<Rightarrow> net \<Rightarrow> uv_udp_data option \<times> net" where
  "udp_poll env i tag s =
     (if udp_queued i s = [] then (None, s)
      else case libuv_socket_receive env (int i) tag True 65536 s of
             Some (Some r, s') \<Rightarrow>
               (case rr_remote r of None \<Rightarrow> (None, s')
                | Some (ip, port) \<Rightarrow> (Some \<lparr>ud_ip = ip, ud_port = htons port, ud_data = rr_data r\<rparr>, s'))
           | _ \<Rightarrow> (None, s))"

lemma udp_arrive:
  assumes l: "udp_live i tag s" and short: "length (ud_data d) \<le> 65536"
    and r: "on_recv_udp env i (ReadData (ud_data d)) (Some (ud_ip d, ud_port d)) s = Some s'"
  shows "udp_live i tag s' \<and> (udp_queued i s' = udp_queued i s \<or> udp_queued i s' = udp_queued i s @ [d])"
proof -
  let ?c = "ns_sockets s ! i" and ?f = "\<lambda>c. c\<lparr>uc_udp_data := uc_udp_data c @ [d]\<rparr>"
  have i: "i < length (ns_sockets s)" using l by (simp add: udp_live_def)
  have dd: "\<lparr>ud_ip = ud_ip d, ud_port = ud_port d, ud_data = ud_data d\<rparr> = d" by simp
  consider "ns_sockets s' = ns_sockets s" | "ns_sockets s' = (ns_sockets s)[i := ?f ?c]"
    using r i unfolding dd by (auto simp: dd on_recv_udp_def sock_def Let_def heap_alloc_def upd_sock_def dest!: cb_same split: if_splits)
  then show ?thesis
    by cases (use l short i in \<open>auto simp: udp_live_def udp_queued_def Let_def\<close>)
qed

lemma udp_fetch:
  assumes l: "udp_live i tag s" and q: "udp_queued i s = d # ds"
  shows "\<exists>s'. udp_poll env i tag s = (Some d, s') \<and> udp_live i tag s' \<and> udp_queued i s' = ds"
proof -
  let ?s = "(upd_sock i (\<lambda>c. c\<lparr>uc_udp_data := ds\<rparr>) s)\<lparr>ns_lost := ns_lost s @ [d]\<rparr>"
  have i: "i < length (ns_sockets s)" and d: "length (ud_data d) \<le> 65536"
    using l q by (auto simp: udp_live_def udp_queued_def Let_def)
  have c: "check_socket_id (int i) tag s = Some i" "\<not> uc_is_tcp (ns_sockets s ! i)"
    using l by (auto simp: udp_live_def check_socket_id_def Let_def)
  have "libuv_socket_receive env (int i) tag True 65536 s =
      Some (Some \<lparr>rr_ret = length (ud_data d), rr_data = ud_data d, rr_remote = Some (ud_ip d, htons (ud_port d))\<rparr>, ?s)"
    using c q d by (simp add: libuv_socket_receive_def receive_udp_def udp_queued_def min_def Let_def)
  then have "udp_poll env i tag s = (Some d, ?s)" using q by (simp add: udp_poll_def)
  moreover have "udp_live i tag ?s \<and> udp_queued i ?s = ds"
    using l q i by (auto simp: udp_live_def udp_queued_def Let_def)
  ultimately show ?thesis by blast
qed

interpretation udpq: fifo_store "udp_offer env i" "udp_poll env i tag" "udp_queued i" "udp_live i tag"
    "\<lambda>s. True" for env i tag
proof
  fix s d s'
  assume l: "udp_live i tag s"
  note arrive = udp_arrive [OF l]
  show "udp_offer env i d s = (True, s') \<Longrightarrow> udp_live i tag s' \<and> udp_queued i s' = udp_queued i s @ [d]"
    using arrive [of d env] by (auto simp: udp_offer_def split: if_splits option.splits)
  show "udp_offer env i d s = (False, s') \<Longrightarrow> udp_live i tag s' \<and> udp_queued i s' = udp_queued i s"
    using arrive [of d env] l by (auto simp: udp_offer_def split: if_splits option.splits)
  have empty: "udp_queued i s = [] \<Longrightarrow> udp_poll env i tag s = (None, s)" by (simp add: udp_poll_def)
  show "udp_poll env i tag s = (None, s') \<Longrightarrow> udp_live i tag s' \<and> udp_queued i s' = udp_queued i s"
    using udp_fetch [OF l, of _ _ env] empty l by (cases "udp_queued i s") auto
  show "udp_poll env i tag s = (Some d, s') \<Longrightarrow> udp_live i tag s' \<and> udp_queued i s = d # udp_queued i s'"
    using udp_fetch [OF l, of _ _ env] empty by (cases "udp_queued i s") auto
  show "True \<Longrightarrow> udp_queued i s \<noteq> [] \<Longrightarrow> fst (udp_poll env i tag s) \<noteq> None"
    using udp_fetch [OF l, of _ _ env] by (cases "udp_queued i s") auto
qed

section \<open>Properties\<close>

text \<open>An environment in which every allocation and every call of libuv succeeds.\<close>

definition env_fine :: nenv where
  "env_fine = \<lparr>en_mem = \<lambda>_. True, en_ret = \<lambda>_. 0\<rparr>"

text \<open>C22: In every reachable state of the adapter, whatever the core calls, libuv reports and the
  allocator refuses: tags identify sockets (no two entries have the same nonzero tag, and none has a
  tag that is yet to be issued), and each TCP receive buffer is exactly as long as its recorded size.\<close>

theorem net_table_invariant:
  assumes "net_reach env s" and "j < max_sock_num" and "k < max_sock_num"
  shows "(uc_tag (ns_sockets s ! j) = uc_tag (ns_sockets s ! k) \<longrightarrow> j = k \<or> uc_tag (ns_sockets s ! j) = 0) \<and>
     uc_tag (ns_sockets s ! j) < ns_tag_counter s \<and>
     (case uc_recv_buff (ns_sockets s ! j) of None \<Rightarrow> uc_recv_size (ns_sockets s ! j) = 0
      | Some b \<Rightarrow> length b = uc_recv_size (ns_sockets s ! j))"
  using net_reach_inv [OF assms(1)] assms(2,3) unfolding net_inv_def conn_ok_def by metis

theorem net_table_invariant_witness:
  "uc_tag (ns_sockets net_start ! 0) < ns_tag_counter net_start"
  using net_table_invariant [OF reach_start [of env_fine], of 0 1] by simp



text \<open>C25: \<open>libuv_create_socket\<close> finds a free entry if there is one, wherever the search starts. It fails
  only when all eight entries are taken. The entry it returns was free, is usable with the new tag, and
  the new tag was not in use; the other entries are untouched.\<close>

theorem net_create_socket:
  assumes "net_reach env s" and "ns_tag_counter s \<noteq> -1" and "libuv_create_socket env tcp p v6 s = (r, t, s')"
  shows "(r = -1 \<and> (\<forall>j<max_sock_num. \<not> socket_free (ns_sockets s ! j))) \<or>
     (\<exists>i<max_sock_num. r = int i \<and> socket_free (ns_sockets s ! i) \<and> check_socket_id r t s' = Some i \<and>
        (\<forall>j<max_sock_num. uc_tag (ns_sockets s ! j) \<noteq> t) \<and>
        (\<forall>j<max_sock_num. j \<noteq> i \<longrightarrow> ns_sockets s' ! j = ns_sockets s ! j))"
proof -
  note inv = net_reach_inv [OF assms(1)]
  have len: "length (ns_sockets s) = max_sock_num" and nz: "ns_tag_counter s \<noteq> 0"
    and old: "\<forall>j<max_sock_num. uc_tag (ns_sockets s ! j) < ns_tag_counter s"
    using inv by (auto simp: net_inv_def)
  from create_cases [OF inv assms(3)] show ?thesis
  proof (elim conjE disjE exE)
    fix i
    assume t: "t = ns_tag_counter s" and i: "i < max_sock_num" "r = int i" "socket_free (ns_sockets s ! i)"
      and s': "ns_sockets s' = (ns_sockets s)[i := (ns_sockets s ! i)\<lparr>uc_tag := t, uc_param := p, uc_is_tcp := tcp, uc_is_ipv6 := v6, uc_state := SC_USED\<rparr>]"
    have "check_socket_id r t s' = Some i" using i len nz t by (simp add: check_socket_id_def s' Let_def)
    moreover have "\<forall>j<max_sock_num. uc_tag (ns_sockets s ! j) \<noteq> t" using old t by auto
    moreover have "\<forall>j<max_sock_num. j \<noteq> i \<longrightarrow> ns_sockets s' ! j = ns_sockets s ! j" by (simp add: s')
    ultimately show ?thesis using i by blast
  qed blast
qed

theorem net_create_socket_witness:
  "\<exists>i<max_sock_num. fst (libuv_create_socket env_fine True 7 False net_start) = int i"
proof -
  obtain r t s' where c: "libuv_create_socket env_fine True 7 False net_start = (r, t, s')" by (metis prod_cases3)
  have "socket_free (ns_sockets net_start ! 0)" "ns_tag_counter net_start \<noteq> -1"
    by (simp_all add: net_start_def socket_free_def)
  with net_create_socket [OF reach_start _ c] c show ?thesis by fastforce
qed

text \<open>C1: TCP data arrives unchanged, in order and exactly once: for any interleaving of arriving
  segments and of \<open>libuv_socket_receive\<close> calls of any sizes on a live connection, with memory
  available, all calls are defined, and what was buffered followed by what arrived is what the
  calls returned followed by what is still buffered.\<close>

theorem tcp_stream:
  assumes "mem_ok env" and "tcp_live i tag s"
  shows "\<exists>out s'. tcp_run env i tag ops s = Some (out, s') \<and>
     tcp_buffered i s @ arrived ops = out @ tcp_buffered i s'"
  using tcp_run_stream [OF assms] by blast

text \<open>A state in which socket 0 is a connected TCP socket with tag 9.\<close>

definition net_tcp :: "sc_state \<Rightarrow> u64 \<Rightarrow> byte list option \<Rightarrow> net" where
  "net_tcp st t b = upd_sock 0 (\<lambda>c. c\<lparr>uc_state := st, uc_tag := t, uc_is_tcp := True, uc_recv_buff := b,
     uc_recv_size := (case b of None \<Rightarrow> 0 | Some bs \<Rightarrow> length bs)\<rparr>) net_start"

theorem tcp_stream_witness:
  "\<exists>out s'. tcp_run env_fine 0 9 [Arrive [1, 2, 3], Fetch 2, Arrive [4], Fetch 5] (net_tcp SC_CONNECTED 9 None) = Some (out, s') \<and>
     [1, 2, 3, 4] = out @ tcp_buffered 0 s'"
proof -
  have l: "mem_ok env_fine" "tcp_live 0 9 (net_tcp SC_CONNECTED 9 None)" "tcp_buffered 0 (net_tcp SC_CONNECTED 9 None) = []"
    by (simp_all add: mem_ok_def env_fine_def tcp_live_def net_tcp_def net_start_def upd_sock_def conn_ok_def tcp_buffered_def)
  from tcp_stream [OF l(1,2), of "[Arrive [1, 2, 3], Fetch 2, Arrive [4], Fetch 5]"] l(3) show ?thesis by simp
qed


definition net_udp :: net where
  "net_udp = upd_sock 0 (\<lambda>c. c\<lparr>uc_state := SC_CONNECTED, uc_tag := 9, uc_is_tcp := False\<rparr>) net_start"


text \<open>A failed connection is not given back. After \<open>on_connect\<close> reported an error, the entry is closed
  but keeps its tag: closing it with its tag is refused, force-closing it does nothing although it reports
  success, and the entry is not free for \<open>libuv_create_socket\<close>.\<close>

theorem net_connect_failed:
  assumes "i < length (ns_sockets s)" and "uc_tag (ns_sockets s ! i) = tag" and "tag \<noteq> 0" and "status \<noteq> 0"
    and "on_connect env i status s = Some s1"
  shows "libuv_socket_close env (int i) tag s1 = Some (-1, s1) \<and> libuv_socket_disconnect env (int i) tag s1 = Some (-1, s1) \<and>
     libuv_socket_force_close env (int i) s1 = Some (0, s1) \<and> \<not> socket_free (ns_sockets s1 ! i)"
proof -
  from assms(4,5) have "ns_sockets s1 = ns_sockets (set_socket_state i SC_CLOSED s)"
    using cb_same by (auto simp: on_connect_def)
  then have c: "ns_sockets s1 ! i = (ns_sockets s ! i)\<lparr>uc_state := SC_CLOSED\<rparr>" "i < length (ns_sockets s1)"
    using assms(1) by (auto simp: set_socket_state_def)
  then show ?thesis using assms(2,3)
    by (simp add: libuv_socket_close_def libuv_socket_disconnect_def libuv_socket_force_close_def
        check_socket_id_def socket_free_def)
qed

theorem net_connect_failed_witness:
  "\<exists>s1. on_connect env_fine 0 (-111) (net_tcp SC_CONNECTING 9 None) = Some s1 \<and>
     libuv_socket_force_close env_fine 0 s1 = Some (0, s1) \<and> \<not> socket_free (ns_sockets s1 ! 0)"
proof -
  let ?s = "net_tcp SC_CONNECTING 9 None"
  have i: "0 < length (ns_sockets ?s)" "uc_tag (ns_sockets ?s ! 0) = 9" "mem_ok env_fine"
    by (simp_all add: net_tcp_def net_start_def upd_sock_def mem_ok_def env_fine_def)
  have "0 < length (ns_sockets (set_socket_state 0 SC_CLOSED ?s))"
    using evolves_set_state [of 0 ?s SC_CLOSED] i(1) by (simp add: evolves_def)
  from cb_total [OF i(3) this, of EV_NW_SOCKET_ERROR 0 0] obtain s1 where
    s1: "on_connect env_fine 0 (-111) ?s = Some s1" by (auto simp: on_connect_def)
  with net_connect_failed [OF i(1,2) _ _ s1] show ?thesis by simp
qed

text \<open>A new connection can start with bytes of the previous one: a socket that was closed with unread
  data and reused before \<open>libuv_socket_clean\<close> delivers the old bytes to the first reader of the new one.\<close>

theorem net_stale_bytes:
  assumes "net_inv s" and "libuv_create_socket env True p v6 s = (int i, t, s')" and "mem_ok env"
    and "tcp_buffered i s = old"
  shows "\<exists>s'' r. libuv_socket_receive env (int i) t True len s' = Some (Some r, s'') \<and> rr_data r = take len old"
proof -
  have len: "length (ns_sockets s) = max_sock_num" and nz: "ns_tag_counter s \<noteq> 0"
    using assms(1) by (auto simp: net_inv_def)
  from create_cases [OF assms(1,2)] have i: "i < max_sock_num" "t = ns_tag_counter s"
    and s': "ns_sockets s' = (ns_sockets s)[i := (ns_sockets s ! i)\<lparr>uc_tag := t, uc_param := p, uc_is_tcp := True, uc_is_ipv6 := v6, uc_state := SC_USED\<rparr>]"
    by auto
  have "conn_ok (ns_sockets s ! i)" using assms(1) i(1) by (simp add: net_inv_def)
  then have "tcp_live i t s'" using i len nz
    by (auto simp: tcp_live_def s' conn_ok_def Let_def split: option.splits)
  moreover have "tcp_buffered i s' = old" using assms(4) i len by (simp add: tcp_buffered_def s')
  ultimately show ?thesis using tcp_fetch [OF assms(3), of i t s' len] by auto
qed

theorem net_stale_bytes_witness:
  "\<exists>i s' r s''. libuv_create_socket env_fine True 0 False (net_tcp SC_CLOSED 0 (Some [1, 2])) = (int i, 0xFAFB, s') \<and>
     libuv_socket_receive env_fine (int i) 0xFAFB True 10 s' = Some (Some r, s'') \<and> rr_data r = [1, 2]"
proof -
  let ?s = "net_tcp SC_CLOSED 0 (Some [1, 2])"
  have inv: "net_inv ?s"
    by (auto simp: net_inv_def net_tcp_def net_start_def upd_sock_def conn_ok_def nth_list_update nth_Cons split: nat.splits)
  obtain s' where c: "libuv_create_socket env_fine True 0 False ?s = (int 0, 0xFAFB, s')"
    by (simp add: libuv_create_socket_def net_tcp_def net_start_def upd_sock_def socket_free_def upt_rec)
  have "mem_ok env_fine" "tcp_buffered 0 ?s = [1, 2]"
    by (simp_all add: mem_ok_def env_fine_def tcp_buffered_def net_tcp_def net_start_def upd_sock_def)
  from net_stale_bytes [OF inv c this, of 10] c show ?thesis by auto
qed

end
