(* ===== verification/Tp_Pc.thy ===== *)
theory Tp_Pc
  imports Luatos_Prelude
begin

text \<open>
  The touch driver of \<open>port/driver/luat_tp_pc.c\<close>: SDL mouse and finger events are turned into touch
  events, kept in a ring of eight entries and handed to the touch task by \<open>luat_tp_pc_read\<close>. A single
  event is kept beside the ring for compatibility. The lemmas show that the ring implements a
  list of the seven latest events, and what the reader gets.
\<close>

section \<open>State\<close>

datatype tp_event_type = TP_EVENT_TYPE_NONE | TP_EVENT_TYPE_DOWN | TP_EVENT_TYPE_UP | TP_EVENT_TYPE_MOVE

record luat_tp_data =
  tp_event :: tp_event_type
  tp_track_id :: byte
  tp_x :: u16
  tp_y :: u16
  tp_width :: u16
  tp_timestamp :: u32

abbreviation tp_zero :: luat_tp_data where
  "tp_zero \<equiv> \<lparr>tp_event = TP_EVENT_TYPE_NONE, tp_track_id = 0, tp_x = 0, tp_y = 0, tp_width = 0, tp_timestamp = 0\<rparr>"

record tp_pc_state =
  ts_has_event :: bool
  ts_ev :: luat_tp_data
  ts_last_valid_x :: u16
  ts_last_valid_y :: u16
  ts_data_consumed :: bool
  ts_event_queue_size :: nat
  ts_event_queue :: "luat_tp_data list"
  ts_queue_head :: nat
  ts_queue_tail :: nat
  ts_queue_enabled :: bool

text \<open>What the driver uses of \<open>luat_tp_config_t\<close>; \<open>tc_wakes\<close> counts the messages to the touch task. The
  length of \<open>tc_tp_data\<close> is \<open>LUAT_TP_TOUCH_MAX\<close>.\<close>

record tp_config =
  tc_w :: int
  tc_h :: int
  tc_tp_num :: nat
  tc_tp_data :: "luat_tp_data list"
  tc_wakes :: nat

section \<open>The ring\<close>

definition enqueue_event :: "luat_tp_data option \<Rightarrow> tp_pc_state \<Rightarrow> (int \<times> tp_pc_state) option" where
  "enqueue_event event s =
     (case event of None \<Rightarrow> Some (-1, s)
      | Some e \<Rightarrow>
          if \<not> ts_queue_enabled s then Some (-1, s)
          else if ts_event_queue_size s = 0 then None
          else let next_tail = (ts_queue_tail s + 1) mod ts_event_queue_size s;
                   s1 = (if next_tail = ts_queue_head s
                         then s\<lparr>ts_queue_head := (ts_queue_head s + 1) mod ts_event_queue_size s\<rparr> else s)
               in if ts_queue_tail s1 < length (ts_event_queue s1)
                  then Some (0, s1\<lparr>ts_event_queue := (ts_event_queue s1)[ts_queue_tail s1 := e], ts_queue_tail := next_tail\<rparr>)
                  else None)"

definition dequeue_event :: "tp_pc_state \<Rightarrow> (luat_tp_data option \<times> tp_pc_state) option" where
  "dequeue_event s =
     (if \<not> ts_queue_enabled s then Some (None, s)
      else if ts_queue_head s = ts_queue_tail s then Some (None, s)
      else if ts_event_queue_size s = 0 \<or> length (ts_event_queue s) \<le> ts_queue_head s then None
      else Some (Some (ts_event_queue s ! ts_queue_head s),
                 s\<lparr>ts_queue_head := (ts_queue_head s + 1) mod ts_event_queue_size s\<rparr>))"

definition get_queue_count :: "tp_pc_state \<Rightarrow> int" where
  "get_queue_count s =
     (if \<not> ts_queue_enabled s then 0
      else if ts_queue_head s \<le> ts_queue_tail s then int (ts_queue_tail s) - int (ts_queue_head s)
      else int (ts_event_queue_size s) - int (ts_queue_head s) + int (ts_queue_tail s))"

section \<open>Events\<close>

text \<open>The SDL events that the driver looks at. The position of a finger is a floating-point number \<open>'f\<close>
  between 0 and 1; its product with the width or height, truncated to 16 bits, is the parameter \<open>scale\<close>.\<close>

datatype 'f sdl_event = MouseDown bool int int | MouseMotion bool int int | MouseUp bool int int
  | FingerDown 'f 'f | FingerMotion 'f 'f | FingerUp 'f 'f | OtherEvent

definition touch :: "tp_event_type \<Rightarrow> u16 \<Rightarrow> u16 \<Rightarrow> u32 \<Rightarrow> luat_tp_data" where
  "touch ty x y now = \<lparr>tp_event = ty, tp_track_id = 0, tp_x = x, tp_y = y, tp_width = 1, tp_timestamp = now\<rparr>"

definition mark_valid :: "luat_tp_data \<Rightarrow> tp_pc_state \<Rightarrow> tp_pc_state" where
  "mark_valid e s = s\<lparr>ts_last_valid_x := tp_x e, ts_last_valid_y := tp_y e\<rparr>"

text \<open>The event for the touch task, if any, and whether its position becomes the last valid one. The flag of
  a button event is \<open>button == SDL_BUTTON_LEFT\<close>, that of a motion event \<open>state & SDL_BUTTON_LMASK\<close>.\<close>

fun sdl_touch :: "('f \<Rightarrow> int \<Rightarrow> u16) \<Rightarrow> tp_config \<Rightarrow> u32 \<Rightarrow> 'f sdl_event \<Rightarrow> tp_pc_state \<Rightarrow> (luat_tp_data \<times> bool) option" where
  "sdl_touch scale conf now (MouseDown left x y) s =
     (if left then Some (touch TP_EVENT_TYPE_DOWN (of_int x) (of_int y) now, True) else None)"
| "sdl_touch scale conf now (MouseMotion left x y) s =
     (if left
      then if x < 0 \<or> tc_w conf \<le> x \<or> y < 0 \<or> tc_h conf \<le> y
           then Some (touch TP_EVENT_TYPE_UP (ts_last_valid_x s) (ts_last_valid_y s) now, False)
           else Some (touch TP_EVENT_TYPE_MOVE (of_int x) (of_int y) now, True)
      else None)"
| "sdl_touch scale conf now (MouseUp left x y) s =
     (if left
      then if 0 \<le> x \<and> x < tc_w conf \<and> 0 \<le> y \<and> y < tc_h conf
           then Some (touch TP_EVENT_TYPE_UP (of_int x) (of_int y) now, False)
           else Some (touch TP_EVENT_TYPE_UP (ts_last_valid_x s) (ts_last_valid_y s) now, False)
      else None)"
| "sdl_touch scale conf now (FingerDown fx fy) s =
     Some (touch TP_EVENT_TYPE_DOWN (scale fx (tc_w conf)) (scale fy (tc_h conf)) now, True)"
| "sdl_touch scale conf now (FingerMotion fx fy) s =
     Some (touch TP_EVENT_TYPE_MOVE (scale fx (tc_w conf)) (scale fy (tc_h conf)) now, True)"
| "sdl_touch scale conf now (FingerUp fx fy) s =
     Some (touch TP_EVENT_TYPE_UP (scale fx (tc_w conf)) (scale fy (tc_h conf)) now, False)"
| "sdl_touch scale conf now OtherEvent s = None"

text \<open>\<open>tp_sdl_watch\<close> without its logging and its delay after a down event.\<close>

definition tp_sdl_watch ::
    "('f \<Rightarrow> int \<Rightarrow> u16) \<Rightarrow> tp_config option \<Rightarrow> u32 \<Rightarrow> 'f sdl_event \<Rightarrow> tp_pc_state \<Rightarrow> (int \<times> tp_config option \<times> tp_pc_state) option" where
  "tp_sdl_watch scale conf now e s =
     (case conf of None \<Rightarrow> Some (0, None, s)
      | Some c \<Rightarrow>
          (case sdl_touch scale c now e s of None \<Rightarrow> Some (0, conf, s)
           | Some (ev, valid) \<Rightarrow>
               let s1 = (if valid then mark_valid ev s else s);
                   woken = c\<lparr>tc_wakes := tc_wakes c + 1\<rparr> in
               if ts_queue_enabled s1
               then do { (result, s2) \<leftarrow> enqueue_event (Some ev) s1;
                         if result = 0 then Some (0, Some woken, s2\<lparr>ts_ev := ev, ts_has_event := True\<rparr>)
                         else Some (0, conf, s2) }
               else Some (0, Some woken, s1\<lparr>ts_ev := ev, ts_has_event := True\<rparr>)))"

definition luat_tp_pc_init :: "tp_config option \<Rightarrow> tp_pc_state \<Rightarrow> int \<times> tp_config option \<times> tp_pc_state" where
  "luat_tp_pc_init conf s =
     (case conf of None \<Rightarrow> (-1, None, s)
      | Some c \<Rightarrow>
          (0, Some (c\<lparr>tc_tp_num := (if tc_tp_num c = 0 then 1 else tc_tp_num c),
                      tc_tp_data := map (\<lambda>i. \<lparr>tp_event = TP_EVENT_TYPE_NONE, tp_track_id = of_nat i, tp_x = 0, tp_y = 0,
                                            tp_width = 1, tp_timestamp = 0\<rparr>) [0..<length (tc_tp_data c)]\<rparr>),
           \<lparr>ts_has_event = False, ts_ev = tp_zero, ts_last_valid_x = 0, ts_last_valid_y = 0, ts_data_consumed = True,
            ts_event_queue_size = 8, ts_event_queue = replicate 8 tp_zero, ts_queue_head = 0, ts_queue_tail = 0,
            ts_queue_enabled = True\<rparr>))"

section \<open>Reading\<close>

definition next_event :: "tp_pc_state \<Rightarrow> (luat_tp_data option \<times> tp_pc_state) option" where
  "next_event s =
     (if ts_queue_enabled s
      then do { (d, s1) \<leftarrow> dequeue_event s;
                (case d of Some e \<Rightarrow> Some (Some e, s1)
                 | None \<Rightarrow> if ts_has_event s1 then Some (Some (ts_ev s1), s1\<lparr>ts_has_event := False\<rparr>) else Some (None, s1)) }
      else if ts_has_event s then Some (Some (ts_ev s), s\<lparr>ts_has_event := False\<rparr>) else Some (None, s))"

definition luat_tp_pc_read :: "tp_config option \<Rightarrow> tp_pc_state \<Rightarrow> (int \<times> tp_config option \<times> tp_pc_state) option" where
  "luat_tp_pc_read conf s =
     (case conf of None \<Rightarrow> Some (-1, None, s)
      | Some c \<Rightarrow>
          do { (found, s1) \<leftarrow> next_event s;
               (case found of
                  Some e \<Rightarrow>
                    if length (tc_tp_data c) = 0 then None
                    else let d = (tc_tp_data c)[0 := e];
                             d1 = (if 1 < tc_tp_num c \<and> 1 < length (tc_tp_data c) then d[1 := e] else d)
                         in Some (0, Some (c\<lparr>tc_tp_data := d1\<rparr>), s1\<lparr>ts_data_consumed := False\<rparr>)
                | None \<Rightarrow>
                    if ts_data_consumed s1
                    then let n = min (tc_tp_num c) (length (tc_tp_data c)) in
                         Some (0, Some (c\<lparr>tc_tp_data := map (\<lambda>d. d\<lparr>tp_event := TP_EVENT_TYPE_NONE\<rparr>) (take n (tc_tp_data c)) @
                                                        drop n (tc_tp_data c)\<rparr>), s1)
                    else Some (0, conf, s1)) })"

definition luat_tp_pc_read_done :: "tp_config option \<Rightarrow> tp_pc_state \<Rightarrow> tp_pc_state" where
  "luat_tp_pc_read_done conf s = (case conf of None \<Rightarrow> s | Some c \<Rightarrow> s\<lparr>ts_data_consumed := True\<rparr>)"

definition luat_tp_pc_deinit :: "tp_config option \<Rightarrow> tp_pc_state \<Rightarrow> tp_pc_state" where
  "luat_tp_pc_deinit conf s =
     (case conf of None \<Rightarrow> s
      | Some c \<Rightarrow> if ts_queue_enabled s then s\<lparr>ts_queue_head := 0, ts_queue_tail := 0, ts_queue_enabled := False\<rparr> else s)"

section \<open>The ring as a list\<close>

definition ring_inv :: "tp_pc_state \<Rightarrow> bool" where
  "ring_inv s \<longleftrightarrow> ts_queue_enabled s \<and> ts_event_queue_size s = 8 \<and> length (ts_event_queue s) = 8 \<and>
     ts_queue_head s < 8 \<and> ts_queue_tail s < 8"

definition ring_count :: "nat \<Rightarrow> nat \<Rightarrow> nat" where
  "ring_count h t = (t + 8 - h) mod 8"

definition ring_list :: "tp_pc_state \<Rightarrow> luat_tp_data list" where
  "ring_list s = map (\<lambda>k. ts_event_queue s ! ((ts_queue_head s + k) mod 8)) [0..<ring_count (ts_queue_head s) (ts_queue_tail s)]"

text \<open>The specification: seven events are kept, and the oldest one makes room.\<close>

definition latest :: "luat_tp_data \<Rightarrow> luat_tp_data list \<Rightarrow> luat_tp_data list" where
  "latest e xs = (if length xs = 7 then tl xs else xs) @ [e]"

lemma ring_count_less: "ring_count h t < 8"
  by (simp add: ring_count_def)

lemma ring_count_eq:
  "h < 8 \<Longrightarrow> t < 8 \<Longrightarrow> ring_count h t = (if h \<le> t then t - h else 8 - h + t)"
  by (auto simp: ring_count_def mod_if)

lemma get_queue_count_ring: "ring_inv s \<Longrightarrow> get_queue_count s = int (length (ring_list s))"
  by (auto simp: ring_inv_def get_queue_count_def ring_list_def ring_count_eq)

lemma ring_index: "h < 8 \<Longrightarrow> t < 8 \<Longrightarrow> k < 8 \<Longrightarrow> (h + k) mod 8 = t \<longleftrightarrow> k = ring_count h t"
  by (auto simp: ring_count_eq mod_if split: if_splits)

lemma ring_count_tail: "h < 8 \<Longrightarrow> t < 8 \<Longrightarrow> ring_count h ((t + 1) mod 8) = (ring_count h t + 1) mod 8"
  by (auto simp: ring_count_def mod_if split: if_splits)

lemma ring_count_head: "h < 8 \<Longrightarrow> t < 8 \<Longrightarrow> h \<noteq> t \<Longrightarrow> ring_count ((h + 1) mod 8) t = ring_count h t - 1"
  by (auto simp: ring_count_def mod_if split: if_splits)

lemma ring_full: "h < 8 \<Longrightarrow> t < 8 \<Longrightarrow> (t + 1) mod 8 = h \<longleftrightarrow> ring_count h t = 7"
  by (auto simp: ring_count_eq mod_if split: if_splits)

lemma ring_empty: "h < 8 \<Longrightarrow> t < 8 \<Longrightarrow> ring_count h t = 0 \<longleftrightarrow> h = t"
  by (auto simp: ring_count_eq split: if_splits)

lemma length_ring_list: "length (ring_list s) = ring_count (ts_queue_head s) (ts_queue_tail s)"
  by (simp add: ring_list_def)

lemma ring_list_nth:
  "k < length (ring_list s) \<Longrightarrow> ring_list s ! k = ts_event_queue s ! ((ts_queue_head s + k) mod 8)"
  by (simp add: ring_list_def)

lemma ring_tl:
  assumes "ring_inv s" and "ts_queue_head s \<noteq> ts_queue_tail s"
  shows "ring_list (s\<lparr>ts_queue_head := (ts_queue_head s + 1) mod 8\<rparr>) = tl (ring_list s)" (is "ring_list ?s = _")
proof (rule nth_equalityI)
  have h: "ts_queue_head s < 8" "ts_queue_tail s < 8" using assms(1) by (auto simp: ring_inv_def)
  show len: "length (ring_list ?s) = length (tl (ring_list s))"
    using ring_count_head [OF h assms(2)] by (simp add: length_ring_list)
  fix k
  assume k: "k < length (ring_list ?s)"
  then have k1: "Suc k < length (ring_list s)" using len by simp
  have "((ts_queue_head s + 1) mod 8 + k) mod 8 = (ts_queue_head s + Suc k) mod 8" by (simp add: mod_simps)
  with k k1 show "ring_list ?s ! k = tl (ring_list s) ! k"
    by (simp add: ring_list_nth nth_tl)
qed

lemma ring_snoc:
  assumes inv: "ring_inv s" and room: "length (ring_list s) < 7"
  shows "ring_list (s\<lparr>ts_event_queue := (ts_event_queue s)[ts_queue_tail s := e], ts_queue_tail := (ts_queue_tail s + 1) mod 8\<rparr>)
     = ring_list s @ [e]" (is "ring_list ?s = _")
proof (rule nth_equalityI)
  let ?h = "ts_queue_head s" and ?t = "ts_queue_tail s"
  have h: "?h < 8" "?t < 8" and q: "length (ts_event_queue s) = 8" using inv by (auto simp: ring_inv_def)
  have c: "ring_count ?h ((?t + 1) mod 8) = ring_count ?h ?t + 1"
    using ring_count_tail [OF h] room by (simp add: length_ring_list)
  then show len: "length (ring_list ?s) = length (ring_list s @ [e])" by (simp add: length_ring_list)
  fix k
  assume k: "k < length (ring_list ?s)"
  then have "k \<le> ring_count ?h ?t" "k < 8" using c room by (auto simp: length_ring_list)
  then show "ring_list ?s ! k = (ring_list s @ [e]) ! k"
    using k h q ring_index [OF h, of k]
    by (cases "k = ring_count ?h ?t") (auto simp: ring_list_nth nth_append length_ring_list nth_list_update)
qed

lemma enqueue_latest:
  assumes inv: "ring_inv s"
  shows "\<exists>s'. enqueue_event (Some e) s = Some (0, s') \<and> ring_inv s' \<and> ring_list s' = latest e (ring_list s) \<and>
     ts_has_event s' = ts_has_event s \<and> ts_ev s' = ts_ev s \<and> ts_data_consumed s' = ts_data_consumed s"
proof -
  let ?h = "ts_queue_head s" and ?t = "ts_queue_tail s"
  let ?s1 = "if (?t + 1) mod 8 = ?h then s\<lparr>ts_queue_head := (?h + 1) mod 8\<rparr> else s"
  let ?s' = "?s1\<lparr>ts_event_queue := (ts_event_queue ?s1)[ts_queue_tail ?s1 := e], ts_queue_tail := (ts_queue_tail ?s1 + 1) mod 8\<rparr>"
  have h: "?h < 8" "?t < 8" using inv by (auto simp: ring_inv_def)
  have inv1: "ring_inv ?s1" using inv by (simp add: ring_inv_def)
  have tl: "ring_list ?s1 = (if length (ring_list s) = 7 then tl (ring_list s) else ring_list s)"
  proof (cases "(?t + 1) mod 8 = ?h")
    case True
    then have "length (ring_list s) = 7" using ring_full [OF h] by (simp add: length_ring_list)
    moreover have "?h \<noteq> ?t" using calculation ring_empty [OF h] by (auto simp: length_ring_list)
    ultimately show ?thesis using ring_tl [OF inv] True by simp
  next
    case False
    then show ?thesis using ring_full [OF h] by (simp add: length_ring_list)
  qed
  have "length (ring_list s) < 8" by (simp add: length_ring_list ring_count_less)
  then have "length (ring_list ?s1) < 7" unfolding tl by auto
  from ring_snoc [OF inv1 this, of e] tl have "ring_list ?s' = latest e (ring_list s)"
    by (simp add: latest_def)
  moreover have "enqueue_event (Some e) s = Some (0, ?s')"
    using inv by (simp add: enqueue_event_def ring_inv_def Let_def)
  moreover have "ring_inv ?s'" using inv1 by (simp add: ring_inv_def)
  ultimately show ?thesis by (intro exI [of _ ?s']) simp
qed

lemma dequeue_oldest:
  assumes inv: "ring_inv s"
  shows "\<exists>s'. dequeue_event s = Some (case ring_list s of [] \<Rightarrow> None | e # es \<Rightarrow> Some e, s') \<and> ring_inv s' \<and>
     ring_list s' = tl (ring_list s) \<and> ts_has_event s' = ts_has_event s \<and> ts_ev s' = ts_ev s \<and>
     ts_data_consumed s' = ts_data_consumed s"
proof (cases "ts_queue_head s = ts_queue_tail s")
  case True
  then have "ring_list s = []" using inv ring_empty by (simp add: ring_inv_def ring_list_def)
  with True inv show ?thesis by (simp add: dequeue_event_def ring_inv_def)
next
  case False
  let ?s = "s\<lparr>ts_queue_head := (ts_queue_head s + 1) mod 8\<rparr>"
  have h: "ts_queue_head s < 8" "ts_queue_tail s < 8" using inv by (auto simp: ring_inv_def)
  have pos: "0 < length (ring_list s)" using False ring_empty [OF h] by (simp add: length_ring_list)
  then obtain e es where e: "ring_list s = e # es" by (cases "ring_list s") auto
  have "e = ts_event_queue s ! ts_queue_head s" using ring_list_nth [OF pos] e h by simp
  then have "dequeue_event s = Some (Some e, ?s)"
    using False inv by (simp add: dequeue_event_def ring_inv_def)
  moreover have "ring_inv ?s" using inv by (simp add: ring_inv_def)
  ultimately show ?thesis using e ring_tl [OF inv False] by simp
qed

section \<open>Properties\<close>

definition last7 :: "'a list \<Rightarrow> 'a list" where
  "last7 xs = drop (length xs - 7) xs"

lemma length_last7: "length (last7 xs) = min 7 (length xs)"
  by (auto simp: last7_def)

lemma latest_last7: "latest e (last7 xs) = last7 (xs @ [e])"
proof (cases "length xs < 7")
  case False
  then have "Suc (length xs - 7) = Suc (length xs) - 7" by simp
  moreover have "tl (drop n xs) = drop (Suc n) xs" for n by (simp add: drop_Suc tl_drop)
  ultimately show ?thesis using False by (simp add: latest_def last7_def)
qed (auto simp: latest_def last7_def)

text \<open>A run of SDL events through \<open>tp_sdl_watch\<close>, with the touch events it produces.\<close>

fun watch_run :: "('f \<Rightarrow> int \<Rightarrow> u16) \<Rightarrow> (u32 \<times> 'f sdl_event) list \<Rightarrow> tp_config \<Rightarrow> tp_pc_state \<Rightarrow>
    (luat_tp_data list \<times> tp_config \<times> tp_pc_state) option" where
  "watch_run scale [] c s = Some ([], c, s)"
| "watch_run scale ((now, e) # evs) c s =
     do { (r, c1, s1) \<leftarrow> tp_sdl_watch scale (Some c) now e s;
          c2 \<leftarrow> c1;
          (ts, c3, s3) \<leftarrow> watch_run scale evs c2 s1;
          Some ((case sdl_touch scale c now e s of None \<Rightarrow> [] | Some (t, v) \<Rightarrow> [t]) @ ts, c3, s3) }"

lemma ring_list_fields [simp]:
  "ring_list (s\<lparr>ts_ev := e, ts_has_event := b\<rparr>) = ring_list s" "ring_list (mark_valid e s) = ring_list s"
  "ring_inv (s\<lparr>ts_ev := e, ts_has_event := b\<rparr>) = ring_inv s" "ring_inv (mark_valid e s) = ring_inv s"
  by (simp_all add: ring_list_def ring_inv_def mark_valid_def)

lemma watch_one:
  assumes inv: "ring_inv s"
  shows "\<exists>c' s'. tp_sdl_watch scale (Some c) now e s = Some (0, Some c', s') \<and> ring_inv s' \<and>
     (case sdl_touch scale c now e s of
        None \<Rightarrow> ring_list s' = ring_list s \<and> tc_wakes c' = tc_wakes c
      | Some (t, v) \<Rightarrow> ring_list s' = latest t (ring_list s) \<and> tc_wakes c' = tc_wakes c + 1 \<and> ts_ev s' = t \<and> ts_has_event s')"
proof (cases "sdl_touch scale c now e s")
  case None
  with inv show ?thesis by (simp add: tp_sdl_watch_def)
next
  case (Some tv)
  obtain t v where tv: "tv = (t, v)" by force
  let ?s1 = "if v then mark_valid t s else s"
  have inv1: "ring_inv ?s1" "ring_list ?s1 = ring_list s" "ts_queue_enabled ?s1"
    using inv by (auto simp: ring_inv_def mark_valid_def ring_list_def)
  from enqueue_latest [OF inv1(1), of t] inv1(2) obtain s2 where
    "enqueue_event (Some t) ?s1 = Some (0, s2)" "ring_inv s2" "ring_list s2 = latest t (ring_list s)" by auto
  with Some tv inv1(3) show ?thesis by (auto simp: tp_sdl_watch_def Let_def)
qed

lemma watch_run_last7:
  assumes "ring_inv s" and "ring_list s = last7 xs"
  shows "\<exists>ts c' s'. watch_run scale evs c s = Some (ts, c', s') \<and> ring_inv s' \<and> ring_list s' = last7 (xs @ ts) \<and>
     tc_wakes c' = tc_wakes c + length ts"
  using assms
proof (induction evs arbitrary: c s xs)
  case Nil
  then show ?case by simp
next
  case (Cons ne evs)
  obtain now e where ne: "ne = (now, e)" by force
  from watch_one [OF Cons.prems(1), of scale c now e] obtain c1 s1 where
    w: "tp_sdl_watch scale (Some c) now e s = Some (0, Some c1, s1)" "ring_inv s1"
    "case sdl_touch scale c now e s of None \<Rightarrow> ring_list s1 = ring_list s \<and> tc_wakes c1 = tc_wakes c
      | Some (t, v) \<Rightarrow> ring_list s1 = latest t (ring_list s) \<and> tc_wakes c1 = tc_wakes c + 1 \<and> ts_ev s1 = t \<and> ts_has_event s1"
    by blast
  let ?t = "case sdl_touch scale c now e s of None \<Rightarrow> [] | Some (t, v) \<Rightarrow> [t]"
  have "ring_list s1 = last7 (xs @ ?t)" "tc_wakes c1 = tc_wakes c + length ?t"
    using w(3) Cons.prems(2) by (auto simp: latest_last7 split: option.splits)
  with Cons.IH [OF w(2), of "xs @ ?t" c1] w(1) ne show ?case by auto
qed


abbreviation demo_conf :: tp_config where
  "demo_conf \<equiv> \<lparr>tc_w = 320, tc_h = 240, tc_tp_num = 0, tc_tp_data = replicate 5 tp_zero, tc_wakes = 0\<rparr>"


lemma read_found:
  assumes "next_event s = Some (Some e, s')" and "0 < length (tc_tp_data c)"
  shows "\<exists>c'. luat_tp_pc_read (Some c) s = Some (0, Some c', s'\<lparr>ts_data_consumed := False\<rparr>) \<and> tc_tp_data c' ! 0 = e \<and>
     length (tc_tp_data c') = length (tc_tp_data c) \<and> tc_tp_num c' = tc_tp_num c"
  using assms by (simp add: luat_tp_pc_read_def Let_def)

lemma read_nothing:
  assumes "next_event s = Some (None, s')" and "ts_data_consumed s'" and "0 < length (tc_tp_data c)" and "0 < tc_tp_num c"
  shows "\<exists>c'. luat_tp_pc_read (Some c) s = Some (0, Some c', s') \<and>
     tc_tp_data c' ! 0 = (tc_tp_data c ! 0)\<lparr>tp_event := TP_EVENT_TYPE_NONE\<rparr>"
  using assms by (simp add: luat_tp_pc_read_def Let_def nth_append)

text \<open>The last touch event is delivered twice. Reading an event from the ring leaves the copy in the single
  event buffer pending, so that after one SDL event, two reads with the data consumed in between both deliver it;
  only the third read clears the event type.\<close>

theorem tp_event_delivered_twice:
  assumes "luat_tp_pc_init (Some c0) s0 = (0, Some c, s)" and "0 < length (tc_tp_data c0)"
    and "sdl_touch scale c now e s = Some (t, v)" and "tp_sdl_watch scale (Some c) now e s = Some (0, Some c1, s1)"
  shows "\<exists>c2 s2 c3 s3 c4 s4.
     luat_tp_pc_read (Some c1) s1 = Some (0, Some c2, s2) \<and> tc_tp_data c2 ! 0 = t \<and>
     luat_tp_pc_read (Some c2) (luat_tp_pc_read_done (Some c2) s2) = Some (0, Some c3, s3) \<and> tc_tp_data c3 ! 0 = t \<and>
     luat_tp_pc_read (Some c3) (luat_tp_pc_read_done (Some c3) s3) = Some (0, Some c4, s4) \<and>
     tc_tp_data c4 ! 0 = t\<lparr>tp_event := TP_EVENT_TYPE_NONE\<rparr>"
proof -
  have s: "s = \<lparr>ts_has_event = False, ts_ev = tp_zero, ts_last_valid_x = 0, ts_last_valid_y = 0, ts_data_consumed = True,
        ts_event_queue_size = 8, ts_event_queue = replicate 8 tp_zero, ts_queue_head = 0, ts_queue_tail = 0, ts_queue_enabled = True\<rparr>"
    and c: "0 < length (tc_tp_data c)" "0 < tc_tp_num c"
    using assms(1,2) by (auto simp: luat_tp_pc_init_def)
  have s1: "ts_queue_enabled s1" "ts_queue_head s1 = 0" "ts_queue_tail s1 = 1" "ts_event_queue s1 ! 0 = t"
      "length (ts_event_queue s1) = 8" "ts_event_queue_size s1 = 8" "ts_has_event s1" "ts_ev s1 = t"
    and c1: "length (tc_tp_data c1) = length (tc_tp_data c)" "tc_tp_num c1 = tc_tp_num c"
    using assms(3,4) unfolding s by (auto simp: tp_sdl_watch_def enqueue_event_def mark_valid_def split: if_splits)
  let ?s2 = "s1\<lparr>ts_queue_head := 1, ts_data_consumed := False\<rparr>"
  let ?s3 = "s1\<lparr>ts_queue_head := 1, ts_has_event := False, ts_data_consumed := False\<rparr>"
  have n1: "next_event s1 = Some (Some t, s1\<lparr>ts_queue_head := 1\<rparr>)"
    using s1 by (simp add: next_event_def dequeue_event_def)
  have n2: "next_event (luat_tp_pc_read_done (Some x) ?s2) =
      Some (Some t, s1\<lparr>ts_queue_head := 1, ts_data_consumed := True, ts_has_event := False\<rparr>)" for x
    using s1 by (simp add: next_event_def dequeue_event_def luat_tp_pc_read_done_def)
  have n3: "next_event (luat_tp_pc_read_done (Some x) ?s3) = Some (None, luat_tp_pc_read_done (Some x) ?s3)" for x
    using s1 by (simp add: next_event_def dequeue_event_def luat_tp_pc_read_done_def)
  obtain c2 where c2: "luat_tp_pc_read (Some c1) s1 = Some (0, Some c2, ?s2)" "tc_tp_data c2 ! 0 = t"
      "length (tc_tp_data c2) = length (tc_tp_data c)" "tc_tp_num c2 = tc_tp_num c"
    using read_found [OF n1, of c1] c c1 by auto
  obtain c3 where c3: "luat_tp_pc_read (Some c2) (luat_tp_pc_read_done (Some c2) ?s2) = Some (0, Some c3, ?s3)"
      "tc_tp_data c3 ! 0 = t" "length (tc_tp_data c3) = length (tc_tp_data c)" "tc_tp_num c3 = tc_tp_num c"
    using read_found [OF n2, of c2 c2] c c2 by auto
  obtain c4 where "luat_tp_pc_read (Some c3) (luat_tp_pc_read_done (Some c3) ?s3) = Some (0, Some c4, luat_tp_pc_read_done (Some c3) ?s3)"
      "tc_tp_data c4 ! 0 = t\<lparr>tp_event := TP_EVENT_TYPE_NONE\<rparr>"
    using read_nothing [OF n3, of c3 c3] c c3 by (auto simp: luat_tp_pc_read_done_def)
  with c2(1,2) c3(1,2) show ?thesis by blast
qed

theorem tp_event_delivered_twice_witness:
  "\<exists>c s c1 s1 c2 s2 c3 s3. luat_tp_pc_init (Some demo_conf) undefined = (0, Some c, s) \<and>
     tp_sdl_watch (\<lambda>(f :: unit) w. 0) (Some c) 1 (MouseDown True 5 6) s = Some (0, Some c1, s1) \<and>
     luat_tp_pc_read (Some c1) s1 = Some (0, Some c2, s2) \<and>
     luat_tp_pc_read (Some c2) (luat_tp_pc_read_done (Some c2) s2) = Some (0, Some c3, s3) \<and>
     tc_tp_data c3 ! 0 = touch TP_EVENT_TYPE_DOWN 5 6 1"
proof -
  obtain c s where i: "luat_tp_pc_init (Some demo_conf) undefined = (0, Some c, s)"
    by (simp add: luat_tp_pc_init_def)
  then have "ring_inv s" by (auto simp: luat_tp_pc_init_def ring_inv_def)
  from watch_one [OF this, of "\<lambda>(f :: unit) w. 0" c 1 "MouseDown True 5 6"] obtain c1 s1 where
    w: "tp_sdl_watch (\<lambda>(f :: unit) w. 0) (Some c) 1 (MouseDown True 5 6) s = Some (0, Some c1, s1)" by blast
  have "sdl_touch (\<lambda>(f :: unit) w. 0) c 1 (MouseDown True 5 6) s = Some (touch TP_EVENT_TYPE_DOWN 5 6 1, True)" by simp
  from tp_event_delivered_twice [OF i _ this w] obtain c2 s2 c3 s3 where
    "luat_tp_pc_read (Some c1) s1 = Some (0, Some c2, s2)"
    "luat_tp_pc_read (Some c2) (luat_tp_pc_read_done (Some c2) s2) = Some (0, Some c3, s3)"
    "tc_tp_data c3 ! 0 = touch TP_EVENT_TYPE_DOWN 5 6 1" by auto
  with i w show ?thesis by (intro exI conjI)
qed

end
