(* ===== verification/Block_Device.thy ===== *)
theory Block_Device
  imports Luatos_Prelude
begin

text \<open>
  The interface between littlefs and the two memory-backed block devices of the port (the
  key-value store of \<open>port/luat_fskv_pc.c\<close> and the test file system of \<open>port/luat_fs_mini.c\<close>).
  Both keep their blocks of 4096 bytes in one array. What littlefs relies on is that a
  read returns what was programmed last, and that programming or erasing one range leaves
  every other cell alone; this is stated once for a device given by its cells.
\<close>

abbreviation block_size :: nat where "block_size \<equiv> 4096"

datatype bd_op = Prog nat nat "byte list" | Erase nat

fun bd_valid :: "nat \<Rightarrow> bd_op \<Rightarrow> bool" where
  "bd_valid n (Prog b off x) \<longleftrightarrow> b < n \<and> off + length x \<le> block_size"
| "bd_valid n (Erase b) \<longleftrightarrow> b < n"

text \<open>The effect of an operation on the cells, with the value \<open>e\<close> of an erased cell.\<close>

fun bd_spec :: "byte \<Rightarrow> bd_op \<Rightarrow> (nat \<Rightarrow> nat \<Rightarrow> byte) \<Rightarrow> nat \<Rightarrow> nat \<Rightarrow> byte" where
  "bd_spec e (Prog b off x) m b' i = (if b' = b \<and> off \<le> i \<and> i < off + length x then x ! (i - off) else m b' i)"
| "bd_spec e (Erase b) m b' i = (if b' = b then e else m b' i)"

fun bd_touches :: "bd_op \<Rightarrow> nat \<Rightarrow> nat \<Rightarrow> nat \<Rightarrow> bool" where
  "bd_touches (Prog b off x) b' off' n \<longleftrightarrow> b = b' \<and> off < off' + n \<and> off' < off + length x"
| "bd_touches (Erase b) b' off' n \<longleftrightarrow> b = b'"

fun bd_run :: "(nat \<Rightarrow> nat \<Rightarrow> byte list \<Rightarrow> 'd \<Rightarrow> 'd option) \<Rightarrow> (nat \<Rightarrow> 'd \<Rightarrow> 'd option) \<Rightarrow> bd_op list \<Rightarrow> 'd \<Rightarrow> 'd option" where
  "bd_run pg er [] d = Some d"
| "bd_run pg er (Prog b off x # ops) d = do { d \<leftarrow> pg b off x d; bd_run pg er ops d }"
| "bd_run pg er (Erase b # ops) d = do { d \<leftarrow> er b d; bd_run pg er ops d }"

lemma bd_run_append: "bd_run pg er (xs @ ys) d = do { d \<leftarrow> bd_run pg er xs d; bd_run pg er ys d }"
  by (induction pg er xs d rule: bd_run.induct) (auto split: bind_splits)

definition bd_equal :: "nat \<Rightarrow> (nat \<Rightarrow> nat \<Rightarrow> byte) \<Rightarrow> (nat \<Rightarrow> nat \<Rightarrow> byte) \<Rightarrow> bool" where
  "bd_equal n m m' \<longleftrightarrow> (\<forall>b i. b < n \<longrightarrow> i < block_size \<longrightarrow> m b i = m' b i)"

lemma bd_spec_untouched:
  "\<not> bd_touches p b off n \<Longrightarrow> off \<le> i \<Longrightarrow> i < off + n \<Longrightarrow> bd_spec e p m b i = m b i"
  by (cases p) auto

lemma bd_spec_equal: "bd_equal n m m' \<Longrightarrow> bd_equal n (bd_spec e p m) (bd_spec e p m')"
  by (cases p) (auto simp: bd_equal_def)

locale block_device =
  fixes nblocks :: nat
    and erased :: byte
    and rd :: "nat \<Rightarrow> nat \<Rightarrow> nat \<Rightarrow> 'd \<Rightarrow> byte list option"
    and pg :: "nat \<Rightarrow> nat \<Rightarrow> byte list \<Rightarrow> 'd \<Rightarrow> 'd option"
    and er :: "nat \<Rightarrow> 'd \<Rightarrow> 'd option"
    and cell :: "'d \<Rightarrow> nat \<Rightarrow> nat \<Rightarrow> byte"
    and invar :: "'d \<Rightarrow> bool"
  assumes rd_ok: "invar d \<Longrightarrow> b < nblocks \<Longrightarrow> off + n \<le> block_size \<Longrightarrow>
      rd b off n d = Some (map (cell d b) [off..<off + n])"
    and pg_ok: "invar d \<Longrightarrow> bd_valid nblocks (Prog b off x) \<Longrightarrow>
      \<exists>d'. pg b off x d = Some d' \<and> invar d' \<and> bd_equal nblocks (cell d') (bd_spec erased (Prog b off x) (cell d))"
    and er_ok: "invar d \<Longrightarrow> bd_valid nblocks (Erase b) \<Longrightarrow>
      \<exists>d'. er b d = Some d' \<and> invar d' \<and> bd_equal nblocks (cell d') (bd_spec erased (Erase b) (cell d))"
begin

lemma run_refines:
  assumes "invar d" and "list_all (bd_valid nblocks) ops" and "bd_equal nblocks (cell d) m"
  shows "\<exists>d'. bd_run pg er ops d = Some d' \<and> invar d' \<and> bd_equal nblocks (cell d') (fold (bd_spec erased) ops m)"
  using assms
proof (induction ops arbitrary: d m)
  case Nil
  then show ?case by simp
next
  case (Cons p ops)
  from Cons.prems(2) have p: "bd_valid nblocks p" and ops: "list_all (bd_valid nblocks) ops" by simp_all
  obtain d1 where d1: "bd_run pg er [p] d = Some d1" "invar d1"
      and c: "bd_equal nblocks (cell d1) (bd_spec erased p (cell d))"
    using pg_ok [OF Cons.prems(1)] er_ok [OF Cons.prems(1)] p by (cases p) fastforce+
  have "bd_equal nblocks (cell d1) (bd_spec erased p m)"
    using c bd_spec_equal [OF Cons.prems(3), of erased p] by (simp add: bd_equal_def)
  from Cons.IH [OF d1(2) ops this] obtain d2 where
      "bd_run pg er ops d1 = Some d2" "invar d2" "bd_equal nblocks (cell d2) (fold (bd_spec erased) ops (bd_spec erased p m))"
    by auto
  with d1(1) bd_run_append [of pg er "[p]" ops d] show ?case by simp
qed

lemma fold_untouched:
  "list_all (\<lambda>p. \<not> bd_touches p b off n) ops \<Longrightarrow> off \<le> i \<Longrightarrow> i < off + n \<Longrightarrow> fold (bd_spec e) ops m b i = m b i"
  by (induction ops arbitrary: m) (auto simp: bd_spec_untouched [of _ b off n])

lemma read_back:
  assumes "invar d" and "list_all (bd_valid nblocks) (before @ Prog b off x # later)"
    and "list_all (\<lambda>p. \<not> bd_touches p b off (length x)) later"
  shows "\<exists>d'. bd_run pg er (before @ Prog b off x # later) d = Some d' \<and> rd b off (length x) d' = Some x"
proof -
  obtain d' where d': "bd_run pg er (before @ Prog b off x # later) d = Some d'" "invar d'"
      and c: "bd_equal nblocks (cell d') (fold (bd_spec erased) (before @ Prog b off x # later) (cell d))"
    using run_refines [OF assms(1,2), of "cell d"] by (auto simp: bd_equal_def)
  have v: "b < nblocks" "off + length x \<le> block_size" using assms(2) by simp_all
  have "cell d' b i = x ! (i - off)" if "off \<le> i" "i < off + length x" for i
    using c v that fold_untouched [OF assms(3) that] by (simp add: bd_equal_def)
  then have "map (cell d' b) [off..<off + length x] = x"
    by (intro nth_equalityI) simp_all
  with rd_ok [OF d'(2) v] d'(1) show ?thesis by simp
qed

end

section \<open>Devices in one array\<close>

text \<open>The position of a byte of a block; \<open>lfs_block_t\<close> and \<open>lfs_off_t\<close> are 32-bit numbers.\<close>

definition bd_addr :: "nat \<Rightarrow> nat \<Rightarrow> nat" where
  "bd_addr b off = (b * block_size + off) mod 2 ^ 32"

definition array_cell :: "byte list \<Rightarrow> nat \<Rightarrow> nat \<Rightarrow> byte" where
  "array_cell d b i = d ! (b * block_size + i)"

lemma bd_addr_small: "b < 1024 \<Longrightarrow> off \<le> block_size \<Longrightarrow> bd_addr b off = b * block_size + off"
  by (simp add: bd_addr_def)

lemma block_inside: "b < n \<Longrightarrow> off \<le> block_size \<Longrightarrow> b * block_size + off \<le> n * block_size"
proof -
  assume "b < n" and o: "off \<le> block_size"
  then have "(b + 1) * block_size \<le> n * block_size" by (intro mult_le_mono1) simp
  with o show ?thesis by simp
qed

lemma array_peek:
  assumes "length d = n * block_size" and "n \<le> 1024" and "b < n" and "off + k \<le> block_size"
  shows "peek (bd_addr b off) k d = Some (map (array_cell d b) [off..<off + k])"
proof -
  have "bd_addr b off = b * block_size + off" using assms by (intro bd_addr_small) simp_all
  moreover have "b * block_size + off + k \<le> length d" using block_inside [OF assms(3,4)] assms(1) by simp
  ultimately show ?thesis
    by (auto simp: peek_def array_cell_def ac_simps intro: nth_equalityI)
qed

text \<open>Two cells of an array are the same only if block and offset are.\<close>

lemma cell_index_less:
  assumes "i < block_size" and "j \<le> block_size" and "b < (b' :: nat)"
  shows "b * block_size + i < b' * block_size + j"
proof -
  have "(b + 1) * block_size \<le> b' * block_size" using assms(3) by (intro mult_le_mono1) simp
  with assms(1) show ?thesis by simp
qed

lemma array_poke:
  assumes "length d = n * block_size" and "n \<le> 1024" and "bd_valid n (Prog b off x)"
  shows "\<exists>d'. poke (bd_addr b off) x d = Some d' \<and> length d' = n * block_size \<and>
           bd_equal n (array_cell d') (bd_spec e (Prog b off x) (array_cell d))"
proof -
  have b: "b < n" and x: "off + length x \<le> block_size" using assms(3) by simp_all
  have a: "bd_addr b off = b * block_size + off" using assms(2) b x by (intro bd_addr_small) simp_all
  let ?a = "b * block_size + off"
  have le: "?a + length x \<le> length d" using block_inside [OF b x] assms(1) by simp
  define d' where "d' = take ?a d @ x @ drop (?a + length x) d"
  have p: "poke (bd_addr b off) x d = Some d'" using le by (simp add: poke_def a d'_def)
  have "array_cell d' b' i = bd_spec e (Prog b off x) (array_cell d) b' i" if "b' < n" "i < block_size" for b' i
  proof -
    have j: "b' * block_size + i < length d" using cell_index_less [of i 0 b' n] that assms(1) by simp
    consider "b' = b" | "b' < b" | "b < b'" by linarith
    then show ?thesis
    proof cases
      case 1
      then show ?thesis using le j x by (auto simp: array_cell_def d'_def nth_append)
    next
      case 2
      then have "b' * block_size + i < ?a" using that x by (intro cell_index_less) simp_all
      with 2 le show ?thesis by (simp add: array_cell_def d'_def nth_append)
    next
      case 3
      have "(b + 1) * block_size \<le> b' * block_size" using 3 by (intro mult_le_mono1) simp
      then have "?a + length x \<le> b' * block_size + i" using x by simp
      moreover from this have "\<not> b' * block_size + i - ?a < length x" by linarith
      ultimately show ?thesis using 3 le j by (simp add: array_cell_def d'_def nth_append)
    qed
  qed
  with p poke_length [OF p] assms(1) show ?thesis by (auto simp: bd_equal_def)
qed

lemma array_erase:
  assumes "length d = n * block_size" and "n \<le> 1024" and "bd_valid n (Erase b)"
  shows "\<exists>d'. poke (bd_addr b 0) (replicate block_size e) d = Some d' \<and> length d' = n * block_size \<and>
           bd_equal n (array_cell d') (bd_spec e (Erase b) (array_cell d))"
proof -
  have "bd_valid n (Prog b 0 (replicate block_size e))" using assms(3) by simp
  from array_poke [OF assms(1,2) this, of e] show ?thesis by (auto simp: bd_equal_def)
qed

end
