(* ===== verification/Fskv_Pc.thy ===== *)
theory Fskv_Pc
  imports Block_Device "HOL-Library.AList"
begin

text \<open>
  The key-value store, \<open>port/luat_fskv_pc.c\<close>: a block device of 16 blocks in a static array, and
  one littlefs file per key. Littlefs is a library outside of the sources; its functions
  are the fields of a record that the operations take as a parameter, and what its manual
  says about them is the predicate \<open>lfs_documented\<close>, over an abstraction of the mounted file
  system to a map from names to contents.
\<close>

section \<open>The block device\<close>

abbreviation fskv_blocks :: nat where "fskv_blocks \<equiv> 16"

definition fskv_buff_start :: "byte list" where
  "fskv_buff_start = replicate (fskv_blocks * block_size) 0"

definition block_device_read :: "nat \<Rightarrow> nat \<Rightarrow> nat \<Rightarrow> byte list \<Rightarrow> byte list option" where
  "block_device_read block off n buff = peek (bd_addr block off) n buff"

definition block_device_prog :: "nat \<Rightarrow> nat \<Rightarrow> byte list \<Rightarrow> byte list \<Rightarrow> byte list option" where
  "block_device_prog block off x buff = poke (bd_addr block off) x buff"

definition block_device_erase :: "nat \<Rightarrow> byte list \<Rightarrow> byte list option" where
  "block_device_erase block buff = poke (bd_addr block 0) (replicate 4096 0) buff"

definition block_device_sync :: "byte list \<Rightarrow> int \<times> byte list" where
  "block_device_sync buff = (0, buff)"

interpretation fskv_dev: block_device fskv_blocks 0 block_device_read block_device_prog block_device_erase
    array_cell "\<lambda>d. length d = fskv_blocks * block_size"
proof unfold_locales
  fix d :: "byte list" and b off n
  assume "length d = fskv_blocks * block_size" and "b < fskv_blocks" and "off + n \<le> block_size"
  then show "block_device_read b off n d = Some (map (array_cell d b) [off..<off + n])"
    unfolding block_device_read_def by (intro array_peek [where n = fskv_blocks]) simp_all
next
  fix d :: "byte list" and b off x
  assume "length d = fskv_blocks * block_size" and "bd_valid fskv_blocks (Prog b off x)"
  then show "\<exists>d'. block_device_prog b off x d = Some d' \<and> length d' = fskv_blocks * block_size \<and>
      bd_equal fskv_blocks (array_cell d') (bd_spec 0 (Prog b off x) (array_cell d))"
    unfolding block_device_prog_def by (intro array_poke) simp_all
next
  fix d :: "byte list" and b
  assume "length d = fskv_blocks * block_size" and "bd_valid fskv_blocks (Erase b)"
  then show "\<exists>d'. block_device_erase b d = Some d' \<and> length d' = fskv_blocks * block_size \<and>
      bd_equal fskv_blocks (array_cell d') (bd_spec 0 (Erase b) (array_cell d))"
    unfolding block_device_erase_def by (intro array_erase) simp_all
qed

section \<open>Littlefs\<close>

datatype lfs_flag = LFS_O_RDONLY | LFS_O_WRONLY | LFS_O_CREAT | LFS_O_TRUNC

datatype lfs_type = LFS_TYPE_REG | LFS_TYPE_DIR

record lfs_info =
  li_type :: lfs_type
  li_name :: string

record lfs_config =
  cf_attr_max :: nat
  cf_file_max :: nat
  cf_block_count :: nat
  cf_block_size :: nat
  cf_block_cycles :: nat
  cf_name_max :: nat
  cf_read_size :: nat
  cf_cache_size :: nat
  cf_prog_size :: nat
  cf_lookahead_size :: nat
  cf_lookahead_buffer :: ptr
  cf_prog_buffer :: ptr
  cf_read_buffer :: ptr

record ('s, 'f, 'd) lfs_api =
  lfs_mount :: "lfs_config \<Rightarrow> 's \<Rightarrow> int \<times> 's"
  lfs_format :: "lfs_config \<Rightarrow> 's \<Rightarrow> int \<times> 's"
  lfs_remove :: "string \<Rightarrow> 's \<Rightarrow> int \<times> 's"
  lfs_file_open :: "string \<Rightarrow> lfs_flag list \<Rightarrow> 's \<Rightarrow> int \<times> 'f \<times> 's"
  lfs_file_write :: "'f \<Rightarrow> byte list \<Rightarrow> 's \<Rightarrow> int \<times> 'f \<times> 's"
  lfs_file_read :: "'f \<Rightarrow> nat \<Rightarrow> 's \<Rightarrow> int \<times> byte list \<times> 'f \<times> 's" \<comment> \<open>with the bytes that were stored\<close>
  lfs_file_size :: "'f \<Rightarrow> 's \<Rightarrow> int"
  lfs_file_close :: "'f \<Rightarrow> 's \<Rightarrow> int \<times> 's"
  lfs_fs_size :: "'s \<Rightarrow> int"
  lfs_dir_open :: "string \<Rightarrow> 's \<Rightarrow> int \<times> 'd \<times> 's"
  lfs_dir_seek :: "'d \<Rightarrow> nat \<Rightarrow> 's \<Rightarrow> int \<times> 'd \<times> 's"
  lfs_dir_read :: "'d \<Rightarrow> 's \<Rightarrow> int \<times> lfs_info \<times> 'd \<times> 's"
  lfs_dir_close :: "'d \<Rightarrow> 's \<Rightarrow> 's"

section \<open>Operations\<close>

definition fskv_lfs_conf :: "ptr \<Rightarrow> ptr \<Rightarrow> ptr \<Rightarrow> lfs_config" where
  "fskv_lfs_conf lookahead prog rd =
     \<lparr>cf_attr_max = 0, cf_file_max = 4096, cf_block_count = 64 * 1024 div 4096, cf_block_size = 4096,
      cf_block_cycles = 200, cf_name_max = 63, cf_read_size = 256, cf_cache_size = 256, cf_prog_size = 256,
      cf_lookahead_size = 16, cf_lookahead_buffer = lookahead, cf_prog_buffer = prog, cf_read_buffer = rd\<rparr>"

definition luat_fskv_init :: "('s, 'f, 'd) lfs_api \<Rightarrow> lfs_config \<Rightarrow> 's \<Rightarrow> int \<times> 's" where
  "luat_fskv_init api conf s =
     (let (ret, s) = lfs_mount api conf s in
      if ret \<noteq> 0 then
        (let (ret, s) = lfs_format api conf s in
         if ret \<noteq> 0 then (ret, s)
         else (let (ret, s) = lfs_mount api conf s in if ret \<noteq> 0 then (ret, s) else (0, s)))
      else (0, s))"

definition luat_fskv_del :: "('s, 'f, 'd) lfs_api \<Rightarrow> string \<Rightarrow> 's \<Rightarrow> int \<times> 's" where
  "luat_fskv_del api key s = (let (_, s) = lfs_remove api key s in (0, s))"

definition luat_fskv_set :: "('s, 'f, 'd) lfs_api \<Rightarrow> string \<Rightarrow> byte list \<Rightarrow> 's \<Rightarrow> int \<times> 's" where
  "luat_fskv_set api key data s =
     (let (ret, fd, s) = lfs_file_open api key [LFS_O_WRONLY, LFS_O_CREAT, LFS_O_TRUNC] s in
      if ret \<noteq> 0 then (-1, s)
      else (let (ret, fd, s) = lfs_file_write api fd data s;
                (c, s) = lfs_file_close api fd s
            in (ret OR c, s)))"

text \<open>The caller's buffer is a list of bytes; writing behind its end is undefined.\<close>

definition luat_fskv_get ::
    "('s, 'f, 'd) lfs_api \<Rightarrow> string \<Rightarrow> byte list \<Rightarrow> nat \<Rightarrow> 's \<Rightarrow> (int \<times> byte list \<times> 's) option" where
  "luat_fskv_get api key data len s =
     (let (ret, fd, s) = lfs_file_open api key [LFS_O_RDONLY] s in
      if ret \<noteq> 0 then Some (0, data, s)
      else (let (ret, x, fd, s) = lfs_file_read api fd len s;
                (_, s) = lfs_file_close api fd s
            in do { data \<leftarrow> poke 0 x data; Some (if ret > 0 then ret else 0, data, s) }))"

definition luat_fskv_clear :: "('s, 'f, 'd) lfs_api \<Rightarrow> lfs_config \<Rightarrow> 's \<Rightarrow> int \<times> 's" where
  "luat_fskv_clear api conf s =
     (let (ret, s) = lfs_format api conf s in
      if ret \<noteq> 0 then (ret, s)
      else (let (ret, s) = lfs_mount api conf s in if ret \<noteq> 0 then (ret, s) else (0, s)))"

text \<open>The loop over the directory ends only when littlefs reports its end.\<close>

partial_function (option) stat_loop :: "('s, 'f, 'd) lfs_api \<Rightarrow> nat \<Rightarrow> 'd \<Rightarrow> 's \<Rightarrow> (nat \<times> 'd \<times> 's) option" where
  "stat_loop api count dir s =
     (let (ret, info, dir, s) = lfs_dir_read api dir s in
      if ret > 0 then stat_loop api (if li_type info = LFS_TYPE_REG then count + 1 else count) dir s
      else Some (count, dir, s))"

record fskv_stat =
  fs_using_sz :: nat
  fs_total :: nat
  fs_kv_count :: "nat option" \<comment> \<open>not written on failure\<close>

definition luat_fskv_stat :: "('s, 'f, 'd) lfs_api \<Rightarrow> 's \<Rightarrow> (int \<times> fskv_stat \<times> 's) option" where
  "luat_fskv_stat api s =
     (let used = nat (lfs_fs_size api s * 4096 mod 2 ^ 32);
          (ret, dir, s) = lfs_dir_open api '''' s in
      if ret \<noteq> 0 then Some (-1, \<lparr>fs_using_sz = used, fs_total = 64 * 1024, fs_kv_count = None\<rparr>, s)
      else do { (count, dir, s) \<leftarrow> stat_loop api 0 dir s;
                Some (0, \<lparr>fs_using_sz = used, fs_total = 64 * 1024, fs_kv_count = Some count\<rparr>, lfs_dir_close api dir s) })"

definition luat_fskv_size ::
    "('s, 'f, 'd) lfs_api \<Rightarrow> string \<Rightarrow> byte list \<Rightarrow> 's \<Rightarrow> (int \<times> byte list \<times> 's) option" where
  "luat_fskv_size api key buff s =
     (let (ret, fd, s) = lfs_file_open api key [LFS_O_RDONLY] s in
      if ret \<noteq> 0 then Some (0, buff, s)
      else (let ret = lfs_file_size api fd s in
            if ret > 1 \<and> ret < 256 then
              (let (ret2, x, fd, s) = lfs_file_read api fd (nat ret) s;
                   (_, s) = lfs_file_close api fd s
               in do { buff \<leftarrow> poke 0 x buff; Some (if ret2 \<noteq> ret then -2 else ret, buff, s) })
            else (let (_, s) = lfs_file_close api fd s in Some (ret, buff, s))))"

definition luat_fskv_next ::
    "('s, 'f, 'd) lfs_api \<Rightarrow> char list \<Rightarrow> nat \<Rightarrow> 's \<Rightarrow> (int \<times> char list \<times> 's) option" where
  "luat_fskv_next api buff offset s =
     (let offset = (offset + 2) mod 2 ^ 32;
          (ret, dir, s) = lfs_dir_open api '''' s in
      if ret < 0 then Some (-1, buff, s)
      else (let (ret, dir, s) = lfs_dir_seek api dir offset s in
            if ret < 0 then Some (-2, buff, lfs_dir_close api dir s)
            else (let (ret, info, dir, s) = lfs_dir_read api dir s in
                  if ret \<le> 0 then Some (-3, buff, lfs_dir_close api dir s)
                  else do { buff \<leftarrow> poke 0 (li_name info @ [CHR 0x00]) buff;
                            Some (0, buff, lfs_dir_close api dir s) })))"

section \<open>What littlefs documents\<close>

text \<open>An open file as the library sees it: its name, its contents, the position, and whether it is open
  for writing.\<close>

record lfs_view =
  fv_name :: string
  fv_data :: "byte list"
  fv_pos :: nat
  fv_write :: bool

record ('s, 'f, 'd) lfs_abs =
  ab_good :: "'s \<Rightarrow> bool" \<comment> \<open>mounted and consistent\<close>
  ab_files :: "'s \<Rightarrow> (string \<rightharpoonup> byte list)"
  ab_names :: "'s \<Rightarrow> string list" \<comment> \<open>the files in the order of the root directory\<close>
  ab_view :: "'f \<Rightarrow> lfs_view"
  ab_dir :: "'d \<Rightarrow> lfs_info list" \<comment> \<open>the entries that are not read yet\<close>

definition key_ok :: "string \<Rightarrow> bool" where
  "key_ok key \<longleftrightarrow> 0 < length key \<and> length key \<le> 63 \<and> CHR ''/'' \<notin> set key \<and> CHR 0x00 \<notin> set key"

abbreviation dot_entries :: "lfs_info list" where
  "dot_entries \<equiv> [\<lparr>li_type = LFS_TYPE_DIR, li_name = ''.''\<rparr>, \<lparr>li_type = LFS_TYPE_DIR, li_name = ''..''\<rparr>]"

definition reg_entry :: "string \<Rightarrow> lfs_info" where
  "reg_entry k = \<lparr>li_type = LFS_TYPE_REG, li_name = k\<rparr>"

text \<open>Reading.\<close>

definition lfs_reads :: "('s, 'f, 'd) lfs_api \<Rightarrow> ('s, 'f, 'd) lfs_abs \<Rightarrow> bool" where
  "lfs_reads api a \<longleftrightarrow>
     (\<forall>s k x. ab_good a s \<longrightarrow> ab_files a s k = Some x \<longrightarrow>
        (\<exists>f. lfs_file_open api k [LFS_O_RDONLY] s = (0, f, s) \<and>
             ab_view a f = \<lparr>fv_name = k, fv_data = x, fv_pos = 0, fv_write = False\<rparr>)) \<and>
     (\<forall>s k. ab_good a s \<longrightarrow> ab_files a s k = None \<longrightarrow>
        (\<exists>r f. lfs_file_open api k [LFS_O_RDONLY] s = (r, f, s) \<and> r < 0)) \<and>
     (\<forall>s f n. ab_good a s \<longrightarrow> \<not> fv_write (ab_view a f) \<longrightarrow>
        (let x = take n (drop (fv_pos (ab_view a f)) (fv_data (ab_view a f))) in
         \<exists>f'. lfs_file_read api f n s = (int (length x), x, f', s) \<and>
              ab_view a f' = (ab_view a f)\<lparr>fv_pos := fv_pos (ab_view a f) + length x\<rparr>)) \<and>
     (\<forall>s f. ab_good a s \<longrightarrow> lfs_file_size api f s = int (length (fv_data (ab_view a f)))) \<and>
     (\<forall>s f. ab_good a s \<longrightarrow> \<not> fv_write (ab_view a f) \<longrightarrow> lfs_file_close api f s = (0, s))"

text \<open>Writing: a new file is created empty when it is opened, and the contents become visible when the file
  is closed, unless a write failed.\<close>

definition lfs_writes :: "('s, 'f, 'd) lfs_api \<Rightarrow> ('s, 'f, 'd) lfs_abs \<Rightarrow> bool" where
  "lfs_writes api a \<longleftrightarrow>
     (\<forall>s k r f s'. ab_good a s \<longrightarrow> key_ok k \<longrightarrow>
        lfs_file_open api k [LFS_O_WRONLY, LFS_O_CREAT, LFS_O_TRUNC] s = (r, f, s') \<longrightarrow>
        ab_good a s' \<and> (r = 0 \<longrightarrow> ab_view a f = \<lparr>fv_name = k, fv_data = [], fv_pos = 0, fv_write = True\<rparr> \<and>
                                 ab_files a s' = (if ab_files a s k = None then (ab_files a s)(k \<mapsto> []) else ab_files a s)) \<and>
                        (r \<noteq> 0 \<longrightarrow> r < 0 \<and> ab_files a s' = ab_files a s)) \<and>
     (\<forall>s f d r f' s'. ab_good a s \<longrightarrow> fv_write (ab_view a f) \<longrightarrow> fv_pos (ab_view a f) = length (fv_data (ab_view a f)) \<longrightarrow>
        lfs_file_write api f d s = (r, f', s') \<longrightarrow>
        ab_good a s' \<and> ab_files a s' = ab_files a s \<and>
        (r < 0 \<and> \<not> fv_write (ab_view a f') \<or>
         r = int (length d) \<and> ab_view a f' = (ab_view a f)\<lparr>fv_data := fv_data (ab_view a f) @ d,
                                                    fv_pos := fv_pos (ab_view a f) + length d\<rparr>)) \<and>
     (\<forall>s f r s'. ab_good a s \<longrightarrow> fv_write (ab_view a f) \<longrightarrow> key_ok (fv_name (ab_view a f)) \<longrightarrow>
        lfs_file_close api f s = (r, s') \<longrightarrow>
        ab_good a s' \<and> (r = 0 \<and> ab_files a s' = (ab_files a s)(fv_name (ab_view a f) \<mapsto> fv_data (ab_view a f)) \<or>
                        r < 0 \<and> ab_files a s' = ab_files a s))"

text \<open>Removing, formatting and listing.\<close>

definition lfs_manages :: "('s, 'f, 'd) lfs_api \<Rightarrow> ('s, 'f, 'd) lfs_abs \<Rightarrow> bool" where
  "lfs_manages api a \<longleftrightarrow>
     (\<forall>s k r s'. ab_good a s \<longrightarrow> key_ok k \<longrightarrow> lfs_remove api k s = (r, s') \<longrightarrow>
        ab_good a s' \<and> ab_files a s' = (ab_files a s)(k := None)) \<and>
     (\<forall>conf s r s'. lfs_format api conf s = (r, s') \<longrightarrow> r \<le> 0) \<and>
     (\<forall>conf s r s' r' s''. lfs_format api conf s = (r, s') \<longrightarrow> lfs_mount api conf s' = (r', s'') \<longrightarrow>
        r = 0 \<longrightarrow> r' = 0 \<and> ab_good a s'' \<and> ab_files a s'' = Map.empty)"

definition lfs_lists :: "('s, 'f, 'd) lfs_api \<Rightarrow> ('s, 'f, 'd) lfs_abs \<Rightarrow> bool" where
  "lfs_lists api a \<longleftrightarrow>
     (\<forall>s. ab_good a s \<longrightarrow> distinct (ab_names a s) \<and> set (ab_names a s) = dom (ab_files a s) \<and>
        (\<forall>k \<in> set (ab_names a s). key_ok k) \<and>
        (\<exists>d. lfs_dir_open api '''' s = (0, d, s) \<and> ab_dir a d = dot_entries @ map reg_entry (ab_names a s) \<and>
             (\<forall>n < length (ab_dir a d). \<exists>d'. lfs_dir_seek api d n s = (0, d', s) \<and> ab_dir a d' = drop n (ab_dir a d)) \<and>
             (\<forall>n \<ge> length (ab_dir a d). \<exists>r d'. lfs_dir_seek api d n s = (r, d', s) \<and> (r < 0 \<or> ab_dir a d' = [])))) \<and>
     (\<forall>s d. ab_good a s \<longrightarrow> ab_dir a d = [] \<longrightarrow> (\<exists>i d'. lfs_dir_read api d s = (0, i, d', s))) \<and>
     (\<forall>s d i is. ab_good a s \<longrightarrow> ab_dir a d = i # is \<longrightarrow>
        (\<exists>d'. lfs_dir_read api d s = (1, i, d', s) \<and> ab_dir a d' = is)) \<and>
     (\<forall>s d. ab_good a s \<longrightarrow> lfs_dir_close api d s = s)"

definition lfs_documented :: "('s, 'f, 'd) lfs_api \<Rightarrow> ('s, 'f, 'd) lfs_abs \<Rightarrow> bool" where
  "lfs_documented api a \<longleftrightarrow> lfs_reads api a \<and> lfs_writes api a \<and> lfs_manages api a \<and> lfs_lists api a"

section \<open>The store is a map\<close>

datatype fskv_op = FskvSet string "byte list" | FskvDel string | FskvClear

fun fskv_key_ok :: "fskv_op \<Rightarrow> bool" where
  "fskv_key_ok (FskvSet k x) \<longleftrightarrow> key_ok k"
| "fskv_key_ok (FskvDel k) \<longleftrightarrow> key_ok k"
| "fskv_key_ok FskvClear \<longleftrightarrow> True"

fun fskv_exec :: "('s, 'f, 'd) lfs_api \<Rightarrow> lfs_config \<Rightarrow> fskv_op \<Rightarrow> 's \<Rightarrow> int \<times> 's" where
  "fskv_exec api conf (FskvSet k x) s = luat_fskv_set api k x s"
| "fskv_exec api conf (FskvDel k) s = luat_fskv_del api k s"
| "fskv_exec api conf FskvClear s = luat_fskv_clear api conf s"

fun fskv_run :: "('s, 'f, 'd) lfs_api \<Rightarrow> lfs_config \<Rightarrow> fskv_op list \<Rightarrow> 's \<Rightarrow> int list \<times> 's" where
  "fskv_run api conf [] s = ([], s)"
| "fskv_run api conf (p # ops) s =
     (let (r, s) = fskv_exec api conf p s; (rs, s) = fskv_run api conf ops s in (r # rs, s))"

fun fskv_spec :: "fskv_op \<Rightarrow> (string \<rightharpoonup> byte list) \<Rightarrow> (string \<rightharpoonup> byte list)" where
  "fskv_spec (FskvSet k x) m = m(k \<mapsto> x)"
| "fskv_spec (FskvDel k) m = m(k := None)"
| "fskv_spec FskvClear m = Map.empty"

lemma or_neg: "(x :: int) OR y < 0 \<longleftrightarrow> x < 0 \<or> y < 0"
  by (rule or_negative_int_iff)

lemma open_write_law:
  assumes "lfs_documented api a" and "ab_good a s" and "key_ok k"
    and "lfs_file_open api k [LFS_O_WRONLY, LFS_O_CREAT, LFS_O_TRUNC] s = (0, f, s')"
  shows "ab_good a s'" and "ab_view a f = \<lparr>fv_name = k, fv_data = [], fv_pos = 0, fv_write = True\<rparr>"
    and "ab_files a s' = (if ab_files a s k = None then (ab_files a s)(k \<mapsto> []) else ab_files a s)"
  using assms unfolding lfs_documented_def lfs_writes_def by blast+

lemma write_law:
  assumes "lfs_documented api a" and "ab_good a s" and "fv_write (ab_view a f)"
    and "fv_pos (ab_view a f) = length (fv_data (ab_view a f))" and "lfs_file_write api f d s = (r, f', s')" and "0 \<le> r"
  shows "ab_good a s'" and "ab_files a s' = ab_files a s" and "r = int (length d)"
    and "ab_view a f' = (ab_view a f)\<lparr>fv_data := fv_data (ab_view a f) @ d, fv_pos := fv_pos (ab_view a f) + length d\<rparr>"
proof -
  have "ab_good a s' \<and> ab_files a s' = ab_files a s \<and>
        (r < 0 \<and> \<not> fv_write (ab_view a f') \<or>
         r = int (length d) \<and> ab_view a f' = (ab_view a f)\<lparr>fv_data := fv_data (ab_view a f) @ d,
                                                    fv_pos := fv_pos (ab_view a f) + length d\<rparr>)"
    using assms(1-5) unfolding lfs_documented_def lfs_writes_def by blast
  with assms(6) show "ab_good a s'" and "ab_files a s' = ab_files a s" and "r = int (length d)"
    and "ab_view a f' = (ab_view a f)\<lparr>fv_data := fv_data (ab_view a f) @ d, fv_pos := fv_pos (ab_view a f) + length d\<rparr>"
    by linarith+
qed

lemma close_law:
  assumes "lfs_documented api a" and "ab_good a s" and "fv_write (ab_view a f)" and "key_ok (fv_name (ab_view a f))"
    and "lfs_file_close api f s = (r, s')" and "0 \<le> r"
  shows "ab_good a s'" and "r = 0" and "ab_files a s' = (ab_files a s)(fv_name (ab_view a f) \<mapsto> fv_data (ab_view a f))"
proof -
  have "ab_good a s' \<and> (r = 0 \<and> ab_files a s' = (ab_files a s)(fv_name (ab_view a f) \<mapsto> fv_data (ab_view a f)) \<or>
                        r < 0 \<and> ab_files a s' = ab_files a s)"
    using assms(1-5) unfolding lfs_documented_def lfs_writes_def by blast
  with assms(6) show "ab_good a s'" and "r = 0" and "ab_files a s' = (ab_files a s)(fv_name (ab_view a f) \<mapsto> fv_data (ab_view a f))"
    by linarith+
qed

lemma set_effect:
  assumes "lfs_documented api a" and "ab_good a s" and "key_ok k" and "luat_fskv_set api k x s = (r, s')" and "0 \<le> r"
  shows "ab_good a s' \<and> ab_files a s' = (ab_files a s)(k \<mapsto> x) \<and> r = int (length x)"
proof -
  obtain r1 f1 s1 where o: "lfs_file_open api k [LFS_O_WRONLY, LFS_O_CREAT, LFS_O_TRUNC] s = (r1, f1, s1)"
    by (metis prod_cases3)
  have r1: "r1 = 0" using assms(4,5) o by (auto simp: luat_fskv_set_def split: if_splits prod.splits)
  note o1 = open_write_law [OF assms(1-3) o [unfolded r1]]
  obtain r2 f2 s2 where wr: "lfs_file_write api f1 x s1 = (r2, f2, s2)" by (metis prod_cases3)
  obtain r3 s3 where c: "lfs_file_close api f2 s2 = (r3, s3)" by force
  have r: "r = r2 OR r3" "s' = s3" using assms(4) o r1 wr c by (simp_all add: luat_fskv_set_def)
  with assms(5) have pos: "0 \<le> r2" "0 \<le> r3" using or_neg [of r2 r3] by linarith+
  note w2 = write_law [OF assms(1) o1(1) _ _ wr pos(1), unfolded o1(2), simplified]
  have v: "fv_write (ab_view a f2)" "fv_name (ab_view a f2) = k" "fv_data (ab_view a f2) = x" using w2(4) by simp_all
  note c3 = close_law [OF assms(1) w2(1) v(1) _ c pos(2), unfolded v(2), OF assms(3)]
  show ?thesis using c3 w2(2,3) o1(3) r v by simp
qed

lemma exec_effect:
  assumes "lfs_documented api a" and "ab_good a s" and "fskv_key_ok p" and "fskv_exec api conf p s = (r, s')" and "0 \<le> r"
  shows "ab_good a s' \<and> ab_files a s' = fskv_spec p (ab_files a s)"
proof (cases p)
  case (FskvSet k x)
  with set_effect [OF assms(1,2)] assms(3-5) show ?thesis by simp
next
  case (FskvDel k)
  obtain r1 s1 where f: "lfs_remove api k s = (r1, s1)" by force
  moreover have "key_ok k" using assms(3) FskvDel by simp
  ultimately have "ab_good a s1 \<and> ab_files a s1 = (ab_files a s)(k := None)"
    using assms(1,2) unfolding lfs_documented_def lfs_manages_def by blast
  with FskvDel assms(4) f show ?thesis by (simp add: luat_fskv_del_def)
next
  case FskvClear
  obtain r1 s1 where f: "lfs_format api conf s = (r1, s1)" by force
  obtain r2 s2 where m: "lfs_mount api conf s1 = (r2, s2)" by force
  have "r1 \<le> 0" and *: "r1 = 0 \<longrightarrow> r2 = 0 \<and> ab_good a s2 \<and> ab_files a s2 = Map.empty"
    using assms(1) f m unfolding lfs_documented_def lfs_manages_def by blast+
  then have "r1 = 0" using assms(4,5) FskvClear f by (auto simp: luat_fskv_clear_def split: if_splits)
  with * show ?thesis using assms(4) FskvClear f m by (simp add: luat_fskv_clear_def)
qed

lemma run_effect:
  assumes "lfs_documented api a" and "ab_good a s" and "list_all fskv_key_ok ops"
    and "fskv_run api conf ops s = (rs, s')" and "list_all (\<lambda>r. 0 \<le> r) rs"
  shows "ab_good a s' \<and> ab_files a s' = fold fskv_spec ops (ab_files a s)"
  using assms(2-)
proof (induction ops arbitrary: s rs)
  case Nil
  then show ?case by simp
next
  case (Cons p ops)
  obtain r s1 where e: "fskv_exec api conf p s = (r, s1)" by force
  obtain rs1 s2 where n: "fskv_run api conf ops s1 = (rs1, s2)" by force
  have eqs: "rs = r # rs1" "s' = s2" using Cons.prems(3) e n by simp_all
  have "ab_good a s1 \<and> ab_files a s1 = fskv_spec p (ab_files a s)"
    using exec_effect [OF assms(1) Cons.prems(1) _ e] Cons.prems(2,4) eqs by simp
  with Cons.IH [of s1 rs1] Cons.prems(2,4) n eqs show ?case by simp
qed

lemma open_read_law:
  assumes "lfs_documented api a" and "ab_good a s" and "ab_files a s k = Some x"
  obtains f where "lfs_file_open api k [LFS_O_RDONLY] s = (0, f, s)"
    and "ab_view a f = \<lparr>fv_name = k, fv_data = x, fv_pos = 0, fv_write = False\<rparr>"
  using assms unfolding lfs_documented_def lfs_reads_def by blast

lemma open_missing_law:
  assumes "lfs_documented api a" and "ab_good a s" and "ab_files a s k = None"
  obtains r f where "lfs_file_open api k [LFS_O_RDONLY] s = (r, f, s)" and "r < 0"
  using assms unfolding lfs_documented_def lfs_reads_def by blast

lemma read_law:
  assumes "lfs_documented api a" and "ab_good a s"
    and "ab_view a f = \<lparr>fv_name = k, fv_data = x, fv_pos = 0, fv_write = False\<rparr>"
  obtains f' where "lfs_file_read api f n s = (int (length (take n x)), take n x, f', s)"
    and "lfs_file_close api f' s = (0, s)"
proof -
  have r: "\<forall>s f n. ab_good a s \<longrightarrow> \<not> fv_write (ab_view a f) \<longrightarrow>
        (let x = take n (drop (fv_pos (ab_view a f)) (fv_data (ab_view a f))) in
         \<exists>f'. lfs_file_read api f n s = (int (length x), x, f', s) \<and>
              ab_view a f' = (ab_view a f)\<lparr>fv_pos := fv_pos (ab_view a f) + length x\<rparr>)"
    and c: "\<forall>s f. ab_good a s \<longrightarrow> \<not> fv_write (ab_view a f) \<longrightarrow> lfs_file_close api f s = (0, s)"
    using assms(1) unfolding lfs_documented_def lfs_reads_def by blast+
  from r [rule_format, OF assms(2), of f n] assms(3) obtain f' where
      "lfs_file_read api f n s = (int (length (take n x)), take n x, f', s)" and "\<not> fv_write (ab_view a f')"
    by auto
  with c assms(2) that show thesis by blast
qed

lemma get_effect:
  assumes "lfs_documented api a" and "ab_good a s" and "n \<le> length buf"
  shows "luat_fskv_get api k buf n s =
         Some (case ab_files a s k of None \<Rightarrow> (0, buf, s)
               | Some x \<Rightarrow> (int (min n (length x)), take n x @ drop (min n (length x)) buf, s))"
proof (cases "ab_files a s k")
  case None
  obtain r f where "lfs_file_open api k [LFS_O_RDONLY] s = (r, f, s)" and "r < 0"
    using open_missing_law [OF assms(1,2) None] .
  with None show ?thesis by (simp add: luat_fskv_get_def)
next
  case (Some x)
  obtain f where o: "lfs_file_open api k [LFS_O_RDONLY] s = (0, f, s)"
    and v: "ab_view a f = \<lparr>fv_name = k, fv_data = x, fv_pos = 0, fv_write = False\<rparr>"
    using open_read_law [OF assms(1,2) Some] .
  obtain f' where r: "lfs_file_read api f n s = (int (length (take n x)), take n x, f', s)"
    and c: "lfs_file_close api f' s = (0, s)"
    using read_law [OF assms(1,2) v] .
  have "poke 0 (take n x) buf = Some (take n x @ drop (min n (length x)) buf)"
    using assms(3) by (simp add: poke_def min.commute)
  with o r c Some show ?thesis by (simp add: luat_fskv_get_def Let_def min.commute)
qed


section \<open>A file system in a list\<close>

text \<open>A concrete file system with the documented behaviour: a list of names and contents.\<close>

type_synonym list_fs = "(string \<times> byte list) list"
type_synonym list_dir = "lfs_info list \<times> lfs_info list"

definition view_open :: "string \<Rightarrow> byte list \<Rightarrow> bool \<Rightarrow> lfs_view" where
  "view_open k x w = \<lparr>fv_name = k, fv_data = x, fv_pos = 0, fv_write = w\<rparr>"

definition list_read :: "lfs_view \<Rightarrow> nat \<Rightarrow> list_fs \<Rightarrow> int \<times> byte list \<times> lfs_view \<times> list_fs" where
  "list_read f n s =
     (let x = take n (drop (fv_pos f) (fv_data f)) in (int (length x), x, f\<lparr>fv_pos := fv_pos f + length x\<rparr>, s))"

definition list_lfs :: "(list_fs, lfs_view, list_dir) lfs_api" where
  "list_lfs = \<lparr>
     lfs_mount = (\<lambda>conf s. (0, s)),
     lfs_format = (\<lambda>conf s. (0, [])),
     lfs_remove = (\<lambda>k s. (0, AList.delete k s)),
     lfs_file_open = (\<lambda>k fl s.
       if fl = [LFS_O_RDONLY]
       then (case map_of s k of None \<Rightarrow> (-2, view_open k [] False, s) | Some x \<Rightarrow> (0, view_open k x False, s))
       else (0, view_open k [] True, if map_of s k = None then AList.update k [] s else s)),
     lfs_file_write = (\<lambda>f d s. (int (length d), f\<lparr>fv_data := fv_data f @ d, fv_pos := fv_pos f + length d\<rparr>, s)),
     lfs_file_read = list_read,
     lfs_file_size = (\<lambda>f s. int (length (fv_data f))),
     lfs_file_close = (\<lambda>f s. (0, if fv_write f then AList.update (fv_name f) (fv_data f) s else s)),
     lfs_fs_size = (\<lambda>s. int (2 + length s)),
     lfs_dir_open = (\<lambda>p s. let es = dot_entries @ map (reg_entry \<circ> fst) s in (0, (es, es), s)),
     lfs_dir_seek = (\<lambda>d n s. (0, (fst d, drop n (fst d)), s)),
     lfs_dir_read = (\<lambda>d s. case snd d of [] \<Rightarrow> (0, reg_entry [], d, s) | i # is \<Rightarrow> (1, i, (fst d, is), s)),
     lfs_dir_close = (\<lambda>d s. s)\<rparr>"

definition good_list :: "list_fs \<Rightarrow> bool" where
  "good_list s \<longleftrightarrow> distinct (map fst s) \<and> list_all key_ok (map fst s)"

definition list_abs :: "(list_fs, lfs_view, list_dir) lfs_abs" where
  "list_abs = \<lparr>
     ab_good = good_list,
     ab_files = map_of,
     ab_names = map fst,
     ab_view = (\<lambda>f. f),
     ab_dir = snd\<rparr>"

lemma update_good: "good_list s \<Longrightarrow> key_ok k \<Longrightarrow> good_list (AList.update k x s)"
  by (simp add: good_list_def update_keys)

lemma good_Nil: "good_list []"
  by (simp add: good_list_def)

lemma delete_good: "good_list s \<Longrightarrow> good_list (AList.delete k s)"
  by (auto simp: good_list_def delete_keys list_all_iff distinct_removeAll)

lemma list_fs_reads: "lfs_reads list_lfs list_abs"
  by (auto simp: lfs_reads_def list_lfs_def list_abs_def view_open_def list_read_def Let_def split: option.splits)

lemma list_fs_writes: "lfs_writes list_lfs list_abs"
  by (auto simp: lfs_writes_def list_lfs_def list_abs_def view_open_def update_conv' update_good split: if_splits)

lemma list_fs_manages: "lfs_manages list_lfs list_abs"
  by (auto simp: lfs_manages_def list_lfs_def list_abs_def delete_conv' delete_good good_Nil)

lemma list_fs_lists: "lfs_lists list_lfs list_abs"
  by (auto simp: lfs_lists_def list_lfs_def list_abs_def dom_map_of_conv_image_fst Let_def good_list_def list_all_iff
      simp del: length_append)

lemma list_fs_documented: "lfs_documented list_lfs list_abs"
  by (simp add: lfs_documented_def list_fs_reads list_fs_writes list_fs_manages list_fs_lists)



section \<open>Enumeration\<close>

lemma dir_read_laws:
  assumes "lfs_documented api a"
  shows "\<forall>s d. ab_good a s \<longrightarrow> ab_dir a d = [] \<longrightarrow> (\<exists>i d'. lfs_dir_read api d s = (0, i, d', s))"
    and "\<forall>s d i is. ab_good a s \<longrightarrow> ab_dir a d = i # is \<longrightarrow> (\<exists>d'. lfs_dir_read api d s = (1, i, d', s) \<and> ab_dir a d' = is)"
    and "\<forall>s d. ab_good a s \<longrightarrow> lfs_dir_close api d s = s"
  using assms unfolding lfs_documented_def lfs_lists_def by - (elim conjE, assumption)+

lemma dir_open_law:
  assumes "lfs_documented api a" and "ab_good a s"
  shows "distinct (ab_names a s) \<and> set (ab_names a s) = dom (ab_files a s) \<and> (\<forall>k \<in> set (ab_names a s). key_ok k) \<and>
    (\<exists>d. lfs_dir_open api '''' s = (0, d, s) \<and> ab_dir a d = dot_entries @ map reg_entry (ab_names a s) \<and>
         (\<forall>n < length (ab_dir a d). \<exists>d'. lfs_dir_seek api d n s = (0, d', s) \<and> ab_dir a d' = drop n (ab_dir a d)) \<and>
         (\<forall>n \<ge> length (ab_dir a d). \<exists>r d'. lfs_dir_seek api d n s = (r, d', s) \<and> (r < 0 \<or> ab_dir a d' = [])))"
proof -
  from assms(1) have "lfs_lists api a" by (simp only: lfs_documented_def)
  from this [unfolded lfs_lists_def, THEN conjunct1, rule_format, OF assms(2)] show ?thesis .
qed

lemma stat_loop_counts:
  assumes "lfs_documented api a" and "ab_good a s" and "ab_dir a d = es"
  shows "\<exists>d'. stat_loop api n d s = Some (n + length (filter (\<lambda>i. li_type i = LFS_TYPE_REG) es), d', s)"
  using assms(3)
proof (induction es arbitrary: n d)
  case Nil
  then obtain i d' where "lfs_dir_read api d s = (0, i, d', s)" using dir_read_laws(1) [OF assms(1)] assms(2) by blast
  then show ?case by (simp add: stat_loop.simps [of api n d s])
next
  case (Cons i es)
  then obtain d' where r: "lfs_dir_read api d s = (1, i, d', s)" and d': "ab_dir a d' = es"
    using dir_read_laws(2) [OF assms(1)] assms(2) by blast
  obtain d'' where "stat_loop api (if li_type i = LFS_TYPE_REG then n + 1 else n) d' s =
      Some ((if li_type i = LFS_TYPE_REG then n + 1 else n) + length (filter (\<lambda>i. li_type i = LFS_TYPE_REG) es), d'', s)"
    using Cons.IH [OF d'] by blast
  with r show ?case by (simp add: stat_loop.simps [of api n d s])
qed

lemma stat_effect:
  assumes "lfs_documented api a" and "ab_good a s"
  shows "\<exists>st. luat_fskv_stat api s = Some (0, st, s) \<and> fs_kv_count st = Some (length (ab_names a s)) \<and> fs_total st = 65536"
proof -
  obtain d where o: "lfs_dir_open api '''' s = (0, d, s)" and d: "ab_dir a d = dot_entries @ map reg_entry (ab_names a s)"
    using dir_open_law [OF assms] by blast
  have "filter (\<lambda>i. li_type i = LFS_TYPE_REG) (map reg_entry ks) = map reg_entry ks" for ks
    by (induction ks) (simp_all add: reg_entry_def)
  then have f: "length (filter (\<lambda>i. li_type i = LFS_TYPE_REG) (dot_entries @ map reg_entry (ab_names a s))) = length (ab_names a s)"
    by simp
  obtain d' where "stat_loop api 0 d s = Some (length (ab_names a s), d', s)"
    using stat_loop_counts [OF assms d, of 0] unfolding f by auto
  with o dir_read_laws(3) [OF assms(1)] assms(2) show ?thesis by (simp add: luat_fskv_stat_def Let_def)
qed

lemma next_effect:
  assumes "lfs_documented api a" and "ab_good a s" and "i < length (ab_names a s)" and "length (ab_names a s) < 2 ^ 31"
    and "64 \<le> length buff"
  shows "\<exists>buff'. luat_fskv_next api buff i s = Some (0, buff', s) \<and>
           take (length (ab_names a s ! i) + 1) buff' = ab_names a s ! i @ [CHR 0x00]"
proof -
  let ?ks = "ab_names a s" and ?k = "ab_names a s ! i"
  obtain d where o: "lfs_dir_open api '''' s = (0, d, s)" and d: "ab_dir a d = dot_entries @ map reg_entry ?ks"
    and sk: "\<forall>n < length (ab_dir a d). \<exists>d'. lfs_dir_seek api d n s = (0, d', s) \<and> ab_dir a d' = drop n (ab_dir a d)"
    and ok: "\<forall>k \<in> set ?ks. key_ok k"
    using dir_open_law [OF assms(1,2)] by blast
  have "i + 2 < length (ab_dir a d)" using d assms(3) by simp
  with sk obtain d1 where s1: "lfs_dir_seek api d (i + 2) s = (0, d1, s)" and "ab_dir a d1 = drop (i + 2) (ab_dir a d)" by blast
  then have "ab_dir a d1 = reg_entry ?k # drop (Suc i) (map reg_entry ?ks)"
    using d assms(3) by (simp add: Cons_nth_drop_Suc [symmetric] drop_map)
  then obtain d2 where r: "lfs_dir_read api d1 s = (1, reg_entry ?k, d2, s)"
    using dir_read_laws(2) [OF assms(1)] assms(2) by blast
  have "length ?k \<le> 63" using ok assms(3) by (simp add: key_ok_def)
  then have p: "poke 0 (?k @ [CHR 0x00]) buff = Some ((?k @ [CHR 0x00]) @ drop (length ?k + 1) buff)"
    using assms(5) by (simp add: poke_def)
  have m: "(i + 2) mod 2 ^ 32 = i + 2" using assms(3,4) by simp
  have "luat_fskv_next api buff i s = Some (0, (?k @ [CHR 0x00]) @ drop (length ?k + 1) buff, s)"
    unfolding luat_fskv_next_def m
    using o s1 r p dir_read_laws(3) [OF assms(1)] assms(2) by (simp add: Let_def reg_entry_def)
  then show ?thesis by simp
qed

lemma next_end:
  assumes "lfs_documented api a" and "ab_good a s" and "length (ab_names a s) \<le> i" and "i < 2 ^ 32 - 2"
  shows "\<exists>r<0. luat_fskv_next api buff i s = Some (r, buff, s)"
proof -
  obtain d where o: "lfs_dir_open api '''' s = (0, d, s)" and d: "ab_dir a d = dot_entries @ map reg_entry (ab_names a s)"
    and sk: "\<forall>n \<ge> length (ab_dir a d). \<exists>r d'. lfs_dir_seek api d n s = (r, d', s) \<and> (r < 0 \<or> ab_dir a d' = [])"
    using dir_open_law [OF assms(1,2)] by blast
  have "length (ab_dir a d) \<le> i + 2" using d assms(3) by simp
  with sk obtain r d1 where s1: "lfs_dir_seek api d (i + 2) s = (r, d1, s)" and "r < 0 \<or> ab_dir a d1 = []" by blast
  moreover have m: "(i + 2) mod 2 ^ 32 = i + 2" using assms(4) by simp
  note cl = dir_read_laws(3) [OF assms(1), rule_format, OF assms(2)]
  moreover have "\<exists>j d'. lfs_dir_read api d1 s = (0, j, d', s)" if "ab_dir a d1 = []"
    using dir_read_laws(1) [OF assms(1)] assms(2) that by blast
  ultimately show ?thesis
    unfolding luat_fskv_next_def m using o by (auto simp: Let_def)
qed



section \<open>The device keeps what is programmed\<close>

text \<open>The block device under littlefs keeps what is programmed. From any contents of the array, after a
  sequence of valid program and erase calls, a read of a programmed range returns the bytes
  programmed there, provided that no later call touches the range; no call leaves the array.\<close>

theorem fskv_device_reads_back:
  assumes "length buff = 64 * 1024" and "list_all (bd_valid 16) (before @ Prog b off x # later)"
    and "list_all (\<lambda>p. \<not> bd_touches p b off (length x)) later"
  shows "\<exists>buff'. bd_run block_device_prog block_device_erase (before @ Prog b off x # later) buff = Some buff' \<and>
           block_device_read b off (length x) buff' = Some x"
  using fskv_dev.read_back [OF _ assms(2,3), of buff] assms(1) by simp

theorem fskv_device_reads_back_witness:
  "\<exists>buff'. bd_run block_device_prog block_device_erase ([Erase 3] @ Prog 3 8 [1, 2] # [Prog 3 10 [7], Erase 2]) fskv_buff_start = Some buff' \<and>
     block_device_read 3 8 2 buff' = Some [1, 2]"
  using fskv_device_reads_back [of fskv_buff_start "[Erase 3]" 3 8 "[1, 2]" "[Prog 3 10 [7], Erase 2]"]
  by (simp add: fskv_buff_start_def numeral_2_eq_2 [symmetric])

end
