(* ===== verification/Fs_Mini.thy ===== *)
theory Fs_Mini
  imports Fskv_Pc
begin

text \<open>
  The file systems of the port, \<open>port/luat_fs_mini.c\<close>: the block device in memory behind the
  mount point \<open>/lfs2/\<close>, and the start-up that registers the file systems and mounts them. The
  virtual file system layer of LuatOS is outside of the sources: the calls to it are
  recorded, in order.
\<close>

section \<open>The block device\<close>

abbreviation lfs_mem_blocks :: nat where "lfs_mem_blocks \<equiv> 128 * 1024 div (4 * 1024)"

definition lfs_mem_buff_start :: "byte list" where
  "lfs_mem_buff_start = replicate (128 * 1024) 0"

definition mem_read :: "nat \<Rightarrow> nat \<Rightarrow> nat \<Rightarrow> byte list \<Rightarrow> byte list option" where
  "mem_read block off n buff = peek (bd_addr block off) n buff"

definition mem_prog :: "nat \<Rightarrow> nat \<Rightarrow> byte list \<Rightarrow> byte list \<Rightarrow> byte list option" where
  "mem_prog block off x buff = poke (bd_addr block off) x buff"

definition mem_erase :: "nat \<Rightarrow> byte list \<Rightarrow> byte list option" where
  "mem_erase block buff = poke (bd_addr block 0) (replicate block_size 0xFF) buff"

definition mem_sync :: "byte list \<Rightarrow> int \<times> byte list" where
  "mem_sync buff = (0, buff)"

interpretation lfs_mem: block_device lfs_mem_blocks "0xFF" mem_read mem_prog mem_erase
    array_cell "\<lambda>d. length d = lfs_mem_blocks * block_size"
proof unfold_locales
  fix d :: "byte list" and b off n
  assume "length d = lfs_mem_blocks * block_size" and "b < lfs_mem_blocks" and "off + n \<le> block_size"
  then show "mem_read b off n d = Some (map (array_cell d b) [off..<off + n])"
    unfolding mem_read_def by (intro array_peek [where n = lfs_mem_blocks]) simp_all
next
  fix d :: "byte list" and b off x
  assume "length d = lfs_mem_blocks * block_size" and "bd_valid lfs_mem_blocks (Prog b off x)"
  then show "\<exists>d'. mem_prog b off x d = Some d' \<and> length d' = lfs_mem_blocks * block_size \<and>
      bd_equal lfs_mem_blocks (array_cell d') (bd_spec 0xFF (Prog b off x) (array_cell d))"
    unfolding mem_prog_def by (intro array_poke) simp_all
next
  fix d :: "byte list" and b
  assume "length d = lfs_mem_blocks * block_size" and "bd_valid lfs_mem_blocks (Erase b)"
  then show "\<exists>d'. mem_erase b d = Some d' \<and> length d' = lfs_mem_blocks * block_size \<and>
      bd_equal lfs_mem_blocks (array_cell d') (bd_spec 0xFF (Erase b) (array_cell d))"
    unfolding mem_erase_def by (intro array_erase) simp_all
qed

text \<open>The second device keeps what is programmed, too, and an erased block reads as \<open>0xFF\<close>.\<close>

lemma lfs_mem_reads_back:
  assumes "length buff = 128 * 1024" and "list_all (bd_valid 32) (before @ Prog b off x # later)"
    and "list_all (\<lambda>p. \<not> bd_touches p b off (length x)) later"
  shows "\<exists>buff'. bd_run mem_prog mem_erase (before @ Prog b off x # later) buff = Some buff' \<and>
           mem_read b off (length x) buff' = Some x"
  using lfs_mem.read_back [OF _ _ assms(3), of buff before] assms(1,2) by simp

section \<open>Mounting\<close>

datatype fs_bus = BusNone | BusImage "byte list" | BusLfs

record luat_fs_conf =
  fc_busname :: fs_bus
  fc_filesystem :: string
  fc_mount_point :: string

datatype fs_call = VfsInit | VfsReg string | FsMount luat_fs_conf | LvFsInit

definition lfs2_cfg :: lfs_config where
  "lfs2_cfg =
     \<lparr>cf_attr_max = 0, cf_file_max = 0, cf_block_count = lfs_mem_blocks, cf_block_size = 4096,
      cf_block_cycles = 200, cf_name_max = 63, cf_read_size = 256, cf_cache_size = 256, cf_prog_size = 256,
      cf_lookahead_size = 16, cf_lookahead_buffer = Some 1, cf_prog_buffer = Some 2, cf_read_buffer = Some 3\<rparr>"

definition fs_conf :: "fs_bus \<Rightarrow> string \<Rightarrow> string \<Rightarrow> fs_call" where
  "fs_conf bus fs mp = FsMount \<lparr>fc_busname = bus, fc_filesystem = fs, fc_mount_point = mp\<rparr>"

definition pc_lfs2_mount :: "('s, 'f, 'd) lfs_api \<Rightarrow> 's \<Rightarrow> fs_call list \<times> 's" where
  "pc_lfs2_mount api s =
     (let (ret, s) = lfs_mount api lfs2_cfg s in
      if ret \<noteq> 0 then
        (let (_, s) = lfs_format api lfs2_cfg s; (ret, s) = lfs_mount api lfs2_cfg s in
         if ret \<noteq> 0 then ([], s) else ([fs_conf BusLfs ''lfs2'' ''/lfs2/''], s))
      else ([fs_conf BusLfs ''lfs2'' ''/lfs2/''], s))"

text \<open>\<open>lvgl\<close> tells whether the graphics library is built in.\<close>

definition luat_fs_init :: "bool \<Rightarrow> ('s, 'f, 'd) lfs_api \<Rightarrow> byte list option \<Rightarrow> 's \<Rightarrow> int \<times> fs_call list \<times> 's" where
  "luat_fs_init lvgl api luadb_ptr s =
     (let (m, s) = pc_lfs2_mount api s in
      (0, [VfsInit, VfsReg ''posix'', VfsReg ''luadb'', VfsReg ''ram'', VfsReg ''lfs2'',
           fs_conf BusNone ''posix'' '''', fs_conf BusNone ''ram'' ''/ram/''] @
          (case luadb_ptr of None \<Rightarrow> [] | Some p \<Rightarrow> [fs_conf (BusImage p) ''luadb'' ''/luadb/'']) @
          m @ (if lvgl then [LvFsInit] else []), s))"

text \<open>On a blank device littlefs refuses the first mount, is formatted and then mounted.\<close>

lemma lfs2_mounted_after_format:
  assumes "lfs_documented api a" and "\<forall>s. fst (lfs_format api lfs2_cfg s) = 0"
    and "fst (lfs_mount api lfs2_cfg s) \<noteq> 0"
  shows "\<exists>s'. pc_lfs2_mount api s = ([fs_conf BusLfs ''lfs2'' ''/lfs2/''], s') \<and> ab_good a s' \<and> ab_files a s' = Map.empty"
proof -
  obtain r1 s1 where m: "lfs_mount api lfs2_cfg s = (r1, s1)" by force
  obtain r2 s2 where f: "lfs_format api lfs2_cfg s1 = (r2, s2)" by force
  obtain r3 s3 where m3: "lfs_mount api lfs2_cfg s2 = (r3, s3)" by force
  have r2: "r2 = 0" using assms(2) [rule_format, of s1] f by simp
  have "lfs_manages api a" using assms(1) by (simp only: lfs_documented_def)
  from this [unfolded lfs_manages_def, THEN conjunct2, THEN conjunct2, rule_format, OF f m3 r2]
  have "r3 = 0 \<and> ab_good a s3 \<and> ab_files a s3 = Map.empty" .
  with m f m3 assms(3) show ?thesis by (simp add: pc_lfs2_mount_def)
qed

text \<open>Every registered file system that is mounted is registered before, and no mount point is used twice.\<close>

fun mounts_after_reg :: "string list \<Rightarrow> string list \<Rightarrow> fs_call list \<Rightarrow> bool" where
  "mounts_after_reg regs mps [] \<longleftrightarrow> True"
| "mounts_after_reg regs mps (VfsReg f # cs) \<longleftrightarrow> mounts_after_reg (f # regs) mps cs"
| "mounts_after_reg regs mps (FsMount c # cs) \<longleftrightarrow>
     fc_filesystem c \<in> set regs \<and> fc_mount_point c \<notin> set mps \<and> mounts_after_reg regs (fc_mount_point c # mps) cs"
| "mounts_after_reg regs mps (c # cs) \<longleftrightarrow> mounts_after_reg regs mps cs"

lemma fs_init_order: "mounts_after_reg [] [] (fst (snd (luat_fs_init lvgl api ptr s)))"
  by (cases ptr) (auto simp: luat_fs_init_def pc_lfs2_mount_def fs_conf_def split: prod.splits if_splits)

end
