(* ===== verification/Heap_Mini.thy ===== *)
theory Heap_Mini
  imports Luatos_Prelude
begin

text \<open>
  The heaps of the port, \<open>port/luat_malloc_mini.c\<close>: the system heap in a pool of 1 MB, the
  PSRAM heap in a pool of 2 MB, and the allocator that the Lua virtual machine calls. The
  pools are managed by the bget library, which is outside of the sources: its functions on
  a pool and on the memory are the fields of a record, and what its manual promises is the
  predicate \<open>bget_documented\<close>. Pointers are 32-bit addresses, 0 is the null pointer.
\<close>

type_synonym memory = "addr \<Rightarrow> byte"

record 'p bget_api =
  bg_getz :: "nat \<Rightarrow> 'p \<times> memory \<Rightarrow> addr \<times> 'p \<times> memory" \<comment> \<open>a zeroed block\<close>
  bg_getr :: "addr \<Rightarrow> nat \<Rightarrow> 'p \<times> memory \<Rightarrow> addr \<times> 'p \<times> memory" \<comment> \<open>a block of another size\<close>
  bg_rel :: "addr \<Rightarrow> 'p \<times> memory \<Rightarrow> 'p \<times> memory"
  bg_stats :: "'p \<Rightarrow> nat \<times> nat \<times> nat" \<comment> \<open>allocated, free, largest free block\<close>
  bg_maxget :: "'p \<Rightarrow> nat"
  bg_pool :: "addr \<Rightarrow> nat \<Rightarrow> 'p" \<comment> \<open>a new pool in the given memory\<close>

record 'p heap_state =
  hs_psram_ptr :: addr
  hs_sram_ptr :: addr
  hs_psram :: 'p
  hs_sram :: 'p
  hs_lua :: 'p \<comment> \<open>the pool of the virtual machine\<close>
  hs_mem :: memory

datatype heap_type = LUAT_HEAP_SRAM | LUAT_HEAP_PSRAM

definition fill_zero :: "addr \<Rightarrow> nat \<Rightarrow> memory \<Rightarrow> memory" where
  "fill_zero p n m = (\<lambda>a. if p \<le> a \<and> a < p + n then 0 else m a)"

section \<open>The system heap\<close>

definition luat_heap_malloc :: "'p bget_api \<Rightarrow> nat \<Rightarrow> 'p heap_state \<Rightarrow> addr \<times> 'p heap_state" where
  "luat_heap_malloc bg len s =
     (let (p, q, m) = bg_getz bg len (hs_sram s, hs_mem s) in (p, s\<lparr>hs_sram := q, hs_mem := m\<rparr>))"

definition luat_heap_free :: "'p bget_api \<Rightarrow> addr \<Rightarrow> 'p heap_state \<Rightarrow> 'p heap_state" where
  "luat_heap_free bg p s =
     (if p = 0 then s
      else if p < hs_sram_ptr s \<or> p \<ge> (hs_sram_ptr s + 1024 * 1024) mod 2 ^ 32 then s
      else (let (q, m) = bg_rel bg p (hs_sram s, hs_mem s) in s\<lparr>hs_sram := q, hs_mem := m\<rparr>))"

definition luat_heap_realloc :: "'p bget_api \<Rightarrow> addr \<Rightarrow> nat \<Rightarrow> 'p heap_state \<Rightarrow> addr \<times> 'p heap_state" where
  "luat_heap_realloc bg p len s =
     (let (r, q, m) = bg_getr bg p len (hs_sram s, hs_mem s) in (r, s\<lparr>hs_sram := q, hs_mem := m\<rparr>))"

definition luat_heap_calloc :: "'p bget_api \<Rightarrow> nat \<Rightarrow> nat \<Rightarrow> 'p heap_state \<Rightarrow> addr \<times> 'p heap_state" where
  "luat_heap_calloc bg count n s =
     (let (p, s) = luat_heap_malloc bg (count * n mod 2 ^ 32) s in
      if p \<noteq> 0 then (p, s\<lparr>hs_mem := fill_zero p (count * n mod 2 ^ 32) (hs_mem s)\<rparr>) else (p, s))"

definition luat_heap_zalloc :: "'p bget_api \<Rightarrow> nat \<Rightarrow> 'p heap_state \<Rightarrow> addr \<times> 'p heap_state" where
  "luat_heap_zalloc bg n s =
     (let (p, s) = luat_heap_malloc bg n s in
      if p \<noteq> 0 then (p, s\<lparr>hs_mem := fill_zero p n (hs_mem s)\<rparr>) else (p, s))"

section \<open>The heap of the virtual machine\<close>

definition luat_heap_alloc :: "'p bget_api \<Rightarrow> addr \<Rightarrow> nat \<Rightarrow> nat \<Rightarrow> 'p heap_state \<Rightarrow> addr \<times> 'p heap_state" where
  "luat_heap_alloc bg p osize nsize s =
     (if nsize \<noteq> 0 then
        (let (t, q, m) = bg_getr bg p nsize (hs_lua s, hs_mem s); s = s\<lparr>hs_lua := q, hs_mem := m\<rparr> in
         if t = 0 \<and> osize \<ge> nsize then (p, s) else (t, s))
      else (let (q, m) = bg_rel bg p (hs_lua s, hs_mem s) in (0, s\<lparr>hs_lua := q, hs_mem := m\<rparr>)))"

text \<open>The three numbers are \<open>total\<close>, \<open>used\<close> and \<open>max_used\<close>.\<close>

definition luat_meminfo_luavm :: "'p bget_api \<Rightarrow> 'p heap_state \<Rightarrow> nat \<times> nat \<times> nat" where
  "luat_meminfo_luavm bg s =
     (let (cur, free, maxfree) = bg_stats bg (hs_lua s) in ((cur + free) mod 2 ^ 32, cur, bg_maxget bg (hs_lua s)))"

definition luat_meminfo_sys :: "'p bget_api \<Rightarrow> 'p heap_state \<Rightarrow> nat \<times> nat \<times> nat" where
  "luat_meminfo_sys bg s =
     (let (cur, free, maxfree) = bg_stats bg (hs_sram s) in ((cur + free) mod 2 ^ 32, cur, maxfree))"

section \<open>Heaps by type\<close>

text \<open>\<open>sys\<close> is the result of the C library's \<open>malloc\<close>; a pool in a null pointer is undefined.\<close>

definition luat_heap_opt_init :: "'p bget_api \<Rightarrow> addr \<Rightarrow> heap_type \<Rightarrow> 'p heap_state \<Rightarrow> 'p heap_state option" where
  "luat_heap_opt_init bg sys ty s =
     (if ty = LUAT_HEAP_PSRAM \<and> hs_psram_ptr s = 0 then
        if sys = 0 then None
        else Some (s\<lparr>hs_psram_ptr := sys, hs_psram := bg_pool bg sys (2 * 1024 * 1024)\<rparr>)
      else if ty = LUAT_HEAP_SRAM \<and> hs_sram_ptr s = 0 then
        if sys = 0 then None
        else Some (s\<lparr>hs_sram_ptr := sys, hs_sram := bg_pool bg sys (1024 * 1024)\<rparr>)
      else Some s)"

definition luat_heap_opt_malloc :: "'p bget_api \<Rightarrow> heap_type \<Rightarrow> nat \<Rightarrow> 'p heap_state \<Rightarrow> addr \<times> 'p heap_state" where
  "luat_heap_opt_malloc bg ty len s =
     (if ty = LUAT_HEAP_PSRAM then
        (let (p, q, m) = bg_getz bg len (hs_psram s, hs_mem s) in (p, s\<lparr>hs_psram := q, hs_mem := m\<rparr>))
      else luat_heap_malloc bg len s)"

definition luat_heap_opt_free :: "'p bget_api \<Rightarrow> heap_type \<Rightarrow> addr \<Rightarrow> 'p heap_state \<Rightarrow> 'p heap_state" where
  "luat_heap_opt_free bg ty p s =
     (if ty = LUAT_HEAP_PSRAM then
        (let (q, m) = bg_rel bg p (hs_psram s, hs_mem s) in s\<lparr>hs_psram := q, hs_mem := m\<rparr>)
      else luat_heap_free bg p s)"

definition luat_heap_opt_realloc :: "'p bget_api \<Rightarrow> heap_type \<Rightarrow> addr \<Rightarrow> nat \<Rightarrow> 'p heap_state \<Rightarrow> addr \<times> 'p heap_state" where
  "luat_heap_opt_realloc bg ty p len s =
     (if ty = LUAT_HEAP_PSRAM then
        (let (r, q, m) = bg_getr bg p len (hs_psram s, hs_mem s) in (r, s\<lparr>hs_psram := q, hs_mem := m\<rparr>))
      else luat_heap_realloc bg p len s)"

definition luat_heap_opt_zalloc :: "'p bget_api \<Rightarrow> heap_type \<Rightarrow> nat \<Rightarrow> 'p heap_state \<Rightarrow> addr \<times> 'p heap_state" where
  "luat_heap_opt_zalloc bg ty n s =
     (let (p, s) = luat_heap_opt_malloc bg ty n s in
      if p \<noteq> 0 then (p, s\<lparr>hs_mem := fill_zero p n (hs_mem s)\<rparr>) else (p, s))"

definition luat_heap_opt_calloc :: "'p bget_api \<Rightarrow> heap_type \<Rightarrow> nat \<Rightarrow> nat \<Rightarrow> 'p heap_state \<Rightarrow> addr \<times> 'p heap_state" where
  "luat_heap_opt_calloc bg ty count n s = luat_heap_opt_zalloc bg ty (count * n mod 2 ^ 32) s"

definition luat_meminfo_opt_sys :: "'p bget_api \<Rightarrow> heap_type \<Rightarrow> 'p heap_state \<Rightarrow> nat \<times> nat \<times> nat" where
  "luat_meminfo_opt_sys bg ty s =
     (if ty = LUAT_HEAP_PSRAM then
        (let (cur, free, maxfree) = bg_stats bg (hs_psram s) in
         ((cur + free) mod 2 ^ 32, cur, bg_maxget bg (hs_psram s)))
      else luat_meminfo_sys bg s)"

section \<open>What bget documents\<close>

text \<open>\<open>blocks q\<close> maps the addresses of the blocks in use of a pool to their sizes.\<close>

definition blocks_ok :: "(addr \<rightharpoonup> nat) \<Rightarrow> bool" where
  "blocks_ok b \<longleftrightarrow> b 0 = None \<and>
     (\<forall>p q n k. b p = Some n \<longrightarrow> b q = Some k \<longrightarrow> p \<noteq> q \<longrightarrow> p + n \<le> q \<or> q + k \<le> p)"

definition mem_at :: "addr \<Rightarrow> nat \<Rightarrow> memory \<Rightarrow> byte list" where
  "mem_at p n m = map m [p..<p + n]"

definition others_kept :: "(addr \<rightharpoonup> nat) \<Rightarrow> addr \<Rightarrow> memory \<Rightarrow> (addr \<rightharpoonup> nat) \<Rightarrow> memory \<Rightarrow> bool" where
  "others_kept b p m b' m' \<longleftrightarrow> (\<forall>q n. q \<noteq> p \<longrightarrow> b q = Some n \<longrightarrow> b' q = Some n \<and> mem_at q n m' = mem_at q n m)"

definition bget_documented :: "'p bget_api \<Rightarrow> ('p \<Rightarrow> (addr \<rightharpoonup> nat)) \<Rightarrow> bool" where
  "bget_documented bg blocks \<longleftrightarrow>
     (\<forall>q. blocks_ok (blocks q)) \<and>
     (\<forall>n q m r q' m'. bg_getz bg n (q, m) = (r, q', m') \<longrightarrow>
        others_kept (blocks q) 0 m (blocks q') m' \<and>
        (if r = 0 then blocks q' = blocks q
         else blocks q r = None \<and> (\<exists>k\<ge>n. blocks q' = (blocks q)(r \<mapsto> k)) \<and> mem_at r n m' = replicate n 0)) \<and>
     (\<forall>p n q m r q' m'. bg_getr bg p n (q, m) = (r, q', m') \<longrightarrow> p = 0 \<or> blocks q p \<noteq> None \<longrightarrow>
        others_kept (blocks q) p m (blocks q') m' \<and>
        (if r = 0 then blocks q' = blocks q \<and> (\<forall>k. blocks q p = Some k \<longrightarrow> mem_at p k m' = mem_at p k m)
         else (r = p \<or> blocks q r = None) \<and> (\<exists>k\<ge>n. blocks q' = (blocks q)(p := None, r \<mapsto> k)) \<and>
              (\<forall>k. blocks q p = Some k \<longrightarrow> mem_at r (min k n) m' = mem_at p (min k n) m))) \<and>
     (\<forall>p q m q' m'. bg_rel bg p (q, m) = (q', m') \<longrightarrow> blocks q p \<noteq> None \<longrightarrow>
        others_kept (blocks q) p m (blocks q') m' \<and> blocks q' = (blocks q)(p := None))"

section \<open>The contract with the virtual machine\<close>

lemma take_mem_at: "n \<le> k \<Longrightarrow> take n (mem_at p k m) = mem_at p n m"
  by (simp add: mem_at_def take_map)

lemma mem_at_shorter: "mem_at p k m = mem_at q k m' \<Longrightarrow> n \<le> k \<Longrightarrow> mem_at p n m = mem_at q n m'"
  by (metis take_mem_at)

lemma getr_law:
  assumes "bget_documented bg blocks" and "bg_getr bg p n (q, m) = (r, q', m')" and "p = 0 \<or> blocks q p \<noteq> None"
  shows "others_kept (blocks q) p m (blocks q') m'"
    and "r = 0 \<Longrightarrow> blocks q' = blocks q \<and> (\<forall>k. blocks q p = Some k \<longrightarrow> mem_at p k m' = mem_at p k m)"
    and "r \<noteq> 0 \<Longrightarrow> (r = p \<or> blocks q r = None) \<and> (\<exists>k\<ge>n. blocks q' = (blocks q)(p := None, r \<mapsto> k)) \<and>
           (\<forall>k. blocks q p = Some k \<longrightarrow> mem_at r (min k n) m' = mem_at p (min k n) m)"
proof -
  from assms(1) [unfolded bget_documented_def, THEN conjunct2, THEN conjunct2, THEN conjunct1, rule_format, OF assms(2,3)]
  show "others_kept (blocks q) p m (blocks q') m'"
    and "r = 0 \<Longrightarrow> blocks q' = blocks q \<and> (\<forall>k. blocks q p = Some k \<longrightarrow> mem_at p k m' = mem_at p k m)"
    and "r \<noteq> 0 \<Longrightarrow> (r = p \<or> blocks q r = None) \<and> (\<exists>k\<ge>n. blocks q' = (blocks q)(p := None, r \<mapsto> k)) \<and>
           (\<forall>k. blocks q p = Some k \<longrightarrow> mem_at r (min k n) m' = mem_at p (min k n) m)"
    by (simp_all split: if_splits)
qed

lemma rel_law:
  assumes "bget_documented bg blocks" and "bg_rel bg p (q, m) = (q', m')" and "blocks q p \<noteq> None"
  shows "others_kept (blocks q) p m (blocks q') m' \<and> blocks q' = (blocks q)(p := None)"
  using assms(1) [unfolded bget_documented_def, THEN conjunct2, THEN conjunct2, THEN conjunct2, rule_format, OF assms(2,3)] .

text \<open>C34: The allocator of the virtual machine keeps the contract of \<open>lua_Alloc\<close>. For a block of at least
  \<open>osize\<close> bytes, a new size of 0 releases the block and returns a null pointer. Otherwise
  shrinking never fails; a result that is not null is a block of the new size that starts
  with the old contents; on failure the old block is still there with its contents. Other
  blocks keep their place and contents in all cases.\<close>

theorem lua_alloc_contract:
  assumes "bget_documented bg blocks" and "blocks (hs_lua s) p = Some k" and "osize \<le> k"
    and "luat_heap_alloc bg p osize nsize s = (r, s')"
  shows "others_kept (blocks (hs_lua s)) p (hs_mem s) (blocks (hs_lua s')) (hs_mem s') \<and>
         (nsize = 0 \<longrightarrow> r = 0 \<and> blocks (hs_lua s') p = None) \<and>
         (nsize \<noteq> 0 \<longrightarrow> nsize \<le> osize \<longrightarrow> r \<noteq> 0) \<and>
         (nsize \<noteq> 0 \<longrightarrow> r \<noteq> 0 \<longrightarrow> (\<exists>k'\<ge>nsize. blocks (hs_lua s') r = Some k') \<and>
            mem_at r (min osize nsize) (hs_mem s') = mem_at p (min osize nsize) (hs_mem s)) \<and>
         (nsize \<noteq> 0 \<longrightarrow> r = 0 \<longrightarrow> blocks (hs_lua s') p = Some k \<and> mem_at p k (hs_mem s') = mem_at p k (hs_mem s))"
proof (cases "nsize = 0")
  case True
  obtain q m where e: "bg_rel bg p (hs_lua s, hs_mem s) = (q, m)" by force
  with rel_law [OF assms(1) e] assms(2,4) True show ?thesis by (auto simp: luat_heap_alloc_def)
next
  case False
  obtain t q m where e: "bg_getr bg p nsize (hs_lua s, hs_mem s) = (t, q, m)" by (metis prod_cases3)
  have s': "hs_lua s' = q" "hs_mem s' = m" and r: "r = (if t = 0 \<and> nsize \<le> osize then p else t)"
    using assms(4) False e by (auto simp: luat_heap_alloc_def Let_def split: if_splits)
  have "blocks (hs_lua s) 0 = None"
    using assms(1) [unfolded bget_documented_def, THEN conjunct1, rule_format, of "hs_lua s"] by (simp add: blocks_ok_def)
  then have p0: "p \<noteq> 0" using assms(2) by (cases "p = 0") simp_all
  have v: "p = 0 \<or> blocks (hs_lua s) p \<noteq> None" using assms(2) by simp
  note law = getr_law [OF assms(1) e v]
  show ?thesis
  proof (cases "t = 0")
    case True
    have kept: "blocks q = blocks (hs_lua s)" "mem_at p k m = mem_at p k (hs_mem s)" using law(2) [OF True] assms(2) by simp_all
    have "mem_at p (min osize nsize) m = mem_at p (min osize nsize) (hs_mem s)"
      by (rule mem_at_shorter [OF kept(2)]) (use assms(3) in simp)
    with True r kept assms(2,3) p0 False law(1) show ?thesis by (auto simp: s')
  next
    case nz: False
    have n: "\<exists>k'\<ge>nsize. blocks q t = Some k'" and c: "mem_at t (min k nsize) m = mem_at p (min k nsize) (hs_mem s)"
      using law(3) [OF nz] assms(2) by auto
    have "mem_at t (min osize nsize) m = mem_at p (min osize nsize) (hs_mem s)"
      by (rule mem_at_shorter [OF c]) (use assms(3) in simp)
    with nz r n False law(1) show ?thesis by (simp add: s')
  qed
qed

text \<open>A pool with room for one block of 8 bytes at address 16.\<close>

definition one_block :: "bool \<Rightarrow> addr \<rightharpoonup> nat" where
  "one_block q = (if q then [16 \<mapsto> 8] else Map.empty)"

definition one_bget :: "bool bget_api" where
  "one_bget = \<lparr>
     bg_getz = (\<lambda>n (q, m). if \<not> q \<and> n \<le> 8 then (16, True, fill_zero 16 8 m) else (0, q, m)),
     bg_getr = (\<lambda>p n (q, m). if (p = 16 \<and> q \<or> p = 0 \<and> \<not> q) \<and> n \<le> 8 then (16, True, m) else (0, q, m)),
     bg_rel = (\<lambda>p (q, m). (if p = 16 then False else q, m)),
     bg_stats = (\<lambda>q. if q then (8, 0, 0) else (0, 8, 8)),
     bg_maxget = (\<lambda>q. 8),
     bg_pool = (\<lambda>p n. False)\<rparr>"

lemma one_bget_documented: "bget_documented one_bget one_block"
proof -
  have "mem_at 16 n (fill_zero 16 8 m) = replicate n 0" if "n \<le> 8" for n m
    using that by (intro nth_equalityI) (auto simp: mem_at_def fill_zero_def)
  then show ?thesis
    by (auto simp: bget_documented_def one_bget_def one_block_def blocks_ok_def others_kept_def split: if_splits)
qed

theorem lua_alloc_contract_witness:
  "\<exists>r s'. luat_heap_alloc one_bget 16 8 4 \<lparr>hs_psram_ptr = 0, hs_sram_ptr = 0, hs_psram = False, hs_sram = False,
            hs_lua = True, hs_mem = (\<lambda>a. of_nat a)\<rparr> = (r, s') \<and> r \<noteq> 0 \<and> mem_at r 4 (hs_mem s') = [16, 17, 18, 19]"
proof -
  let ?s = "\<lparr>hs_psram_ptr = 0, hs_sram_ptr = 0, hs_psram = False, hs_sram = False, hs_lua = True, hs_mem = (\<lambda>a. of_nat a)\<rparr>"
  obtain r s' where e: "luat_heap_alloc one_bget 16 8 4 ?s = (r, s')" by force
  have "one_block (hs_lua ?s) 16 = Some 8" by (simp add: one_block_def)
  from lua_alloc_contract [OF one_bget_documented this _ e] have "r \<noteq> 0"
    and "mem_at r 4 (hs_mem s') = mem_at 16 4 (\<lambda>a. of_nat a)" by simp_all
  with e show ?thesis by (auto simp: mem_at_def upt_rec)
qed

section \<open>The system heap is protected from foreign pointers\<close>

text \<open>Releasing a pointer that is null or outside of the pool does nothing.\<close>

lemma heap_free_foreign:
  assumes "hs_sram_ptr s + 1024 * 1024 < 2 ^ 32" and "p < hs_sram_ptr s \<or> hs_sram_ptr s + 1024 * 1024 \<le> p"
  shows "luat_heap_free bg p s = s"
  using assms by (auto simp: luat_heap_free_def)

text \<open>The size of \<open>luat_heap_calloc\<close> is computed in 32 bits: a request of 4 GB is served by a block that need
  not have a single byte.\<close>

lemma heap_calloc_wraps: "luat_heap_calloc bg 65536 65536 s = luat_heap_zalloc bg 0 s"
proof -
  have "65536 * 65536 mod 2 ^ 32 = (0 :: nat)" by simp
  then show ?thesis by (simp only: luat_heap_calloc_def luat_heap_zalloc_def)
qed

end
