(* ===== verification/Uart_Pc.thy ===== *)
theory Uart_Pc
  imports Luadb2
begin

text \<open>
  Serial ports: the dispatcher \<open>port/driver/luat_uart_pc.c\<close>, the driver that carries the bytes in
  UDP datagrams (\<open>port/uart/uart_drv_udp.c\<close>) and the driver that refuses everything
  (\<open>port/uart/uart_drv_nop.c\<close>). Libuv delivers datagrams to the receive callback; the datagrams
  that are sent and the messages to the message bus are recorded. Whether an allocation
  succeeds is a parameter, and \<open>luat_heap_realloc\<close> is one as in the writer of luadb images.
\<close>

section \<open>State\<close>

record uart_drv_udp =
  ud_state :: bool
  ud_recv_buff :: "byte list option"
  ud_recv_len :: nat

record uart_world =
  uw_udps :: "nat \<Rightarrow> uart_drv_udp" \<comment> \<open>8 ports\<close>
  uw_sent :: "(nat \<times> byte list) list" \<comment> \<open>datagrams passed to libuv, with the destination port\<close>
  uw_msgs :: "(nat \<times> nat) list" \<comment> \<open>messages to the handler of the Lua library\<close>

record uart_env =
  ue_malloc :: "nat \<Rightarrow> bool"
  ue_realloc :: "byte list \<Rightarrow> nat \<Rightarrow> byte list option"
  ue_req :: nat \<comment> \<open>\<open>sizeof(uv_udp_send_t)\<close>\<close>

definition uart_idle :: uart_drv_udp where
  "uart_idle = \<lparr>ud_state = False, ud_recv_buff = None, ud_recv_len = 0\<rparr>"

definition uart_start :: uart_world where
  "uart_start = \<lparr>uw_udps = (\<lambda>_. uart_idle), uw_sent = [], uw_msgs = []\<rparr>"

definition port_upd :: "nat \<Rightarrow> uart_drv_udp \<Rightarrow> uart_world \<Rightarrow> uart_world" where
  "port_upd i u w = w\<lparr>uw_udps := (uw_udps w)(i := u)\<rparr>"

section \<open>The UDP driver\<close>

definition post_uart :: "nat \<Rightarrow> nat \<Rightarrow> uart_world \<Rightarrow> uart_world" where
  "post_uart i n w = w\<lparr>uw_msgs := uw_msgs w @ [(i, n)]\<rparr>"

text \<open>\<open>nread\<close> is the size that libuv reports, \<open>x\<close> the bytes of the datagram.\<close>

definition uart_udp_recv_cb :: "uart_env \<Rightarrow> nat \<Rightarrow> int \<Rightarrow> byte list \<Rightarrow> uart_world \<Rightarrow> uart_world option" where
  "uart_udp_recv_cb env i nread x w =
     (if nread \<le> 0 then Some w
      else let u = uw_udps w i; n = nat nread; newsize = (ud_recv_len u + n) mod 2 ^ 32 in
        (case ud_recv_buff u of
           None \<Rightarrow>
             if ue_malloc env n
             then do { b \<leftarrow> peek 0 n x;
                       Some (post_uart i n (port_upd i (u\<lparr>ud_recv_buff := Some b, ud_recv_len := n\<rparr>) w)) }
             else None
         | Some old \<Rightarrow>
             (case ue_realloc env old newsize of None \<Rightarrow> Some w
              | Some b \<Rightarrow> do { d \<leftarrow> peek 0 n x;
                               b \<leftarrow> poke (ud_recv_len u) d b;
                               Some (post_uart i n (port_upd i (u\<lparr>ud_recv_buff := Some b\<rparr>) w)) })))"

definition uart_setup_udp :: "int \<Rightarrow> uart_world \<Rightarrow> int \<times> uart_world" where
  "uart_setup_udp i w =
     (if i < 0 \<or> i \<ge> 8 then (-1, w)
      else let u = uw_udps w (nat i) in
        if ud_state u then (0, w) else (0, port_upd (nat i) (u\<lparr>ud_state := True\<rparr>) w))"

definition uart_on_sent_udp :: "nat \<Rightarrow> int \<Rightarrow> uart_world \<Rightarrow> uart_world" where
  "uart_on_sent_udp i status w = (if status < 0 then w else post_uart i 0 w)"

text \<open>The loop of a write: the pointer into the data stays where it is.\<close>

function write_loop :: "uart_env \<Rightarrow> nat \<Rightarrow> byte list \<Rightarrow> nat \<Rightarrow> uart_world \<Rightarrow> (nat \<times> uart_world) option" where
  "write_loop env i d len w =
     (if len = 0 then Some (0, w)
      else let k = (if len > 512 then 512 else len) in
        do { b \<leftarrow> peek 0 k d;
             if ue_malloc env (ue_req env)
             then write_loop env i d (len - k) (w\<lparr>uw_sent := uw_sent w @ [(19000 + i, b)]\<rparr>)
             else None })"
  by pat_completeness auto
termination by (relation "measure (\<lambda>(env, i, d, len, w). len)") (auto split: if_splits)

declare write_loop.simps [simp del]

definition uart_write_udp :: "uart_env \<Rightarrow> int \<Rightarrow> byte list \<Rightarrow> nat \<Rightarrow> uart_world \<Rightarrow> (int \<times> uart_world) option" where
  "uart_write_udp env i d len w =
     (if i < 0 \<or> i \<ge> 8 then Some (0, w)
      else if \<not> ud_state (uw_udps w (nat i)) then Some (0, w)
      else do { (len, w) \<leftarrow> write_loop env (nat i) d len w; Some (int len, w) })"

definition uart_read_udp ::
    "uart_env \<Rightarrow> int \<Rightarrow> byte list \<Rightarrow> nat \<Rightarrow> uart_world \<Rightarrow> (int \<times> byte list \<times> uart_world) option" where
  "uart_read_udp env i buffer len w =
     (if i < 0 \<or> i \<ge> 8 then Some (0, buffer, w)
      else let u = uw_udps w (nat i) in
        if \<not> ud_state u then Some (0, buffer, w)
        else if ud_recv_len u = 0 then Some (0, buffer, w)
        else do {
          let len = (if len > ud_recv_len u then ud_recv_len u else len);
          b \<leftarrow> ud_recv_buff u;
          x \<leftarrow> peek 0 len b;
          buffer \<leftarrow> poke 0 x buffer;
          if ud_recv_len u > len
          then do {
            let newsize = ud_recv_len u - len;
            y \<leftarrow> peek (ud_recv_len u) newsize b;
            b \<leftarrow> poke 0 y b;
            Some (int len, buffer, port_upd (nat i) (u\<lparr>ud_recv_buff := ue_realloc env b newsize, ud_recv_len := newsize\<rparr>) w) }
          else Some (int len, buffer, port_upd (nat i) (u\<lparr>ud_recv_buff := None, ud_recv_len := 0\<rparr>) w) })"

definition uart_close_udp :: "int \<Rightarrow> uart_world \<Rightarrow> int \<times> uart_world" where
  "uart_close_udp i w = (if i < 0 \<or> i \<ge> 8 then (0, w) else if \<not> ud_state (uw_udps w (nat i)) then (0, w) else (0, w))"

section \<open>The driver that refuses, and the dispatcher\<close>

record uart_drv_opts =
  uo_setup :: "int \<Rightarrow> uart_world \<Rightarrow> int \<times> uart_world"
  uo_write :: "int \<Rightarrow> byte list \<Rightarrow> nat \<Rightarrow> uart_world \<Rightarrow> (int \<times> uart_world) option"
  uo_read :: "int \<Rightarrow> byte list \<Rightarrow> nat \<Rightarrow> uart_world \<Rightarrow> (int \<times> byte list \<times> uart_world) option"
  uo_close :: "int \<Rightarrow> uart_world \<Rightarrow> int \<times> uart_world"

definition uart_udp :: "uart_env \<Rightarrow> uart_drv_opts" where
  "uart_udp env = \<lparr>uo_setup = uart_setup_udp, uo_write = uart_write_udp env, uo_read = uart_read_udp env, uo_close = uart_close_udp\<rparr>"

definition uart_nop :: uart_drv_opts where
  "uart_nop = \<lparr>uo_setup = (\<lambda>i w. (-1, w)), uo_write = (\<lambda>i d n w. Some (-1, w)),
     uo_read = (\<lambda>i b n w. Some (-1, b, w)), uo_close = (\<lambda>i w. (-1, w))\<rparr>"

type_synonym uart_table = "nat \<Rightarrow> uart_drv_opts option" \<comment> \<open>128 entries\<close>

definition luat_uart_exist :: "uart_table \<Rightarrow> int \<Rightarrow> bool" where
  "luat_uart_exist drvs i = (if i < 0 \<or> i \<ge> 128 then False else drvs (nat i) \<noteq> None)"

definition luat_uart_setup :: "uart_table \<Rightarrow> int \<Rightarrow> uart_world \<Rightarrow> int \<times> uart_world" where
  "luat_uart_setup drvs i w = (if \<not> luat_uart_exist drvs i then (-1, w) else uo_setup (the (drvs (nat i))) i w)"

definition luat_uart_write :: "uart_table \<Rightarrow> int \<Rightarrow> byte list \<Rightarrow> nat \<Rightarrow> uart_world \<Rightarrow> (int \<times> uart_world) option" where
  "luat_uart_write drvs i d n w = (if \<not> luat_uart_exist drvs i then Some (-1, w) else uo_write (the (drvs (nat i))) i d n w)"

definition luat_uart_read ::
    "uart_table \<Rightarrow> int \<Rightarrow> byte list \<Rightarrow> nat \<Rightarrow> uart_world \<Rightarrow> (int \<times> byte list \<times> uart_world) option" where
  "luat_uart_read drvs i b n w = (if \<not> luat_uart_exist drvs i then Some (-1, b, w) else uo_read (the (drvs (nat i))) i b n w)"

definition luat_uart_close :: "uart_table \<Rightarrow> int \<Rightarrow> uart_world \<Rightarrow> int \<times> uart_world" where
  "luat_uart_close drvs i w = (if \<not> luat_uart_exist drvs i then (0, w) else uo_close (the (drvs (nat i))) i w)"

section \<open>Ports do not disturb each other\<close>

datatype uart_op = USetup int | UWrite int "byte list" nat | URead int "byte list" nat | UClose int

fun uart_exec :: "uart_drv_opts \<Rightarrow> uart_op \<Rightarrow> uart_world \<Rightarrow> uart_world option" where
  "uart_exec drv (USetup i) w = Some (snd (uo_setup drv i w))"
| "uart_exec drv (UWrite i d n) w = map_option snd (uo_write drv i d n w)"
| "uart_exec drv (URead i b n) w = map_option (snd \<circ> snd) (uo_read drv i b n w)"
| "uart_exec drv (UClose i) w = Some (snd (uo_close drv i w))"

fun uart_port :: "uart_op \<Rightarrow> int" where
  "uart_port (USetup i) = i" | "uart_port (UWrite i d n) = i" | "uart_port (URead i b n) = i" | "uart_port (UClose i) = i"

fun uart_run :: "uart_drv_opts \<Rightarrow> uart_op list \<Rightarrow> uart_world \<Rightarrow> uart_world option" where
  "uart_run drv [] w = Some w"
| "uart_run drv (p # ps) w = do { w \<leftarrow> uart_exec drv p w; uart_run drv ps w }"

locale uart_driver =
  fixes drv :: uart_drv_opts
  assumes exec_local: "uart_exec drv p w = Some w' \<Longrightarrow> uart_port p \<noteq> int j \<Longrightarrow> uw_udps w' j = uw_udps w j"
begin

lemma run_local:
  "uart_run drv ps w = Some w' \<Longrightarrow> int j \<notin> uart_port ` set ps \<Longrightarrow> uw_udps w' j = uw_udps w j"
proof (induction ps arbitrary: w)
  case (Cons p ps)
  then obtain w1 where "uart_exec drv p w = Some w1" and "uart_run drv ps w1 = Some w'" by (auto simp: bind_eq_Some_conv)
  with Cons.IH [of w1] Cons.prems(2) exec_local [of p w w1 j] show ?case by auto
qed simp

end

lemma write_loop_0 [simp]: "write_loop env i d 0 w = Some (0, w)"
  by (simp add: write_loop.simps)

lemma write_loop_ports: "write_loop env i d len w = Some (n, w') \<Longrightarrow> uw_udps w' = uw_udps w"
proof (induction env i d len w arbitrary: n w' rule: write_loop.induct)
  case (1 env i d len w)
  show ?case
  proof (cases "len = 0")
    case True
    with 1(2) show ?thesis by simp
  next
    case False
    let ?k = "if len > 512 then 512 else len"
    from 1(2) False obtain b where b: "peek 0 ?k d = Some b" and m: "ue_malloc env (ue_req env)"
      and l: "write_loop env i d (len - ?k) (w\<lparr>uw_sent := uw_sent w @ [(19000 + i, b)]\<rparr>) = Some (n, w')"
      unfolding write_loop.simps [of env i d len w] by (auto simp: Let_def bind_eq_Some_conv split: if_splits)
    from 1(1) [OF False refl b m l] show ?thesis by simp
  qed
qed

interpretation udp_drv: uart_driver "uart_udp env" for env
proof unfold_locales
  fix p w w' j
  assume e: "uart_exec (uart_udp env) p w = Some w'" and p: "uart_port p \<noteq> int j"
  have j: "nat i \<noteq> j" if "i \<noteq> int j" "\<not> i < 0" for i using that by auto
  show "uw_udps w' j = uw_udps w j"
  proof (cases p)
    case (USetup i)
    with e p j [of i] show ?thesis by (auto simp: uart_udp_def uart_setup_udp_def port_upd_def Let_def split: if_splits)
  next
    case (UWrite i d n)
    with e show ?thesis by (auto simp: uart_udp_def uart_write_udp_def bind_eq_Some_conv dest: write_loop_ports split: if_splits)
  next
    case (URead i b n)
    with e p j [of i] show ?thesis
      by (auto simp: uart_udp_def uart_read_udp_def port_upd_def Let_def bind_eq_Some_conv split: if_splits)
  next
    case (UClose i)
    with e show ?thesis by (auto simp: uart_udp_def uart_close_udp_def split: if_splits)
  qed
qed

interpretation nop_drv: uart_driver uart_nop
proof unfold_locales
  fix p w w' j
  assume "uart_exec uart_nop p w = Some w'"
  then show "uw_udps w' j = uw_udps w j" by (cases p) (auto simp: uart_nop_def)
qed

section \<open>Receiving\<close>

definition uart_env_fine :: "uart_env \<Rightarrow> bool" where
  "uart_env_fine env \<longleftrightarrow> (\<forall>n. ue_malloc env n) \<and> realloc_lawful (ue_realloc env) \<and> (\<forall>b n. ue_realloc env b n \<noteq> None)"

fun recv_all :: "uart_env \<Rightarrow> nat \<Rightarrow> byte list list \<Rightarrow> uart_world \<Rightarrow> uart_world option" where
  "recv_all env i [] w = Some w"
| "recv_all env i (x # xs) w = do { w \<leftarrow> uart_udp_recv_cb env i (int (length x)) x w; recv_all env i xs w }"

text \<open>After the first datagram the recorded length stays the length of that datagram.\<close>

definition holds_first :: "nat \<Rightarrow> byte list \<Rightarrow> uart_world \<Rightarrow> bool" where
  "holds_first i x w \<longleftrightarrow> ud_state (uw_udps w i) \<and> ud_recv_len (uw_udps w i) = length x \<and>
     (\<exists>b. ud_recv_buff (uw_udps w i) = Some b \<and> length x \<le> length b \<and> take (length x) b = x)"

lemma recv_keeps_first:
  assumes "uart_env_fine env" and "holds_first i x w" and "length x + length y < 2 ^ 32"
  shows "\<exists>w'. uart_udp_recv_cb env i (int (length y)) y w = Some w' \<and> holds_first i x w'"
proof (cases "y = []")
  case True
  with assms(2) show ?thesis by (simp add: uart_udp_recv_cb_def)
next
  case False
  let ?n = "length x + length y"
  obtain b where b: "ud_recv_buff (uw_udps w i) = Some b" "length x \<le> length b" "take (length x) b = x"
    using assms(2) by (auto simp: holds_first_def)
  obtain c where c: "ue_realloc env b ?n = Some c"
    using assms(1) unfolding uart_env_fine_def by (meson not_None_eq)
  then have lc: "length c = ?n" and tc: "take (min (length b) ?n) c = take (min (length b) ?n) b"
    using assms(1) by (auto simp: uart_env_fine_def realloc_lawful_def)
  have "take (length x) (take (min (length b) ?n) c) = take (length x) (take (min (length b) ?n) b)" using tc by simp
  then have x: "take (length x) c = x" using b(2,3) by simp
  have p: "poke (length x) y c = Some (x @ y)" using lc x by (simp add: poke_def)
  show ?thesis
    using assms(2,3) b(1) c p False
    by (simp add: uart_udp_recv_cb_def holds_first_def peek_def post_uart_def port_upd_def Let_def)
qed

lemma recv_all_keeps_first:
  assumes "uart_env_fine env" and "holds_first i x w" and "\<forall>y \<in> set ys. length x + length y < 2 ^ 32"
  shows "\<exists>w'. recv_all env i ys w = Some w' \<and> holds_first i x w'"
  using assms(2,3)
proof (induction ys arbitrary: w)
  case (Cons y ys)
  from recv_keeps_first [OF assms(1) Cons.prems(1), of y] Cons.prems(2) obtain w1 where
      "uart_udp_recv_cb env i (int (length y)) y w = Some w1" "holds_first i x w1" by auto
  with Cons.IH [of w1] Cons.prems(2) show ?case by auto
qed simp

lemma recv_first:
  assumes "uart_env_fine env" and "ud_state (uw_udps w i)" and "ud_recv_buff (uw_udps w i) = None" and "x \<noteq> []"
  shows "\<exists>w'. uart_udp_recv_cb env i (int (length x)) x w = Some w' \<and> holds_first i x w'"
  using assms by (simp add: uart_udp_recv_cb_def uart_env_fine_def peek_def holds_first_def post_uart_def port_upd_def Let_def)

text \<open>Only the first of several datagrams is delivered. When a datagram and then any others arrive at an
  open port whose receive buffer is empty, with enough memory, the callback runs without
  error for each; a read into a buffer that is large enough returns exactly the first
  datagram, and afterwards the port has no data left: the bytes of the others are lost.\<close>

theorem uart_first_datagram_only:
  assumes "uart_env_fine env" and "i < 8" and "ud_state (uw_udps w i)" and "ud_recv_buff (uw_udps w i) = None"
    and "x \<noteq> []" and "\<forall>y \<in> set ys. length x + length y < 2 ^ 32" and "length x \<le> n" and "length x \<le> length buffer"
  shows "\<exists>w1 w2. recv_all env i (x # ys) w = Some w1 \<and>
           uart_read_udp env (int i) buffer n w1 = Some (int (length x), x @ drop (length x) buffer, w2) \<and>
           uart_read_udp env (int i) buffer n w2 = Some (0, buffer, w2)"
proof -
  obtain w0 where w0: "uart_udp_recv_cb env i (int (length x)) x w = Some w0" and h0: "holds_first i x w0"
    using recv_first [OF assms(1,3,4,5)] by blast
  obtain w1 where w1: "recv_all env i ys w0 = Some w1" and h: "holds_first i x w1"
    using recv_all_keeps_first [OF assms(1) h0 assms(6)] by blast
  let ?u = "uw_udps w1 i"
  obtain b where b: "ud_recv_buff ?u = Some b" "length x \<le> length b" "take (length x) b = x"
    and u: "ud_state ?u" "ud_recv_len ?u = length x"
    using h by (auto simp: holds_first_def)
  define w2 where "w2 = port_upd i (?u\<lparr>ud_recv_buff := None, ud_recv_len := 0\<rparr>) w1"
  have "uart_read_udp env (int i) buffer n w1 = Some (int (length x), x @ drop (length x) buffer, w2)"
    using assms(2,5,7,8) b u by (auto simp: uart_read_udp_def Let_def peek_def poke_def w2_def)
  moreover have "uart_read_udp env (int i) buffer n w2 = Some (0, buffer, w2)"
    using assms(2) u by (simp add: uart_read_udp_def Let_def w2_def port_upd_def)
  ultimately show ?thesis using w0 w1 by auto
qed

definition demo_uart_env :: uart_env where
  "demo_uart_env = \<lparr>ue_malloc = (\<lambda>_. True), ue_realloc = realloc_zero, ue_req = 100\<rparr>"

lemma demo_uart_env_fine: "uart_env_fine demo_uart_env"
  using realloc_zero_lawful by (simp add: uart_env_fine_def demo_uart_env_def realloc_zero_def)

theorem uart_first_datagram_only_witness:
  "\<exists>w1 w2. recv_all demo_uart_env 1 [[7, 8], [9]] (snd (uart_setup_udp 1 uart_start)) = Some w1 \<and>
     uart_read_udp demo_uart_env 1 [0, 0, 0] 3 w1 = Some (2, [7, 8, 0], w2) \<and>
     uart_read_udp demo_uart_env 1 [0, 0, 0] 3 w2 = Some (0, [0, 0, 0], w2)"
  using uart_first_datagram_only [OF demo_uart_env_fine, of 1 "snd (uart_setup_udp 1 uart_start)" "[7, 8]" "[[9]]" 3 "[0, 0, 0]"]
  by (simp add: uart_setup_udp_def uart_start_def uart_idle_def port_upd_def)

text \<open>A read of a part of the buffered bytes moves bytes from behind the end of the buffer.\<close>

lemma uart_partial_read_undefined:
  assumes "ud_state (uw_udps w i)" and "i < 8" and "ud_recv_buff (uw_udps w i) = Some b"
    and "ud_recv_len (uw_udps w i) = length b" and "n < length b" and "n \<le> length buffer"
  shows "uart_read_udp env (int i) buffer n w = None"
  using assms by (auto simp: uart_read_udp_def Let_def peek_def poke_def)

section \<open>Sending\<close>

lemma write_loop_sends:
  assumes "ue_malloc env (ue_req env)" and "0 < len" and "len \<le> length d"
  shows "write_loop env i d len w =
         Some (0, w\<lparr>uw_sent := uw_sent w @ replicate ((len - 1) div 512) (19000 + i, take 512 d) @
                    [(19000 + i, take ((len - 1) mod 512 + 1) d)]\<rparr>)"
  using assms
proof (induction env i d len w rule: write_loop.induct)
  case (1 env i d len w)
  show ?case
  proof (cases "len > 512")
    case False
    with 1(2-4) show ?thesis
      by (simp add: write_loop.simps [of env i d len w] write_loop.simps [of env i d 0] peek_def Let_def)
  next
    case True
    let ?w = "w\<lparr>uw_sent := uw_sent w @ [(19000 + i, take 512 d)]\<rparr>"
    have p: "peek 0 512 d = Some (take 512 d)" using True 1(4) by (simp add: peek_def)
    have q: "(len - 1) div 512 = Suc ((len - 512 - 1) div 512)" "(len - 1) mod 512 = (len - 512 - 1) mod 512"
      using True by (simp_all add: le_div_geq le_mod_geq)
    have "write_loop env i d (len - 512) ?w =
        Some (0, ?w\<lparr>uw_sent := uw_sent ?w @ replicate ((len - 512 - 1) div 512) (19000 + i, take 512 d) @
                    [(19000 + i, take ((len - 512 - 1) mod 512 + 1) d)]\<rparr>)"
      using 1(1) [of 512 "take 512 d"] True p 1(2-4) by simp
    moreover have "write_loop env i d len w = write_loop env i d (len - 512) ?w"
      using True p 1(2) by (simp add: write_loop.simps [of env i d len w] Let_def)
    ultimately show ?thesis unfolding q by simp
  qed
qed

text \<open>A write sends the beginning of the data again and again. On an open port, with memory for the
  requests, \<open>uart_write_udp\<close> returns 0 whatever the length, and passes one datagram per 512 bytes
  or part of them to libuv; all datagrams start at the first byte of the data. Data of up to
  512 bytes is thus sent once and in full, and longer data is not sent beyond its first 512
  bytes.\<close>

theorem uart_write_repeats:
  assumes "i < 8" and "ud_state (uw_udps w i)" and "ue_malloc env (ue_req env)" and "0 < n" and "n \<le> length d"
  shows "uart_write_udp env (int i) d n w =
         Some (0, w\<lparr>uw_sent := uw_sent w @ replicate ((n - 1) div 512) (19000 + i, take 512 d) @
                    [(19000 + i, take ((n - 1) mod 512 + 1) d)]\<rparr>)"
  using assms write_loop_sends [OF assms(3-5), of i w] by (simp add: uart_write_udp_def)

theorem uart_write_repeats_witness:
  "uart_write_udp demo_uart_env 0 ([1, 2] @ replicate 513 0) 515 (snd (uart_setup_udp 0 uart_start)) =
     Some (0, (snd (uart_setup_udp 0 uart_start))\<lparr>uw_sent := [(19000, [1, 2] @ replicate 510 0), (19000, [1, 2, 0])]\<rparr>)"
proof -
  let ?w = "snd (uart_setup_udp 0 uart_start)" and ?d = "[1, 2] @ replicate 513 0 :: byte list"
  have w: "ud_state (uw_udps ?w 0)" "uw_sent ?w = []" by (simp_all add: uart_setup_udp_def uart_start_def uart_idle_def port_upd_def)
  have "take 512 ?d = [1, 2] @ replicate 510 0" and "take 3 ?d = [1, 2, 0]" by simp_all
  with uart_write_repeats [of 0 ?w demo_uart_env 515 ?d] w show ?thesis
    by (simp add: demo_uart_env_def del: take_Cons_numeral)
qed

end
