(* ===== verification/Gpio_Pc.thy ===== *)
theory Gpio_Pc
  imports Luatos_Prelude
begin

text \<open>
  GPIO pins (\<open>port/driver/luat_gpio_pc.c\<close>) with the drivers \<open>port/gpio/gpio_drv_nop.c\<close> and
  \<open>port/gpio/gpio_drv_udp.c\<close>, and the trace records that every GPIO call makes (\<open>port/luat_ztt.c\<close>).
  A record is a chain of key-value items that is reached only through its head, and is
  modelled by the list of its items. The heap is modelled by the number of blocks in use;
  the answer to the \<open>n\<close>-th request is a parameter, and so is the formatting of numbers. The
  parts for the CH347 adapter exist in the Windows build only and are left out here.
\<close>

section \<open>Trace records\<close>

record ztt_heap =
  zh_tick :: nat \<comment> \<open>requests so far\<close>
  zh_live :: nat \<comment> \<open>blocks in use\<close>

type_synonym ztt_items = "(string \<times> string) list" \<comment> \<open>the empty list is the null pointer\<close>

definition zalloc :: "(nat \<Rightarrow> bool) \<Rightarrow> ztt_heap \<Rightarrow> bool \<times> ztt_heap" where
  "zalloc al h = (al (zh_tick h), h\<lparr>zh_tick := zh_tick h + 1, zh_live := zh_live h + (if al (zh_tick h) then 1 else 0)\<rparr>)"

definition zfree :: "nat \<Rightarrow> ztt_heap \<Rightarrow> ztt_heap" where
  "zfree n h = h\<lparr>zh_live := zh_live h - n\<rparr>"

definition ztt_add :: "(nat \<Rightarrow> bool) \<Rightarrow> ztt_items \<Rightarrow> string \<Rightarrow> string \<Rightarrow> ztt_heap \<Rightarrow> ztt_items \<times> ztt_heap" where
  "ztt_add al items key value h =
     (let (node, h) = zalloc al h in
      if \<not> node then (items, h)
      else (let (k, h) = zalloc al h; (v, h) = zalloc al h in
            if \<not> v \<or> \<not> k then
              (items, zfree 1 (zfree (if k then 1 else 0) (zfree (if v then 1 else 0) h)))
            else (items @ [(key, value)], h)))"

definition ztt_create :: "(nat \<Rightarrow> bool) \<Rightarrow> string \<Rightarrow> ztt_heap \<Rightarrow> ztt_items \<times> ztt_heap" where
  "ztt_create al ty h = ztt_add al [] ''type'' ty h"

text \<open>\<open>text\<close> is what the formatting function stores, at most 4094 characters.\<close>

definition ztt_addf :: "(nat \<Rightarrow> bool) \<Rightarrow> ztt_items \<Rightarrow> string \<Rightarrow> string \<Rightarrow> ztt_heap \<Rightarrow> ztt_items \<times> ztt_heap" where
  "ztt_addf al items key txt h =
     (let (buff, h) = zalloc al h in
      if \<not> buff then ([], h)
      else if txt = [] then ([], zfree 1 h)
      else (let (r, h) = ztt_add al items key txt h in (r, zfree 1 h)))"

text \<open>The loop of a commit: \<open>luat_heap_realloc\<close> replaces the buffer or keeps it on failure.\<close>

fun commit_loop :: "(nat \<Rightarrow> bool) \<Rightarrow> ztt_items \<Rightarrow> string \<Rightarrow> ztt_heap \<Rightarrow> int \<times> string \<times> ztt_heap" where
  "commit_loop al [] buff h = (0, buff @ ''0'', h)"
| "commit_loop al ((k, v) # items) buff h =
     (let ok = al (zh_tick h); h = h\<lparr>zh_tick := zh_tick h + 1\<rparr> in
      if \<not> ok then (-3, buff, h)
      else commit_loop al items (buff @ v @ '','') (zfree 3 h))"

definition ztt_commit :: "(nat \<Rightarrow> bool) \<Rightarrow> ztt_items \<Rightarrow> ztt_heap \<Rightarrow> int \<times> string \<times> ztt_heap" where
  "ztt_commit al items h =
     (if items = [] then (-1, [], h)
      else (let (buff, h) = zalloc al h in
            if \<not> buff then (-2, [], h) else commit_loop al items [] h))"

section \<open>Pins\<close>

datatype gpio_mode = GPIO_OUTPUT | GPIO_INPUT | GPIO_IRQ | GPIO_MODE nat

record luat_gpio =
  gp_pin :: int
  gp_mode :: gpio_mode
  gp_pull :: int
  gp_irq :: int

text \<open>A driver: its answers to the four operations.\<close>

record gpio_drv_opts =
  go_setup :: "luat_gpio \<Rightarrow> int"
  go_write :: "int \<Rightarrow> int \<Rightarrow> int"
  go_read :: "int \<Rightarrow> int"
  go_close :: "int \<Rightarrow> int"

definition gpio_nop :: gpio_drv_opts where
  "gpio_nop = \<lparr>go_setup = (\<lambda>_. 0), go_write = (\<lambda>_ _. 0), go_read = (\<lambda>_. 0), go_close = (\<lambda>_. 0)\<rparr>"

definition gpio_udp :: gpio_drv_opts where
  "gpio_udp = \<lparr>go_setup = (\<lambda>_. 0), go_write = (\<lambda>_ _. 0), go_read = (\<lambda>_. 0), go_close = (\<lambda>_. 0)\<rparr>"

record gpio_state =
  gs_drvs :: "nat \<Rightarrow> gpio_drv_opts option" \<comment> \<open>128 entries\<close>
  gs_confs :: "nat \<Rightarrow> luat_gpio"
  gs_levels :: "nat \<Rightarrow> nat"
  gs_heap :: ztt_heap

definition zero_gpio :: luat_gpio where
  "zero_gpio = \<lparr>gp_pin = 0, gp_mode = GPIO_OUTPUT, gp_pull = 0, gp_irq = 0\<rparr>"

definition gpio_start :: "(nat \<Rightarrow> gpio_drv_opts option) \<Rightarrow> ztt_heap \<Rightarrow> gpio_state" where
  "gpio_start drvs h = \<lparr>gs_drvs = drvs, gs_confs = (\<lambda>_. zero_gpio), gs_levels = (\<lambda>_. 0), gs_heap = h\<rparr>"

record gpio_env =
  ge_al :: "nat \<Rightarrow> bool"
  ge_fmt :: "int \<Rightarrow> string" \<comment> \<open>\<open>"%d"\<close>\<close>

fun mode_num :: "gpio_mode \<Rightarrow> int" where
  "mode_num GPIO_OUTPUT = 0" | "mode_num GPIO_INPUT = 1" | "mode_num GPIO_IRQ = 2" | "mode_num (GPIO_MODE n) = int n"

text \<open>The trace of a call: the results of the additions are not used, so that items that are added when
  the first one could not be made are lost.\<close>

fun trace_adds :: "gpio_env \<Rightarrow> ztt_items \<Rightarrow> (string \<times> int) list \<Rightarrow> ztt_heap \<Rightarrow> ztt_items \<times> ztt_heap" where
  "trace_adds env items [] h = (items, h)"
| "trace_adds env items ((k, n) # xs) h =
     (let (r, h) = ztt_addf (ge_al env) items k (ge_fmt env n) h in
      trace_adds env (if items = [] then [] else if r = [] then items else r) xs h)"

definition gpio_trace :: "gpio_env \<Rightarrow> string \<Rightarrow> (string \<times> int) list \<Rightarrow> gpio_state \<Rightarrow> gpio_state" where
  "gpio_trace env action xs s =
     (let (z, h) = ztt_create (ge_al env) ''gpio'' (gs_heap s);
          (r, h) = ztt_add (ge_al env) z ''action'' action h;
          (z, h) = trace_adds env (if z = [] then [] else r) xs h;
          (_, _, h) = ztt_commit (ge_al env) z h
      in s\<lparr>gs_heap := h\<rparr>)"

definition luat_gpio_setup :: "gpio_env \<Rightarrow> luat_gpio \<Rightarrow> gpio_state \<Rightarrow> (int \<times> gpio_state) option" where
  "luat_gpio_setup env g s =
     (if gp_pin g \<ge> 128 then Some (-1, s)
      else if gp_pin g < 0 then None
      else let p = nat (gp_pin g);
               s = s\<lparr>gs_confs := (gs_confs s)(p := g)\<rparr>;
               s = gpio_trace env ''setup'' [(''pin'', gp_pin g), (''mode'', mode_num (gp_mode g)), (''pull'', gp_pull g), (''irq'', gp_irq g)] s
           in (case gs_drvs s p of Some d \<Rightarrow> Some (go_setup d g, s) | None \<Rightarrow> Some (0, s)))"

definition luat_gpio_set :: "gpio_env \<Rightarrow> int \<Rightarrow> int \<Rightarrow> gpio_state \<Rightarrow> int \<times> gpio_state" where
  "luat_gpio_set env pin level s =
     (if pin < 0 \<or> pin \<ge> 128 then (-1, s)
      else let s = s\<lparr>gs_levels := (gs_levels s)(nat pin := if level = 0 then 0 else 1)\<rparr>;
               s = gpio_trace env ''set'' [(''pin'', pin), (''level'', level)] s
           in (case gs_drvs s (nat pin) of Some d \<Rightarrow> (go_write d pin level, s) | None \<Rightarrow> (0, s)))"

definition luat_gpio_get :: "gpio_env \<Rightarrow> int \<Rightarrow> gpio_state \<Rightarrow> int \<times> gpio_state" where
  "luat_gpio_get env pin s =
     (if pin < 0 \<or> pin \<ge> 128 then (-1, s)
      else let s = gpio_trace env ''get'' [(''pin'', pin)] s in
        (case gs_drvs s (nat pin) of Some d \<Rightarrow> (go_read d pin, s)
         | None \<Rightarrow>
             if gp_mode (gs_confs s (nat pin)) = GPIO_INPUT \<or> gp_mode (gs_confs s (nat pin)) = GPIO_IRQ
             then (int (gs_levels s (nat pin)), s) else (0, s)))"

definition luat_gpio_close :: "gpio_env \<Rightarrow> int \<Rightarrow> gpio_state \<Rightarrow> gpio_state" where
  "luat_gpio_close env pin s =
     (if pin < 0 \<or> pin \<ge> 128 then s
      else let s = gpio_trace env ''close'' [(''pin'', pin)] s in
        s\<lparr>gs_confs := (gs_confs s)(nat pin := zero_gpio\<lparr>gp_mode := GPIO_INPUT\<rparr>)\<rparr>)"

section \<open>Sequences of calls\<close>

datatype gpio_op = GSetup luat_gpio | GSet int int | GGet int | GClose int

fun op_pin :: "gpio_op \<Rightarrow> int" where
  "op_pin (GSetup g) = gp_pin g" | "op_pin (GSet p v) = p" | "op_pin (GGet p) = p" | "op_pin (GClose p) = p"

fun gpio_exec :: "gpio_env \<Rightarrow> gpio_op \<Rightarrow> gpio_state \<Rightarrow> gpio_state option" where
  "gpio_exec env (GSetup g) s = map_option snd (luat_gpio_setup env g s)"
| "gpio_exec env (GSet p v) s = Some (snd (luat_gpio_set env p v s))"
| "gpio_exec env (GGet p) s = Some (snd (luat_gpio_get env p s))"
| "gpio_exec env (GClose p) s = Some (luat_gpio_close env p s)"

fun gpio_run :: "gpio_env \<Rightarrow> gpio_op list \<Rightarrow> gpio_state \<Rightarrow> gpio_state option" where
  "gpio_run env [] s = Some s"
| "gpio_run env (p # ps) s = do { s \<leftarrow> gpio_exec env p s; gpio_run env ps s }"

lemma gpio_trace_keeps [simp]:
  "gs_drvs (gpio_trace env a xs s) = gs_drvs s" "gs_confs (gpio_trace env a xs s) = gs_confs s"
  "gs_levels (gpio_trace env a xs s) = gs_levels s"
  by (simp_all add: gpio_trace_def Let_def split: prod.split)

text \<open>What a call on another pin leaves alone.\<close>

definition same_pin :: "nat \<Rightarrow> gpio_state \<Rightarrow> gpio_state \<Rightarrow> bool" where
  "same_pin p s s' \<longleftrightarrow> gs_drvs s' = gs_drvs s \<and> gs_confs s' p = gs_confs s p \<and> gs_levels s' p = gs_levels s p"

lemma exec_other_pin:
  assumes "gpio_exec env x s = Some s'" and "op_pin x \<noteq> int p"
  shows "same_pin p s s'"
proof -
  have p: "p \<noteq> nat q" if "q \<noteq> int p" "\<not> q < 0" for q using that by auto
  show ?thesis
  proof (cases x)
    case (GSetup g)
    with assms p [of "gp_pin g"] show ?thesis
      by (auto simp: same_pin_def luat_gpio_setup_def Let_def split: if_splits option.splits)
  next
    case (GSet q v)
    with assms p [of q] show ?thesis
      by (auto simp: same_pin_def luat_gpio_set_def Let_def split: if_splits option.splits)
  next
    case (GGet q)
    with assms show ?thesis by (auto simp: same_pin_def luat_gpio_get_def Let_def split: if_splits option.splits)
  next
    case (GClose q)
    with assms p [of q] show ?thesis by (auto simp: same_pin_def luat_gpio_close_def Let_def split: if_splits)
  qed
qed

lemma run_other_pins:
  "gpio_run env ps s = Some s' \<Longrightarrow> int p \<notin> op_pin ` set ps \<Longrightarrow> same_pin p s s'"
proof (induction ps arbitrary: s)
  case Nil
  then show ?case by (simp add: same_pin_def)
next
  case (Cons x ps)
  then obtain s1 where "gpio_exec env x s = Some s1" and "gpio_run env ps s1 = Some s'" by (auto simp: bind_eq_Some_conv)
  with Cons.IH [of s1] Cons.prems(2) exec_other_pin [of env x s s1 p] show ?case by (auto simp: same_pin_def)
qed

text \<open>Levels are kept per pin. On a pin without a driver, after \<open>luat_gpio_set\<close> and then any calls for
  other pins, \<open>luat_gpio_get\<close> returns whether the level that was set is not zero when the pin is an
  input or an interrupt pin, and 0 when it is in any other mode.\<close>

theorem gpio_readback:
  assumes "p < 128" and "gs_drvs s p = None" and "gpio_run env ps (snd (luat_gpio_set env (int p) v s)) = Some s'"
    and "int p \<notin> op_pin ` set ps"
  shows "fst (luat_gpio_get env (int p) s') =
         (if (gp_mode (gs_confs s p) = GPIO_INPUT \<or> gp_mode (gs_confs s p) = GPIO_IRQ) \<and> v \<noteq> 0 then 1 else 0)"
proof -
  have "same_pin p (snd (luat_gpio_set env (int p) v s)) s'" by (rule run_other_pins [OF assms(3,4)])
  with assms(1,2) have "gs_drvs s' p = None" and "gs_confs s' p = gs_confs s p" and "gs_levels s' p = (if v = 0 then 0 else 1)"
    by (simp_all add: same_pin_def luat_gpio_set_def Let_def)
  with assms(1) show ?thesis by (simp add: luat_gpio_get_def Let_def)
qed

definition demo_gpio_env :: gpio_env where
  "demo_gpio_env = \<lparr>ge_al = (\<lambda>_. True), ge_fmt = (\<lambda>_. ''1'')\<rparr>"

theorem gpio_readback_witness:
  "\<exists>s s'. gpio_run demo_gpio_env [GSetup \<lparr>gp_pin = 5, gp_mode = GPIO_INPUT, gp_pull = 0, gp_irq = 0\<rparr>]
       (gpio_start (\<lambda>_. None) \<lparr>zh_tick = 0, zh_live = 0\<rparr>) = Some s \<and>
     gpio_run demo_gpio_env [GSet 6 0, GClose 7] (snd (luat_gpio_set demo_gpio_env 5 9 s)) = Some s' \<and>
     fst (luat_gpio_get demo_gpio_env 5 s') = 1"
proof -
  let ?g = "\<lparr>gp_pin = 5, gp_mode = GPIO_INPUT, gp_pull = 0, gp_irq = 0\<rparr>"
  let ?s0 = "gpio_start (\<lambda>_. None) \<lparr>zh_tick = 0, zh_live = 0\<rparr>"
  obtain s where s: "luat_gpio_setup demo_gpio_env ?g ?s0 = Some (0, s)"
    and c: "gs_drvs s 5 = None" "gp_mode (gs_confs s 5) = GPIO_INPUT"
    by (simp add: luat_gpio_setup_def gpio_start_def Let_def)
  obtain s' where s': "gpio_run demo_gpio_env [GSet 6 0, GClose 7] (snd (luat_gpio_set demo_gpio_env (int 5) 9 s)) = Some s'"
    by simp
  have "fst (luat_gpio_get demo_gpio_env (int 5) s') = 1"
    using gpio_readback [OF _ c(1) s'] c(2) by simp
  with s s' show ?thesis by (intro exI [of _ s] exI [of _ s']) simp
qed

section \<open>The trace leaks\<close>

definition gpio_mem_fine :: "gpio_env \<Rightarrow> bool" where
  "gpio_mem_fine env \<longleftrightarrow> (\<forall>n. ge_al env n) \<and> (\<forall>n. ge_fmt env n \<noteq> [])"

lemma ztt_add_fine:
  "\<forall>n. al n \<Longrightarrow> ztt_add al items k v h = (items @ [(k, v)], h\<lparr>zh_tick := zh_tick h + 3, zh_live := zh_live h + 3\<rparr>)"
  by (simp add: ztt_add_def zalloc_def)

lemma ztt_addf_fine:
  "\<forall>n. al n \<Longrightarrow> v \<noteq> [] \<Longrightarrow>
   ztt_addf al items k v h = (items @ [(k, v)], h\<lparr>zh_tick := zh_tick h + 4, zh_live := zh_live h + 3\<rparr>)"
  by (simp add: ztt_addf_def ztt_add_fine zalloc_def zfree_def)

lemma trace_adds_fine:
  assumes "gpio_mem_fine env" and "items \<noteq> []"
  shows "trace_adds env items xs h =
    (items @ map (\<lambda>(k, n). (k, ge_fmt env n)) xs, h\<lparr>zh_tick := zh_tick h + 4 * length xs, zh_live := zh_live h + 3 * length xs\<rparr>)"
  using assms(2)
proof (induction xs arbitrary: items h)
  case (Cons x xs)
  have "\<forall>n. ge_al env n" and "\<forall>n. ge_fmt env n \<noteq> []" using assms(1) by (simp_all add: gpio_mem_fine_def)
  with Cons show ?case by (cases x) (simp add: ztt_addf_fine)
qed simp

lemma commit_loop_fine:
  assumes "\<forall>n. al n" and "3 * length items \<le> zh_live h"
  shows "commit_loop al items buff h = (0, buff @ concat (map (\<lambda>(k, v). v @ '','') items) @ ''0'',
           h\<lparr>zh_tick := zh_tick h + length items, zh_live := zh_live h - 3 * length items\<rparr>)"
  using assms(2)
proof (induction items arbitrary: buff h)
  case (Cons x items)
  with assms(1) show ?case by (cases x) (simp add: zfree_def)
qed simp

lemma gpio_trace_leaks:
  assumes "gpio_mem_fine env"
  shows "zh_live (gs_heap (gpio_trace env a xs s)) = zh_live (gs_heap s) + 1"
proof -
  have al: "\<forall>n. ge_al env n" using assms by (simp add: gpio_mem_fine_def)
  show ?thesis
    using al assms
    by (simp add: gpio_trace_def ztt_create_def ztt_add_fine trace_adds_fine ztt_commit_def zalloc_def commit_loop_fine Let_def zfree_def)
qed

fun op_valid :: "gpio_op \<Rightarrow> bool" where
  "op_valid x \<longleftrightarrow> 0 \<le> op_pin x \<and> op_pin x < 128"

lemma exec_leaks:
  assumes "gpio_mem_fine env" and "op_valid x"
  shows "\<exists>s'. gpio_exec env x s = Some s' \<and> zh_live (gs_heap s') = zh_live (gs_heap s) + 1"
proof -
  note l = gpio_trace_leaks [OF assms(1)]
  show ?thesis
  proof (cases x)
    case (GSetup g)
    with assms(2) show ?thesis by (simp add: luat_gpio_setup_def Let_def l split: option.split)
  next
    case (GSet p v)
    with assms(2) show ?thesis by (simp add: luat_gpio_set_def Let_def l split: option.split)
  next
    case (GGet p)
    with assms(2) show ?thesis by (simp add: luat_gpio_get_def Let_def l split: option.split)
  next
    case (GClose p)
    with assms(2) show ?thesis by (simp add: luat_gpio_close_def Let_def l)
  qed
qed

text \<open>Every GPIO call leaks a block. While memory lasts, a sequence of \<open>n\<close> calls with valid pins runs
  without error and leaves exactly \<open>n\<close> blocks more in use than before: the buffer that \<open>ztt_commit\<close>
  allocates is never released.\<close>

theorem gpio_calls_leak:
  assumes "gpio_mem_fine env" and "list_all op_valid ps"
  shows "\<exists>s'. gpio_run env ps s = Some s' \<and> zh_live (gs_heap s') = zh_live (gs_heap s) + length ps"
  using assms(2)
proof (induction ps arbitrary: s)
  case (Cons x ps)
  obtain s1 where "gpio_exec env x s = Some s1" and l: "zh_live (gs_heap s1) = zh_live (gs_heap s) + 1"
    using exec_leaks [OF assms(1), of x s] Cons.prems by auto
  with Cons.IH [of s1] Cons.prems show ?case by auto
qed simp

theorem gpio_calls_leak_witness:
  "\<exists>s'. gpio_run demo_gpio_env [GSet 1 1, GSet 1 0, GGet 1] (gpio_start (\<lambda>_. Some gpio_nop) \<lparr>zh_tick = 0, zh_live = 2\<rparr>) = Some s' \<and>
     zh_live (gs_heap s') = 5"
  using gpio_calls_leak [of demo_gpio_env "[GSet 1 1, GSet 1 0, GGet 1]" "gpio_start (\<lambda>_. Some gpio_nop) \<lparr>zh_tick = 0, zh_live = 2\<rparr>"]
  by (simp add: gpio_mem_fine_def demo_gpio_env_def gpio_start_def)

text \<open>Unlike the other calls, a setup with a negative pin is not refused.\<close>

lemma gpio_setup_negative: "gp_pin g < 0 \<Longrightarrow> luat_gpio_setup env g s = None"
  by (simp add: luat_gpio_setup_def)

end
