(* ===== verification/Mobile_Imei.thy ===== *)
theory Mobile_Imei
  imports Luatos_Prelude
begin

text \<open>
  The device number of the simulated modem, \<open>port/luat_mobile_pc.c\<close>: a number of 15 digits that is
  derived from the hash of the machine's identification, with a check digit at the end. The
  identification and the hexadecimal text of its MD5 hash come from the LuatOS library and
  are parameters; nothing is assumed of the text. The other functions of the file are
  constant answers.
\<close>

section \<open>Decimal numbers\<close>

definition digit_char :: "nat \<Rightarrow> char" where
  "digit_char n = char_of (48 + n)"

definition is_digit :: "char \<Rightarrow> bool" where
  "is_digit c \<longleftrightarrow> 48 \<le> (of_char c :: nat) \<and> (of_char c :: nat) \<le> 57"

definition digit_val :: "char \<Rightarrow> nat" where
  "digit_val c = of_char c - 48"

text \<open>The conversion \<open>%llu\<close>.\<close>

fun dec :: "nat \<Rightarrow> string" where
  "dec n = (if n < 10 then [digit_char n] else dec (n div 10) @ [digit_char (n mod 10)])"

declare dec.simps [simp del]

lemma digit_char_digit: "n < 10 \<Longrightarrow> is_digit (digit_char n)"
  by (simp add: is_digit_def digit_char_def)

lemma digit_val_char [simp]: "n < 10 \<Longrightarrow> digit_val (digit_char n) = n"
  by (simp add: digit_val_def digit_char_def)

lemma dec_digits: "list_all is_digit (dec n)"
  by (induction n rule: dec.induct) (subst dec.simps, simp add: digit_char_digit)

lemma length_dec: "10 ^ k \<le> n \<Longrightarrow> n < 10 ^ Suc k \<Longrightarrow> length (dec n) = Suc k"
proof (induction k arbitrary: n)
  case 0
  then show ?case by (simp add: dec.simps [of n])
next
  case (Suc k)
  have "10 ^ k \<le> n div 10" using Suc.prems(1) by (simp add: less_eq_div_iff_mult_less_eq mult.commute)
  moreover have "n div 10 < 10 ^ Suc k" using Suc.prems(2) by (simp add: div_less_iff_less_mult mult.commute)
  moreover have "10 * 1 \<le> 10 * (10 :: nat) ^ k" by (intro mult_le_mono) simp_all
  then have "10 \<le> n" using Suc.prems(1) unfolding power_Suc by linarith
  ultimately show ?case using Suc.IH [of "n div 10"] by (simp add: dec.simps [of n])
qed

section \<open>The number\<close>

definition hex_val :: "char \<Rightarrow> nat" where
  "hex_val c = (let n = of_char c :: nat in
     if 48 \<le> n \<and> n \<le> 57 then n - 48
     else if 97 \<le> n \<and> n \<le> 102 then n - 97 + 10
     else if 65 \<le> n \<and> n \<le> 70 then n - 65 + 10
     else 0)"

text \<open>The loop over the first 16 characters, in 64 bits.\<close>

fun hex_num :: "nat \<Rightarrow> string \<Rightarrow> nat \<Rightarrow> nat" where
  "hex_num 0 cs num = num"
| "hex_num (Suc k) [] num = num"
| "hex_num (Suc k) (c # cs) num =
     (if c = CHR 0x00 then num else hex_num k cs ((num * 16 + hex_val c) mod 2 ^ 64))"

text \<open>The loop over the first 14 digits: every digit at an even distance from the left is doubled.
  A string that ends earlier has its terminator there, which is no digit.\<close>

fun check_sum :: "nat \<Rightarrow> string \<Rightarrow> nat \<Rightarrow> nat option" where
  "check_sum i [] acc = (if i < 14 then None else Some acc)"
| "check_sum i (c # cs) acc =
     (if \<not> i < 14 then Some acc
      else if \<not> is_digit c then None
      else let digit = digit_val c;
               digit = (if (13 - i) mod 2 = 1
                        then (if 2 * digit > 9 then 2 * digit div 10 + 2 * digit mod 10 else 2 * digit)
                        else digit)
           in check_sum (Suc i) cs (acc + digit))"

definition generate_imei_check_digit :: "string \<Rightarrow> nat" where
  "generate_imei_check_digit imei = (case check_sum 0 imei 0 of None \<Rightarrow> 255 | Some acc \<Rightarrow> (10 - acc mod 10) mod 10)"

text \<open>\<open>snprintf\<close> stores at most \<open>n - 1\<close> characters and the terminator.\<close>

definition snprintf :: "nat \<Rightarrow> string \<Rightarrow> char list \<Rightarrow> char list option" where
  "snprintf n txt buff = (if n = 0 then Some buff else poke 0 (take (n - 1) txt @ [CHR 0x00]) buff)"

definition luat_mobile_get_imei :: "byte list \<Rightarrow> string \<Rightarrow> char list \<Rightarrow> nat \<Rightarrow> (int \<times> char list) option" where
  "luat_mobile_get_imei uuid hexbuff buff buf_len =
     (if length uuid > 0 then
        do { let num = hex_num 16 hexbuff 0 mod 900000000 + 100000000;
             buff \<leftarrow> snprintf buf_len (''86228905'' @ dec num) buff;
             buff \<leftarrow> poke 15 [CHR 0x00] buff;
             buff \<leftarrow> poke 14 [char_of ((48 + generate_imei_check_digit buff) mod 256)] buff;
             Some (1, buff) }
      else Some (-1, buff))"

section \<open>The format of the number\<close>

lemma check_sum_mono: "i + length cs = 14 \<Longrightarrow> list_all is_digit cs \<Longrightarrow> \<exists>s. check_sum i cs acc = Some s"
  by (induction cs arbitrary: i acc) (auto simp: Let_def)

lemma check_sum_stops: "14 \<le> i \<Longrightarrow> check_sum i cs acc = Some acc"
  by (cases cs) simp_all

lemma check_sum_append:
  "i + length cs = 14 \<Longrightarrow> list_all is_digit cs \<Longrightarrow> check_sum i (cs @ rest) acc = check_sum i cs acc"
  by (induction cs arbitrary: i acc) (auto simp: check_sum_stops Let_def)

lemma poke_one: "i < length b \<Longrightarrow> poke i [c] b = Some (b[i := c])"
  by (simp add: poke_def upd_conv_take_nth_drop)

lemma take_two: "k + 1 < length b \<Longrightarrow> take (k + 2) b = take k b @ [b ! k, b ! (k + 1)]"
  by (simp add: take_Suc_conv_app_nth)

lemma snprintf_prefix:
  assumes "k \<le> length txt" and "k < n" and "n \<le> length buff"
  shows "\<exists>b. snprintf n txt buff = Some b \<and> length b = length buff \<and> take k b = take k txt"
proof -
  let ?x = "take (n - 1) txt @ [CHR 0x00]"
  have "length ?x \<le> length buff" using assms by simp
  then have p: "poke 0 ?x buff = Some (?x @ drop (length ?x) buff)" by (simp add: poke_def)
  have "take k (?x @ drop (length ?x) buff) = take k txt" using assms by simp
  with p poke_length [OF p] assms(2) show ?thesis by (simp add: snprintf_def)
qed

lemma num_dec:
  fixes m :: nat
  defines "num \<equiv> m mod 900000000 + 100000000"
  shows "length (dec num) = 9" and "list_all is_digit (dec num)"
proof -
  have "m mod 900000000 < 900000000" by simp
  then have "10 ^ 8 \<le> num" and "num < 10 ^ Suc 8" unfolding num_def by simp_all
  then have "length (dec num) = Suc 8" by (rule length_dec)
  then show "length (dec num) = 9" by simp
  show "list_all is_digit (dec num)" by (rule dec_digits)
qed

text \<open>The device number has the form of an IMEI. When the machine has an identification and the caller's
  buffer has at least 16 bytes, \<open>luat_mobile_get_imei\<close> returns 1 and stores 15 decimal digits and a
  zero byte, whatever the hash is. The first eight digits are 86228905, and the last one is
  what \<open>generate_imei_check_digit\<close> computes from the first 14.\<close>

theorem imei_format:
  assumes "uuid \<noteq> []" and "16 \<le> buf_len" and "buf_len \<le> length buff"
  shows "\<exists>ds c buff'. luat_mobile_get_imei uuid hexbuff buff buf_len = Some (1, buff') \<and>
           take 16 buff' = ''86228905'' @ ds @ [c, CHR 0x00] \<and> length ds = 6 \<and> list_all is_digit ds \<and>
           c = digit_char (generate_imei_check_digit (''86228905'' @ ds)) \<and> is_digit c"
proof -
  define num where "num = hex_num 16 hexbuff 0 mod 900000000 + 100000000"
  define pre where "pre = ''86228905''"
  have pre: "length pre = 8" "list_all is_digit pre" by (simp_all add: pre_def is_digit_def)
  let ?txt = "pre @ dec num"
  have d: "length (dec num) = 9" "list_all is_digit (dec num)" unfolding num_def by (rule num_dec)+
  define ds where "ds = take 6 (dec num)"
  let ?p = "pre @ ds"
  have p: "length ?p = 14" "list_all is_digit ?p" and ds: "length ds = 6" "list_all is_digit ds"
    using d pre set_take_subset [of 6 "dec num"] by (auto simp: ds_def list_all_iff)
  have t: "take 14 ?txt = ?p" using d pre by (simp add: ds_def)
  obtain b1 where b1: "snprintf buf_len ?txt buff = Some b1" and l1: "length b1 = length buff" and t1: "take 14 b1 = ?p"
    using snprintf_prefix [of 14 ?txt buf_len buff] d pre assms(2,3) t by auto
  define b2 where "b2 = b1[15 := CHR 0x00]"
  let ?c = "char_of ((48 + generate_imei_check_digit b2) mod 256)"
  have l: "15 < length b1" using l1 assms(2,3) by simp
  have b2: "poke 15 [CHR 0x00] b1 = Some b2" unfolding b2_def by (rule poke_one [OF l])
  have b3: "poke 14 [?c] b2 = Some (b2[14 := ?c])" by (rule poke_one) (use l in \<open>simp add: b2_def\<close>)
  have t2: "take 14 b2 = ?p" using t1 by (simp add: b2_def)
  have t3: "take 16 (b2[14 := ?c]) = ?p @ [?c, CHR 0x00]"
    using take_two [of 14 "b2[14 := ?c]"] l t2 by (simp add: b2_def)
  have e: "?p @ drop 14 b2 = b2" using t2 by (metis append_take_drop_id)
  have "check_sum 0 (?p @ drop 14 b2) 0 = check_sum 0 ?p 0" by (rule check_sum_append) (use p in simp_all)
  then have "check_sum 0 b2 0 = check_sum 0 ?p 0" unfolding e .
  then have g: "generate_imei_check_digit b2 = generate_imei_check_digit ?p" by (simp only: generate_imei_check_digit_def)
  obtain s where "check_sum 0 ?p 0 = Some s" using check_sum_mono [of 0 ?p] p by auto
  then have small: "generate_imei_check_digit ?p < 10" by (simp add: generate_imei_check_digit_def del: check_sum.simps)
  have c: "?c = digit_char (generate_imei_check_digit ?p)" using small by (simp add: g digit_char_def)
  have "luat_mobile_get_imei uuid hexbuff buff buf_len = Some (1, b2[14 := ?c])"
    using assms(1) b1 b2 b3 by (simp only: luat_mobile_get_imei_def num_def [symmetric] pre_def [symmetric] Let_def) simp
  with t3 c ds digit_char_digit [OF small] show ?thesis unfolding pre_def [symmetric] by (metis append_assoc)
qed

theorem imei_format_witness:
  "\<exists>ds c buff'. luat_mobile_get_imei [1] ''00ff'' (replicate 20 CHR ''x'') 20 = Some (1, buff') \<and>
     take 16 buff' = ''86228905'' @ ds @ [c, CHR 0x00] \<and> length ds = 6 \<and> is_digit c"
  using imei_format [of "[1]" 20 "replicate 20 CHR ''x''" "''00ff''"] by auto

section \<open>The check digit\<close>

text \<open>The algorithm of Luhn: from the right, beginning with the last digit before the check digit, every
  second digit is doubled and its digits are added.\<close>

fun luhn_sum :: "bool \<Rightarrow> string \<Rightarrow> nat" where
  "luhn_sum twice [] = 0"
| "luhn_sum twice (c # cs) =
     (let d = digit_val c in (if twice then 2 * d div 10 + 2 * d mod 10 else d) + luhn_sum (\<not> twice) cs)"

definition luhn_digit :: "string \<Rightarrow> nat" where
  "luhn_digit ds = (10 - luhn_sum True (rev ds) mod 10) mod 10"

text \<open>The check digit is not the one of the IMEI standard. For the digits 49015420323751, whose IMEI ends
  in 8 by the algorithm of Luhn, \<open>generate_imei_check_digit\<close> yields 0: it doubles the digits that
  are to be left alone and leaves those that are to be doubled.\<close>

theorem imei_check_digit_wrong:
  "luhn_digit ''49015420323751'' = 8 \<and> generate_imei_check_digit ''49015420323751'' = 0"
  by (simp add: luhn_digit_def generate_imei_check_digit_def is_digit_def digit_val_def)

end
