(* ===== verification/Gtfont_Pc.thy ===== *)
theory Gtfont_Pc
  imports Luatos_Prelude
begin

text \<open>
  The font renderer of the simulated display, \<open>port/luat_gtfont_pc.c\<close>: it has FreeType draw a
  character with one byte for each pixel and packs the result into one, two or four bits for each pixel.
  FreeType is a record of functions; what the code needs of a bitmap is the predicate
  \<open>glyph_gray\<close>. The packed formats are instances of one interface, a plane of pixels.
\<close>

section \<open>FreeType\<close>

record ft_glyph =
  ft_rows :: nat
  ft_width :: nat
  ft_pitch :: int
  ft_buffer :: "byte list"
  ft_top :: int
  ft_advance :: int \<comment> \<open>in 64ths of a pixel\<close>

record 'face ft_api =
  ft_init :: int
  ft_new_face :: "string \<Rightarrow> int \<times> 'face"
  ft_set_pixel_sizes :: "'face \<Rightarrow> nat \<Rightarrow> int \<times> 'face"
  ft_load_char :: "'face \<Rightarrow> nat \<Rightarrow> int \<times> 'face"
  ft_slot :: "'face \<Rightarrow> ft_glyph"
  ft_ascender :: "'face \<Rightarrow> int"

record 'face gt_state =
  s_ft_face :: "'face option"
  s_ft_ok :: bool

definition gt_start :: "'face gt_state" where
  "gt_start = \<lparr> s_ft_face = None, s_ft_ok = False \<rparr>"

section \<open>Initialisation\<close>

datatype platform = Win32 | Apple | Other

definition file_accessible :: "(string \<Rightarrow> bool) \<Rightarrow> string option \<Rightarrow> bool" where
  "file_accessible can_open path = (case path of None \<Rightarrow> False | Some p \<Rightarrow> p \<noteq> [] \<and> can_open p)"

fun font_cands :: "platform \<Rightarrow> string list" where
  "font_cands Win32 = [''C:/Windows/Fonts/simhei.ttf'']"
| "font_cands Apple = [''/System/Library/Fonts/PingFang.ttc'', ''/System/Library/Fonts/STHeiti Medium.ttc'',
     ''/System/Library/Fonts/PingFang.ttc'']"
| "font_cands Other = [''/usr/share/fonts/truetype/noto/NotoSansCJK-Regular.ttc'',
     ''/usr/share/fonts/opentype/noto/NotoSansCJK-Regular.ttc'', ''/usr/share/fonts/truetype/wqy/wqy-zenhei.ttc'']"

definition pick_default_font :: "platform \<Rightarrow> (string \<Rightarrow> bool) \<Rightarrow> string option" where
  "pick_default_font pl can_open = find (\<lambda>p. file_accessible can_open (Some p)) (font_cands pl)"

definition GT_Font_Init ::
    "'face ft_api \<Rightarrow> platform \<Rightarrow> (string \<Rightarrow> bool) \<Rightarrow> string option \<Rightarrow> 'face gt_state \<Rightarrow> int \<times> 'face gt_state" where
  "GT_Font_Init ft pl can_open env s =
     (if s_ft_ok s then (1, s)
      else if ft_init ft \<noteq> 0 then (0, s)
      else let font_file = (if file_accessible can_open env then env else pick_default_font pl can_open)
           in case font_file of
                None \<Rightarrow> (0, s)
              | Some f \<Rightarrow> (let (r, face) = ft_new_face ft f
                           in if r \<noteq> 0 then (0, s)
                              else (1, s\<lparr>s_ft_face := Some face, s_ft_ok := True\<rparr>)))"

section \<open>Packed pixels\<close>

definition set_bit_1bpp :: "nat \<Rightarrow> nat \<Rightarrow> nat \<Rightarrow> byte list \<Rightarrow> byte list option" where
  "set_bit_1bpp w x y buf =
     (let bytes_per_row = (w + 7) div 8;
          byte_index = y * bytes_per_row + x div 8;
          bit_pos = 7 - x mod 8
      in if byte_index < length buf
         then Some (buf[byte_index := buf ! byte_index OR push_bit bit_pos 1]) else None)"

definition set_pix_2bpp :: "nat \<Rightarrow> nat \<Rightarrow> nat \<Rightarrow> byte \<Rightarrow> byte list \<Rightarrow> byte list option" where
  "set_pix_2bpp w x y v2 buf =
     (let v2 = v2 AND 0x03;
          bytes_per_row = (w + 7) div 8 * 2;
          byte_index = y * bytes_per_row + x div 4;
          shift = (3 - x mod 4) * 2;
          m = push_bit shift 0x03
      in if byte_index < length buf
         then Some (buf[byte_index := (buf ! byte_index AND NOT m) OR push_bit shift v2]) else None)"

definition set_pix_gray :: "nat \<Rightarrow> nat \<Rightarrow> nat \<Rightarrow> nat \<Rightarrow> byte \<Rightarrow> byte list \<Rightarrow> byte list option" where
  "set_pix_gray w x y bpp val buf =
     (if bpp = 4 then
        (let bytes_per_row = (w + 7) div 8 * 4;
             byte_index = y * bytes_per_row + x div 2;
             shift = (1 - x mod 2) * 4;
             m = push_bit shift 0x0F
         in if byte_index < length buf
            then Some (buf[byte_index := (buf ! byte_index AND NOT m) OR push_bit shift (val AND 0x0F)]) else None)
      else if bpp = 2 then
        (let bytes_per_row = (w + 7) div 8 * 2;
             byte_index = y * bytes_per_row + x div 4;
             shift = (3 - x mod 4) * 2;
             m = push_bit shift 0x03
         in if byte_index < length buf
            then Some (buf[byte_index := (buf ! byte_index AND NOT m) OR push_bit shift (val AND 0x03)]) else None)
      else Some buf)"

section \<open>Drawing\<close>

text \<open>The byte of the FreeType bitmap that the loops read, defined only inside of the bitmap.\<close>

definition glyph_at :: "ft_glyph \<Rightarrow> nat \<Rightarrow> nat \<Rightarrow> byte option" where
  "glyph_at bm yy xx = (let i = int yy * ft_pitch bm + int xx
     in if 0 \<le> i \<and> i < int (length (ft_buffer bm)) then Some (ft_buffer bm ! nat i) else None)"

text \<open>The inner and the outer loop of both renderers; \<open>put\<close> sets one pixel of the output. The horizontal
  offset is 0 in the source.\<close>

fun draw_row :: "(nat \<Rightarrow> nat \<Rightarrow> nat \<Rightarrow> byte list \<Rightarrow> byte list option) \<Rightarrow> ft_glyph \<Rightarrow> nat \<Rightarrow> nat \<Rightarrow> nat \<Rightarrow>
    nat list \<Rightarrow> byte list \<Rightarrow> byte list option" where
  "draw_row put bm w yy dy [] buf = Some buf"
| "draw_row put bm w yy dy (xx # xs) buf =
     (if w \<le> xx then draw_row put bm w yy dy xs buf
      else do { val \<leftarrow> glyph_at bm yy xx;
                buf \<leftarrow> (if val > 127 then put w xx dy buf else Some buf);
                draw_row put bm w yy dy xs buf })"

fun draw_rows :: "(nat \<Rightarrow> nat \<Rightarrow> nat \<Rightarrow> byte list \<Rightarrow> byte list option) \<Rightarrow> ft_glyph \<Rightarrow> nat \<Rightarrow> nat \<Rightarrow> int \<Rightarrow>
    nat list \<Rightarrow> byte list \<Rightarrow> byte list option" where
  "draw_rows put bm w h off_y [] buf = Some buf"
| "draw_rows put bm w h off_y (yy # ys) buf =
     (let dy = off_y + int yy
      in if dy < 0 \<or> int h \<le> dy then draw_rows put bm w h off_y ys buf
         else do { buf \<leftarrow> draw_row put bm w yy (nat dy) [0..<ft_width bm] buf;
                   draw_rows put bm w h off_y ys buf })"

definition glyph_off_y :: "int \<Rightarrow> nat \<Rightarrow> ft_glyph \<Rightarrow> int" where
  "glyph_off_y ascender h bm =
     (let asc_px = ascender div 64;
          asc_px = (if asc_px < 0 then 0 else asc_px);
          asc_px = (if asc_px > int h then int h else asc_px)
      in asc_px - ft_top bm)"

definition glyph_adv :: "nat \<Rightarrow> ft_glyph \<Rightarrow> nat" where
  "glyph_adv w bm =
     (let adv = nat ((ft_advance bm + 32) div 64 mod 2 ^ 32);
          adv = (if adv > w then w else adv);
          adv = (if adv < ft_width bm then ft_width bm else adv)
      in if adv = 0 then ft_width bm else adv)"

definition get_font :: "'face ft_api \<Rightarrow> byte list option \<Rightarrow> nat \<Rightarrow> nat \<Rightarrow> nat \<Rightarrow> 'face gt_state \<Rightarrow>
    (nat \<times> byte list option \<times> 'face gt_state) option" where
  "get_font ft pBits fontCode width height s =
     (case pBits of None \<Rightarrow> Some (0, None, s)
      | Some bits \<Rightarrow>
        if width = 0 \<or> height = 0 \<or> \<not> s_ft_ok s then Some (0, pBits, s)
        else do {
          bits \<leftarrow> poke 0 (replicate ((width + 7) div 8 * height) 0) bits;
          face \<leftarrow> s_ft_face s;
          let (r, face) = ft_set_pixel_sizes ft face height;
          if r \<noteq> 0 then Some (0, Some bits, s\<lparr>s_ft_face := Some face\<rparr>)
          else do {
            let (r, face) = ft_load_char ft face fontCode;
            if r \<noteq> 0 then Some (0, Some bits, s\<lparr>s_ft_face := Some face\<rparr>)
            else do {
              let bm = ft_slot ft face;
              bits \<leftarrow> draw_rows set_bit_1bpp bm width height (glyph_off_y (ft_ascender ft face) height bm)
                [0..<ft_rows bm] bits;
              Some (glyph_adv width bm, Some bits, s\<lparr>s_ft_face := Some face\<rparr>) } } })"

definition gray_bpp :: "nat \<Rightarrow> nat" where
  "gray_bpp fontSize = (if 16 \<le> fontSize \<and> fontSize < 34 then 4 else 2)"

definition put_gray :: "nat \<Rightarrow> nat \<Rightarrow> nat \<Rightarrow> nat \<Rightarrow> byte list \<Rightarrow> byte list option" where
  "put_gray bpp w x y = (if bpp = 4 then set_pix_gray w x y 4 0x0F else set_pix_gray w x y 2 0x03)"

definition get_Font_Gray :: "'face ft_api \<Rightarrow> byte list option \<Rightarrow> nat \<Rightarrow> nat \<Rightarrow> 'face gt_state \<Rightarrow>
    ((nat \<times> nat) \<times> byte list option \<times> 'face gt_state) option" where
  "get_Font_Gray ft pBits fontCode fontSize s =
     (case pBits of None \<Rightarrow> Some ((0, 2), None, s)
      | Some bits \<Rightarrow>
        if fontSize = 0 \<or> \<not> s_ft_ok s then Some ((0, 2), pBits, s)
        else do {
          let bpp = gray_bpp fontSize;
          bits \<leftarrow> poke 0 (replicate ((fontSize + 7) div 8 * bpp * fontSize) 0) bits;
          face \<leftarrow> s_ft_face s;
          let (r, face) = ft_set_pixel_sizes ft face fontSize;
          if r \<noteq> 0 then Some ((0, bpp), Some bits, s\<lparr>s_ft_face := Some face\<rparr>)
          else do {
            let (r, face) = ft_load_char ft face fontCode;
            if r \<noteq> 0 then Some ((0, bpp), Some bits, s\<lparr>s_ft_face := Some face\<rparr>)
            else do {
              let bm = ft_slot ft face;
              bits \<leftarrow> draw_rows (put_gray bpp) bm fontSize fontSize (glyph_off_y (ft_ascender ft face) fontSize bm)
                [0..<ft_rows bm] bits;
              Some ((glyph_adv fontSize bm, bpp), Some bits, s\<lparr>s_ft_face := Some face\<rparr>) } } })"

definition U2G :: "nat \<Rightarrow> nat" where
  "U2G unicode = unicode"

section \<open>Planes of pixels\<close>

text \<open>A field of \<open>k\<close> bits of a byte, and its update.\<close>

definition field :: "nat \<Rightarrow> nat \<Rightarrow> byte \<Rightarrow> byte" where
  "field k sh b = take_bit k (drop_bit sh b)"

definition set_field :: "nat \<Rightarrow> nat \<Rightarrow> byte \<Rightarrow> byte" where
  "set_field k sh b = (b AND NOT (push_bit sh (mask k))) OR push_bit sh (mask k)"

lemma field_same: "sh + k \<le> 8 \<Longrightarrow> field k sh (set_field k sh b) = mask k"
  by (rule bit_word_eqI)
    (auto simp: field_def set_field_def bit_simps dest: less_le_trans)

lemma field_other: "sh' + k \<le> sh \<or> sh + k \<le> sh' \<Longrightarrow> field k sh' (set_field k sh b) = field k sh' b"
  by (rule bit_word_eqI) (auto simp: field_def set_field_def bit_simps dest: bit_imp_le_length)

lemma field_zero [simp]: "field k sh 0 = 0"
  by (simp add: field_def)

text \<open>A pixel of a plane with \<open>k\<close> bits for each pixel and \<open>q\<close> pixels in each byte, most significant
  first; every row begins with a new byte and has a multiple of \<open>k\<close> bytes.\<close>

definition row_bytes :: "nat \<Rightarrow> nat \<Rightarrow> nat" where
  "row_bytes k w = (w + 7) div 8 * k"

definition pix_index :: "nat \<Rightarrow> nat \<Rightarrow> nat \<Rightarrow> nat \<Rightarrow> nat \<Rightarrow> nat" where
  "pix_index k q w x y = y * row_bytes k w + x div q"

definition pix_shift :: "nat \<Rightarrow> nat \<Rightarrow> nat \<Rightarrow> nat" where
  "pix_shift k q x = (q - 1 - x mod q) * k"

definition pixel :: "nat \<Rightarrow> nat \<Rightarrow> nat \<Rightarrow> nat \<Rightarrow> nat \<Rightarrow> byte list \<Rightarrow> byte" where
  "pixel k q w x y buf = field k (pix_shift k q x) (buf ! pix_index k q w x y)"

definition put_pixel :: "nat \<Rightarrow> nat \<Rightarrow> nat \<Rightarrow> nat \<Rightarrow> nat \<Rightarrow> byte list \<Rightarrow> byte list option" where
  "put_pixel k q w x y buf = (let i = pix_index k q w x y
     in if i < length buf then Some (buf[i := set_field k (pix_shift k q x) (buf ! i)]) else None)"

lemma pix_column: "k * q = 8 \<Longrightarrow> x < w \<Longrightarrow> x div q < row_bytes k w"
proof -
  assume kq: "k * q = 8" and x: "x < w"
  then have q: "0 < q" by (cases q) auto
  have "w \<le> (w + 7) div 8 * 8" by presburger
  then have "w \<le> row_bytes k w * q" using kq by (simp add: row_bytes_def mult.assoc)
  with x q show ?thesis by (simp add: div_less_iff_less_mult)
qed

lemma pix_index_bound:
  assumes "k * q = 8" and "x < w" and "y < h"
  shows "pix_index k q w x y < row_bytes k w * h"
proof -
  have "pix_index k q w x y < Suc y * row_bytes k w" using pix_column [OF assms(1,2)] by (simp add: pix_index_def)
  also have "\<dots> \<le> h * row_bytes k w" using assms(3) by (intro mult_le_mono1) simp
  finally show ?thesis by (simp add: mult.commute)
qed

lemma pix_index_inj:
  assumes "k * q = 8" and "x < w" and "x' < w" and "pix_index k q w x y = pix_index k q w x' y'"
  shows "y = y' \<and> x div q = x' div q"
proof -
  let ?r = "row_bytes k w"
  have c: "x div q < ?r" "x' div q < ?r" using pix_column assms(1-3) by blast+
  have "y = (y * ?r + x div q) div ?r" "y' = (y' * ?r + x' div q) div ?r" using c by simp_all
  moreover have "x div q = (y * ?r + x div q) mod ?r" "x' div q = (y' * ?r + x' div q) mod ?r" using c by simp_all
  ultimately show ?thesis using assms(4) unfolding pix_index_def by metis
qed

lemma pix_shift_disjoint:
  assumes "k * q = 8" and "x mod q \<noteq> x' mod q"
  shows "pix_shift k q x' + k \<le> pix_shift k q x \<or> pix_shift k q x + k \<le> pix_shift k q x'"
proof -
  have q: "0 < q" using assms(1) by (cases q) auto
  have m: "x mod q < q" "x' mod q < q" using q by simp_all
  have s: "a < b \<Longrightarrow> b < q \<Longrightarrow> (q - 1 - b) * k + k \<le> (q - 1 - a) * k" for a b :: nat
  proof -
    assume "a < b" and "b < q"
    then have "Suc (q - 1 - b) \<le> q - 1 - a" by linarith
    from mult_le_mono1 [OF this, of k] show ?thesis by (simp only: mult_Suc add.commute)
  qed
  show ?thesis using assms(2) s [of "x mod q" "x' mod q"] s [of "x' mod q" "x mod q"] m
    unfolding pix_shift_def by linarith
qed

lemma pix_shift_bound: "k * q = 8 \<Longrightarrow> pix_shift k q x + k \<le> 8"
proof -
  assume kq: "k * q = 8"
  then have "0 < q" by (cases q) auto
  then have "Suc (q - 1 - x mod q) * k \<le> q * k" by (intro mult_le_mono1) simp
  with kq show ?thesis by (simp add: pix_shift_def mult.commute)
qed

lemma pixel_put:
  assumes "k * q = 8" and "x < w" and "y < h" and "x' < w" and "y' < h" and "row_bytes k w * h \<le> length buf"
    and "put_pixel k q w x y buf = Some buf'"
  shows "pixel k q w x' y' buf' = (if x' = x \<and> y' = y then mask k else pixel k q w x' y' buf)"
proof (cases "pix_index k q w x' y' = pix_index k q w x y")
  case True
  then have y: "y' = y" and d: "x' div q = x div q" using pix_index_inj assms(1,2,4) by blast+
  have i: "pix_index k q w x y < length buf" using pix_index_bound assms(1-3,6) less_le_trans by blast
  have eq: "x' = x \<longleftrightarrow> x' mod q = x mod q" using d by (metis div_mult_mod_eq)
  show ?thesis
  proof (cases "x' = x")
    case True
    with y i assms(1,7) show ?thesis
      by (auto simp: pixel_def put_pixel_def Let_def field_same pix_shift_bound)
  next
    case False
    with eq have "x mod q \<noteq> x' mod q" by simp
    with True y i False assms(1,7) show ?thesis
      by (auto simp: pixel_def put_pixel_def Let_def field_other [OF pix_shift_disjoint])
  qed
next
  case False
  with assms(7) show ?thesis by (auto simp: pixel_def put_pixel_def Let_def split: if_splits)
qed

lemma put_pixel_frame:
  assumes "k * q = 8" and "x < w" and "y < h" and "row_bytes k w * h \<le> length buf"
  shows "\<exists>buf'. put_pixel k q w x y buf = Some buf' \<and> length buf' = length buf \<and>
           drop (row_bytes k w * h) buf' = drop (row_bytes k w * h) buf"
  using pix_index_bound [OF assms(1-3)] assms(4) by (simp add: put_pixel_def Let_def)

text \<open>What the drawing loops need of the function that sets a pixel: it stays inside of the rows of the plane,
  gives the pixel its full value and leaves the other pixels alone.\<close>

locale pixel_plane =
  fixes put :: "nat \<Rightarrow> nat \<Rightarrow> nat \<Rightarrow> byte list \<Rightarrow> byte list option"
    and pix :: "nat \<Rightarrow> nat \<Rightarrow> nat \<Rightarrow> byte list \<Rightarrow> byte"
    and bytes :: "nat \<Rightarrow> nat"
    and full :: byte
  assumes put_defined: "x < w \<Longrightarrow> y < h \<Longrightarrow> bytes w * h \<le> length buf \<Longrightarrow>
      \<exists>buf'. put w x y buf = Some buf' \<and> length buf' = length buf \<and> drop (bytes w * h) buf' = drop (bytes w * h) buf"
    and put_sets: "x < w \<Longrightarrow> y < h \<Longrightarrow> x' < w \<Longrightarrow> y' < h \<Longrightarrow> bytes w * h \<le> length buf \<Longrightarrow>
      put w x y buf = Some buf' \<Longrightarrow> pix w x' y' buf' = (if x' = x \<and> y' = y then full else pix w x' y' buf)"
    and pix_blank: "x < w \<Longrightarrow> y < h \<Longrightarrow> pix w x y (replicate (bytes w * h) 0 @ rest) = 0"

text \<open>The bitmap has one byte for each pixel, as FreeType documents it for its anti-aliased rendering.\<close>

definition glyph_gray :: "ft_glyph \<Rightarrow> bool" where
  "glyph_gray bm \<longleftrightarrow> int (ft_width bm) \<le> ft_pitch bm \<and> int (ft_rows bm) * ft_pitch bm \<le> int (length (ft_buffer bm))"

definition lit :: "ft_glyph \<Rightarrow> nat \<Rightarrow> nat \<Rightarrow> bool" where
  "lit bm yy xx \<longleftrightarrow> yy < ft_rows bm \<and> xx < ft_width bm \<and> (\<exists>v. glyph_at bm yy xx = Some v \<and> v > 127)"

lemma glyph_at_defined:
  assumes "glyph_gray bm" and "yy < ft_rows bm" and "xx < ft_width bm"
  shows "\<exists>v. glyph_at bm yy xx = Some v"
proof -
  have p: "int (ft_width bm) \<le> ft_pitch bm" "int (ft_rows bm) * ft_pitch bm \<le> int (length (ft_buffer bm))"
    using assms(1) by (simp_all add: glyph_gray_def)
  have "(int yy + 1) * ft_pitch bm \<le> int (ft_rows bm) * ft_pitch bm"
    using assms(2) p(1) by (intro mult_right_mono) simp_all
  then have "int yy * ft_pitch bm + int xx < int (length (ft_buffer bm))"
    using assms(3) p by (simp add: distrib_right)
  moreover have "0 \<le> int yy * ft_pitch bm" using p(1) by simp
  ultimately show ?thesis by (simp add: glyph_at_def Let_def)
qed

context pixel_plane
begin

lemma draw_row_ok:
  assumes "glyph_gray bm" and "yy < ft_rows bm" and "dy < h" and "bytes w * h \<le> length buf"
    and "\<forall>x\<in>set xs. x < ft_width bm"
  shows "\<exists>buf'. draw_row put bm w yy dy xs buf = Some buf' \<and> length buf' = length buf \<and>
           drop (bytes w * h) buf' = drop (bytes w * h) buf \<and>
           (\<forall>x<w. \<forall>y<h. pix w x y buf' = (if y = dy \<and> x \<in> set xs \<and> lit bm yy x then full else pix w x y buf))"
  using assms(4,5)
proof (induction xs arbitrary: buf)
  case Nil
  then show ?case by simp
next
  case (Cons xx xs)
  show ?case
  proof (cases "w \<le> xx")
    case True
    with Cons.IH [OF Cons.prems(1)] Cons.prems(2) show ?thesis by fastforce
  next
    case False
    obtain v where v: "glyph_at bm yy xx = Some v" using glyph_at_defined [OF assms(1,2)] Cons.prems(2) by auto
    have lit: "lit bm yy xx \<longleftrightarrow> v > 127" using v assms(2) Cons.prems(2) by (simp add: lit_def)
    obtain buf1 where b1: "(if v > 127 then put w xx dy buf else Some buf) = Some buf1" "length buf1 = length buf"
        "drop (bytes w * h) buf1 = drop (bytes w * h) buf"
      using put_defined [OF _ assms(3) Cons.prems(1), of xx] False by (cases "v > 127") auto
    have p1: "pix w x y buf1 = (if x = xx \<and> y = dy \<and> v > 127 then full else pix w x y buf)" if "x < w" "y < h" for x y
      using put_sets [OF _ assms(3) that Cons.prems(1), of xx buf1] b1(1) False by (cases "v > 127") auto
    obtain buf2 where b2: "draw_row put bm w yy dy xs buf1 = Some buf2" "length buf2 = length buf1"
        "drop (bytes w * h) buf2 = drop (bytes w * h) buf1"
        "\<forall>x<w. \<forall>y<h. pix w x y buf2 = (if y = dy \<and> x \<in> set xs \<and> lit bm yy x then full else pix w x y buf1)"
      using Cons.IH [of buf1] Cons.prems b1(2) by auto
    have "draw_row put bm w yy dy (xx # xs) buf = Some buf2" using False v b1(1) b2(1) by simp
    with b1(2,3) b2(2-4) p1 lit show ?thesis by (intro exI [of _ buf2]) auto
  qed
qed

lemma draw_rows_ok:
  assumes "glyph_gray bm" and "bytes w * h \<le> length buf" and "\<forall>y\<in>set ys. y < ft_rows bm"
  shows "\<exists>buf'. draw_rows put bm w h off_y ys buf = Some buf' \<and> length buf' = length buf \<and>
           drop (bytes w * h) buf' = drop (bytes w * h) buf \<and>
           (\<forall>x<w. \<forall>y<h. pix w x y buf' =
              (if \<exists>yy\<in>set ys. off_y + int yy = int y \<and> lit bm yy x then full else pix w x y buf))"
  using assms(2,3)
proof (induction ys arbitrary: buf)
  case Nil
  then show ?case by simp
next
  case (Cons yy ys)
  let ?dy = "off_y + int yy"
  have lx: "lit bm yy x \<Longrightarrow> x < ft_width bm" for x by (simp add: lit_def)
  show ?case
  proof (cases "?dy < 0 \<or> int h \<le> ?dy")
    case True
    then have "?dy \<noteq> int y" if "y < h" for y using that by auto
    with Cons.IH [OF Cons.prems(1)] Cons.prems(2) True show ?thesis by auto
  next
    case False
    then have dy: "nat ?dy < h" by auto
    obtain buf1 where b1: "draw_row put bm w yy (nat ?dy) [0..<ft_width bm] buf = Some buf1" "length buf1 = length buf"
        "drop (bytes w * h) buf1 = drop (bytes w * h) buf"
        "\<forall>x<w. \<forall>y<h. pix w x y buf1 = (if y = nat ?dy \<and> x \<in> set [0..<ft_width bm] \<and> lit bm yy x then full else pix w x y buf)"
      using draw_row_ok [OF assms(1) _ dy Cons.prems(1), of yy "[0..<ft_width bm]"] Cons.prems(2) by auto
    obtain buf2 where b2: "draw_rows put bm w h off_y ys buf1 = Some buf2" "length buf2 = length buf1"
        "drop (bytes w * h) buf2 = drop (bytes w * h) buf1"
        "\<forall>x<w. \<forall>y<h. pix w x y buf2 = (if \<exists>yy\<in>set ys. off_y + int yy = int y \<and> lit bm yy x then full else pix w x y buf1)"
      using Cons.IH [of buf1] Cons.prems b1(2) by auto
    have eq: "y = nat ?dy \<longleftrightarrow> ?dy = int y" for y using False by auto
    have "draw_rows put bm w h off_y (yy # ys) buf = Some buf2" using False b1(1) b2(1) by (simp add: Let_def)
    with b1(2-4) b2(2-4) lx show ?thesis by (intro exI [of _ buf2]) (auto simp: eq)
  qed
qed

text \<open>The whole picture, drawn on a blank plane.\<close>

lemma draw_picture:
  assumes "glyph_gray bm" and "buf = replicate (bytes w * h) 0 @ rest"
  shows "\<exists>buf'. draw_rows put bm w h off_y [0..<ft_rows bm] buf = Some (buf' @ rest) \<and> length buf' = bytes w * h \<and>
           (\<forall>x<w. \<forall>y<h. pix w x y (buf' @ rest) =
              (if 0 \<le> int y - off_y \<and> lit bm (nat (int y - off_y)) x then full else 0))"
proof -
  have le: "bytes w * h \<le> length buf" using assms(2) by simp
  have rows: "\<forall>y\<in>set [0..<ft_rows bm]. y < ft_rows bm" by simp
  obtain b where b: "draw_rows put bm w h off_y [0..<ft_rows bm] buf = Some b" "length b = length buf"
      "drop (bytes w * h) b = drop (bytes w * h) buf"
      "\<forall>x<w. \<forall>y<h. pix w x y b =
        (if \<exists>yy\<in>set [0..<ft_rows bm]. off_y + int yy = int y \<and> lit bm yy x then full else pix w x y buf)"
    using draw_rows_ok [OF assms(1) le rows, of off_y] by blast
  have "b = take (bytes w * h) b @ rest" using b(3) assms(2) append_take_drop_id [of "bytes w * h" b] by simp
  moreover have "length (take (bytes w * h) b) = bytes w * h" using b(2) assms(2) by simp
  moreover have "(\<exists>yy\<in>set [0..<ft_rows bm]. off_y + int yy = int y \<and> lit bm yy x) \<longleftrightarrow>
      0 \<le> int y - off_y \<and> lit bm (nat (int y - off_y)) x" for x y
  proof
    assume "0 \<le> int y - off_y \<and> lit bm (nat (int y - off_y)) x"
    then show "\<exists>yy\<in>set [0..<ft_rows bm]. off_y + int yy = int y \<and> lit bm yy x"
      by (intro bexI [of _ "nat (int y - off_y)"]) (auto simp: lit_def)
  next
    assume "\<exists>yy\<in>set [0..<ft_rows bm]. off_y + int yy = int y \<and> lit bm yy x"
    then obtain yy where "int y - off_y = int yy" "lit bm yy x" by force
    then show "0 \<le> int y - off_y \<and> lit bm (nat (int y - off_y)) x" by simp
  qed
  ultimately show ?thesis using b(1,4) pix_blank [of _ w _ h rest] assms(2)
    by (intro exI [of _ "take (bytes w * h) b"]) auto
qed

end

subsection \<open>The three formats\<close>

lemma put_pixel_plane:
  assumes "k * q = 8"
  shows "pixel_plane (put_pixel k q) (pixel k q) (row_bytes k) (mask k)"
proof
  show "pixel k q w x y (replicate (row_bytes k w * h) 0 @ rest) = 0" if "x < w" "y < h" for x w y h rest
    using pix_index_bound [OF assms that] by (simp add: pixel_def nth_append)
qed (rule put_pixel_frame [OF assms] pixel_put [OF assms]; assumption)+

lemma set_field_mask: "set_field k sh b = b OR push_bit sh (mask k)"
  by (rule bit_word_eqI) (auto simp: set_field_def bit_simps)

lemmas pixel_defs = put_pixel_def pix_index_def pix_shift_def row_bytes_def Let_def

lemma set_bit_1bpp_pixel: "set_bit_1bpp = put_pixel 1 8"
proof (intro ext)
  fix w x y buf
  have "mask 1 = (1 :: byte)" "8 - 1 = (7 :: nat)" by simp_all
  then show "set_bit_1bpp w x y buf = put_pixel 1 8 w x y buf"
    by (simp only: set_bit_1bpp_def pixel_defs set_field_mask mult_1_right)
qed

lemma set_pix_gray4_pixel: "put_gray 4 = put_pixel 4 2"
proof (intro ext)
  fix w x y buf
  have "mask 4 = (15 :: byte)" "2 - 1 = (1 :: nat)" by (simp_all add: mask_eq_exp_minus_1)
  then show "put_gray 4 w x y buf = put_pixel 4 2 w x y buf"
    by (simp only: put_gray_def set_pix_gray_def pixel_defs set_field_def if_True and.idem simp_thms)
qed

lemma set_pix_gray2_pixel: "put_gray 2 = put_pixel 2 4"
proof (intro ext)
  fix w x y buf
  have "mask 2 = (3 :: byte)" "4 - 1 = (3 :: nat)" "(2 :: nat) \<noteq> 4" by (simp_all add: mask_eq_exp_minus_1)
  then show "put_gray 2 w x y buf = put_pixel 2 4 w x y buf"
    by (simp only: put_gray_def set_pix_gray_def pixel_defs set_field_def if_True if_False and.idem simp_thms)
qed

text \<open>The helper of the source that nobody calls agrees with the branch that replaced it.\<close>

lemma set_pix_2bpp_gray: "set_pix_2bpp w x y v buf = set_pix_gray w x y 2 v buf"
proof -
  have "(2 :: nat) \<noteq> 4" by simp
  then show ?thesis by (simp only: set_pix_2bpp_def set_pix_gray_def Let_def if_True if_False simp_thms)
qed

interpretation mono_plane: pixel_plane set_bit_1bpp "pixel 1 8" "row_bytes 1" "mask 1"
  unfolding set_bit_1bpp_pixel by (rule put_pixel_plane) simp

interpretation gray4_plane: pixel_plane "put_gray 4" "pixel 4 2" "row_bytes 4" "mask 4"
  unfolding set_pix_gray4_pixel by (rule put_pixel_plane) simp

interpretation gray2_plane: pixel_plane "put_gray 2" "pixel 2 4" "row_bytes 2" "mask 2"
  unfolding set_pix_gray2_pixel by (rule put_pixel_plane) simp

section \<open>The pictures\<close>

text \<open>FreeType delivers the bitmap \<open>bm\<close> for a character at the height \<open>h\<close>.\<close>

definition renders :: "'face ft_api \<Rightarrow> 'face gt_state \<Rightarrow> nat \<Rightarrow> nat \<Rightarrow> 'face \<Rightarrow> ft_glyph \<Rightarrow> bool" where
  "renders ft s code h face bm \<longleftrightarrow> s_ft_ok s \<and>
     (case s_ft_face s of None \<Rightarrow> False
      | Some f \<Rightarrow> fst (ft_set_pixel_sizes ft f h) = 0 \<and>
                  ft_load_char ft (snd (ft_set_pixel_sizes ft f h)) code = (0, face) \<and> ft_slot ft face = bm)"

text \<open>The pixel of the picture: the bitmap is at the left, with its baseline at the ascender.\<close>

definition dot :: "int \<Rightarrow> nat \<Rightarrow> ft_glyph \<Rightarrow> nat \<Rightarrow> nat \<Rightarrow> bool" where
  "dot asc h bm x y = (let yy = int y - glyph_off_y asc h bm in 0 \<le> yy \<and> lit bm (nat yy) x)"

lemma poke_blank: "n \<le> length bits \<Longrightarrow> poke 0 (replicate n 0) bits = Some (replicate n 0 @ drop n bits)"
  by (simp add: poke_def)

lemma renders_cases:
  assumes "renders ft s code h face bm"
  obtains f f1 where "s_ft_ok s" "s_ft_face s = Some f" "ft_set_pixel_sizes ft f h = (0, f1)"
    "ft_load_char ft f1 code = (0, face)" "ft_slot ft face = bm"
  using assms by (auto simp: renders_def prod_eq_iff split: option.splits)

lemma get_font_draws:
  assumes "renders ft s code h face bm" and "glyph_gray bm" and "0 < w" and "0 < h"
    and "(w + 7) div 8 * h \<le> length bits"
  shows "\<exists>bits'. get_font ft (Some bits) code w h s =
             Some (glyph_adv w bm, Some (bits' @ drop ((w + 7) div 8 * h) bits), s\<lparr>s_ft_face := Some face\<rparr>) \<and>
           length bits' = (w + 7) div 8 * h \<and>
           (\<forall>x<w. \<forall>y<h. pixel 1 8 w x y (bits' @ drop ((w + 7) div 8 * h) bits) =
              (if dot (ft_ascender ft face) h bm x y then 1 else 0))"
proof -
  obtain f f1 where f: "s_ft_ok s" "s_ft_face s = Some f" "ft_set_pixel_sizes ft f h = (0, f1)"
    "ft_load_char ft f1 code = (0, face)" "ft_slot ft face = bm" by (rule renders_cases [OF assms(1)])
  have r: "row_bytes 1 w = (w + 7) div 8" by (simp add: row_bytes_def)
  from mono_plane.draw_picture [OF assms(2), of _ w h "drop ((w + 7) div 8 * h) bits"
      "glyph_off_y (ft_ascender ft face) h bm", unfolded r, OF refl]
  show ?thesis using f assms(3-5) by (auto simp: get_font_def poke_blank dot_def Let_def)
qed

lemma get_Font_Gray_draws:
  assumes "renders ft s code n face bm" and "glyph_gray bm" and "0 < n"
    and "(n + 7) div 8 * gray_bpp n * n \<le> length bits"
  shows "\<exists>bits'. get_Font_Gray ft (Some bits) code n s =
             Some ((glyph_adv n bm, gray_bpp n), Some (bits' @ drop ((n + 7) div 8 * gray_bpp n * n) bits),
               s\<lparr>s_ft_face := Some face\<rparr>) \<and>
           length bits' = (n + 7) div 8 * gray_bpp n * n \<and>
           (\<forall>x<n. \<forall>y<n. pixel (gray_bpp n) (8 div gray_bpp n) n x y (bits' @ drop ((n + 7) div 8 * gray_bpp n * n) bits) =
              (if dot (ft_ascender ft face) n bm x y then mask (gray_bpp n) else 0))"
proof -
  obtain f f1 where f: "s_ft_ok s" "s_ft_face s = Some f" "ft_set_pixel_sizes ft f n = (0, f1)"
    "ft_load_char ft f1 code = (0, face)" "ft_slot ft face = bm" by (rule renders_cases [OF assms(1)])
  have r: "row_bytes k w = (w + 7) div 8 * k" for k w by (simp add: row_bytes_def)
  let ?rest = "drop ((n + 7) div 8 * gray_bpp n * n) bits"
  let ?off = "glyph_off_y (ft_ascender ft face) n bm"
  have "\<exists>buf'. draw_rows (put_gray (gray_bpp n)) bm n n ?off [0..<ft_rows bm]
               (replicate ((n + 7) div 8 * gray_bpp n * n) 0 @ ?rest) = Some (buf' @ ?rest) \<and>
             length buf' = (n + 7) div 8 * gray_bpp n * n \<and>
             (\<forall>x<n. \<forall>y<n. pixel (gray_bpp n) (8 div gray_bpp n) n x y (buf' @ ?rest) =
                (if 0 \<le> int y - ?off \<and> lit bm (nat (int y - ?off)) x then mask (gray_bpp n) else 0))"
  proof (cases "gray_bpp n = 4")
    case True
    have d: "8 div 4 = (2 :: nat)" by simp
    show ?thesis unfolding True d by (rule gray4_plane.draw_picture [OF assms(2), unfolded r, OF refl])
  next
    case False
    then have t: "gray_bpp n = 2" by (simp add: gray_bpp_def split: if_splits)
    have d: "8 div 2 = (4 :: nat)" by simp
    show ?thesis unfolding t d by (rule gray2_plane.draw_picture [OF assms(2), unfolded r, OF refl])
  qed
  then show ?thesis using f assms(3,4) by (auto simp: get_Font_Gray_def poke_blank dot_def Let_def)
qed

text \<open>C14: \<open>get_font\<close> packs the picture of the character. When FreeType renders the character with one byte for each
  pixel, and the output buffer has room for \<open>height\<close> rows of \<open>(width + 7) / 8\<close> bytes, the call returns, and bit
  \<open>7 - x mod 8\<close> of byte \<open>x div 8\<close> of row \<open>y\<close> is set exactly if the pixel of the bitmap that the baseline puts there
  is brighter than 127. A bitmap that is larger than the cell, or above or below it, is cut; nothing
  is written behind the rows.\<close>

theorem gtfont_picture:
  assumes "renders ft s code height face bm" and "glyph_gray bm" and "0 < width" and "0 < height"
    and "(width + 7) div 8 * height \<le> length bits"
  shows "\<exists>bits' s'. get_font ft (Some bits) code width height s = Some (glyph_adv width bm, Some bits', s') \<and>
           length bits' = length bits \<and>
           drop ((width + 7) div 8 * height) bits' = drop ((width + 7) div 8 * height) bits \<and>
           (\<forall>x<width. \<forall>y<height. bit (bits' ! (y * ((width + 7) div 8) + x div 8)) (7 - x mod 8) \<longleftrightarrow>
              dot (ft_ascender ft face) height bm x y)"
proof -
  let ?n = "(width + 7) div 8 * height"
  obtain b where b: "get_font ft (Some bits) code width height s =
      Some (glyph_adv width bm, Some (b @ drop ?n bits), s\<lparr>s_ft_face := Some face\<rparr>)" "length b = ?n"
    "\<forall>x<width. \<forall>y<height. pixel 1 8 width x y (b @ drop ?n bits) = (if dot (ft_ascender ft face) height bm x y then 1 else 0)"
    using get_font_draws [OF assms] by blast
  have p: "pixel 1 8 w x y buf = of_bool (bit (buf ! (y * ((w + 7) div 8) + x div 8)) (7 - x mod 8))" for w x y buf
    by (simp add: pixel_def field_def pix_index_def pix_shift_def row_bytes_def take_bit_Suc bit_iff_odd_drop_bit mod2_eq_if)
  have "bit ((b @ drop ?n bits) ! (y * ((width + 7) div 8) + x div 8)) (7 - x mod 8) \<longleftrightarrow> dot (ft_ascender ft face) height bm x y"
    if "x < width" "y < height" for x y
    using b(3) that unfolding p by (auto split: if_splits)
  with b(1,2) assms(5) show ?thesis by auto
qed

definition demo_glyph :: ft_glyph where
  "demo_glyph = \<lparr> ft_rows = 2, ft_width = 3, ft_pitch = 4, ft_buffer = [200, 0, 255, 9, 0, 128, 127, 9], ft_top = 2, ft_advance = 200 \<rparr>"

definition demo_ft :: "unit ft_api" where
  "demo_ft = \<lparr> ft_init = 0, ft_new_face = \<lambda>_. (0, ()), ft_set_pixel_sizes = \<lambda>_ _. (0, ()), ft_load_char = \<lambda>_ _. (0, ()),
     ft_slot = \<lambda>_. demo_glyph, ft_ascender = \<lambda>_. 128 \<rparr>"

definition demo_gt :: "unit gt_state" where
  "demo_gt = \<lparr> s_ft_face = Some (), s_ft_ok = True \<rparr>"

lemmas demo_gt_defs = demo_glyph_def demo_ft_def demo_gt_def renders_def glyph_gray_def

theorem gtfont_picture_witness:
  "renders demo_ft demo_gt 65 2 () demo_glyph \<and> glyph_gray demo_glyph \<and>
   (\<exists>bits' s'. get_font demo_ft (Some [7, 7, 7]) 65 3 2 demo_gt = Some (glyph_adv 3 demo_glyph, Some bits', s') \<and>
      length bits' = 3 \<and> drop 2 bits' = [7])"
proof -
  have r: "renders demo_ft demo_gt 65 2 () demo_glyph" and g: "glyph_gray demo_glyph"
    by (simp_all add: demo_gt_defs)
  show ?thesis using gtfont_picture [OF r g, of 3 "[7, 7, 7]"] r g by auto
qed



section \<open>Sequences of calls\<close>

datatype gt_call = GtInit platform "string option" | GtFont "byte list option" nat nat nat | GtGray "byte list option" nat nat

fun gt_step :: "'face ft_api \<Rightarrow> (string \<Rightarrow> bool) \<Rightarrow> gt_call \<Rightarrow> 'face gt_state \<Rightarrow> 'face gt_state option" where
  "gt_step ft can_open (GtInit pl env) s = Some (snd (GT_Font_Init ft pl can_open env s))"
| "gt_step ft can_open (GtFont b code w h) s = map_option (snd \<circ> snd) (get_font ft b code w h s)"
| "gt_step ft can_open (GtGray b code n) s = map_option (snd \<circ> snd) (get_Font_Gray ft b code n s)"

fun gt_calls :: "'face ft_api \<Rightarrow> (string \<Rightarrow> bool) \<Rightarrow> gt_call list \<Rightarrow> 'face gt_state \<Rightarrow> 'face gt_state option" where
  "gt_calls ft can_open [] s = Some s"
| "gt_calls ft can_open (c # cs) s = Option.bind (gt_step ft can_open c s) (gt_calls ft can_open cs)"

text \<open>The buffers have room for the cells.\<close>

fun gt_room :: "gt_call \<Rightarrow> bool" where
  "gt_room (GtInit pl env) = True"
| "gt_room (GtFont b code w h) = (case b of None \<Rightarrow> True | Some bits \<Rightarrow> (w + 7) div 8 * h \<le> length bits)"
| "gt_room (GtGray b code n) = (case b of None \<Rightarrow> True | Some bits \<Rightarrow> (n + 7) div 8 * gray_bpp n * n \<le> length bits)"

definition gt_typed :: "'face gt_state \<Rightarrow> bool" where
  "gt_typed s \<longleftrightarrow> (s_ft_ok s \<longrightarrow> s_ft_face s \<noteq> None)"

lemma gt_init_typed: "gt_typed s \<Longrightarrow> gt_typed (snd (GT_Font_Init ft pl can_open env s))"
  by (auto simp: gt_typed_def GT_Font_Init_def Let_def split: option.splits prod.splits)

lemma get_font_typed:
  assumes "gt_typed s" and "\<forall>f. glyph_gray (ft_slot ft f)" and "gt_room (GtFont b code w h)"
  shows "\<exists>r b' s'. get_font ft b code w h s = Some (r, b', s') \<and> gt_typed s'"
proof (cases "b = None \<or> w = 0 \<or> h = 0 \<or> \<not> s_ft_ok s")
  case True
  with assms(1) show ?thesis by (auto simp: get_font_def split: option.splits)
next
  case False
  then obtain bits f where b: "b = Some bits" and f: "s_ft_face s = Some f" and ok: "s_ft_ok s" "0 < w" "0 < h"
    using assms(1) by (auto simp: gt_typed_def)
  obtain r1 f1 where f1: "ft_set_pixel_sizes ft f h = (r1, f1)" by fastforce
  obtain r2 f2 where f2: "ft_load_char ft f1 code = (r2, f2)" by fastforce
  show ?thesis
  proof (cases "r1 = 0 \<and> r2 = 0")
    case True
    then have "renders ft s code h f2 (ft_slot ft f2)" using ok f f1 f2 by (simp add: renders_def)
    from get_font_draws [OF this _ ok(2,3), of bits] assms(2,3) b show ?thesis by (auto simp: gt_typed_def)
  next
    case False
    then show ?thesis using assms(3) b f f1 f2 ok by (auto simp: get_font_def poke_blank gt_typed_def)
  qed
qed

lemma get_Font_Gray_typed:
  assumes "gt_typed s" and "\<forall>f. glyph_gray (ft_slot ft f)" and "gt_room (GtGray b code n)"
  shows "\<exists>r b' s'. get_Font_Gray ft b code n s = Some (r, b', s') \<and> gt_typed s'"
proof (cases "b = None \<or> n = 0 \<or> \<not> s_ft_ok s")
  case True
  with assms(1) show ?thesis by (auto simp: get_Font_Gray_def split: option.splits)
next
  case False
  then obtain bits f where b: "b = Some bits" and f: "s_ft_face s = Some f" and ok: "s_ft_ok s" "0 < n"
    using assms(1) by (auto simp: gt_typed_def)
  obtain r1 f1 where f1: "ft_set_pixel_sizes ft f n = (r1, f1)" by fastforce
  obtain r2 f2 where f2: "ft_load_char ft f1 code = (r2, f2)" by fastforce
  show ?thesis
  proof (cases "r1 = 0 \<and> r2 = 0")
    case True
    then have "renders ft s code n f2 (ft_slot ft f2)" using ok f f1 f2 by (simp add: renders_def)
    from get_Font_Gray_draws [OF this _ ok(2), of bits] assms(2,3) b show ?thesis by (auto simp: gt_typed_def)
  next
    case False
    then show ?thesis using assms(3) b f f1 f2 ok by (auto simp: get_Font_Gray_def poke_blank gt_typed_def Let_def)
  qed
qed

lemma gt_step_typed:
  assumes "gt_typed s" and "\<forall>f. glyph_gray (ft_slot ft f)" and "gt_room c"
  shows "\<exists>s'. gt_step ft can_open c s = Some s' \<and> gt_typed s'"
proof (cases c)
  case (GtInit pl env)
  with assms(1) show ?thesis by (simp add: gt_init_typed)
next
  case (GtFont b code w h)
  with get_font_typed [OF assms(1,2), of b code w h] assms(3) show ?thesis by fastforce
next
  case (GtGray b code n)
  with get_Font_Gray_typed [OF assms(1,2), of b code n] assms(3) show ?thesis by fastforce
qed



text \<open>A bitmap with one bit for each pixel, which FreeType delivers for a font with embedded bitmaps, does not
  satisfy the hypothesis: the loops read behind its end.\<close>

lemma gtfont_bitmap_font_undefined:
  "glyph_at \<lparr> ft_rows = 16, ft_width = 16, ft_pitch = 2, ft_buffer = replicate 32 255, ft_top = 14, ft_advance = 1024 \<rparr> 15 15 = None"
  by (simp add: glyph_at_def)

text \<open>The advance exceeds the width of the cell when the bitmap does.\<close>

lemma glyph_adv_exceeds: "w < ft_width bm \<Longrightarrow> w < glyph_adv w bm"
  by (simp add: glyph_adv_def Let_def)

end
