(* ===== verification/Ch347_Pc.thy ===== *)
theory Ch347_Pc
  imports Luatos_Prelude
begin

text \<open>
  The CH347 bridge of the Windows build, \<open>port/driver/luat_ch347_pc.c\<close>: the search for a device, and the
  I2C, SPI and GPIO functions that forward to the library of the manufacturer. The library is a record
  of functions on the state of the hardware. The functions that end without a return statement
  yield \<^const>\<open>None\<close> as their value, and an indeterminate argument is the undefined result \<^const>\<open>None\<close>.
\<close>

section \<open>The library and the state of the port\<close>

record spi_cfg =
  iMode :: nat
  iClock :: nat
  iByteOrder :: nat
  iChipSelect :: nat
  iSpiOutDefaultData :: nat

record 'd ch347_dll =
  CH347OpenDevice :: "nat \<Rightarrow> 'd \<Rightarrow> bool \<times> 'd" \<comment> \<open>whether the handle is valid\<close>
  CH347CloseDevice :: "nat \<Rightarrow> 'd \<Rightarrow> 'd"
  CH347GetDeviceInfor :: "nat \<Rightarrow> 'd \<Rightarrow> string"
  CH347SetTimeout :: "nat \<Rightarrow> nat \<Rightarrow> nat \<Rightarrow> 'd \<Rightarrow> 'd"
  CH347I2C_Set :: "nat \<Rightarrow> nat \<Rightarrow> 'd \<Rightarrow> int \<times> 'd"
  CH347StreamI2C :: "nat \<Rightarrow> byte list \<Rightarrow> nat \<Rightarrow> 'd \<Rightarrow> int \<times> byte list \<times> 'd"
  CH347SPI_Init :: "nat \<Rightarrow> spi_cfg \<Rightarrow> 'd \<Rightarrow> int \<times> 'd"
  CH347SPI_SetFrequency :: "nat \<Rightarrow> int \<Rightarrow> 'd \<Rightarrow> int \<times> 'd"
  CH347SPI_SetDataBits :: "nat \<Rightarrow> nat \<Rightarrow> 'd \<Rightarrow> int \<times> 'd"
  CH347SPI_Write :: "nat \<Rightarrow> nat \<Rightarrow> byte list \<Rightarrow> nat \<Rightarrow> 'd \<Rightarrow> int \<times> 'd"
  CH347SPI_Read :: "nat \<Rightarrow> nat \<Rightarrow> nat \<Rightarrow> 'd \<Rightarrow> int \<times> byte list \<times> 'd"
  CH347StreamSPI4 :: "nat \<Rightarrow> nat \<Rightarrow> byte list \<Rightarrow> 'd \<Rightarrow> int \<times> byte list \<times> 'd"
  CH347GPIO_Set :: "nat \<Rightarrow> byte \<Rightarrow> byte \<Rightarrow> byte \<Rightarrow> 'd \<Rightarrow> 'd"
  CH347GPIO_Get :: "nat \<Rightarrow> 'd \<Rightarrow> byte \<times> byte \<times> 'd"

record 'd ch347 =
  DevIsOpened :: bool
  DevIndex :: nat
  DevInfor :: "string list" \<comment> \<open>the 16 entries that were found\<close>
  s_Gpiostatus :: u16
  s_Gpiovalues :: u16
  s_Gpioflag :: byte
  s_SPIMode :: nat
  hardware :: 'd

definition ch347_start :: "'d \<Rightarrow> 'd ch347" where
  "ch347_start d = \<lparr> DevIsOpened = False, DevIndex = 0, DevInfor = replicate 16 [], s_Gpiostatus = 0, s_Gpiovalues = 0,
     s_Gpioflag = 0, s_SPIMode = 1, hardware = d \<rparr>"

section \<open>Opening the device\<close>

fun device_loop :: "'d ch347_dll \<Rightarrow> nat list \<Rightarrow> nat \<Rightarrow> 'd ch347 \<Rightarrow> nat \<times> 'd ch347" where
  "device_loop dll [] DevCnt s = (DevCnt, s)"
| "device_loop dll (i # is) DevCnt s =
     (let (ok, d) = CH347OpenDevice dll i (hardware s);
          s = s\<lparr>hardware := d\<rparr>;
          (DevCnt, s) =
            (if ok
             then (DevCnt + 1, s\<lparr>DevInfor := (DevInfor s)[DevCnt := CH347GetDeviceInfor dll i d],
                                 DevIndex := (if DevCnt = 0 then i else DevIndex s)\<rparr>)
             else (DevCnt, s))
      in device_loop dll is DevCnt (s\<lparr>hardware := CH347CloseDevice dll i (hardware s)\<rparr>))"

definition luat_ch347Device :: "'d ch347_dll \<Rightarrow> 'd ch347 \<Rightarrow> nat \<times> 'd ch347" where
  "luat_ch347Device dll s = device_loop dll [0..<16] 0 s"

definition Luat_OpenDevice :: "'d ch347_dll \<Rightarrow> 'd ch347 \<Rightarrow> bool \<times> 'd ch347" where
  "Luat_OpenDevice dll s =
     (let s = s\<lparr>DevIsOpened := False\<rparr>
      in if DevIndex s = 2 ^ 32 - 1 then (False, s)
         else let (ok, d) = CH347OpenDevice dll (DevIndex s) (hardware s);
                  d = (if ok then CH347SetTimeout dll (DevIndex s) 500 500 d else d)
              in (ok, s\<lparr>DevIsOpened := ok, hardware := d\<rparr>))"

text \<open>The library may be missing. Each of its functions is taken to be present when it is not.\<close>

definition luat_load_ch347 :: "'d ch347_dll option \<Rightarrow> 'd ch347 \<Rightarrow> int \<times> 'd ch347" where
  "luat_load_ch347 lib s =
     (case lib of None \<Rightarrow> (0, s)
      | Some dll \<Rightarrow>
        let (n, s) = luat_ch347Device dll s
        in if n = 0 then (0, s)
           else let (ok, s) = Luat_OpenDevice dll s in if \<not> ok then (0, s) else (1, s))"

section \<open>I2C\<close>

fun i2c_mode :: "int \<Rightarrow> nat option" where
  "i2c_mode speed =
     (if speed = 20000 then Some 0 else if speed = 100000 then Some 1
      else if speed = 400000 then Some 2 else if speed = 750000 then Some 3 else None)"

definition luat_ch347_i2c_setup :: "'d ch347_dll \<Rightarrow> int \<Rightarrow> int \<Rightarrow> 'd ch347 \<Rightarrow> (int \<times> 'd ch347) option" where
  "luat_ch347_i2c_setup dll bus speed s =
     (if bus = 0 then
        do { m \<leftarrow> i2c_mode speed;
             let (RetVal, d) = CH347I2C_Set dll (DevIndex s) m (hardware s);
             Some (RetVal, s\<lparr>hardware := d\<rparr>) }
      else Some (0, s))"

definition i2c_addr :: "int \<Rightarrow> bool \<Rightarrow> byte" where
  "i2c_addr a rd = of_int (2 * a) OR (if rd then 1 else 0)"

definition luat_ch347_i2c_send ::
    "'d ch347_dll \<Rightarrow> bool \<Rightarrow> int \<Rightarrow> int \<Rightarrow> byte list option \<Rightarrow> nat \<Rightarrow> 'd ch347 \<Rightarrow> (int \<times> 'd ch347) option" where
  "luat_ch347_i2c_send dll alloc bus a buff len s =
     (if bus = 0 then
        (case buff of None \<Rightarrow> Some (0, s)
         | Some b \<Rightarrow>
           if len = 0 then Some (0, s)
           else if \<not> alloc then Some (0, s)
           else do { xs \<leftarrow> peek 0 len b;
                     let (RetVal, _, d) = CH347StreamI2C dll (DevIndex s) (i2c_addr a False # xs) 0 (hardware s);
                     Some (RetVal, s\<lparr>hardware := d\<rparr>) })
      else Some (0, s))"

definition luat_ch347_i2c_recv ::
    "'d ch347_dll \<Rightarrow> bool \<Rightarrow> int \<Rightarrow> int \<Rightarrow> byte list option \<Rightarrow> nat \<Rightarrow> 'd ch347 \<Rightarrow> (int \<times> byte list option \<times> 'd ch347) option" where
  "luat_ch347_i2c_recv dll alloc bus a buff len s =
     (if bus = 0 then
        (case buff of None \<Rightarrow> Some (0, buff, s)
         | Some b \<Rightarrow>
           if len = 0 then Some (0, buff, s)
           else if \<not> alloc then Some (0, buff, s)
           else do { let (RetVal, xs, d) = CH347StreamI2C dll (DevIndex s) [i2c_addr a True] len (hardware s);
                     b \<leftarrow> (if RetVal \<noteq> 0 then poke 0 (take len xs) b else Some b);
                     Some (RetVal, Some b, s\<lparr>hardware := d\<rparr>) })
      else Some (0, buff, s))"

definition luat_ch347_i2c_transfer ::
    "'d ch347_dll \<Rightarrow> bool \<Rightarrow> int \<Rightarrow> int \<Rightarrow> byte list option \<Rightarrow> nat \<Rightarrow> byte list option \<Rightarrow> nat \<Rightarrow> 'd ch347 \<Rightarrow>
     (int \<times> byte list option \<times> 'd ch347) option" where
  "luat_ch347_i2c_transfer dll alloc bus a reg reg_len buff len s =
     (if bus = 0 then
        (case (reg, buff) of
           (Some r, Some b) \<Rightarrow>
             if reg_len = 0 \<or> len = 0 then Some (0, buff, s)
             else if \<not> alloc then Some (0, buff, s)
             else do { rs \<leftarrow> peek 0 reg_len r;
                       bs \<leftarrow> peek 0 len b;
                       let (RetVal, xs, d) = CH347StreamI2C dll (DevIndex s)
                         (i2c_addr a False # rs @ i2c_addr a True # bs) len (hardware s);
                       b \<leftarrow> (if RetVal \<noteq> 0 then poke 0 (take len xs) b else Some b);
                       Some (RetVal, Some b, s\<lparr>hardware := d\<rparr>) }
         | _ \<Rightarrow> Some (0, buff, s))
      else Some (0, buff, s))"

definition luat_ch347_i2c_no_block_transfer :: "int" where
  "luat_ch347_i2c_no_block_transfer = 1"

definition luat_ch347_i2c_close :: "int" where
  "luat_ch347_i2c_close = 1"

section \<open>SPI\<close>

definition spi_mode :: "int \<Rightarrow> int \<Rightarrow> nat" where
  "spi_mode CPHA CPOL =
     (if CPHA = 0 \<and> CPOL = 0 then 0 else if CPHA = 0 \<and> CPOL = 1 then 1
      else if CPHA = 1 \<and> CPOL = 0 then 2 else if CPHA = 1 \<and> CPOL = 1 then 3 else 3)"

definition luat_ch347_spi_setup ::
    "'d ch347_dll \<Rightarrow> int \<Rightarrow> int \<Rightarrow> int \<Rightarrow> int \<Rightarrow> int \<Rightarrow> int \<Rightarrow> nat \<Rightarrow> 'd ch347 \<Rightarrow> int \<times> 'd ch347" where
  "luat_ch347_spi_setup dll bus CPHA CPOL dataw bit_dict banrate mode s =
     (if bus = 0 then
        let s = s\<lparr>s_SPIMode := mode\<rparr>;
            cfg = \<lparr> iMode = spi_mode CPHA CPOL, iClock = 1, iByteOrder = (if bit_dict = 0 then 0 else 1),
                    iChipSelect = 0x80, iSpiOutDefaultData = 0xFF \<rparr>;
            (_, d) = CH347SPI_SetFrequency dll (DevIndex s) banrate (hardware s);
            (_, d) = CH347SPI_SetDataBits dll (DevIndex s) (if dataw = 16 then 1 else 0) d;
            (RetVal, d) = CH347SPI_Init dll (DevIndex s) cfg d
        in (RetVal, s\<lparr>hardware := d\<rparr>)
      else (0, s))"

definition luat_ch347_spi_recv ::
    "'d ch347_dll \<Rightarrow> int \<Rightarrow> byte list \<Rightarrow> nat \<Rightarrow> 'd ch347 \<Rightarrow> (int \<times> byte list \<times> 'd ch347) option" where
  "luat_ch347_spi_recv dll spi_id recv_buf len s =
     (if spi_id = 0 then
        do { let (RetVal, xs, d) = CH347SPI_Read dll (DevIndex s) 0x80 len (hardware s);
             recv_buf \<leftarrow> poke 0 xs recv_buf;
             Some (if RetVal \<noteq> 0 then int (length xs) else 0, recv_buf, s\<lparr>hardware := d\<rparr>) }
      else Some (0, recv_buf, s))"

definition spi_write :: "'d ch347_dll \<Rightarrow> nat \<Rightarrow> byte list \<Rightarrow> nat \<Rightarrow> 'd ch347 \<Rightarrow> (int \<times> 'd ch347) option" where
  "spi_write dll step send_buf len s =
     do { xs \<leftarrow> peek 0 len send_buf;
          let (RetVal, d) = CH347SPI_Write dll (DevIndex s) 0x80 xs step (hardware s);
          Some (if RetVal \<noteq> 0 then int len else 0, s\<lparr>hardware := d\<rparr>) }"

definition luat_ch347_spi_send :: "'d ch347_dll \<Rightarrow> int \<Rightarrow> byte list \<Rightarrow> nat \<Rightarrow> 'd ch347 \<Rightarrow> (int \<times> 'd ch347) option" where
  "luat_ch347_spi_send dll spi_id send_buf len s =
     (if spi_id = 0 then spi_write dll 0 send_buf len s else Some (0, s))"

definition luat_ch347_spi_transfer ::
    "'d ch347_dll \<Rightarrow> int \<Rightarrow> byte list \<Rightarrow> nat \<Rightarrow> byte list \<Rightarrow> nat \<Rightarrow> 'd ch347 \<Rightarrow> (int \<times> byte list \<times> 'd ch347) option" where
  "luat_ch347_spi_transfer dll spi_id send_buf send_length recv_buf recv_length s =
     (if spi_id = 0 then
        if send_length > 0 \<and> recv_length > 0 then
          if s_SPIMode s \<noteq> 0 then
            do { xs \<leftarrow> peek 0 send_length send_buf;
                 recv_buf \<leftarrow> poke 0 xs recv_buf;
                 let (RetVal, ys, d) = CH347StreamSPI4 dll (DevIndex s) 0x80 xs (hardware s);
                 recv_buf \<leftarrow> poke 0 ys recv_buf;
                 Some (if RetVal \<noteq> 0 then int recv_length else 0, recv_buf, s\<lparr>hardware := d\<rparr>) }
          else
            do { (_, s) \<leftarrow> spi_write dll 512 send_buf send_length s;
                 luat_ch347_spi_recv dll 0 recv_buf recv_length s }
        else if send_length > 0 then
          do { (r, s) \<leftarrow> spi_write dll 512 send_buf send_length s; Some (r, recv_buf, s) }
        else if recv_length > 0 then luat_ch347_spi_recv dll 0 recv_buf recv_length s
        else Some (0, recv_buf, s)
      else Some (0, recv_buf, s))"

definition luat_ch347_spi_change_speed :: "'d ch347_dll \<Rightarrow> int \<Rightarrow> int \<Rightarrow> 'd ch347 \<Rightarrow> int \<times> 'd ch347" where
  "luat_ch347_spi_change_speed dll spi_id speed s =
     (if spi_id = 0 then
        let (RetVal, d) = CH347SPI_SetFrequency dll (DevIndex s) speed (hardware s)
        in (if RetVal \<noteq> 0 then 1 else 0, s\<lparr>hardware := d\<rparr>)
      else (0, s))"

section \<open>GPIO\<close>

definition luat_ch347_gpio_get :: "'d ch347_dll \<Rightarrow> int \<Rightarrow> 'd ch347 \<Rightarrow> int \<times> 'd ch347" where
  "luat_ch347_gpio_get dll pin s =
     (let (iDir, iData, d) = CH347GPIO_Get dll (DevIndex s) (hardware s);
          s = s\<lparr>s_Gpiostatus := s_Gpiostatus s OR (0x8000 OR ucast iDir),
                s_Gpiovalues := s_Gpiovalues s OR (0x8000 OR ucast iData), hardware := d\<rparr>
      in (if 0 \<le> pin \<and> pin \<le> 7 then uint (drop_bit (nat pin) iData AND 0x01) else 1, s))"

definition gpio_refresh :: "'d ch347_dll \<Rightarrow> 'd ch347 \<Rightarrow> 'd ch347" where
  "gpio_refresh dll s =
     (if s_Gpiostatus s AND 0x8000 = 0 \<or> s_Gpiovalues s AND 0x8000 = 0 then snd (luat_ch347_gpio_get dll (- 1) s) else s)"

definition gpio_write_out :: "'d ch347_dll \<Rightarrow> 'd ch347 \<Rightarrow> 'd ch347" where
  "gpio_write_out dll s =
     s\<lparr>hardware := CH347GPIO_Set dll (DevIndex s) (s_Gpioflag s) (ucast (s_Gpiostatus s AND 0x00FF))
                     (ucast (s_Gpiovalues s AND 0x00FF)) (hardware s)\<rparr>"

definition luat_ch347_gpio_setup :: "'d ch347_dll \<Rightarrow> int \<Rightarrow> int \<Rightarrow> 'd ch347 \<Rightarrow> int option \<times> 'd ch347" where
  "luat_ch347_gpio_setup dll pin mode s =
     (if 0 \<le> pin \<and> pin \<le> 7 then
        let s = gpio_refresh dll s;
            s = s\<lparr>s_Gpioflag := s_Gpioflag s OR push_bit (nat pin) 1\<rparr>;
            s = (if mode = 0 then s\<lparr>s_Gpiostatus := s_Gpiostatus s OR push_bit (nat pin) 1\<rparr>
                 else s\<lparr>s_Gpiostatus := s_Gpiostatus s AND NOT (push_bit (nat pin) 1)\<rparr>)
        in (None, gpio_write_out dll s)
      else (Some 0, s))"

definition luat_ch347_gpio_set :: "'d ch347_dll \<Rightarrow> int \<Rightarrow> int \<Rightarrow> 'd ch347 \<Rightarrow> int option \<times> 'd ch347" where
  "luat_ch347_gpio_set dll pin level s =
     (if 0 \<le> pin \<and> pin \<le> 7 then
        let s = gpio_refresh dll s;
            s = (if level \<noteq> 0 then s\<lparr>s_Gpiovalues := s_Gpiovalues s OR push_bit (nat pin) 1\<rparr>
                 else s\<lparr>s_Gpiovalues := s_Gpiovalues s AND NOT (push_bit (nat pin) 1)\<rparr>)
        in (None, gpio_write_out dll s)
      else (Some 0, s))"

text \<open>The logical negation of C, which the source applies where the complement was meant.\<close>

definition c_not :: "nat \<Rightarrow> nat" where
  "c_not n = (if n = 0 then 1 else 0)"

definition luat_ch347_gpio_close :: "int \<Rightarrow> 'd ch347 \<Rightarrow> 'd ch347" where
  "luat_ch347_gpio_close pin s =
     (if 0 \<le> pin \<and> pin \<le> 7 then s\<lparr>s_Gpioflag := s_Gpioflag s AND of_nat (c_not (2 ^ nat pin))\<rparr> else s)"

section \<open>The search for a device\<close>

text \<open>The library opens exactly the devices that are plugged in, and closing and describing a device does not
  change that.\<close>

definition ch347_plugged :: "'d ch347_dll \<Rightarrow> (nat \<Rightarrow> bool) \<Rightarrow> (nat \<Rightarrow> string) \<Rightarrow> bool" where
  "ch347_plugged dll plugged info \<longleftrightarrow>
     (\<forall>i d. fst (CH347OpenDevice dll i d) = plugged i) \<and> (\<forall>i d. CH347GetDeviceInfor dll i d = info i)"

lemma device_loop_finds:
  assumes "ch347_plugged dll plugged info" and "device_loop dll is n s = (m, s')" and "length (DevInfor s) = 16"
    and "n + length is \<le> 16"
  shows "m = n + length (filter plugged is)"
    and "length (DevInfor s') = 16"
    and "take m (DevInfor s') = take n (DevInfor s) @ map info (filter plugged is)"
    and "DevIndex s' = (if n = 0 \<and> filter plugged is \<noteq> [] then hd (filter plugged is) else DevIndex s)"
    and "DevIsOpened s' = DevIsOpened s"
proof -
  have "m = n + length (filter plugged is) \<and> length (DevInfor s') = 16 \<and>
      take m (DevInfor s') = take n (DevInfor s) @ map info (filter plugged is) \<and>
      DevIndex s' = (if n = 0 \<and> filter plugged is \<noteq> [] then hd (filter plugged is) else DevIndex s) \<and>
      DevIsOpened s' = DevIsOpened s"
    using assms(2-4)
  proof (induction "is" arbitrary: n s)
    case Nil
    then show ?case by simp
  next
    case (Cons i "is")
    obtain ok d where o: "CH347OpenDevice dll i (hardware s) = (ok, d)" by fastforce
    have ok: "ok = plugged i" and info: "CH347GetDeviceInfor dll i d = info i"
      using assms(1) o unfolding ch347_plugged_def by (metis fst_conv)+
    show ?case
    proof (cases "plugged i")
      case True
      with Cons.IH [of "n + 1"] Cons.prems o ok info show ?thesis
        by (auto simp: Let_def take_Suc_conv_app_nth split: if_splits)
    next
      case False
      with Cons.IH [of n] Cons.prems o ok show ?thesis by (auto simp: Let_def split: if_splits)
    qed
  qed
  then show "m = n + length (filter plugged is)"
    and "length (DevInfor s') = 16"
    and "take m (DevInfor s') = take n (DevInfor s) @ map info (filter plugged is)"
    and "DevIndex s' = (if n = 0 \<and> filter plugged is \<noteq> [] then hd (filter plugged is) else DevIndex s)"
    and "DevIsOpened s' = DevIsOpened s"
    by blast+
qed

text \<open>\<open>luat_load_ch347\<close> opens the first device. When the library is there and opens exactly the devices that are
  plugged in, the call returns 1 if one of the 16 indices has a device, and then the device with the
  smallest index is selected and open and the table begins with the descriptions of all devices in
  ascending order; without a device, the call returns 0 and the port does not become
  open.\<close>

theorem ch347_opens_first:
  assumes "ch347_plugged dll plugged info" and "length (DevInfor s) = 16" and "luat_load_ch347 (Some dll) s = (r, s')"
  shows "if \<exists>i<16. plugged i
         then r = 1 \<and> DevIsOpened s' \<and> plugged (DevIndex s') \<and> (\<forall>i < DevIndex s'. \<not> plugged i) \<and>
              take (length (filter plugged [0..<16])) (DevInfor s') = map info (filter plugged [0..<16])
         else r = 0 \<and> DevIsOpened s' = DevIsOpened s"
proof -
  obtain m s1 where l: "device_loop dll [0..<16] 0 s = (m, s1)" by fastforce
  note f = device_loop_finds [OF assms(1) l assms(2)]
  let ?ps = "filter plugged [0..<16]"
  show ?thesis
  proof (cases "?ps = []")
    case True
    then have "\<not> (\<exists>i<16. plugged i)" by (auto simp: filter_empty_conv)
    with assms(3) l f True show ?thesis by (auto simp: luat_load_ch347_def luat_ch347Device_def)
  next
    case False
    then obtain p ps where ps: "?ps = p # ps" by (cases ?ps) auto
    then have "p \<in> set ?ps" by simp
    then have p: "plugged p" "p < 16" by auto
    have "sorted ?ps" by (rule sorted_wrt_filter) simp
    with ps have le: "\<forall>q\<in>set ?ps. p \<le> q" by auto
    have least: "\<not> plugged i" if "i < p" for i
    proof
      assume "plugged i"
      then have "i \<in> set ?ps" using that p(2) by simp
      with le that show False by fastforce
    qed
    have idx: "DevIndex s1 = p" and m: "m = length ?ps" using f(1,4) ps by auto
    obtain ok d where o: "CH347OpenDevice dll p (hardware s1) = (ok, d)" by fastforce
    have ok using assms(1) o p(1) unfolding ch347_plugged_def by (metis fst_conv)
    with assms(3) l m ps idx o p(2) have "r = 1" "DevIsOpened s'" "DevIndex s' = p" "DevInfor s' = DevInfor s1"
      by (auto simp: luat_load_ch347_def luat_ch347Device_def Luat_OpenDevice_def Let_def)
    with p least f(3) m show ?thesis by auto
  qed
qed

definition demo_dll :: "unit ch347_dll" where
  "demo_dll = \<lparr> CH347OpenDevice = \<lambda>i _. (i \<in> {3, 7}, ()), CH347CloseDevice = \<lambda>_ _. (), CH347GetDeviceInfor = \<lambda>_ _. ''CH347'',
     CH347SetTimeout = \<lambda>_ _ _ _. (), CH347I2C_Set = \<lambda>_ _ _. (1, ()), CH347StreamI2C = \<lambda>_ _ n _. (1, replicate n 0, ()),
     CH347SPI_Init = \<lambda>_ _ _. (1, ()), CH347SPI_SetFrequency = \<lambda>_ _ _. (1, ()), CH347SPI_SetDataBits = \<lambda>_ _ _. (1, ()),
     CH347SPI_Write = \<lambda>_ _ _ _ _. (1, ()), CH347SPI_Read = \<lambda>_ _ n _. (1, replicate n 0, ()),
     CH347StreamSPI4 = \<lambda>_ _ xs _. (1, xs, ()), CH347GPIO_Set = \<lambda>_ _ _ _ _. (), CH347GPIO_Get = \<lambda>_ _. (0, 0, ()) \<rparr>"

theorem ch347_opens_first_witness:
  "ch347_plugged demo_dll (\<lambda>i. i \<in> {3, 7}) (\<lambda>_. ''CH347'') \<and>
   (\<exists>s'. luat_load_ch347 (Some demo_dll) (ch347_start ()) = (1, s') \<and> DevIsOpened s' \<and> DevIndex s' = 3)"
proof -
  have d: "ch347_plugged demo_dll (\<lambda>i. i \<in> {3, 7}) (\<lambda>_. ''CH347'')" by (simp add: ch347_plugged_def demo_dll_def)
  have l: "length (DevInfor (ch347_start ())) = 16" by (simp add: ch347_start_def)
  obtain r s' where r: "luat_load_ch347 (Some demo_dll) (ch347_start ()) = (r, s')" by fastforce
  have e: "\<exists>i<16. i \<in> {3, 7 :: nat}" by (intro exI [of _ 3]) simp
  have "r = 1 \<and> DevIsOpened s' \<and> DevIndex s' \<in> {3, 7} \<and> (\<forall>i < DevIndex s'. i \<notin> {3, 7})"
    using ch347_opens_first [OF d l r] e by (simp only: if_True) blast
  moreover from this have "\<not> 3 < DevIndex s'" by blast
  ultimately have "r = 1" "DevIsOpened s'" "DevIndex s' = 3" by auto
  with r d show ?thesis by blast
qed

section \<open>The pins\<close>

text \<open>The library as its manual describes it: \<open>dir\<close> and \<open>out\<close> are the direction and the output register of the
  chip. A write changes the pins of the mask only; a read yields the directions and the levels,
  and the level of an output pin is the one of the output register.\<close>

definition ch347_gpio_documented :: "'d ch347_dll \<Rightarrow> ('d \<Rightarrow> byte) \<Rightarrow> ('d \<Rightarrow> byte) \<Rightarrow> bool" where
  "ch347_gpio_documented dll dir out \<longleftrightarrow>
     (\<forall>i en dr dt d p. bit (dir (CH347GPIO_Set dll i en dr dt d)) p = (if bit en p then bit dr p else bit (dir d) p)) \<and>
     (\<forall>i en dr dt d p. bit (out (CH347GPIO_Set dll i en dr dt d)) p = (if bit en p then bit dt p else bit (out d) p)) \<and>
     (\<forall>i d iDir iData d'. CH347GPIO_Get dll i d = (iDir, iData, d') \<longrightarrow>
        iDir = dir d \<and> dir d' = dir d \<and> out d' = out d \<and> (\<forall>p. bit (dir d) p \<longrightarrow> bit iData p = bit (out d) p))"

lemma gpio_set_dir: "ch347_gpio_documented dll dir out \<Longrightarrow>
    bit (dir (CH347GPIO_Set dll i en dr dt d)) p = (if bit en p then bit dr p else bit (dir d) p)"
  unfolding ch347_gpio_documented_def by blast

lemma gpio_set_out: "ch347_gpio_documented dll dir out \<Longrightarrow>
    bit (out (CH347GPIO_Set dll i en dr dt d)) p = (if bit en p then bit dt p else bit (out d) p)"
  unfolding ch347_gpio_documented_def by blast

lemma gpio_get_doc: "ch347_gpio_documented dll dir out \<Longrightarrow> CH347GPIO_Get dll i d = (iDir, iData, d') \<Longrightarrow>
    iDir = dir d \<and> dir d' = dir d \<and> out d' = out d \<and> (\<forall>p. bit (dir d) p \<longrightarrow> bit iData p = bit (out d) p)"
  unfolding ch347_gpio_documented_def by blast

text \<open>The pin \<open>p\<close> is an output with the level \<open>v\<close>, in the registers of the chip and in their copies.\<close>

definition drives :: "('d \<Rightarrow> byte) \<Rightarrow> ('d \<Rightarrow> byte) \<Rightarrow> nat \<Rightarrow> bool \<Rightarrow> 'd ch347 \<Rightarrow> bool" where
  "drives dir out p v s \<longleftrightarrow> bit (s_Gpioflag s) p \<and> bit (s_Gpiostatus s) p \<and> bit (s_Gpiovalues s) p = v \<and>
     bit (dir (hardware s)) p \<and> bit (out (hardware s)) p = v"

lemma bit_low_byte: "p < 8 \<Longrightarrow> bit (ucast (x AND 0xFF) :: byte) p = bit (x :: u16) p"
proof -
  assume p: "p < 8"
  have m: "(0xFF :: u16) = mask 8" by (simp add: mask_eq_exp_minus_1)
  show ?thesis unfolding m using p by (simp only: bit_unsigned_iff bit_and_iff bit_mask_iff) simp
qed

lemma bit_0x8000: "p < 8 \<Longrightarrow> \<not> bit (0x8000 :: u16) p"
proof -
  assume p: "p < 8"
  have "(0x8000 :: u16) = push_bit 15 1" by simp
  with p show ?thesis by (simp only: bit_push_bit_iff) simp
qed

lemma gpio_write_out_regs:
  assumes "ch347_gpio_documented dll dir out" and "p < 8"
  shows "bit (dir (hardware (gpio_write_out dll s))) p =
           (if bit (s_Gpioflag s) p then bit (s_Gpiostatus s) p else bit (dir (hardware s)) p)"
    and "bit (out (hardware (gpio_write_out dll s))) p =
           (if bit (s_Gpioflag s) p then bit (s_Gpiovalues s) p else bit (out (hardware s)) p)"
  using assms(2) by (simp_all add: gpio_write_out_def gpio_set_dir [OF assms(1)] gpio_set_out [OF assms(1)] bit_low_byte)

lemma gpio_get_regs:
  fixes s :: "'d ch347" and pin :: int
  assumes "ch347_gpio_documented dll dir out" and "p < 8"
  defines "s' \<equiv> snd (luat_ch347_gpio_get dll pin s)"
  shows "s_Gpioflag s' = s_Gpioflag s" and "dir (hardware s') = dir (hardware s)" and "out (hardware s') = out (hardware s)"
    and "bit (s_Gpiostatus s') p = (bit (s_Gpiostatus s) p \<or> bit (dir (hardware s)) p)"
    and "bit (dir (hardware s)) p \<Longrightarrow> bit (s_Gpiovalues s') p = (bit (s_Gpiovalues s) p \<or> bit (out (hardware s)) p)"
proof -
  obtain iDir iData d where g: "CH347GPIO_Get dll (DevIndex s) (hardware s) = (iDir, iData, d)" by (metis prod_cases3)
  note doc = gpio_get_doc [OF assms(1) g]
  have s': "s_Gpioflag s' = s_Gpioflag s" "hardware s' = d"
    "s_Gpiostatus s' = s_Gpiostatus s OR (0x8000 OR ucast iDir)" "s_Gpiovalues s' = s_Gpiovalues s OR (0x8000 OR ucast iData)"
    using g by (simp_all add: s'_def luat_ch347_gpio_get_def)
  show "s_Gpioflag s' = s_Gpioflag s" "dir (hardware s') = dir (hardware s)" "out (hardware s') = out (hardware s)"
    using s' doc by simp_all
  show "bit (s_Gpiostatus s') p = (bit (s_Gpiostatus s) p \<or> bit (dir (hardware s)) p)"
    using s'(3) doc assms(2) bit_0x8000 [of p] by (simp only: bit_or_iff bit_unsigned_iff) simp
  show "bit (s_Gpiovalues s') p = (bit (s_Gpiovalues s) p \<or> bit (out (hardware s)) p)" if "bit (dir (hardware s)) p"
    using s'(4) doc assms(2) that bit_0x8000 [of p] by (simp only: bit_or_iff bit_unsigned_iff) simp
qed

lemma gpio_refresh_flag: "s_Gpioflag (gpio_refresh dll s) = s_Gpioflag s"
  by (simp add: gpio_refresh_def luat_ch347_gpio_get_def split: prod.splits)

lemma gpio_get_drives:
  assumes "ch347_gpio_documented dll dir out" and "p < 8" and "drives dir out p v s"
  shows "drives dir out p v (snd (luat_ch347_gpio_get dll pin s))"
  using gpio_get_regs [OF assms(1,2), where pin = pin and s = s] assms(3) unfolding drives_def by simp

lemma gpio_refresh_drives:
  assumes "ch347_gpio_documented dll dir out" and "p < 8" and "drives dir out p v s"
  shows "drives dir out p v (gpio_refresh dll s)"
  using gpio_get_drives [OF assms] assms(3) by (simp add: gpio_refresh_def)

datatype ch347_op = ChSetup int int | ChSet int int | ChGet int

fun ch347_exec :: "'d ch347_dll \<Rightarrow> ch347_op \<Rightarrow> 'd ch347 \<Rightarrow> 'd ch347" where
  "ch347_exec dll (ChSetup pin mode) s = snd (luat_ch347_gpio_setup dll pin mode s)"
| "ch347_exec dll (ChSet pin level) s = snd (luat_ch347_gpio_set dll pin level s)"
| "ch347_exec dll (ChGet pin) s = snd (luat_ch347_gpio_get dll pin s)"

fun ch347_pin :: "ch347_op \<Rightarrow> int option" where
  "ch347_pin (ChSetup pin mode) = Some pin"
| "ch347_pin (ChSet pin level) = Some pin"
| "ch347_pin (ChGet pin) = None"

lemma drives_write_out:
  assumes "ch347_gpio_documented dll dir out" and "p < 8"
    and "bit (s_Gpioflag s) p" and "bit (s_Gpiostatus s) p" and "bit (s_Gpiovalues s) p = v"
  shows "drives dir out p v (gpio_write_out dll s)"
  using gpio_write_out_regs [OF assms(1,2), of s] assms(3-5)
  by (simp add: drives_def) (simp add: gpio_write_out_def)

lemma bit_set_pin: "p < LENGTH('a) \<Longrightarrow> 0 \<le> pin \<Longrightarrow> bit (x OR 2 ^ nat pin :: 'a::len word) p = (bit x p \<or> pin = int p)"
  by (auto simp: bit_simps)

lemma bit_clear_pin: "p < LENGTH('a) \<Longrightarrow> 0 \<le> pin \<Longrightarrow> bit (x AND NOT (2 ^ nat pin) :: 'a::len word) p = (bit x p \<and> pin \<noteq> int p)"
  by (auto simp: bit_simps)

lemma bit_own_pin: "p < LENGTH('a) \<Longrightarrow> bit (x OR 2 ^ p :: 'a::len word) p" "\<not> bit (x AND NOT (2 ^ p) :: 'a::len word) p"
  by (auto simp: bit_simps)

lemma exec_drives:
  assumes "ch347_gpio_documented dll dir out" and "p < 8" and "drives dir out p v s" and "ch347_pin op \<noteq> Some (int p)"
  shows "drives dir out p v (ch347_exec dll op s)"
proof -
  note r = gpio_refresh_drives [OF assms(1-3), unfolded drives_def]
  show ?thesis
  proof (cases op)
    case (ChSetup pin mode)
    with assms(2-4) r show ?thesis
      by (auto simp: luat_ch347_gpio_setup_def Let_def bit_set_pin bit_clear_pin intro!: drives_write_out [OF assms(1,2)])
  next
    case (ChSet pin level)
    with assms(2-4) r show ?thesis
      by (auto simp: luat_ch347_gpio_set_def Let_def bit_set_pin bit_clear_pin intro!: drives_write_out [OF assms(1,2)])
  next
    case (ChGet pin)
    with gpio_get_drives [OF assms(1-3)] show ?thesis by simp
  qed
qed

text \<open>C35: An output pin of the bridge keeps its level. After a pin was set up as an output and set to a level, whatever
  the state was before, the chip drives that pin with that level, and it goes on to do so during any
  sequence of calls that set up, set and read other pins, although the port reads the registers back and
  merges them into its copies.\<close>

theorem ch347_gpio_drives:
  fixes level :: int
  assumes "ch347_gpio_documented dll dir out" and "p < 8" and "list_all (\<lambda>op. ch347_pin op \<noteq> Some (int p)) ops"
  defines "s1 \<equiv> \<lambda>s. snd (luat_ch347_gpio_set dll (int p) level (snd (luat_ch347_gpio_setup dll (int p) 0 s)))"
  shows "bit (dir (hardware (fold (ch347_exec dll) ops (s1 s)))) p \<and>
         bit (out (hardware (fold (ch347_exec dll) ops (s1 s)))) p = (level \<noteq> 0)"
proof -
  let ?s0 = "snd (luat_ch347_gpio_setup dll (int p) 0 s)"
  have "drives dir out p (bit (s_Gpiovalues (gpio_refresh dll s)) p) ?s0"
    using assms(2) by (auto simp: luat_ch347_gpio_setup_def Let_def bit_own_pin intro!: drives_write_out [OF assms(1,2)])
  then obtain v where "drives dir out p v (gpio_refresh dll ?s0)" using gpio_refresh_drives [OF assms(1,2)] by blast
  then have "drives dir out p (level \<noteq> 0) (s1 s)"
    using assms(2) unfolding s1_def luat_ch347_gpio_set_def
    by (auto simp: Let_def drives_def [of _ _ _ v] bit_own_pin intro!: drives_write_out [OF assms(1,2)])
  moreover have "drives dir out p v s \<Longrightarrow> drives dir out p v (fold (ch347_exec dll) ops s)" for v s
    using assms(3) exec_drives [OF assms(1,2)] by (induction ops arbitrary: s) auto
  ultimately show ?thesis by (simp add: drives_def)
qed

text \<open>A chip with eight pins whose inputs read as 0.\<close>

definition pins_dll :: "(byte \<times> byte) ch347_dll" where
  "pins_dll = \<lparr> CH347OpenDevice = \<lambda>i d. (True, d), CH347CloseDevice = \<lambda>_ d. d, CH347GetDeviceInfor = \<lambda>_ _. ''CH347'',
     CH347SetTimeout = \<lambda>_ _ _ d. d, CH347I2C_Set = \<lambda>_ _ d. (1, d), CH347StreamI2C = \<lambda>_ _ n d. (1, replicate n 0, d),
     CH347SPI_Init = \<lambda>_ _ d. (1, d), CH347SPI_SetFrequency = \<lambda>_ _ d. (1, d), CH347SPI_SetDataBits = \<lambda>_ _ d. (1, d),
     CH347SPI_Write = \<lambda>_ _ _ _ d. (1, d), CH347SPI_Read = \<lambda>_ _ n d. (1, replicate n 0, d),
     CH347StreamSPI4 = \<lambda>_ _ xs d. (1, xs, d),
     CH347GPIO_Set = \<lambda>_ en dr dt d. ((fst d AND NOT en) OR (dr AND en), (snd d AND NOT en) OR (dt AND en)),
     CH347GPIO_Get = \<lambda>_ d. (fst d, fst d AND snd d, d) \<rparr>"

lemma pins_dll_documented: "ch347_gpio_documented pins_dll fst snd"
  by (auto simp: ch347_gpio_documented_def pins_dll_def bit_simps dest: bit_imp_le_length)

theorem ch347_gpio_drives_witness:
  "ch347_gpio_documented pins_dll fst snd \<and>
   bit (snd (hardware (fold (ch347_exec pins_dll) [ChSetup 3 1, ChSet 4 0, ChGet 2]
     (snd (luat_ch347_gpio_set pins_dll 2 1 (snd (luat_ch347_gpio_setup pins_dll 2 0 (ch347_start (0, 0))))))))) 2"
  using ch347_gpio_drives [OF pins_dll_documented, of 2 "[ChSetup 3 1, ChSet 4 0, ChGet 2]" 1 "ch347_start (0, 0)"]
    pins_dll_documented by simp

text \<open>Closing one pin of the bridge disables all of them. After \<open>luat_ch347_gpio_close\<close> on any pin, setting any pin,
  also one that is an output and was never closed, changes neither a direction nor a level of the chip,
  because the source clears the mask of the active pins with a logical negation instead of a
  complement.\<close>

theorem ch347_gpio_close_all:
  fixes pin level :: int
  assumes "ch347_gpio_documented dll dir out" and "0 \<le> closed" and "closed \<le> 7"
  defines "s' \<equiv> \<lambda>s. snd (luat_ch347_gpio_set dll pin level (luat_ch347_gpio_close closed s))"
  shows "dir (hardware (s' s)) = dir (hardware s) \<and> out (hardware (s' s)) = out (hardware s)"
proof -
  let ?c = "luat_ch347_gpio_close closed s"
  have flag: "s_Gpioflag ?c = 0" and hw: "hardware ?c = hardware s"
    using assms(2,3) by (simp_all add: luat_ch347_gpio_close_def c_not_def)
  have d: "dir (hardware (gpio_refresh dll ?c)) = dir (hardware s)" "out (hardware (gpio_refresh dll ?c)) = out (hardware s)"
    using gpio_get_regs(2,3) [OF assms(1), of 0, where s = ?c] hw by (simp_all add: gpio_refresh_def)
  have w: "dir (hardware (gpio_write_out dll t)) = dir (hardware t) \<and> out (hardware (gpio_write_out dll t)) = out (hardware t)"
    if "s_Gpioflag t = 0" for t
    using that by (auto intro!: bit_word_eqI simp: gpio_write_out_regs [OF assms(1)])
  show ?thesis using d hw w flag unfolding s'_def luat_ch347_gpio_set_def
    by (simp add: Let_def gpio_refresh_flag)
qed

theorem ch347_gpio_close_all_witness:
  "ch347_gpio_documented pins_dll fst snd \<and>
   snd (hardware (snd (luat_ch347_gpio_set pins_dll 2 1 (luat_ch347_gpio_close 5 (ch347_start (4, 0)))))) = 0"
  using ch347_gpio_close_all [OF pins_dll_documented, of 5 2 1 "ch347_start (4, 0)"] pins_dll_documented
  by (simp add: ch347_start_def)

section \<open>The other buses\<close>

text \<open>A register read writes first: the frame that \<open>luat_ch347_i2c_transfer\<close> sends continues after the register with the
  address byte of the read and the old contents of the receive buffer.\<close>

lemma i2c_transfer_frame:
  assumes "reg_len = length r" and "len = length b" and "r \<noteq> []" and "b \<noteq> []"
    and "CH347StreamI2C dll (DevIndex s) (i2c_addr a False # r @ i2c_addr a True # b) len (hardware s) = (1, xs, d)" and "length xs = len"
  shows "luat_ch347_i2c_transfer dll True 0 a (Some r) reg_len (Some b) len s = Some (1, Some xs, s\<lparr>hardware := d\<rparr>)"
  using assms by (simp add: luat_ch347_i2c_transfer_def peek_def poke_def)

text \<open>With a clock polarity of 1 and a phase of 0 the bus has mode 2 by convention; the port selects mode 1.\<close>

lemma spi_mode_swapped: "spi_mode 0 1 = 1 \<and> spi_mode 1 0 = 2"
  by (simp add: spi_mode_def)

text \<open>A full-duplex transfer that sends more than it receives writes behind the receive buffer.\<close>

lemma spi_transfer_overrun:
  assumes "s_SPIMode s \<noteq> 0" and "0 < recv_length" and "recv_length = length recv_buf" and "recv_length < send_length"
  shows "luat_ch347_spi_transfer dll 0 send_buf send_length recv_buf recv_length s = None"
  using assms by (auto simp: luat_ch347_spi_transfer_def peek_def poke_def)

lemma i2c_setup_other_speed: "speed \<notin> {20000, 100000, 400000, 750000} \<Longrightarrow> luat_ch347_i2c_setup dll 0 speed s = None"
  by (simp add: luat_ch347_i2c_setup_def)

end
