(* ===== verification/Buses_Pc.thy ===== *)
theory Buses_Pc
  imports Ch347_Pc Gpio_Pc
begin

text \<open>
  The simulated buses: SPI (\<open>port/driver/luat_spi_pc.c\<close> and \<open>luat_spi_device.c\<close>), I2C (\<open>luat_i2c_pc.c\<close>) and I2S
  (\<open>luat_i2s_pc.c\<close>). The Windows build forwards SPI and I2C to the CH347 bridge when one is
  open; the other builds have no bridge.
\<close>

section \<open>The build\<close>

datatype 'd build = Posix | Windows "'d ch347_dll option"

text \<open>The bridge is loaded on the first setup, and used while it is open.\<close>

definition need_bridge :: "'d build \<Rightarrow> 'd ch347 \<Rightarrow> 'd ch347" where
  "need_bridge bld c = (case bld of Posix \<Rightarrow> c
     | Windows lib \<Rightarrow> if DevIsOpened c then c else snd (luat_load_ch347 lib c))"

definition open_bridge :: "'d build \<Rightarrow> 'd ch347 \<Rightarrow> 'd ch347_dll option" where
  "open_bridge bld c = (case bld of Posix \<Rightarrow> None | Windows lib \<Rightarrow> if DevIsOpened c then lib else None)"

section \<open>SPI\<close>

record luat_spi =
  spi_id :: int
  spi_CPHA :: int
  spi_CPOL :: int
  spi_dataw :: int
  spi_bit_dict :: int
  spi_bandrate :: int
  spi_cs :: int
  spi_duplex :: nat

record win32spi =
  ws_spi :: luat_spi
  ws_open :: bool

record 'd spi_state =
  win32spis :: "nat \<Rightarrow> win32spi" \<comment> \<open>\<open>LUAT_WIN32_SPI_COUNT\<close> entries\<close>
  bridge :: "'d ch347"

definition spi_valid :: "int \<Rightarrow> bool" where
  "spi_valid n \<longleftrightarrow> \<not> (n < 0 \<or> n \<ge> 3)"

definition spi_enter :: "int \<Rightarrow> luat_spi \<Rightarrow> 'd spi_state \<Rightarrow> 'd spi_state" where
  "spi_enter n spi s = s\<lparr>win32spis := (win32spis s)(nat n := \<lparr>ws_spi = spi, ws_open = True\<rparr>)\<rparr>"

definition luat_spi_setup :: "'d build \<Rightarrow> luat_spi \<Rightarrow> 'd spi_state \<Rightarrow> int \<times> 'd spi_state" where
  "luat_spi_setup bld spi s =
     (if \<not> spi_valid (spi_id spi) then (-1, s)
      else let c = need_bridge bld (bridge s)
           in case open_bridge bld c of
                None \<Rightarrow> (0, spi_enter (spi_id spi) spi (s\<lparr>bridge := c\<rparr>))
              | Some dll \<Rightarrow>
                  let (r, c) = luat_ch347_spi_setup dll (spi_id spi) (spi_CPHA spi) (spi_CPOL spi) (spi_dataw spi)
                                 (spi_bit_dict spi) (spi_bandrate spi) (spi_duplex spi) c;
                      s = s\<lparr>bridge := c\<rparr>
                  in if r \<noteq> 0 then (0, spi_enter (spi_id spi) spi s) else (0, s))"

definition luat_spi_bus_setup :: "'d build \<Rightarrow> int \<Rightarrow> luat_spi \<Rightarrow> 'd spi_state \<Rightarrow> int \<times> 'd spi_state" where
  "luat_spi_bus_setup bld bus_id spi s =
     (if \<not> spi_valid bus_id then (-1, s)
      else (0, snd (luat_spi_setup bld spi (spi_enter bus_id spi s))))"

definition luat_spi_close :: "int \<Rightarrow> 'd spi_state \<Rightarrow> int \<times> 'd spi_state" where
  "luat_spi_close n s =
     (if \<not> spi_valid n then (-1, s)
      else (0, s\<lparr>win32spis := (win32spis s)(nat n := (win32spis s (nat n))\<lparr>ws_open := False\<rparr>)\<rparr>))"

definition luat_spi_transfer :: "'d build \<Rightarrow> int \<Rightarrow> byte list \<Rightarrow> nat \<Rightarrow> byte list \<Rightarrow> nat \<Rightarrow> 'd spi_state \<Rightarrow>
    (int \<times> byte list \<times> 'd spi_state) option" where
  "luat_spi_transfer bld n send_buf send_length recv_buf recv_length s =
     (if \<not> spi_valid n then Some (-1, recv_buf, s)
      else if \<not> ws_open (win32spis s (nat n)) then Some (-1, recv_buf, s)
      else case open_bridge bld (bridge s) of
             Some dll \<Rightarrow>
               do { (r, recv_buf, c) \<leftarrow> luat_ch347_spi_transfer dll n send_buf send_length recv_buf recv_length (bridge s);
                    Some (r, recv_buf, s\<lparr>bridge := c\<rparr>) }
           | None \<Rightarrow> do { recv_buf \<leftarrow> poke 0 (replicate recv_length 0) recv_buf; Some (int recv_length, recv_buf, s) })"

text \<open>The test whether the bus is open guards the call of \<open>memset\<close>, because there is no statement between them.\<close>

definition luat_spi_recv :: "'d build \<Rightarrow> int \<Rightarrow> byte list \<Rightarrow> nat \<Rightarrow> 'd spi_state \<Rightarrow> (int \<times> byte list \<times> 'd spi_state) option" where
  "luat_spi_recv bld n recv_buf len s =
     (if \<not> spi_valid n then Some (-1, recv_buf, s)
      else do { recv_buf \<leftarrow> (if \<not> ws_open (win32spis s (nat n)) then poke 0 (replicate len 0) recv_buf else Some recv_buf);
                (case open_bridge bld (bridge s) of
                   Some dll \<Rightarrow> do { (r, recv_buf, c) \<leftarrow> luat_ch347_spi_recv dll n recv_buf len (bridge s);
                                     Some (r, recv_buf, s\<lparr>bridge := c\<rparr>) }
                 | None \<Rightarrow> Some (int len, recv_buf, s)) })"

definition luat_spi_send :: "'d build \<Rightarrow> int \<Rightarrow> byte list \<Rightarrow> nat \<Rightarrow> 'd spi_state \<Rightarrow> (int \<times> 'd spi_state) option" where
  "luat_spi_send bld n send_buf len s =
     (if \<not> spi_valid n then Some (-1, s)
      else if \<not> ws_open (win32spis s (nat n)) then Some (-1, s)
      else case open_bridge bld (bridge s) of
             Some dll \<Rightarrow> do { (r, _, c) \<leftarrow> luat_ch347_spi_transfer dll n send_buf len [] 0 (bridge s);
                               Some (r, s\<lparr>bridge := c\<rparr>) }
           | None \<Rightarrow> Some (int len, s))"

section \<open>SPI devices\<close>

text \<open>A device is a bus and a chip-select pin. \<open>luat_gpio_mode\<close> belongs to the LuatOS library.\<close>

record luat_spi_device =
  dev_bus :: int
  dev_config :: luat_spi

definition luat_spi_device_setup :: "'d build \<Rightarrow> (int \<Rightarrow> gpio_state \<Rightarrow> gpio_state) \<Rightarrow> luat_spi_device \<Rightarrow>
    gpio_state \<times> 'd spi_state \<Rightarrow> int \<times> gpio_state \<times> 'd spi_state" where
  "luat_spi_device_setup bld gpio_mode_out dev gs =
     (let (g, s) = gs; (_, s) = luat_spi_bus_setup bld (dev_bus dev) (dev_config dev) s
      in (0, gpio_mode_out (spi_cs (dev_config dev)) g, s))"

definition luat_spi_device_close :: "luat_spi_device \<Rightarrow> 'd spi_state \<Rightarrow> int \<times> 'd spi_state" where
  "luat_spi_device_close dev s = luat_spi_close (dev_bus dev) s"

definition luat_spi_device_transfer :: "'d build \<Rightarrow> gpio_env \<Rightarrow> luat_spi_device \<Rightarrow> byte list \<Rightarrow> nat \<Rightarrow> byte list \<Rightarrow> nat \<Rightarrow>
    gpio_state \<times> 'd spi_state \<Rightarrow> (int \<times> byte list \<times> gpio_state \<times> 'd spi_state) option" where
  "luat_spi_device_transfer bld env dev send_buf send_length recv_buf recv_length gs =
     do { let g = snd (luat_gpio_set env (spi_cs (dev_config dev)) 0 (fst gs));
          (ret, recv_buf, s) \<leftarrow> luat_spi_transfer bld (dev_bus dev) send_buf send_length recv_buf recv_length (snd gs);
          let g = snd (luat_gpio_set env (spi_cs (dev_config dev)) 1 g);
          Some (ret, recv_buf, g, s) }"

definition luat_spi_device_recv :: "'d build \<Rightarrow> gpio_env \<Rightarrow> luat_spi_device \<Rightarrow> byte list \<Rightarrow> nat \<Rightarrow>
    gpio_state \<times> 'd spi_state \<Rightarrow> (int \<times> byte list \<times> gpio_state \<times> 'd spi_state) option" where
  "luat_spi_device_recv bld env dev recv_buf len gs =
     do { let g = snd (luat_gpio_set env (spi_cs (dev_config dev)) 0 (fst gs));
          (ret, recv_buf, s) \<leftarrow> luat_spi_recv bld (dev_bus dev) recv_buf len (snd gs);
          let g = snd (luat_gpio_set env (spi_cs (dev_config dev)) 1 g);
          Some (ret, recv_buf, g, s) }"

definition luat_spi_device_send :: "'d build \<Rightarrow> gpio_env \<Rightarrow> luat_spi_device \<Rightarrow> byte list \<Rightarrow> nat \<Rightarrow>
    gpio_state \<times> 'd spi_state \<Rightarrow> (int \<times> gpio_state \<times> 'd spi_state) option" where
  "luat_spi_device_send bld env dev send_buf len gs =
     do { let g = snd (luat_gpio_set env (spi_cs (dev_config dev)) 0 (fst gs));
          (ret, s) \<leftarrow> luat_spi_send bld (dev_bus dev) send_buf len (snd gs);
          let g = snd (luat_gpio_set env (spi_cs (dev_config dev)) 1 g);
          Some (ret, g, s) }"

section \<open>I2C\<close>

definition luat_i2c_exist :: "int \<Rightarrow> bool" where
  "luat_i2c_exist n \<longleftrightarrow> n = 0"

definition luat_i2c_setup :: "'d build \<Rightarrow> int \<Rightarrow> int \<Rightarrow> 'd ch347 \<Rightarrow> (int \<times> 'd ch347) option" where
  "luat_i2c_setup bld n speed c =
     (case bld of Posix \<Rightarrow> Some (-1, c)
      | Windows lib \<Rightarrow>
        let c = need_bridge bld c
        in case open_bridge bld c of
             None \<Rightarrow> Some (0, c)
           | Some dll \<Rightarrow> do { (_, c) \<leftarrow> luat_ch347_i2c_setup dll n speed c; Some (0, c) })"

definition luat_i2c_close :: "int" where
  "luat_i2c_close = 0"

definition luat_i2c_send :: "'d build \<Rightarrow> bool \<Rightarrow> int \<Rightarrow> int \<Rightarrow> byte list option \<Rightarrow> nat \<Rightarrow> 'd ch347 \<Rightarrow> (int \<times> 'd ch347) option" where
  "luat_i2c_send bld alloc n a buff len c =
     (case open_bridge bld c of None \<Rightarrow> Some (0, c)
      | Some dll \<Rightarrow> do { (_, c) \<leftarrow> luat_ch347_i2c_send dll alloc n a buff len c; Some (0, c) })"

definition luat_i2c_recv :: "'d build \<Rightarrow> bool \<Rightarrow> int \<Rightarrow> int \<Rightarrow> byte list option \<Rightarrow> nat \<Rightarrow> 'd ch347 \<Rightarrow>
    (int \<times> byte list option \<times> 'd ch347) option" where
  "luat_i2c_recv bld alloc n a buff len c =
     (case open_bridge bld c of None \<Rightarrow> Some (0, buff, c)
      | Some dll \<Rightarrow> do { (_, buff, c) \<leftarrow> luat_ch347_i2c_recv dll alloc n a buff len c; Some (0, buff, c) })"

definition luat_i2c_transfer :: "'d build \<Rightarrow> bool \<Rightarrow> int \<Rightarrow> int \<Rightarrow> byte list option \<Rightarrow> nat \<Rightarrow> byte list option \<Rightarrow> nat \<Rightarrow> 'd ch347 \<Rightarrow>
    (int \<times> byte list option \<times> 'd ch347) option" where
  "luat_i2c_transfer bld alloc n a reg reg_len buff len c =
     (case open_bridge bld c of None \<Rightarrow> Some (0, buff, c)
      | Some dll \<Rightarrow> do { (_, buff, c) \<leftarrow> luat_ch347_i2c_transfer dll alloc n a reg reg_len buff len c; Some (0, buff, c) })"

section \<open>I2S\<close>

datatype i2s_run = I2S_STOP | I2S_RUNING

record luat_i2s_conf =
  i2s_id :: nat
  i2s_mode :: nat
  i2s_sample_rate :: nat
  i2s_data_bits :: nat
  i2s_channel_format :: nat
  i2s_standard :: nat
  i2s_run :: i2s_run
  i2s_userdata :: ptr

text \<open>\<open>I2S_MAX_DEVICE\<close> is 1: the state is one configuration.\<close>

definition luat_i2s_setup :: "luat_i2s_conf option \<Rightarrow> luat_i2s_conf \<Rightarrow> int \<times> luat_i2s_conf" where
  "luat_i2s_setup conf s =
     (case conf of None \<Rightarrow> (-1, s)
      | Some c \<Rightarrow> if i2s_id c \<ge> 1 then (-1, s) else (0, c\<lparr>i2s_run := I2S_RUNING\<rparr>))"

definition luat_i2s_modify :: "nat \<Rightarrow> nat \<Rightarrow> nat \<Rightarrow> nat \<Rightarrow> luat_i2s_conf \<Rightarrow> int \<times> luat_i2s_conf" where
  "luat_i2s_modify n channel_format data_bits sample_rate s =
     (if n \<ge> 1 then (-1, s)
      else (0, s\<lparr>i2s_sample_rate := sample_rate, i2s_data_bits := data_bits, i2s_channel_format := channel_format\<rparr>))"

definition luat_i2s_send :: "nat \<Rightarrow> byte list option \<Rightarrow> nat \<Rightarrow> int" where
  "luat_i2s_send n buff len = (if n \<ge> 1 \<or> buff = None \<or> len = 0 then -1 else int len)"

definition luat_i2s_recv :: "nat \<Rightarrow> byte list option \<Rightarrow> nat \<Rightarrow> int" where
  "luat_i2s_recv n buff len = (if n \<ge> 1 \<or> buff = None \<or> len = 0 then -1 else 0)"

definition luat_i2s_pause :: "nat \<Rightarrow> int" where
  "luat_i2s_pause n = (if n \<ge> 1 then -1 else 0)"

definition luat_i2s_resume :: "nat \<Rightarrow> int" where
  "luat_i2s_resume n = (if n \<ge> 1 then -1 else 0)"

definition luat_i2s_close :: "nat \<Rightarrow> luat_i2s_conf \<Rightarrow> int \<times> luat_i2s_conf" where
  "luat_i2s_close n s = (if n \<ge> 1 then (-1, s) else (0, s\<lparr>i2s_run := I2S_STOP\<rparr>))"

definition luat_i2s_get_config :: "nat \<Rightarrow> luat_i2s_conf \<Rightarrow> luat_i2s_conf option" where
  "luat_i2s_get_config n s = (if n \<ge> 1 then None else Some s)"

definition luat_i2s_txbuff_info :: "nat \<Rightarrow> int \<times> nat \<times> nat" where
  "luat_i2s_txbuff_info n = (if n \<ge> 1 then (-1, 0, 0) else (0, 4096, 4096))"

definition luat_i2s_rxbuff_info :: "nat \<Rightarrow> int \<times> nat \<times> nat" where
  "luat_i2s_rxbuff_info n = (if n \<ge> 1 then (-1, 0, 0) else (0, 4096, 0))"

definition luat_i2s_set_user_data :: "nat \<Rightarrow> ptr \<Rightarrow> luat_i2s_conf \<Rightarrow> int \<times> luat_i2s_conf" where
  "luat_i2s_set_user_data n p s = (if n \<ge> 1 then (-1, s) else (0, s\<lparr>i2s_userdata := p\<rparr>))"

section \<open>The life of a bus\<close>

datatype spi_op = SpiSetup luat_spi | SpiBus int luat_spi | SpiClose int | SpiTransfer int "byte list" "byte list" | SpiSend int "byte list"

fun spi_exec :: "'d build \<Rightarrow> spi_op \<Rightarrow> 'd spi_state \<Rightarrow> 'd spi_state option" where
  "spi_exec bld (SpiSetup spi) s = Some (snd (luat_spi_setup bld spi s))"
| "spi_exec bld (SpiBus n spi) s = Some (snd (luat_spi_bus_setup bld n spi s))"
| "spi_exec bld (SpiClose n) s = Some (snd (luat_spi_close n s))"
| "spi_exec bld (SpiTransfer n xs ys) s = map_option (snd \<circ> snd) (luat_spi_transfer bld n xs (length xs) ys (length ys) s)"
| "spi_exec bld (SpiSend n xs) s = map_option snd (luat_spi_send bld n xs (length xs) s)"

fun spi_run :: "'d build \<Rightarrow> spi_op list \<Rightarrow> 'd spi_state \<Rightarrow> 'd spi_state option" where
  "spi_run bld [] s = Some s"
| "spi_run bld (c # cs) s = Option.bind (spi_exec bld c s) (spi_run bld cs)"

text \<open>The specification: the set of the buses that are open.\<close>

fun spi_spec :: "spi_op \<Rightarrow> int set \<Rightarrow> int set" where
  "spi_spec (SpiSetup spi) b = (if spi_valid (spi_id spi) then insert (spi_id spi) b else b)"
| "spi_spec (SpiBus n spi) b =
     (if spi_valid n then insert n (if spi_valid (spi_id spi) then insert (spi_id spi) b else b) else b)"
| "spi_spec (SpiClose n) b = b - {n}"
| "spi_spec (SpiTransfer n xs ys) b = b"
| "spi_spec (SpiSend n xs) b = b"

definition spi_open_set :: "'d spi_state \<Rightarrow> int set" where
  "spi_open_set s = {n. spi_valid n \<and> ws_open (win32spis s (nat n))}"

lemma spi_enter_open: "spi_valid n \<Longrightarrow> spi_open_set (spi_enter n spi s) = insert n (spi_open_set s)"
  by (auto simp: spi_open_set_def spi_enter_def spi_valid_def nat_eq_iff2 split: if_splits)

lemma spi_setup_open: "spi_open_set (snd (luat_spi_setup Posix spi s)) =
    (if spi_valid (spi_id spi) then insert (spi_id spi) (spi_open_set s) else spi_open_set s)"
  by (simp add: luat_spi_setup_def need_bridge_def open_bridge_def spi_enter_open)

lemma spi_close_open: "spi_open_set (snd (luat_spi_close n s)) = spi_open_set s - {n}"
  by (auto simp: spi_open_set_def luat_spi_close_def spi_valid_def nat_eq_iff2 split: if_splits)

lemma spi_exec_spec: "\<exists>s'. spi_exec Posix c s = Some s' \<and> spi_open_set s' = spi_spec c (spi_open_set s)"
  by (cases c)
    (auto simp: luat_spi_bus_setup_def luat_spi_transfer_def luat_spi_send_def open_bridge_def poke_def spi_setup_open
        spi_enter_open spi_close_open)

lemma spi_run_spec: "\<exists>s'. spi_run Posix cs s = Some s' \<and> spi_open_set s' = fold spi_spec cs (spi_open_set s)"
proof (induction cs arbitrary: s)
  case Nil
  then show ?case by simp
next
  case (Cons c cs)
  obtain s1 where "spi_exec Posix c s = Some s1" "spi_open_set s1 = spi_spec c (spi_open_set s)"
    using spi_exec_spec by blast
  with Cons.IH [of s1] show ?case by simp
qed

text \<open>The open buses follow the calls, and a receive ignores them. Without a bridge, after any sequence of
  setups, closes, transfers and sends, the buses that are open are those whose last setup was not
  followed by a close. A transfer on an open bus fills the receive buffer with zeros and returns its
  length, and on another bus it returns -1 and leaves the buffer alone. \<open>luat_spi_recv\<close> does
  neither: it returns the length on every bus, leaves the buffer as it was when the bus is open, and
  clears it when the bus is closed.\<close>

theorem spi_bus_protocol:
  assumes "spi_valid n" and "spi_run Posix cs s = Some s'" and "is_open = (n \<in> fold spi_spec cs (spi_open_set s))"
  shows "luat_spi_transfer Posix n xs (length xs) ys (length ys) s' =
           Some (if is_open then (int (length ys), replicate (length ys) 0, s') else (-1, ys, s')) \<and>
         luat_spi_recv Posix n ys (length ys) s' =
           Some (int (length ys), if is_open then ys else replicate (length ys) 0, s')"
proof -
  have "ws_open (win32spis s' (nat n)) = is_open"
    using spi_run_spec [of cs s] assms by (auto simp: spi_open_set_def)
  with assms(1) show ?thesis
    by (simp add: luat_spi_transfer_def luat_spi_recv_def open_bridge_def poke_def)
qed

definition demo_spi :: luat_spi where
  "demo_spi = \<lparr> spi_id = 1, spi_CPHA = 0, spi_CPOL = 0, spi_dataw = 8, spi_bit_dict = 1, spi_bandrate = 1000000, spi_cs = 8, spi_duplex = 1 \<rparr>"

definition demo_spis :: "unit spi_state" where
  "demo_spis = \<lparr> win32spis = \<lambda>_. \<lparr> ws_spi = demo_spi, ws_open = False \<rparr>, bridge = ch347_start () \<rparr>"

theorem spi_bus_protocol_witness:
  "\<exists>s'. spi_run Posix [SpiSetup demo_spi, SpiClose 2] demo_spis = Some s' \<and>
     luat_spi_transfer Posix 1 [1] 1 [7, 7] 2 s' = Some (2, [0, 0], s') \<and>
     luat_spi_recv Posix 1 [7, 7] 2 s' = Some (2, [7, 7], s')"
proof -
  obtain s' where r: "spi_run Posix [SpiSetup demo_spi, SpiClose 2] demo_spis = Some s'" using spi_run_spec by blast
  have v: "spi_valid 1" "spi_valid (spi_id demo_spi)" "spi_id demo_spi = 1" by (simp_all add: spi_valid_def demo_spi_def)
  have o: "True = (1 \<in> fold spi_spec [SpiSetup demo_spi, SpiClose 2] (spi_open_set demo_spis))" using v by simp
  show ?thesis using spi_bus_protocol [OF v(1) r o, of "[1]" "[7, 7]"] r by (auto simp: numeral_2_eq_2)
qed

text \<open>The chip-select pin of a device is low during a transfer and high after it, and no other pin changes.\<close>

lemma gpio_trace_levels [simp]: "gs_levels (gpio_trace env action xs s) = gs_levels s"
  by (simp add: gpio_trace_def split: prod.splits)

lemma gpio_set_levels: "0 \<le> pin \<Longrightarrow> pin < 128 \<Longrightarrow>
    gs_levels (snd (luat_gpio_set env pin level g)) = (gs_levels g)(nat pin := if level = 0 then 0 else 1)"
  by (simp add: luat_gpio_set_def Let_def split: option.splits)

lemma spi_device_selects:
  assumes "0 \<le> spi_cs (dev_config dev)" and "spi_cs (dev_config dev) < 128"
    and "luat_spi_device_transfer bld env dev xs n ys m (g, s) = Some (ret, ys', g', s')"
  shows "luat_spi_transfer bld (dev_bus dev) xs n ys m s = Some (ret, ys', s')"
    and "gs_levels (snd (luat_gpio_set env (spi_cs (dev_config dev)) 0 g)) = (gs_levels g)(nat (spi_cs (dev_config dev)) := 0)"
    and "gs_levels g' = (gs_levels g)(nat (spi_cs (dev_config dev)) := 1)"
proof -
  show "luat_spi_transfer bld (dev_bus dev) xs n ys m s = Some (ret, ys', s')"
    using assms(3) by (auto simp: luat_spi_device_transfer_def bind_eq_Some_conv Let_def)
  have "g' = snd (luat_gpio_set env (spi_cs (dev_config dev)) 1 (snd (luat_gpio_set env (spi_cs (dev_config dev)) 0 g)))"
    using assms(3) by (auto simp: luat_spi_device_transfer_def bind_eq_Some_conv Let_def)
  then show "gs_levels g' = (gs_levels g)(nat (spi_cs (dev_config dev)) := 1)"
    using gpio_set_levels [OF assms(1,2)] by simp
qed (simp add: gpio_set_levels [OF assms(1,2)])

text \<open>With an open bridge only bus 0 can be set up, and the failure is reported as success.\<close>

lemma spi_setup_bridge_refuses:
  assumes "bld = Windows (Some dll)" and "DevIsOpened (bridge s)" and "spi_id spi = 1 \<or> spi_id spi = 2"
  shows "luat_spi_setup bld spi s = (0, s)"
  using assms by (auto simp: luat_spi_setup_def need_bridge_def open_bridge_def luat_ch347_spi_setup_def spi_valid_def)

text \<open>The calls on the configuration of the I2S device are read back by \<open>luat_i2s_get_config\<close>.\<close>

lemma i2s_config_read_back:
  assumes "i2s_id c = 0"
  shows "luat_i2s_get_config 0 (snd (luat_i2s_modify 0 f b r (snd (luat_i2s_setup (Some c) s)))) =
           Some (c\<lparr>i2s_run := I2S_RUNING, i2s_sample_rate := r, i2s_data_bits := b, i2s_channel_format := f\<rparr>)"
  using assms by (simp add: luat_i2s_get_config_def luat_i2s_modify_def luat_i2s_setup_def)

end
