(* ===== verification/Audio_Pc.thy ===== *)
theory Audio_Pc
  imports Luatos_Prelude
begin

text \<open>
  Audio output: the player of \<open>ffmpeg_x86/ffmpeg.c\<close>, which decodes a file with FFmpeg and queues the samples
  to SDL, and the audio functions of \<open>port/driver/luat_audio_pc.c\<close> that use it. FFmpeg and SDL are a record of
  functions on their own state. The model keeps the objects that the player has obtained from them and
  not yet released: releasing an object that is not held, or obtaining a second one of a
  kind while one is held, is undefined.
\<close>

section \<open>FFmpeg and SDL\<close>

datatype ff_obj = Format | Codec | Resampler | Packet | Frame | SdlAudio | Device | Samples

record 'w ff_api =
  avformat_open_input :: "string \<Rightarrow> 'w \<Rightarrow> int \<times> 'w"
  avformat_find_stream_info :: "'w \<Rightarrow> int \<times> 'w"
  av_find_best_stream :: "'w \<Rightarrow> int"
  avcodec_find_decoder :: "'w \<Rightarrow> bool"
  avcodec_alloc_context3 :: "'w \<Rightarrow> bool \<times> 'w"
  avcodec_parameters_to_context :: "'w \<Rightarrow> int \<times> 'w"
  avcodec_open2 :: "'w \<Rightarrow> int \<times> 'w"
  swr_alloc_set_opts :: "'w \<Rightarrow> bool \<times> 'w"
  swr_init :: "'w \<Rightarrow> int \<times> 'w"
  av_packet_alloc :: "'w \<Rightarrow> bool \<times> 'w"
  av_frame_alloc :: "'w \<Rightarrow> bool \<times> 'w"
  SDL_Init :: "'w \<Rightarrow> int \<times> 'w"
  SDL_OpenAudioDevice :: "'w \<Rightarrow> nat \<times> 'w"
  av_read_frame :: "'w \<Rightarrow> int \<times> int \<times> 'w" \<comment> \<open>the result and the stream of the packet\<close>
  avcodec_send_packet :: "'w \<Rightarrow> int \<times> 'w"
  avcodec_receive_frame :: "'w \<Rightarrow> int \<times> 'w"
  av_samples_alloc :: "'w \<Rightarrow> int \<times> 'w"
  swr_convert :: "'w \<Rightarrow> int \<times> byte list \<times> 'w" \<comment> \<open>the number of samples and the buffer\<close>
  SDL_QueueAudio :: "byte list \<Rightarrow> 'w \<Rightarrow> int \<times> 'w"
  SDL_GetQueuedAudioSize :: "'w \<Rightarrow> nat \<times> 'w"

record 'w ff_state =
  ff_world :: 'w
  ff_held :: "ff_obj set"

definition acquire :: "ff_obj \<Rightarrow> 'w ff_state \<Rightarrow> 'w ff_state option" where
  "acquire r s = (if r \<in> ff_held s then None else Some (s\<lparr>ff_held := insert r (ff_held s)\<rparr>))"

definition release :: "ff_obj \<Rightarrow> 'w ff_state \<Rightarrow> 'w ff_state option" where
  "release r s = (if r \<in> ff_held s then Some (s\<lparr>ff_held := ff_held s - {r}\<rparr>) else None)"

fun release_all :: "ff_obj list \<Rightarrow> 'w ff_state \<Rightarrow> 'w ff_state option" where
  "release_all [] s = Some s"
| "release_all (r # rs) s = Option.bind (release r s) (release_all rs)"

definition acquire_if :: "bool \<Rightarrow> ff_obj \<Rightarrow> 'w ff_state \<Rightarrow> 'w ff_state option" where
  "acquire_if c r s = (if c then acquire r s else Some s)"

definition release_if :: "bool \<Rightarrow> ff_obj \<Rightarrow> 'w ff_state \<Rightarrow> 'w ff_state option" where
  "release_if c r s = (if c then release r s else Some s)"

definition fail :: "ff_obj list \<Rightarrow> 'w ff_state \<Rightarrow> (int \<times> 'w ff_state) option" where
  "fail rs s = map_option (Pair (- 1)) (release_all rs s)"

section \<open>The player\<close>

text \<open>The frames of one packet. A frame is converted, queued and its buffer freed; an error ends the loop.\<close>

partial_function (option) decode_loop :: "bool \<Rightarrow> 'w ff_api \<Rightarrow> 'w ff_state \<Rightarrow> 'w ff_state option" where
  "decode_loop gui api s =
     (let (r, w) = avcodec_receive_frame api (ff_world s); s = s\<lparr>ff_world := w\<rparr>
      in if r \<noteq> 0 then Some s
         else let (a, w) = av_samples_alloc api (ff_world s); s = s\<lparr>ff_world := w\<rparr>
              in if a < 0 then Some s
                 else Option.bind (acquire Samples s) (\<lambda>s.
                   let (n, pcm, w) = swr_convert api (ff_world s); s = s\<lparr>ff_world := w\<rparr>
                   in if n < 0 then release Samples s
                      else let (q, w) = (if gui then SDL_QueueAudio api (take (nat n * 2 * 2) pcm) (ff_world s) else (0, ff_world s));
                               s = s\<lparr>ff_world := w\<rparr>
                           in Option.bind (release Samples s) (decode_loop gui api)))"

partial_function (option) read_loop :: "bool \<Rightarrow> 'w ff_api \<Rightarrow> int \<Rightarrow> 'w ff_state \<Rightarrow> 'w ff_state option" where
  "read_loop gui api audio_stream_idx s =
     (let (r, idx, w) = av_read_frame api (ff_world s); s = s\<lparr>ff_world := w\<rparr>
      in if r < 0 then Some s
         else if idx = audio_stream_idx
              then let (p, w) = avcodec_send_packet api (ff_world s); s = s\<lparr>ff_world := w\<rparr>
                   in if p < 0 then Some s
                      else Option.bind (decode_loop gui api s) (read_loop gui api audio_stream_idx)
              else read_loop gui api audio_stream_idx s)"

partial_function (option) wait_loop :: "'w ff_api \<Rightarrow> 'w ff_state \<Rightarrow> 'w ff_state option" where
  "wait_loop api s =
     (let (queued, w) = SDL_GetQueuedAudioSize api (ff_world s); s = s\<lparr>ff_world := w\<rparr>
      in if queued > 0 then wait_loop api s else Some s)"

text \<open>From the opened decoder to the end: the resampler, the packet and the frame, the device and the loops.\<close>

definition play_stream :: "bool \<Rightarrow> 'w ff_api \<Rightarrow> int \<Rightarrow> 'w ff_state \<Rightarrow> (int \<times> 'w ff_state) option" where
  "play_stream gui api idx s =
     do { s \<leftarrow> read_loop gui api idx s;
          s \<leftarrow> (if gui then Option.bind (wait_loop api s) (release_all [Device, SdlAudio]) else Some s);
          s \<leftarrow> release_all [Frame, Packet, Resampler, Codec, Format] s;
          Some (0, s) }"

definition open_device :: "bool \<Rightarrow> 'w ff_api \<Rightarrow> int \<Rightarrow> 'w ff_state \<Rightarrow> (int \<times> 'w ff_state) option" where
  "open_device gui api idx s =
     (if \<not> gui then play_stream gui api idx s
      else do {
        let (i, w) = SDL_Init api (ff_world s);
        let s = s\<lparr>ff_world := w\<rparr>;
        if i < 0 then fail [Frame, Packet, Resampler, Codec, Format] s
        else do {
          s \<leftarrow> acquire SdlAudio s;
          let (dev, w) = SDL_OpenAudioDevice api (ff_world s);
          let s = s\<lparr>ff_world := w\<rparr>;
          if dev = 0 then fail [SdlAudio, Frame, Packet, Resampler, Codec, Format] s
          else do { s \<leftarrow> acquire Device s; play_stream gui api idx s } } })"

definition alloc_frames :: "bool \<Rightarrow> 'w ff_api \<Rightarrow> int \<Rightarrow> 'w ff_state \<Rightarrow> (int \<times> 'w ff_state) option" where
  "alloc_frames gui api idx s =
     do { let (pkt, w) = av_packet_alloc api (ff_world s);
          s \<leftarrow> acquire_if pkt Packet (s\<lparr>ff_world := w\<rparr>);
          let (frame, w) = av_frame_alloc api (ff_world s);
          s \<leftarrow> acquire_if frame Frame (s\<lparr>ff_world := w\<rparr>);
          if \<not> pkt \<or> \<not> frame
          then do { s \<leftarrow> release_if frame Frame s; s \<leftarrow> release_if pkt Packet s; fail [Resampler, Codec, Format] s }
          else open_device gui api idx s }"

definition open_decoder :: "bool \<Rightarrow> 'w ff_api \<Rightarrow> int \<Rightarrow> 'w ff_state \<Rightarrow> (int \<times> 'w ff_state) option" where
  "open_decoder gui api idx s =
     do { let (p, w) = avcodec_parameters_to_context api (ff_world s);
          let s = s\<lparr>ff_world := w\<rparr>;
          if p < 0 then fail [Codec, Format] s
          else do {
            let (q, w) = avcodec_open2 api (ff_world s);
            let s = s\<lparr>ff_world := w\<rparr>;
            if q < 0 then fail [Codec, Format] s
            else do {
              let (swr, w) = swr_alloc_set_opts api (ff_world s);
              let s = s\<lparr>ff_world := w\<rparr>;
              if \<not> swr then fail [Codec, Format] s
              else do {
                s \<leftarrow> acquire Resampler s;
                let (i, w) = swr_init api (ff_world s);
                let s = s\<lparr>ff_world := w\<rparr>;
                if i < 0 then fail [Resampler, Codec, Format] s else alloc_frames gui api idx s } } } }"

definition luat_ffmpeg_play_file :: "bool \<Rightarrow> 'w ff_api \<Rightarrow> string \<Rightarrow> 'w ff_state \<Rightarrow> (int \<times> 'w ff_state) option" where
  "luat_ffmpeg_play_file gui api path s =
     do { let (r, w) = avformat_open_input api path (ff_world s);
          let s = s\<lparr>ff_world := w\<rparr>;
          if r < 0 then Some (- 1, s)
          else do {
            s \<leftarrow> acquire Format s;
            let (r, w) = avformat_find_stream_info api (ff_world s);
            let s = s\<lparr>ff_world := w\<rparr>;
            if r < 0 then fail [Format] s
            else do {
              let audio_stream_idx = av_find_best_stream api (ff_world s);
              if audio_stream_idx < 0 then fail [Format] s
              else if \<not> avcodec_find_decoder api (ff_world s) then fail [Format] s
              else do {
                let (ctx, w) = avcodec_alloc_context3 api (ff_world s);
                let s = s\<lparr>ff_world := w\<rparr>;
                if \<not> ctx then fail [Format] s
                else do { s \<leftarrow> acquire Codec s; open_decoder gui api audio_stream_idx s } } } } }"

section \<open>The libraries on Windows\<close>

text \<open>The handles that are not null, and how often the system has the libraries loaded. The loader tries two
  directories for the first library and uses that directory for the others.\<close>

record dll_state =
  dll_handles :: "string set"
  dll_loads :: "string \<Rightarrow> int"

definition ff_dlls :: "string list" where
  "ff_dlls = [''avutil-56.dll'', ''swresample-3.dll'', ''avcodec-58.dll'', ''avformat-58.dll'']"

definition load_dll :: "(string \<Rightarrow> bool) \<Rightarrow> string \<Rightarrow> string \<Rightarrow> dll_state \<Rightarrow> bool \<times> dll_state" where
  "load_dll can_load dir name s =
     (if can_load (take 259 (dir @ [CHR 0x5C] @ name))
      then (True, s\<lparr>dll_handles := insert name (dll_handles s), dll_loads := (dll_loads s)(name := dll_loads s name + 1)\<rparr>)
      else (False, s\<lparr>dll_handles := dll_handles s - {name}\<rparr>))"

fun load_dlls :: "(string \<Rightarrow> bool) \<Rightarrow> string \<Rightarrow> string list \<Rightarrow> dll_state \<Rightarrow> bool \<times> dll_state" where
  "load_dlls can_load dir [] s = (True, s)"
| "load_dlls can_load dir (n # ns) s =
     (let (ok, s) = load_dll can_load dir n s in if ok then load_dlls can_load dir ns s else (False, s))"

definition exe_dir :: "string \<Rightarrow> string" where
  "exe_dir p = (if CHR 0x5C \<in> set p then rev (tl (dropWhile (\<lambda>c. c \<noteq> CHR 0x5C) (rev p))) else p)"

definition luat_load_ffmpeg_dlls ::
    "(string \<Rightarrow> bool) \<Rightarrow> bool \<Rightarrow> string option \<Rightarrow> dll_state \<Rightarrow> int \<times> dll_state" where
  "luat_load_ffmpeg_dlls can_load procs exe s =
     (case exe of None \<Rightarrow> (- 1, s)
      | Some p \<Rightarrow>
        let dir = exe_dir p;
            dll_dir = take 259 (dir @ [CHR 0x5C] @ ''..'' @ [CHR 0x5C] @ ''..'' @ [CHR 0x5C] @ ''release'');
            (ok, s) = load_dll can_load dll_dir (hd ff_dlls) s;
            (ok, dll_dir, s) =
              (if ok then (ok, dll_dir, s) else let (ok, s) = load_dll can_load dir (hd ff_dlls) s in (ok, dir, s))
        in if \<not> ok then (- 1, s)
           else let (ok, s) = load_dlls can_load dll_dir (tl ff_dlls) s
                in if \<not> ok then (- 1, s) else if \<not> procs then (- 1, s) else (0, s))"

definition luat_unload_ffmpeg_dlls :: "dll_state \<Rightarrow> dll_state" where
  "luat_unload_ffmpeg_dlls s =
     fold (\<lambda>n s. if n \<in> dll_handles s then s\<lparr>dll_loads := (dll_loads s)(n := dll_loads s n - 1)\<rparr> else s) (rev ff_dlls) s"

section \<open>Audio functions\<close>

datatype uData = Opaque string | OtherData

datatype audio_msg = AUDIO_DONE

record luat_audio_conf =
  soft_vol :: nat
  last_mic_vol :: nat
  pa_pin :: nat
  pa_on_level :: int
  after_sleep_ready_time :: nat
  pa_delay_time :: nat
  power_pin :: int
  power_on_level :: int
  power_off_delay_time :: nat
  bus_i2s :: bool

record 'w audio_state =
  dll_enable :: bool
  audio_config :: luat_audio_conf
  audio_posts :: "audio_msg list" \<comment> \<open>what was given to \<open>luat_msgbus_put\<close>\<close>
  audio_ff :: "'w ff_state"

definition luat_audio_event_done :: "'w audio_state \<Rightarrow> 'w audio_state" where
  "luat_audio_event_done s = s\<lparr>audio_posts := audio_posts s @ [AUDIO_DONE]\<rparr>"

fun play_files :: "(string \<Rightarrow> 'w ff_state \<Rightarrow> (int \<times> 'w ff_state) option) \<Rightarrow> bool \<Rightarrow> uData list \<Rightarrow> 'w audio_state \<Rightarrow>
    (int \<times> 'w audio_state) option" where
  "play_files play error_stop [] s = Some (0, luat_audio_event_done s)"
| "play_files play error_stop (OtherData # fs) s =
     (if error_stop then Some (- 1, luat_audio_event_done s) else play_files play error_stop fs s)"
| "play_files play error_stop (Opaque path # fs) s =
     do { (ret, ff) \<leftarrow> play path (audio_ff s);
          let s = s\<lparr>audio_ff := ff\<rparr>;
          if ret \<noteq> 0 \<and> error_stop then Some (- 1, luat_audio_event_done s)
          else play_files play error_stop fs s }"

text \<open>\<open>load\<close> is the result of \<open>luat_load_ffmpeg_dlls\<close>.\<close>

definition luat_audio_play_multi_files :: "int \<Rightarrow> (string \<Rightarrow> 'w ff_state \<Rightarrow> (int \<times> 'w ff_state) option) \<Rightarrow>
    uData list \<Rightarrow> bool \<Rightarrow> 'w audio_state \<Rightarrow> (int \<times> 'w audio_state) option" where
  "luat_audio_play_multi_files load play info error_stop s =
     (if \<not> dll_enable s \<and> load \<noteq> 0 then Some (- 1, s)
      else play_files play error_stop info (s\<lparr>dll_enable := True\<rparr>))"

definition luat_audio_play_file :: "int \<Rightarrow> (string \<Rightarrow> 'w ff_state \<Rightarrow> (int \<times> 'w ff_state) option) \<Rightarrow>
    string \<Rightarrow> 'w audio_state \<Rightarrow> (int \<times> 'w audio_state) option" where
  "luat_audio_play_file load play path s = luat_audio_play_multi_files load play [Opaque path] True s"

definition luat_audio_stop_raw :: "bool \<Rightarrow> 'w audio_state \<times> dll_state \<Rightarrow> int \<times> 'w audio_state \<times> dll_state" where
  "luat_audio_stop_raw win sd =
     (0, if win then ((fst sd)\<lparr>dll_enable := False\<rparr>, luat_unload_ffmpeg_dlls (snd sd)) else sd)"

definition luat_audio_vol :: "nat \<Rightarrow> nat \<Rightarrow> 'w audio_state \<Rightarrow> nat \<times> 'w audio_state" where
  "luat_audio_vol n vol s = (vol, if n = 0 then s\<lparr>audio_config := (audio_config s)\<lparr>soft_vol := vol\<rparr>\<rparr> else s)"

definition luat_audio_mic_vol :: "nat \<Rightarrow> nat \<Rightarrow> 'w audio_state \<Rightarrow> nat \<times> 'w audio_state" where
  "luat_audio_mic_vol n vol s =
     (vol mod 256, if n = 0 then s\<lparr>audio_config := (audio_config s)\<lparr>last_mic_vol := vol\<rparr>\<rparr> else s)"

definition luat_audio_write_raw :: "nat \<Rightarrow> 'w audio_state \<Rightarrow> int" where
  "luat_audio_write_raw n s = (if n = 0 \<and> bus_i2s (audio_config s) then 0 else - 1)"

definition luat_audio_pause_raw :: "nat \<Rightarrow> 'w audio_state \<Rightarrow> int" where
  "luat_audio_pause_raw n s = (if n = 0 \<and> bus_i2s (audio_config s) then 0 else - 1)"

definition luat_audio_config_pa :: "nat \<Rightarrow> nat \<Rightarrow> int \<Rightarrow> nat \<Rightarrow> nat \<Rightarrow> 'w audio_state \<Rightarrow> 'w audio_state" where
  "luat_audio_config_pa n pin level dummy_time_len delay s =
     (if n = 0 then s\<lparr>audio_config := (audio_config s)\<lparr>pa_pin := pin, pa_on_level := level,
        after_sleep_ready_time := dummy_time_len, pa_delay_time := delay\<rparr>\<rparr> else s)"

definition luat_audio_config_dac :: "nat \<Rightarrow> int \<Rightarrow> int \<Rightarrow> nat \<Rightarrow> 'w audio_state \<Rightarrow> 'w audio_state" where
  "luat_audio_config_dac n pin level dac_off_delay_time s =
     (if n = 0 then s\<lparr>audio_config := (audio_config s)\<lparr>power_pin := pin, power_on_level := level,
        power_off_delay_time := dac_off_delay_time\<rparr>\<rparr> else s)"

section \<open>Every object is released\<close>

text \<open>A file is finite: there is a measure that every packet and every frame that is read, and every wait for the
  queue of the device, decreases, and that the other calls of the loops do not increase.\<close>

definition ff_finite :: "'w ff_api \<Rightarrow> ('w \<Rightarrow> nat) \<Rightarrow> bool" where
  "ff_finite api m \<longleftrightarrow>
     (\<forall>w r i w'. av_read_frame api w = (r, i, w') \<longrightarrow> 0 \<le> r \<longrightarrow> m w' < m w) \<and>
     (\<forall>w w'. avcodec_receive_frame api w = (0, w') \<longrightarrow> m w' < m w) \<and>
     (\<forall>w n w'. SDL_GetQueuedAudioSize api w = (n, w') \<longrightarrow> 0 < n \<longrightarrow> m w' < m w) \<and>
     (\<forall>w r w'. avcodec_receive_frame api w = (r, w') \<longrightarrow> m w' \<le> m w) \<and>
     (\<forall>w r w'. avcodec_send_packet api w = (r, w') \<longrightarrow> m w' \<le> m w) \<and>
     (\<forall>w r w'. av_samples_alloc api w = (r, w') \<longrightarrow> m w' \<le> m w) \<and>
     (\<forall>w r b w'. swr_convert api w = (r, b, w') \<longrightarrow> m w' \<le> m w) \<and>
     (\<forall>w r b w'. SDL_QueueAudio api b w = (r, w') \<longrightarrow> m w' \<le> m w)"

lemma ff_finite_laws:
  assumes "ff_finite api m"
  shows "av_read_frame api w = (r, i, w') \<Longrightarrow> 0 \<le> r \<Longrightarrow> m w' < m w"
    and "avcodec_receive_frame api w = (0, w') \<Longrightarrow> m w' < m w"
    and "SDL_GetQueuedAudioSize api w = (n, w') \<Longrightarrow> 0 < n \<Longrightarrow> m w' < m w"
    and "avcodec_receive_frame api w = (r, w') \<Longrightarrow> m w' \<le> m w"
    and "avcodec_send_packet api w = (r, w') \<Longrightarrow> m w' \<le> m w"
    and "av_samples_alloc api w = (r, w') \<Longrightarrow> m w' \<le> m w"
    and "swr_convert api w = (r, pcm, w') \<Longrightarrow> m w' \<le> m w"
    and "SDL_QueueAudio api pcm w = (r, w') \<Longrightarrow> m w' \<le> m w"
  by (fact assms [unfolded ff_finite_def, THEN conjunct1, rule_format]
    assms [unfolded ff_finite_def, THEN conjunct2, THEN conjunct1, rule_format]
    assms [unfolded ff_finite_def, THEN conjunct2, THEN conjunct2, THEN conjunct1, rule_format]
    assms [unfolded ff_finite_def, THEN conjunct2, THEN conjunct2, THEN conjunct2, THEN conjunct1, rule_format]
    assms [unfolded ff_finite_def, THEN conjunct2, THEN conjunct2, THEN conjunct2, THEN conjunct2, THEN conjunct1, rule_format]
    assms [unfolded ff_finite_def, THEN conjunct2, THEN conjunct2, THEN conjunct2, THEN conjunct2, THEN conjunct2, THEN conjunct1, rule_format]
    assms [unfolded ff_finite_def, THEN conjunct2, THEN conjunct2, THEN conjunct2, THEN conjunct2, THEN conjunct2, THEN conjunct2, THEN conjunct1, rule_format]
    assms [unfolded ff_finite_def, THEN conjunct2, THEN conjunct2, THEN conjunct2, THEN conjunct2, THEN conjunct2, THEN conjunct2, THEN conjunct2, rule_format])+

lemma decode_loop_returns:
  assumes "ff_finite api m" and "Samples \<notin> ff_held s"
  shows "\<exists>s'. decode_loop gui api s = Some s' \<and> ff_held s' = ff_held s \<and> m (ff_world s') \<le> m (ff_world s)"
  using assms(2)
proof (induction "m (ff_world s)" arbitrary: s rule: less_induct)
  case less
  note law = ff_finite_laws [OF assms(1)]
  obtain r w1 where r: "avcodec_receive_frame api (ff_world s) = (r, w1)" by fastforce
  obtain a w2 where a: "av_samples_alloc api w1 = (a, w2)" by fastforce
  obtain n pcm w3 where n: "swr_convert api w2 = (n, pcm, w3)" by (metis prod_cases3)
  obtain q w4 where q: "(if gui then SDL_QueueAudio api (take (nat n * 2 * 2) pcm) w3 else (0, w3)) = (q, w4)" by fastforce
  have le: "m w1 \<le> m (ff_world s)" "m w2 \<le> m w1" "m w3 \<le> m w2" "m w4 \<le> m w3"
    using law(4) [OF r] law(6) [OF a] law(7) [OF n] law(8) [of "take (nat n * 2 * 2) pcm" w3 q w4] q
    by (auto split: if_splits)
  consider (stop) "r \<noteq> 0" | (alloc) "r = 0" "a < 0" | (conv) "r = 0" "0 \<le> a" "n < 0" | (go) "r = 0" "0 \<le> a" "0 \<le> n"
    by linarith
  then show ?case
  proof cases
    case stop
    with r le show ?thesis by (subst decode_loop.simps) simp
  next
    case alloc
    with r a le show ?thesis by (subst decode_loop.simps) simp
  next
    case conv
    with r a n le less.prems show ?thesis by (subst decode_loop.simps) (simp add: acquire_def release_def)
  next
    case go
    have lt: "m w1 < m (ff_world s)" using law(2) r go(1) by simp
    let ?s = "s\<lparr>ff_world := w4\<rparr>"
    obtain s' where "decode_loop gui api ?s = Some s'" "ff_held s' = ff_held s" "m (ff_world s') \<le> m w4"
      using less.hyps [of ?s] less.prems lt le by auto
    moreover have "decode_loop gui api s = decode_loop gui api ?s"
      using go r a n q less.prems by (subst decode_loop.simps, cases s, cases gui) (simp_all add: acquire_def release_def Let_def)
    ultimately show ?thesis using le by auto
  qed
qed

lemma read_loop_returns:
  assumes "ff_finite api m" and "Samples \<notin> ff_held s"
  shows "\<exists>s'. read_loop gui api idx s = Some s' \<and> ff_held s' = ff_held s"
  using assms(2)
proof (induction "m (ff_world s)" arbitrary: s rule: less_induct)
  case less
  note law = ff_finite_laws [OF assms(1)]
  obtain r i w1 where r: "av_read_frame api (ff_world s) = (r, i, w1)" by (metis prod_cases3)
  obtain p w2 where p: "avcodec_send_packet api w1 = (p, w2)" by fastforce
  have le: "m w2 \<le> m w1" using law(5) [OF p] .
  show ?case
  proof (cases "r < 0")
    case True
    with r show ?thesis by (subst read_loop.simps) simp
  next
    case False
    then have lt: "m w1 < m (ff_world s)" using law(1) [OF r] by simp
    consider (other) "i \<noteq> idx" | (stop) "i = idx" "p < 0" | (go) "i = idx" "0 \<le> p" by linarith
    then show ?thesis
    proof cases
      case other
      with less.hyps [of "s\<lparr>ff_world := w1\<rparr>"] lt less.prems r False show ?thesis by (subst read_loop.simps) simp
    next
      case stop
      with r p False show ?thesis by (subst read_loop.simps) simp
    next
      case go
      obtain s1 where s1: "decode_loop gui api (s\<lparr>ff_world := w2\<rparr>) = Some s1" "ff_held s1 = ff_held s" "m (ff_world s1) \<le> m w2"
        using decode_loop_returns [OF assms(1), of "s\<lparr>ff_world := w2\<rparr>" gui] less.prems by auto
      with less.hyps [of s1] lt le less.prems r p False go show ?thesis by (subst read_loop.simps) simp
    qed
  qed
qed

lemma wait_loop_returns:
  assumes "ff_finite api m"
  shows "\<exists>s'. wait_loop api s = Some s' \<and> ff_held s' = ff_held s"
proof (induction "m (ff_world s)" arbitrary: s rule: less_induct)
  case less
  obtain n w where n: "SDL_GetQueuedAudioSize api (ff_world s) = (n, w)" by fastforce
  show ?case
  proof (cases "0 < n")
    case True
    with ff_finite_laws(3) [OF assms n] less.hyps [of "s\<lparr>ff_world := w\<rparr>"] n show ?thesis
      by (subst wait_loop.simps) simp
  next
    case False
    with n show ?thesis by (subst wait_loop.simps) simp
  qed
qed

text \<open>A part of the player runs to its end and leaves nothing behind, when it starts with the objects \<open>H\<close>.\<close>

definition cleaned :: "(int \<times> 'w ff_state) option \<Rightarrow> bool" where
  "cleaned x \<longleftrightarrow> (\<exists>r s'. x = Some (r, s') \<and> ff_held s' = {} \<and> (r = 0 \<or> r = - 1))"

definition cleans :: "('w ff_state \<Rightarrow> (int \<times> 'w ff_state) option) \<Rightarrow> ff_obj set \<Rightarrow> bool" where
  "cleans f H \<longleftrightarrow> (\<forall>s. ff_held s = H \<longrightarrow> cleaned (f s))"

lemma cleansI: "(\<And>s. ff_held s = H \<Longrightarrow> cleaned (f s)) \<Longrightarrow> cleans f H"
  by (simp add: cleans_def)

lemma cleansD: "cleans f H \<Longrightarrow> ff_held s = H \<Longrightarrow> cleaned (f s)"
  by (simp add: cleans_def)

lemma release_all_distinct:
  "distinct rs \<Longrightarrow> ff_held s = set rs \<union> H \<Longrightarrow> set rs \<inter> H = {} \<Longrightarrow> \<exists>s'. release_all rs s = Some s' \<and> ff_held s' = H"
proof (induction rs arbitrary: s)
  case Nil
  then show ?case by simp
next
  case (Cons r rs)
  have "ff_held (s\<lparr>ff_held := ff_held s - {r}\<rparr>) = set rs \<union> H" using Cons.prems by auto
  with Cons.IH [of "s\<lparr>ff_held := ff_held s - {r}\<rparr>"] Cons.prems show ?case by (simp add: release_def)
qed

lemma fail_cleans: "distinct rs \<Longrightarrow> ff_held s = set rs \<Longrightarrow> cleaned (fail rs s)"
  using release_all_distinct [of rs s "{}"] by (auto simp: fail_def cleaned_def)

lemma play_stream_cleans:
  assumes "ff_finite api m"
  shows "cleans (play_stream gui api idx) ({Frame, Packet, Resampler, Codec, Format} \<union> (if gui then {Device, SdlAudio} else {}))"
proof (rule cleansI)
  fix s :: "'a ff_state"
  let ?H = "{Frame, Packet, Resampler, Codec, Format}"
  assume h: "ff_held s = ?H \<union> (if gui then {Device, SdlAudio} else {})"
  have "Samples \<notin> ff_held s" using h by (simp split: if_splits)
  then obtain s1 where s1: "read_loop gui api idx s = Some s1" "ff_held s1 = ff_held s"
    using read_loop_returns [OF assms, of s gui idx] by blast
  have "\<exists>s2. (if gui then Option.bind (wait_loop api s1) (release_all [Device, SdlAudio]) else Some s1) = Some s2 \<and> ff_held s2 = ?H"
  proof (cases gui)
    case True
    obtain s2 where s2: "wait_loop api s1 = Some s2" "ff_held s2 = ff_held s1" using wait_loop_returns [OF assms] by blast
    have "\<exists>s3. release_all [Device, SdlAudio] s2 = Some s3 \<and> ff_held s3 = ?H"
      by (rule release_all_distinct) (use h s1 s2 True in auto)
    with s2 True show ?thesis by auto
  next
    case False
    with h s1 show ?thesis by simp
  qed
  then obtain s2 where s2: "(if gui then Option.bind (wait_loop api s1) (release_all [Device, SdlAudio]) else Some s1) = Some s2"
    "ff_held s2 = ?H" by blast
  obtain s3 where s3: "release_all [Frame, Packet, Resampler, Codec, Format] s2 = Some s3" "ff_held s3 = {}"
    using release_all_distinct [of "[Frame, Packet, Resampler, Codec, Format]" s2 "{}"] s2(2) by auto
  have "play_stream gui api idx s = Some (0, s3)" unfolding play_stream_def by (simp only: s1(1) s2(1) s3(1) Option.bind.simps)
  with s3(2) show "cleaned (play_stream gui api idx s)" unfolding cleaned_def by blast
qed

lemma open_device_cleans:
  assumes "ff_finite api m"
  shows "cleans (open_device gui api idx) {Frame, Packet, Resampler, Codec, Format}"
proof (rule cleansI)
  fix s :: "'a ff_state"
  assume h: "ff_held s = {Frame, Packet, Resampler, Codec, Format}"
  note play = cleansD [OF play_stream_cleans [OF assms]]
  obtain i w1 where i: "SDL_Init api (ff_world s) = (i, w1)" by fastforce
  obtain d w2 where d: "SDL_OpenAudioDevice api w1 = (d, w2)" by fastforce
  consider (nogui) "\<not> gui" | (init) "gui" "i < 0" | (dev) "gui" "\<not> i < 0" "d = 0" | (go) "gui" "\<not> i < 0" "d \<noteq> 0" by blast
  then show "cleaned (open_device gui api idx s)"
  proof cases
    case nogui
    with play [of s False idx] h show ?thesis by (simp add: open_device_def)
  next
    case init
    with fail_cleans [of "[Frame, Packet, Resampler, Codec, Format]" "s\<lparr>ff_world := w1\<rparr>"] h i show ?thesis
      by (simp add: open_device_def)
  next
    case dev
    with fail_cleans [of "[SdlAudio, Frame, Packet, Resampler, Codec, Format]" "s\<lparr>ff_held := insert SdlAudio (ff_held s), ff_world := w2\<rparr>"] h i d
    show ?thesis by (simp add: open_device_def acquire_def)
  next
    case go
    let ?s = "s\<lparr>ff_world := w2, ff_held := insert Device (insert SdlAudio (ff_held s))\<rparr>"
    have "ff_held ?s = {Frame, Packet, Resampler, Codec, Format} \<union> (if True then {Device, SdlAudio} else {})" using h by auto
    from play [OF this, of idx] go h i d show ?thesis by (simp add: open_device_def acquire_def)
  qed
qed

lemma alloc_frames_cleans:
  assumes "ff_finite api m"
  shows "cleans (alloc_frames gui api idx) {Resampler, Codec, Format}"
proof (rule cleansI)
  fix s :: "'a ff_state"
  assume h: "ff_held s = {Resampler, Codec, Format}"
  obtain p w1 where p: "av_packet_alloc api (ff_world s) = (p, w1)" by fastforce
  obtain f w2 where f: "av_frame_alloc api w1 = (f, w2)" by fastforce
  let ?s = "s\<lparr>ff_world := w2, ff_held := insert Frame (insert Packet (ff_held s))\<rparr>"
  note dev = cleansD [OF open_device_cleans [OF assms], of ?s gui idx]
  consider (go) "p" "f" | (np) "\<not> p" "f" | (nf) "p" "\<not> f" | (none) "\<not> p" "\<not> f" by blast
  then show "cleaned (alloc_frames gui api idx s)"
  proof cases
    case go
    then have "alloc_frames gui api idx s = open_device gui api idx ?s"
      using h p f by (simp add: alloc_frames_def acquire_if_def acquire_def)
    moreover have "ff_held ?s = {Frame, Packet, Resampler, Codec, Format}" using h by simp
    ultimately show ?thesis using dev by simp
  next
    case np
    then have "alloc_frames gui api idx s = fail [Resampler, Codec, Format] (s\<lparr>ff_world := w2, ff_held := insert Frame (ff_held s) - {Frame}\<rparr>)"
      using h p f by (simp add: alloc_frames_def acquire_if_def release_if_def acquire_def release_def)
    with fail_cleans [of "[Resampler, Codec, Format]" "s\<lparr>ff_world := w2, ff_held := insert Frame (ff_held s) - {Frame}\<rparr>"] h
    show ?thesis by simp
  next
    case nf
    then have "alloc_frames gui api idx s = fail [Resampler, Codec, Format] (s\<lparr>ff_world := w2, ff_held := insert Packet (ff_held s) - {Packet}\<rparr>)"
      using h p f by (simp add: alloc_frames_def acquire_if_def release_if_def acquire_def release_def)
    with fail_cleans [of "[Resampler, Codec, Format]" "s\<lparr>ff_world := w2, ff_held := insert Packet (ff_held s) - {Packet}\<rparr>"] h
    show ?thesis by simp
  next
    case none
    with fail_cleans [of "[Resampler, Codec, Format]" "s\<lparr>ff_world := w2\<rparr>"] h p f show ?thesis
      by (simp add: alloc_frames_def acquire_if_def release_if_def)
  qed
qed

lemma open_decoder_cleans:
  assumes "ff_finite api m"
  shows "cleans (open_decoder gui api idx) {Codec, Format}"
proof (rule cleansI)
  fix s :: "'a ff_state"
  assume h: "ff_held s = {Codec, Format}"
  obtain p w1 where p: "avcodec_parameters_to_context api (ff_world s) = (p, w1)" by fastforce
  obtain q w2 where q: "avcodec_open2 api w1 = (q, w2)" by fastforce
  obtain swr w3 where swr: "swr_alloc_set_opts api w2 = (swr, w3)" by fastforce
  obtain i w4 where i: "swr_init api w3 = (i, w4)" by fastforce
  let ?s = "s\<lparr>ff_held := insert Resampler (ff_held s), ff_world := w4\<rparr>"
  have f: "cleaned (fail [Codec, Format] (s\<lparr>ff_world := w\<rparr>))" for w
    by (rule fail_cleans) (use h in simp_all)
  have g: "cleaned (fail [Resampler, Codec, Format] ?s)"
    by (rule fail_cleans) (use h in simp_all)
  have a: "cleaned (alloc_frames gui api idx ?s)"
    by (rule cleansD [OF alloc_frames_cleans [OF assms]]) (use h in simp)
  consider (p) "p < 0" | (q) "\<not> p < 0" "q < 0" | (swr) "\<not> p < 0" "\<not> q < 0" "\<not> swr"
    | (i) "\<not> p < 0" "\<not> q < 0" "swr" "i < 0" | (go) "\<not> p < 0" "\<not> q < 0" "swr" "\<not> i < 0" by blast
  then show "cleaned (open_decoder gui api idx s)"
    by cases (use p q swr i f g a h in \<open>simp_all add: open_decoder_def acquire_def\<close>)
qed

lemma play_file_cleans:
  assumes "ff_finite api m"
  shows "cleans (luat_ffmpeg_play_file gui api path) {}"
proof (rule cleansI)
  fix s :: "'a ff_state"
  assume h: "ff_held s = {}"
  obtain oi w1 where oi: "avformat_open_input api path (ff_world s) = (oi, w1)" by fastforce
  obtain i w2 where i: "avformat_find_stream_info api w1 = (i, w2)" by fastforce
  obtain ctx w3 where ctx: "avcodec_alloc_context3 api w2 = (ctx, w3)" by fastforce
  let ?s = "\<lambda>w. s\<lparr>ff_held := {Format}, ff_world := w\<rparr>"
  have f: "cleaned (fail [Format] (?s w))" for w
    by (rule fail_cleans) (use h in simp_all)
  have d: "cleaned (open_decoder gui api idx (s\<lparr>ff_world := w3, ff_held := {Codec, Format}\<rparr>))" for idx
    by (rule cleansD [OF open_decoder_cleans [OF assms]]) simp
  have e: "cleaned (Some (- 1, s\<lparr>ff_world := w1\<rparr>))" using h by (simp add: cleaned_def)
  consider (oi) "oi < 0" | (i) "\<not> oi < 0" "i < 0" | (st) "\<not> oi < 0" "\<not> i < 0" "av_find_best_stream api w2 < 0"
    | (dec) "\<not> oi < 0" "\<not> i < 0" "\<not> av_find_best_stream api w2 < 0" "\<not> avcodec_find_decoder api w2"
    | (ctx) "\<not> oi < 0" "\<not> i < 0" "\<not> av_find_best_stream api w2 < 0" "avcodec_find_decoder api w2" "\<not> ctx"
    | (go) "\<not> oi < 0" "\<not> i < 0" "\<not> av_find_best_stream api w2 < 0" "avcodec_find_decoder api w2" "ctx" by blast
  then show "cleaned (luat_ffmpeg_play_file gui api path s)"
    by cases (use oi i ctx f d e h in \<open>simp_all add: luat_ffmpeg_play_file_def acquire_def\<close>)
qed


text \<open>A library with two packets, each with one frame; the state counts what is left.\<close>

definition demo_ff :: "(nat \<times> nat) ff_api" where
  "demo_ff = \<lparr> avformat_open_input = \<lambda>_ w. (0, w), avformat_find_stream_info = \<lambda>w. (0, w), av_find_best_stream = \<lambda>_. 1,
     avcodec_find_decoder = \<lambda>_. True, avcodec_alloc_context3 = \<lambda>w. (True, w), avcodec_parameters_to_context = \<lambda>w. (0, w),
     avcodec_open2 = \<lambda>w. (0, w), swr_alloc_set_opts = \<lambda>w. (True, w), swr_init = \<lambda>w. (0, w), av_packet_alloc = \<lambda>w. (True, w),
     av_frame_alloc = \<lambda>w. (True, w), SDL_Init = \<lambda>w. (0, w), SDL_OpenAudioDevice = \<lambda>w. (1, w),
     av_read_frame = \<lambda>w. if fst w = 0 then (- 1, 0, w) else (0, 1, (fst w - 1, snd w)), avcodec_send_packet = \<lambda>w. (0, w),
     avcodec_receive_frame = \<lambda>w. if snd w \<le> fst w then (- 11, w) else (0, (fst w, snd w - 1)), av_samples_alloc = \<lambda>w. (0, w),
     swr_convert = \<lambda>w. (1, [1, 2, 3, 4], w), SDL_QueueAudio = \<lambda>_ w. (0, w), SDL_GetQueuedAudioSize = \<lambda>w. (0, w) \<rparr>"

lemma demo_ff_finite: "ff_finite demo_ff (\<lambda>w. fst w + snd w)"
  by (auto simp: ff_finite_def demo_ff_def split: if_splits)


section \<open>The end of the playback\<close>

lemma play_files_done:
  assumes "\<And>path ff. ff_held ff = {} \<Longrightarrow> cleaned (play path ff)" and "ff_held (audio_ff s) = {}"
  shows "\<exists>r s'. play_files play error_stop info s = Some (r, s') \<and> audio_posts s' = audio_posts s @ [AUDIO_DONE] \<and>
           ff_held (audio_ff s') = {} \<and> (r = 0 \<or> r = - 1 \<and> error_stop)"
  using assms(2)
proof (induction info arbitrary: s)
  case Nil
  then show ?case by (simp add: luat_audio_event_done_def)
next
  case (Cons x info)
  show ?case
  proof (cases x)
    case (Opaque path)
    obtain r ff where p: "play path (audio_ff s) = Some (r, ff)" "ff_held ff = {}"
      using assms(1) [OF Cons.prems, of path] by (auto simp: cleaned_def)
    with Opaque Cons.IH [of "s\<lparr>audio_ff := ff\<rparr>"] show ?thesis
      by (cases "r \<noteq> 0 \<and> error_stop") (auto simp: luat_audio_event_done_def)
  next
    case OtherData
    with Cons show ?thesis by (auto simp: luat_audio_event_done_def)
  qed
qed

text \<open>C37: A playback ends with one message. When the libraries are loaded or can be loaded, \<open>luat_audio_play_multi_files\<close>
  returns for any list of files, plays them one after the other and posts the message that the playback is done exactly
  once, at the end, whatever goes wrong with the files; it returns -1 only if an error is to stop the
  list.\<close>

theorem audio_done_once:
  assumes "ff_finite api m" and "ff_held (audio_ff s) = {}" and "dll_enable s \<or> load = 0"
  shows "\<exists>r s'. luat_audio_play_multi_files load (luat_ffmpeg_play_file gui api) info error_stop s = Some (r, s') \<and>
           audio_posts s' = audio_posts s @ [AUDIO_DONE] \<and> ff_held (audio_ff s') = {} \<and>
           (r = 0 \<or> r = - 1 \<and> error_stop)"
proof -
  have c: "ff_held ff = {} \<Longrightarrow> cleaned (luat_ffmpeg_play_file gui api path ff)" for path ff
    by (rule cleansD [OF play_file_cleans [OF assms(1)]])
  from play_files_done [of "luat_ffmpeg_play_file gui api" "s\<lparr>dll_enable := True\<rparr>" error_stop info, OF c] assms(2,3)
  show ?thesis by (auto simp: luat_audio_play_multi_files_def)
qed

definition demo_audio :: "(nat \<times> nat) audio_state" where
  "demo_audio = \<lparr> dll_enable = False,
     audio_config = \<lparr> soft_vol = 0, last_mic_vol = 0, pa_pin = 0, pa_on_level = 0, after_sleep_ready_time = 0, pa_delay_time = 0,
       power_pin = 0, power_on_level = 0, power_off_delay_time = 0, bus_i2s = False \<rparr>,
     audio_posts = [], audio_ff = \<lparr> ff_world = (2, 2), ff_held = {} \<rparr> \<rparr>"

theorem audio_done_once_witness:
  "ff_finite demo_ff (\<lambda>w. fst w + snd w) \<and>
   (\<exists>r s'. luat_audio_play_multi_files 0 (luat_ffmpeg_play_file True demo_ff) [Opaque ''a.mp3'', OtherData] True demo_audio = Some (r, s') \<and>
      audio_posts s' = [AUDIO_DONE])"
  using audio_done_once [OF demo_ff_finite, of demo_audio 0 True "[Opaque ''a.mp3'', OtherData]" True] demo_ff_finite
  by (auto simp: demo_audio_def)

text \<open>The handles are not cleared when the libraries are unloaded, so that stopping twice releases them twice.\<close>

lemma audio_stop_twice:
  assumes "dll_handles d = set ff_dlls" and "\<forall>n. dll_loads d n = 1"
  shows "dll_loads (snd (snd (luat_audio_stop_raw True (snd (luat_audio_stop_raw True (s, d)))))) (hd ff_dlls) = - 1"
  using assms by (simp add: luat_audio_stop_raw_def luat_unload_ffmpeg_dlls_def ff_dlls_def)

end
