(* ===== verification/Mock_Pc.thy ===== *)
theory Mock_Pc
  imports Luatos_Prelude
begin

text \<open>
  The mock interface, \<open>port/mock/luat_mock.c\<close>, and the drivers that ask it for their answers: ADC, PWM,
  watchdog and power management (\<open>port/driver/luat_adc_pc.c\<close>, \<open>luat_pwm_pc.c\<close>, \<open>luat_wdt_pc.c\<close> and \<open>luat_pm_pc.c\<close>).
  A request is passed to a Lua script, whose answer is turned into bytes. The Lua machine is a
  record of functions; what its manual says of the stack is a hypothesis. The loading of the
  script and of the libraries happens inside of the protected call and is part of the machine.
\<close>

section \<open>The Lua machine\<close>

datatype lua_val = LNil | LBool bool | LInt int | LNum "byte list" | LStr "byte list" | LMain | LOther

record 'L lua_api =
  lua_push :: "lua_val \<Rightarrow> 'L \<Rightarrow> 'L"
  lua_pcall :: "nat \<Rightarrow> nat \<Rightarrow> 'L \<Rightarrow> int \<times> 'L"
  lua_index :: "nat \<Rightarrow> 'L \<Rightarrow> lua_val" \<comment> \<open>the value at an index from the bottom\<close>
  lua_tointeger :: "lua_val \<Rightarrow> int"

fun lua_type :: "lua_val \<Rightarrow> nat" where
  "lua_type LNil = 0" | "lua_type (LBool b) = 1" | "lua_type (LInt n) = 3" | "lua_type (LNum bs) = 3"
| "lua_type (LStr bs) = 4" | "lua_type LMain = 6" | "lua_type LOther = 5"

section \<open>The mock call\<close>

record luat_mock_ctx =
  key :: "byte list"
  req_data :: "byte list"
  resp_data :: "byte list option"
  resp_len :: nat
  resp_type :: nat
  resp_code :: int

record 'L mock_state =
  mock_L :: "'L option"
  mock_file_path :: "byte list"

definition new_ctx :: "byte list \<Rightarrow> byte list \<Rightarrow> luat_mock_ctx" where
  "new_ctx k req = \<lparr> key = k, req_data = req, resp_data = None, resp_len = 0, resp_type = 0, resp_code = 0 \<rparr>"

text \<open>The bytes of the answer. A \<open>lua_Integer\<close> and a \<open>lua_Number\<close> have four bytes; a string is copied with its
  terminator. The allocations are not tested: without memory the copy is undefined.\<close>

definition mock_answer :: "bool \<Rightarrow> lua_val \<Rightarrow> luat_mock_ctx \<Rightarrow> luat_mock_ctx option" where
  "mock_answer al v ctx =
     (case v of
        LBool b \<Rightarrow> if al then Some (ctx\<lparr>resp_data := Some [if b then 1 else 0], resp_len := 1\<rparr>) else None
      | LInt n \<Rightarrow> if al then Some (ctx\<lparr>resp_data := Some (le_bytes 4 (nat (n mod 2 ^ 32))), resp_len := 4\<rparr>) else None
      | LNum bs \<Rightarrow> if al then Some (ctx\<lparr>resp_data := Some (take 4 bs), resp_len := 4\<rparr>) else None
      | LStr bs \<Rightarrow> if bs = [] then Some (ctx\<lparr>resp_len := 0\<rparr>)
                   else if al then Some (ctx\<lparr>resp_data := Some (bs @ [0]), resp_len := length bs\<rparr>) else None
      | _ \<Rightarrow> Some ctx)"

definition luat_mock_call :: "'L lua_api \<Rightarrow> bool \<Rightarrow> luat_mock_ctx \<Rightarrow> 'L mock_state \<Rightarrow> (int \<times> luat_mock_ctx \<times> 'L mock_state) option" where
  "luat_mock_call api al ctx s =
     (case mock_L s of
        None \<Rightarrow> Some (- 255, ctx, s)
      | Some L \<Rightarrow>
        if mock_file_path s = [] then Some (- 2, ctx, s)
        else let L = lua_push api (LStr (req_data ctx)) (lua_push api (LStr (key ctx)) (lua_push api LMain L));
                 (ret, L) = lua_pcall api 2 2 L;
                 s = s\<lparr>mock_L := Some L\<rparr>
             in if ret \<noteq> 0 then Some (ret, ctx, s)
                else do { let v = lua_index api 2 L;
                          ctx \<leftarrow> mock_answer al v (ctx\<lparr>resp_code := lua_tointeger api (lua_index api 1 L), resp_type := lua_type v\<rparr>);
                          Some (ret, ctx, s) })"

definition luat_mock_init :: "'L option \<Rightarrow> ('L \<Rightarrow> 'L) \<Rightarrow> byte list \<Rightarrow> int \<times> 'L mock_state" where
  "luat_mock_init newstate openlibs path =
     (if newstate = None \<or> path = [] then (- 1, \<lparr> mock_L = newstate, mock_file_path = path \<rparr>)
      else (0, \<lparr> mock_L = map_option openlibs newstate, mock_file_path = path \<rparr>))"

section \<open>The drivers\<close>

text \<open>The build chooses with \<open>LUAT_USE_MOCKAPI\<close> whether the drivers ask the script: the interface is then the
  machine and the success of its allocations. \<open>mock_int\<close> is the pattern that the drivers share: an answer
  of at least four bytes is the result, and any other answer is 0.\<close>

type_synonym 'L mock_if = "('L lua_api \<times> bool) option"

definition int_bytes :: "int \<Rightarrow> byte list" where
  "int_bytes n = le_bytes 4 (nat (n mod 2 ^ 32))"

definition int_val :: "byte list \<Rightarrow> int" where
  "int_val bs = (let n = int (le_val bs) in if n < 2 ^ 31 then n else n - 2 ^ 32)"

definition ascii :: "string \<Rightarrow> byte list" where
  "ascii cs = map (\<lambda>c. of_nat (of_char c)) cs"

definition mock_ask :: "'L mock_if \<Rightarrow> string \<Rightarrow> byte list \<Rightarrow> 'L mock_state \<Rightarrow> (byte list option \<times> 'L mock_state) option" where
  "mock_ask m k req s =
     (case m of None \<Rightarrow> Some (None, s)
      | Some (api, al) \<Rightarrow>
        do { (ret, ctx, s) \<leftarrow> luat_mock_call api al (new_ctx (ascii k) req) s;
             if ret = 0 \<and> resp_len ctx \<ge> 4 then do { bs \<leftarrow> resp_data ctx; Some (Some bs, s) } else Some (None, s) })"

definition mock_int :: "'L mock_if \<Rightarrow> string \<Rightarrow> byte list \<Rightarrow> 'L mock_state \<Rightarrow> (int \<times> 'L mock_state) option" where
  "mock_int m k req s =
     do { (r, s) \<leftarrow> mock_ask m k req s;
          (case r of None \<Rightarrow> Some (0, s) | Some bs \<Rightarrow> do { xs \<leftarrow> peek 0 4 bs; Some (int_val xs, s) }) }"

definition luat_adc_open :: "'L mock_if \<Rightarrow> int \<Rightarrow> 'L mock_state \<Rightarrow> (int \<times> 'L mock_state) option" where
  "luat_adc_open m pin = mock_int m ''adc.open'' (int_bytes pin)"

text \<open>The channels of the CPU temperature and of the battery are constants of the LuatOS library.\<close>

definition luat_adc_read :: "int \<Rightarrow> int \<Rightarrow> 'L mock_if \<Rightarrow> int \<Rightarrow> 'L mock_state \<Rightarrow> (int \<times> int \<times> int \<times> 'L mock_state) option" where
  "luat_adc_read CH_CPU CH_VBAT m pin s =
     do { (r, s) \<leftarrow> mock_ask m ''adc.read'' (int_bytes pin) s;
          (case r of
             Some bs \<Rightarrow> do { xs \<leftarrow> peek 0 4 bs; ys \<leftarrow> peek 4 4 bs; Some (0, int_val xs, int_val ys, s) }
           | None \<Rightarrow> Some (if pin = CH_CPU then (0, 45000, 45000, s)
                           else if pin = CH_VBAT then (0, 4120, 4120, s) else (0, - 1, - 1, s))) }"

definition luat_adc_close :: "'L mock_if \<Rightarrow> int \<Rightarrow> 'L mock_state \<Rightarrow> (int \<times> 'L mock_state) option" where
  "luat_adc_close m pin = mock_int m ''adc.close'' (int_bytes pin)"

definition luat_adc_global_config :: "'L mock_if \<Rightarrow> int \<Rightarrow> int \<Rightarrow> 'L mock_state \<Rightarrow> (int \<times> 'L mock_state) option" where
  "luat_adc_global_config m tp val = mock_int m ''adc.global_config'' (int_bytes tp @ int_bytes val)"

text \<open>\<open>conf\<close> is the representation of a \<open>luat_pwm_conf_t\<close>, a type of the LuatOS library.\<close>

definition luat_pwm_open :: "(int \<Rightarrow> nat \<Rightarrow> nat \<Rightarrow> int \<Rightarrow> byte list) \<Rightarrow> 'L mock_if \<Rightarrow> int \<Rightarrow> nat \<Rightarrow> nat \<Rightarrow> int \<Rightarrow> 'L mock_state \<Rightarrow>
    (int \<times> 'L mock_state) option" where
  "luat_pwm_open conf m channel period pulse pnum = mock_int m ''pwm.open'' (conf channel period pulse pnum)"

definition luat_pwm_setup :: "'L mock_if \<Rightarrow> byte list \<Rightarrow> 'L mock_state \<Rightarrow> (int \<times> 'L mock_state) option" where
  "luat_pwm_setup m conf = mock_int m ''pwm.setup'' conf"

definition luat_pwm_capture :: "int" where
  "luat_pwm_capture = - 1"

definition luat_pwm_close :: "'L mock_if \<Rightarrow> int \<Rightarrow> 'L mock_state \<Rightarrow> (int \<times> 'L mock_state) option" where
  "luat_pwm_close m channel = mock_int m ''pwm.close'' (int_bytes channel)"

definition luat_pwm_update_dutycycle :: "'L mock_if \<Rightarrow> int \<Rightarrow> int \<Rightarrow> 'L mock_state \<Rightarrow> (int \<times> 'L mock_state) option" where
  "luat_pwm_update_dutycycle m channel pulse = mock_int m ''pwm.update_dutycycle'' (int_bytes channel @ int_bytes pulse)"

definition luat_wdt_init :: "'L mock_if \<Rightarrow> nat \<Rightarrow> 'L mock_state \<Rightarrow> (int \<times> 'L mock_state) option" where
  "luat_wdt_init m tmo = mock_int m ''wdt.init'' (le_bytes 4 tmo)"

definition luat_wdt_set_timeout :: "'L mock_if \<Rightarrow> nat \<Rightarrow> 'L mock_state \<Rightarrow> (int \<times> 'L mock_state) option" where
  "luat_wdt_set_timeout m tmo = mock_int m ''wdt.set_timeout'' (le_bytes 4 tmo)"

definition luat_wdt_feed :: "'L mock_if \<Rightarrow> 'L mock_state \<Rightarrow> (int \<times> 'L mock_state) option" where
  "luat_wdt_feed m = mock_int m ''wdt.feed'' []"

definition luat_wdt_close :: "'L mock_if \<Rightarrow> 'L mock_state \<Rightarrow> (int \<times> 'L mock_state) option" where
  "luat_wdt_close m = mock_int m ''wdt.close'' []"

definition luat_pm_request :: "'L mock_if \<Rightarrow> int \<Rightarrow> 'L mock_state \<Rightarrow> (int \<times> 'L mock_state) option" where
  "luat_pm_request m mode = mock_int m ''pm.request'' (int_bytes mode)"

definition luat_pm_release :: "'L mock_if \<Rightarrow> int \<Rightarrow> 'L mock_state \<Rightarrow> (int \<times> 'L mock_state) option" where
  "luat_pm_release m mode = mock_int m ''pm.release'' (int_bytes mode)"

text \<open>Both copies go to the first output parameter.\<close>

definition luat_pm_last_state :: "'L mock_if \<Rightarrow> int \<Rightarrow> int \<Rightarrow> 'L mock_state \<Rightarrow> (int \<times> int \<times> int \<times> 'L mock_state) option" where
  "luat_pm_last_state m lastState rtcOrPad s =
     do { (r, s) \<leftarrow> mock_ask m ''pm.lastState'' [] s;
          (case r of
             Some bs \<Rightarrow> do { xs \<leftarrow> peek 0 4 bs; ys \<leftarrow> peek 4 4 bs; Some (0, int_val ys, rtcOrPad, s) }
           | None \<Rightarrow> Some (0, lastState, rtcOrPad, s)) }"

definition luat_pm_force :: "'L mock_if \<Rightarrow> int \<Rightarrow> 'L mock_state \<Rightarrow> (int \<times> 'L mock_state) option" where
  "luat_pm_force m mode = luat_pm_request m mode"

definition luat_pm_get_poweron_reason :: "'L mock_if \<Rightarrow> 'L mock_state \<Rightarrow> (int \<times> 'L mock_state) option" where
  "luat_pm_get_poweron_reason m = mock_int m ''pm.reason'' []"

section \<open>The stack of the machine\<close>

text \<open>The manual of Lua: a push adds a value at the top, an index counts from the bottom, and a protected call of a
  function with two arguments removes them and leaves two results, or one message after an
  error.\<close>

definition lua_stack_documented :: "'L lua_api \<Rightarrow> ('L \<Rightarrow> lua_val list) \<Rightarrow> bool" where
  "lua_stack_documented api stk \<longleftrightarrow>
     (\<forall>v L. stk (lua_push api v L) = stk L @ [v]) \<and>
     (\<forall>i L. 1 \<le> i \<and> i \<le> length (stk L) \<longrightarrow> lua_index api i L = stk L ! (i - 1)) \<and>
     (\<forall>st f a b L r L'. stk L = st @ [f, a, b] \<and> lua_pcall api 2 2 L = (r, L') \<longrightarrow>
        (if r = 0 then \<exists>x y. stk L' = st @ [x, y] else \<exists>msg. stk L' = st @ [msg]))"

lemma lua_stack_laws:
  assumes "lua_stack_documented api stk"
  shows "stk (lua_push api v L) = stk L @ [v]"
    and "1 \<le> i \<Longrightarrow> i \<le> length (stk L) \<Longrightarrow> lua_index api i L = stk L ! (i - 1)"
    and "stk L = st @ [f, a, b] \<Longrightarrow> lua_pcall api 2 2 L = (r, L') \<Longrightarrow>
      if r = 0 then \<exists>x y. stk L' = st @ [x, y] else \<exists>msg. stk L' = st @ [msg]"
  using assms unfolding lua_stack_documented_def by blast+

text \<open>A call leaves at least one value above what was on the stack, and two when it succeeds. The answer is made
  from the two lowest values.\<close>

lemma mock_call_stack:
  assumes "lua_stack_documented api stk" and "mock_L s = Some L" and "mock_file_path s \<noteq> []"
    and "luat_mock_call api al ctx s = Some (ret, ctx', s')"
  shows "\<exists>L' vs. mock_L s' = Some L' \<and> mock_file_path s' = mock_file_path s \<and> stk L' = stk L @ vs \<and> vs \<noteq> [] \<and>
           (ret = 0 \<longrightarrow> length vs = 2 \<and>
              mock_answer al ((stk L @ vs) ! 1)
                (ctx\<lparr>resp_code := lua_tointeger api ((stk L @ vs) ! 0), resp_type := lua_type ((stk L @ vs) ! 1)\<rparr>) = Some ctx')"
proof -
  let ?L = "lua_push api (LStr (req_data ctx)) (lua_push api (LStr (key ctx)) (lua_push api LMain L))"
  note law = lua_stack_laws [OF assms(1)]
  obtain r L' where p: "lua_pcall api 2 2 ?L = (r, L')" by fastforce
  have "stk ?L = stk L @ [LMain, LStr (key ctx), LStr (req_data ctx)]" by (simp add: law(1))
  note q = law(3) [OF this p]
  show ?thesis
  proof (cases "r = 0")
    case False
    then obtain msg where "stk L' = stk L @ [msg]" using q by auto
    moreover have "s' = s\<lparr>mock_L := Some L'\<rparr>" "ret = r"
      using assms(2-4) p False by (auto simp: luat_mock_call_def Let_def)
    ultimately show ?thesis using False by auto
  next
    case True
    then obtain x y where st: "stk L' = stk L @ [x, y]" using q by auto
    have i: "lua_index api 1 L' = (stk L @ [x, y]) ! 0" "lua_index api 2 L' = (stk L @ [x, y]) ! 1"
      using law(2) [of 1 L'] law(2) [of 2 L'] st by simp_all
    have "s' = s\<lparr>mock_L := Some L'\<rparr>" "ret = 0"
      "mock_answer al (lua_index api 2 L')
         (ctx\<lparr>resp_code := lua_tointeger api (lua_index api 1 L'), resp_type := lua_type (lua_index api 2 L')\<rparr>) = Some ctx'"
      using assms(2-4) p True by (auto simp: luat_mock_call_def Let_def bind_eq_Some_conv)
    with st show ?thesis unfolding i by (intro exI [of _ L'] exI [of _ "[x, y]"]) simp
  qed
qed

fun mock_calls :: "'L lua_api \<Rightarrow> bool \<Rightarrow> (byte list \<times> byte list) list \<Rightarrow> 'L mock_state \<Rightarrow>
    ((int \<times> luat_mock_ctx) list \<times> 'L mock_state) option" where
  "mock_calls api al [] s = Some ([], s)"
| "mock_calls api al ((k, req) # qs) s =
     do { (ret, ctx, s) \<leftarrow> luat_mock_call api al (new_ctx k req) s;
          (rs, s) \<leftarrow> mock_calls api al qs s;
          Some ((ret, ctx) # rs, s) }"

definition same_answer :: "luat_mock_ctx \<Rightarrow> luat_mock_ctx \<Rightarrow> bool" where
  "same_answer c d \<longleftrightarrow> resp_data c = resp_data d \<and> resp_len c = resp_len d \<and> resp_type c = resp_type d \<and> resp_code c = resp_code d"

lemma mock_answer_same:
  assumes "mock_answer al v ((new_ctx k req)\<lparr>resp_code := a, resp_type := b\<rparr>) = Some c"
    and "mock_answer al v ((new_ctx k' req')\<lparr>resp_code := a, resp_type := b\<rparr>) = Some d"
  shows "same_answer c d"
  using assms by (auto simp: mock_answer_def new_ctx_def same_answer_def split: lua_val.splits if_splits)

lemma mock_calls_fixed:
  assumes "lua_stack_documented api stk" and "mock_L s = Some L" and "mock_file_path s \<noteq> []" and "stk L = x # y # st"
    and "mock_calls api al qs s = Some (rs, s')" and "(0, c) \<in> set rs"
  shows "\<exists>k req. mock_answer al y ((new_ctx k req)\<lparr>resp_code := lua_tointeger api x, resp_type := lua_type y\<rparr>) = Some c"
  using assms(2-6)
proof (induction qs arbitrary: s L st rs)
  case Nil
  then show ?case by simp
next
  case (Cons q qs)
  obtain k req where q: "q = (k, req)" by fastforce
  obtain ret ctx s1 rs1 where c: "luat_mock_call api al (new_ctx k req) s = Some (ret, ctx, s1)"
      and r: "mock_calls api al qs s1 = Some (rs1, s')" and rs: "rs = (ret, ctx) # rs1"
    using Cons.prems(4) q by (auto simp: bind_eq_Some_conv)
  obtain L' vs where l: "mock_L s1 = Some L'" "mock_file_path s1 = mock_file_path s" "stk L' = stk L @ vs"
      "ret = 0 \<longrightarrow> mock_answer al ((stk L @ vs) ! 1)
         ((new_ctx k req)\<lparr>resp_code := lua_tointeger api ((stk L @ vs) ! 0), resp_type := lua_type ((stk L @ vs) ! 1)\<rparr>) = Some ctx"
    using mock_call_stack [OF assms(1) Cons.prems(1,2) c] by blast
  show ?case
  proof (cases "(0, c) \<in> set rs1")
    case True
    with Cons.IH [OF l(1) _ _ r, of "st @ vs"] l Cons.prems(2,3) show ?thesis by simp
  next
    case False
    with rs Cons.prems(5) l(4) Cons.prems(3) show ?thesis by auto
  qed
qed

text \<open>The mock interface repeats its first answer. The results of a call stay at the bottom of the Lua stack, where
  the next call reads them. After a first successful call, every later call that succeeds, with
  whatever key and request, returns the data, the length, the type and the code of the first one,
  whatever the script answers.\<close>

theorem mock_repeats_first:
  assumes "lua_stack_documented api stk" and "mock_L s = Some L" and "stk L = []" and "mock_file_path s \<noteq> []"
    and "luat_mock_call api al (new_ctx k req) s = Some (0, first, s1)"
    and "mock_calls api al qs s1 = Some (rs, s2)"
  shows "\<forall>(ret, ctx) \<in> set rs. ret = 0 \<longrightarrow> same_answer ctx first"
proof -
  obtain L1 vs where l: "mock_L s1 = Some L1" "mock_file_path s1 = mock_file_path s" "stk L1 = vs" "length vs = 2"
      "mock_answer al (vs ! 1) ((new_ctx k req)\<lparr>resp_code := lua_tointeger api (vs ! 0), resp_type := lua_type (vs ! 1)\<rparr>) = Some first"
    using mock_call_stack [OF assms(1,2,4,5)] assms(3) by auto
  then obtain x y where vs: "vs = [x, y]" by (auto simp: numeral_2_eq_2 length_Suc_conv)
  have "same_answer c first" if c: "(0, c) \<in> set rs" for c
  proof -
    obtain k' req' where "mock_answer al y ((new_ctx k' req')\<lparr>resp_code := lua_tointeger api x, resp_type := lua_type y\<rparr>) = Some c"
      using mock_calls_fixed [OF assms(1) l(1) _ _ assms(6) c, of x y "[]"] l vs assms(4) by auto
    from mock_answer_same [OF this] l(5) vs show ?thesis by simp
  qed
  then show ?thesis by auto
qed

text \<open>A machine that counts the calls and answers with their number.\<close>

definition count_lua :: "(lua_val list \<times> int) lua_api" where
  "count_lua = \<lparr> lua_push = \<lambda>v L. (fst L @ [v], snd L),
     lua_pcall = \<lambda>_ _ L. (0, (take (length (fst L) - 3) (fst L) @ [LInt 0, LInt (snd L)], snd L + 1)),
     lua_index = \<lambda>i L. fst L ! (i - 1),
     lua_tointeger = \<lambda>v. case v of LInt n \<Rightarrow> n | _ \<Rightarrow> 0 \<rparr>"

lemma count_lua_documented: "lua_stack_documented count_lua fst"
  by (simp add: lua_stack_documented_def count_lua_def)

definition count_start :: "(lua_val list \<times> int) mock_state" where
  "count_start = \<lparr> mock_L = Some ([], 41), mock_file_path = [109] \<rparr>"

lemmas count_defs = count_lua_def count_start_def luat_mock_call_def mock_answer_def new_ctx_def

theorem mock_repeats_first_witness:
  "lua_stack_documented count_lua fst \<and>
   (\<exists>first s1 rs s2. luat_mock_call count_lua True (new_ctx [1] []) count_start = Some (0, first, s1) \<and> resp_len first = 4 \<and>
      mock_calls count_lua True [([2], []), ([3], [])] s1 = Some (rs, s2) \<and> length rs = 2 \<and>
      (\<forall>(ret, ctx) \<in> set rs. ret = 0 \<longrightarrow> same_answer ctx first))"
proof -
  obtain first s1 where f: "luat_mock_call count_lua True (new_ctx [1] []) count_start = Some (0, first, s1)" "resp_len first = 4"
      and s1: "s1 = \<lparr> mock_L = Some ([LInt 0, LInt 41], 42), mock_file_path = [109] \<rparr>"
    by (simp add: count_defs)
  obtain rs s2 where r: "mock_calls count_lua True [([2], []), ([3], [])] s1 = Some (rs, s2)" "length rs = 2"
    unfolding s1 by (simp add: count_defs)
  have "\<forall>(ret, ctx) \<in> set rs. ret = 0 \<longrightarrow> same_answer ctx first"
    by (rule mock_repeats_first [OF count_lua_documented _ _ _ f(1) r(1), of "([], 41)"]) (simp_all add: count_start_def)
  with f r count_lua_documented show ?thesis by blast
qed

section \<open>Answers of the drivers\<close>

text \<open>\<open>luat_adc_read\<close> takes eight bytes of an answer that it has tested for four only: an answer that is a number is
  read behind its end.\<close>

lemma adc_read_number_undefined:
  assumes "luat_mock_call api al (new_ctx (ascii ''adc.read'') (int_bytes pin)) s = Some (0, ctx, s')"
    and "resp_len ctx = 4" and "resp_data ctx = Some bs" and "length bs = 4"
  shows "luat_adc_read cpu vbat (Some (api, al)) pin s = None"
  using assms by (simp add: luat_adc_read_def mock_ask_def peek_def)

text \<open>\<open>luat_pm_last_state\<close> stores the second value in the first parameter and nothing in the second.\<close>

lemma pm_last_state_overwritten:
  assumes "luat_mock_call api al (new_ctx (ascii ''pm.lastState'') []) s = Some (0, ctx, s')"
    and "resp_len ctx = 8" and "resp_data ctx = Some (int_bytes a @ int_bytes b @ [0])"
  shows "luat_pm_last_state (Some (api, al)) x y s = Some (0, int_val (int_bytes b), y, s')"
  using assms by (simp add: luat_pm_last_state_def mock_ask_def peek_def int_bytes_def)

end
