(* ===== verification/Log_Mcu.thy ===== *)
theory Log_Mcu
  imports Luatos_Prelude
begin

text \<open>
  The log output, \<open>port/luat_log_mini.c\<close>, and the processor functions, \<open>port/driver/luat_mcu_pc.c\<close>: the layout of a line
  in its buffer, the clock and the identification of the machine. The formatting of the message,
  the conversion of hexadecimal text and the output of the system command are parameters.
\<close>

section \<open>Log\<close>

datatype log_level = LOG_DEBUG | LOG_INFO | LOG_WARN | LOG_ERROR

record log_state =
  luat_log_level_cur :: nat
  luat_log_uart_port :: nat
  log_out :: "string list" \<comment> \<open>what was printed\<close>

definition luat_log_set_uart_port :: "int \<Rightarrow> log_state \<Rightarrow> log_state" where
  "luat_log_set_uart_port port s = s\<lparr>luat_log_uart_port := nat (port mod 256)\<rparr>"

definition luat_log_set_level :: "int \<Rightarrow> log_state \<Rightarrow> log_state" where
  "luat_log_set_level level s = s\<lparr>luat_log_level_cur := nat (level mod 256)\<rparr>"

definition luat_log_get_level :: "log_state \<Rightarrow> nat" where
  "luat_log_get_level s = luat_log_level_cur s"

text \<open>\<open>stamp\<close> is the text of the time; the command line mode prints without it.\<close>

definition luat_log_write :: "bool \<Rightarrow> string \<Rightarrow> string \<Rightarrow> log_state \<Rightarrow> log_state" where
  "luat_log_write climode stamp txt s = s\<lparr>log_out := log_out s @ [if climode then txt else stamp @ txt]\<rparr>"

definition cstr :: "char list \<Rightarrow> string" where
  "cstr buf = takeWhile (\<lambda>c. c \<noteq> CHR 0x00) buf"

text \<open>The formatted message is stored with its terminator in at most \<open>n\<close> bytes; its whole length is returned.\<close>

definition vsnprintf_at :: "nat \<Rightarrow> nat \<Rightarrow> string \<Rightarrow> char list \<Rightarrow> (nat \<times> char list) option" where
  "vsnprintf_at off n msg buf =
     (if n = 0 then Some (length msg, buf)
      else do { buf \<leftarrow> poke off (take (n - 1) msg @ [CHR 0x00]) buf; Some (length msg, buf) })"

text \<open>The levels are numbers of the LuatOS library; \<open>name\<close> yields their letters.\<close>

definition level_char :: "(int \<Rightarrow> log_level option) \<Rightarrow> int \<Rightarrow> char" where
  "level_char name level =
     (case name level of Some LOG_DEBUG \<Rightarrow> CHR ''D'' | Some LOG_INFO \<Rightarrow> CHR ''I'' | Some LOG_WARN \<Rightarrow> CHR ''W''
      | Some LOG_ERROR \<Rightarrow> CHR ''E'' | None \<Rightarrow> CHR 0x3F)"

definition luat_log_log :: "(int \<Rightarrow> log_level option) \<Rightarrow> bool \<Rightarrow> string \<Rightarrow> int \<Rightarrow> string \<Rightarrow> string \<Rightarrow> log_state \<Rightarrow> log_state option" where
  "luat_log_log name climode stamp level tag msg s =
     (if int (luat_log_level_cur s) > level then Some s
      else do {
        let buff = replicate 4096 (CHR 0x00);
        buff \<leftarrow> poke 0 [level_char name level] buff;
        buff \<leftarrow> poke 1 [CHR ''/''] buff;
        let taglen = (if length tag > 2048 then 2048 else length tag);
        buff \<leftarrow> poke 2 (take taglen tag) buff;
        buff \<leftarrow> poke (2 + taglen) [CHR '' ''] buff;
        (len, buff) \<leftarrow> vsnprintf_at (3 + taglen) (4096 - length (cstr buff)) msg buff;
        if len > 0
        then do { let len = length (cstr buff);
                  let len = (if len > 4095 then 4095 else len);
                  buff \<leftarrow> poke len [CHR 0x0A] buff;
                  Some (luat_log_write climode stamp (take (len + 1) buff) s) }
        else Some s })"

section \<open>Processor\<close>

record pcconf =
  mcu_unique_id :: "byte list"
  mcu_mhz :: nat

text \<open>\<open>fgets\<close> reads up to the end of a line or \<open>n - 1\<close> characters; at the end of the input it leaves the buffer.\<close>

fun fgets_line :: "nat \<Rightarrow> string \<Rightarrow> string \<times> string" where
  "fgets_line 0 inp = ([], inp)"
| "fgets_line (Suc k) [] = ([], [])"
| "fgets_line (Suc k) (c # cs) = (if c = CHR 0x0A then ([c], cs) else (let (l, rest) = fgets_line k cs in (c # l, rest)))"

definition fgets :: "nat \<Rightarrow> string \<Rightarrow> string \<Rightarrow> string \<times> string" where
  "fgets n inp buf = (if inp = [] then (buf, []) else fgets_line (n - 1) inp)"

definition has_uuid :: "string \<Rightarrow> bool" where
  "has_uuid l \<longleftrightarrow> (\<exists>i\<in>{..length l}. take 4 (drop i l) = ''UUID'')"

definition uuid_digits :: "string \<Rightarrow> string" where
  "uuid_digits l = filter (\<lambda>c. c \<notin> {CHR ''-'', CHR '' '', CHR 0x0D, CHR 0x0A}) (take 64 l)"

partial_function (option) uuid_loop :: "string \<Rightarrow> string \<Rightarrow> string option" where
  "uuid_loop inp buf = (let (buf, inp) = fgets 128 inp buf in if has_uuid buf then uuid_loop inp buf else Some (uuid_digits buf))"

text \<open>\<open>cmd\<close> is the output of the command, if it could be started; \<open>fromhex\<close> converts pairs of digits. A missing
  stream is closed nevertheless.\<close>

definition luat_mcu_unique_id :: "string option \<Rightarrow> (string \<Rightarrow> byte list) \<Rightarrow> pcconf \<Rightarrow> (byte list \<times> pcconf) option" where
  "luat_mcu_unique_id cmd fromhex c =
     (if mcu_unique_id c \<noteq> [] then Some (mcu_unique_id c, c)
      else do { inp \<leftarrow> cmd;
                ds \<leftarrow> uuid_loop inp [];
                let uid = take (length ds div 2) (fromhex ds);
                Some (uid, c\<lparr>mcu_unique_id := uid\<rparr>) })"

definition luat_mcu_get_clk :: "pcconf \<Rightarrow> nat" where
  "luat_mcu_get_clk c = mcu_mhz c"

definition luat_mcu_tick64 :: "u64 \<Rightarrow> u64 \<Rightarrow> u64" where
  "luat_mcu_tick64 uv_startup_ns ns = (ns - uv_startup_ns) div 1000"

definition luat_mcu_tick64_ms :: "u64 \<Rightarrow> u64 \<Rightarrow> u64" where
  "luat_mcu_tick64_ms uv_startup_ns ns = luat_mcu_tick64 uv_startup_ns ns div 1000"

definition luat_mcu_ticks :: "u64 \<Rightarrow> u64 \<Rightarrow> int" where
  "luat_mcu_ticks uv_startup_ns ns = sint (ucast (luat_mcu_tick64 uv_startup_ns ns div 1000) :: u32)"

section \<open>Log lines\<close>

text \<open>A buffer that begins with a text and is zero behind it.\<close>

definition zbuf :: "string \<Rightarrow> char list" where
  "zbuf xs = xs @ replicate (4096 - length xs) (CHR 0x00)"

lemma cstr_append: "CHR 0x00 \<notin> set xs \<Longrightarrow> cstr (xs @ CHR 0x00 # ys) = xs"
  by (induction xs) (auto simp: cstr_def)

lemma zbuf_Cons: "length xs < 4096 \<Longrightarrow> zbuf xs = xs @ CHR 0x00 # replicate (4095 - length xs) (CHR 0x00)"
proof -
  assume "length xs < 4096"
  then have "4096 - length xs = Suc (4095 - length xs)" by simp
  then show ?thesis by (simp only: zbuf_def replicate_Suc)
qed

lemma zbuf_nul: "length xs < 4096 \<Longrightarrow> zbuf (xs @ [CHR 0x00]) = zbuf xs"
  by (simp only: zbuf_Cons) (simp add: zbuf_def)

lemma cstr_zbuf: "CHR 0x00 \<notin> set xs \<Longrightarrow> length xs < 4096 \<Longrightarrow> cstr (zbuf xs) = xs"
  by (simp add: zbuf_Cons cstr_append)

lemma poke_zbuf: "length xs + length ys \<le> 4096 \<Longrightarrow> n = length xs \<Longrightarrow> poke n ys (zbuf xs) = Some (zbuf (xs @ ys))"
  by (simp add: poke_def zbuf_def)

lemma zbuf_Nil: "replicate 4096 (CHR 0x00) = zbuf []"
  by (simp add: zbuf_def)

lemma level_char_nonzero: "level_char name level \<noteq> CHR 0x00"
  by (simp add: level_char_def split: option.splits log_level.splits)

text \<open>C40: A log line is complete and stays inside of its buffer. For a level that is not suppressed and a message that is not
  empty, \<open>luat_log_log\<close> prints the letter of the level, a slash, the first 2048 characters of the tag,
  a space and the message, cut to 4095 characters, and a line break, for tags and messages of any length.\<close>

theorem log_line:
  assumes "int (luat_log_level_cur s) \<le> level" and "msg \<noteq> []" and "CHR 0x00 \<notin> set tag" and "CHR 0x00 \<notin> set msg"
  shows "luat_log_log name climode stamp level tag msg s =
           Some (luat_log_write climode stamp
             (take 4095 (level_char name level # ''/'' @ take 2048 tag @ '' '' @ msg) @ [CHR 0x0A]) s)"
proof -
  define tl where "tl = (if length tag > 2048 then 2048 else length tag)"
  define h where "h = [level_char name level, CHR ''/''] @ take tl tag @ '' ''"
  have tl: "tl \<le> 2048" "take tl tag = take 2048 tag" "length (take tl tag) = tl" by (auto simp: tl_def)
  have lh: "length h = 3 + tl" using tl(3) by (simp add: h_def)
  have nh: "CHR 0x00 \<notin> set h" using assms(3) set_take_subset [of tl tag] level_char_nonzero by (fastforce simp: h_def)
  define t where "t = h @ take (4095 - length h) msg"
  have lt: "length t \<le> 4095" using lh tl(1) by (simp add: t_def)
  have nt: "CHR 0x00 \<notin> set t" using nh assms(4) set_take_subset [of "4095 - length h" msg] by (auto simp: t_def)
  have tk: "take 4095 (level_char name level # ''/'' @ take 2048 tag @ '' '' @ msg) = t"
  proof -
    have "4093 - tl = Suc (4092 - tl)" using tl(1) by simp
    with lh tl show ?thesis by (simp add: t_def h_def)
  qed
  have b1: "poke 0 [level_char name level] (replicate 4096 (CHR 0x00)) = Some (zbuf [level_char name level])"
    unfolding zbuf_Nil by (simp add: poke_zbuf)
  have b2: "poke 1 [CHR ''/''] (zbuf [level_char name level]) = Some (zbuf [level_char name level, CHR ''/''])"
    by (subst poke_zbuf) simp_all
  have b3: "poke 2 (take tl tag) (zbuf [level_char name level, CHR ''/'']) = Some (zbuf ([level_char name level, CHR ''/''] @ take tl tag))"
    using tl by (subst poke_zbuf) simp_all
  have b4: "poke (2 + tl) [CHR '' ''] (zbuf ([level_char name level, CHR ''/''] @ take tl tag)) = Some (zbuf h)"
    using tl by (subst poke_zbuf) (simp_all add: h_def)
  have c: "cstr (zbuf h) = h" using nh lh tl(1) by (simp add: cstr_zbuf)
  have "poke (3 + tl) (take (4096 - length h - 1) msg @ [CHR 0x00]) (zbuf h) = Some (zbuf (t @ [CHR 0x00]))"
    using lh tl(1) by (subst poke_zbuf) (simp_all add: t_def)
  then have b5: "vsnprintf_at (3 + tl) (4096 - length (cstr (zbuf h))) msg (zbuf h) = Some (length msg, zbuf t)"
    using lh tl(1) lt unfolding c by (simp add: vsnprintf_at_def zbuf_nul)
  have ct: "cstr (zbuf t) = t" using nt lt by (simp add: cstr_zbuf)
  have b6: "poke (length t) [CHR 0x0A] (zbuf t) = Some (zbuf (t @ [CHR 0x0A]))" using lt by (simp add: poke_zbuf)
  have t6: "take (length t + 1) (zbuf (t @ [CHR 0x0A])) = t @ [CHR 0x0A]" by (simp add: zbuf_def)
  have lv: "(int (luat_log_level_cur s) > level) = False" and lm: "(length msg > 0) = True" and l5: "(length t > 4095) = False"
    using assms(1,2) lt by simp_all
  show ?thesis unfolding tk luat_log_log_def
    by (simp only: Let_def tl_def [symmetric] b1 b2 b3 b4 b5 b6 t6 ct lv lm l5 if_True if_False Option.bind.simps prod.case)
qed

theorem log_line_witness:
  "luat_log_log (\<lambda>_. Some LOG_INFO) True [] 2 ''main'' ''ok'' \<lparr> luat_log_level_cur = 1, luat_log_uart_port = 0, log_out = [] \<rparr> =
     Some \<lparr> luat_log_level_cur = 1, luat_log_uart_port = 0, log_out = [''I/main ok'' @ [CHR 0x0A]] \<rparr>"
  using log_line [of "\<lparr> luat_log_level_cur = 1, luat_log_uart_port = 0, log_out = [] \<rparr>" 2 "''ok''" "''main''" "\<lambda>_. Some LOG_INFO" True "[]"]
  by (simp add: luat_log_write_def level_char_def)

section \<open>The identification of the machine\<close>

lemma fgets_line_lf: "CHR 0x0A \<notin> set xs \<Longrightarrow> length xs < k \<Longrightarrow> fgets_line k (xs @ CHR 0x0A # rest) = (xs @ [CHR 0x0A], rest)"
proof (induction xs arbitrary: k)
  case Nil
  then show ?case by (cases k) auto
next
  case (Cons x xs)
  then obtain k' where "k = Suc k'" by (cases k) auto
  with Cons show ?case by auto
qed

lemma uuid_loop_line:
  assumes "CHR 0x0A \<notin> set xs" and "length xs < 127"
  shows "uuid_loop (xs @ CHR 0x0A # rest) buf =
           (if has_uuid (xs @ [CHR 0x0A]) then uuid_loop rest (xs @ [CHR 0x0A]) else Some (uuid_digits (xs @ [CHR 0x0A])))"
proof -
  have "fgets 128 (xs @ CHR 0x0A # rest) buf = (xs @ [CHR 0x0A], rest)"
    using fgets_line_lf [of xs 127 rest] assms by (simp add: fgets_def)
  then show ?thesis by (subst uuid_loop.simps) (simp only: Let_def prod.case)
qed

text \<open>At the end of the input a line with the word UUID is never left.\<close>

lemma uuid_loop_stuck: "has_uuid buf \<Longrightarrow> uuid_loop [] buf = None"
proof -
  have "\<not> (inp = [] \<and> has_uuid b)" if "uuid_loop inp b = Some r" for inp b r
  proof (rule uuid_loop.raw_induct [where P = "\<lambda>inp b r. \<not> (inp = [] \<and> has_uuid b)", OF _ that], goal_cases)
    case (1 f inp b r)
    show ?case
    proof
      assume e: "inp = [] \<and> has_uuid b"
      with 1(2) have "f [] b = Some r" by (simp add: fgets_def)
      with 1(1) e show False by blast
    qed
  qed
  then show "has_uuid buf \<Longrightarrow> uuid_loop [] buf = None" by (cases "uuid_loop [] buf") auto
qed

lemma not_has_uuid_Nil: "\<not> has_uuid []"
  by (simp add: has_uuid_def)

text \<open>The identification may never come. When the system command prints a heading with the word UUID and nothing
  behind it, \<open>luat_mcu_unique_id\<close> does not return, because at the end of the input the heading stays in the
  buffer and is tested again and again. When the command prints nothing the call returns an empty
  identification, and when another line follows the heading, it returns the bytes of the digits of that
  line and remembers them.\<close>

theorem mcu_unique_id_heading:
  assumes "mcu_unique_id c = []" and "has_uuid (h @ [CHR 0x0A])" and "CHR 0x0A \<notin> set h" and "length h < 127"
  shows "luat_mcu_unique_id (Some (h @ [CHR 0x0A])) fromhex c = None \<and>
         luat_mcu_unique_id (Some []) fromhex c = Some ([], c) \<and>
         (\<forall>l rest. CHR 0x0A \<notin> set l \<and> length l < 127 \<and> \<not> has_uuid (l @ [CHR 0x0A]) \<longrightarrow>
            (let ds = uuid_digits (l @ [CHR 0x0A]); uid = take (length ds div 2) (fromhex ds)
             in luat_mcu_unique_id (Some (h @ [CHR 0x0A] @ l @ [CHR 0x0A] @ rest)) fromhex c =
                  Some (uid, c\<lparr>mcu_unique_id := uid\<rparr>)))"
proof (intro conjI allI impI)
  have "uuid_loop (h @ [CHR 0x0A]) [] = None"
    using uuid_loop_line [OF assms(3,4), of "[]" "[]"] assms(2) uuid_loop_stuck by simp
  then show "luat_mcu_unique_id (Some (h @ [CHR 0x0A])) fromhex c = None" using assms(1) by (simp add: luat_mcu_unique_id_def)
  have "uuid_loop [] [] = Some []" by (subst uuid_loop.simps) (simp add: fgets_def not_has_uuid_Nil uuid_digits_def)
  then show "luat_mcu_unique_id (Some []) fromhex c = Some ([], c)" using assms(1) by (simp add: luat_mcu_unique_id_def)
  fix l rest
  assume l: "CHR 0x0A \<notin> set l \<and> length l < 127 \<and> \<not> has_uuid (l @ [CHR 0x0A])"
  have "uuid_loop (h @ [CHR 0x0A] @ l @ [CHR 0x0A] @ rest) [] = Some (uuid_digits (l @ [CHR 0x0A]))"
    using uuid_loop_line [OF assms(3,4), of "l @ [CHR 0x0A] @ rest" "[]"] uuid_loop_line [of l rest "h @ [CHR 0x0A]"] l assms(2) by simp
  then show "let ds = uuid_digits (l @ [CHR 0x0A]); uid = take (length ds div 2) (fromhex ds)
      in luat_mcu_unique_id (Some (h @ [CHR 0x0A] @ l @ [CHR 0x0A] @ rest)) fromhex c = Some (uid, c\<lparr>mcu_unique_id := uid\<rparr>)"
    using assms(1) by (simp add: luat_mcu_unique_id_def Let_def)
qed

theorem mcu_unique_id_heading_witness:
  "has_uuid (''UUID'' @ [CHR 0x0A]) \<and>
   luat_mcu_unique_id (Some (''UUID'' @ [CHR 0x0A])) (\<lambda>_. []) \<lparr> mcu_unique_id = [], mcu_mhz = 1 \<rparr> = None"
proof -
  have h: "has_uuid (''UUID'' @ [CHR 0x0A])" unfolding has_uuid_def by (rule bexI [of _ 0]) simp_all
  show ?thesis using mcu_unique_id_heading [of "\<lparr> mcu_unique_id = [], mcu_mhz = 1 \<rparr>" "''UUID''" "\<lambda>_. []"] h by simp
qed

text \<open>The counter of milliseconds is the counter of microseconds divided, as long as it fits into 31 bits; then it is
  negative.\<close>

lemma mcu_ticks_small:
  assumes "unat (ns - uv_startup_ns) div 1000000 < 2 ^ 31"
  shows "luat_mcu_ticks uv_startup_ns ns = int (unat (ns - uv_startup_ns) div 1000000)"
proof -
  let ?t = "luat_mcu_tick64 uv_startup_ns ns div 1000"
  have t: "unat ?t = unat (ns - uv_startup_ns) div 1000000"
    by (simp add: luat_mcu_tick64_def unat_div div_mult2_eq [symmetric])
  then have u: "uint ?t = int (unat (ns - uv_startup_ns) div 1000000)" by (simp only: uint_nat)
  have "uint (ucast ?t :: u32) = uint ?t mod 2 ^ 32" by (simp add: unsigned_ucast_eq take_bit_eq_mod)
  then have "uint (ucast ?t :: u32) = int (unat (ns - uv_startup_ns) div 1000000)" using assms unfolding u by simp
  then show ?thesis using assms unfolding luat_mcu_ticks_def
    by (simp add: sint_uint signed_take_bit_int_eq_self)
qed

end
