(* ===== verification/Boot_Pc.thy ===== *)
theory Boot_Pc
  imports Cmds Net_Libuv Fs_Mini Heap_Mini Uart_Pc
begin

text \<open>
  The start of the program: \<open>main\<close> of \<open>src/main_mini.c\<close> and \<open>luat_pcconf_init\<close> of \<open>port/luat_pcconf_pc.c\<close>, as built
  without Windows, LVGL and lwIP. The components are put together in the order of the source:
  heaps, serial ports, file systems, network, command line. \<open>lua_main\<close> and \<open>luat_main\<close>, which run
  the Lua machine, belong to Lua and to the LuatOS library.
\<close>

section \<open>The state after the start\<close>

record ('p, 's) pc_state =
  pc_heap :: "'p heap_state"
  pc_uarts :: uart_table
  pc_fs :: "fs_call list"
  pc_lfs :: 's
  pc_net :: net
  pc_cmd :: cmd_state

datatype pc_run = LuaMain | LuatMain | Quit int

text \<open>The world outside: the addresses that \<open>malloc\<close> returns for the two pools and the memory of the virtual
  machine, the libraries, and the 64 KiB that a packer may have replaced in the program.\<close>

record ('p, 's, 'f, 'd) pc_env =
  pe_bget :: "'p bget_api"
  pe_sram :: addr
  pe_psram :: addr
  pe_vm :: addr
  pe_uart :: uart_env
  pe_lfs :: "('s, 'f, 'd) lfs_api"
  pe_net :: nenv
  pe_cmd :: cenv
  pe_luadb_mod :: "byte list"

definition luat_pcconf_init :: "uart_env \<Rightarrow> uart_table \<Rightarrow> uart_table" where
  "luat_pcconf_init env drvs = fold (\<lambda>i d. d(i := Some (uart_udp env))) [0..<128] drvs"

definition luatdb_secret :: "byte list" where
  "luatdb_secret =
     [0xa8, 0xe4, 0x9c, 0x1a, 0x57, 0x4b, 0x00, 0x2f, 0x4c, 0xc4, 0x74, 0xb8, 0x69, 0x1d, 0x90, 0xc1,
      0x84, 0x24, 0x16, 0x11, 0x79, 0xa2, 0xd0, 0x4b, 0xfc, 0xf5, 0x14, 0x5d, 0xdd, 0x54, 0xdd, 0x55]"

definition uv_luat_main :: "nat \<Rightarrow> pc_run" where
  "uv_luat_main cmdline_argc = (if cmdline_argc = 1 then LuaMain else LuatMain)"

definition main_pc :: "('p, 's, 'f, 'd) pc_env \<Rightarrow> string list \<Rightarrow> ('p, 's) pc_state \<Rightarrow> (pc_run \<times> ('p, 's) pc_state) option" where
  "main_pc env args s =
     do { h \<leftarrow> luat_heap_opt_init (pe_bget env) (pe_sram env) LUAT_HEAP_SRAM (pc_heap s);
          let u = luat_pcconf_init (pe_uart env) (pc_uarts s);
          let h = h\<lparr>hs_lua := bg_pool (pe_bget env) (pe_vm env) (2 * 1024 * 1024)\<rparr>;
          h \<leftarrow> luat_heap_opt_init (pe_bget env) (pe_psram env) LUAT_HEAP_PSRAM h;
          let (_, calls, fs) = luat_fs_init False (pe_lfs env) (cs_luadb_ptr (pc_cmd s)) (pc_lfs s);
          n \<leftarrow> luat_network_init (pe_net env) (pc_net s);
          let s = s\<lparr>pc_heap := h, pc_uarts := u, pc_fs := pc_fs s @ calls, pc_lfs := fs, pc_net := n\<rparr>;
          head \<leftarrow> peek 0 32 (pe_luadb_mod env);
          if head = luatdb_secret
          then Some (uv_luat_main 2, s\<lparr>pc_cmd := (pc_cmd s)\<lparr>cs_luadb_ptr := Some (drop 32 (pe_luadb_mod env))\<rparr>\<rparr>)
          else do { (r, _, c) \<leftarrow> luat_cmd_parse (pe_cmd env) args (pc_cmd s);
                    let s = s\<lparr>pc_cmd := c\<rparr>;
                    Some (case r of CmdExit n \<Rightarrow> (Quit n, s)
                          | CmdReturn n \<Rightarrow> if n \<noteq> 0 then (Quit n, s) else (uv_luat_main (length args + 1), s)) } }"

section \<open>What is ready and what is not\<close>

fun mount_points :: "fs_call list \<Rightarrow> string list" where
  "mount_points [] = []"
| "mount_points (FsMount c # cs) = fc_mount_point c # mount_points cs"
| "mount_points (_ # cs) = mount_points cs"

lemma pcconf_uarts: "0 \<le> i \<Longrightarrow> i < 128 \<Longrightarrow> luat_uart_exist (luat_pcconf_init env drvs) i"
proof -
  have f: "fold (\<lambda>i d. d(i := Some v)) xs d n = (if n \<in> set xs then Some v else d n)" for xs d n and v :: uart_drv_opts
    by (induction xs arbitrary: d) auto
  show "0 \<le> i \<Longrightarrow> i < 128 \<Longrightarrow> luat_uart_exist (luat_pcconf_init env drvs) i"
    unfolding luat_pcconf_init_def luat_uart_exist_def f by auto
qed

lemma fs_init_mounts:
  assumes "luat_fs_init False api None s = (r, calls, s')"
  shows "mount_points calls = ['''', ''/ram/''] \<or> mount_points calls = ['''', ''/ram/'', ''/lfs2/'']"
  using assms by (auto simp: luat_fs_init_def pc_lfs2_mount_def fs_conf_def split: prod.splits if_splits)

lemma heap_init_fresh:
  assumes "hs_sram_ptr h = 0" and "sys \<noteq> 0"
  shows "luat_heap_opt_init bg sys LUAT_HEAP_SRAM h = Some (h\<lparr>hs_sram_ptr := sys, hs_sram := bg_pool bg sys (1024 * 1024)\<rparr>)"
  using assms by (simp add: luat_heap_opt_init_def)

lemma heap_init_psram_fresh:
  assumes "hs_psram_ptr h = 0" and "sys \<noteq> 0"
  shows "luat_heap_opt_init bg sys LUAT_HEAP_PSRAM h = Some (h\<lparr>hs_psram_ptr := sys, hs_psram := bg_pool bg sys (2 * 1024 * 1024)\<rparr>)"
  using assms by (simp add: luat_heap_opt_init_def)

text \<open>The start of a packed program. When the program carries an image behind the secret and memory is available, \<open>main\<close>
  comes to the LuatOS machine whatever the arguments are, with the image behind the secret as the script
  image. By then all 128 serial ports have a driver, the pools of both heaps are set up, and the mounted file systems
  are those of the host and the memory disks; the image itself is not mounted at this point, because the
  file systems are set up before it is found.\<close>

theorem boot_packed_image:
  assumes "hs_sram_ptr (pc_heap s) = 0" and "hs_psram_ptr (pc_heap s) = 0" and "pe_sram env \<noteq> 0" and "pe_psram env \<noteq> 0"
    and "cs_luadb_ptr (pc_cmd s) = None" and "pc_fs s = []" and "en_mem (pe_net env) (ns_tick (pc_net s))"
    and "pe_luadb_mod env = luatdb_secret @ img"
  shows "\<exists>s'. main_pc env args s = Some (LuatMain, s') \<and> cs_luadb_ptr (pc_cmd s') = Some img \<and>
           (\<forall>i. 0 \<le> i \<and> i < 128 \<longrightarrow> luat_uart_exist (pc_uarts s') i) \<and>
           hs_sram (pc_heap s') = bg_pool (pe_bget env) (pe_sram env) (1024 * 1024) \<and>
           hs_psram (pc_heap s') = bg_pool (pe_bget env) (pe_psram env) (2 * 1024 * 1024) \<and>
           (mount_points (pc_fs s') = ['''', ''/ram/''] \<or> mount_points (pc_fs s') = ['''', ''/ram/'', ''/lfs2/''])"
proof -
  let ?bg = "pe_bget env"
  let ?h1 = "(pc_heap s)\<lparr>hs_sram_ptr := pe_sram env, hs_sram := bg_pool ?bg (pe_sram env) (1024 * 1024)\<rparr>"
  let ?h2 = "?h1\<lparr>hs_lua := bg_pool ?bg (pe_vm env) (2 * 1024 * 1024)\<rparr>"
  let ?h3 = "?h2\<lparr>hs_psram_ptr := pe_psram env, hs_psram := bg_pool ?bg (pe_psram env) (2 * 1024 * 1024)\<rparr>"
  have h1: "luat_heap_opt_init ?bg (pe_sram env) LUAT_HEAP_SRAM (pc_heap s) = Some ?h1"
    by (rule heap_init_fresh [OF assms(1,3)])
  have h3: "luat_heap_opt_init ?bg (pe_psram env) LUAT_HEAP_PSRAM ?h2 = Some ?h3"
    by (rule heap_init_psram_fresh) (use assms(2,4) in simp_all)
  obtain r calls fs where f: "luat_fs_init False (pe_lfs env) None (pc_lfs s) = (r, calls, fs)" by (metis prod_cases3)
  obtain n where n: "luat_network_init (pe_net env) (pc_net s) = Some n"
    using assms(7) by (auto simp: luat_network_init_def heap_alloc_def)
  have p: "peek 0 32 (pe_luadb_mod env) = Some luatdb_secret" and d: "drop 32 (pe_luadb_mod env) = img"
    using assms(8) by (simp_all add: peek_def luatdb_secret_def)
  let ?s = "s\<lparr>pc_heap := ?h3, pc_uarts := luat_pcconf_init (pe_uart env) (pc_uarts s), pc_fs := pc_fs s @ calls, pc_lfs := fs,
    pc_net := n, pc_cmd := (pc_cmd s)\<lparr>cs_luadb_ptr := Some img\<rparr>\<rparr>"
  have "main_pc env args s = Some (LuatMain, ?s)"
    by (simp add: main_pc_def h1 [simplified] h3 [simplified] f n p d assms(5) uv_luat_main_def)
  with pcconf_uarts fs_init_mounts [OF f] assms(6) show ?thesis by (intro exI [of _ ?s]) simp
qed

definition demo_pc :: "(bool, list_fs) pc_state" where
  "demo_pc = \<lparr> pc_heap = \<lparr> hs_psram_ptr = 0, hs_sram_ptr = 0, hs_psram = False, hs_sram = False, hs_lua = False, hs_mem = \<lambda>_. 0 \<rparr>,
     pc_uarts = \<lambda>_. None, pc_fs = [], pc_lfs = [], pc_net = net_start, pc_cmd = cmd_start \<rparr>"

definition demo_pc_env :: "(bool, list_fs, lfs_view, list_dir) pc_env" where
  "demo_pc_env = \<lparr> pe_bget = one_bget, pe_sram = 4096, pe_psram = 8192, pe_vm = 64, pe_uart = demo_uart_env, pe_lfs = list_lfs,
     pe_net = \<lparr> en_mem = \<lambda>_. True, en_ret = \<lambda>_. 0 \<rparr>, pe_cmd = demo_cenv, pe_luadb_mod = luatdb_secret @ [1, 2, 3] \<rparr>"

theorem boot_packed_image_witness:
  "\<exists>s'. main_pc demo_pc_env [''x''] demo_pc = Some (LuatMain, s') \<and> cs_luadb_ptr (pc_cmd s') = Some [1, 2, 3] \<and>
     luat_uart_exist (pc_uarts s') 127"
proof -
  have "\<exists>s'. main_pc demo_pc_env [''x''] demo_pc = Some (LuatMain, s') \<and> cs_luadb_ptr (pc_cmd s') = Some [1, 2, 3] \<and>
     (\<forall>i. 0 \<le> i \<and> i < 128 \<longrightarrow> luat_uart_exist (pc_uarts s') i)"
    using boot_packed_image [of demo_pc demo_pc_env "[1, 2, 3]" "[''x'']"]
    by (fastforce simp: demo_pc_def demo_pc_env_def cmd_start_def)
  then show ?thesis by force
qed

text \<open>Without an image and without arguments the program starts the interactive interpreter.\<close>

lemma boot_interactive:
  assumes "main_pc env [] s = Some (r, s')" and "take 32 (pe_luadb_mod env) \<noteq> luatdb_secret"
  shows "r = LuaMain"
proof -
  obtain a calls fs where "luat_fs_init False (pe_lfs env) (cs_luadb_ptr (pc_cmd s)) (pc_lfs s) = (a, calls, fs)" by (metis prod_cases3)
  with assms show ?thesis
    by (auto simp: main_pc_def bind_eq_Some_conv peek_def luat_cmd_parse_def uv_luat_main_def split: if_splits)
qed

end
