(* ===== verification/Lwip_Def.thy ===== *)
theory Lwip_Def
  imports Luatos_Prelude
begin

text \<open>
  The helpers of the lwIP stack, \<open>lwip/core/def.c\<close> with the macros of \<open>lwip/def.h\<close> and \<open>lwip/arch.h\<close>:
  byte order, searching and comparing of strings, decimal numbers and the comparison in constant time.

  A pointer into a string is the list of the bytes from there to the end of its object; reading behind
  the end is \<^const>\<open>None\<close>. The host is little-endian, as \<open>lwip/arch/cc.h\<close> says.
\<close>

section \<open>Byte order\<close>

definition PP_HTONS :: "u16 \<Rightarrow> u16" where
  "PP_HTONS x = (push_bit 8 (x AND 0x00ff)) OR (drop_bit 8 (x AND 0xff00))"

definition PP_HTONL :: "u32 \<Rightarrow> u32" where
  "PP_HTONL x = (push_bit 24 (x AND 0x000000ff)) OR (push_bit 8 (x AND 0x0000ff00)) OR
     (drop_bit 8 (x AND 0x00ff0000)) OR (drop_bit 24 (x AND 0xff000000))"

definition lwip_htons :: "u16 \<Rightarrow> u16" where
  "lwip_htons n = PP_HTONS n"

definition lwip_htonl :: "u32 \<Rightarrow> u32" where
  "lwip_htonl n = PP_HTONL n"

definition LWIP_MAKEU32 :: "u32 \<Rightarrow> u32 \<Rightarrow> u32 \<Rightarrow> u32 \<Rightarrow> u32" where
  "LWIP_MAKEU32 a b c d = (push_bit 24 (a AND 0xff)) OR (push_bit 16 (b AND 0xff)) OR (push_bit 8 (c AND 0xff)) OR (d AND 0xff)"

section \<open>Characters\<close>

definition lwip_in_range :: "byte \<Rightarrow> byte \<Rightarrow> byte \<Rightarrow> bool" where
  "lwip_in_range c lo up \<longleftrightarrow> lo \<le> c \<and> c \<le> up"

definition lwip_isdigit :: "byte \<Rightarrow> bool" where
  "lwip_isdigit c = lwip_in_range c 0x30 0x39"

definition lwip_isxdigit :: "byte \<Rightarrow> bool" where
  "lwip_isxdigit c \<longleftrightarrow> lwip_isdigit c \<or> lwip_in_range c 0x61 0x66 \<or> lwip_in_range c 0x41 0x46"

definition lwip_islower :: "byte \<Rightarrow> bool" where
  "lwip_islower c = lwip_in_range c 0x61 0x7a"

definition lwip_isupper :: "byte \<Rightarrow> bool" where
  "lwip_isupper c = lwip_in_range c 0x41 0x5a"

definition lwip_isspace :: "byte \<Rightarrow> bool" where
  "lwip_isspace c \<longleftrightarrow> c = 0x20 \<or> c = 0x0c \<or> c = 0x0a \<or> c = 0x0d \<or> c = 0x09 \<or> c = 0x0b"

definition lwip_tolower :: "byte \<Rightarrow> byte" where
  "lwip_tolower c = (if lwip_isupper c then c - 0x41 + 0x61 else c)"

section \<open>Strings\<close>

text \<open>\<open>strlen\<close> and \<open>strncmp\<close> of the C library, on objects that may end without a terminator.\<close>

fun c_strlen :: "byte list \<Rightarrow> nat option" where
  "c_strlen [] = None"
| "c_strlen (c # s) = (if c = 0 then Some 0 else map_option Suc (c_strlen s))"

fun c_strncmp_eq :: "byte list \<Rightarrow> byte list \<Rightarrow> nat \<Rightarrow> bool option" where
  "c_strncmp_eq s t 0 = Some True"
| "c_strncmp_eq (c # s) (d # t) (Suc n) =
     (if c \<noteq> d then Some False else if c = 0 then Some True else c_strncmp_eq s t n)"
| "c_strncmp_eq _ _ _ = None"

text \<open>The comparison of one pair of characters: equal, or the same letter in another case.\<close>

definition case_eq :: "byte \<Rightarrow> byte \<Rightarrow> bool" where
  "case_eq c1 c2 =
     (if c1 \<noteq> c2
      then (let c1_upc = c1 OR 0x20 in
            if 0x61 \<le> c1_upc \<and> c1_upc \<le> 0x7a
            then (let c2_upc = c2 OR 0x20 in \<not> c1_upc \<noteq> c2_upc)
            else False)
      else True)"

fun lwip_stricmp :: "byte list \<Rightarrow> byte list \<Rightarrow> int option" where
  "lwip_stricmp (c1 # s1) (c2 # s2) =
     (if \<not> case_eq c1 c2 then Some 1
      else if c1 \<noteq> 0 then lwip_stricmp s1 s2 else Some 0)"
| "lwip_stricmp _ _ = None"

text \<open>The counter is decreased before it is tested: a length of 0 wraps around and never ends the loop.\<close>

fun lwip_strnicmp :: "byte list \<Rightarrow> byte list \<Rightarrow> u32 \<Rightarrow> int option" where
  "lwip_strnicmp (c1 # s1) (c2 # s2) len =
     (if \<not> case_eq c1 c2 then Some 1
      else let len = len - 1 in if len \<noteq> 0 \<and> c1 \<noteq> 0 then lwip_strnicmp s1 s2 len else Some 0)"
| "lwip_strnicmp _ _ _ = None"

text \<open>The search loops: the result is the offset of the match, \<open>Some None\<close> is the null pointer;
  \<open>room\<close> is the number of bytes from the current position to \<open>buffer + n\<close>.\<close>

fun strnstr_loop :: "byte list \<Rightarrow> byte list \<Rightarrow> nat \<Rightarrow> nat \<Rightarrow> nat \<Rightarrow> nat option option" where
  "strnstr_loop [] token tokenlen room off = None"
| "strnstr_loop (c # p) token tokenlen room off =
     (if c \<noteq> 0 \<and> tokenlen \<le> room
      then do {
        hit \<leftarrow> (if c = hd token then c_strncmp_eq (c # p) token tokenlen else Some False);
        if hit then Some (Some off) else strnstr_loop p token tokenlen (room - 1) (off + 1) }
      else Some None)"

definition lwip_strnstr :: "byte list \<Rightarrow> byte list \<Rightarrow> u32 \<Rightarrow> nat option option" where
  "lwip_strnstr buffer token n =
     do { tokenlen \<leftarrow> c_strlen token;
          if tokenlen = 0 then Some (Some 0) else strnstr_loop buffer token tokenlen (unat n) 0 }"

fun strnistr_loop :: "byte list \<Rightarrow> byte list \<Rightarrow> nat \<Rightarrow> nat \<Rightarrow> nat \<Rightarrow> nat option option" where
  "strnistr_loop [] token tokenlen room off = None"
| "strnistr_loop (c # p) token tokenlen room off =
     (if c \<noteq> 0 \<and> tokenlen \<le> room
      then do {
        r \<leftarrow> lwip_strnicmp (c # p) token (of_nat tokenlen);
        if r = 0 then Some (Some off) else strnistr_loop p token tokenlen (room - 1) (off + 1) }
      else Some None)"

definition lwip_strnistr :: "byte list \<Rightarrow> byte list \<Rightarrow> u32 \<Rightarrow> nat option option" where
  "lwip_strnistr buffer token n =
     do { tokenlen \<leftarrow> c_strlen token;
          if tokenlen = 0 then Some (Some 0) else strnistr_loop buffer token tokenlen (unat n) 0 }"

section \<open>Decimal numbers\<close>

text \<open>\<open>tmp\<close> and \<open>res\<close> are offsets into the buffer. The negation of the smallest number is undefined.\<close>

function itoa_digits :: "int \<Rightarrow> nat \<Rightarrow> nat \<Rightarrow> byte list \<Rightarrow> (int \<times> nat \<times> byte list) option" where
  "itoa_digits n tmp res buf =
     (if n > 0 \<and> tmp > res
      then do { let val = of_int (0x30 + n mod 10);
                buf \<leftarrow> poke (tmp - 1) [val] buf;
                itoa_digits (n div 10) (tmp - 1) res buf }
      else Some (n, tmp, buf))"
  by auto
termination by (relation "measure (\<lambda>(n, tmp, res, buf). tmp)") auto

definition lwip_itoa :: "byte list \<Rightarrow> u32 \<Rightarrow> int \<Rightarrow> byte list option" where
  "lwip_itoa result bufsize number =
     (if number = - (2 ^ 31) then None
      else if bufsize < 2 then (if bufsize = 1 then poke 0 [0] result else Some result)
      else do {
        let n = (if number \<ge> 0 then number else - number);
        let tmp = unat bufsize - 1;
        (res, buf) \<leftarrow> (if number < 0 then do { buf \<leftarrow> poke 0 [0x2d] result; Some (1, buf) } else Some (0, result));
        buf \<leftarrow> poke tmp [0] buf;
        (n, tmp, buf) \<leftarrow> itoa_digits n tmp res buf;
        if n \<noteq> 0 then poke 0 [0] buf
        else do {
          t \<leftarrow> peek tmp 1 buf;
          if t = [0] then poke res [0x30, 0] buf
          else do { ds \<leftarrow> peek tmp (unat bufsize - tmp) buf; poke res ds buf } } })"

section \<open>Comparison in constant time\<close>

definition lwip_memcmp_consttime :: "byte list \<Rightarrow> byte list \<Rightarrow> u32 \<Rightarrow> byte option" where
  "lwip_memcmp_consttime s1 s2 len =
     do { a1 \<leftarrow> peek 0 (unat len) s1; a2 \<leftarrow> peek 0 (unat len) s2;
          Some (fold (\<lambda>(x, y) ret. ret OR (x XOR y)) (zip a1 a2) 0) }"

section \<open>Lemmas on bit fields\<close>

lemma and_field: "(x :: 'a::len word) AND push_bit k (mask n) = push_bit k (take_bit n (drop_bit k x))"
  by (rule bit_eqI) (auto simp: bit_simps)

lemma unat_field:
  fixes x :: "'a::len word"
  shows "unat (take_bit n (drop_bit k x)) = unat x div 2 ^ k mod 2 ^ n"
proof -
  have "unat (take_bit n (drop_bit k x)) = take_bit n (drop_bit k (unat x))"
    by (simp add: unsigned_take_bit_eq unat_drop_bit_eq)
  then show ?thesis by (simp only: take_bit_eq_mod drop_bit_eq_div)
qed

lemma unat_u16_bound: "unat (x :: u16) < 65536"
  using unsigned_less [of x] by simp

lemma unat_u32_bound: "unat (x :: u32) < 4294967296"
  using unsigned_less [of x] by simp

lemma or_push_eq_plus: "take_bit k (b :: 'a::len word) = b \<Longrightarrow> push_bit k a OR b = push_bit k a + b"
proof (rule disjunctive_add_eq_or [symmetric])
  assume b: "take_bit k b = b"
  have "push_bit k a AND take_bit k b = 0" by (rule bit_eqI) (auto simp: bit_simps)
  then show "push_bit k a AND b = 0" unfolding b .
qed

lemma PP_HTONS_fields: "PP_HTONS x = push_bit 8 (take_bit 8 x) OR take_bit 8 (drop_bit 8 x)"
proof -
  have m: "(0x00ff :: u16) = mask 8" "(0xff00 :: u16) = push_bit 8 (mask 8)" by (simp_all add: mask_numeral)
  show ?thesis unfolding PP_HTONS_def m and_field
    by (rule bit_eqI) (auto simp: bit_simps)
qed

lemma unat_lwip_htons: "unat (lwip_htons x) = 256 * (unat x mod 256) + unat x div 256"
proof -
  have 1: "unat (push_bit 8 (take_bit 8 x)) = 256 * (unat x mod 256)"
  proof -
    have "unat (push_bit 8 (take_bit 8 x)) = take_bit 16 (push_bit 8 (take_bit 8 (unat x)))"
      by (simp add: unsigned_push_bit_eq unsigned_take_bit_eq)
    then show ?thesis by (simp only: take_bit_eq_mod push_bit_eq_mult) simp
  qed
  have 2: "unat (take_bit 8 (drop_bit 8 x)) = unat x div 256"
    using unat_u16_bound [of x] by (simp add: unat_field)
  have "unat x div 256 < 256" using unat_u16_bound [of x] by simp
  then have "256 * (unat x mod 256) + unat x div 256 < 2 ^ 16" by simp
  with 1 2 show ?thesis unfolding lwip_htons_def PP_HTONS_fields
    by (subst or_push_eq_plus) (simp_all add: unat_word_ariths(1))
qed

lemma lwip_htons_involution [simp]: "lwip_htons (lwip_htons x) = x"
proof -
  have "unat x div 256 < 256" using unat_u16_bound [of x] by simp
  then have "unat (lwip_htons (lwip_htons x)) = unat x" by (simp add: unat_lwip_htons)
  then show ?thesis by (simp add: word_unat_eq_iff)
qed

lemma PP_HTONL_fields: "PP_HTONL x = push_bit 24 (take_bit 8 x) OR push_bit 16 (take_bit 8 (drop_bit 8 x)) OR
    push_bit 8 (take_bit 8 (drop_bit 16 x)) OR take_bit 8 (drop_bit 24 x)"
proof -
  have m: "(0x000000ff :: u32) = mask 8" "(0x0000ff00 :: u32) = push_bit 8 (mask 8)"
    "(0x00ff0000 :: u32) = push_bit 16 (mask 8)" "(0xff000000 :: u32) = push_bit 24 (mask 8)"
    by (simp_all add: mask_numeral)
  show ?thesis unfolding PP_HTONL_def m and_field
    by (rule bit_eqI) (auto simp: bit_simps)
qed

text \<open>The bytes of a number in network order are those of the host number in reverse.\<close>

lemma le_bytes_u32:
  "le_bytes 4 (unat (y :: u32)) = [ucast y, ucast (drop_bit 8 y), ucast (drop_bit 16 y), ucast (drop_bit 24 y)]"
proof -
  have d: "(of_nat (unat y div 2 ^ k) :: byte) = ucast (drop_bit k y)" for k
  proof -
    have "unat (drop_bit k y) = drop_bit k (unat y)" by (rule unat_drop_bit_eq)
    also have "\<dots> = unat y div 2 ^ k" by (rule drop_bit_eq_div)
    finally have "unat y div 2 ^ k = unat (drop_bit k y)" by simp
    then show ?thesis by simp
  qed
  have four: "(4 :: nat) = Suc (Suc (Suc (Suc 0)))" by simp
  have "unat y div 256 div 256 = unat y div 2 ^ 16" "unat y div 256 div 256 div 256 = unat y div 2 ^ 24"
    by (simp_all only: div_mult2_eq [symmetric]) simp_all
  with d [of 8] d [of 16] d [of 24] show ?thesis by (simp only: four le_bytes.simps) simp
qed

lemma lwip_htonl_bytes: "le_bytes 4 (unat (lwip_htonl x)) = rev (le_bytes 4 (unat x))"
proof -
  have "(ucast (lwip_htonl x) :: byte) = ucast (drop_bit 24 x)"
    unfolding lwip_htonl_def PP_HTONL_fields by (rule bit_eqI) (simp add: bit_simps)
  moreover have "(ucast (drop_bit 8 (lwip_htonl x)) :: byte) = ucast (drop_bit 16 x)"
    unfolding lwip_htonl_def PP_HTONL_fields by (rule bit_eqI) (simp add: bit_simps)
  moreover have "(ucast (drop_bit 16 (lwip_htonl x)) :: byte) = ucast (drop_bit 8 x)"
    unfolding lwip_htonl_def PP_HTONL_fields by (rule bit_eqI) (simp add: bit_simps)
  moreover have "(ucast (drop_bit 24 (lwip_htonl x)) :: byte) = ucast x"
    unfolding lwip_htonl_def PP_HTONL_fields by (rule bit_eqI) (simp add: bit_simps)
  ultimately show ?thesis by (simp add: le_bytes_u32)
qed

lemma u32_eq_bytes: "le_bytes 4 (unat x) = le_bytes 4 (unat y) \<Longrightarrow> x = (y :: u32)"
proof -
  assume "le_bytes 4 (unat x) = le_bytes 4 (unat y)"
  then have "le_val (le_bytes 4 (unat x)) = le_val (le_bytes 4 (unat y))" by simp
  then show ?thesis using unat_u32_bound [of x] unat_u32_bound [of y]
    by (simp add: le_val_le_bytes_mod word_unat_eq_iff)
qed

lemma lwip_htonl_involution [simp]: "lwip_htonl (lwip_htonl x) = x"
  by (rule u32_eq_bytes) (simp add: lwip_htonl_bytes)

section \<open>Lemmas on strings\<close>

lemma or_set_bit: "bit (x :: 'a::len word) k \<Longrightarrow> x OR push_bit k 1 = x"
  by (rule bit_eqI) (auto simp: bit_simps)

lemma and_unset_bit: "\<not> bit (x :: 'a::len word) k \<Longrightarrow> x AND push_bit k 1 = 0"
  by (rule bit_eqI) (auto simp: bit_simps)

lemma unat_or_0x20: "unat (c OR 0x20 :: byte) = (if odd (unat c div 32) then unat c else unat c + 32)"
proof -
  have b: "bit c 5 \<longleftrightarrow> odd (unat c div 32)" 
  proof -
    have "bit c 5 = bit (unat c) 5" by (simp add: bit_unsigned_iff)
    also have "\<dots> \<longleftrightarrow> odd (unat c div 2 ^ 5)" by (rule bit_iff_odd)
    finally show ?thesis by simp
  qed
  have e: "(0x20 :: byte) = push_bit 5 1" by simp
  show ?thesis
  proof (cases "bit c 5")
    case True
    then have "c OR 0x20 = c" unfolding e by (rule or_set_bit)
    with True b show ?thesis by simp
  next
    case False
    then have "c AND 0x20 = 0" unfolding e by (rule and_unset_bit)
    then have p: "c OR 0x20 = c + 0x20" by (rule disjunctive_add_eq_or [symmetric])
    have n: "even (unat c div 32)" "unat c < 256" using False b unsigned_less [of c] by auto
    then have "unat c div 32 < 8" "unat c div 32 \<noteq> 7" by auto
    then have "unat c + 32 < 256" by linarith
    then have "unat (c + 0x20) = unat c + 32" by (simp add: unat_word_ariths(1))
    with n(1) p show ?thesis by simp
  qed
qed

lemma letter_codes: "n < 256 \<Longrightarrow> 97 \<le> (if odd (n div 32) then n else n + 32) \<and> (if odd (n div 32) then n else n + 32) \<le> 122 \<longleftrightarrow>
    65 \<le> n \<and> n \<le> 90 \<or> 97 \<le> n \<and> n \<le> (122::nat)"
proof -
  assume "n < 256"
  then have "n div 32 = 0 \<or> n div 32 = 1 \<or> n div 32 = 2 \<or> n div 32 = 3 \<or> n div 32 = 4 \<or> n div 32 = 5 \<or> n div 32 = 6 \<or> n div 32 = 7"
    by linarith
  then show ?thesis by (elim disjE) (simp_all, linarith+)
qed

lemma case_letter:
  "0x61 \<le> c OR 0x20 \<and> c OR 0x20 \<le> 0x7a \<longleftrightarrow> lwip_isupper c \<or> lwip_islower c"
  "lwip_isupper c \<Longrightarrow> c OR 0x20 = lwip_tolower c" "lwip_isupper c \<Longrightarrow> lwip_islower (lwip_tolower c)"
  "lwip_islower c \<Longrightarrow> c OR 0x20 = c" "lwip_islower c \<Longrightarrow> lwip_tolower c = c"
proof -
  note d = lwip_isupper_def lwip_islower_def lwip_in_range_def word_le_nat_alt
  have n: "unat c < 256" using unsigned_less [of c] by simp
  show "0x61 \<le> c OR 0x20 \<and> c OR 0x20 \<le> 0x7a \<longleftrightarrow> lwip_isupper c \<or> lwip_islower c"
    using letter_codes [OF n] by (simp only: d unat_or_0x20) simp
  show "c OR 0x20 = c" if "lwip_islower c"
  proof -
    from that have "unat c div 32 = 3" unfolding d by simp linarith
    then show ?thesis by (simp add: word_unat_eq_iff unat_or_0x20)
  qed
  show "lwip_tolower c = c" if "lwip_islower c"
    using that by (auto simp: d lwip_tolower_def)
  assume u: "lwip_isupper c"
  then have t: "unat (lwip_tolower c) = unat c + 32"
  proof -
    from u have "lwip_tolower c = c + 0x20" by (simp add: lwip_tolower_def)
    moreover from u have "unat c \<le> 90" unfolding d by simp
    ultimately show ?thesis by (simp add: unat_word_ariths(1))
  qed
  from u have "unat c div 32 = 2" unfolding d by simp linarith
  with t show "c OR 0x20 = lwip_tolower c" by (simp add: word_unat_eq_iff unat_or_0x20)
  from u t show "lwip_islower (lwip_tolower c)" by (simp add: d)
qed

lemma case_or: "lwip_islower (c OR 0x20) \<Longrightarrow> c OR 0x20 = lwip_tolower c"
  using case_letter [of c] by (auto simp: lwip_islower_def lwip_in_range_def)

text \<open>Two characters are taken as equal exactly if they are after conversion to lower case.\<close>

lemma case_eq_tolower: "case_eq c1 c2 \<longleftrightarrow> lwip_tolower c1 = lwip_tolower c2"
proof (cases "lwip_isupper c1 \<or> lwip_islower c1")
  case True
  then have 1: "c1 OR 0x20 = lwip_tolower c1" "lwip_islower (lwip_tolower c1)" using case_letter [of c1] by auto
  have "c1 OR 0x20 = c2 OR 0x20 \<longleftrightarrow> lwip_tolower c1 = lwip_tolower c2"
  proof
    assume "c1 OR 0x20 = c2 OR 0x20"
    with 1 show "lwip_tolower c1 = lwip_tolower c2" using case_or [of c2] by simp
  next
    assume e: "lwip_tolower c1 = lwip_tolower c2"
    then have "lwip_isupper c2 \<or> lwip_islower c2" using 1 by (auto simp: lwip_tolower_def split: if_splits)
    with e 1 show "c1 OR 0x20 = c2 OR 0x20" using case_letter [of c2] by auto
  qed
  with True 1 case_letter [of c1] show ?thesis by (auto simp: case_eq_def Let_def)
next
  case False
  then have 1: "lwip_tolower c1 = c1" and 2: "\<not> lwip_islower c1" by (auto simp: lwip_tolower_def)
  have "c1 = c2 \<longleftrightarrow> c1 = lwip_tolower c2" using False case_letter [of c2] by (cases "lwip_isupper c2") (auto simp: lwip_tolower_def [of c2])
  with False 1 case_letter [of c1] show ?thesis by (auto simp: case_eq_def Let_def)
qed

lemma lwip_tolower_0 [simp]: "lwip_tolower c = 0 \<longleftrightarrow> c = 0" "lwip_tolower 0 = 0"
  using case_letter [of c] by (auto simp: lwip_tolower_def lwip_isupper_def lwip_islower_def lwip_in_range_def)

text \<open>A string of C: no zero byte before the terminator.\<close>

lemma lwip_stricmp_spec:
  assumes "0 \<notin> set s" and "0 \<notin> set t"
  shows "lwip_stricmp (s @ 0 # x) (t @ 0 # y) = Some (if map lwip_tolower s = map lwip_tolower t then 0 else 1)"
  using assms
proof (induction s arbitrary: t)
  case Nil
  then show ?case by (cases t) (auto simp: case_eq_tolower)
next
  case (Cons c s)
  then show ?case by (cases t) (auto simp: case_eq_tolower)
qed

lemma unat_pred: "0 < (len :: 'a::len word) \<Longrightarrow> unat len = Suc (unat (len - 1))"
proof -
  assume "0 < len"
  then have "len \<noteq> 0" by auto
  then have "unat (len - 1) = unat len - 1" by (rule unat_minus_one)
  moreover have "unat len \<noteq> 0" using \<open>len \<noteq> 0\<close> by (simp add: unat_eq_zero)
  ultimately show ?thesis by simp
qed

lemma lwip_strnicmp_Cons:
  assumes "c \<noteq> 0"
  shows "lwip_strnicmp (c # s) (d # t) len =
    (if lwip_tolower c \<noteq> lwip_tolower d then Some 1 else if len - 1 = 0 then Some 0 else lwip_strnicmp s t (len - 1))"
  using assms by (simp only: lwip_strnicmp.simps case_eq_tolower Let_def) simp

lemma lwip_strnicmp_spec:
  assumes "0 \<notin> set s" and "0 \<notin> set t" and "0 < len"
  shows "lwip_strnicmp (s @ 0 # x) (t @ 0 # y) len =
     Some (if map lwip_tolower (take (unat len) s) = map lwip_tolower (take (unat len) t) then 0 else 1)"
  using assms
proof (induction s arbitrary: t len)
  case Nil
  then show ?case using unat_pred [OF Nil(3)] by (cases t) (simp_all add: case_eq_tolower)
next
  case (Cons c s)
  note u = unat_pred [OF Cons.prems(3)]
  show ?case
  proof (cases t)
    case Nil
    with Cons.prems u show ?thesis by (simp add: lwip_strnicmp_Cons del: lwip_strnicmp.simps)
  next
    case (Cons d t')
    have *: "lwip_strnicmp ((c # s) @ 0 # x) (t @ 0 # y) len = (if lwip_tolower c \<noteq> lwip_tolower d then Some 1
        else if len - 1 = 0 then Some 0 else lwip_strnicmp (s @ 0 # x) (t' @ 0 # y) (len - 1))"
      using Cons Cons.prems(1) by (simp add: lwip_strnicmp_Cons del: lwip_strnicmp.simps)
    show ?thesis
    proof (cases "len - 1 = 0")
      case True
      with u Cons show ?thesis unfolding * by simp
    next
      case False
      then have "0 < len - 1" by (simp only: word_gt_0)
      with Cons.IH [of t' "len - 1"] Cons.prems Cons False u show ?thesis unfolding * by simp
    qed
  qed
qed

text \<open>A length of 0 does not mean that nothing is compared.\<close>

lemma lwip_strnicmp_zero: "lwip_strnicmp [0x61, 0] [0x62, 0] 0 = Some 1"
  by code_simp

lemma xor_eq_0: "(x :: 'a::len word) XOR y = 0 \<longleftrightarrow> x = y"
proof
  assume "x XOR y = 0"
  then have "(x XOR y) XOR y = y" by simp
  then show "x = y" by (simp add: xor.assoc)
qed simp

lemma consttime_fold:
  "length a = length b \<Longrightarrow> fold (\<lambda>(x, y) ret. ret OR (x XOR y)) (zip a b) (r :: byte) = 0 \<longleftrightarrow> r = 0 \<and> a = b"
  by (induction a b arbitrary: r rule: list_induct2) (auto simp: or_eq_0_iff xor_eq_0)

lemma lwip_memcmp_consttime_spec:
  assumes "unat len \<le> length s" and "unat len \<le> length t"
  shows "\<exists>r. lwip_memcmp_consttime s t len = Some r \<and> (r = 0 \<longleftrightarrow> take (unat len) s = take (unat len) t)"
  using assms consttime_fold [of "take (unat len) s" "take (unat len) t" 0]
  by (simp add: lwip_memcmp_consttime_def peek_def)

section \<open>Lemmas on decimal numbers\<close>

definition dig :: "nat \<Rightarrow> byte" where
  "dig n = of_nat (48 + n mod 10)"

fun dec_digits :: "nat \<Rightarrow> byte list" where
  "dec_digits n = (if n = 0 then [] else dec_digits (n div 10) @ [dig n])"

declare dec_digits.simps [simp del] itoa_digits.simps [simp del]

definition dec_text :: "int \<Rightarrow> byte list" where
  "dec_text i = (if i < 0 then [0x2d] else []) @ (if i = 0 then [0x30] else dec_digits (nat \<bar>i\<bar>))"

definition dec_val :: "byte list \<Rightarrow> nat" where
  "dec_val = foldl (\<lambda>v c. 10 * v + (unat c - 48)) 0"

lemma dec_digits_0 [simp]: "dec_digits 0 = []"
  by (subst dec_digits.simps) simp

lemma dec_digits_pos: "0 < n \<Longrightarrow> dec_digits n = dec_digits (n div 10) @ [dig n]"
  by (subst dec_digits.simps) simp

lemma unat_dig: "unat (dig n) = 48 + n mod 10"
  unfolding dig_def by (subst unat_of_nat) simp

lemma dec_val_digits: "dec_val (dec_digits n) = n"
proof (induction n rule: dec_digits.induct)
  case (1 n)
  then show ?case by (cases "n = 0") (simp_all add: dec_digits_pos dec_val_def unat_dig)
qed

lemma dec_digits_nonzero: "0 \<notin> set (dec_digits n)"
proof (induction n rule: dec_digits.induct)
  case (1 n)
  have "dig n \<noteq> 0" using unat_dig [of n] by (metis add_is_0 unsigned_0 zero_neq_numeral)
  with 1 show ?case by (cases "n = 0") (auto simp: dec_digits_pos)
qed

lemma itoa_digits_step:
  assumes "0 < n" and "res < tmp" and "tmp \<le> length buf"
  shows "itoa_digits (int n) tmp res buf = itoa_digits (int (n div 10)) (tmp - 1) res (take (tmp - 1) buf @ dig n # drop tmp buf)"
proof -
  have "(of_int (48 + int n mod 10) :: byte) = dig n" unfolding dig_def
    by (metis of_int_of_nat_eq of_nat_add of_nat_mod of_nat_numeral)
  moreover have "poke (tmp - 1) [dig n] buf = Some (take (tmp - 1) buf @ dig n # drop tmp buf)"
    using assms by (simp add: poke_def)
  ultimately show ?thesis using assms by (subst itoa_digits.simps) (simp add: zdiv_int del: of_int_add)
qed

lemma itoa_digits_stop: "\<not> (0 < n \<and> res < tmp) \<Longrightarrow> itoa_digits n tmp res buf = Some (n, tmp, buf)"
  by (subst itoa_digits.simps) auto

lemma itoa_digits_fit:
  assumes "tmp \<le> length buf" and "res + length (dec_digits n) \<le> tmp"
  shows "itoa_digits (int n) tmp res buf =
     Some (0, tmp - length (dec_digits n), take (tmp - length (dec_digits n)) buf @ dec_digits n @ drop tmp buf)"
  using assms
proof (induction n arbitrary: tmp buf rule: dec_digits.induct)
  case (1 n)
  show ?case
  proof (cases "n = 0")
    case True
    then show ?thesis using 1 by (simp add: itoa_digits_stop)
  next
    case False
    let ?buf = "take (tmp - 1) buf @ dig n # drop tmp buf" and ?l = "length (dec_digits (n div 10))"
    have dn: "dec_digits n = dec_digits (n div 10) @ [dig n]" using False by (simp add: dec_digits_pos)
    have "res + ?l \<le> tmp - 1" "tmp - 1 \<le> length ?buf" using 1(2,3) by (auto simp: dn)
    then have "itoa_digits (int (n div 10)) (tmp - 1) res ?buf =
        Some (0, tmp - 1 - ?l, take (tmp - 1 - ?l) ?buf @ dec_digits (n div 10) @ drop (tmp - 1) ?buf)"
      using 1(1) [OF False] by blast
    moreover have "take (tmp - 1 - ?l) ?buf = take (tmp - 1 - ?l) buf" "drop (tmp - 1) ?buf = dig n # drop tmp buf"
      using 1(2,3) dn by (auto simp: min_def)
    ultimately show ?thesis using False 1(2,3) by (simp add: itoa_digits_step dn)
  qed
qed

lemma itoa_digits_small:
  assumes "tmp \<le> length buf" and "res \<le> tmp" and "tmp < res + length (dec_digits n)"
  shows "\<exists>m ds. itoa_digits (int n) tmp res buf = Some (m, res, take res buf @ ds @ drop tmp buf) \<and> 0 < m \<and> length ds = tmp - res"
  using assms
proof (induction n arbitrary: tmp buf rule: dec_digits.induct)
  case (1 n)
  then have n: "n \<noteq> 0" by (cases "n = 0") auto
  show ?case
  proof (cases "tmp = res")
    case True
    with n 1 show ?thesis by (simp add: itoa_digits_stop)
  next
    case False
    let ?buf = "take (tmp - 1) buf @ dig n # drop tmp buf"
    have dn: "dec_digits n = dec_digits (n div 10) @ [dig n]" using n by (simp add: dec_digits_pos)
    obtain m ds where i: "itoa_digits (int (n div 10)) (tmp - 1) res ?buf = Some (m, res, take res ?buf @ ds @ drop (tmp - 1) ?buf)"
        "0 < m" "length ds = tmp - 1 - res"
    proof -
      have "tmp - 1 \<le> length ?buf" "res \<le> tmp - 1" "tmp - 1 < res + length (dec_digits (n div 10))" using 1(2-4) False dn by auto
      then show ?thesis using 1(1) [OF n, of "tmp - 1" ?buf] that by blast
    qed
    have "take res ?buf = take res buf" "drop (tmp - 1) ?buf = dig n # drop tmp buf"
      using 1(2,3) False by (auto simp: min_def)
    then have "itoa_digits (int n) tmp res buf = Some (m, res, take res buf @ (ds @ [dig n]) @ drop tmp buf)"
      using i(1) n 1(2,3) False by (simp add: itoa_digits_step)
    moreover have "length (ds @ [dig n]) = tmp - res" using i(3) False 1(3) by simp
    ultimately show ?thesis using i(2) by blast
  qed
qed

text \<open>\<open>itoa_finish\<close> is the part behind the loop; \<open>itoa_buf\<close> is the buffer before it.\<close>

definition itoa_buf :: "byte list \<Rightarrow> nat \<Rightarrow> bool \<Rightarrow> byte list" where
  "itoa_buf result bs neg = (let b = (if neg then 0x2d # drop 1 result else result) in take (bs - 1) b @ 0 # drop bs b)"

definition itoa_finish :: "nat \<Rightarrow> nat \<Rightarrow> int \<times> nat \<times> byte list \<Rightarrow> byte list option" where
  "itoa_finish bs res = (\<lambda>(n, tmp, buf).
     if n \<noteq> 0 then poke 0 [0] buf
     else do { t \<leftarrow> peek tmp 1 buf;
               if t = [0] then poke res [0x30, 0] buf
               else do { ds \<leftarrow> peek tmp (bs - tmp) buf; poke res ds buf } })"

lemma poke_inside:
  assumes "off + length src \<le> bs" and "bs \<le> length buf"
  shows "\<exists>b. poke off src buf = Some b \<and> length b = length buf \<and> drop bs b = drop bs buf \<and> take (off + length src) b = take off buf @ src"
  using assms by (simp add: poke_def)

lemma itoa_buf_props:
  assumes "2 \<le> bs" and "bs \<le> length result"
  shows "length (itoa_buf result bs neg) = length result" "drop bs (itoa_buf result bs neg) = drop bs result"
    "itoa_buf result bs neg ! (bs - 1) = 0" "neg \<Longrightarrow> take 1 (itoa_buf result bs neg) = [0x2d]"
    "drop (bs - 1) (itoa_buf result bs neg) = 0 # drop bs result"
proof -
  obtain a r k where "result = a # r" "bs = Suc (Suc k)" using assms by (metis Suc_le_D list.exhaust list.size(3) not_numeral_le_zero numeral_2_eq_2 order_trans Suc_le_mono)
  with assms show "length (itoa_buf result bs neg) = length result" "drop bs (itoa_buf result bs neg) = drop bs result"
    "itoa_buf result bs neg ! (bs - 1) = 0" "neg \<Longrightarrow> take 1 (itoa_buf result bs neg) = [0x2d]"
    "drop (bs - 1) (itoa_buf result bs neg) = 0 # drop bs result"
    by (auto simp: itoa_buf_def Let_def nth_append)
qed

lemma lwip_itoa_alt:
  assumes "\<bar>number\<bar> < 2 ^ 31" and "unat bufsize \<le> length result" and "2 \<le> unat bufsize"
  shows "lwip_itoa result bufsize number = itoa_digits (int (nat \<bar>number\<bar>)) (unat bufsize - 1) (if number < 0 then 1 else 0)
      (itoa_buf result (unat bufsize) (number < 0)) \<bind> itoa_finish (unat bufsize) (if number < 0 then 1 else 0)"
proof -
  let ?b = "if number < 0 then 0x2d # drop 1 result else result"
  have nn: "(if number \<ge> 0 then number else - number) = int (nat \<bar>number\<bar>)" by simp
  have "poke 0 [0x2d] result = Some (0x2d # drop 1 result)" using assms by (auto simp: poke_def)
  moreover have "poke (unat bufsize - 1) [0] ?b = Some (itoa_buf result (unat bufsize) (number < 0))"
    using assms by (auto simp: poke_def itoa_buf_def Let_def)
  moreover have "\<not> bufsize < 2" "number \<noteq> - (2 ^ 31)" using assms by (auto simp: word_less_nat_alt)
  ultimately show ?thesis unfolding lwip_itoa_def nn Let_def itoa_finish_def [abs_def] by (cases "number < 0") (simp_all del: One_nat_def)
qed

text \<open>The number is written with its terminator if it fits, and otherwise the empty string is; nothing behind
  the given size is changed.\<close>

lemma lwip_itoa_spec:
  assumes "\<bar>number\<bar> < 2 ^ 31" and "unat bufsize \<le> length result" and "2 \<le> unat bufsize"
  shows "\<exists>buf. lwip_itoa result bufsize number = Some buf \<and> length buf = length result \<and>
     drop (unat bufsize) buf = drop (unat bufsize) result \<and>
     (if length (dec_text number) < unat bufsize then take (length (dec_text number) + 1) buf = dec_text number @ [0] else hd buf = 0)"
proof -
  define n res bs where "n = nat \<bar>number\<bar>" and "res = (if number < 0 then 1 else 0 :: nat)" and "bs = unat bufsize"
  let ?D = "dec_digits n" and ?b1 = "itoa_buf result bs (number < 0)"
  have bs: "2 \<le> bs" "bs \<le> length result" using assms(2,3) by (simp_all add: bs_def)
  note b1 = itoa_buf_props [OF bs, of "number < 0"]
  have alt: "lwip_itoa result bufsize number = itoa_digits (int n) (bs - 1) res ?b1 \<bind> itoa_finish bs res"
    unfolding n_def res_def bs_def by (rule lwip_itoa_alt [OF assms])
  consider "number = 0" | "number \<noteq> 0" "res + length ?D \<le> bs - 1" | "number \<noteq> 0" "bs - 1 < res + length ?D" by linarith
  then show ?thesis
  proof cases
    case 1
    have "peek (bs - 1) 1 ?b1 = Some [0]" using bs b1 by (simp add: peek_def)
    with 1 bs b1 poke_inside [of 0 "[0x30, 0]" bs ?b1] show ?thesis unfolding alt bs_def [symmetric]
      by (simp add: n_def res_def itoa_digits_stop itoa_finish_def dec_text_def)
  next
    case 2
    define t buf where "t = bs - 1 - length ?D" and "buf = take t ?b1 @ ?D @ drop (bs - 1) ?b1"
    let ?sign = "if number < 0 then [0x2d] else []"
    have dt: "dec_text number = ?sign @ ?D" using 2 by (simp add: dec_text_def n_def)
    have "?D \<noteq> []" using 2 by (simp add: n_def dec_digits_pos)
    then obtain d ds where D: "?D = d # ds" by (cases ?D) auto
    then have "d \<noteq> 0" using dec_digits_nonzero [of n] by auto
    moreover have "itoa_digits (int n) (bs - 1) res ?b1 = Some (0, t, buf)"
      unfolding t_def buf_def by (rule itoa_digits_fit) (use bs b1 2 in auto)
    moreover have "peek t 1 buf = Some [d]" "peek t (bs - t) buf = Some (?D @ [0])"
      using 2 bs b1 D by (auto simp: peek_def t_def buf_def)
    ultimately have r: "lwip_itoa result bufsize number = poke res (?D @ [0]) buf"
      unfolding alt by (simp add: itoa_finish_def)
    have "take res buf = ?sign" using 2 bs b1 by (auto simp: res_def min_def t_def buf_def)
    moreover have "length buf = length result" "drop bs buf = drop bs result" using 2 bs b1 by (auto simp: t_def buf_def)
    moreover have "Suc (res + length ?D) \<le> bs" using 2 bs by linarith
    ultimately obtain b where b: "poke res (?D @ [0]) buf = Some b" "length b = length result" "drop bs b = drop bs result"
        "take (res + (length ?D + 1)) b = ?sign @ ?D @ [0]"
      using poke_inside [of res "?D @ [0]" bs buf] 2 bs by auto
    have "res = length ?sign" by (simp add: res_def)
    with b r dt 2 bs show ?thesis unfolding bs_def [symmetric] by (auto simp: ac_simps)
  next
    case 3
    have res: "bs - 1 \<le> length ?b1" "res \<le> bs - 1" using bs b1 by (auto simp: res_def)
    obtain m ds where i: "itoa_digits (int n) (bs - 1) res ?b1 = Some (m, res, take res ?b1 @ ds @ drop (bs - 1) ?b1)" "0 < m" "length ds = bs - 1 - res"
      using itoa_digits_small [OF res 3(2)] by blast
    define buf where "buf = take res ?b1 @ ds @ drop (bs - 1) ?b1"
    have "length buf = length result" "drop bs buf = drop bs result" using 3 bs b1 i res by (auto simp: buf_def)
    then obtain b where b: "poke 0 [0] buf = Some b" "length b = length result" "drop bs b = drop bs result" "take 1 b = [0]"
      using poke_inside [of 0 "[0]" bs buf] bs by auto
    then have "hd b = 0" by (cases b) auto
    moreover have "dec_text number = (if number < 0 then [0x2d] else []) @ ?D" using 3 by (simp add: dec_text_def n_def)
    then have "\<not> length (dec_text number) < bs" using 3 bs by (auto simp: res_def split: if_splits)
    moreover have "lwip_itoa result bufsize number = Some b" unfolding alt using i b(1) by (simp add: itoa_finish_def buf_def)
    ultimately show ?thesis using b unfolding bs_def [symmetric] by simp
  qed
qed

end
