(* ===== verification/Inet_Chksum.thy ===== *)
theory Inet_Chksum
  imports Lwip_Def
begin

text \<open>
  The Internet checksum, \<open>lwip/core/inet_chksum.c\<close>: the three versions of the sum over a block of memory, the sums
  over a chain of packet buffers and those with the pseudo headers of IPv4 and IPv6. The build selects the
  second version.

  A block of memory is its address, of which the code looks at the alignment, and its bytes; a chain of
  packet buffers is the list of the addresses and the bytes of their payloads. A failed assertion ends
  the program and is \<^const>\<open>None\<close>.
\<close>

type_synonym chain = "(u32 \<times> byte list) list"

definition FOLD_U32T :: "u32 \<Rightarrow> u32" where
  "FOLD_U32T u = drop_bit 16 u + (u AND 0x0000ffff)"

definition SWAP_BYTES_IN_WORD :: "u32 \<Rightarrow> u32" where
  "SWAP_BYTES_IN_WORD w = (push_bit 8 (w AND 0xff)) OR (drop_bit 8 (w AND 0xff00))"

text \<open>A load of 16 or 32 bits from memory.\<close>

definition load16 :: "byte \<Rightarrow> byte \<Rightarrow> u16" where
  "load16 b0 b1 = of_nat (le_val [b0, b1])"

definition load32 :: "byte \<Rightarrow> byte \<Rightarrow> byte \<Rightarrow> byte \<Rightarrow> u32" where
  "load32 b0 b1 b2 b3 = of_nat (le_val [b0, b1, b2, b3])"

section \<open>The sum over a block\<close>

text \<open>Version 1: octet by octet in network order.\<close>

fun chksum1_loop :: "byte list \<Rightarrow> u32 \<Rightarrow> u32" where
  "chksum1_loop (b0 # b1 # bs) acc = chksum1_loop bs (acc + ucast (push_bit 8 (ucast b0 :: u16) OR ucast b1))"
| "chksum1_loop [b0] acc = acc + ucast (push_bit 8 (ucast b0 :: u16))"
| "chksum1_loop [] acc = acc"

definition lwip_standard_chksum1 :: "u32 \<Rightarrow> byte list \<Rightarrow> int \<Rightarrow> u16 option" where
  "lwip_standard_chksum1 dataptr mem len =
     do { bs \<leftarrow> peek 0 (nat len) mem;
          let acc = chksum1_loop bs 0;
          let acc = drop_bit 16 acc + (acc AND 0x0000ffff);
          let acc = (if acc AND 0xffff0000 \<noteq> 0 then drop_bit 16 acc + (acc AND 0x0000ffff) else acc);
          Some (lwip_htons (ucast acc)) }"

text \<open>The loops over 16-bit words return the rest of the block; \<open>t\<close> holds the odd bytes at its ends.\<close>

fun sum_words :: "byte list \<Rightarrow> u32 \<Rightarrow> u32 \<times> byte list" where
  "sum_words (b0 # b1 # bs) s = sum_words bs (s + ucast (load16 b0 b1))"
| "sum_words bs s = (s, bs)"

definition chksum_end :: "bool \<Rightarrow> byte \<Rightarrow> u32 \<times> byte list \<Rightarrow> u16" where
  "chksum_end od t1 = (\<lambda>(s, rest).
     let t0 = (case rest of [] \<Rightarrow> 0 | b # _ \<Rightarrow> b);
         s = s + ucast (load16 t0 t1);
         s = FOLD_U32T s;
         s = FOLD_U32T s;
         s = (if od then SWAP_BYTES_IN_WORD s else s)
     in ucast s)"

definition chksum_align :: "bool \<Rightarrow> byte list \<Rightarrow> byte \<times> byte list" where
  "chksum_align od bs = (case bs of b # bs' \<Rightarrow> if od then (b, bs') else (0, bs) | [] \<Rightarrow> (0, []))"

text \<open>Version 2, the one that is built.\<close>

definition lwip_standard_chksum :: "u32 \<Rightarrow> byte list \<Rightarrow> int \<Rightarrow> u16 option" where
  "lwip_standard_chksum dataptr mem len =
     do { bs \<leftarrow> peek 0 (nat len) mem;
          let od = (dataptr AND 1 \<noteq> 0);
          let (t1, bs) = chksum_align od bs;
          Some (chksum_end od t1 (sum_words bs 0)) }"

text \<open>Version 3: eight bytes at a time, with the carry added back.\<close>

definition add_carry :: "u32 \<Rightarrow> u32 \<Rightarrow> u32" where
  "add_carry s x = (let tmp = s + x in if tmp < s then tmp + 1 else tmp)"

fun sum_longs :: "byte list \<Rightarrow> u32 \<Rightarrow> u32 \<times> byte list" where
  "sum_longs (b0 # b1 # b2 # b3 # b4 # b5 # b6 # b7 # bs) s =
     (let tmp = add_carry s (load32 b0 b1 b2 b3) in sum_longs bs (add_carry tmp (load32 b4 b5 b6 b7)))"
| "sum_longs bs s = (s, bs)"

definition chksum3_head :: "u32 \<Rightarrow> byte list \<Rightarrow> u32 \<times> byte list" where
  "chksum3_head ps bs =
     (case bs of b0 # b1 # bs' \<Rightarrow> if ps AND 3 \<noteq> 0 then (ucast (load16 b0 b1), bs') else (0, bs) | _ \<Rightarrow> (0, bs))"

definition lwip_standard_chksum3 :: "u32 \<Rightarrow> byte list \<Rightarrow> int \<Rightarrow> u16 option" where
  "lwip_standard_chksum3 dataptr mem len =
     do { bs \<leftarrow> peek 0 (nat len) mem;
          let od = (dataptr AND 1 \<noteq> 0);
          let ps = (if od \<and> bs \<noteq> [] then dataptr + 1 else dataptr);
          let (t1, bs) = chksum_align od bs;
          let (s, bs) = chksum3_head ps bs;
          let (s, bs) = sum_longs bs s;
          let s = FOLD_U32T s;
          Some (chksum_end od t1 (sum_words bs s)) }"

section \<open>Sums over packet buffers\<close>

fun chain_sum :: "chain \<Rightarrow> bool \<Rightarrow> u32 \<Rightarrow> (bool \<times> u32) option" where
  "chain_sum [] swapped acc = Some (swapped, acc)"
| "chain_sum ((payload, bs) # q) swapped acc =
     do { c \<leftarrow> lwip_standard_chksum payload bs (int (length bs));
          let acc = FOLD_U32T (acc + ucast c);
          if length bs mod 2 \<noteq> 0 then chain_sum q (\<not> swapped) (SWAP_BYTES_IN_WORD acc)
          else chain_sum q swapped acc }"

definition pseudo_end :: "byte \<Rightarrow> u16 \<Rightarrow> bool \<Rightarrow> u32 \<Rightarrow> u16" where
  "pseudo_end proto proto_len swapped acc =
     (let acc = (if swapped then SWAP_BYTES_IN_WORD acc else acc);
          acc = acc + ucast (lwip_htons (ucast proto));
          acc = acc + ucast (lwip_htons proto_len);
          acc = FOLD_U32T acc;
          acc = FOLD_U32T acc
      in NOT (ucast (acc AND 0xffff)))"

definition inet_cksum_pseudo_base :: "chain \<Rightarrow> byte \<Rightarrow> u16 \<Rightarrow> u32 \<Rightarrow> u16 option" where
  "inet_cksum_pseudo_base p proto proto_len acc =
     do { (swapped, acc) \<leftarrow> chain_sum p False acc; Some (pseudo_end proto proto_len swapped acc) }"

definition add_addr :: "u32 \<Rightarrow> u32 \<Rightarrow> u32" where
  "add_addr acc addr = (acc + (addr AND 0xffff)) + (drop_bit 16 addr AND 0xffff)"

definition inet_chksum_pseudo :: "chain \<Rightarrow> byte \<Rightarrow> u16 \<Rightarrow> u32 \<Rightarrow> u32 \<Rightarrow> u16 option" where
  "inet_chksum_pseudo p proto proto_len src dest =
     (let acc = add_addr (add_addr 0 src) dest; acc = FOLD_U32T acc; acc = FOLD_U32T acc
      in inet_cksum_pseudo_base p proto proto_len acc)"

text \<open>An IPv6 address is its four words in network order.\<close>

definition ip6_acc :: "u32 list \<Rightarrow> u32 list \<Rightarrow> u32" where
  "ip6_acc src dest = (let acc = fold (\<lambda>(a, d) acc. add_addr (add_addr acc a) d) (zip src dest) 0 in FOLD_U32T (FOLD_U32T acc))"

definition ip6_chksum_pseudo :: "chain \<Rightarrow> byte \<Rightarrow> u16 \<Rightarrow> u32 list \<Rightarrow> u32 list \<Rightarrow> u16 option" where
  "ip6_chksum_pseudo p proto proto_len src dest = inet_cksum_pseudo_base p proto proto_len (ip6_acc src dest)"

datatype ip_addr = IP4 u32 | IP6 "u32 list"

definition ip_2_ip4 :: "ip_addr \<Rightarrow> u32 option" where
  "ip_2_ip4 a = (case a of IP4 x \<Rightarrow> Some x | IP6 _ \<Rightarrow> None)"

definition ip_2_ip6 :: "ip_addr \<Rightarrow> u32 list option" where
  "ip_2_ip6 a = (case a of IP6 x \<Rightarrow> Some x | IP4 _ \<Rightarrow> None)"

definition ip_chksum_pseudo :: "chain \<Rightarrow> byte \<Rightarrow> u16 \<Rightarrow> ip_addr \<Rightarrow> ip_addr \<Rightarrow> u16 option" where
  "ip_chksum_pseudo p proto proto_len src dest =
     (case dest of
        IP6 d \<Rightarrow> do { s \<leftarrow> ip_2_ip6 src; ip6_chksum_pseudo p proto proto_len s d }
      | IP4 d \<Rightarrow> do { s \<leftarrow> ip_2_ip4 src; inet_chksum_pseudo p proto proto_len s d })"

fun chain_sum_partial :: "chain \<Rightarrow> nat \<Rightarrow> bool \<Rightarrow> u32 \<Rightarrow> (bool \<times> u32) option" where
  "chain_sum_partial [] chksum_len swapped acc = Some (swapped, acc)"
| "chain_sum_partial ((payload, bs) # q) chksum_len swapped acc =
     (if chksum_len = 0 then Some (swapped, acc)
      else do {
        let chklen = (if length bs > chksum_len then chksum_len else length bs);
        c \<leftarrow> lwip_standard_chksum payload bs (int chklen);
        let acc = acc + ucast c;
        let chksum_len = chksum_len - chklen;
        if \<not> chksum_len < 0x7fff then None
        else do {
          let acc = FOLD_U32T acc;
          if length bs mod 2 \<noteq> 0 then chain_sum_partial q chksum_len (\<not> swapped) (SWAP_BYTES_IN_WORD acc)
          else chain_sum_partial q chksum_len swapped acc } })"

definition inet_cksum_pseudo_partial_base :: "chain \<Rightarrow> byte \<Rightarrow> u16 \<Rightarrow> u16 \<Rightarrow> u32 \<Rightarrow> u16 option" where
  "inet_cksum_pseudo_partial_base p proto proto_len chksum_len acc =
     do { (swapped, acc) \<leftarrow> chain_sum_partial p (unat chksum_len) False acc; Some (pseudo_end proto proto_len swapped acc) }"

definition inet_chksum_pseudo_partial :: "chain \<Rightarrow> byte \<Rightarrow> u16 \<Rightarrow> u16 \<Rightarrow> u32 \<Rightarrow> u32 \<Rightarrow> u16 option" where
  "inet_chksum_pseudo_partial p proto proto_len chksum_len src dest =
     (let acc = add_addr (add_addr 0 src) dest; acc = FOLD_U32T acc; acc = FOLD_U32T acc
      in inet_cksum_pseudo_partial_base p proto proto_len chksum_len acc)"

definition ip6_chksum_pseudo_partial :: "chain \<Rightarrow> byte \<Rightarrow> u16 \<Rightarrow> u16 \<Rightarrow> u32 list \<Rightarrow> u32 list \<Rightarrow> u16 option" where
  "ip6_chksum_pseudo_partial p proto proto_len chksum_len src dest =
     inet_cksum_pseudo_partial_base p proto proto_len chksum_len (ip6_acc src dest)"

definition ip_chksum_pseudo_partial :: "chain \<Rightarrow> byte \<Rightarrow> u16 \<Rightarrow> u16 \<Rightarrow> ip_addr \<Rightarrow> ip_addr \<Rightarrow> u16 option" where
  "ip_chksum_pseudo_partial p proto proto_len chksum_len src dest =
     (case dest of
        IP6 d \<Rightarrow> do { s \<leftarrow> ip_2_ip6 src; ip6_chksum_pseudo_partial p proto proto_len chksum_len s d }
      | IP4 d \<Rightarrow> do { s \<leftarrow> ip_2_ip4 src; inet_chksum_pseudo_partial p proto proto_len chksum_len s d })"

definition inet_chksum :: "u32 \<Rightarrow> byte list \<Rightarrow> u16 \<Rightarrow> u16 option" where
  "inet_chksum dataptr mem len = map_option NOT (lwip_standard_chksum dataptr mem (uint len))"

definition inet_chksum_pbuf :: "chain \<Rightarrow> u16 option" where
  "inet_chksum_pbuf p =
     do { (swapped, acc) \<leftarrow> chain_sum p False 0;
          let acc = (if swapped then SWAP_BYTES_IN_WORD acc else acc);
          Some (NOT (ucast (acc AND 0xffff))) }"

definition lwip_chksum_copy :: "u32 \<Rightarrow> byte list \<Rightarrow> byte list \<Rightarrow> u16 \<Rightarrow> (u16 \<times> byte list) option" where
  "lwip_chksum_copy dst dmem smem len =
     do { bs \<leftarrow> peek 0 (unat len) smem; dmem \<leftarrow> poke 0 bs dmem;
          c \<leftarrow> lwip_standard_chksum dst dmem (uint len); Some (c, dmem) }"

section \<open>Sums in ones' complement\<close>

text \<open>\<open>oc\<close> is the value of a sum of 16-bit words in ones' complement; 0 stands only for the empty sum.\<close>

definition oc :: "nat \<Rightarrow> nat" where
  "oc s = (if s = 0 then 0 else (s - 1) mod 65535 + 1)"

lemma oc_le: "oc s \<le> 65535"
  using mod_less_divisor [of 65535 "s - 1"] by (auto simp: oc_def)

lemma oc_0 [simp]: "oc s = 0 \<longleftrightarrow> s = 0" "oc 0 = 0"
  by (simp_all add: oc_def)

lemma oc_mod [simp]: "oc s mod 65535 = s mod 65535"
  by (cases s) (simp_all add: oc_def mod_Suc_eq)

lemma oc_unique:
  assumes "r \<le> 65535" and "r mod 65535 = s mod 65535" and "r = 0 \<longleftrightarrow> s = 0"
  shows "r = oc s"
proof (cases s)
  case (Suc s')
  with assms(3) obtain r' where r: "r = Suc r'" by (cases r) auto
  have "(r + 65534) mod 65535 = (s + 65534) mod 65535" using assms(2) by (rule mod_add_cong) simp
  then have "r' mod 65535 = s' mod 65535" by (simp add: Suc r)
  with assms(1) r Suc show ?thesis by (simp add: oc_def)
qed (use assms in simp)

lemma oc_cong: "a mod 65535 = b mod 65535 \<Longrightarrow> a = 0 \<longleftrightarrow> b = 0 \<Longrightarrow> oc a = oc b"
  by (rule oc_unique) (simp_all add: oc_le)

lemma mod_65535I: "(a :: nat) = b + 65535 * k \<Longrightarrow> a mod 65535 = b mod 65535"
  by simp

lemma oc_add_left [simp]: "oc (oc a + b) = oc (a + b)"
  by (rule oc_cong) (simp_all add: mod_add_left_eq [symmetric, of "oc a"] mod_add_left_eq [symmetric, of a] del: mod_add_left_eq)

lemma oc_mult_left [simp]: "0 < k \<Longrightarrow> oc (k * oc a) = oc (k * a)"
  by (rule oc_cong) (simp_all add: mod_mult_right_eq [symmetric, of k "oc a"] mod_mult_right_eq [symmetric, of k a] del: mod_mult_right_eq)

lemma oc_self: "s \<le> 65535 \<Longrightarrow> oc s = s"
  by (rule oc_unique [symmetric]) auto

section \<open>The operations on words\<close>

lemma unat_low16: "unat (u AND 0xffff :: u32) = unat u mod 65536"
proof -
  have "(0xffff :: u32) = mask 16" by (simp add: mask_numeral)
  then have "u AND 0xffff = take_bit 16 u" by (simp add: take_bit_eq_mask)
  then show ?thesis using unat_field [of 16 0 u] by simp
qed

lemma unat_high16: "unat (drop_bit 16 u :: u32) = unat u div 65536"
proof -
  have "unat (drop_bit 16 u) = drop_bit 16 (unat u)" by (rule unat_drop_bit_eq)
  also have "\<dots> = unat u div 2 ^ 16" by (rule drop_bit_eq_div)
  finally show ?thesis by simp
qed

lemma unat_FOLD: "unat (FOLD_U32T u) = unat u div 65536 + unat u mod 65536"
proof -
  have "unat u div 65536 < 65536" "unat u mod 65536 < 65536" using unat_u32_bound [of u] by auto
  then have "unat u div 65536 + unat u mod 65536 < 2 ^ 32" by simp
  then show ?thesis unfolding FOLD_U32T_def by (simp add: unat_word_ariths(1) unat_low16 unat_high16)
qed

lemma fold_mod: "(n div 65536 + n mod 65536) mod 65535 = n mod (65535 :: nat)"
proof -
  have "n = (n div 65536 + n mod 65536) + 65535 * (n div 65536)"
    using div_mult_mod_eq [of n 65536] by simp
  then show ?thesis by (metis mod_65535I)
qed

lemma fold_0: "n div 65536 + n mod 65536 = 0 \<longleftrightarrow> n = (0 :: nat)"
  using div_mult_mod_eq [of n 65536] by (metis add_is_0 div_0 mod_0 mult_0)

lemma unat_FOLD_small: "unat u \<le> 131070 \<Longrightarrow> unat (FOLD_U32T u) = oc (unat u)"
proof (rule oc_unique)
  assume "unat u \<le> 131070"
  then have "unat u div 65536 = 0 \<or> unat u div 65536 = 1" by linarith
  with \<open>unat u \<le> 131070\<close> show "unat (FOLD_U32T u) \<le> 65535" unfolding unat_FOLD
    using div_mult_mod_eq [of "unat u" 65536] by (elim disjE) linarith+
qed (simp_all only: unat_FOLD fold_mod fold_0)

lemma unat_FOLD_le: "unat (FOLD_U32T u) \<le> 131070"
  using unat_u32_bound [of u] mod_less_divisor [of 65536 "unat u"] unfolding unat_FOLD by linarith

lemma unat_FOLD_FOLD: "unat (FOLD_U32T (FOLD_U32T u)) = oc (unat u)"
proof -
  have "unat (FOLD_U32T (FOLD_U32T u)) = oc (unat (FOLD_U32T u))" by (rule unat_FOLD_small [OF unat_FOLD_le])
  also have "\<dots> = oc (unat u)" by (rule oc_cong) (simp_all only: unat_FOLD fold_mod fold_0)
  finally show ?thesis .
qed

lemma swap_mod: "w \<le> 65535 \<Longrightarrow> 256 * (w mod 256) + w div 256 = oc (256 * w)"
proof (rule oc_unique)
  assume "w \<le> 65535"
  then have "w div 256 \<le> 255" by linarith
  moreover have "w mod 256 \<le> 255" by simp
  ultimately show "256 * (w mod 256) + w div 256 \<le> 65535" by linarith
  have "256 * w = (256 * (w mod 256) + w div 256) + 65535 * (w div 256)"
    using div_mult_mod_eq [of w 256] by linarith
  then show "(256 * (w mod 256) + w div 256) mod 65535 = 256 * w mod 65535" by (metis mod_65535I)
  show "256 * (w mod 256) + w div 256 = 0 \<longleftrightarrow> 256 * w = 0"
    using div_mult_mod_eq [of w 256] by auto
qed

lemma unat_SWAP: "unat w \<le> 65535 \<Longrightarrow> unat (SWAP_BYTES_IN_WORD w) = oc (256 * unat w)"
proof -
  assume w: "unat w \<le> 65535"
  have m: "(0xff :: u32) = mask 8" "(0xff00 :: u32) = push_bit 8 (mask 8)" by (simp_all add: mask_numeral)
  have s: "SWAP_BYTES_IN_WORD w = push_bit 8 (take_bit 8 w) OR take_bit 8 (drop_bit 8 w)"
    unfolding SWAP_BYTES_IN_WORD_def m and_field by (rule bit_eqI) (auto simp: bit_simps)
  have 1: "unat (push_bit 8 (take_bit 8 w)) = 256 * (unat w mod 256)"
  proof -
    have "unat (push_bit 8 (take_bit 8 w)) = take_bit 32 (push_bit 8 (take_bit 8 (unat w)))"
      by (simp add: unsigned_push_bit_eq unsigned_take_bit_eq)
    then show ?thesis by (simp only: take_bit_eq_mod push_bit_eq_mult) simp
  qed
  have 2: "unat (take_bit 8 (drop_bit 8 w)) = unat w div 256"
    using w by (simp add: unat_field)
  have "256 * (unat w mod 256) + unat w div 256 < 2 ^ 32" using oc_le [of "256 * unat w"] swap_mod [OF w] by simp
  then have "unat (SWAP_BYTES_IN_WORD w) = 256 * (unat w mod 256) + unat w div 256"
    unfolding s by (subst or_push_eq_plus) (simp_all add: unat_word_ariths(1) 1 2)
  with swap_mod [OF w] show ?thesis by simp
qed

lemma unat_htons_oc: "unat (lwip_htons x) = oc (256 * unat x)"
  using swap_mod [of "unat x"] unat_u16_bound [of x] by (simp add: unat_lwip_htons)

lemma unat_load16: "unat (load16 b0 b1) = unat b0 + 256 * unat b1"
proof -
  have "le_val [b0, b1] < 2 ^ LENGTH(16)" using le_val_bound [of "[b0, b1]"] by simp
  then have "unat (load16 b0 b1) = le_val [b0, b1]" unfolding load16_def by (simp only: unat_of_nat mod_less)
  then show ?thesis by simp
qed

lemma unat_load32: "unat (load32 b0 b1 b2 b3) = unat b0 + 256 * unat b1 + 65536 * unat b2 + 16777216 * unat b3"
proof -
  have "le_val [b0, b1, b2, b3] < 2 ^ LENGTH(32)" using le_val_bound [of "[b0, b1, b2, b3]"] by simp
  then have "unat (load32 b0 b1 b2 b3) = le_val [b0, b1, b2, b3]" unfolding load32_def by (simp only: unat_of_nat mod_less)
  then show ?thesis by simp
qed

section \<open>Sums over blocks\<close>

text \<open>The sum of the 16-bit words of a block as they lie in memory; an odd block ends in a zero byte.\<close>

fun le16 :: "byte list \<Rightarrow> nat" where
  "le16 [] = 0"
| "le16 [b] = unat b"
| "le16 (b0 # b1 # bs) = unat b0 + 256 * unat b1 + le16 bs"

lemma unat_byte_bound: "unat (b :: byte) \<le> 255"
proof -
  have "unat b < 256" using unsigned_less [of b] by simp
  then show ?thesis by simp
qed

lemma le16_bound: "le16 bs \<le> 65535 * ((length bs + 1) div 2)"
proof (induction bs rule: le16.induct)
  case (3 b0 b1 bs)
  then show ?case using unat_byte_bound [of b0] unat_byte_bound [of b1] by simp
next
  case (2 b)
  then show ?case using unat_byte_bound [of b] by simp
qed simp

lemma le16_Cons_mod: "le16 (b # bs) mod 65535 = (unat b + 256 * le16 bs) mod 65535"
proof (induction bs arbitrary: b rule: le16.induct)
  case (3 b0 b1 bs)
  have "le16 (b # b0 # b1 # bs) mod 65535 = (unat b + 256 * unat b0 + le16 (b1 # bs)) mod 65535" by simp
  also have "\<dots> = (unat b + 256 * unat b0 + (unat b1 + 256 * le16 bs)) mod 65535"
    using 3 [of b1] by (rule mod_add_cong [OF refl])
  also have "\<dots> = (unat b + 256 * le16 (b0 # b1 # bs)) mod 65535"
    by (rule mod_65535I [symmetric, of _ _ "unat b1"]) simp
  finally show ?case .
qed simp_all

lemma le16_0: "le16 bs = 0 \<longleftrightarrow> (\<forall>b\<in>set bs. b = 0)"
  by (induction bs rule: le16.induct) (auto simp: unat_eq_zero)

lemma le16_append:
  "oc (le16 (xs @ ys)) = oc (le16 xs + (if even (length xs) then 1 else 256) * le16 ys)"
proof (induction xs rule: le16.induct)
  case (2 b)
  have "oc (le16 (b # ys)) = oc (unat b + 256 * le16 ys)"
    by (rule oc_cong) (simp_all add: le16_Cons_mod le16_0 [of "b # ys"] le16_0 [of ys] unat_eq_zero)
  then show ?case by simp
next
  case (3 b0 b1 xs)
  let ?k = "if even (length xs) then 1 else 256" and ?a = "unat b0 + 256 * unat b1"
  have "oc (le16 ((b0 # b1 # xs) @ ys)) = oc (oc (le16 (xs @ ys)) + ?a)" by (simp only: oc_add_left) (simp add: ac_simps)
  also have "\<dots> = oc (le16 xs + ?k * le16 ys + ?a)" unfolding 3 by simp
  finally show ?case by (simp add: ac_simps)
qed simp

lemma sum_words_end:
  "(case sum_words bs s of (s, rest) \<Rightarrow> s + ucast (load16 (case rest of [] \<Rightarrow> 0 | b # _ \<Rightarrow> b) t1)) =
     s + of_nat (le16 bs + 256 * unat t1)"
proof -
  have l: "(ucast (load16 b c) :: u32) = of_nat (unat b + 256 * unat c)" for b c
    by (simp only: unat_load16 [symmetric] of_nat_unat)
  show ?thesis
    by (induction bs s rule: sum_words.induct) (simp_all only: sum_words.simps prod.case list.case l le16.simps, simp_all)
qed

lemma unat_ucast16: "unat (ucast (x :: u32) :: u16) = unat x mod 65536"
  by (simp add: unsigned_ucast_eq take_bit_eq_mod)

lemma chksum_end_sum:
  assumes "unat s + le16 bs + 256 * unat t1 < 2 ^ 32"
  shows "unat (chksum_end od t1 (sum_words bs s)) = oc ((if od then 256 else 1) * (unat s + le16 bs + 256 * unat t1))"
proof -
  define S where "S = s + of_nat (le16 bs + 256 * unat t1)"
  have uS: "unat S = unat s + le16 bs + 256 * unat t1"
    using assms by (simp add: S_def unat_word_ariths(1) unat_of_nat del: of_nat_add of_nat_mult)
  let ?F = "FOLD_U32T (FOLD_U32T S)"
  have F: "unat ?F = oc (unat S)" by (rule unat_FOLD_FOLD)
  have "chksum_end od t1 (sum_words bs s) = ucast (if od then SWAP_BYTES_IN_WORD ?F else ?F)"
    using sum_words_end [where bs = bs and s = s and ?t1.0 = t1] by (simp add: chksum_end_def S_def Let_def split: prod.splits)
  moreover have "unat (if od then SWAP_BYTES_IN_WORD ?F else ?F) = oc ((if od then 256 else 1) * unat S)"
    using oc_le [of "unat S"] by (simp add: unat_SWAP F)
  ultimately show ?thesis using oc_le [of "(if od then 256 else 1) * unat S"] by (simp add: uS unat_ucast16)
qed

lemma le16_odd: "oc (256 * (256 * unat b + le16 bs)) = oc (le16 (b # bs))"
proof (rule oc_cong)
  have "256 * (256 * unat b + le16 bs) mod 65535 = (unat b + 256 * le16 bs) mod 65535"
    by (rule mod_65535I [of _ _ "unat b"]) simp
  then show "256 * (256 * unat b + le16 bs) mod 65535 = le16 (b # bs) mod 65535" by (simp only: le16_Cons_mod)
qed (simp add: le16_0 [of "b # bs"] le16_0 [of bs] unat_eq_zero)

lemma le16_block_bound: "length bs \<le> 0x20000 \<Longrightarrow> le16 bs < 2 ^ 32"
proof -
  assume "length bs \<le> 0x20000"
  then have "(length bs + 1) div 2 \<le> 65536" by simp
  with le16_bound [of bs] show ?thesis by simp
qed

text \<open>Version 2 at any alignment.\<close>

lemma lwip_standard_chksum_spec:
  assumes "nat len \<le> length mem" and "len \<le> 0x20000"
  shows "\<exists>c. lwip_standard_chksum dataptr mem len = Some c \<and> unat c = oc (le16 (take (nat len) mem))"
proof -
  define bs where "bs = take (nat len) mem"
  have l: "length bs \<le> 0x20000" using assms by (simp add: bs_def)
  let ?od = "dataptr AND 1 \<noteq> 0"
  have p: "lwip_standard_chksum dataptr mem len = Some (case chksum_align ?od bs of (t1, bs) \<Rightarrow> chksum_end ?od t1 (sum_words bs 0))"
    using assms by (simp add: lwip_standard_chksum_def peek_def bs_def split: prod.splits)
  have "unat (case chksum_align ?od bs of (t1, bs) \<Rightarrow> chksum_end ?od t1 (sum_words bs 0)) = oc (le16 bs)"
  proof (cases "?od \<and> bs \<noteq> []")
    case True
    then obtain b bs' where b: "bs = b # bs'" by (cases bs) auto
    have "(length bs' + 1) div 2 \<le> 65535 \<or> (length bs' + 1) div 2 = 65536" using l b by auto
    then have "le16 bs' + 256 * unat b < 2 ^ 32"
      using le16_bound [of bs'] unat_byte_bound [of b] l b by auto
    then show ?thesis using True le16_odd [of b bs'] by (simp add: b chksum_align_def chksum_end_sum add.commute)
  next
    case False
    then have "chksum_align ?od bs = (0, bs)" by (auto simp: chksum_align_def split: list.splits)
    with False chksum_end_sum [where s = 0 and bs = bs and ?t1.0 = 0 and od = ?od] le16_block_bound [OF l] show ?thesis by auto
  qed
  with p show ?thesis unfolding bs_def [symmetric] by blast
qed

section \<open>The three versions agree\<close>

fun be16 :: "byte list \<Rightarrow> nat" where
  "be16 [] = 0"
| "be16 [b] = 256 * unat b"
| "be16 (b0 # b1 # bs) = 256 * unat b0 + unat b1 + be16 bs"

lemma be16_le16: "oc (256 * be16 bs) = oc (le16 bs)"
proof (induction bs rule: be16.induct)
  case (2 b)
  show ?case by (rule oc_cong) (simp_all add: mod_65535I [of "65536 * unat b" "unat b" "unat b"])
next
  case (3 b0 b1 bs)
  have "oc (256 * be16 (b0 # b1 # bs)) = oc (65536 * unat b0 + 256 * unat b1 + 256 * be16 bs)" by simp
  also have "\<dots> = oc (unat b0 + 256 * unat b1 + 256 * be16 bs)"
    by (rule oc_cong, rule mod_65535I [of _ _ "unat b0"]) auto
  also have "\<dots> = oc (oc (256 * be16 bs) + (unat b0 + 256 * unat b1))" by (simp only: oc_add_left) (simp add: ac_simps)
  also have "\<dots> = oc (le16 (b0 # b1 # bs))" unfolding 3 by (simp only: oc_add_left le16.simps) (simp add: ac_simps)
  finally show ?case .
qed simp

lemma be16_bound: "be16 bs \<le> 65535 * ((length bs + 1) div 2)"
proof (induction bs rule: be16.induct)
  case (3 b0 b1 bs)
  then show ?case using unat_byte_bound [of b0] unat_byte_bound [of b1] by simp
next
  case (2 b)
  then show ?case using unat_byte_bound [of b] by simp
qed simp

lemma chksum1_loop_sum: "chksum1_loop bs acc = acc + of_nat (be16 bs)"
proof -
  have p: "push_bit 8 (ucast b0 :: u16) OR ucast b1 = of_nat (256 * unat b0 + unat b1)" for b0 b1 :: byte
  proof -
    have "take_bit 8 (ucast b1 :: u16) = ucast b1" by (rule bit_eqI) (auto simp: bit_simps dest: bit_imp_le_length)
    then have "push_bit 8 (ucast b0 :: u16) OR ucast b1 = push_bit 8 (ucast b0) + ucast b1" by (rule or_push_eq_plus)
    then show ?thesis by (simp add: push_bit_eq_mult ac_simps)
  qed
  have q: "(ucast (of_nat n :: u16) :: u32) = of_nat n" if "n < 65536" for n
    using that by (simp add: word_unat_eq_iff unsigned_ucast_eq unat_of_nat take_bit_eq_mod)
  have 2: "(ucast (push_bit 8 (ucast b0 :: u16) OR ucast b1) :: u32) = of_nat (256 * unat b0 + unat b1)" for b0 b1 :: byte
    unfolding p by (rule q) (use unat_byte_bound [of b0] unat_byte_bound [of b1] in simp)
  have 1: "(ucast (push_bit 8 (ucast b0 :: u16)) :: u32) = of_nat (256 * unat b0)" for b0 :: byte
    using 2 [of b0 0] by simp
  show ?thesis by (induction bs acc rule: chksum1_loop.induct) (simp_all only: chksum1_loop.simps be16.simps 1 2, simp_all)
qed

lemma FOLD_small: "unat u < 65536 \<Longrightarrow> FOLD_U32T u = u"
  by (simp add: word_unat_eq_iff unat_FOLD)

lemma high_clear: "u AND 0xffff0000 = 0 \<longleftrightarrow> unat (u :: u32) < 65536"
proof -
  have m: "(0xffff0000 :: u32) = push_bit 16 (mask 16)" by (simp add: mask_numeral)
  have "u AND 0xffff0000 = push_bit 16 (drop_bit 16 u)"
    unfolding m and_field by (rule bit_eqI) (auto simp: bit_simps)
  also have "\<dots> = 0 \<longleftrightarrow> drop_bit 16 u = 0"
  proof
    assume "push_bit 16 (drop_bit 16 u) = 0"
    moreover have "drop_bit 16 (push_bit 16 (drop_bit 16 u)) = drop_bit 16 u" by (rule bit_eqI) (auto simp: bit_simps dest: bit_imp_le_length)
    ultimately show "drop_bit 16 u = 0" by simp
  qed simp
  finally show ?thesis using unat_high16 [of u] by (auto simp: word_unat_eq_iff)
qed

lemma lwip_standard_chksum1_spec:
  assumes "nat len \<le> length mem" and "len \<le> 0x20000"
  shows "\<exists>c. lwip_standard_chksum1 dataptr mem len = Some c \<and> unat c = oc (le16 (take (nat len) mem))"
proof -
  define bs where "bs = take (nat len) mem"
  have "(length bs + 1) div 2 \<le> 65536" using assms by (simp add: bs_def)
  with be16_bound [of bs] have "be16 bs < 2 ^ 32" by simp
  then have u: "unat (chksum1_loop bs 0) = be16 bs" by (simp add: chksum1_loop_sum unat_of_nat)
  let ?a = "FOLD_U32T (chksum1_loop bs 0)"
  have "FOLD_U32T ?a = ?a" if "?a AND 0xffff0000 = 0" using FOLD_small [of ?a] that by (simp add: high_clear)
  then have "lwip_standard_chksum1 dataptr mem len = Some (lwip_htons (ucast (FOLD_U32T ?a)))"
    using assms by (simp add: lwip_standard_chksum1_def peek_def bs_def [symmetric] FOLD_U32T_def [symmetric] Let_def)
  moreover have "unat (ucast (FOLD_U32T ?a) :: u16) = oc (be16 bs)"
    using oc_le [of "be16 bs"] by (simp add: unat_ucast16 unat_FOLD_FOLD u)
  then have "unat (lwip_htons (ucast (FOLD_U32T ?a))) = oc (le16 bs)" by (simp add: unat_htons_oc be16_le16)
  ultimately show ?thesis unfolding bs_def by blast
qed

lemma unat_add_carry:
  "unat (add_carry s x) mod 65535 = (unat s + unat x) mod 65535" "add_carry s x = 0 \<longleftrightarrow> s = 0 \<and> x = 0"
proof -
  have b: "unat s < 4294967296" "unat x < 4294967296" by (rule unat_u32_bound)+
  have "unat (add_carry s x) = (if unat s + unat x < 4294967296 then unat s + unat x else unat s + unat x - 4294967295)"
    using b by (auto simp: add_carry_def Let_def word_less_nat_alt unat_word_ariths(1) mod_if)
  then show "unat (add_carry s x) mod 65535 = (unat s + unat x) mod 65535" "add_carry s x = 0 \<longleftrightarrow> s = 0 \<and> x = 0"
    using b mod_65535I [of "unat s + unat x" "unat s + unat x - 4294967295" 65537]
    by (auto simp: word_unat_eq_iff)
qed

lemma load32_mod: "unat (load32 b0 b1 b2 b3) mod 65535 = le16 [b0, b1, b2, b3] mod 65535"
  by (rule mod_65535I [of _ _ "unat b2 + 256 * unat b3"]) (simp add: unat_load32)

lemma load32_0: "load32 b0 b1 b2 b3 = 0 \<longleftrightarrow> b0 = 0 \<and> b1 = 0 \<and> b2 = 0 \<and> b3 = 0"
  by (simp add: word_unat_eq_iff unat_load32)

lemma unat_ucast_u16 [simp]: "unat (ucast (w :: u16) :: u32) = unat w"
  using unat_u16_bound [of w] by (simp add: unsigned_ucast_eq take_bit_eq_mod)

lemma sum_longs_spec:
  assumes "sum_longs bs s = (s', r)"
  shows "(unat s' + le16 r) mod 65535 = (unat s + le16 bs) mod 65535 \<and> (s' = 0 \<and> le16 r = 0 \<longleftrightarrow> s = 0 \<and> le16 bs = 0) \<and> length r < 8"
  using assms
proof (induction bs s arbitrary: s' r rule: sum_longs.induct)
  case (1 b0 b1 b2 b3 b4 b5 b6 b7 bs s)
  define x y where "x = load32 b0 b1 b2 b3" and "y = load32 b4 b5 b6 b7"
  define c where "c = add_carry (add_carry s x) y"
  have r: "sum_longs bs c = (s', r)" using 1(2) by (simp add: x_def y_def c_def Let_def)
  then have IH: "(unat s' + le16 r) mod 65535 = (unat c + le16 bs) mod 65535" "s' = 0 \<and> le16 r = 0 \<longleftrightarrow> c = 0 \<and> le16 bs = 0" "length r < 8"
    using 1(1) [OF refl] by (simp_all add: c_def x_def y_def)
  have "unat c mod 65535 = (unat (add_carry s x) + unat y) mod 65535" unfolding c_def by (rule unat_add_carry)
  also have "\<dots> = ((unat s + unat x) + unat y) mod 65535" by (rule mod_add_cong [OF unat_add_carry(1) refl])
  also have "\<dots> = ((unat s + le16 [b0, b1, b2, b3]) + le16 [b4, b5, b6, b7]) mod 65535"
    unfolding x_def y_def by (intro mod_add_cong load32_mod refl)
  finally have "(unat c + le16 bs) mod 65535 = (((unat s + le16 [b0, b1, b2, b3]) + le16 [b4, b5, b6, b7]) + le16 bs) mod 65535"
    by (rule mod_add_cong [OF _ refl])
  moreover have "c = 0 \<longleftrightarrow> s = 0 \<and> le16 [b0, b1, b2, b3, b4, b5, b6, b7] = 0"
    by (auto simp: c_def x_def y_def unat_add_carry(2) load32_0 unat_eq_zero)
  ultimately show ?case using IH by (auto simp: ac_simps)
qed auto

lemma oc_scale:
  assumes "oc a = oc b" and "0 < k"
  shows "oc (k * (a + c)) = oc (k * (b + c))"
  using assms by (metis oc_add_left oc_mult_left)

lemma lwip_standard_chksum3_spec:
  assumes "nat len \<le> length mem"
  shows "\<exists>c. lwip_standard_chksum3 dataptr mem len = Some c \<and> unat c = oc (le16 (take (nat len) mem))"
proof -
  define bs where "bs = take (nat len) mem"
  let ?od = "dataptr AND 1 \<noteq> 0"
  obtain t1 b1 where a: "chksum_align ?od bs = (t1, b1)" by force
  define ps where "ps = (if ?od \<and> bs \<noteq> [] then dataptr + 1 else dataptr)"
  obtain s2 b2 where h: "chksum3_head ps b1 = (s2, b2)" by force
  obtain s3 b3 where l: "sum_longs b2 s2 = (s3, b3)" by force
  have p: "lwip_standard_chksum3 dataptr mem len = Some (chksum_end ?od t1 (sum_words b3 (FOLD_U32T s3)))"
    using assms a h l by (simp add: lwip_standard_chksum3_def peek_def bs_def [symmetric] ps_def [symmetric] Let_def)
  have h': "unat s2 + le16 b2 = le16 b1"
    using h by (auto simp: chksum3_head_def unat_load16 split: list.splits if_splits)
  have L: "(unat s3 + le16 b3) mod 65535 = (unat s2 + le16 b2) mod 65535" "s3 = 0 \<and> le16 b3 = 0 \<longleftrightarrow> s2 = 0 \<and> le16 b2 = 0" "length b3 < 8"
    using sum_longs_spec [OF l] by simp_all
  have "le16 b3 \<le> 65535 * 4" using le16_bound [of b3] L(3) by (auto intro: order_trans)
  then have small: "unat (FOLD_U32T s3) + le16 b3 + 256 * unat t1 < 2 ^ 32"
    using unat_FOLD_le [of s3] unat_byte_bound [of t1] by simp
  have "(unat (FOLD_U32T s3) + le16 b3) mod 65535 = (unat s3 + le16 b3) mod 65535"
    by (rule mod_add_cong [OF _ refl]) (simp only: unat_FOLD fold_mod)
  then have m: "(unat (FOLD_U32T s3) + le16 b3) mod 65535 = le16 b1 mod 65535" using L(1) h' by simp
  have z: "unat (FOLD_U32T s3) + le16 b3 = 0 \<longleftrightarrow> le16 b1 = 0"
    using L(2) h' fold_0 [of "unat s3"] by (auto simp: unat_FOLD unat_eq_zero)
  have "oc ((if ?od then 256 else 1) * (unat (FOLD_U32T s3) + le16 b3 + 256 * unat t1)) =
      oc ((if ?od then 256 else 1) * (le16 b1 + 256 * unat t1))"
    using oc_scale [OF oc_cong [OF m z], of "if ?od then 256 else 1" "256 * unat t1"] by simp
  also have "\<dots> = oc (le16 bs)"
    using a le16_odd by (auto simp: chksum_align_def add.commute split: list.splits if_splits)
  finally show ?thesis unfolding p using chksum_end_sum [OF small, of ?od] bs_def by simp
qed

text \<open>C18: The checksum routine that is built and the two alternatives of the source compute the same value for every
  block of memory of up to 131072 bytes at any alignment: the sum of its 16-bit words in ones' complement.\<close>

theorem chksum_versions_agree:
  assumes "nat len \<le> length mem" and "len \<le> 0x20000"
  shows "lwip_standard_chksum dataptr mem len = Some (of_nat (oc (le16 (take (nat len) mem)))) \<and>
     lwip_standard_chksum1 dataptr mem len = lwip_standard_chksum dataptr mem len \<and>
     lwip_standard_chksum3 dataptr mem len = lwip_standard_chksum dataptr mem len"
proof -
  have "c = of_nat k" if "unat c = k" for c :: u16 and k using that by auto
  then show ?thesis
    using lwip_standard_chksum_spec [OF assms] lwip_standard_chksum1_spec [OF assms] lwip_standard_chksum3_spec [OF assms(1)]
    by metis
qed

theorem chksum_versions_agree_witness:
  "lwip_standard_chksum 0x1001 [0x45, 0x00, 0xff] 3 = Some (of_nat (oc (le16 (take (nat 3) [0x45, 0x00, 0xff])))) \<and>
   lwip_standard_chksum1 0x1001 [0x45, 0x00, 0xff] 3 = lwip_standard_chksum 0x1001 [0x45, 0x00, 0xff] 3 \<and>
   lwip_standard_chksum3 0x1001 [0x45, 0x00, 0xff] 3 = lwip_standard_chksum 0x1001 [0x45, 0x00, 0xff] 3 \<and>
   oc (le16 [0x45, 0x00, 0xff]) = 0x144"
  using chksum_versions_agree [where len = 3 and mem = "[0x45, 0x00, 0xff]" and dataptr = "0x1001"] by (simp add: oc_def)

section \<open>Chains\<close>

definition chain_bytes :: "chain \<Rightarrow> byte list" where
  "chain_bytes p = concat (map snd p)"

definition chain_ok :: "chain \<Rightarrow> bool" where
  "chain_ok p \<longleftrightarrow> list_all (\<lambda>(a, bs). length bs < 65536) p"

abbreviation parity :: "bool \<Rightarrow> nat" where
  "parity b \<equiv> if b then 256 else 1"

lemma oc_65536: "oc (65536 * n) = oc n"
  by (rule oc_cong, rule mod_65535I [of _ _ n]) auto

lemma oc_parity: "oc (parity sw * (parity sw * n)) = oc n"
  by (simp add: oc_65536)

lemma oc_add_cong: "oc a = oc b \<Longrightarrow> oc (n + a) = oc (n + b)"
  using oc_scale [of a b 1 n] by (simp add: add.commute)

lemma oc_add_right: "oc (a + oc b) = oc (a + b)"
  using oc_add_left [of b a] by (simp add: add.commute)

lemma le16_append_parity:
  "oc (n + parity sw * le16 (bs @ rest)) = oc (n + parity sw * le16 bs + parity (sw \<noteq> odd (length bs)) * le16 rest)"
proof -
  have "oc (n + parity sw * le16 (bs @ rest)) = oc (n + parity sw * (le16 bs + parity (odd (length bs)) * le16 rest))"
  proof -
    have "oc (parity sw * le16 (bs @ rest)) = oc (parity sw * (le16 bs + parity (odd (length bs)) * le16 rest))"
      using oc_scale [OF le16_append [of bs rest], of "parity sw" 0] by simp
    then show ?thesis by (rule oc_add_cong)
  qed
  also have "\<dots> = oc ((n + parity sw * le16 bs) + parity sw * (parity (odd (length bs)) * le16 rest))"
    by (simp add: algebra_simps)
  also have "\<dots> = oc ((n + parity sw * le16 bs) + parity (sw \<noteq> odd (length bs)) * le16 rest)"
  proof -
    have "oc (parity sw * (parity (odd (length bs)) * le16 rest)) = oc (parity (sw \<noteq> odd (length bs)) * le16 rest)"
      using oc_65536 [of "le16 rest"] by (cases sw; cases "odd (length bs)") simp_all
    then show ?thesis by (rule oc_add_cong)
  qed
  finally show ?thesis .
qed

lemma parity_pos: "0 < parity b"
  by simp

text \<open>The loop body on one packet buffer, of which \<open>bs\<close> is summed up.\<close>

lemma acc_step:
  assumes "unat acc = oc (parity sw * n)" and "unat c = oc (le16 bs)"
  shows "unat (FOLD_U32T (acc + ucast (c :: u16))) = oc (parity sw * (n + parity sw * le16 bs))"
proof -
  have le: "unat acc \<le> 65535" "unat c \<le> 65535" using oc_le assms by simp_all
  have "unat (acc + ucast c) = unat acc + unat c" using le by (simp add: unat_word_ariths(1))
  then have "unat (FOLD_U32T (acc + ucast c)) = oc (oc (parity sw * n) + oc (le16 bs))"
    using le assms by (simp add: unat_FOLD_small)
  also have "\<dots> = oc (parity sw * n + le16 bs)" by (simp only: oc_add_left oc_add_right)
  also have "\<dots> = oc (parity sw * n + parity sw * (parity sw * le16 bs))"
    by (rule oc_add_cong) (simp only: oc_parity)
  finally show ?thesis by (simp only: distrib_left)
qed

lemma acc_swap:
  assumes "unat acc = oc (parity sw * n)"
  shows "unat (SWAP_BYTES_IN_WORD acc) = oc (parity (\<not> sw) * n)"
  using assms oc_le [of "parity sw * n"] by (simp add: unat_SWAP oc_65536)

text \<open>The accumulator holds the sum, with its bytes exchanged behind an odd number of bytes.\<close>

lemma chain_sum_spec:
  assumes "chain_ok p" and "unat acc = oc (parity sw * n)"
  shows "\<exists>acc'. chain_sum p sw acc = Some (sw \<noteq> odd (length (chain_bytes p)), acc') \<and>
     unat acc' = oc (parity (sw \<noteq> odd (length (chain_bytes p))) * (n + parity sw * le16 (chain_bytes p)))"
  using assms
proof (induction p arbitrary: sw acc n)
  case Nil
  then show ?case by (simp add: chain_bytes_def)
next
  case (Cons x p)
  obtain a bs where x: "x = (a, bs)" by force
  then have bs: "length bs < 65536" and ok: "chain_ok p" using Cons.prems(1) by (auto simp: chain_ok_def)
  obtain c where c: "lwip_standard_chksum a bs (int (length bs)) = Some c" "unat c = oc (le16 bs)"
    using lwip_standard_chksum_spec [of "int (length bs)" bs a] bs by auto
  define a1 n1 where "a1 = FOLD_U32T (acc + ucast c)" and "n1 = n + parity sw * le16 bs"
  have a1: "unat a1 = oc (parity sw * n1)" unfolding a1_def n1_def by (rule acc_step [OF Cons.prems(2) c(2)])
  define sw' a2 where "sw' = (sw \<noteq> odd (length bs))" and "a2 = (if odd (length bs) then SWAP_BYTES_IN_WORD a1 else a1)"
  have "unat a2 = oc (parity sw' * n1)" using a1 acc_swap [OF a1] by (auto simp: a2_def sw'_def)
  from Cons.IH [OF ok this] obtain acc' where r: "chain_sum p sw' a2 = Some (sw' \<noteq> odd (length (chain_bytes p)), acc')"
      "unat acc' = oc (parity (sw' \<noteq> odd (length (chain_bytes p))) * (n1 + parity sw' * le16 (chain_bytes p)))" by blast
  have cb: "chain_bytes (x # p) = bs @ chain_bytes p" by (simp add: chain_bytes_def x)
  have f: "(sw' \<noteq> odd (length (chain_bytes p))) = (sw \<noteq> odd (length (chain_bytes (x # p))))" by (auto simp: cb sw'_def)
  have "chain_sum (x # p) sw acc = chain_sum p sw' a2"
    using c(1) by (auto simp: x a1_def a2_def sw'_def Let_def odd_iff_mod_2_eq_one)
  then have R: "chain_sum (x # p) sw acc = Some (sw \<noteq> odd (length (chain_bytes (x # p))), acc')" using r(1) unfolding f by (rule trans)
  have "oc (n1 + parity sw' * le16 (chain_bytes p)) = oc (n + parity sw * le16 (chain_bytes (x # p)))"
    unfolding cb le16_append_parity n1_def sw'_def ..
  from oc_scale [OF this, where c = 0] r(2)
  have U: "unat acc' = oc (parity (sw' \<noteq> odd (length (chain_bytes p))) * (n + parity sw * le16 (chain_bytes (x # p))))"
    by (simp only: add_0_right parity_pos)
  show ?case by (rule exI, rule conjI [OF R U [unfolded f]])
qed

text \<open>The checksum over a chain is the one over the bytes in a row.\<close>

definition inverted :: "nat \<Rightarrow> u16" where
  "inverted n = NOT (of_nat (oc n))"

lemma ucast_low16: "(ucast (acc AND 0xffff :: u32) :: u16) = of_nat (unat acc)"
  by (simp add: word_unat_eq_iff unat_ucast16 unat_low16 unat_of_nat)

lemma swap_back:
  assumes "unat acc = oc (parity sw * n)"
  shows "unat (if sw then SWAP_BYTES_IN_WORD acc else acc) = oc n"
  using assms oc_le [of "256 * n"] by (simp add: unat_SWAP oc_65536)

lemma inet_chksum_pbuf_spec:
  assumes "chain_ok p"
  shows "inet_chksum_pbuf p = Some (inverted (le16 (chain_bytes p)))"
proof -
  let ?sw = "odd (length (chain_bytes p))"
  obtain acc where c: "chain_sum p False 0 = Some (?sw, acc)" "unat acc = oc (parity ?sw * le16 (chain_bytes p))"
    using chain_sum_spec [OF assms, of 0 False 0] by auto
  define a where "a = (if ?sw then SWAP_BYTES_IN_WORD acc else acc)"
  have "unat a = oc (le16 (chain_bytes p))" unfolding a_def by (rule swap_back [OF c(2)])
  moreover have "inet_chksum_pbuf p = Some (NOT (ucast (a AND 0xffff)))" using c(1) by (simp add: inet_chksum_pbuf_def a_def Let_def)
  ultimately show ?thesis by (simp only: inverted_def ucast_low16)
qed

lemma oc_add3: "oc (oc a + oc b + oc c) = oc (a + b + c)"
  by (metis oc_add_left oc_add_right)

lemma unat_add_le: "unat (a :: u32) + unat b < 2 ^ 32 \<Longrightarrow> unat (a + b) = unat a + unat b"
  by (simp add: unat_word_ariths(1))

lemma pseudo_end_spec:
  assumes "unat acc = oc (parity sw * n)"
  shows "pseudo_end proto proto_len sw acc = inverted (n + 256 * unat proto + 256 * unat proto_len)"
proof -
  define a p l where "a = (if sw then SWAP_BYTES_IN_WORD acc else acc)" and "p = (ucast (lwip_htons (ucast proto)) :: u32)"
    and "l = (ucast (lwip_htons proto_len) :: u32)"
  have "unat (ucast proto :: u16) = unat proto" using unat_byte_bound [of proto] by (simp add: unsigned_ucast_eq take_bit_eq_mod)
  then have u: "unat a = oc n" "unat p = oc (256 * unat proto)" "unat l = oc (256 * unat proto_len)"
    using swap_back [OF assms] by (simp_all add: unat_htons_oc a_def p_def l_def)
  then have b: "unat a \<le> 65535" "unat p \<le> 65535" "unat l \<le> 65535" using oc_le by simp_all
  then have "unat (a + p) = unat a + unat p" by (intro unat_add_le) simp
  with b have "unat (a + p + l) = unat a + unat p + unat l" by (subst unat_add_le) simp_all
  then have "unat (FOLD_U32T (FOLD_U32T (a + p + l))) = oc (oc n + oc (256 * unat proto) + oc (256 * unat proto_len))"
    by (simp only: unat_FOLD_FOLD u)
  also have "\<dots> = oc (n + 256 * unat proto + 256 * unat proto_len)" by (rule oc_add3)
  finally have "unat (FOLD_U32T (FOLD_U32T (a + p + l))) = oc (n + 256 * unat proto + 256 * unat proto_len)" .
  moreover have "pseudo_end proto proto_len sw acc = NOT (ucast (FOLD_U32T (FOLD_U32T (a + p + l)) AND 0xffff))"
    by (simp add: pseudo_end_def a_def p_def l_def Let_def)
  ultimately show ?thesis by (simp only: inverted_def ucast_low16)
qed

lemma oc_idem [simp]: "oc (oc n) = oc n"
  by (simp add: oc_self oc_le)

lemma inet_cksum_pseudo_base_spec:
  assumes "chain_ok p" and "unat acc = oc n"
  shows "inet_cksum_pseudo_base p proto proto_len acc = Some (inverted (n + le16 (chain_bytes p) + 256 * unat proto + 256 * unat proto_len))"
proof -
  obtain acc' where "chain_sum p False acc = Some (odd (length (chain_bytes p)), acc')"
      "unat acc' = oc (parity (odd (length (chain_bytes p))) * (n + le16 (chain_bytes p)))"
    using chain_sum_spec [OF assms(1), of acc False n] assms(2) by auto
  then show ?thesis by (simp add: inet_cksum_pseudo_base_def pseudo_end_spec)
qed

lemma chain_sum_partial_spec:
  assumes "chain_ok p" and "unat acc = oc (parity sw * n)" and "k < 0x7fff"
  shows "\<exists>sw' acc'. chain_sum_partial p k sw acc = Some (sw', acc') \<and>
     unat acc' = oc (parity sw' * (n + parity sw * le16 (take k (chain_bytes p))))"
  using assms
proof (induction p arbitrary: sw acc n k)
  case Nil
  then show ?case by (simp add: chain_bytes_def)
next
  case (Cons x p)
  obtain a bs where x: "x = (a, bs)" by force
  then have bs: "length bs < 65536" and ok: "chain_ok p" using Cons.prems(1) by (auto simp: chain_ok_def)
  have cb: "chain_bytes (x # p) = bs @ chain_bytes p" by (simp add: chain_bytes_def x)
  define j n1 a1 where "j = (if length bs > k then k else length bs)" and "n1 = n + parity sw * le16 (take k bs)"
    and "a1 = (\<lambda>c :: u16. FOLD_U32T (acc + ucast c))"
  obtain c where c: "lwip_standard_chksum a bs (int j) = Some c" "unat c = oc (le16 (take k bs))"
  proof -
    have "nat (int j) \<le> length bs" "int j \<le> 0x20000" "take j bs = take k bs" using bs by (auto simp: j_def)
    then show ?thesis using lwip_standard_chksum_spec [of "int j" bs a] that by auto
  qed
  have a1: "unat (a1 c) = oc (parity sw * n1)" unfolding a1_def n1_def by (rule acc_step [OF Cons.prems(2) c(2)])
  define sw' a2 where "sw' = (sw \<noteq> odd (length bs))" and "a2 = (if odd (length bs) then SWAP_BYTES_IN_WORD (a1 c) else a1 c)"
  have a2: "unat a2 = oc (parity sw' * n1)" using a1 acc_swap [OF a1] by (auto simp: a2_def sw'_def)
  show ?case
  proof (cases "k = 0")
    case True
    then show ?thesis using Cons.prems(2) by (simp add: x)
  next
    case False
    have "chain_sum_partial (x # p) k sw acc = chain_sum_partial p (k - j) sw' a2"
      using False Cons.prems(3) c(1) by (auto simp: x j_def a1_def a2_def sw'_def Let_def odd_iff_mod_2_eq_one)
    moreover have "k - j < 0x7fff" using Cons.prems(3) by simp
    from Cons.IH [OF ok a2 this] obtain sw2 acc' where r: "chain_sum_partial p (k - j) sw' a2 = Some (sw2, acc')"
      "unat acc' = oc (parity sw2 * (n1 + parity sw' * le16 (take (k - j) (chain_bytes p))))" by blast
    moreover have "oc (n1 + parity sw' * le16 (take (k - j) (chain_bytes p))) = oc (n + parity sw * le16 (take k (chain_bytes (x # p))))"
    proof (cases "length bs > k")
      case True
      then show ?thesis by (simp add: cb n1_def j_def)
    next
      case False
      then have "take k (chain_bytes (x # p)) = bs @ take (k - j) (chain_bytes p)" "take k bs = bs" by (auto simp: cb j_def)
      then show ?thesis by (simp only: le16_append_parity n1_def sw'_def)
    qed
    from oc_scale [OF this, of "parity sw2" 0] r(2)
    have U: "unat acc' = oc (parity sw2 * (n + parity sw * le16 (take k (chain_bytes (x # p)))))" by (simp only: add_0_right parity_pos)
    ultimately have "chain_sum_partial (x # p) k sw acc = Some (sw2, acc')" by simp
    with U show ?thesis by (intro exI) (rule conjI)
  qed
qed

lemma unat_add_addr:
  assumes "unat acc \<le> 65535 * k" and "k \<le> 20"
  shows "unat (add_addr acc addr) = unat acc + unat addr mod 65536 + unat addr div 65536" "unat (add_addr acc addr) \<le> 65535 * (k + 2)"
proof -
  have h: "unat addr div 65536 \<le> 65535" "unat addr mod 65536 \<le> 65535" using unat_u32_bound [of addr] by auto
  have u: "unat (drop_bit 16 addr AND 0xffff) = unat addr div 65536" using h by (simp add: unat_low16 unat_high16)
  have "unat (acc + (addr AND 0xffff)) = unat acc + unat addr mod 65536" using assms h by (simp add: unat_add_le unat_low16)
  then show e: "unat (add_addr acc addr) = unat acc + unat addr mod 65536 + unat addr div 65536"
    using assms h by (simp add: add_addr_def unat_add_le u)
  show "unat (add_addr acc addr) \<le> 65535 * (k + 2)" unfolding e using assms h by simp
qed

text \<open>The words of an address as they lie in memory.\<close>

definition addr_bytes :: "u32 \<Rightarrow> byte list" where
  "addr_bytes a = le_bytes 4 (unat a)"

lemma le16_addr_bytes: "le16 (addr_bytes a) = unat a mod 65536 + unat a div 65536"
proof -
  define v where "v = unat a"
  have four: "(4 :: nat) = Suc (Suc (Suc (Suc 0)))" by simp
  have "le16 (le_bytes 4 v) = v mod 256 + 256 * (v div 256 mod 256) + (v div 65536 mod 256 + 256 * (v div 16777216 mod 256))"
    by (simp only: four le_bytes.simps le16.simps unat_of_nat_byte div_mult2_eq [symmetric]) simp
  also have "v mod 256 + 256 * (v div 256 mod 256) = v mod 65536" using mod_mult2_eq [of v 256 256] by simp
  also have "v div 65536 mod 256 + 256 * (v div 16777216 mod 256) = v div 65536 mod 65536"
    using mod_mult2_eq [of "v div 65536" 256 256] by (simp add: div_mult2_eq [symmetric])
  also have "v div 65536 mod 65536 = v div 65536" using unat_u32_bound [of a] by (simp add: v_def)
  finally show ?thesis by (simp add: addr_bytes_def v_def)
qed

text \<open>The pseudo header: the addresses, a zero byte with the protocol, and the length in network order.\<close>

definition pseudo_header :: "u32 list \<Rightarrow> byte \<Rightarrow> u16 \<Rightarrow> byte list" where
  "pseudo_header addrs proto proto_len =
     concat (map addr_bytes addrs) @ [0, proto] @ [of_nat (unat proto_len div 256), of_nat (unat proto_len mod 256)]"

lemma le16_addrs: "le16 (concat (map addr_bytes as) @ r) = sum_list (map (\<lambda>a. unat a mod 65536 + unat a div 65536) as) + le16 r"
proof (induction as)
  case (Cons a as)
  obtain b0 b1 b2 b3 where b: "addr_bytes a = [b0, b1, b2, b3]" unfolding addr_bytes_def le_bytes_u32 by blast
  then have "le16 [b0, b1, b2, b3] = unat a mod 65536 + unat a div 65536" using le16_addr_bytes [of a] by simp
  with Cons b show ?case by (simp only: list.map concat.simps append_assoc append_Cons append_Nil le16.simps sum_list.Cons)
qed simp

lemma le16_pseudo_header:
  "le16 (pseudo_header addrs proto proto_len @ rest) = sum_list (map (\<lambda>a. unat a mod 65536 + unat a div 65536) addrs) + 256 * unat proto +
     (unat proto_len div 256 + 256 * (unat proto_len mod 256)) + le16 rest"
proof -
  have "unat proto_len div 256 mod 256 = unat proto_len div 256" using unat_u16_bound [of proto_len] by simp
  then show ?thesis
    by (simp only: pseudo_header_def le16_addrs append_assoc append_Cons append_Nil le16.simps unat_of_nat_byte unsigned_0) simp
qed

lemma pseudo_sum:
  assumes "n = sum_list (map (\<lambda>a. unat a mod 65536 + unat a div 65536) addrs)"
  shows "inverted (n + le16 bs + 256 * unat proto + 256 * unat proto_len) = inverted (le16 (pseudo_header addrs proto proto_len @ bs))"
proof -
  have "256 * (unat proto_len mod 256) + unat proto_len div 256 = oc (256 * unat proto_len)"
    by (rule swap_mod) (use unat_u16_bound [of proto_len] in simp)
  then have "oc (256 * unat proto_len) = oc (256 * (unat proto_len mod 256) + unat proto_len div 256)"
    by (metis oc_idem)
  also have "\<dots> = oc (unat proto_len div 256 + 256 * (unat proto_len mod 256))" by (simp only: add.commute)
  finally have "oc (256 * unat proto_len) = oc (unat proto_len div 256 + 256 * (unat proto_len mod 256))" .
  from oc_add_cong [OF this, of "n + le16 bs + 256 * unat proto"] show ?thesis
    unfolding inverted_def le16_pseudo_header assms [symmetric] by (simp only: ac_simps)
qed

lemma inet_acc: "unat (FOLD_U32T (FOLD_U32T (add_addr (add_addr 0 src) dest))) = oc (sum_list (map (\<lambda>a. unat a mod 65536 + unat a div 65536) [src, dest]))"
proof -
  have "unat (add_addr 0 src) \<le> 65535 * 2" using unat_add_addr(2) [of 0 0 src] by simp
  note 2 = unat_add_addr(1) [OF this, of dest]
  show ?thesis unfolding unat_FOLD_FOLD using 2 unat_add_addr(1) [of 0 0 src] by (simp add: ac_simps)
qed

lemma ip6_fold_acc:
  "unat acc \<le> 65535 * k \<Longrightarrow> k + 4 * length sd \<le> 20 \<Longrightarrow>
   unat (fold (\<lambda>(a, d) acc. add_addr (add_addr acc a) d) sd acc) =
     unat acc + sum_list (map (\<lambda>a. unat a mod 65536 + unat a div 65536) (concat (map (\<lambda>(a, d). [a, d]) sd)))"
proof (induction sd arbitrary: acc k)
  case (Cons x sd)
  obtain a d where x: "x = (a, d)" by force
  have k: "k \<le> 20" "k + 2 \<le> 20" using Cons.prems(2) by simp_all
  note 1 = unat_add_addr [OF Cons.prems(1) k(1), of a]
  note 2 = unat_add_addr [OF 1(2) k(2), of d]
  have "(k + 2 + 2) + 4 * length sd \<le> 20" using Cons.prems(2) by simp
  from Cons.IH [OF 2(2) this] show ?case by (simp add: x 1(1) 2(1))
qed simp

text \<open>The words of both addresses, in the order in which they are added up.\<close>

definition pseudo_words :: "ip_addr \<Rightarrow> ip_addr \<Rightarrow> u32 list option" where
  "pseudo_words src dest =
     (case (src, dest) of (IP4 s, IP4 d) \<Rightarrow> Some [s, d]
      | (IP6 s, IP6 d) \<Rightarrow> if length s = 4 \<and> length d = 4 then Some (concat (map (\<lambda>(a, d). [a, d]) (zip s d))) else None
      | _ \<Rightarrow> None)"

lemma ip6_acc_sum:
  assumes "length s = 4" and "length d = 4"
  shows "unat (ip6_acc s d) = oc (sum_list (map (\<lambda>a. unat a mod 65536 + unat a div 65536) (concat (map (\<lambda>(a, d). [a, d]) (zip s d)))))"
  using ip6_fold_acc [of 0 0 "zip s d"] assms by (simp add: ip6_acc_def unat_FOLD_FOLD)

lemma ip_chksum_pseudo_spec:
  assumes "chain_ok p" and "pseudo_words src dest = Some ws"
  shows "ip_chksum_pseudo p proto proto_len src dest = Some (inverted (le16 (pseudo_header ws proto proto_len @ chain_bytes p)))"
proof -
  have "ip_chksum_pseudo p proto proto_len src dest =
      Some (inverted (sum_list (map (\<lambda>a. unat a mod 65536 + unat a div 65536) ws) + le16 (chain_bytes p) + 256 * unat proto + 256 * unat proto_len))"
  proof (cases dest)
    case (IP4 d)
    with assms(2) obtain s where s: "src = IP4 s" "ws = [s, d]" by (auto simp: pseudo_words_def split: ip_addr.splits)
    show ?thesis using inet_cksum_pseudo_base_spec [OF assms(1) inet_acc [of s d]]
      by (simp only: IP4 s ip_chksum_pseudo_def ip_2_ip4_def ip_addr.case Option.bind.simps inet_chksum_pseudo_def Let_def)
  next
    case (IP6 d)
    with assms(2) obtain s where s: "src = IP6 s" "ws = concat (map (\<lambda>(a, d). [a, d]) (zip s d))" "length s = 4" "length d = 4"
      by (auto simp: pseudo_words_def split: ip_addr.splits if_splits)
    show ?thesis using inet_cksum_pseudo_base_spec [OF assms(1) ip6_acc_sum [OF s(3,4)]]
      by (simp only: IP6 s(1,2) ip_chksum_pseudo_def ip_2_ip6_def ip_addr.case Option.bind.simps ip6_chksum_pseudo_def)
  qed
  then show ?thesis by (simp only: pseudo_sum [OF refl])
qed

lemma ip_chksum_pseudo_partial_spec:
  assumes "chain_ok p" and "pseudo_words src dest = Some ws" and "unat k < 0x7fff"
  shows "ip_chksum_pseudo_partial p proto proto_len k src dest =
    Some (inverted (le16 (pseudo_header ws proto proto_len @ take (unat k) (chain_bytes p))))"
proof -
  have base: "inet_cksum_pseudo_partial_base p proto proto_len k acc =
      Some (inverted (n + le16 (take (unat k) (chain_bytes p)) + 256 * unat proto + 256 * unat proto_len))" if "unat acc = oc n" for acc n
  proof -
    from that obtain sw acc' where "chain_sum_partial p (unat k) False acc = Some (sw, acc')"
        "unat acc' = oc (parity sw * (n + le16 (take (unat k) (chain_bytes p))))"
      using chain_sum_partial_spec [OF assms(1) _ assms(3), of acc False n] by auto
    then show ?thesis by (simp add: inet_cksum_pseudo_partial_base_def pseudo_end_spec)
  qed
  have "ip_chksum_pseudo_partial p proto proto_len k src dest =
      Some (inverted (sum_list (map (\<lambda>a. unat a mod 65536 + unat a div 65536) ws) + le16 (take (unat k) (chain_bytes p)) + 256 * unat proto + 256 * unat proto_len))"
  proof (cases dest)
    case (IP4 d)
    with assms(2) obtain s where s: "src = IP4 s" "ws = [s, d]" by (auto simp: pseudo_words_def split: ip_addr.splits)
    show ?thesis using base [OF inet_acc [of s d]]
      by (simp only: IP4 s ip_chksum_pseudo_partial_def ip_2_ip4_def ip_addr.case Option.bind.simps inet_chksum_pseudo_partial_def Let_def)
  next
    case (IP6 d)
    with assms(2) obtain s where s: "src = IP6 s" "ws = concat (map (\<lambda>(a, d). [a, d]) (zip s d))" "length s = 4" "length d = 4"
      by (auto simp: pseudo_words_def split: ip_addr.splits if_splits)
    show ?thesis using base [OF ip6_acc_sum [OF s(3,4)]]
      by (simp only: IP6 s(1,2) ip_chksum_pseudo_partial_def ip_2_ip6_def ip_addr.case Option.bind.simps ip6_chksum_pseudo_partial_def)
  qed
  then show ?thesis by (simp only: pseudo_sum [OF refl])
qed

text \<open>A longer part is refused: the assertion ends the program although the length is valid.\<close>

lemma chksum_partial_assertion:
  "ip_chksum_pseudo_partial [(0, replicate 8 0), (8, replicate 39992 0)] 136 40000 40000 (IP4 0) (IP4 0) = None"
  by (simp add: ip_chksum_pseudo_partial_def ip_2_ip4_def inet_chksum_pseudo_partial_def inet_cksum_pseudo_partial_base_def Let_def
    lwip_standard_chksum_def peek_def bind_eq_None_conv)

section \<open>Sender and receiver\<close>

lemma unat_inverted: "unat (inverted n) = 65535 - oc n"
proof -
  have "NOT (of_nat (oc n)) = (of_nat (65535 - oc n) :: u16)"
    using oc_le [of n] by (simp add: not_eq_complement of_nat_diff)
  then have "unat (inverted n) = unat (of_nat (65535 - oc n) :: u16)" by (simp only: inverted_def)
  also have "\<dots> = 65535 - oc n" by (subst unat_of_nat) simp
  finally show ?thesis .
qed

lemma inverted_0: "inverted n = 0 \<longleftrightarrow> 0 < n \<and> n mod 65535 = 0"
proof -
  have "inverted n = 0 \<longleftrightarrow> oc n = 65535" using oc_le [of n] unat_inverted [of n] by (auto simp: word_unat_eq_iff)
  also have "\<dots> \<longleftrightarrow> 0 < n \<and> n mod 65535 = 0"
  proof
    assume "oc n = 65535"
    then show "0 < n \<and> n mod 65535 = 0" using oc_mod [of n] oc_0(1) [of n] by simp
  next
    assume "0 < n \<and> n mod 65535 = 0"
    then show "oc n = 65535" by (intro oc_unique [symmetric]) auto
  qed
  finally show ?thesis .
qed

lemma le16_word: "even (length h) \<Longrightarrow> le16 (h @ [of_nat (w mod 256), of_nat (w div 256)] @ r) = le16 h + w mod 65536 + le16 r"
proof (induction h rule: le16.induct)
  case 1
  have "w mod 256 + 256 * (w div 256 mod 256) = w mod 65536" using mod_mult2_eq [of w 256 256] by simp
  then show ?case by (simp only: append_Nil append_Cons le16.simps unat_of_nat_byte) simp
qed simp_all

definition word_at :: "u16 \<Rightarrow> byte list" where
  "word_at c = [of_nat (unat c mod 256), of_nat (unat c div 256)]"

lemma le16_word_at: "even (length h) \<Longrightarrow> le16 (h @ word_at c @ r) = le16 h + unat c + le16 r"
  using le16_word [of h "unat c" r] unat_u16_bound [of c] by (simp add: word_at_def)

lemma even_pseudo_header: "even (length (pseudo_header ws proto l))"
proof -
  have "even (length (concat (map addr_bytes ws)))" by (induction ws) (simp_all add: addr_bytes_def)
  then show ?thesis by (simp add: pseudo_header_def)
qed

lemma diff_dvd_cases:
  assumes "(int b - int a) mod 65535 = 0" and "a < 65536" and "b < 65536"
  shows "a = b \<or> a = 0 \<and> b = 65535 \<or> a = 65535 \<and> b = 0"
proof -
  from assms(1) obtain k where k: "int b - int a = 65535 * k" by auto
  with assms(2,3) have "k = - 1 \<or> k = 0 \<or> k = 1" by linarith
  with k assms(2,3) show ?thesis by auto
qed

text \<open>C5: The checksum that a sender computes over its header with a cleared field and stores in that field is accepted by a
  receiver, over IPv4 and over IPv6, whatever packet buffers hold the packet on either side and however they are
  aligned; and a receiver does not accept it if one 16-bit word has changed on the way, unless it changed between
  0x0000 and 0xffff.\<close>

theorem inet_chksum_end_to_end:
  assumes "chain_ok p" and "chain_ok q" and "chain_ok q'" and "pseudo_words src dest = Some ws"
    and "even (length hdr)" and "even (length pre)" and "w \<noteq> w'" and "{w, w'} \<noteq> {0, 0xffff}"
    and "chain_bytes p = hdr @ word_at 0 @ rest"
    and "ip_chksum_pseudo p proto l src dest = Some c"
    and "chain_bytes q = hdr @ word_at c @ rest"
    and "chain_bytes q = pre @ word_at w @ suf" and "chain_bytes q' = pre @ word_at w' @ suf"
  shows "ip_chksum_pseudo q proto l src dest = Some 0 \<and> (\<exists>e. ip_chksum_pseudo q' proto l src dest = Some e \<and> e \<noteq> 0)"
proof -
  let ?H = "pseudo_header ws proto l"
  define n where "n = le16 (?H @ hdr) + le16 rest"
  have split: "le16 (?H @ h @ word_at x @ r) = le16 (?H @ h) + unat x + le16 r" if "even (length h)" for h x r
    using le16_word_at [of "?H @ h" x r] that even_pseudo_header by simp
  have "c = inverted n"
    using assms(10) ip_chksum_pseudo_spec [OF assms(1,4)] by (simp add: assms(9) split [OF assms(5)] n_def)
  then have q: "le16 (?H @ chain_bytes q) = n + (65535 - oc n)"
    unfolding assms(11) split [OF assms(5)] by (simp add: unat_inverted n_def)
  have z: "0 < le16 (?H @ chain_bytes q) \<and> le16 (?H @ chain_bytes q) mod 65535 = 0"
  proof
    show "0 < le16 (?H @ chain_bytes q)" unfolding q by (cases "n = 0") auto
    have "(n + (65535 - oc n)) mod 65535 = (oc n + (65535 - oc n)) mod 65535" by (rule mod_add_cong) simp_all
    then show "le16 (?H @ chain_bytes q) mod 65535 = 0" unfolding q using oc_le [of n] by simp
  qed
  define m where "m = le16 (?H @ pre) + le16 suf"
  have m: "le16 (?H @ chain_bytes q) = m + unat w" "le16 (?H @ chain_bytes q') = m + unat w'"
    unfolding assms(12,13) split [OF assms(6)] by (simp_all add: m_def)
  have "\<not> (0 < m + unat w' \<and> (m + unat w') mod 65535 = 0)"
  proof
    assume "0 < m + unat w' \<and> (m + unat w') mod 65535 = 0"
    with z m have "65535 dvd m + unat w'" "65535 dvd m + unat w" by (simp_all add: mod_eq_0_iff_dvd)
    then have "int 65535 dvd int (m + unat w')" "int 65535 dvd int (m + unat w)" by (simp_all only: of_nat_dvd_iff)
    then have "int 65535 dvd int (m + unat w') - int (m + unat w)" by (rule dvd_diff)
    then have "(int (unat w') - int (unat w)) mod 65535 = 0" by simp
    then have "unat w = unat w' \<or> unat w = 0 \<and> unat w' = 65535 \<or> unat w = 65535 \<and> unat w' = 0"
      using unat_u16_bound [of w] unat_u16_bound [of w'] by (intro diff_dvd_cases) simp_all
    then have "w = w' \<or> w = 0 \<and> w' = 0xffff \<or> w = 0xffff \<and> w' = 0" by (simp add: word_unat_eq_iff)
    with assms(7,8) show False by (auto simp: insert_commute)
  qed
  then show ?thesis
    using ip_chksum_pseudo_spec [OF assms(2,4)] ip_chksum_pseudo_spec [OF assms(3,4)] z m by (simp add: inverted_0)
qed

theorem inet_chksum_end_to_end_witness:
  "ip_chksum_pseudo [(4, [1, 2, 0xf9, 0xe4]), (9, [7])] 17 5 (IP4 0x0100007f) (IP4 0x0100007f) = Some 0 \<and>
   (\<exists>e. ip_chksum_pseudo [(0, [9, 2, 0xf9, 0xe4, 7])] 17 5 (IP4 0x0100007f) (IP4 0x0100007f) = Some e \<and> e \<noteq> 0)"
  by (rule inet_chksum_end_to_end [where p = "[(3, [1, 2]), (8, [0, 0, 7])]" and hdr = "[1, 2]" and rest = "[7]" and pre = "[]"
      and w = "0x0201" and w' = "0x0209" and suf = "[0xf9, 0xe4, 7]" and c = "0xe4f9" and ws = "[0x0100007f, 0x0100007f]"])
    (simp_all add: chain_ok_def pseudo_words_def chain_bytes_def word_at_def ip_chksum_pseudo_def ip_2_ip4_def inet_chksum_pseudo_def
      inet_cksum_pseudo_base_def add_addr_def pseudo_end_def lwip_htons_def PP_HTONS_def SWAP_BYTES_IN_WORD_def
      lwip_standard_chksum_def peek_def chksum_align_def chksum_end_def Let_def load16_def FOLD_U32T_def doubleton_eq_iff)

end
