(* ===== verification/Ip4_Addr.thy ===== *)
theory Ip4_Addr
  imports Lwip_Def
begin

text \<open>
  IPv4 addresses, \<open>lwip/core/ipv4/ip4_addr.c\<close>: broadcast addresses, netmasks, and the conversion from and to dotted
  notation. An address is its number in network order, as the code stores it. A string is the list of the
  bytes of its object; reading behind its end is \<^const>\<open>None\<close>.
\<close>

section \<open>Tests on addresses\<close>

abbreviation (input) IPADDR_ANY :: u32 where "IPADDR_ANY \<equiv> 0"
abbreviation (input) IPADDR_BROADCAST :: u32 where "IPADDR_BROADCAST \<equiv> 0xffffffff"
abbreviation (input) IPADDR_NONE :: u32 where "IPADDR_NONE \<equiv> 0xffffffff"
abbreviation (input) NETIF_FLAG_BROADCAST :: byte where "NETIF_FLAG_BROADCAST \<equiv> 0x02"

text \<open>What the code reads of a network interface.\<close>

record netif4 =
  nif_flags :: byte
  nif_ip_addr :: u32
  nif_netmask :: u32

definition ip4_addr_net_eq :: "u32 \<Rightarrow> u32 \<Rightarrow> u32 \<Rightarrow> bool" where
  "ip4_addr_net_eq addr1 addr2 m \<longleftrightarrow> (addr1 AND m) = (addr2 AND m)"

definition ip4_addr_isbroadcast_u32 :: "u32 \<Rightarrow> netif4 \<Rightarrow> bool" where
  "ip4_addr_isbroadcast_u32 addr netif =
     (if NOT addr = IPADDR_ANY \<or> addr = IPADDR_ANY then True
      else if nif_flags netif AND NETIF_FLAG_BROADCAST = 0 then False
      else if addr = nif_ip_addr netif then False
      else if ip4_addr_net_eq addr (nif_ip_addr netif) (nif_netmask netif) \<and>
              addr AND NOT (nif_netmask netif) = IPADDR_BROADCAST AND NOT (nif_netmask netif) then True
      else False)"

definition ip4_addr_ismulticast :: "u32 \<Rightarrow> bool" where
  "ip4_addr_ismulticast addr \<longleftrightarrow> addr AND PP_HTONL 0xf0000000 = PP_HTONL 0xe0000000"

definition ip4_addr_islinklocal :: "u32 \<Rightarrow> bool" where
  "ip4_addr_islinklocal addr \<longleftrightarrow> addr AND PP_HTONL 0xffff0000 = PP_HTONL 0xa9fe0000"

definition ip4_addr_isloopback :: "u32 \<Rightarrow> bool" where
  "ip4_addr_isloopback addr \<longleftrightarrow> addr AND PP_HTONL 0xff000000 = PP_HTONL (push_bit 24 127)"

text \<open>The loops of the test of a netmask run over the bits from the highest one; \<open>n\<close> is the number of bits left.\<close>

fun first_zero :: "u32 \<Rightarrow> nat \<Rightarrow> nat" where
  "first_zero nm 0 = 0"
| "first_zero nm (Suc k) = (if nm AND push_bit k 1 = 0 then Suc k else first_zero nm k)"

fun no_one_below :: "u32 \<Rightarrow> nat \<Rightarrow> bool" where
  "no_one_below nm 0 = True"
| "no_one_below nm (Suc k) = (if nm AND push_bit k 1 \<noteq> 0 then False else no_one_below nm k)"

definition ip4_addr_netmask_valid :: "u32 \<Rightarrow> bool" where
  "ip4_addr_netmask_valid netmask =
     (let nm_hostorder = lwip_htonl netmask in no_one_below nm_hostorder (first_zero nm_hostorder 32))"

section \<open>From text\<close>

text \<open>The number at the start of \<open>s\<close>: the digits are added to \<open>val\<close> as long as they belong to the base.\<close>

fun aton_digits :: "u32 \<Rightarrow> byte list \<Rightarrow> u32 \<Rightarrow> (u32 \<times> byte list) option" where
  "aton_digits base [] val = None"
| "aton_digits base (c # s) val =
     (if lwip_isdigit c
      then if base = 8 \<and> ucast (c - 0x30) \<ge> (8 :: u32) then Some (val, c # s)
           else aton_digits base s (val * base + ucast (c - 0x30))
      else if base = 16 \<and> lwip_isxdigit c
      then aton_digits base s (push_bit 4 val OR ucast (c + 10 - (if lwip_islower c then 0x61 else 0x41)))
      else Some (val, c # s))"

definition aton_number :: "byte list \<Rightarrow> (u32 \<times> byte list) option" where
  "aton_number s =
     (case s of
        c # s' \<Rightarrow>
          if c = 0x30
          then (case s' of
                  [] \<Rightarrow> None
                | d # s'' \<Rightarrow> if d = 0x78 \<or> d = 0x58 then aton_digits 16 s'' 0 else aton_digits 8 s' 0)
          else aton_digits 10 s 0
      | [] \<Rightarrow> None)"

text \<open>The outer loop: the parts before the last number, or \<open>Some None\<close> where the function returns 0.\<close>

function aton_parts :: "byte list \<Rightarrow> u32 list \<Rightarrow> (u32 list \<times> u32 \<times> byte list) option option" where
  "aton_parts s parts =
     (case s of
        [] \<Rightarrow> None
      | c # _ \<Rightarrow>
          if \<not> lwip_isdigit c then Some None
          else (case aton_number s of
                  None \<Rightarrow> None
                | Some (val, r) \<Rightarrow>
                    (case r of
                       [] \<Rightarrow> None
                     | d # r' \<Rightarrow>
                         if d = 0x2e
                         then if length parts \<ge> 3 then Some None else aton_parts r' (parts @ [val])
                         else Some (Some (parts, val, r)))))"
  by auto
termination by (relation "measure (\<lambda>(s, parts). 4 - length parts)") auto

declare aton_parts.simps [simp del]

definition aton_join :: "u32 list \<Rightarrow> u32 \<Rightarrow> u32 option" where
  "aton_join parts val =
     (case parts of
        [] \<Rightarrow> Some val
      | [p0] \<Rightarrow> if val > 0xffffff then None else if p0 > 0xff then None else Some (val OR push_bit 24 p0)
      | [p0, p1] \<Rightarrow> if val > 0xffff then None else if p0 > 0xff \<or> p1 > 0xff then None
                  else Some (val OR (push_bit 24 p0 OR push_bit 16 p1))
      | [p0, p1, p2] \<Rightarrow> if val > 0xff then None else if p0 > 0xff \<or> p1 > 0xff \<or> p2 > 0xff then None
                      else Some (val OR (push_bit 24 p0 OR push_bit 16 p1 OR push_bit 8 p2))
      | _ \<Rightarrow> None)"

text \<open>The result is the address, or \<open>Some None\<close> if the text is not one.\<close>

definition ip4addr_aton :: "byte list \<Rightarrow> u32 option option" where
  "ip4addr_aton cp =
     do { r \<leftarrow> aton_parts cp [];
          case r of
            None \<Rightarrow> Some None
          | Some (parts, val, rest) \<Rightarrow>
              (case rest of
                 [] \<Rightarrow> None
               | c # _ \<Rightarrow> if c \<noteq> 0 \<and> \<not> lwip_isspace c then Some None
                         else Some (map_option lwip_htonl (aton_join parts val))) }"

definition ipaddr_addr :: "byte list \<Rightarrow> u32 option" where
  "ipaddr_addr cp = do { r \<leftarrow> ip4addr_aton cp; Some (case r of Some val \<Rightarrow> val | None \<Rightarrow> IPADDR_NONE) }"

section \<open>To text\<close>

text \<open>The digits of one byte, the last one first.\<close>

function ntoa_digits :: "byte \<Rightarrow> byte list" where
  "ntoa_digits ap = (let rem = ap mod 10; ap = ap div 10 in (0x30 + rem) # (if ap \<noteq> 0 then ntoa_digits ap else []))"
  by auto
termination by (relation "measure unat") (auto simp: unat_div word_gt_0 unat_gt_0 intro!: div_less_dividend)

text \<open>\<open>ntoa_put\<close> appends characters to the buffer and fails when it is full; the result \<open>Some None\<close> is the null pointer.\<close>

fun ntoa_put :: "byte list \<Rightarrow> nat \<Rightarrow> int \<Rightarrow> byte list \<Rightarrow> (nat \<times> byte list) option option" where
  "ntoa_put [] len buflen buf = Some (Some (len, buf))"
| "ntoa_put (c # cs) len buflen buf =
     (if int len \<ge> buflen then Some None
      else do { buf \<leftarrow> poke len [c] buf; ntoa_put cs (len + 1) buflen buf })"

fun ntoa_loop :: "byte list \<Rightarrow> nat \<Rightarrow> int \<Rightarrow> byte list \<Rightarrow> (nat \<times> byte list) option option" where
  "ntoa_loop [] len buflen buf = Some (Some (len, buf))"
| "ntoa_loop (ap # aps) len buflen buf =
     do { r \<leftarrow> ntoa_put (rev (ntoa_digits ap)) len buflen buf;
          case r of
            None \<Rightarrow> Some None
          | Some (len, buf) \<Rightarrow>
              do { r \<leftarrow> ntoa_put [0x2e] len buflen buf;
                   case r of None \<Rightarrow> Some None | Some (len, buf) \<Rightarrow> ntoa_loop aps len buflen buf } }"

definition ip4addr_ntoa_r :: "u32 \<Rightarrow> byte list \<Rightarrow> int \<Rightarrow> byte list option option" where
  "ip4addr_ntoa_r addr buf buflen =
     do { r \<leftarrow> ntoa_loop (le_bytes 4 (unat addr)) 0 buflen buf;
          case r of
            None \<Rightarrow> Some None
          | Some (len, buf) \<Rightarrow> do { buf \<leftarrow> poke (len - 1) [0] buf; Some (Some buf) } }"

abbreviation (input) IP4ADDR_STRLEN_MAX :: nat where "IP4ADDR_STRLEN_MAX \<equiv> 16"

definition ip4addr_ntoa :: "u32 \<Rightarrow> byte list \<Rightarrow> byte list option option" where
  "ip4addr_ntoa addr str = ip4addr_ntoa_r addr str (int IP4ADDR_STRLEN_MAX)"

section \<open>Lemmas on netmasks\<close>

lemma test_bit: "nm AND push_bit k 1 = 0 \<longleftrightarrow> \<not> bit (nm :: u32) k" if "k < 32"
proof
  assume "nm AND push_bit k 1 = 0"
  then have "\<not> bit (nm AND push_bit k 1) k" by simp
  with that show "\<not> bit nm k" by (simp add: bit_simps)
qed (rule and_unset_bit)

lemmas test_bit' = test_bit [unfolded push_bit_of_1]

lemma first_zero_spec:
  "n \<le> 32 \<Longrightarrow> first_zero nm n \<le> n \<and> (\<forall>i. first_zero nm n \<le> i \<and> i < n \<longrightarrow> bit nm i) \<and>
    (first_zero nm n \<noteq> 0 \<longrightarrow> \<not> bit nm (first_zero nm n - 1))"
  by (induction n) (auto simp: test_bit' less_Suc_eq)

lemma no_one_below_spec: "n \<le> 32 \<Longrightarrow> no_one_below nm n \<longleftrightarrow> (\<forall>i<n. \<not> bit nm i)"
  by (induction n) (auto simp: test_bit' less_Suc_eq)

text \<open>A netmask is accepted exactly if it consists of some number of ones followed by zeros.\<close>

lemma netmask_bits: "(\<exists>k\<le>32. nm = push_bit k (mask (32 - k)) ) \<longleftrightarrow> (\<exists>k\<le>32. \<forall>i<32. bit (nm :: u32) i \<longleftrightarrow> k \<le> i)"
proof -
  have "bit (push_bit k (mask (32 - k)) :: u32) i \<longleftrightarrow> k \<le> i" if "k \<le> 32" "i < 32" for k i
    using that by (auto simp: bit_simps)
  then have "nm = push_bit k (mask (32 - k)) \<longleftrightarrow> (\<forall>i<32. bit nm i \<longleftrightarrow> k \<le> i)" if "k \<le> 32" for k
    using that by (auto simp: bit_eq_iff)
  then show ?thesis by blast
qed

lemma netmask_valid_spec: "ip4_addr_netmask_valid netmask \<longleftrightarrow> (\<exists>k\<le>32. lwip_htonl netmask = push_bit k (mask (32 - k)))"
proof -
  define nm where "nm = lwip_htonl netmask"
  note f = first_zero_spec [of 32 nm]
  have "no_one_below nm (first_zero nm 32) \<longleftrightarrow> (\<exists>k\<le>32. \<forall>i<32. bit nm i \<longleftrightarrow> k \<le> i)"
  proof
    assume "no_one_below nm (first_zero nm 32)"
    with f no_one_below_spec [of "first_zero nm 32" nm] have "\<forall>i<32. bit nm i \<longleftrightarrow> first_zero nm 32 \<le> i"
      by (metis linorder_not_less order_refl)
    with f show "\<exists>k\<le>32. \<forall>i<32. bit nm i \<longleftrightarrow> k \<le> i" by auto
  next
    assume "\<exists>k\<le>32. \<forall>i<32. bit nm i \<longleftrightarrow> k \<le> i"
    then obtain k where k: "k \<le> 32" "\<forall>i<32. bit nm i \<longleftrightarrow> k \<le> i" by blast
    have "first_zero nm 32 \<le> k"
    proof (rule ccontr)
      assume *: "\<not> first_zero nm 32 \<le> k"
      then have "\<not> bit nm (first_zero nm 32 - 1)" using f by auto
      moreover have "bit nm (first_zero nm 32 - 1)" using k f * by auto
      ultimately show False by simp
    qed
    then show "no_one_below nm (first_zero nm 32)" using k f by (subst no_one_below_spec) auto
  qed
  then show ?thesis unfolding ip4_addr_netmask_valid_def Let_def nm_def netmask_bits .
qed

section \<open>Lemmas on texts\<close>

lemma dig_digit: "lwip_isdigit (dig n)" "dig n - 0x30 = of_nat (n mod 10)" "dig n = 0x30 \<longleftrightarrow> n mod 10 = 0"
proof -
  show "lwip_isdigit (dig n)" unfolding lwip_isdigit_def lwip_in_range_def word_le_nat_alt unat_dig
    using mod_less_divisor [of 10 n] by simp
  show "dig n - 0x30 = of_nat (n mod 10)" by (simp add: dig_def)
  show "dig n = 0x30 \<longleftrightarrow> n mod 10 = 0" by (simp add: word_unat_eq_iff unat_dig)
qed

lemma dec_digits_hd: "0 < n \<Longrightarrow> \<exists>d ds. dec_digits n = d # ds \<and> lwip_isdigit d \<and> d \<noteq> 0x30"
proof (induction n rule: dec_digits.induct)
  case (1 n)
  show ?case
  proof (cases "n div 10 = 0")
    case True
    then have "n < 10" by simp
    with 1 True show ?thesis by (simp add: dec_digits_pos dig_digit)
  next
    case False
    then obtain d ds where "dec_digits (n div 10) = d # ds" "lwip_isdigit d" "d \<noteq> 0x30" using 1 by auto
    with 1 show ?thesis by (simp add: dec_digits_pos)
  qed
qed

lemma aton_digits_dec:
  "aton_digits 10 (dec_digits n @ s) v = aton_digits 10 s (v * 10 ^ length (dec_digits n) + of_nat n)"
proof (induction n arbitrary: s v rule: dec_digits.induct)
  case (1 n)
  show ?case
  proof (cases "n = 0")
    case False
    define m l where "m = n div 10" and "l = length (dec_digits m)"
    have u: "(ucast (of_nat (n mod 10) :: byte) :: u32) = of_nat (n mod 10)"
      by (simp add: word_unat_eq_iff unsigned_ucast_eq unat_of_nat take_bit_eq_mod)
    have "(of_nat n :: u32) = of_nat (10 * m + n mod 10)" by (simp add: m_def)
    then have n: "(of_nat n :: u32) = 10 * of_nat m + of_nat (n mod 10)" by (simp del: of_nat_mod)
    have "aton_digits 10 (dec_digits n @ s) v = aton_digits 10 (dig n # s) (v * 10 ^ l + of_nat m)"
      using 1 False by (simp add: dec_digits_pos m_def l_def)
    also have "\<dots> = aton_digits 10 s ((v * 10 ^ l + of_nat m) * 10 + of_nat (n mod 10))"
      by (simp add: dig_digit u)
    also have "(v * 10 ^ l + of_nat m) * 10 + of_nat (n mod 10) = v * 10 ^ Suc l + of_nat n"
      unfolding n by (simp add: algebra_simps)
    finally show ?thesis using False by (simp add: dec_digits_pos m_def l_def)
  qed simp
qed

definition byte_text :: "byte \<Rightarrow> byte list" where
  "byte_text b = dec_text (int (unat b))"

lemma aton_number_text:
  assumes "\<not> lwip_isdigit c" and "c \<noteq> 0x78" and "c \<noteq> 0x58"
  shows "aton_number (byte_text b @ c # s) = Some (ucast b, c # s)"
proof (cases "b = 0")
  case True
  then show ?thesis using assms by (simp add: byte_text_def dec_text_def aton_number_def)
next
  case False
  then have "0 < unat b" by (simp add: unat_gt_0)
  then obtain d ds where d: "dec_digits (unat b) = d # ds" "d \<noteq> 0x30" using dec_digits_hd by blast
  with False have t: "byte_text b = d # ds" by (simp add: byte_text_def dec_text_def uint_0_iff)
  have "aton_digits 10 (byte_text b @ c # s) 0 = Some (ucast b, c # s)"
    using aton_digits_dec [of "unat b" "c # s" 0] assms(1) by (simp add: t d(1))
  then show ?thesis by (simp add: aton_number_def t d(2))
qed

lemma byte_text_hd: "\<exists>d ds. byte_text b = d # ds \<and> lwip_isdigit d"
proof (cases "b = 0")
  case True
  then show ?thesis by (simp add: byte_text_def dec_text_def lwip_isdigit_def lwip_in_range_def)
next
  case False
  then have "0 < unat b" by (simp add: unat_gt_0)
  from dec_digits_hd [OF this] False show ?thesis by (auto simp: byte_text_def dec_text_def uint_0_iff)
qed

declare ntoa_digits.simps [simp del]

lemma rev_ntoa_digits: "rev (ntoa_digits b) = byte_text b"
proof -
  have "rev (ntoa_digits b) = dec_digits (unat b)" if "b \<noteq> 0" for b
    using that
  proof (induction b rule: ntoa_digits.induct)
    case (1 b)
    have d: "0x30 + b mod 10 = dig (unat b)"
      by (rule word_unat_eq_iff [THEN iffD2])
        (use mod_less_divisor [of 10 "unat b"] in \<open>simp add: unat_dig unat_word_ariths(1) unat_mod\<close>)
    have u: "unat (b div 10) = unat b div 10" by (simp add: unat_div)
    have "0 < unat b" using 1(2) by (simp add: unat_gt_0)
    then have dd: "dec_digits (unat b) = dec_digits (unat b div 10) @ [dig (unat b)]" by (rule dec_digits_pos)
    show ?case
    proof (cases "b div 10 = 0")
      case True
      then have "unat b div 10 = 0" using u by simp
      then have "dec_digits (unat b div 10) = []" by (simp only: dec_digits_0)
      with True d dd show ?thesis by (subst ntoa_digits.simps) simp
    next
      case False
      with 1 d dd u show ?thesis by (subst ntoa_digits.simps) (simp add: Let_def)
    qed
  qed
  moreover have "ntoa_digits 0 = [0x30]" by (subst ntoa_digits.simps) simp
  ultimately show ?thesis by (cases "b = 0") (simp_all add: byte_text_def dec_text_def uint_0_iff)
qed

lemma ntoa_put_spec:
  assumes "int (length buf) \<ge> buflen"
  shows "ntoa_put cs len buflen buf =
    (if cs = [] \<or> int (len + length cs) \<le> buflen then Some (Some (len + length cs, take len buf @ cs @ drop (len + length cs) buf)) else Some None)"
  using assms
proof (induction cs arbitrary: len buf)
  case (Cons c cs)
  show ?case
  proof (cases "int len \<ge> buflen")
    case False
    then have l: "len < length buf" using Cons.prems by linarith
    define b where "b = take len buf @ c # drop (Suc len) buf"
    have b: "poke len [c] buf = Some b" "length b = length buf" using l by (simp_all add: poke_def b_def)
    have "take (Suc len) b = take len buf @ [c]" "drop (Suc len) b = drop (Suc len) buf"
        "drop (Suc (len + length cs)) b = drop (Suc (len + length cs)) buf"
      using l by (simp_all add: b_def) (simp add: add.commute)
    with Cons.IH [of b "Suc len"] Cons.prems b False show ?thesis by auto
  qed simp
qed simp

lemma ntoa_put_append:
  "ntoa_put (a @ b) len n buf =
     do { r \<leftarrow> ntoa_put a len n buf; case r of None \<Rightarrow> Some None | Some (len, buf) \<Rightarrow> ntoa_put b len n buf }"
  by (induction a arbitrary: len buf) (auto split: Option.bind_splits)

lemma ntoa_loop_put: "ntoa_loop bs len n buf = ntoa_put (concat (map (\<lambda>b. byte_text b @ [0x2e]) bs)) len n buf"
proof (induction bs arbitrary: len n buf)
  case (Cons b bs)
  have IH: "ntoa_loop bs = ntoa_put (concat (map (\<lambda>b. byte_text b @ [0x2e]) bs))" using Cons by (intro ext)
  show ?case unfolding list.map concat.simps append_assoc ntoa_put_append [of "byte_text b"] ntoa_put_append [of "[0x2e]"]
      ntoa_loop.simps rev_ntoa_digits IH ..
qed simp

text \<open>The text of an address.\<close>

definition addr_text :: "u32 \<Rightarrow> byte list" where
  "addr_text addr = butlast (concat (map (\<lambda>b. byte_text b @ [0x2e]) (le_bytes 4 (unat addr))))"

lemma addr_text_snoc: "concat (map (\<lambda>b. byte_text b @ [0x2e]) (le_bytes 4 (unat addr))) = addr_text addr @ [0x2e]"
  unfolding addr_text_def le_bytes_u32 by (simp add: butlast_append)

lemma ip4addr_ntoa_r_spec:
  assumes "buflen \<le> int (length buf)"
  shows "ip4addr_ntoa_r addr buf buflen =
    Some (if int (length (addr_text addr)) < buflen then Some (addr_text addr @ 0 # drop (length (addr_text addr) + 1) buf) else None)"
proof -
  let ?t = "addr_text addr"
  have "ntoa_loop (le_bytes 4 (unat addr)) 0 buflen buf =
      (if int (length ?t) < buflen then Some (Some (Suc (length ?t), ?t @ 0x2e # drop (Suc (length ?t)) buf)) else Some None)"
    unfolding ntoa_loop_put addr_text_snoc ntoa_put_spec [OF assms] by auto
  then show ?thesis by (simp add: ip4addr_ntoa_r_def poke_def)
qed

lemma aton_parts_text:
  assumes "\<not> lwip_isdigit c" and "c \<noteq> 0x78" and "c \<noteq> 0x58"
  shows "aton_parts (byte_text b @ c # s) ps =
    (if c = 0x2e then if length ps \<ge> 3 then Some None else aton_parts s (ps @ [ucast b]) else Some (Some (ps, ucast b, c # s)))"
proof -
  obtain d ds where d: "byte_text b = d # ds" "lwip_isdigit d" using byte_text_hd by blast
  show ?thesis using aton_number_text [OF assms, of b s] d by (subst aton_parts.simps) simp
qed

lemma dot_not_digit: "\<not> lwip_isdigit 0x2e" "\<not> lwip_isdigit 0"
  by (simp_all add: lwip_isdigit_def lwip_in_range_def)

lemma aton_join_bytes:
  "aton_join [ucast b0, ucast b1, ucast b2] (ucast (b3 :: byte)) = Some (ucast b3 OR (push_bit 24 (ucast b0) OR push_bit 16 (ucast b1) OR push_bit 8 (ucast (b2 :: byte))))"
  for b0 b1 :: byte
proof -
  have "\<not> (ucast b :: u32) > 0xff" for b :: byte
  proof -
    have "unat b < 256" using unsigned_less [of b] by simp
    moreover from this have "unat (ucast b :: u32) = unat b" by (simp add: unsigned_ucast_eq take_bit_eq_mod)
    ultimately show ?thesis by (simp add: word_less_nat_alt)
  qed
  then show ?thesis by (simp add: aton_join_def)
qed

lemma htonl_bytes: "lwip_htonl (ucast (ucast (drop_bit 24 a) :: byte) OR (push_bit 24 (ucast (ucast a :: byte)) OR
    push_bit 16 (ucast (ucast (drop_bit 8 a) :: byte)) OR push_bit 8 (ucast (ucast (drop_bit 16 a) :: byte)))) = (a :: u32)"
proof -
  have "ucast (ucast (drop_bit 24 a) :: byte) OR (push_bit 24 (ucast (ucast a :: byte)) OR
    push_bit 16 (ucast (ucast (drop_bit 8 a) :: byte)) OR push_bit 8 (ucast (ucast (drop_bit 16 a) :: byte))) = lwip_htonl a"
    unfolding lwip_htonl_def PP_HTONL_fields by (rule bit_eqI) (auto simp: bit_simps)
  then show ?thesis by (simp only: lwip_htonl_involution)
qed

lemma aton_addr_text: "ip4addr_aton (addr_text addr @ 0 # s) = Some (Some addr)"
proof -
  define b0 b1 b2 b3 where "b0 = (ucast addr :: byte)" and "b1 = (ucast (drop_bit 8 addr) :: byte)"
    and "b2 = (ucast (drop_bit 16 addr) :: byte)" and "b3 = (ucast (drop_bit 24 addr) :: byte)"
  have "addr_text addr = byte_text b0 @ 0x2e # byte_text b1 @ 0x2e # byte_text b2 @ 0x2e # byte_text b3"
    unfolding addr_text_def le_bytes_u32 b0_def b1_def b2_def b3_def by (simp add: butlast_append)
  then have "aton_parts (addr_text addr @ 0 # s) [] = Some (Some ([ucast b0, ucast b1, ucast b2], ucast b3, 0 # s))"
    by (simp add: aton_parts_text dot_not_digit)
  then show ?thesis
    by (simp add: ip4addr_aton_def aton_join_bytes) (simp only: b0_def b1_def b2_def b3_def htonl_bytes)
qed

lemma addr_text_length: "length (addr_text addr) \<le> 15"
proof -
  have "length (byte_text b) \<le> 3" for b
  proof -
    have b: "unat b < 256" using unsigned_less [of b] by simp
    have "length (dec_digits n) \<le> 3" if "n < 256" for n
    proof -
      have "n div 10 div 10 div 10 = 0" using that by linarith
      moreover have "length (dec_digits m) \<le> Suc (length (dec_digits (m div 10)))" for m
        by (cases "m = 0") (simp_all add: dec_digits_pos)
      ultimately show ?thesis by (metis Suc_le_mono dec_digits_0 list.size(3) numeral_3_eq_3 order_trans)
    qed
    with b show ?thesis by (auto simp: byte_text_def dec_text_def)
  qed
  then have "length (concat (map (\<lambda>b. byte_text b @ [0x2e]) bs)) \<le> 4 * length bs" for bs
  proof (induction bs)
    case (Cons b bs)
    from Cons.IH [OF Cons.prems] Cons.prems [of b] show ?case by simp
  qed simp
  from this [of "le_bytes 4 (unat addr)"] show ?thesis unfolding addr_text_snoc by simp
qed

section \<open>Properties\<close>

text \<open>C19: The text of an address is written, with its terminator, exactly if the buffer has room for it, which every buffer
  of 16 bytes has; nothing behind it is changed; and reading it back with ip4addr_aton yields the address.\<close>

theorem ip4addr_roundtrip:
  assumes "buflen \<le> int (length buf)"
  shows "length (addr_text addr) < IP4ADDR_STRLEN_MAX \<and>
    (if int (length (addr_text addr)) < buflen
     then \<exists>t. ip4addr_ntoa_r addr buf buflen = Some (Some t) \<and> length t = length buf \<and>
       drop (length (addr_text addr) + 1) t = drop (length (addr_text addr) + 1) buf \<and> ip4addr_aton t = Some (Some addr)
     else ip4addr_ntoa_r addr buf buflen = Some None)"
proof -
  have "addr_text addr @ 0 # drop (length (addr_text addr) + 1) buf = t \<Longrightarrow> int (length (addr_text addr)) < buflen \<Longrightarrow> length t = length buf" for t
    using assms by auto
  then show ?thesis using addr_text_length [of addr] ip4addr_ntoa_r_spec [OF assms, of addr] by (auto simp: aton_addr_text)
qed

theorem ip4addr_roundtrip_witness:
  "length (addr_text 0x0100007f) < IP4ADDR_STRLEN_MAX \<and>
    (if int (length (addr_text 0x0100007f)) < 16
     then \<exists>t. ip4addr_ntoa_r 0x0100007f (replicate 16 0xaa) 16 = Some (Some t) \<and> length t = length (replicate 16 (0xaa :: byte)) \<and>
       drop (length (addr_text 0x0100007f) + 1) t = drop (length (addr_text 0x0100007f) + 1) (replicate 16 0xaa) \<and> ip4addr_aton t = Some (Some 0x0100007f)
     else ip4addr_ntoa_r 0x0100007f (replicate 16 0xaa) 16 = Some None)"
  by (rule ip4addr_roundtrip) simp

text \<open>C20: A netmask is accepted exactly if, in host order, it is a number of ones followed by zeros only.\<close>

theorem ip4_netmask_prefix:
  "ip4_addr_netmask_valid netmask \<longleftrightarrow> (\<exists>k\<le>32. lwip_htonl netmask = push_bit k (mask (32 - k)))"
  by (rule netmask_valid_spec)

text \<open>A number of more than 32 bits is not refused: \<open>4294967297\<close> is read as the address 0.0.0.1.\<close>

lemma aton_wraps: "ip4addr_aton [0x34, 0x32, 0x39, 0x34, 0x39, 0x36, 0x37, 0x32, 0x39, 0x37, 0] = Some (Some (lwip_htonl 1))"
  by (simp add: ip4addr_aton_def aton_parts.simps aton_number_def lwip_isdigit_def lwip_in_range_def aton_join_def)
    (rule arg_cong [where f = lwip_htonl], simp)

end
