(* ===== verification/Lwip_Memp.thy ===== *)
theory Lwip_Memp
  imports Lwip_Def
begin

text \<open>
  The memory pools of lwIP, \<open>lwip/core/memp.c\<close>: pools of equally sized elements whose free ones are linked through
  their first word. An address is a number; \<open>pl_next\<close> is the memory that holds the first words. The owner of an
  element may overwrite it, which \<open>pool_write\<close> says. The pools are built with statistics and without overflow checks,
  as \<open>include/lwipopts.h\<close> selects; the protection against other threads is left out.
\<close>

section \<open>Pools\<close>

record memp_desc =
  md_size :: nat
  md_num :: nat
  md_base :: addr

record memp_pool =
  pl_tab :: ptr
  pl_next :: "addr \<Rightarrow> ptr"
  pl_avail :: u16
  pl_used :: u16
  pl_max :: u16
  pl_err :: u16

definition LWIP_MEM_ALIGN :: "addr \<Rightarrow> addr" where
  "LWIP_MEM_ALIGN a = (a + 3) div 4 * 4"

fun memp_init_loop :: "memp_desc \<Rightarrow> nat \<Rightarrow> addr \<Rightarrow> memp_pool \<Rightarrow> memp_pool" where
  "memp_init_loop d 0 memp p = p"
| "memp_init_loop d (Suc i) memp p =
     memp_init_loop d i (memp + md_size d) (p\<lparr>pl_next := (pl_next p)(memp := pl_tab p), pl_tab := Some memp\<rparr>)"

definition memp_init_pool :: "memp_desc \<Rightarrow> memp_pool \<Rightarrow> memp_pool" where
  "memp_init_pool d p =
     (let p = memp_init_loop d (md_num d) (LWIP_MEM_ALIGN (md_base d)) (p\<lparr>pl_tab := None\<rparr>)
      in p\<lparr>pl_avail := of_nat (md_num d)\<rparr>)"

text \<open>A failed assertion is \<^const>\<open>None\<close>; \<open>Some (None, p)\<close> is the null pointer.\<close>

definition do_memp_malloc_pool :: "memp_pool \<Rightarrow> (ptr \<times> memp_pool) option" where
  "do_memp_malloc_pool p =
     (case pl_tab p of
        Some memp \<Rightarrow>
          if memp mod 4 \<noteq> 0 then None
          else let used = pl_used p + 1 in
            Some (Some memp, p\<lparr>pl_tab := pl_next p memp, pl_used := used,
              pl_max := (if used > pl_max p then used else pl_max p)\<rparr>)
      | None \<Rightarrow> Some (None, p\<lparr>pl_err := pl_err p + 1\<rparr>))"

definition do_memp_free_pool :: "addr \<Rightarrow> memp_pool \<Rightarrow> memp_pool option" where
  "do_memp_free_pool m p =
     (if m mod 4 \<noteq> 0 then None
      else Some (p\<lparr>pl_used := pl_used p - 1, pl_next := (pl_next p)(m := pl_tab p), pl_tab := Some m\<rparr>))"

definition memp_malloc_pool :: "memp_pool \<Rightarrow> (ptr \<times> memp_pool) option" where
  "memp_malloc_pool p = do_memp_malloc_pool p"

definition memp_free_pool :: "ptr \<Rightarrow> memp_pool \<Rightarrow> memp_pool option" where
  "memp_free_pool mem p = (case mem of None \<Rightarrow> Some p | Some m \<Rightarrow> do_memp_free_pool m p)"

text \<open>The pools of the stack, by their index.\<close>

definition memp_init :: "memp_desc list \<Rightarrow> memp_pool list \<Rightarrow> memp_pool list" where
  "memp_init ds ps = map (\<lambda>(d, p). memp_init_pool d p) (zip ds ps)"

definition memp_malloc :: "nat \<Rightarrow> memp_pool list \<Rightarrow> (ptr \<times> memp_pool list) option" where
  "memp_malloc type ps =
     (if \<not> type < length ps then Some (None, ps)
      else do { (m, p) \<leftarrow> do_memp_malloc_pool (ps ! type); Some (m, ps[type := p]) })"

definition memp_free :: "nat \<Rightarrow> ptr \<Rightarrow> memp_pool list \<Rightarrow> memp_pool list option" where
  "memp_free type mem ps =
     (if \<not> type < length ps then Some ps
      else case mem of
             None \<Rightarrow> Some ps
           | Some m \<Rightarrow> do { p \<leftarrow> do_memp_free_pool m (ps ! type); Some (ps[type := p]) })"

definition pool_write :: "addr \<Rightarrow> ptr \<Rightarrow> memp_pool \<Rightarrow> memp_pool" where
  "pool_write a v p = p\<lparr>pl_next := (pl_next p)(a := v)\<rparr>"

section \<open>The interface of a pool\<close>

text \<open>What the owners of elements do: they take one, give one back that they own, or write to it.\<close>

datatype pool_op = Take | Give addr | Write addr ptr

fun pool_run :: "('s \<Rightarrow> (ptr \<times> 's) option) \<Rightarrow> (addr \<Rightarrow> 's \<Rightarrow> 's option) \<Rightarrow> (addr \<Rightarrow> ptr \<Rightarrow> 's \<Rightarrow> 's) \<Rightarrow>
    pool_op list \<Rightarrow> addr list \<Rightarrow> 's \<Rightarrow> (addr list \<times> 's) option" where
  "pool_run tk gv wr [] own s = Some (own, s)"
| "pool_run tk gv wr (Take # ops) own s =
     do { (r, s) \<leftarrow> tk s; pool_run tk gv wr ops (case r of None \<Rightarrow> own | Some a \<Rightarrow> a # own) s }"
| "pool_run tk gv wr (Give a # ops) own s =
     (if a \<in> set own then do { s \<leftarrow> gv a s; pool_run tk gv wr ops (remove1 a own) s } else pool_run tk gv wr ops own s)"
| "pool_run tk gv wr (Write a v # ops) own s =
     (if a \<in> set own then pool_run tk gv wr ops own (wr a v s) else pool_run tk gv wr ops own s)"

locale object_pool =
  fixes tk :: "'s \<Rightarrow> (ptr \<times> 's) option"
    and gv :: "addr \<Rightarrow> 's \<Rightarrow> 's option"
    and wr :: "addr \<Rightarrow> ptr \<Rightarrow> 's \<Rightarrow> 's"
    and invar :: "addr set \<Rightarrow> addr set \<Rightarrow> 's \<Rightarrow> bool" \<comment> \<open>the elements and those in use\<close>
  assumes take_some: "invar E L s \<Longrightarrow> L \<noteq> E \<Longrightarrow> \<exists>a s'. tk s = Some (Some a, s') \<and> a \<in> E \<and> a \<notin> L \<and> invar E (insert a L) s'"
    and take_none: "invar E L s \<Longrightarrow> L = E \<Longrightarrow> \<exists>s'. tk s = Some (None, s') \<and> invar E L s'"
    and give: "invar E L s \<Longrightarrow> a \<in> L \<Longrightarrow> \<exists>s'. gv a s = Some s' \<and> invar E (L - {a}) s'"
    and write_own: "invar E L s \<Longrightarrow> a \<in> L \<Longrightarrow> invar E L (wr a v s)"
    and in_use: "invar E L s \<Longrightarrow> L \<subseteq> E \<and> finite E"
begin

text \<open>No call fails, and the elements that were handed out and not given back are distinct elements of the pool.\<close>

lemma run_exclusive:
  assumes "invar E (set own) s" and "distinct own"
  shows "\<exists>own' s'. pool_run tk gv wr ops own s = Some (own', s') \<and> distinct own' \<and> invar E (set own') s'"
  using assms
proof (induction ops arbitrary: own s)
  case (Cons x ops)
  show ?case
  proof (cases x)
    case Take
    show ?thesis
    proof (cases "set own = E")
      case True
      then show ?thesis using take_none [OF Cons.prems(1)] Cons.IH [OF _ Cons.prems(2)] Take by fastforce
    next
      case False
      then obtain a s' where t: "tk s = Some (Some a, s')" "a \<notin> set own" "invar E (insert a (set own)) s'"
        using take_some [OF Cons.prems(1)] by blast
      then have "invar E (set (a # own)) s'" "distinct (a # own)" using Cons.prems(2) by simp_all
      from Cons.IH [OF this] show ?thesis using t Take by simp
    qed
  next
    case (Give a)
    show ?thesis
    proof (cases "a \<in> set own")
      case True
      then obtain s' where g: "gv a s = Some s'" "invar E (set own - {a}) s'" using give [OF Cons.prems(1)] by blast
      then have "invar E (set (remove1 a own)) s'" "distinct (remove1 a own)" using Cons.prems(2) by simp_all
      from Cons.IH [OF this] show ?thesis using g True Give by simp
    next
      case False
      then show ?thesis using Cons Give by simp
    qed
  next
    case (Write a v)
    then show ?thesis using Cons write_own [OF Cons.prems(1), of a v] by simp
  qed
qed simp

text \<open>An element is handed out exactly as long as fewer than all of them are in use.\<close>

lemma take_iff:
  assumes "invar E L s"
  shows "(\<exists>a s'. tk s = Some (Some a, s')) \<longleftrightarrow> card L < card E"
proof -
  have "L \<noteq> E \<longleftrightarrow> card L < card E" using in_use [OF assms] by (metis card_subset_eq less_irrefl psubset_card_mono psubsetI)
  then show ?thesis using take_some [OF assms] take_none [OF assms] by fastforce
qed

end

section \<open>The pools provide the interface\<close>

fun linked :: "(addr \<Rightarrow> ptr) \<Rightarrow> ptr \<Rightarrow> addr list \<Rightarrow> bool" where
  "linked nx p [] \<longleftrightarrow> p = None"
| "linked nx p (a # as) \<longleftrightarrow> p = Some a \<and> linked nx (nx a) as"

lemma linked_upd: "a \<notin> set as \<Longrightarrow> linked (nx(a := v)) p as = linked nx p as"
  by (induction as arbitrary: p) auto

definition pool_elems :: "memp_desc \<Rightarrow> addr set" where
  "pool_elems d = (\<lambda>i. LWIP_MEM_ALIGN (md_base d) + i * md_size d) ` {..<md_num d}"

text \<open>The free elements form a list, and the counter holds the number of the others.\<close>

definition pool_inv :: "addr set \<Rightarrow> addr set \<Rightarrow> memp_pool \<Rightarrow> bool" where
  "pool_inv E L p \<longleftrightarrow> finite E \<and> L \<subseteq> E \<and> (\<forall>a\<in>E. a mod 4 = 0) \<and>
     (\<exists>fl. linked (pl_next p) (pl_tab p) fl \<and> distinct fl \<and> set fl = E - L) \<and> pl_used p = of_nat (card L)"

interpretation memp: object_pool memp_malloc_pool "\<lambda>a. memp_free_pool (Some a)" pool_write pool_inv
proof
  fix E L s
  assume i: "pool_inv E L s"
  then obtain fl where fl: "linked (pl_next s) (pl_tab s) fl" "distinct fl" "set fl = E - L" by (auto simp: pool_inv_def)
  show "L \<subseteq> E \<and> finite E" using i by (simp add: pool_inv_def)
  show "\<exists>a s'. memp_malloc_pool s = Some (Some a, s') \<and> a \<in> E \<and> a \<notin> L \<and> pool_inv E (insert a L) s'" if "L \<noteq> E"
  proof -
    have "fl \<noteq> []" using that fl(3) i by (auto simp: pool_inv_def)
    then obtain a as where as: "fl = a # as" by (cases fl) auto
    with fl have a: "a \<in> E" "a \<notin> L" "pl_tab s = Some a" "linked (pl_next s) (pl_next s a) as" "set as = E - insert a L" by auto
    moreover have "finite L" using i by (auto simp: pool_inv_def intro: finite_subset)
    ultimately show ?thesis using i fl(2) as
      by (auto simp: memp_malloc_pool_def do_memp_malloc_pool_def pool_inv_def Let_def intro!: exI [of _ as])
  qed
  show "\<exists>s'. memp_malloc_pool s = Some (None, s') \<and> pool_inv E L s'" if "L = E"
  proof -
    have "fl = []" using that fl(3) by simp
    with fl i show ?thesis by (auto simp: memp_malloc_pool_def do_memp_malloc_pool_def pool_inv_def)
  qed
  fix a
  assume a: "a \<in> L"
  show "\<exists>s'. memp_free_pool (Some a) s = Some s' \<and> pool_inv E (L - {a}) s'"
  proof -
    have m: "a mod 4 = 0" "a \<notin> set fl" "finite L" using i a fl(3) by (auto simp: pool_inv_def intro: finite_subset)
    have "card L = Suc (card (L - {a}))" by (rule card_Suc_Diff1 [OF m(3) a, symmetric])
    then have "(of_nat (card L) :: u16) - 1 = of_nat (card (L - {a}))" by simp
    then show ?thesis using i a fl m
      by (auto simp: memp_free_pool_def do_memp_free_pool_def pool_inv_def linked_upd intro!: exI [of _ "a # fl"])
  qed
  show "pool_inv E L (pool_write a v s)" for v
    using i a fl by (auto simp: pool_inv_def pool_write_def linked_upd intro!: exI [of _ fl])
qed

lemma LWIP_MEM_ALIGN_mod: "LWIP_MEM_ALIGN a mod 4 = 0"
  by (simp add: LWIP_MEM_ALIGN_def)

lemma memp_init_loop_linked:
  assumes "linked (pl_next p) (pl_tab p) fl" and "0 < md_size d" and "\<forall>x\<in>set fl. x < memp"
  shows "linked (pl_next (memp_init_loop d n memp p)) (pl_tab (memp_init_loop d n memp p)) (rev (map (\<lambda>i. memp + i * md_size d) [0..<n]) @ fl) \<and>
    pl_used (memp_init_loop d n memp p) = pl_used p"
  using assms
proof (induction n arbitrary: memp p fl)
  case (Suc n)
  define p' where "p' = p\<lparr>pl_next := (pl_next p)(memp := pl_tab p), pl_tab := Some memp\<rparr>"
  have "memp \<notin> set fl" using Suc.prems(3) by auto
  then have "linked (pl_next p') (pl_tab p') (memp # fl)" using Suc.prems(1) by (simp add: linked_upd p'_def)
  moreover have "\<forall>x\<in>set (memp # fl). x < memp + md_size d" using Suc.prems by auto
  moreover have "rev (map (\<lambda>i. memp + i * md_size d) [0..<Suc n]) = rev (map (\<lambda>i. memp + md_size d + i * md_size d) [0..<n]) @ [memp]"
    unfolding map_upt_Suc by (simp add: add.assoc)
  moreover have "memp_init_loop d (Suc n) memp p = memp_init_loop d n (memp + md_size d) p'" "pl_used p' = pl_used p" by (simp_all add: p'_def)
  ultimately show ?case using Suc.IH [of p' "memp # fl" "memp + md_size d"] Suc.prems(2) by (simp del: upt_Suc memp_init_loop.simps linked.simps)
qed simp

lemma memp_init_pool_inv:
  assumes "0 < md_size d" and "md_size d mod 4 = 0" and "pl_used p = 0"
  shows "pool_inv (pool_elems d) {} (memp_init_pool d p)"
proof -
  let ?b = "LWIP_MEM_ALIGN (md_base d)"
  define fl where "fl = rev (map (\<lambda>i. ?b + i * md_size d) [0..<md_num d])"
  have "linked (pl_next (memp_init_pool d p)) (pl_tab (memp_init_pool d p)) fl \<and> pl_used (memp_init_pool d p) = 0"
    using memp_init_loop_linked [of "p\<lparr>pl_tab := None\<rparr>" "[]" d ?b "md_num d"] assms by (simp add: memp_init_pool_def fl_def Let_def)
  moreover have "distinct fl" using assms(1) by (simp add: fl_def distinct_map inj_on_def)
  moreover have "set fl = pool_elems d" by (auto simp: fl_def pool_elems_def)
  moreover have "\<forall>a\<in>pool_elems d. a mod 4 = 0"
    using assms(2) LWIP_MEM_ALIGN_mod [of "md_base d"] by (auto simp: pool_elems_def intro!: dvd_add dvd_mult simp flip: dvd_eq_mod_eq_0)
  ultimately show ?thesis by (auto simp: pool_inv_def pool_elems_def)
qed

lemma card_pool_elems: "0 < md_size d \<Longrightarrow> card (pool_elems d) = md_num d"
  unfolding pool_elems_def by (subst card_image) (auto simp: inj_on_def)

text \<open>The elements lie inside of the memory that the declaration of the pool reserves, and do not overlap.\<close>

lemma pool_elems_inside:
  assumes "a \<in> pool_elems d"
  shows "md_base d \<le> a \<and> a + md_size d \<le> md_base d + (md_num d * md_size d + 3)"
proof -
  obtain i where i: "i < md_num d" "a = LWIP_MEM_ALIGN (md_base d) + i * md_size d" using assms by (auto simp: pool_elems_def)
  then have "Suc i * md_size d \<le> md_num d * md_size d" by (intro mult_right_mono) auto
  moreover have "md_base d \<le> LWIP_MEM_ALIGN (md_base d)" "LWIP_MEM_ALIGN (md_base d) \<le> md_base d + 3"
    unfolding LWIP_MEM_ALIGN_def by linarith+
  ultimately show ?thesis using i(2) by simp
qed

lemma pool_elems_disjoint:
  assumes "a \<in> pool_elems d" and "b \<in> pool_elems d" and "a \<noteq> b"
  shows "a + md_size d \<le> b \<or> b + md_size d \<le> a"
proof -
  obtain i j where ij: "a = LWIP_MEM_ALIGN (md_base d) + i * md_size d" "b = LWIP_MEM_ALIGN (md_base d) + j * md_size d"
    using assms by (auto simp: pool_elems_def)
  with assms(3) have "i < j \<or> j < i" by auto
  then have "Suc i * md_size d \<le> j * md_size d \<or> Suc j * md_size d \<le> i * md_size d" by (metis Suc_leI mult_le_mono1)
  with ij show ?thesis by auto
qed

section \<open>Property\<close>

text \<open>C10: From the initialisation of a pool on, for every sequence in which its users take elements, give back elements
  they own and write to them: no call fails an assertion; the elements in use are distinct, lie in the memory of the pool and do
  not overlap; and the next request is served exactly if not all elements of the pool are in use.\<close>

theorem memp_exclusive:
  assumes "0 < md_size d" and "md_size d mod 4 = 0" and "pl_used p = 0"
  shows "\<exists>own s. pool_run memp_malloc_pool (\<lambda>a. memp_free_pool (Some a)) pool_write ops [] (memp_init_pool d p) = Some (own, s) \<and>
    distinct own \<and> (\<forall>a\<in>set own. md_base d \<le> a \<and> a + md_size d \<le> md_base d + (md_num d * md_size d + 3)) \<and>
    (\<forall>a\<in>set own. \<forall>b\<in>set own. a \<noteq> b \<longrightarrow> a + md_size d \<le> b \<or> b + md_size d \<le> a) \<and>
    ((\<exists>a s'. memp_malloc_pool s = Some (Some a, s')) \<longleftrightarrow> length own < md_num d) \<and> pl_used s = of_nat (length own)"
proof -
  have "pool_inv (pool_elems d) (set []) (memp_init_pool d p)" using memp_init_pool_inv [OF assms] by simp
  from memp.run_exclusive [OF this distinct.simps(1) [THEN iffD2, OF TrueI], of ops] obtain own s
    where r: "pool_run memp_malloc_pool (\<lambda>a. memp_free_pool (Some a)) pool_write ops [] (memp_init_pool d p) = Some (own, s)"
      "distinct own" "pool_inv (pool_elems d) (set own) s" by blast
  moreover have "set own \<subseteq> pool_elems d" using memp.in_use [OF r(3)] by simp
  moreover have "card (set own) = length own" by (rule distinct_card [OF r(2)])
  ultimately show ?thesis using memp.take_iff [OF r(3)] assms(1) pool_elems_inside pool_elems_disjoint
    by (intro exI [of _ own] exI [of _ s]) (auto simp: card_pool_elems pool_inv_def subset_iff)
qed

theorem memp_exclusive_witness:
  "\<exists>own s. pool_run memp_malloc_pool (\<lambda>a. memp_free_pool (Some a)) pool_write [Take, Write 44 None, Take, Give 44, Take] []
       (memp_init_pool \<lparr>md_size = 12, md_num = 2, md_base = 30\<rparr> \<lparr>pl_tab = None, pl_next = (\<lambda>_. None), pl_avail = 0, pl_used = 0, pl_max = 0, pl_err = 0\<rparr>) = Some (own, s) \<and>
    distinct own \<and> (\<forall>a\<in>set own. 30 \<le> a \<and> a + 12 \<le> 30 + (2 * 12 + 3)) \<and>
    (\<forall>a\<in>set own. \<forall>b\<in>set own. a \<noteq> b \<longrightarrow> a + 12 \<le> b \<or> b + 12 \<le> a) \<and>
    ((\<exists>a s'. memp_malloc_pool s = Some (Some a, s')) \<longleftrightarrow> length own < 2) \<and> pl_used s = of_nat (length own)"
  using memp_exclusive [of "\<lparr>md_size = 12, md_num = 2, md_base = 30\<rparr>"
      "\<lparr>pl_tab = None, pl_next = (\<lambda>_. None), pl_avail = 0, pl_used = 0, pl_max = 0, pl_err = 0\<rparr>"
      "[Take, Write 44 None, Take, Give 44, Take]"] by simp

text \<open>An element that is given back twice is handed out to two owners.\<close>

lemma memp_double_free:
  assumes "a mod 4 = 0"
  shows "\<exists>s1 s2 s3 s4. memp_free_pool (Some a) p = Some s1 \<and> memp_free_pool (Some a) s1 = Some s2 \<and>
    memp_malloc_pool s2 = Some (Some a, s3) \<and> memp_malloc_pool s3 = Some (Some a, s4)"
  using assms by (simp add: memp_free_pool_def do_memp_free_pool_def memp_malloc_pool_def do_memp_malloc_pool_def Let_def)

end
