(* ===== verification/Lwip_Timeouts.thy ===== *)
theory Lwip_Timeouts
  imports Lwip_Def "HOL-Library.Sublist"
begin

text \<open>
  The timeouts of lwIP, \<open>lwip/core/timeouts.c\<close>: one list of timeouts in the order of their times, which are 32-bit
  milliseconds that wrap around; the cyclic timers of the protocols and the timer of TCP on top of it.

  The list of pointers is a HOL list. The memory pool of the timeouts serves a request exactly if an element is
  free (see \<open>Lwip_Memp\<close>), so that only the number of free elements is kept. A handler is code of
  the users of the module: what it does to it is a list of calls, and the time it takes. Failed assertions and loops without
  end are \<^const>\<open>None\<close>.
\<close>

section \<open>State\<close>

datatype 'h handler = Tcpip_tcp_timer | Lwip_cyclic_timer | User 'h

record 'h sys_timeo =
  to_time :: u32
  to_h :: "'h handler option"
  to_arg :: nat

text \<open>A call that a handler makes: the clock may have advanced before it.\<close>

datatype 'h call = Tick u32 | Sys_timeout u32 "'h handler option" nat | Sys_untimeout "'h handler option" nat | Tcp_timer_needed

record ('h, 'w) timers =
  next_timeout :: "'h sys_timeo list"
  current_timeout_due_time :: u32
  tcpip_tcp_timer_active :: bool
  timeo_free :: nat
  sys_now :: u32
  fired :: "'h sys_timeo list" \<comment> \<open>the timeouts whose handlers were called\<close>
  world :: 'w

record ('h, 'w) users =
  cyclic_handler :: "nat \<Rightarrow> 'w \<Rightarrow> 'h call list \<times> 'w"
  tcp_tmr :: "'w \<Rightarrow> 'h call list \<times> 'w"
  user_handler :: "'h \<Rightarrow> nat \<Rightarrow> 'w \<Rightarrow> 'h call list \<times> 'w"
  pcbs :: "'w \<Rightarrow> bool" \<comment> \<open>\<open>tcp_active_pcbs || tcp_tw_pcbs\<close>\<close>

text \<open>The intervals of \<open>lwip_cyclic_timers\<close>: TCP, reassembly, ARP, IGMP, neighbour discovery, IPv6 reassembly, MLD.\<close>

definition lwip_cyclic_timers :: "u32 list" where
  "lwip_cyclic_timers = [250, 1000, 1000, 100, 1000, 1000, 100]"

abbreviation (input) LWIP_MAX_TIMEOUT :: u32 where "LWIP_MAX_TIMEOUT \<equiv> 0x7fffffff"

definition TIME_LESS_THAN :: "u32 \<Rightarrow> u32 \<Rightarrow> bool" where
  "TIME_LESS_THAN t compare_to \<longleftrightarrow> t - compare_to > LWIP_MAX_TIMEOUT"

section \<open>Operations\<close>

fun timeo_insert_loop :: "'h sys_timeo \<Rightarrow> 'h sys_timeo list \<Rightarrow> 'h sys_timeo list" where
  "timeo_insert_loop timeout [] = []"
| "timeo_insert_loop timeout [t] = [t, timeout]"
| "timeo_insert_loop timeout (t # u # ts) =
     (if TIME_LESS_THAN (to_time timeout) (to_time u) then t # timeout # u # ts
      else t # timeo_insert_loop timeout (u # ts))"

definition sys_timeout_abs :: "u32 \<Rightarrow> 'h handler option \<Rightarrow> nat \<Rightarrow> ('h, 'w) timers \<Rightarrow> ('h, 'w) timers option" where
  "sys_timeout_abs abs_time h arg s =
     (if timeo_free s = 0 then None
      else let timeout = \<lparr>to_time = abs_time, to_h = h, to_arg = arg\<rparr>;
               s = s\<lparr>timeo_free := timeo_free s - 1\<rparr>
           in case next_timeout s of
                [] \<Rightarrow> Some (s\<lparr>next_timeout := [timeout]\<rparr>)
              | t # ts \<Rightarrow>
                  if TIME_LESS_THAN (to_time timeout) (to_time t) then Some (s\<lparr>next_timeout := timeout # t # ts\<rparr>)
                  else Some (s\<lparr>next_timeout := timeo_insert_loop timeout (t # ts)\<rparr>))"

definition sys_timeout :: "u32 \<Rightarrow> 'h handler option \<Rightarrow> nat \<Rightarrow> ('h, 'w) timers \<Rightarrow> ('h, 'w) timers option" where
  "sys_timeout msecs h arg s =
     (if \<not> msecs \<le> 0xffffffff div 4 then None else sys_timeout_abs (sys_now s + msecs) h arg s)"

fun untimeout_loop :: "'h handler option \<Rightarrow> nat \<Rightarrow> 'h sys_timeo list \<Rightarrow> 'h sys_timeo list option" where
  "untimeout_loop h arg [] = None"
| "untimeout_loop h arg (t # ts) =
     (if to_h t = h \<and> to_arg t = arg then Some ts else map_option ((#) t) (untimeout_loop h arg ts))"

definition sys_untimeout :: "'h handler option \<Rightarrow> nat \<Rightarrow> ('h, 'w) timers \<Rightarrow> ('h, 'w) timers" where
  "sys_untimeout h arg s =
     (case untimeout_loop h arg (next_timeout s) of
        None \<Rightarrow> s
      | Some ts \<Rightarrow> s\<lparr>next_timeout := ts, timeo_free := timeo_free s + 1\<rparr>)"

definition tcp_timer_needed :: "('h, 'w) users \<Rightarrow> ('h, 'w) timers \<Rightarrow> ('h, 'w) timers option" where
  "tcp_timer_needed e s =
     (if \<not> tcpip_tcp_timer_active s \<and> pcbs e (world s)
      then sys_timeout (lwip_cyclic_timers ! 0) (Some Tcpip_tcp_timer) 0 (s\<lparr>tcpip_tcp_timer_active := True\<rparr>)
      else Some s)"

definition do_call :: "('h, 'w) users \<Rightarrow> 'h call \<Rightarrow> ('h, 'w) timers \<Rightarrow> ('h, 'w) timers option" where
  "do_call e c s =
     (case c of
        Tick d \<Rightarrow> Some (s\<lparr>sys_now := sys_now s + d\<rparr>)
      | Sys_timeout msecs h arg \<Rightarrow> sys_timeout msecs h arg s
      | Sys_untimeout h arg \<Rightarrow> Some (sys_untimeout h arg s)
      | Tcp_timer_needed \<Rightarrow> tcp_timer_needed e s)"

fun do_calls :: "('h, 'w) users \<Rightarrow> 'h call list \<Rightarrow> ('h, 'w) timers \<Rightarrow> ('h, 'w) timers option" where
  "do_calls e [] s = Some s"
| "do_calls e (c # cs) s = do { s \<leftarrow> do_call e c s; do_calls e cs s }"

definition run_user :: "('h, 'w) users \<Rightarrow> ('w \<Rightarrow> 'h call list \<times> 'w) \<Rightarrow> ('h, 'w) timers \<Rightarrow> ('h, 'w) timers option" where
  "run_user e f s = (let (cs, w) = f (world s) in do_calls e cs (s\<lparr>world := w\<rparr>))"

definition tcpip_tcp_timer :: "('h, 'w) users \<Rightarrow> ('h, 'w) timers \<Rightarrow> ('h, 'w) timers option" where
  "tcpip_tcp_timer e s =
     do { s \<leftarrow> run_user e (tcp_tmr e) s;
          if pcbs e (world s) then sys_timeout (lwip_cyclic_timers ! 0) (Some Tcpip_tcp_timer) 0 s
          else Some (s\<lparr>tcpip_tcp_timer_active := False\<rparr>) }"

definition lwip_cyclic_timer :: "('h, 'w) users \<Rightarrow> nat \<Rightarrow> ('h, 'w) timers \<Rightarrow> ('h, 'w) timers option" where
  "lwip_cyclic_timer e i s =
     (if \<not> i < length lwip_cyclic_timers then None
      else do {
        s \<leftarrow> run_user e (cyclic_handler e i) s;
        let now = sys_now s;
        let next_timeout_time = current_timeout_due_time s + lwip_cyclic_timers ! i;
        if TIME_LESS_THAN next_timeout_time now
        then sys_timeout_abs (now + lwip_cyclic_timers ! i) (Some Lwip_cyclic_timer) i s
        else sys_timeout_abs next_timeout_time (Some Lwip_cyclic_timer) i s })"

definition run_handler :: "('h, 'w) users \<Rightarrow> 'h handler option \<Rightarrow> nat \<Rightarrow> ('h, 'w) timers \<Rightarrow> ('h, 'w) timers option" where
  "run_handler e h arg s =
     (case h of
        None \<Rightarrow> Some s
      | Some Tcpip_tcp_timer \<Rightarrow> tcpip_tcp_timer e s
      | Some Lwip_cyclic_timer \<Rightarrow> lwip_cyclic_timer e arg s
      | Some (User u) \<Rightarrow> run_user e (user_handler e u arg) s)"

fun timeouts_init_loop :: "nat list \<Rightarrow> ('h, 'w) timers \<Rightarrow> ('h, 'w) timers option" where
  "timeouts_init_loop [] s = Some s"
| "timeouts_init_loop (i # is) s =
     do { s \<leftarrow> sys_timeout (lwip_cyclic_timers ! i) (Some Lwip_cyclic_timer) i s; timeouts_init_loop is s }"

definition sys_timeouts_init :: "('h, 'w) timers \<Rightarrow> ('h, 'w) timers option" where
  "sys_timeouts_init s = timeouts_init_loop [1..<length lwip_cyclic_timers] s"

partial_function (option) check_loop :: "('h, 'w) users \<Rightarrow> u32 \<Rightarrow> ('h, 'w) timers \<Rightarrow> ('h, 'w) timers option" where
  "check_loop e now s =
     (case next_timeout s of
        [] \<Rightarrow> Some s
      | t # ts \<Rightarrow>
          if TIME_LESS_THAN now (to_time t) then Some s
          else do {
            s \<leftarrow> run_handler e (to_h t) (to_arg t)
                  (s\<lparr>next_timeout := ts, current_timeout_due_time := to_time t, timeo_free := timeo_free s + 1, fired := fired s @ [t]\<rparr>);
            check_loop e now s })"

definition sys_check_timeouts :: "('h, 'w) users \<Rightarrow> ('h, 'w) timers \<Rightarrow> ('h, 'w) timers option" where
  "sys_check_timeouts e s = check_loop e (sys_now s) s"

definition sys_restart_timeouts :: "('h, 'w) timers \<Rightarrow> ('h, 'w) timers" where
  "sys_restart_timeouts s =
     (case next_timeout s of
        [] \<Rightarrow> s
      | t0 # _ \<Rightarrow> let now = sys_now s; base = to_time t0
                 in s\<lparr>next_timeout := map (\<lambda>t. t\<lparr>to_time := (to_time t - base) + now\<rparr>) (next_timeout s)\<rparr>)"

definition sys_timeouts_sleeptime :: "('h, 'w) timers \<Rightarrow> u32 option" where
  "sys_timeouts_sleeptime s =
     (case next_timeout s of
        [] \<Rightarrow> Some 0xFFFFFFFF
      | t # _ \<Rightarrow>
          let now = sys_now s
          in if TIME_LESS_THAN (to_time t) now then Some 0
             else let ret = to_time t - now in if \<not> ret \<le> LWIP_MAX_TIMEOUT then None else Some ret)"

section \<open>Times in a window\<close>

text \<open>Times are measured from \<open>2 ^ 30\<close> milliseconds before \<open>now\<close>. As long as they lie within \<open>2 ^ 31\<close> milliseconds from
  there, the comparison that is used orders them as numbers, also across the wrap-around.\<close>

definition off :: "u32 \<Rightarrow> u32 \<Rightarrow> nat" where
  "off now t = unat (t - (now - 0x40000000))"

abbreviation toff :: "u32 \<Rightarrow> 'h sys_timeo \<Rightarrow> nat" where
  "toff now t \<equiv> off now (to_time t)"

lemma off_now: "off now now = 2 ^ 30"
  by (simp add: off_def)

lemma unat_diff_cases: "unat (x - y) = (if unat y \<le> unat x then unat x - unat y else unat x + 4294967296 - unat y)" for x y :: u32
  using unat_sub_if' [of x y] by (simp add: word_size)

lemma time_less:
  assumes "off now a < 2 ^ 31" and "off now b < 2 ^ 31"
  shows "TIME_LESS_THAN a b \<longleftrightarrow> off now a < off now b"
proof -
  have "a - b = (a - (now - 0x40000000)) - (b - (now - 0x40000000))" by simp
  then have "unat (a - b) = (if off now b \<le> off now a then off now a - off now b else off now a + 4294967296 - off now b)"
    unfolding off_def using unat_diff_cases by metis
  then show ?thesis using assms by (auto simp: TIME_LESS_THAN_def word_less_nat_alt)
qed

lemma off_add:
  assumes "off now t + unat d < 2 ^ 31"
  shows "off now (t + d) = off now t + unat d"
proof -
  have "t + d - (now - 0x40000000) = (t - (now - 0x40000000)) + d" by simp
  then have "off now (t + d) = unat ((t - (now - 0x40000000)) + d)" by (simp only: off_def)
  also have "\<dots> = off now t + unat d" using assms by (subst unat_word_ariths(1)) (simp add: off_def)
  finally show ?thesis .
qed

definition window :: "u32 \<Rightarrow> 'h sys_timeo list \<Rightarrow> bool" where
  "window now q \<longleftrightarrow> (\<forall>t\<in>set q. toff now t < 2 ^ 31) \<and> sorted (map (toff now) q)"

definition due :: "u32 \<Rightarrow> 'h sys_timeo \<Rightarrow> bool" where
  "due now t \<longleftrightarrow> toff now t \<le> 2 ^ 30"

lemma due_less: "toff now t < 2 ^ 31 \<Longrightarrow> due now t \<longleftrightarrow> \<not> TIME_LESS_THAN now (to_time t)"
  by (subst time_less [of now]) (auto simp: due_def off_now)

section \<open>Insertion\<close>

definition timeo_insert :: "'h sys_timeo \<Rightarrow> 'h sys_timeo list \<Rightarrow> 'h sys_timeo list" where
  "timeo_insert x q = takeWhile (\<lambda>t. \<not> TIME_LESS_THAN (to_time x) (to_time t)) q @ x #
     dropWhile (\<lambda>t. \<not> TIME_LESS_THAN (to_time x) (to_time t)) q"

lemma timeo_insert_loop_eq:
  "\<not> TIME_LESS_THAN (to_time x) (to_time t) \<Longrightarrow> timeo_insert_loop x (t # ts) = timeo_insert x (t # ts)"
  by (induction ts arbitrary: t) (auto simp: timeo_insert_def)

lemma sys_timeout_abs_eq:
  "sys_timeout_abs abs_time h arg s =
     (if timeo_free s = 0 then None
      else Some (s\<lparr>timeo_free := timeo_free s - 1, next_timeout := timeo_insert \<lparr>to_time = abs_time, to_h = h, to_arg = arg\<rparr> (next_timeout s)\<rparr>))"
  by (cases "next_timeout s") (auto simp: sys_timeout_abs_def Let_def timeo_insert_loop_eq timeo_insert_def)

lemma set_timeo_insert [simp]: "set (timeo_insert x q) = insert x (set q)"
proof -
  have "set q = set (takeWhile P q) \<union> set (dropWhile P q)" for P
    by (metis set_append takeWhile_dropWhile_id)
  then show ?thesis unfolding timeo_insert_def by auto
qed

lemma subseq_timeo_insert: "subseq q (timeo_insert x q)"
proof -
  have "subseq (takeWhile P q @ dropWhile P q) (takeWhile P q @ x # dropWhile P q)" for P
    by (intro list_emb_append_mono) auto
  then show ?thesis unfolding timeo_insert_def by (simp only: takeWhile_dropWhile_id)
qed

lemma window_insert:
  assumes "window now q" and "toff now x < 2 ^ 31"
  shows "window now (timeo_insert x q)"
proof -
  let ?P = "\<lambda>t. \<not> TIME_LESS_THAN (to_time x) (to_time t)"
  have P: "?P t \<longleftrightarrow> toff now t \<le> toff now x" if "t \<in> set q" for t
    using assms that by (subst time_less [of now]) (auto simp: window_def)
  have s: "sorted (map (toff now) (takeWhile ?P q) @ map (toff now) (dropWhile ?P q))"
    using assms(1) by (simp add: window_def flip: map_append)
  have "toff now t \<le> toff now x" if "t \<in> set (takeWhile ?P q)" for t
    using that P by (meson set_takeWhileD)
  moreover have "toff now x \<le> toff now t" if t: "t \<in> set (dropWhile ?P q)" for t
  proof -
    obtain y ys where y: "dropWhile ?P q = y # ys" using t by (cases "dropWhile ?P q") auto
    then have "\<not> ?P y" "y \<in> set q" by (metis dropWhile_eq_Cons_conv, metis list.set_intros(1) set_dropWhileD)
    then have "toff now x < toff now y" using P by simp
    moreover have "sorted (map (toff now) (y # ys))" using s unfolding y by (simp add: sorted_append)
    then have "toff now y \<le> toff now t" using t y by auto
    ultimately show ?thesis by simp
  qed
  ultimately have "sorted (map (toff now) (timeo_insert x q))"
    using s unfolding timeo_insert_def by (fastforce simp: sorted_append)
  with assms show ?thesis by (auto simp: window_def)
qed

text \<open>What is left to do for the entries that are due: it is used up by every call of a handler.\<close>

definition work :: "u32 \<Rightarrow> 'h sys_timeo list \<Rightarrow> nat" where
  "work now q = sum_list (map (\<lambda>t. if due now t then 2 ^ 30 - toff now t + 1 else 0) q)"

lemma work_Cons [simp]: "work now (t # q) = (if due now t then 2 ^ 30 - toff now t + 1 else 0) + work now q"
  by (simp add: work_def)

lemma work_insert: "work now (timeo_insert x q) = (if due now x then 2 ^ 30 - toff now x + 1 else 0) + work now q"
proof -
  have a: "work now (a @ b) = work now a + work now b" for a b :: "'a sys_timeo list" by (simp add: work_def)
  have "work now q = work now (takeWhile P q) + work now (dropWhile P q)" for P
    using a by (metis takeWhile_dropWhile_id)
  then show ?thesis unfolding timeo_insert_def a work_Cons by simp
qed

section \<open>Handlers\<close>

fun elapsed :: "'h call list \<Rightarrow> nat" where
  "elapsed [] = 0"
| "elapsed (c # cs) = (case c of Tick d \<Rightarrow> unat d | _ \<Rightarrow> 0) + elapsed cs"

fun requests :: "'h call list \<Rightarrow> nat" where
  "requests [] = 0"
| "requests (c # cs) = (case c of Sys_timeout _ _ _ \<Rightarrow> 1 | _ \<Rightarrow> 0) + requests cs"

definition calm :: "'h call list \<Rightarrow> bool" where
  "calm cs \<longleftrightarrow> list_all (\<lambda>c. case c of Sys_timeout m h _ \<Rightarrow> 1 \<le> unat m \<and> unat m \<le> 2 ^ 29 \<and> h \<noteq> Some Lwip_cyclic_timer | Sys_untimeout _ _ \<Rightarrow> False | _ \<Rightarrow> True) cs"

text \<open>Handlers that keep to the rules: a user handler starts at most one timeout and the others none, of 1 to \<open>2 ^ 29\<close> milliseconds;
  none cancels a timeout or starts a cyclic timer, which are internal to the module; and all together take less than \<open>2 ^ 29\<close> milliseconds, which \<open>W\<close> keeps account of.\<close>

definition steady :: "('h, 'w) users \<Rightarrow> u32 \<Rightarrow> ('w \<Rightarrow> u32 \<Rightarrow> bool) \<Rightarrow> bool" where
  "steady e now W \<longleftrightarrow>
     (\<forall>w c f k. W w c \<and> ((f, k) = (tcp_tmr e, 0) \<or> (\<exists>i. (f, k) = (cyclic_handler e i, 0)) \<or> (\<exists>u a. (f, k) = (user_handler e u a, 1))) \<longrightarrow>
        calm (fst (f w)) \<and> requests (fst (f w)) \<le> k \<and> unat (c - now) + elapsed (fst (f w)) < 2 ^ 29 \<and>
        W (snd (f w)) (c + of_nat (elapsed (fst (f w)))))"

definition armed :: "'h sys_timeo \<Rightarrow> bool" where
  "armed t \<longleftrightarrow> (to_h t = Some Lwip_cyclic_timer \<longrightarrow> to_arg t < length lwip_cyclic_timers)"

text \<open>An element is kept for the timer of TCP.\<close>

definition reserve :: "nat \<Rightarrow> ('h, 'w) timers \<Rightarrow> bool" where
  "reserve k s \<longleftrightarrow> timeo_free s \<ge> k + (if tcpip_tcp_timer_active s then 0 else 1)"

text \<open>What a piece of a handler does to the list: entries are added that are due after \<open>\<tau>\<close>, with at most \<open>D\<close> more work.\<close>

definition arms :: "u32 \<Rightarrow> nat \<Rightarrow> nat \<Rightarrow> ('h, 'w) timers \<Rightarrow> ('h, 'w) timers \<Rightarrow> bool" where
  "arms now \<tau> D s s' \<longleftrightarrow> window now (next_timeout s') \<and> subseq (next_timeout s) (next_timeout s') \<and>
     (\<forall>t\<in>set (next_timeout s') - set (next_timeout s). \<tau> \<le> toff now t \<and> armed t) \<and>
     work now (next_timeout s') \<le> work now (next_timeout s) + D \<and> fired s' = fired s \<and>
     current_timeout_due_time s' = current_timeout_due_time s"

lemma arms_refl: "window now (next_timeout s) \<Longrightarrow> arms now \<tau> D s s"
  by (simp add: arms_def)

lemma arms_trans: "arms now \<tau> D s s' \<Longrightarrow> arms now \<tau> D' s' s'' \<Longrightarrow> arms now \<tau> (D + D') s s''"
  unfolding arms_def by (auto intro: subseq_order.trans)

lemma arms_other: "arms now \<tau> D s s' \<Longrightarrow> next_timeout s'' = next_timeout s' \<Longrightarrow> fired s'' = fired s' \<Longrightarrow>
    current_timeout_due_time s'' = current_timeout_due_time s' \<Longrightarrow> arms now \<tau> D s s''"
  by (simp add: arms_def)

lemma arms_insert:
  assumes "window now (next_timeout s)" and "\<tau> \<le> off now x" and "off now x < 2 ^ 31" and "0 < timeo_free s"
    and "off now x \<le> 2 ^ 30 \<Longrightarrow> 2 ^ 30 - off now x + 1 \<le> D" and "armed \<lparr>to_time = x, to_h = h, to_arg = arg\<rparr>"
  shows "\<exists>s'. sys_timeout_abs x h arg s = Some s' \<and> arms now \<tau> D s s' \<and> timeo_free s' = timeo_free s - 1 \<and>
    sys_now s' = sys_now s \<and> world s' = world s \<and> tcpip_tcp_timer_active s' = tcpip_tcp_timer_active s"
  using assms window_insert [OF assms(1), of "\<lparr>to_time = x, to_h = h, to_arg = arg\<rparr>"]
  by (auto simp: sys_timeout_abs_eq arms_def subseq_timeo_insert work_insert due_def)

definition clock_ok :: "u32 \<Rightarrow> u32 \<Rightarrow> bool" where
  "clock_ok now c \<longleftrightarrow> unat (c - now) < 2 ^ 29"

lemma off_clock: "clock_ok now c \<Longrightarrow> off now c = 2 ^ 30 + unat (c - now)"
  using off_add [of now now "c - now"] by (simp add: clock_ok_def off_now)

lemma sys_timeout_adds:
  assumes "window now (next_timeout s)" and "clock_ok now (sys_now s)" and "\<tau> \<le> 2 ^ 30" and "0 < timeo_free s"
    and "1 \<le> unat m" and "unat m \<le> 2 ^ 29" and "h \<noteq> Some Lwip_cyclic_timer"
  shows "\<exists>s'. sys_timeout m h arg s = Some s' \<and> arms now \<tau> 0 s s' \<and> timeo_free s' = timeo_free s - 1 \<and>
    sys_now s' = sys_now s \<and> world s' = world s \<and> tcpip_tcp_timer_active s' = tcpip_tcp_timer_active s"
proof -
  have "m \<le> 0xffffffff div 4" using assms(6) by (simp add: word_le_nat_alt)
  moreover have o: "off now (sys_now s + m) = 2 ^ 30 + unat (sys_now s - now) + unat m"
    using off_add [of now "sys_now s" m] off_clock [OF assms(2)] assms(2,6) by (simp add: clock_ok_def)
  then have "2 ^ 30 < off now (sys_now s + m)" "off now (sys_now s + m) < 2 ^ 31" using assms(2,5,6) by (simp_all add: clock_ok_def)
  ultimately show ?thesis using arms_insert [OF assms(1) _ _ assms(4), of \<tau> "sys_now s + m" 0 h arg] assms(3,7)
    by (simp add: sys_timeout_def armed_def)
qed

lemma tcp_timer_needed_adds:
  assumes "window now (next_timeout s)" and "clock_ok now (sys_now s)" and "\<tau> \<le> 2 ^ 30" and "reserve k s"
  shows "\<exists>s'. tcp_timer_needed e s = Some s' \<and> arms now \<tau> 0 s s' \<and> reserve k s' \<and> sys_now s' = sys_now s \<and> world s' = world s"
proof (cases "\<not> tcpip_tcp_timer_active s \<and> pcbs e (world s)")
  case True
  let ?s = "s\<lparr>tcpip_tcp_timer_active := True\<rparr>"
  obtain s' where "sys_timeout 250 (Some Tcpip_tcp_timer) 0 ?s = Some s'" "arms now \<tau> 0 ?s s'" "timeo_free s' = timeo_free ?s - 1"
      "sys_now s' = sys_now ?s" "world s' = world ?s" "tcpip_tcp_timer_active s'"
    using sys_timeout_adds [of now ?s \<tau> 250 "Some Tcpip_tcp_timer" 0] assms True by (auto simp: reserve_def)
  with True assms(4) show ?thesis by (auto simp: tcp_timer_needed_def lwip_cyclic_timers_def reserve_def arms_def)
next
  case False
  then show ?thesis using assms arms_refl [OF assms(1)] by (auto simp: tcp_timer_needed_def)
qed

lemma unat_add_of_nat: "unat (x :: u32) + n < 2 ^ 29 \<Longrightarrow> unat (x + of_nat n) = unat x + n"
  by (simp add: unat_word_ariths(1) unat_of_nat)

lemma do_calls_adds:
  assumes "window now (next_timeout s)" and "unat (sys_now s - now) + elapsed cs < 2 ^ 29" and "\<tau> \<le> 2 ^ 30"
    and "reserve (requests cs + k) s" and "calm cs"
  shows "\<exists>s'. do_calls e cs s = Some s' \<and> arms now \<tau> 0 s s' \<and> reserve k s' \<and>
    sys_now s' = sys_now s + of_nat (elapsed cs) \<and> world s' = world s"
  using assms
proof (induction cs arbitrary: s)
  case Nil
  then show ?case by (simp add: arms_refl)
next
  case (Cons c cs)
  have c: "clock_ok now (sys_now s)" and calm: "calm cs" using Cons.prems(2,5) by (simp_all add: clock_ok_def calm_def)
  have "\<exists>s1. do_call e c s = Some s1 \<and> arms now \<tau> 0 s s1 \<and> reserve (requests cs + k) s1 \<and>
      sys_now s1 = sys_now s + of_nat (elapsed [c]) \<and> world s1 = world s"
  proof (cases c)
    case (Tick d)
    then show ?thesis using Cons.prems arms_refl [OF Cons.prems(1), of \<tau> 0] by (auto simp: do_call_def reserve_def arms_def)
  next
    case (Sys_timeout m h a)
    with Cons.prems have m: "1 \<le> unat m" "unat m \<le> 2 ^ 29" "0 < timeo_free s" "h \<noteq> Some Lwip_cyclic_timer" by (auto simp: calm_def reserve_def)
    from sys_timeout_adds [OF Cons.prems(1) c Cons.prems(3) m(3,1,2,4), of a] obtain s1
      where "sys_timeout m h a s = Some s1" "arms now \<tau> 0 s s1" "timeo_free s1 = timeo_free s - 1" "sys_now s1 = sys_now s"
        "world s1 = world s" "tcpip_tcp_timer_active s1 = tcpip_tcp_timer_active s" by blast
    then show ?thesis using Cons.prems(4) Sys_timeout by (intro exI [of _ s1]) (simp add: do_call_def reserve_def)
  next
    case (Sys_untimeout h a)
    then show ?thesis using Cons.prems(5) by (simp add: calm_def)
  next
    case Tcp_timer_needed
    with Cons.prems(4) have "reserve (requests cs + k) s" by simp
    from tcp_timer_needed_adds [OF Cons.prems(1) c Cons.prems(3) this, of e] Tcp_timer_needed show ?thesis by (simp add: do_call_def)
  qed
  then obtain s1 where s1: "do_call e c s = Some s1" "arms now \<tau> 0 s s1" "reserve (requests cs + k) s1"
      "sys_now s1 = sys_now s + of_nat (elapsed [c])" "world s1 = world s" by blast
  have "sys_now s1 - now = (sys_now s - now) + of_nat (elapsed [c])" by (simp only: s1(4) add_diff_eq diff_add_eq)
  moreover have "unat (sys_now s - now) + elapsed [c] < 2 ^ 29" using Cons.prems(2) by simp
  ultimately have "unat (sys_now s1 - now) = unat (sys_now s - now) + elapsed [c]" by (simp only: unat_add_of_nat)
  then have "unat (sys_now s1 - now) + elapsed cs < 2 ^ 29" using Cons.prems(2) by simp
  moreover have "window now (next_timeout s1)" using s1(2) by (simp add: arms_def)
  ultimately obtain s' where s': "do_calls e cs s1 = Some s'" "arms now \<tau> 0 s1 s'" "reserve k s'"
      "sys_now s' = sys_now s1 + of_nat (elapsed cs)" "world s' = world s1"
    using Cons.IH [OF _ _ Cons.prems(3) s1(3) calm] by blast
  moreover have "arms now \<tau> 0 s s'" using arms_trans [OF s1(2) s'(2)] by simp
  moreover have "sys_now s' = sys_now s + of_nat (elapsed (c # cs))" unfolding s'(4) s1(4) by (simp only: elapsed.simps of_nat_add add.assoc add_0_right)
  ultimately show ?case using s1(1,5) by (intro exI [of _ s']) simp
qed

lemma run_user_adds:
  assumes "steady e now W" and "W (world s) (sys_now s)" and "window now (next_timeout s)" and "\<tau> \<le> 2 ^ 30"
    and "(f, k) = (tcp_tmr e, 0) \<or> (\<exists>i. (f, k) = (cyclic_handler e i, 0)) \<or> (\<exists>u a. (f, k) = (user_handler e u a, 1))"
    and "reserve (k + j) s"
  shows "\<exists>s'. run_user e f s = Some s' \<and> arms now \<tau> 0 s s' \<and> reserve j s' \<and> W (world s') (sys_now s') \<and> clock_ok now (sys_now s')"
proof -
  obtain cs w where f: "f (world s) = (cs, w)" by force
  have st: "calm cs" "requests cs \<le> k" "unat (sys_now s - now) + elapsed cs < 2 ^ 29" "W w (sys_now s + of_nat (elapsed cs))"
    using assms(1) [unfolded steady_def, rule_format, of "world s" "sys_now s" f k] assms(2,5) by (simp_all add: f)
  let ?s = "s\<lparr>world := w\<rparr>"
  have "reserve (requests cs + j) ?s" using assms(6) st(2) by (auto simp: reserve_def)
  with do_calls_adds [of now ?s cs \<tau> j e] st assms(3,4) obtain s' where s': "do_calls e cs ?s = Some s'" "arms now \<tau> 0 ?s s'" "reserve j s'"
      "sys_now s' = sys_now s + of_nat (elapsed cs)" "world s' = w" by auto
  have "clock_ok now (sys_now s')"
  proof -
    have "sys_now s' - now = (sys_now s - now) + of_nat (elapsed cs)" by (simp only: s'(4) add_diff_eq diff_add_eq)
    then show ?thesis using st(3) by (simp only: clock_ok_def unat_add_of_nat)
  qed
  moreover have "arms now \<tau> 0 s s'" using s'(2) by (simp add: arms_def)
  ultimately show ?thesis using s' st(4) f by (simp add: run_user_def)
qed

lemma interval_bounds: "i < length lwip_cyclic_timers \<Longrightarrow> 1 \<le> unat (lwip_cyclic_timers ! i) \<and> unat (lwip_cyclic_timers ! i) \<le> 1000"
proof -
  have "list_all (\<lambda>x. 1 \<le> unat x \<and> unat x \<le> 1000) lwip_cyclic_timers" by (simp add: lwip_cyclic_timers_def)
  then show "i < length lwip_cyclic_timers \<Longrightarrow> ?thesis" by (simp add: list_all_length)
qed

lemma tcpip_tcp_timer_adds:
  assumes "steady e now W" and "W (world s) (sys_now s)" and "window now (next_timeout s)" and "\<tau> \<le> 2 ^ 30" and "reserve 1 s"
  shows "\<exists>s'. tcpip_tcp_timer e s = Some s' \<and> arms now \<tau> 0 s s' \<and> reserve 0 s' \<and> W (world s') (sys_now s')"
proof -
  obtain s1 where s1: "run_user e (tcp_tmr e) s = Some s1" "arms now \<tau> 0 s s1" "reserve 1 s1" "W (world s1) (sys_now s1)" "clock_ok now (sys_now s1)"
    using run_user_adds [OF assms(1-4), of "tcp_tmr e" 0 1] assms(5) by auto
  have w: "window now (next_timeout s1)" using s1(2) by (simp add: arms_def)
  show ?thesis
  proof (cases "pcbs e (world s1)")
    case True
    have "0 < timeo_free s1" using s1(3) by (simp add: reserve_def)
    from sys_timeout_adds [OF w s1(5) assms(4) this, of 250 "Some Tcpip_tcp_timer" 0] obtain s2
      where s2: "sys_timeout 250 (Some Tcpip_tcp_timer) 0 s1 = Some s2" "arms now \<tau> 0 s1 s2" "timeo_free s2 = timeo_free s1 - 1"
        "sys_now s2 = sys_now s1" "world s2 = world s1" "tcpip_tcp_timer_active s2 = tcpip_tcp_timer_active s1" by auto
    have "arms now \<tau> 0 s s2" using arms_trans [OF s1(2) s2(2)] by simp
    moreover have "reserve 0 s2" using s1(3) s2(3,6) by (simp add: reserve_def)
    ultimately show ?thesis using True s1(1,4) s2 by (simp add: tcpip_tcp_timer_def lwip_cyclic_timers_def)
  next
    case False
    then show ?thesis using s1 by (auto simp: tcpip_tcp_timer_def reserve_def arms_def)
  qed
qed

lemma lwip_cyclic_timer_adds:
  assumes "steady e now W" and "W (world s) (sys_now s)" and "window now (next_timeout s)" and "reserve 1 s" and "i < length lwip_cyclic_timers"
    and "\<tau> = off now (current_timeout_due_time s)" and "\<tau> \<le> 2 ^ 30"
  shows "\<exists>s'. lwip_cyclic_timer e i s = Some s' \<and> arms now \<tau> (2 ^ 30 - \<tau>) s s' \<and> reserve 0 s' \<and> W (world s') (sys_now s')"
proof -
  obtain s1 where s1: "run_user e (cyclic_handler e i) s = Some s1" "arms now \<tau> 0 s s1" "reserve 1 s1" "W (world s1) (sys_now s1)" "clock_ok now (sys_now s1)"
    using run_user_adds [OF assms(1-3,7), of "cyclic_handler e i" 0 1] assms(4) by auto
  define iv where "iv = lwip_cyclic_timers ! i"
  have iv: "1 \<le> unat iv" "unat iv \<le> 1000" using interval_bounds [OF assms(5)] by (simp_all add: iv_def)
  define nt where "nt = current_timeout_due_time s1 + iv"
  have d: "off now (current_timeout_due_time s1) = \<tau>" using s1(2) assms(6) by (simp add: arms_def)
  then have nt: "off now nt = \<tau> + unat iv" unfolding nt_def using off_add [of now "current_timeout_due_time s1" iv] assms(7) iv(2) by simp
  have cl: "off now (sys_now s1 + iv) = 2 ^ 30 + unat (sys_now s1 - now) + unat iv"
    using off_add [of now "sys_now s1" iv] off_clock [OF s1(5)] s1(5) iv by (simp add: clock_ok_def)
  define x where "x = (if TIME_LESS_THAN nt (sys_now s1) then sys_now s1 + iv else nt)"
  have "off now x = \<tau> + unat iv \<or> off now x = 2 ^ 30 + unat (sys_now s1 - now) + unat iv" using nt cl by (simp add: x_def)
  then have x: "\<tau> \<le> off now x" "off now x < 2 ^ 31" "off now x \<le> 2 ^ 30 \<Longrightarrow> 2 ^ 30 - off now x + 1 \<le> 2 ^ 30 - \<tau>"
    using iv assms(7) s1(5) by (auto simp: clock_ok_def)
  have w: "window now (next_timeout s1)" and "0 < timeo_free s1" using s1(2,3) by (simp_all add: arms_def reserve_def)
  from arms_insert [OF w x(1,2) this(2) x(3), of "Some Lwip_cyclic_timer" i] assms(5) obtain s2
    where s2: "sys_timeout_abs x (Some Lwip_cyclic_timer) i s1 = Some s2" "arms now \<tau> (2 ^ 30 - \<tau>) s1 s2" "timeo_free s2 = timeo_free s1 - 1"
      "sys_now s2 = sys_now s1" "world s2 = world s1" "tcpip_tcp_timer_active s2 = tcpip_tcp_timer_active s1" by (auto simp: armed_def)
  have "lwip_cyclic_timer e i s = Some s2" using s1(1) s2(1) assms(5)
    by (simp add: lwip_cyclic_timer_def x_def nt_def iv_def Let_def split: if_splits)
  moreover have "arms now \<tau> (2 ^ 30 - \<tau>) s s2" using arms_trans [OF s1(2) s2(2)] by simp
  moreover have "reserve 0 s2" using s1(3) s2(3,6) by (simp add: reserve_def)
  ultimately show ?thesis using s1(4) s2(4,5) by simp
qed

lemma run_handler_adds:
  assumes "steady e now W" and "W (world s) (sys_now s)" and "window now (next_timeout s)" and "reserve 1 s"
    and "armed t" and "\<tau> = off now (current_timeout_due_time s)" and "\<tau> \<le> 2 ^ 30"
  shows "\<exists>s'. run_handler e (to_h t) (to_arg t) s = Some s' \<and> arms now \<tau> (2 ^ 30 - \<tau>) s s' \<and> reserve 0 s' \<and> W (world s') (sys_now s')"
proof -
  have weaken: "arms now \<tau> 0 s s' \<Longrightarrow> arms now \<tau> (2 ^ 30 - \<tau>) s s'" for s' by (auto simp: arms_def)
  consider "to_h t = None" | "to_h t = Some Tcpip_tcp_timer" | "to_h t = Some Lwip_cyclic_timer" | u where "to_h t = Some (User u)"
    by (cases "to_h t"; cases "the (to_h t)") auto
  then show ?thesis
  proof cases
    case 1
    then show ?thesis using assms(2,4) arms_refl [OF assms(3)] by (auto simp: run_handler_def reserve_def)
  next
    case 2
    then show ?thesis using tcpip_tcp_timer_adds [OF assms(1-3,7,4)] weaken by (auto simp: run_handler_def)
  next
    case 3
    then show ?thesis using lwip_cyclic_timer_adds [OF assms(1-4) _ assms(6,7)] assms(5) by (auto simp: run_handler_def armed_def)
  next
    case 4
    then show ?thesis using run_user_adds [OF assms(1-3,7), of "user_handler e u (to_arg t)" 1 0] assms(4) weaken by (auto simp: run_handler_def)
  qed
qed

lemma check_loop_fires:
  assumes "steady e now W" and "W (world s) (sys_now s)" and "window now (next_timeout s)" and "reserve 0 s" and "\<forall>t\<in>set (next_timeout s). armed t"
  shows "\<exists>s' fs. check_loop e now s = Some s' \<and> fired s' = fired s @ fs \<and> subseq (filter (due now) (next_timeout s)) fs \<and>
    sorted (map (toff now) fs) \<and> (\<forall>t\<in>set fs. due now t) \<and> (\<forall>x. (\<forall>t\<in>set (next_timeout s). x \<le> toff now t) \<longrightarrow> (\<forall>t\<in>set fs. x \<le> toff now t)) \<and>
    (\<forall>t\<in>set (next_timeout s'). \<not> due now t) \<and> window now (next_timeout s')"
  using assms
proof (induction "work now (next_timeout s)" arbitrary: s rule: less_induct)
  case less
  show ?case
  proof (cases "next_timeout s")
    case Nil
    then show ?thesis using less.prems by (subst check_loop.simps) (auto intro!: exI [of _ "[]"])
  next
    case (Cons t ts)
    then have t: "toff now t < 2 ^ 31" and w: "window now ts" using less.prems(3) by (auto simp: window_def)
    show ?thesis
    proof (cases "due now t")
      case False
      then have "\<forall>t\<in>set (next_timeout s). \<not> due now t" using less.prems(3) Cons by (fastforce simp: window_def due_def)
      moreover from this have "filter (due now) (next_timeout s) = []" by (simp add: filter_empty_conv)
      ultimately show ?thesis using False t Cons less.prems(3) by (subst check_loop.simps) (auto simp: due_less intro!: exI [of _ "[]"])
    next
      case True
      define s0 where "s0 = s\<lparr>next_timeout := ts, current_timeout_due_time := to_time t, timeo_free := timeo_free s + 1, fired := fired s @ [t]\<rparr>"
      have "\<exists>s1. run_handler e (to_h t) (to_arg t) s0 = Some s1 \<and> arms now (toff now t) (2 ^ 30 - toff now t) s0 s1 \<and> reserve 0 s1 \<and> W (world s1) (sys_now s1)"
        by (rule run_handler_adds [OF less.prems(1)])
          (use less.prems Cons w True in \<open>auto simp: s0_def reserve_def due_def\<close>)
      then obtain s1 where s1: "run_handler e (to_h t) (to_arg t) s0 = Some s1" "arms now (toff now t) (2 ^ 30 - toff now t) s0 s1" "reserve 0 s1" "W (world s1) (sys_now s1)"
        by blast
      have step: "check_loop e now s = check_loop e now s1"
        using True t Cons s1(1) by (subst check_loop.simps) (simp add: due_less s0_def)
      have a: "window now (next_timeout s1)" "subseq ts (next_timeout s1)" "fired s1 = fired s @ [t]"
          "\<forall>u\<in>set (next_timeout s1) - set ts. toff now t \<le> toff now u \<and> armed u" "work now (next_timeout s1) \<le> work now ts + (2 ^ 30 - toff now t)"
        using s1(2) by (auto simp: arms_def s0_def)
      have "work now (next_timeout s1) < work now (next_timeout s)" using a(5) Cons True by simp
      moreover have "\<forall>u\<in>set (next_timeout s1). armed u" using a(4) less.prems(5) Cons by auto
      ultimately obtain s' fs where r: "check_loop e now s1 = Some s'" "fired s' = fired s1 @ fs" "subseq (filter (due now) (next_timeout s1)) fs"
          "sorted (map (toff now) fs)" "\<forall>t\<in>set fs. due now t" "\<forall>x. (\<forall>t\<in>set (next_timeout s1). x \<le> toff now t) \<longrightarrow> (\<forall>t\<in>set fs. x \<le> toff now t)"
          "\<forall>t\<in>set (next_timeout s'). \<not> due now t" "window now (next_timeout s')"
        using less.hyps [OF _ less.prems(1) s1(4) a(1) s1(3)] by blast
      have lo: "\<forall>u\<in>set (next_timeout s1). toff now t \<le> toff now u" using a(4) less.prems(3) Cons by (auto simp: window_def)
      have "subseq (filter (due now) ts) fs" using subseq_filter [OF a(2), of "due now"] r(3) by (rule subseq_order.trans)
      then have "subseq (filter (due now) (next_timeout s)) (t # fs)" using Cons True by simp
      moreover have "\<forall>u\<in>set fs. toff now t \<le> toff now u" using r(6) lo by blast
      ultimately show ?thesis using r step a(3) True Cons
        by (intro exI [of _ s'] exI [of _ "t # fs"]) (auto intro: order_trans)
    qed
  qed
qed

section \<open>Other operations\<close>

text \<open>The time to sleep is the time to the first timeout, and the assertion in the function holds.\<close>

lemma sleeptime_first:
  assumes "window (sys_now s) (next_timeout s)" and "next_timeout s = t # ts"
  shows "sys_timeouts_sleeptime s = Some (of_nat (toff (sys_now s) t - 2 ^ 30))"
proof -
  let ?now = "sys_now s"
  have t: "toff ?now t < 2 ^ 31" using assms by (simp add: window_def)
  have l: "TIME_LESS_THAN (to_time t) ?now \<longleftrightarrow> toff ?now t < 2 ^ 30"
    using time_less [of ?now "to_time t" ?now] t by (simp add: off_now)
  show ?thesis
  proof (cases "toff ?now t < 2 ^ 30")
    case True
    then show ?thesis using l assms(2) by (simp add: sys_timeouts_sleeptime_def)
  next
    case False
    have "to_time t - ?now = (to_time t - (?now - 0x40000000)) - 0x40000000" by simp
    then have u: "unat (to_time t - ?now) = toff ?now t - 2 ^ 30"
      using False unat_diff_cases [of "to_time t - (?now - 0x40000000)" "0x40000000"] by (simp add: off_def)
    have "to_time t - ?now = of_nat (unat (to_time t - ?now))" by simp
    then have "to_time t - ?now = of_nat (toff ?now t - 2 ^ 30)" unfolding u .
    moreover have "to_time t - ?now \<le> LWIP_MAX_TIMEOUT" using u t by (simp add: word_le_nat_alt)
    ultimately show ?thesis using False l assms(2) by (simp add: sys_timeouts_sleeptime_def Let_def)
  qed
qed

text \<open>Rebasing keeps the distances between the timeouts and makes the first one due now.\<close>

lemma restart_keeps_distances:
  assumes "window now (next_timeout s)" and "next_timeout s = t0 # ts" and "\<forall>t\<in>set (next_timeout s). toff now t - toff now t0 < 2 ^ 30"
  shows "window (sys_now s) (next_timeout (sys_restart_timeouts s)) \<and>
    map (toff (sys_now s)) (next_timeout (sys_restart_timeouts s)) = map (\<lambda>t. 2 ^ 30 + (toff now t - toff now t0)) (next_timeout s)"
proof -
  have m: "map (toff (sys_now s)) (next_timeout (sys_restart_timeouts s)) = map (\<lambda>t. 2 ^ 30 + (toff now t - toff now t0)) (next_timeout s)"
  proof -
    have "off (sys_now s) ((to_time t - to_time t0) + sys_now s) = 2 ^ 30 + (toff now t - toff now t0)" if "t \<in> set (next_timeout s)" for t
    proof -
      have le: "toff now t0 \<le> toff now t" using that assms(1,2) by (auto simp: window_def)
      have "to_time t - to_time t0 = (to_time t - (now - 0x40000000)) - (to_time t0 - (now - 0x40000000))" by simp
      then have "unat (to_time t - to_time t0) = toff now t - toff now t0"
        using le unat_diff_cases [of "to_time t - (now - 0x40000000)" "to_time t0 - (now - 0x40000000)"] by (simp add: off_def)
      then show ?thesis using off_add [of "sys_now s" "sys_now s" "to_time t - to_time t0"] assms(3) that by (simp add: off_now add.commute)
    qed
    then show ?thesis using assms(2) by (simp add: sys_restart_timeouts_def Let_def off_now)
  qed
  have "sorted (map (\<lambda>t. 2 ^ 30 + (toff now t - toff now t0)) (next_timeout s))"
    using assms(1) unfolding window_def sorted_map by (elim conjE sorted_wrt_mono_rel [rotated]) (simp add: diff_le_mono)
  then have "sorted (map (toff (sys_now s)) (next_timeout (sys_restart_timeouts s)))" unfolding m .
  moreover have "list_all (\<lambda>x. x < 2 ^ 31) (map (toff (sys_now s)) (next_timeout (sys_restart_timeouts s)))"
    using assms(3) unfolding m by (simp add: list_all_iff)
  then have "\<forall>t\<in>set (next_timeout (sys_restart_timeouts s)). toff (sys_now s) t < 2 ^ 31"
    by (simp only: list_all_iff set_map ball_simps)
  ultimately show ?thesis using m unfolding window_def by (intro conjI)
qed

text \<open>Cancelling removes the first timeout with the handler and the argument, if there is one.\<close>

lemma untimeout_loop_none: "untimeout_loop h arg q = None \<longleftrightarrow> (\<forall>t\<in>set q. \<not> (to_h t = h \<and> to_arg t = arg))"
  by (induction q) auto

lemma untimeout_loop_first:
  "\<forall>t\<in>set q. \<not> (to_h t = h \<and> to_arg t = arg) \<Longrightarrow> to_h t = h \<Longrightarrow> to_arg t = arg \<Longrightarrow> untimeout_loop h arg (q @ t # q') = Some (q @ q')"
  by (induction q) auto

text \<open>A timeout of 0 milliseconds that a handler starts for itself is run at once, and again: the check does not return
  while the clock stands still.\<close>

lemma check_zero_timeout:
  assumes "user_handler e u 0 = (\<lambda>w. ([Sys_timeout 0 (Some (User u)) 0], w))"
    and "next_timeout s = [\<lparr>to_time = sys_now s, to_h = Some (User u), to_arg = 0\<rparr>]"
  shows "sys_check_timeouts e s = None"
proof -
  let ?t = "\<lambda>n. \<lparr>to_time = n, to_h = Some (User u), to_arg = 0\<rparr>"
  let ?stuck = "\<lambda>e' n s. e' = e \<and> sys_now s = n \<and> next_timeout s = [?t n]"
  have "\<not> ?stuck e' n s" if "check_loop e' n s = Some r" for e' n s r
  proof (rule check_loop.raw_induct [where P = "\<lambda>e' n s r. \<not> ?stuck e' n s", OF _ that], goal_cases)
    case (1 f e' n s r)
    show ?case
    proof
      assume st: "?stuck e' n s"
      define s0 where "s0 = s\<lparr>next_timeout := [], current_timeout_due_time := n, timeo_free := timeo_free s + 1, fired := fired s @ [?t n]\<rparr>"
      define s1 where "s1 = s0\<lparr>timeo_free := timeo_free s, next_timeout := [?t n]\<rparr>"
      have "run_handler e (Some (User u)) 0 s0 = Some s1"
        using st by (simp add: run_handler_def run_user_def assms(1) do_call_def sys_timeout_def sys_timeout_abs_def Let_def s0_def s1_def)
      with 1(2) st have "f e n s1 = Some r" by (simp add: TIME_LESS_THAN_def s0_def)
      moreover have "?stuck e n s1" using st by (simp add: s1_def s0_def)
      ultimately show False using 1(1) by blast
    qed
  qed
  then show ?thesis using assms(2) unfolding sys_check_timeouts_def by (cases "check_loop e (sys_now s) s") auto
qed

section \<open>Property\<close>

text \<open>C6: With handlers that keep to the rules (they start timeouts of 1 to 2^29 milliseconds, at most one for each call, cancel none,
  and take less than 2^29 milliseconds together) sys_check_timeouts returns, whatever the clock reads and although times
  wrap around: it calls the handlers of all timeouts that are due, in the order of their times, calls no handler before its time,
  and leaves only timeouts that are not due, in order.\<close>

theorem timeouts_fire:
  assumes "steady e (sys_now s) W" and "W (world s) (sys_now s)" and "window (sys_now s) (next_timeout s)" and "reserve 0 s"
    and "\<forall>t\<in>set (next_timeout s). armed t"
  shows "\<exists>s' fs. sys_check_timeouts e s = Some s' \<and> fired s' = fired s @ fs \<and>
    subseq (filter (due (sys_now s)) (next_timeout s)) fs \<and> sorted (map (toff (sys_now s)) fs) \<and> (\<forall>t\<in>set fs. due (sys_now s) t) \<and>
    (\<forall>t\<in>set (next_timeout s'). \<not> due (sys_now s) t) \<and> window (sys_now s) (next_timeout s')"
proof -
  obtain s' fs where "check_loop e (sys_now s) s = Some s'" "fired s' = fired s @ fs" "subseq (filter (due (sys_now s)) (next_timeout s)) fs"
    "sorted (map (toff (sys_now s)) fs)" "\<forall>t\<in>set fs. due (sys_now s) t" "\<forall>t\<in>set (next_timeout s'). \<not> due (sys_now s) t"
    "window (sys_now s) (next_timeout s')"
    using check_loop_fires [OF assms] by (elim exE conjE)
  then show ?thesis unfolding sys_check_timeouts_def by (intro exI conjI)
qed

definition ex_users :: "(nat, nat) users" where
  "ex_users = \<lparr>cyclic_handler = (\<lambda>i w. ([], w)), tcp_tmr = (\<lambda>w. ([], w)),
     user_handler = (\<lambda>u a w. if w < 5 then ([Tick 3, Sys_timeout 20 (Some (User u)) a], w + 1) else ([], w)), pcbs = (\<lambda>w. w = 0)\<rparr>"

definition ex_timers :: "(nat, nat) timers" where
  "ex_timers = \<lparr>next_timeout = [\<lparr>to_time = 0xfffffff0, to_h = Some (User 1), to_arg = 7\<rparr>, \<lparr>to_time = 0xfffffffb, to_h = Some Lwip_cyclic_timer, to_arg = 3\<rparr>,
       \<lparr>to_time = 0x00000010, to_h = None, to_arg = 0\<rparr>],
     current_timeout_due_time = 0, tcpip_tcp_timer_active = True, timeo_free = 14, sys_now = 2, fired = [], world = 0\<rparr>"

theorem timeouts_fire_witness:
  "\<exists>s' fs. sys_check_timeouts ex_users ex_timers = Some s' \<and> fired s' = fired ex_timers @ fs \<and>
    subseq (filter (due 2) (next_timeout ex_timers)) fs \<and> sorted (map (toff 2) fs) \<and> (\<forall>t\<in>set fs. due 2 t) \<and>
    (\<forall>t\<in>set (next_timeout s'). \<not> due 2 t) \<and> window 2 (next_timeout s')"
proof -
  define W where "W = (\<lambda>(w :: nat) (c :: u32). w \<le> 5 \<and> c = 2 + of_nat (3 * w))"
  have "steady ex_users 2 W" unfolding steady_def
  proof (intro allI impI, elim conjE)
    fix w :: nat and c :: u32 and f :: "nat \<Rightarrow> nat call list \<times> nat" and k :: nat
    assume W: "W w c" and f: "(f, k) = (tcp_tmr ex_users, 0) \<or> (\<exists>i. (f, k) = (cyclic_handler ex_users i, 0)) \<or> (\<exists>u a. (f, k) = (user_handler ex_users u a, 1))"
    have c: "unat (c - 2) = 3 * w" "c = 2 + of_nat (3 * w)" "w \<le> 5" using W by (simp_all add: W_def unat_of_nat del: of_nat_mult)
    have "f w = ([], w) \<or> (\<exists>u a. k = 1 \<and> w < 5 \<and> f w = ([Tick 3, Sys_timeout 20 (Some (User u)) a], w + 1))"
      using f by (auto simp: ex_users_def split: if_splits)
    then show "calm (fst (f w)) \<and> requests (fst (f w)) \<le> k \<and> unat (c - 2) + elapsed (fst (f w)) < 2 ^ 29 \<and> W (snd (f w)) (c + of_nat (elapsed (fst (f w))))"
      using W c by (auto simp: calm_def W_def)
  qed
  moreover have "W (world ex_timers) 2" by (simp add: W_def ex_timers_def)
  moreover have "window 2 (next_timeout ex_timers)" by (simp add: ex_timers_def window_def off_def)
  moreover have "reserve 0 ex_timers" by (simp add: ex_timers_def reserve_def)
  moreover have "\<forall>t\<in>set (next_timeout ex_timers). armed t" by (simp add: ex_timers_def armed_def lwip_cyclic_timers_def)
  moreover have "sys_now ex_timers = 2" by (simp add: ex_timers_def)
  ultimately show ?thesis using timeouts_fire [of ex_users ex_timers W] by (simp only: simp_thms)
qed

end
