(* ===== verification/Lwip_Mem.thy ===== *)
theory Lwip_Mem
  imports Lwip_Def
begin

text \<open>
  The heap of lwIP, \<open>lwip/core/mem.c\<close>, as \<open>include/lwipopts.h\<close> configures it: 10240 bytes, an alignment of 4, statistics,
  and neither the checks of \<open>MEM_SANITY_CHECK\<close> and \<open>MEM_OVERFLOW_CHECK\<close> nor frees from other contexts. The mutex is left out.

  The heap is a list of bytes. A \<open>struct mem\<close> lies in it in front of every block, with two 16-bit indices and a byte that
  says if the block is used. A pointer is its distance from \<open>ram\<close>, which is aligned; it is negative below the heap. A failed
  assertion (\<open>LWIP_MEM_ILLEGAL_FREE\<close> is one), an access outside of the heap and an endless loop are \<^const>\<open>None\<close>.
\<close>

section \<open>State\<close>

abbreviation (input) MEM_SIZE_ALIGNED :: nat where "MEM_SIZE_ALIGNED \<equiv> 10240"
abbreviation (input) SIZEOF_STRUCT_MEM :: nat where "SIZEOF_STRUCT_MEM \<equiv> 8"
abbreviation (input) MIN_SIZE_ALIGNED :: nat where "MIN_SIZE_ALIGNED \<equiv> 12"

record mem =
  mem_next :: u16
  mem_prev :: u16
  mem_used :: byte

record lwip_heap =
  ram :: "byte list"
  lfree :: nat
  mem_avail :: u16
  mem_inuse :: u16
  mem_max :: u16
  mem_err :: u16

definition get_mem :: "nat \<Rightarrow> byte list \<Rightarrow> mem option" where
  "get_mem p r = do {
     n \<leftarrow> peek p 2 r;
     q \<leftarrow> peek (p + 2) 2 r;
     u \<leftarrow> peek (p + 4) 1 r;
     Some \<lparr>mem_next = of_nat (le_val n), mem_prev = of_nat (le_val q), mem_used = hd u\<rparr> }"

definition set_next :: "nat \<Rightarrow> u16 \<Rightarrow> byte list \<Rightarrow> byte list option" where
  "set_next p v r = poke p (le_bytes 2 (unat v)) r"

definition set_prev :: "nat \<Rightarrow> u16 \<Rightarrow> byte list \<Rightarrow> byte list option" where
  "set_prev p v r = poke (p + 2) (le_bytes 2 (unat v)) r"

definition set_used :: "nat \<Rightarrow> byte \<Rightarrow> byte list \<Rightarrow> byte list option" where
  "set_used p v r = poke (p + 4) [v] r"

text \<open>\<open>if (p->next != MEM_SIZE_ALIGNED) ptr_to_mem(p->next)->prev = q\<close>\<close>

definition link_back :: "nat \<Rightarrow> nat \<Rightarrow> byte list \<Rightarrow> byte list option" where
  "link_back p q r = do {
     m \<leftarrow> get_mem p r;
     if unat (mem_next m) \<noteq> MEM_SIZE_ALIGNED then set_prev (unat (mem_next m)) (of_nat q) r else Some r }"

section \<open>Operations\<close>

definition plug_forward :: "nat \<Rightarrow> lwip_heap \<Rightarrow> lwip_heap option" where
  "plug_forward mem h = do {
     m \<leftarrow> get_mem mem (ram h);
     let nmem = unat (mem_next m);
     nm \<leftarrow> get_mem nmem (ram h);
     if mem \<noteq> nmem \<and> mem_used nm = 0 \<and> nmem \<noteq> MEM_SIZE_ALIGNED then do {
       let lf = (if lfree h = nmem then mem else lfree h);
       r \<leftarrow> set_next mem (mem_next nm) (ram h);
       r \<leftarrow> link_back nmem mem r;
       Some (h\<lparr>ram := r, lfree := lf\<rparr>) }
     else Some h }"

definition plug_backward :: "nat \<Rightarrow> lwip_heap \<Rightarrow> lwip_heap option" where
  "plug_backward mem h = do {
     m \<leftarrow> get_mem mem (ram h);
     let pmem = unat (mem_prev m);
     pm \<leftarrow> get_mem pmem (ram h);
     if pmem \<noteq> mem \<and> mem_used pm = 0 then do {
       let lf = (if lfree h = mem then pmem else lfree h);
       r \<leftarrow> set_next pmem (mem_next m) (ram h);
       r \<leftarrow> link_back mem pmem r;
       Some (h\<lparr>ram := r, lfree := lf\<rparr>) }
     else Some h }"

definition plug_holes :: "nat \<Rightarrow> lwip_heap \<Rightarrow> lwip_heap option" where
  "plug_holes mem h = do {
     m \<leftarrow> get_mem mem (ram h);
     if \<not> (mem < MEM_SIZE_ALIGNED \<and> mem_used m = 0 \<and> unat (mem_next m) \<le> MEM_SIZE_ALIGNED) then None
     else do { h \<leftarrow> plug_forward mem h; plug_backward mem h } }"

text \<open>\<open>ram_heap\<close> has room for the heap and two structures.\<close>

definition mem_init :: "lwip_heap \<Rightarrow> lwip_heap option" where
  "mem_init h = do {
     r \<leftarrow> set_next 0 (of_nat MEM_SIZE_ALIGNED) (ram h);
     r \<leftarrow> set_prev 0 0 r;
     r \<leftarrow> set_used 0 0 r;
     r \<leftarrow> set_used MEM_SIZE_ALIGNED 1 r;
     r \<leftarrow> set_next MEM_SIZE_ALIGNED (of_nat MEM_SIZE_ALIGNED) r;
     r \<leftarrow> set_prev MEM_SIZE_ALIGNED (of_nat MEM_SIZE_ALIGNED) r;
     Some (h\<lparr>ram := r, lfree := 0, mem_avail := of_nat MEM_SIZE_ALIGNED\<rparr>) }"

definition mem_link_valid :: "nat \<Rightarrow> byte list \<Rightarrow> bool option" where
  "mem_link_valid mem r = do {
     m \<leftarrow> get_mem mem r;
     let nmem = unat (mem_next m);
     let pmem = unat (mem_prev m);
     if nmem > MEM_SIZE_ALIGNED \<or> pmem > MEM_SIZE_ALIGNED then Some False
     else do {
       pm \<leftarrow> get_mem pmem r;
       if pmem \<noteq> mem \<and> unat (mem_next pm) \<noteq> mem then Some False
       else do {
         nm \<leftarrow> get_mem nmem r;
         Some (\<not> (nmem \<noteq> MEM_SIZE_ALIGNED \<and> unat (mem_prev nm) \<noteq> mem)) } } }"

definition mem_free :: "int option \<Rightarrow> lwip_heap \<Rightarrow> lwip_heap option" where
  "mem_free rm h =
     (case rm of
        None \<Rightarrow> Some h
      | Some rmem \<Rightarrow>
          if rmem mod 4 \<noteq> 0 then None
          else if rmem - int SIZEOF_STRUCT_MEM < 0 \<or> rmem + int MIN_SIZE_ALIGNED > int MEM_SIZE_ALIGNED then None
          else do {
            let mem = nat (rmem - int SIZEOF_STRUCT_MEM);
            m \<leftarrow> get_mem mem (ram h);
            if mem_used m = 0 then None
            else do {
              valid \<leftarrow> mem_link_valid mem (ram h);
              if \<not> valid then None
              else do {
                r \<leftarrow> set_used mem 0 (ram h);
                plug_holes mem (h\<lparr>ram := r, lfree := (if mem < lfree h then mem else lfree h),
                  mem_inuse := mem_inuse h - (mem_next m - of_nat mem)\<rparr>) } } })"

definition LWIP_MEM_ALIGN_SIZE :: "u16 \<Rightarrow> u16" where
  "LWIP_MEM_ALIGN_SIZE n = ucast ((ucast n + 3 :: u32) AND NOT 3)"

definition block_size :: "u16 \<Rightarrow> u16 option" where
  "block_size size_in =
     (let sz = LWIP_MEM_ALIGN_SIZE size_in;
          sz = (if unat sz < MIN_SIZE_ALIGNED then of_nat MIN_SIZE_ALIGNED else sz)
      in if unat sz > MEM_SIZE_ALIGNED \<or> sz < size_in then None else Some sz)"

text \<open>The remainder of a block that has been cut at \<open>ptr2\<close> becomes a block of its own.\<close>

definition new_block :: "nat \<Rightarrow> nat \<Rightarrow> u16 \<Rightarrow> byte list \<Rightarrow> byte list option" where
  "new_block ptr ptr2 next r = do {
     r \<leftarrow> set_used ptr2 0 r;
     r \<leftarrow> set_next ptr2 next r;
     r \<leftarrow> set_prev ptr2 (of_nat ptr) r;
     set_next ptr (of_nat ptr2) r }"

definition mem_trim :: "int \<Rightarrow> u16 \<Rightarrow> lwip_heap \<Rightarrow> (int option \<times> lwip_heap) option" where
  "mem_trim rmem new_size h =
     (case block_size new_size of
        None \<Rightarrow> Some (None, h)
      | Some newsize \<Rightarrow>
          if \<not> (0 \<le> rmem \<and> rmem < int MEM_SIZE_ALIGNED) \<or> rmem - int SIZEOF_STRUCT_MEM < 0 then None
          else do {
            let ptr = nat (rmem - int SIZEOF_STRUCT_MEM);
            m \<leftarrow> get_mem ptr (ram h);
            let sz = mem_next m - of_nat ptr - of_nat SIZEOF_STRUCT_MEM;
            if \<not> newsize \<le> sz then None
            else if newsize = sz then Some (Some rmem, h)
            else do {
              let mem2 = unat (mem_next m);
              m2 \<leftarrow> get_mem mem2 (ram h);
              let ptr2 = unat (of_nat ptr + of_nat SIZEOF_STRUCT_MEM + newsize :: u16);
              if mem_used m2 = 0 then
                (if mem2 = MEM_SIZE_ALIGNED then None
                 else do {
                   r \<leftarrow> new_block ptr ptr2 (mem_next m2) (ram h);
                   r \<leftarrow> link_back ptr2 ptr2 r;
                   Some (Some rmem, h\<lparr>ram := r, lfree := (if lfree h = mem2 then ptr2 else lfree h),
                     mem_inuse := mem_inuse h - (sz - newsize)\<rparr>) })
              else if unat newsize + SIZEOF_STRUCT_MEM + MIN_SIZE_ALIGNED \<le> unat sz then
                (if mem2 = MEM_SIZE_ALIGNED then None
                 else do {
                   r \<leftarrow> new_block ptr ptr2 (mem_next m) (ram h);
                   r \<leftarrow> link_back ptr2 ptr2 r;
                   Some (Some rmem, h\<lparr>ram := r, lfree := (if ptr2 < lfree h then ptr2 else lfree h),
                     mem_inuse := mem_inuse h - (sz - newsize)\<rparr>) })
              else Some (Some rmem, h) } })"

text \<open>The block at \<open>ptr\<close> is taken; the remainder stays free if a block fits in it.\<close>

definition malloc_take :: "u16 \<Rightarrow> nat \<Rightarrow> mem \<Rightarrow> lwip_heap \<Rightarrow> lwip_heap option" where
  "malloc_take sz ptr m h =
     (if (ucast (mem_next m) - (of_nat ptr + of_nat SIZEOF_STRUCT_MEM) :: u32) \<ge>
          ucast sz + of_nat SIZEOF_STRUCT_MEM + of_nat MIN_SIZE_ALIGNED then do {
        let ptr2 = unat (of_nat ptr + of_nat SIZEOF_STRUCT_MEM + sz :: u16);
        if ptr2 = MEM_SIZE_ALIGNED then None
        else do {
          r \<leftarrow> new_block ptr ptr2 (mem_next m) (ram h);
          r \<leftarrow> set_used ptr 1 r;
          r \<leftarrow> link_back ptr2 ptr2 r;
          let inuse = mem_inuse h + (sz + of_nat SIZEOF_STRUCT_MEM);
          Some (h\<lparr>ram := r, mem_inuse := inuse, mem_max := max (mem_max h) inuse\<rparr>) } }
      else do {
        r \<leftarrow> set_used ptr 1 (ram h);
        let inuse = mem_inuse h + (mem_next m - of_nat ptr);
        Some (h\<lparr>ram := r, mem_inuse := inuse, mem_max := max (mem_max h) inuse\<rparr>) })"

partial_function (option) next_free :: "nat \<Rightarrow> byte list \<Rightarrow> nat option" where
  "next_free cur r =
     (case get_mem cur r of
        None \<Rightarrow> None
      | Some m \<Rightarrow> if mem_used m \<noteq> 0 \<and> cur \<noteq> MEM_SIZE_ALIGNED then next_free (unat (mem_next m)) r else Some cur)"

definition malloc_adjust_lfree :: "nat \<Rightarrow> lwip_heap \<Rightarrow> lwip_heap option" where
  "malloc_adjust_lfree mem h =
     (if mem = lfree h then do { cur \<leftarrow> next_free (lfree h) (ram h); Some (h\<lparr>lfree := cur\<rparr>) } else Some h)"

partial_function (option) malloc_loop :: "u16 \<Rightarrow> nat \<Rightarrow> lwip_heap \<Rightarrow> (int option \<times> lwip_heap) option" where
  "malloc_loop sz ptr h =
     (if ptr < MEM_SIZE_ALIGNED - unat sz then
        (case get_mem ptr (ram h) of
           None \<Rightarrow> None
         | Some m \<Rightarrow>
             if mem_used m = 0 \<and> (ucast (mem_next m) - (of_nat ptr + of_nat SIZEOF_STRUCT_MEM) :: u32) \<ge> ucast sz then do {
               h \<leftarrow> malloc_take sz ptr m h;
               h \<leftarrow> malloc_adjust_lfree ptr h;
               if ptr + SIZEOF_STRUCT_MEM + unat sz \<le> MEM_SIZE_ALIGNED \<and> (ptr + SIZEOF_STRUCT_MEM) mod 4 = 0 \<and> ptr mod 4 = 0
               then Some (Some (int (ptr + SIZEOF_STRUCT_MEM)), h) else None }
             else malloc_loop sz (unat (mem_next m)) h)
      else Some (None, h\<lparr>mem_err := mem_err h + 1\<rparr>))"

definition mem_malloc :: "u16 \<Rightarrow> lwip_heap \<Rightarrow> (int option \<times> lwip_heap) option" where
  "mem_malloc size_in h =
     (if size_in = 0 then Some (None, h)
      else case block_size size_in of
             None \<Rightarrow> Some (None, h)
           | Some sz \<Rightarrow> malloc_loop sz (lfree h) h)"

definition mem_calloc :: "u16 \<Rightarrow> u16 \<Rightarrow> lwip_heap \<Rightarrow> (int option \<times> lwip_heap) option" where
  "mem_calloc count sz h =
     (let alloc_size = ucast count * ucast sz :: u32
      in if (ucast (ucast alloc_size :: u16) :: u32) \<noteq> alloc_size then Some (None, h)
         else do {
           (p, h) \<leftarrow> mem_malloc (ucast alloc_size) h;
           case p of
             None \<Rightarrow> Some (None, h)
           | Some a \<Rightarrow> do { r \<leftarrow> poke (nat a) (replicate (unat alloc_size) 0) (ram h); Some (p, h\<lparr>ram := r\<rparr>) } })"

section \<open>Structures in the heap\<close>

lemma get_mem_Some: "p + 5 \<le> length r \<Longrightarrow> \<exists>m. get_mem p r = Some m"
  by (simp add: get_mem_def peek_def)

lemma get_mem_poke_other:
  assumes "poke q src r = Some r'" and "p + 5 \<le> q \<or> q + length src \<le> p"
  shows "get_mem p r' = get_mem p r"
proof -
  have "peek p 2 r' = peek p 2 r" "peek (p + 2) 2 r' = peek (p + 2) 2 r" "peek (p + 4) 1 r' = peek (p + 4) 1 r"
    using assms by (auto intro!: peek_poke_disjoint)
  then show ?thesis by (simp add: get_mem_def)
qed

lemma poke_nth_other:
  assumes "poke q src r = Some r'" and "i < q \<or> q + length src \<le> i"
  shows "r' ! i = r ! i"
proof -
  have le: "q + length src \<le> length r" and r': "r' = take q r @ src @ drop (q + length src) r"
    using assms(1) by (auto simp: poke_def split: if_splits)
  show ?thesis
  proof (cases "i < q")
    case True
    then show ?thesis using le by (simp add: r' nth_append)
  next
    case False
    then have "q + length src + (i - q - length src) = i" using assms(2) by simp
    moreover have "\<not> i - q < length src" using False assms(2) by simp
    ultimately show ?thesis using False le by (simp add: r' nth_append)
  qed
qed

lemma le_val_u16: "of_nat (le_val (le_bytes 2 (unat (v :: u16)))) = v"
  using unat_u16_bound [of v] by (simp add: le_val_le_bytes)

lemma get_mem_inside: "get_mem p r = Some m \<Longrightarrow> p + 5 \<le> length r"
  by (auto simp: get_mem_def peek_def split: if_splits bind_splits)

text \<open>A write to a structure changes that field only, and no byte outside of the structure.\<close>

definition writes_at :: "nat \<Rightarrow> mem \<Rightarrow> byte list \<Rightarrow> byte list \<Rightarrow> bool" where
  "writes_at p m r r' \<longleftrightarrow> length r' = length r \<and> get_mem p r' = Some m \<and>
     (\<forall>q. q + 5 \<le> p \<or> p + 5 \<le> q \<longrightarrow> get_mem q r' = get_mem q r) \<and> (\<forall>i. i < p \<or> p + 5 \<le> i \<longrightarrow> r' ! i = r ! i)"

lemma poke_writes_at:
  assumes "poke (p + k) src r = Some r'" and "k + length src \<le> 5" and "get_mem p r' = Some m"
  shows "writes_at p m r r'"
  unfolding writes_at_def
proof (intro conjI allI impI)
  fix q
  assume "q + 5 \<le> p \<or> p + 5 \<le> q"
  then show "get_mem q r' = get_mem q r" using assms(2) by (intro get_mem_poke_other [OF assms(1)]) linarith
next
  fix i
  assume "i < p \<or> p + 5 \<le> i"
  then show "r' ! i = r ! i" using assms(2) by (intro poke_nth_other [OF assms(1)]) linarith
qed (use assms(3) poke_length [OF assms(1)] in simp_all)

lemma set_next_writes:
  assumes "get_mem p r = Some m"
  shows "\<exists>r'. set_next p v r = Some r' \<and> writes_at p (m\<lparr>mem_next := v\<rparr>) r r'"
proof -
  obtain r' where pk: "poke (p + 0) (le_bytes 2 (unat v)) r = Some r'" using get_mem_inside [OF assms] by (simp add: poke_def)
  have "peek p 2 r' = Some (le_bytes 2 (unat v))" using peek_poke_same [OF pk] by simp
  moreover have "peek (p + 2) 2 r' = peek (p + 2) 2 r" "peek (p + 4) 1 r' = peek (p + 4) 1 r"
    using pk by (auto intro!: peek_poke_disjoint)
  ultimately have "get_mem p r' = Some (m\<lparr>mem_next := v\<rparr>)"
    using assms by (auto simp: get_mem_def le_val_u16 split: bind_splits)
  then show ?thesis using poke_writes_at [OF pk] pk by (auto simp: set_next_def)
qed

lemma set_prev_writes:
  assumes "get_mem p r = Some m"
  shows "\<exists>r'. set_prev p v r = Some r' \<and> writes_at p (m\<lparr>mem_prev := v\<rparr>) r r'"
proof -
  obtain r' where pk: "poke (p + 2) (le_bytes 2 (unat v)) r = Some r'" using get_mem_inside [OF assms] by (simp add: poke_def)
  have "peek (p + 2) 2 r' = Some (le_bytes 2 (unat v))" using peek_poke_same [OF pk] by simp
  moreover have "peek p 2 r' = peek p 2 r" "peek (p + 4) 1 r' = peek (p + 4) 1 r"
    using pk by (auto intro!: peek_poke_disjoint)
  ultimately have "get_mem p r' = Some (m\<lparr>mem_prev := v\<rparr>)"
    using assms by (auto simp: get_mem_def le_val_u16 split: bind_splits)
  then show ?thesis using poke_writes_at [OF pk] pk by (auto simp: set_prev_def)
qed

lemma set_used_writes:
  assumes "get_mem p r = Some m"
  shows "\<exists>r'. set_used p v r = Some r' \<and> writes_at p (m\<lparr>mem_used := v\<rparr>) r r'"
proof -
  obtain r' where pk: "poke (p + 4) [v] r = Some r'" using get_mem_inside [OF assms] by (simp add: poke_def)
  have "peek (p + 4) 1 r' = Some [v]" using peek_poke_same [OF pk] by simp
  moreover have "peek p 2 r' = peek p 2 r" "peek (p + 2) 2 r' = peek (p + 2) 2 r"
    using pk by (auto intro!: peek_poke_disjoint)
  ultimately have "get_mem p r' = Some (m\<lparr>mem_used := v\<rparr>)"
    using assms by (auto simp: get_mem_def split: bind_splits)
  then show ?thesis using poke_writes_at [OF pk] pk by (auto simp: set_used_def)
qed

section \<open>Blocks\<close>

text \<open>What the structures say: blocks with their start, the start of the next one, and whether they are used.\<close>

type_synonym block = "nat \<times> nat \<times> bool"

fun chain :: "nat \<Rightarrow> block list \<Rightarrow> nat \<Rightarrow> bool" where
  "chain p [] q \<longleftrightarrow> p = q"
| "chain p ((a, b, u) # bs) q \<longleftrightarrow> a = p \<and> a mod 4 = 0 \<and> a + 20 \<le> b \<and> chain b bs q"

fun hdrs :: "byte list \<Rightarrow> nat \<Rightarrow> block list \<Rightarrow> bool" where
  "hdrs r pv [] \<longleftrightarrow> True"
| "hdrs r pv ((a, b, u) # bs) \<longleftrightarrow>
     get_mem a r = Some \<lparr>mem_next = of_nat b, mem_prev = of_nat pv, mem_used = of_bool u\<rparr> \<and> hdrs r a bs"

definition last_start :: "nat \<Rightarrow> block list \<Rightarrow> nat" where
  "last_start pv bs = (if bs = [] then pv else fst (last bs))"

definition end_ok :: "byte list \<Rightarrow> bool" where
  "end_ok r \<longleftrightarrow> length r = 10256 \<and>
     get_mem MEM_SIZE_ALIGNED r = Some \<lparr>mem_next = of_nat MEM_SIZE_ALIGNED, mem_prev = of_nat MEM_SIZE_ALIGNED, mem_used = 1\<rparr>"

definition rep :: "block list \<Rightarrow> byte list \<Rightarrow> bool" where
  "rep bs r \<longleftrightarrow> chain 0 bs MEM_SIZE_ALIGNED \<and> hdrs r 0 bs \<and> end_ok r"

lemma chain_append: "chain p (xs @ ys) q \<longleftrightarrow> (\<exists>m. chain p xs m \<and> chain m ys q)"
  by (induction p xs q rule: chain.induct) auto

lemma chain_le: "chain p bs q \<Longrightarrow> p \<le> q"
  by (induction p bs q rule: chain.induct) auto

lemma chain_block: "chain p bs q \<Longrightarrow> (a, b, u) \<in> set bs \<Longrightarrow> p \<le> a \<and> a mod 4 = 0 \<and> a + 20 \<le> b \<and> b \<le> q"
  by (induction p bs q rule: chain.induct) (auto dest: chain_le)

lemma chain_mod: "chain p bs q \<Longrightarrow> q mod 4 = 0 \<Longrightarrow> p mod 4 = 0"
  by (cases bs) auto

lemma last_start_simps [simp]: "last_start pv [] = pv" "last_start pv (xs @ [(a, b, u)]) = a"
  by (simp_all add: last_start_def)

lemma last_start_Cons [simp]: "last_start pv ((a, b, u) # xs) = last_start a xs"
  by (simp add: last_start_def)

lemma hdrs_append: "hdrs r pv (xs @ ys) \<longleftrightarrow> hdrs r pv xs \<and> hdrs r (last_start pv xs) ys"
  by (induction r pv xs rule: hdrs.induct) auto

lemma hdrs_cong: "\<forall>t\<in>set bs. get_mem (fst t) r' = get_mem (fst t) r \<Longrightarrow> hdrs r' pv bs = hdrs r pv bs"
  by (induction r pv bs rule: hdrs.induct) simp_all

text \<open>Changes inside of the structures at some positions.\<close>

definition touches :: "nat set \<Rightarrow> byte list \<Rightarrow> byte list \<Rightarrow> bool" where
  "touches S r r' \<longleftrightarrow> length r' = length r \<and>
     (\<forall>q. (\<forall>s\<in>S. q + 5 \<le> s \<or> s + 5 \<le> q) \<longrightarrow> get_mem q r' = get_mem q r) \<and>
     (\<forall>i. (\<forall>s\<in>S. i < s \<or> s + 5 \<le> i) \<longrightarrow> r' ! i = r ! i)"

lemma touches_refl [simp]: "touches S r r"
  by (simp add: touches_def)

lemma touches_trans: "touches S r r' \<Longrightarrow> touches T r' r'' \<Longrightarrow> touches (S \<union> T) r r''"
  unfolding touches_def by (simp add: ball_Un)

lemma touches_mono: "touches S r r' \<Longrightarrow> S \<subseteq> T \<Longrightarrow> touches T r r'"
  unfolding touches_def by blast

lemma writes_touches: "writes_at p m r r' \<Longrightarrow> touches {p} r r'"
  unfolding touches_def writes_at_def by simp

lemma touches_get: "touches S r r' \<Longrightarrow> \<forall>s\<in>S. q + 5 \<le> s \<or> s + 5 \<le> q \<Longrightarrow> get_mem q r' = get_mem q r"
  by (simp add: touches_def)

lemma touches_hdrs:
  assumes "touches S r r'" and "\<forall>t\<in>set bs. \<forall>s\<in>S. fst t + 5 \<le> s \<or> s + 5 \<le> fst t"
  shows "hdrs r' pv bs = hdrs r pv bs"
  using assms(2) touches_get [OF assms(1)] by (intro hdrs_cong) blast

lemma touches_end: "touches S r r' \<Longrightarrow> \<forall>s\<in>S. s + 5 \<le> 10240 \<Longrightarrow> end_ok r' = end_ok r"
  using touches_get [of S r r' 10240] unfolding end_ok_def by (auto simp: touches_def)

text \<open>Writes to structures at positions before or after a piece of the chain leave it alone.\<close>

lemma hdrs_before:
  assumes "touches S r r'" and "chain p bs q" and "\<forall>s\<in>S. q \<le> s"
  shows "hdrs r' pv bs = hdrs r pv bs"
proof (intro touches_hdrs [OF assms(1)] ballI)
  fix t s
  assume m: "t \<in> set bs" "s \<in> S"
  obtain a b u where t: "t = (a, b, u)" by (cases t)
  show "fst t + 5 \<le> s \<or> s + 5 \<le> fst t" using chain_block [OF assms(2), of a b u] bspec [OF assms(3) m(2)] m(1) t by auto
qed

lemma hdrs_after:
  assumes "touches S r r'" and "chain p bs q" and "\<forall>s\<in>S. s + 5 \<le> p"
  shows "hdrs r' pv bs = hdrs r pv bs"
proof (intro touches_hdrs [OF assms(1)] ballI)
  fix t s
  assume m: "t \<in> set bs" "s \<in> S"
  obtain a b u where t: "t = (a, b, u)" by (cases t)
  show "fst t + 5 \<le> s \<or> s + 5 \<le> fst t" using chain_block [OF assms(2), of a b u] bspec [OF assms(3) m(2)] m(1) t by auto
qed

lemma link_back_rep:
  assumes c: "chain 0 (xs @ (a, c, u) # ys) 10240" and f: "hdrs r 0 (xs @ [(a, c, u)])" and g: "hdrs r z ys" and e: "end_ok r"
    and p: "get_mem p r = Some m" "mem_next m = of_nat c"
  shows "\<exists>r'. link_back p a r = Some r' \<and> rep (xs @ (a, c, u) # ys) r' \<and> touches (if ys = [] then {} else {c}) r r'"
proof -
  have ch: "chain 0 (xs @ [(a, c, u)]) c" "chain c ys 10240" using c by (auto simp: chain_append)
  then have "c \<le> 10240" using chain_le by blast
  then have nc: "unat (mem_next m) = c" using p(2) by (simp add: unat_of_nat)
  show ?thesis
  proof (cases ys)
    case Nil
    then have "c = 10240" using ch(2) by simp
    then show ?thesis using p nc c f e Nil by (simp add: link_back_def rep_def)
  next
    case (Cons y ys')
    then obtain d v where y: "ys = (c, d, v) # ys'" using ch(2) by (cases y) auto
    then have lt: "c + 20 \<le> d" "chain d ys' 10240" "d \<le> 10240" using ch(2) chain_le by auto
    have gc: "get_mem c r = Some \<lparr>mem_next = of_nat d, mem_prev = of_nat z, mem_used = of_bool v\<rparr>" "hdrs r c ys'" using g y by auto
    obtain r' where r': "set_prev c (of_nat a) r = Some r'" "writes_at c \<lparr>mem_next = of_nat d, mem_prev = of_nat a, mem_used = of_bool v\<rparr> r r'"
      using set_prev_writes [OF gc(1), of "of_nat a"] by auto
    have t: "touches {c} r r'" by (rule writes_touches [OF r'(2)])
    have "hdrs r' 0 (xs @ [(a, c, u)])" using hdrs_before [OF t ch(1)] f by simp
    moreover have "hdrs r' c ys'" using hdrs_after [OF t lt(2)] lt(1) gc(2) by simp
    moreover have "end_ok r'" using touches_end [OF t] e lt by simp
    ultimately have "rep (xs @ (a, c, u) # ys) r'" using c r'(2) y by (simp add: rep_def hdrs_append writes_at_def)
    moreover have "link_back p a r = Some r'" using p nc lt r'(1) by (simp add: link_back_def)
    ultimately show ?thesis using t y by auto
  qed
qed

lemma u16_of_nat: "n \<le> 10240 \<Longrightarrow> unat (of_nat n :: u16) = n"
  by (simp add: unat_of_nat)

lemma rep_block:
  assumes "rep (xs @ (a, b, u) # ys) r"
  shows "get_mem a r = Some \<lparr>mem_next = of_nat b, mem_prev = of_nat (last_start 0 xs), mem_used = of_bool u\<rparr>"
    and "a + 20 \<le> b" and "b \<le> 10240" and "a mod 4 = 0" and "b mod 4 = 0"
    and "chain 0 xs a" and "chain b ys 10240"
    and "hdrs r 0 xs" and "hdrs r a ys" and "end_ok r"
    and "unat (of_nat a :: u16) = a" and "unat (of_nat b :: u16) = b"
proof -
  show 1: "a + 20 \<le> b" "a mod 4 = 0" "chain 0 xs a" "chain b ys 10240" "hdrs r 0 xs" "hdrs r a ys" "end_ok r"
    "get_mem a r = Some \<lparr>mem_next = of_nat b, mem_prev = of_nat (last_start 0 xs), mem_used = of_bool u\<rparr>"
    using assms by (auto simp: rep_def chain_append hdrs_append)
  show 2: "b \<le> 10240" using chain_le [OF 1(4)] .
  show "b mod 4 = 0" using chain_mod [OF 1(4)] by simp
  show "unat (of_nat a :: u16) = a" "unat (of_nat b :: u16) = b" using 1(1) 2 by (simp_all add: u16_of_nat)
qed

lemma flag_rep:
  assumes "rep (xs @ (a, b, u) # ys) r"
  shows "\<exists>r'. set_used a (of_bool v) r = Some r' \<and> rep (xs @ (a, b, v) # ys) r' \<and> touches {a} r r'"
proof -
  note B = rep_block [OF assms]
  obtain r' where r': "set_used a (of_bool v) r = Some r'"
      "writes_at a \<lparr>mem_next = of_nat b, mem_prev = of_nat (last_start 0 xs), mem_used = of_bool v\<rparr> r r'"
    using set_used_writes [OF B(1), of "of_bool v"] by auto
  have t: "touches {a} r r'" by (rule writes_touches [OF r'(2)])
  have "hdrs r' 0 xs" "hdrs r' a ys" "end_ok r'"
    using hdrs_before [OF t B(6)] hdrs_after [OF t B(7)] touches_end [OF t] B(2,3,8,9,10) by simp_all
  moreover have "get_mem a r' = Some \<lparr>mem_next = of_nat b, mem_prev = of_nat (last_start 0 xs), mem_used = of_bool v\<rparr>"
    using r'(2) by (simp add: writes_at_def)
  moreover have "chain 0 (xs @ (a, b, v) # ys) 10240" using assms by (simp add: rep_def chain_append)
  ultimately show ?thesis using t r'(1) by (simp add: rep_def hdrs_append)
qed

lemma merge_rep:
  assumes "rep (xs @ (a, b, u) # (b, c, v) # ys) r"
  shows "\<exists>r1 r2. set_next a (of_nat c) r = Some r1 \<and> link_back b a r1 = Some r2 \<and> rep (xs @ (a, c, u) # ys) r2 \<and>
    touches ({a} \<union> (if ys = [] then {} else {c})) r r2"
proof -
  note A = rep_block [OF assms]
  have assms2: "rep ((xs @ [(a, b, u)]) @ (b, c, v) # ys) r" using assms by simp
  note B = rep_block [OF assms2]
  obtain r1 where r1: "set_next a (of_nat c) r = Some r1"
      "writes_at a \<lparr>mem_next = of_nat c, mem_prev = of_nat (last_start 0 xs), mem_used = of_bool u\<rparr> r r1"
    using set_next_writes [OF A(1), of "of_nat c"] by auto
  have t: "touches {a} r r1" by (rule writes_touches [OF r1(2)])
  have c: "chain 0 (xs @ (a, c, u) # ys) 10240" using A(2,4,6) B(2,7) by (auto simp: chain_append)
  have h: "hdrs r1 0 xs" "hdrs r1 b ys" "end_ok r1"
    using hdrs_before [OF t A(6)] hdrs_after [OF t B(7)] touches_end [OF t] A(2,3,8,10) B(2,9) by simp_all
  have h2: "hdrs r1 0 (xs @ [(a, c, u)])" using h(1) r1(2) by (simp add: hdrs_append writes_at_def)
  have g: "get_mem b r1 = Some \<lparr>mem_next = of_nat c, mem_prev = of_nat a, mem_used = of_bool v\<rparr>"
    using touches_get [OF t, of b] A(2) B(1) by simp
  from link_back_rep [OF c h2 h(2,3) g] obtain r2 where
    "link_back b a r1 = Some r2" "rep (xs @ (a, c, u) # ys) r2" "touches (if ys = [] then {} else {c}) r1 r2" by auto
  then show ?thesis using r1(1) touches_trans [OF t] by blast
qed

lemma new_block_hdrs:
  assumes c: "chain 0 (xs @ (a, c, u) # ys) 10240" and h: "hdrs r 0 xs" "hdrs r z ys" "end_ok r"
    and a: "get_mem a r = Some \<lparr>mem_next = n, mem_prev = of_nat (last_start 0 xs), mem_used = of_bool u\<rparr>"
    and p: "a + 20 \<le> p" "p + 20 \<le> c"
  shows "\<exists>r'. new_block a p (of_nat c) r = Some r' \<and> touches {a, p} r r' \<and> hdrs r' 0 (xs @ [(a, p, u), (p, c, False)]) \<and>
    hdrs r' z ys \<and> end_ok r'"
proof -
  have ch: "chain 0 xs a" "chain c ys 10240" "c \<le> 10240" using c chain_le by (auto simp: chain_append)
  have "p + 5 \<le> length r" using h(3) p ch(3) by (simp add: end_ok_def)
  then obtain m where "get_mem p r = Some m" using get_mem_Some by blast
  from set_used_writes [OF this] obtain r1 m1 where r1: "set_used p 0 r = Some r1" "writes_at p m1 r r1" "mem_used m1 = 0" by fastforce
  then have "get_mem p r1 = Some m1" by (simp add: writes_at_def)
  from set_next_writes [OF this] obtain r2 m2 where r2: "set_next p (of_nat c) r1 = Some r2" "writes_at p m2 r1 r2" "mem_used m2 = 0" "mem_next m2 = of_nat c"
    using r1(3) by fastforce
  then have "get_mem p r2 = Some m2" by (simp add: writes_at_def)
  from set_prev_writes [OF this, of "of_nat a"] obtain r3 where r3: "set_prev p (of_nat a) r2 = Some r3" "writes_at p (m2\<lparr>mem_prev := of_nat a\<rparr>) r2 r3" by blast
  have "touches ({p} \<union> {p} \<union> {p}) r r3" using r1(2) r2(2) r3(2) by (intro touches_trans writes_touches)
  then have t3: "touches {p} r r3" by simp
  have "get_mem a r3 = get_mem a r" using p by (intro touches_get [OF t3]) simp
  with a have "get_mem a r3 = Some \<lparr>mem_next = n, mem_prev = of_nat (last_start 0 xs), mem_used = of_bool u\<rparr>" by simp
  from set_next_writes [OF this, of "of_nat p"] obtain r4 where r4: "set_next a (of_nat p) r3 = Some r4"
      "writes_at a \<lparr>mem_next = of_nat p, mem_prev = of_nat (last_start 0 xs), mem_used = of_bool u\<rparr> r3 r4" by auto
  have t4: "touches {a} r3 r4" by (rule writes_touches [OF r4(2)])
  have t: "touches {a, p} r r4" using touches_trans [OF t3 t4] by (simp add: insert_commute)
  have "get_mem p r4 = get_mem p r3" using p by (intro touches_get [OF t4]) simp
  moreover have "m2\<lparr>mem_prev := of_nat a\<rparr> = \<lparr>mem_next = of_nat c, mem_prev = of_nat a, mem_used = of_bool False\<rparr>"
    using r2(3,4) by (cases m2) simp
  ultimately have "hdrs r4 0 (xs @ [(a, p, u), (p, c, False)])"
    using hdrs_before [OF t ch(1)] h(1) p r3(2) r4(2) by (simp add: hdrs_append writes_at_def)
  moreover have "hdrs r4 z ys" "end_ok r4" using hdrs_after [OF t ch(2)] touches_end [OF t] h(2,3) p ch(3) by simp_all
  moreover have "new_block a p (of_nat c) r = Some r4" using r1(1) r2(1) r3(1) r4(1) by (simp add: new_block_def)
  ultimately show ?thesis using t by blast
qed

section \<open>The invariant\<close>

fun first_free :: "block list \<Rightarrow> nat" where
  "first_free [] = MEM_SIZE_ALIGNED"
| "first_free ((a, b, u) # bs) = (if u then first_free bs else a)"

abbreviation blk_used :: "block \<Rightarrow> bool" where "blk_used t \<equiv> snd (snd t)"

text \<open>No two free blocks are neighbours.\<close>

definition spaced :: "block list \<Rightarrow> bool" where
  "spaced bs \<longleftrightarrow> successively (\<lambda>x y. blk_used x \<or> blk_used y) bs"

definition inuse :: "block list \<Rightarrow> nat" where
  "inuse bs = sum_list (map (\<lambda>(a, b, u). if u then b - a else 0) bs)"

definition used_blocks :: "block list \<Rightarrow> (nat \<times> nat) set" where
  "used_blocks bs = {(a, b). (a, b, True) \<in> set bs}"

definition starts :: "block list \<Rightarrow> nat set" where
  "starts bs = fst ` set bs"

definition heap_blocks :: "block list \<Rightarrow> lwip_heap \<Rightarrow> bool" where
  "heap_blocks bs h \<longleftrightarrow> rep bs (ram h) \<and> spaced bs \<and> lfree h = first_free bs \<and> mem_inuse h = of_nat (inuse bs)"

lemma first_free_append: "first_free (xs @ ys) = (if list_all blk_used xs then first_free ys else first_free xs)"
  by (induction xs rule: first_free.induct) auto

lemma first_free_ge: "chain p bs 10240 \<Longrightarrow> p \<le> first_free bs"
  by (induction p bs "10240 :: nat" rule: chain.induct) auto

lemma first_free_lt: "chain p bs q \<Longrightarrow> \<not> list_all blk_used bs \<Longrightarrow> first_free bs < q"
  by (induction p bs q rule: chain.induct) (auto dest: chain_le)

lemma inuse_append [simp]: "inuse (xs @ ys) = inuse xs + inuse ys" "inuse [] = 0"
    "inuse ((a, b, u) # bs) = (if u then b - a else 0) + inuse bs"
  by (simp_all add: inuse_def)

lemma used_blocks_simps [simp]: "used_blocks [] = {}" "used_blocks ((a, b, u) # bs) = (if u then insert (a, b) (used_blocks bs) else used_blocks bs)"
    "used_blocks (xs @ ys) = used_blocks xs \<union> used_blocks ys"
  by (auto simp: used_blocks_def)

lemma starts_simps [simp]: "starts [] = {}" "starts ((a, b, u) # bs) = insert a (starts bs)" "starts (xs @ ys) = starts xs \<union> starts ys"
  by (simp_all add: starts_def image_Un)

lemma spaced_simps:
  "spaced ((a, b, u) # bs) \<longleftrightarrow> (u \<or> bs = [] \<or> blk_used (hd bs)) \<and> spaced bs" "spaced []"
  "spaced (xs @ ys) \<longleftrightarrow> spaced xs \<and> spaced ys \<and> (xs = [] \<or> ys = [] \<or> blk_used (last xs) \<or> blk_used (hd ys))"
  by (auto simp: spaced_def successively_Cons successively_append_iff)

lemma last_block:
  assumes "chain 0 xs a" and "xs \<noteq> []"
  obtains ws p u where "xs = ws @ [(p, a, u)]"
proof -
  obtain ws t where x: "xs = ws @ [t]" using assms(2) by (meson rev_exhaust)
  obtain p b u where "t = (p, b, u)" by (cases t)
  then show ?thesis using that assms(1) x by (auto simp: chain_append)
qed

lemma mem_link_valid_ok:
  assumes "rep (xs @ (a, b, u) # ys) r"
  shows "mem_link_valid a r = Some True"
proof -
  note B = rep_block [OF assms]
  have "\<exists>pm. get_mem (last_start 0 xs) r = Some pm \<and> last_start 0 xs \<le> 10240 \<and> (last_start 0 xs = a \<or> unat (mem_next pm) = a)"
  proof (cases "xs = []")
    case True
    then show ?thesis using B by simp
  next
    case False
    then obtain ws p v where x: "xs = ws @ [(p, a, v)]" using last_block B(6) by blast
    then have "rep (ws @ (p, a, v) # (a, b, u) # ys) r" using assms by simp
    from rep_block [OF this] show ?thesis using x by simp
  qed
  then obtain pm where pm: "get_mem (last_start 0 xs) r = Some pm" "last_start 0 xs \<le> 10240" "last_start 0 xs = a \<or> unat (mem_next pm) = a" by blast
  have "\<exists>nm. get_mem b r = Some nm \<and> (b = 10240 \<or> unat (mem_prev nm) = a)"
  proof (cases ys)
    case Nil
    then show ?thesis using B(7,10) by (simp add: end_ok_def)
  next
    case (Cons y ys')
    then show ?thesis using B(7,9,11) by (cases y) auto
  qed
  then show ?thesis using B(1,2,3,12) pm u16_of_nat [OF pm(2)] unfolding mem_link_valid_def by auto
qed

lemma plug_forward_rep:
  assumes "rep (xs @ (a, b, False) # ys) (ram h)"
  shows "\<exists>h' c zs. plug_forward a h = Some h' \<and> rep (xs @ (a, c, False) # zs) (ram h') \<and>
    touches (insert a (starts ys)) (ram h) (ram h') \<and> mem_inuse h' = mem_inuse h \<and>
    (ys = (b, c, False) # zs \<and> lfree h' = (if lfree h = b then a else lfree h) \<or>
     zs = ys \<and> c = b \<and> lfree h' = lfree h \<and> (ys = [] \<or> blk_used (hd ys)))"
proof -
  note B = rep_block [OF assms]
  show ?thesis
  proof (cases ys)
    case Nil
    then have "plug_forward a h = Some h" using B(1,7,10) by (simp add: plug_forward_def end_ok_def Let_def)
    then show ?thesis using Nil assms by auto
  next
    case (Cons y ys')
    then obtain c v where y: "ys = (b, c, v) # ys'" using B(7) by (cases y) auto
    have rep2: "rep ((xs @ [(a, b, False)]) @ (b, c, v) # ys') (ram h)" using assms y by simp
    note C = rep_block [OF rep2]
    show ?thesis
    proof (cases v)
      case True
      then have "plug_forward a h = Some h" using B(1,12) C(1) by (simp add: plug_forward_def Let_def)
      then show ?thesis using y True assms by auto
    next
      case False
      then obtain r1 r2 where m: "set_next a (of_nat c) (ram h) = Some r1" "link_back b a r1 = Some r2" "rep (xs @ (a, c, False) # ys') r2"
          "touches ({a} \<union> (if ys' = [] then {} else {c})) (ram h) r2"
        using merge_rep [of xs a b False c v ys' "ram h"] assms y by blast
      let ?h = "h\<lparr>ram := r2, lfree := if lfree h = b then a else lfree h\<rparr>"
      have "plug_forward a h = Some ?h"
        using B(1,2,12) C(1,2,3) False m(1,2) by (simp add: plug_forward_def Let_def)
      moreover have "{a} \<union> (if ys' = [] then {} else {c}) \<subseteq> insert a (starts ys)"
        using C(7) y by (cases ys') auto
      then have "touches (insert a (starts ys)) (ram h) r2" by (rule touches_mono [OF m(4)])
      ultimately show ?thesis using m(3) y False by (intro exI [of _ ?h] exI [of _ c] exI [of _ ys']) simp
    qed
  qed
qed

lemma plug_backward_rep:
  assumes "rep (xs @ (a, b, False) # ys) (ram h)"
  shows "\<exists>h' p ws. plug_backward a h = Some h' \<and> rep (ws @ (p, b, False) # ys) (ram h') \<and>
    touches (insert a (starts xs \<union> starts ys)) (ram h) (ram h') \<and> mem_inuse h' = mem_inuse h \<and>
    (xs = ws @ [(p, a, False)] \<and> lfree h' = (if lfree h = a then p else lfree h) \<or>
     ws = xs \<and> p = a \<and> lfree h' = lfree h \<and> (xs = [] \<or> blk_used (last xs)))"
proof -
  note B = rep_block [OF assms]
  show ?thesis
  proof (cases "xs = []")
    case True
    then have "plug_backward a h = Some h" using B(1,6) by (simp add: plug_backward_def Let_def)
    then show ?thesis using True assms by auto
  next
    case False
    then obtain ws p v where x: "xs = ws @ [(p, a, v)]" using last_block B(6) by blast
    then have rep2: "rep (ws @ (p, a, v) # (a, b, False) # ys) (ram h)" using assms by simp
    note C = rep_block [OF rep2]
    show ?thesis
    proof (cases v)
      case True
      then have "plug_backward a h = Some h" using B(1) C(1,2,11) x by (simp add: plug_backward_def Let_def)
      then show ?thesis using x True assms by auto
    next
      case False
      then obtain r1 r2 where m: "set_next p (of_nat b) (ram h) = Some r1" "link_back a p r1 = Some r2" "rep (ws @ (p, b, False) # ys) r2"
          "touches ({p} \<union> (if ys = [] then {} else {b})) (ram h) r2"
        using merge_rep [OF rep2] by auto
      let ?h = "h\<lparr>ram := r2, lfree := if lfree h = a then p else lfree h\<rparr>"
      have "plug_backward a h = Some ?h"
        using B(1) C(1,2,11) False m(1,2) x by (simp add: plug_backward_def Let_def)
      moreover have "{p} \<union> (if ys = [] then {} else {b}) \<subseteq> insert a (starts xs \<union> starts ys)"
        using B(7) x by (cases ys) auto
      then have "touches (insert a (starts xs \<union> starts ys)) (ram h) r2" by (rule touches_mono [OF m(4)])
      ultimately show ?thesis using m(3) x False by (intro exI [of _ ?h] exI [of _ p] exI [of _ ws]) simp
    qed
  qed
qed

lemma mem_free_blocks:
  assumes hb: "heap_blocks (xs @ (a, b, True) # ys) h"
  shows "\<exists>h' bs. mem_free (Some (int (a + 8))) h = Some h' \<and> heap_blocks bs h' \<and>
    used_blocks bs = used_blocks xs \<union> used_blocks ys \<and>
    touches (starts (xs @ (a, b, True) # ys)) (ram h) (ram h')"
proof -
  have r: "rep (xs @ (a, b, True) # ys) (ram h)" and sp: "spaced (xs @ (a, b, True) # ys)"
    and lf: "lfree h = first_free (xs @ (a, b, True) # ys)" and iu: "mem_inuse h = of_nat (inuse (xs @ (a, b, True) # ys))"
    using hb by (simp_all add: heap_blocks_def)
  note B = rep_block [OF r]
  obtain r1 where r1: "set_used a 0 (ram h) = Some r1" "rep (xs @ (a, b, False) # ys) r1" "touches {a} (ram h) r1"
    using flag_rep [OF r, of False] by auto
  define h1 where "h1 = h\<lparr>ram := r1, lfree := (if a < lfree h then a else lfree h), mem_inuse := mem_inuse h - (of_nat b - of_nat a)\<rparr>"
  have lf1: "lfree h1 = first_free (xs @ (a, b, False) # ys)"
  proof (cases "list_all blk_used xs")
    case True
    then show ?thesis using first_free_ge [OF B(7)] B(2) lf by (simp add: h1_def first_free_append)
  next
    case False
    with first_free_lt [OF B(6)] have "first_free xs < a" by blast
    then show ?thesis using False lf by (simp add: h1_def first_free_append)
  qed
  have "int (a + 8) mod 4 = 0" using B(4) by presburger
  then have e: "mem_free (Some (int (a + 8))) h = plug_holes a h1"
    using B(1,2,3) r1(1) mem_link_valid_ok [OF r] by (simp add: mem_free_def h1_def Let_def nat_diff_distrib)
  obtain h2 c zs where h2: "plug_forward a h1 = Some h2" "rep (xs @ (a, c, False) # zs) (ram h2)"
      "touches (insert a (starts ys)) r1 (ram h2)" "mem_inuse h2 = mem_inuse h1"
    and z: "ys = (b, c, False) # zs \<and> lfree h2 = (if lfree h1 = b then a else lfree h1) \<or>
     zs = ys \<and> c = b \<and> lfree h2 = lfree h1 \<and> (ys = [] \<or> blk_used (hd ys))"
    using plug_forward_rep [of xs a b ys h1] r1(2) by (auto simp: h1_def)
  obtain h3 p ws where h3: "plug_backward a h2 = Some h3" "rep (ws @ (p, c, False) # zs) (ram h3)"
      "touches (insert a (starts xs \<union> starts zs)) (ram h2) (ram h3)" "mem_inuse h3 = mem_inuse h2"
    and w: "xs = ws @ [(p, a, False)] \<and> lfree h3 = (if lfree h2 = a then p else lfree h2) \<or>
     ws = xs \<and> p = a \<and> lfree h3 = lfree h2 \<and> (xs = [] \<or> blk_used (last xs))"
    using plug_backward_rep [OF h2(2)] by auto
  have "plug_holes a h1 = Some h3"
    using rep_block(1,2,3,12) [OF r1(2)] h2(1) h3(1) by (simp add: plug_holes_def h1_def)
  moreover have "spaced zs \<and> (zs = [] \<or> blk_used (hd zs))" using sp z by (auto simp: spaced_simps)
  moreover have "spaced ws \<and> (ws = [] \<or> blk_used (last ws))" using sp w by (auto simp: spaced_simps)
  ultimately have sp3: "spaced (ws @ (p, c, False) # zs)" by (auto simp: spaced_simps)
  have lf2: "lfree h2 = first_free (xs @ (a, c, False) # zs)"
    using z lf1 first_free_lt [OF B(6)] B(2) by (auto simp: first_free_append)
  have lf3: "lfree h3 = first_free (ws @ (p, c, False) # zs)"
    using w lf2 first_free_lt [OF B(6)] by (auto simp: first_free_append)
  have "inuse (ws @ (p, c, False) # zs) + (b - a) = inuse (xs @ (a, b, True) # ys)" using z w by auto
  then have "mem_inuse h = of_nat (inuse (ws @ (p, c, False) # zs)) + of_nat (b - a)" unfolding iu by (metis of_nat_add)
  moreover have "(of_nat b :: u16) - of_nat a = of_nat (b - a)" using B(2) by (simp add: of_nat_diff)
  ultimately have "mem_inuse h3 = of_nat (inuse (ws @ (p, c, False) # zs))"
    using h3(4) h2(4) by (simp add: h1_def)
  with h3(2) sp3 lf3 have "heap_blocks (ws @ (p, c, False) # zs) h3" by (simp add: heap_blocks_def)
  moreover have "used_blocks (ws @ (p, c, False) # zs) = used_blocks xs \<union> used_blocks ys" using z w by auto
  moreover have "starts zs \<subseteq> starts ys" using z by auto
  then have "touches (starts (xs @ (a, b, True) # ys)) (ram h) (ram h3)"
    using touches_trans [OF touches_trans [OF r1(3) h2(3)] h3(3)] by (rule_tac touches_mono) auto
  ultimately show ?thesis using e \<open>plug_holes a h1 = Some h3\<close> by auto
qed

section \<open>Allocation\<close>

lemma and_not_3: "(x :: u32) AND NOT 3 = push_bit 2 (drop_bit 2 x)"
proof -
  have "(3 :: u32) = mask 2" by (simp add: mask_eq_exp_minus_1)
  moreover have "x AND NOT (mask 2) = push_bit 2 (drop_bit 2 x)"
  proof (rule bit_eqI)
    fix n
    assume n: "possible_bit TYPE(32 word) n"
    show "bit (x AND NOT (mask 2)) n = bit (push_bit 2 (drop_bit 2 x)) n"
    proof (cases "n < 2")
      case False
      then obtain j where "n = 2 + j" by (metis le_Suc_ex not_less)
      then show ?thesis using n by (simp add: bit_simps)
    qed (use n in \<open>simp add: bit_simps\<close>)
  qed
  ultimately show ?thesis by simp
qed

lemma unat_ucast_u32: "unat (ucast (n :: u16) :: u32) = unat n"
  using unat_u16_bound [of n] by (simp add: unsigned_ucast_eq take_bit_nat_eq_self)

lemma unat_ucast_low: "unat (ucast (n :: u32) :: u16) = unat n mod 65536"
  by (simp add: unsigned_ucast_eq take_bit_eq_mod)

lemma unat_align: "unat (LWIP_MEM_ALIGN_SIZE n) = (unat n + 3) div 4 * 4 mod 65536"
proof -
  have n: "unat n < 65536" using unat_u16_bound [of n] by simp
  let ?x = "ucast n + 3 :: u32"
  have x: "unat ?x = unat n + 3" using n by (simp add: unat_word_ariths unat_ucast_u32)
  have d: "unat (drop_bit 2 ?x) = (unat n + 3) div 4" unfolding unat_drop_bit_eq x by (simp add: drop_bit_eq_div)
  have "unat (push_bit 2 (drop_bit 2 ?x)) = (unat n + 3) div 4 * 4"
    using n d by (simp add: push_bit_eq_mult unat_word_ariths)
  then show ?thesis unfolding LWIP_MEM_ALIGN_SIZE_def and_not_3 unat_ucast_low by (simp only:)
qed

lemma block_size_Some:
  assumes "block_size n = Some s"
  shows "12 \<le> unat s" and "unat s \<le> 10240" and "unat s mod 4 = 0" and "unat n \<le> unat s"
proof -
  let ?x = "LWIP_MEM_ALIGN_SIZE n"
  have "(unat n + 3) div 4 * 4 mod 65536 mod 4 = 0" by (simp add: mod_mod_cancel)
  then have m: "unat ?x mod 4 = 0" by (simp only: unat_align)
  have "s = (if unat ?x < 12 then of_nat 12 else ?x)" "unat s \<le> 10240" "n \<le> s"
    using assms by (auto simp: block_size_def Let_def split: if_splits)
  then show "12 \<le> unat s" "unat s \<le> 10240" "unat s mod 4 = 0" "unat n \<le> unat s"
    using m by (simp_all add: word_le_nat_alt split: if_splits)
qed

lemma block_size_small:
  assumes "unat n \<le> 10240"
  shows "\<exists>s. block_size n = Some s \<and> unat s = max 12 ((unat n + 3) div 4 * 4)"
proof -
  let ?x = "LWIP_MEM_ALIGN_SIZE n"
  have le: "(unat n + 3) div 4 * 4 \<le> 10240" "unat n \<le> (unat n + 3) div 4 * 4" using assms by presburger+
  then have x: "unat ?x = (unat n + 3) div 4 * 4" by (simp add: unat_align)
  define s where "s = (if unat ?x < 12 then of_nat 12 else ?x)"
  have s: "unat s = max 12 ((unat n + 3) div 4 * 4)" using x by (auto simp: s_def)
  then have "\<not> s < n" "\<not> unat s > 10240" using le by (auto simp: word_less_nat_alt)
  then have "block_size n = Some s" unfolding block_size_def s_def [symmetric] Let_def by simp
  then show ?thesis using s by blast
qed

lemma unat_room:
  assumes "a + 20 \<le> b" and "b \<le> 10240"
  shows "unat (ucast (of_nat b :: u16) - (of_nat a + of_nat 8) :: u32) = b - (a + 8)"
proof -
  have "(ucast (of_nat b :: u16) :: u32) = of_nat b" 
    using assms unat_ucast_u32 [of "of_nat b"] by (simp add: unat_of_nat word_unat_eq_iff)
  then have "(ucast (of_nat b :: u16) - (of_nat a + of_nat 8) :: u32) = of_nat b - of_nat (a + 8)" by simp
  also have "\<dots> = of_nat (b - (a + 8))" using assms by (intro of_nat_diff [symmetric]) simp
  finally have eq: "(ucast (of_nat b :: u16) - (of_nat a + of_nat 8) :: u32) = of_nat (b - (a + 8))" .
  show ?thesis unfolding eq unat_of_nat using assms by simp
qed

definition head_start :: "block list \<Rightarrow> nat" where
  "head_start bs = (case bs of [] \<Rightarrow> MEM_SIZE_ALIGNED | (a, b, u) # _ \<Rightarrow> a)"

lemma head_start_simps [simp]: "head_start [] = 10240" "head_start ((a, b, u) # bs) = a"
  by (simp_all add: head_start_def)

lemma chain_head: "chain p bs 10240 \<Longrightarrow> head_start bs = p"
  by (cases bs) auto

text \<open>The block with room for \<open>s\<close> bytes is taken; what is left becomes a free block if it is large enough for one.\<close>

definition taken :: "nat \<Rightarrow> nat \<Rightarrow> nat \<Rightarrow> block list" where
  "taken s a b = (if s + 20 \<le> b - (a + 8) then [(a, a + 8 + s, True), (a + 8 + s, b, False)] else [(a, b, True)])"

lemma malloc_take_rep:
  assumes r: "rep (xs @ (a, b, False) # ys) (ram h)" and s: "unat sz \<le> b - (a + 8)" "12 \<le> unat sz" "unat sz mod 4 = 0"
    and m: "get_mem a (ram h) = Some m"
  shows "\<exists>h'. malloc_take sz a m h = Some h' \<and> rep (xs @ taken (unat sz) a b @ ys) (ram h') \<and> lfree h' = lfree h \<and>
    mem_inuse h' = mem_inuse h + of_nat (inuse (taken (unat sz) a b)) \<and>
    touches (starts (xs @ taken (unat sz) a b @ ys)) (ram h) (ram h')"
proof -
  note B = rep_block [OF r]
  have mn: "mem_next m = of_nat b" using m B(1) by auto
  let ?p = "a + 8 + unat sz"
  have cond: "((ucast (mem_next m) - (of_nat a + of_nat 8) :: u32) \<ge> ucast sz + of_nat 8 + of_nat 12) \<longleftrightarrow> unat sz + 20 \<le> b - (a + 8)"
  proof -
    have "unat (ucast sz + of_nat 8 + of_nat 12 :: u32) = unat sz + 20" using s B(3) by (simp add: unat_word_ariths unat_ucast_u32)
    then show ?thesis unfolding word_le_nat_alt mn unat_room [OF B(2,3)] by simp
  qed
  have "(of_nat a + of_nat 8 + sz :: u16) = of_nat (a + 8 + unat sz)" by simp
  then have p: "unat (of_nat a + of_nat 8 + sz :: u16) = ?p" using s(1) B(2,3) by (simp only: u16_of_nat)
  show ?thesis
  proof (cases "unat sz + 20 \<le> b - (a + 8)")
    case False
    obtain r' where r': "set_used a 1 (ram h) = Some r'" "rep (xs @ (a, b, True) # ys) r'" "touches {a} (ram h) r'"
      using flag_rep [OF r, of True] by auto
    have "touches (starts (xs @ (a, b, True) # ys)) (ram h) r'" using touches_mono [OF r'(3)] by simp
    moreover have "(of_nat b - of_nat a :: u16) = of_nat (b - a)" using B(2) by (simp add: of_nat_diff)
    ultimately show ?thesis using False r' cond mn by (simp add: malloc_take_def taken_def Let_def)
  next
    case True
    have le: "a + 20 \<le> ?p" "?p + 20 \<le> b" using True s by auto
    have pm: "?p mod 4 = 0" using s(3) B(4) by presburger
    have c: "chain 0 (xs @ (a, b, False) # ys) 10240" using r by (simp add: rep_def)
    obtain r1 where r1: "new_block a ?p (of_nat b) (ram h) = Some r1" "touches {a, ?p} (ram h) r1"
        "hdrs r1 0 (xs @ [(a, ?p, False), (?p, b, False)])" "hdrs r1 a ys" "end_ok r1"
      using new_block_hdrs [OF c B(8,9,10,1) le] by blast
    have ga: "get_mem a r1 = Some \<lparr>mem_next = of_nat ?p, mem_prev = of_nat (last_start 0 xs), mem_used = of_bool False\<rparr>"
      using r1(3) by (simp add: hdrs_append)
    obtain r2 where r2: "set_used a 1 r1 = Some r2" "writes_at a \<lparr>mem_next = of_nat ?p, mem_prev = of_nat (last_start 0 xs), mem_used = of_bool True\<rparr> r1 r2"
      using set_used_writes [OF ga, of 1] by auto
    have t2: "touches {a} r1 r2" by (rule writes_touches [OF r2(2)])
    have gp: "get_mem ?p r2 = Some \<lparr>mem_next = of_nat b, mem_prev = of_nat a, mem_used = of_bool False\<rparr>"
      using touches_get [OF t2, of ?p] r1(3) le by (simp add: hdrs_append)
    have "hdrs r2 0 xs" using hdrs_before [OF t2 B(6)] r1(3) by (simp add: hdrs_append)
    then have h2: "hdrs r2 0 ((xs @ [(a, ?p, True)]) @ [(?p, b, False)])" using r2(2) gp by (simp add: hdrs_append writes_at_def)
    have h3: "hdrs r2 a ys" "end_ok r2" using hdrs_after [OF t2 B(7)] touches_end [OF t2] r1(4,5) B(2,3) by simp_all
    have c2: "chain 0 ((xs @ [(a, ?p, True)]) @ (?p, b, False) # ys) 10240"
      using B(4,6,7) le pm by (auto simp: chain_append)
    obtain r3 where r3: "link_back ?p ?p r2 = Some r3" "rep ((xs @ [(a, ?p, True)]) @ (?p, b, False) # ys) r3"
        "touches (if ys = [] then {} else {b}) r2 r3"
      using link_back_rep [OF c2 h2 h3 gp] by auto
    have "touches (({a, ?p} \<union> {a}) \<union> (if ys = [] then {} else {b})) (ram h) r3"
      using touches_trans [OF touches_trans [OF r1(2) t2] r3(3)] .
    then have "touches (starts (xs @ taken (unat sz) a b @ ys)) (ram h) r3"
      using True B(7) by (elim touches_mono) (cases ys, auto simp: taken_def)
    moreover have "?p \<noteq> 10240" using le B(3) by simp
    moreover have "rep (xs @ taken (unat sz) a b @ ys) r3" using r3(2) True by (simp add: taken_def)
    moreover have "of_nat (inuse (taken (unat sz) a b)) = (sz + 8 :: u16)" using True by (simp add: taken_def)
    ultimately show ?thesis using True cond mn p r1(1) r2(1) r3(1) by (simp add: malloc_take_def Let_def del: of_nat_add)
  qed
qed

lemma next_free_spec: "chain p bs 10240 \<Longrightarrow> hdrs r pv bs \<Longrightarrow> end_ok r \<Longrightarrow> next_free p r = Some (first_free bs)"
proof (induction bs arbitrary: p pv)
  case Nil
  then show ?case by (subst next_free.simps) (simp add: end_ok_def)
next
  case (Cons t bs)
  obtain a b u where t: "t = (a, b, u)" by (cases t)
  have "b \<le> 10240" using Cons.prems(1) t chain_le by auto
  then show ?case using Cons t by (subst next_free.simps) (auto simp: u16_of_nat)
qed

lemma taken_simps:
  assumes "a + 20 \<le> b" and "s \<le> b - (a + 8)"
  shows "first_free (taken s a b @ ys) = (if s + 20 \<le> b - (a + 8) then a + 8 + s else first_free ys)"
    and "used_blocks (taken s a b) = {(a, if s + 20 \<le> b - (a + 8) then a + 8 + s else b)}"
    and "hd (taken s a b @ ys) = hd (taken s a b)" and "blk_used (hd (taken s a b))" and "taken s a b \<noteq> []"
  by (simp_all add: taken_def)

lemma malloc_fit:
  assumes hb: "heap_blocks (xs @ (a, b, False) # ys) h" and s: "unat sz \<le> b - (a + 8)" "12 \<le> unat sz" "unat sz mod 4 = 0"
    and m: "get_mem a (ram h) = Some m"
  shows "\<exists>h1 h'. malloc_take sz a m h = Some h1 \<and> malloc_adjust_lfree a h1 = Some h' \<and> heap_blocks (xs @ taken (unat sz) a b @ ys) h' \<and>
    touches (starts (xs @ taken (unat sz) a b @ ys)) (ram h) (ram h')"
proof -
  have r: "rep (xs @ (a, b, False) # ys) (ram h)" and sp: "spaced (xs @ (a, b, False) # ys)"
    and lf: "lfree h = first_free (xs @ (a, b, False) # ys)" and iu: "mem_inuse h = of_nat (inuse (xs @ (a, b, False) # ys))"
    using hb by (simp_all add: heap_blocks_def)
  note B = rep_block [OF r]
  let ?bs = "xs @ taken (unat sz) a b @ ys"
  obtain h1 where h1: "malloc_take sz a m h = Some h1" "rep ?bs (ram h1)" "lfree h1 = lfree h"
      "mem_inuse h1 = mem_inuse h + of_nat (inuse (taken (unat sz) a b))" "touches (starts ?bs) (ram h) (ram h1)"
    using malloc_take_rep [OF r s m] by blast
  have c: "chain a (taken (unat sz) a b @ ys) 10240" "hdrs (ram h1) (last_start 0 xs) (taken (unat sz) a b @ ys)" "end_ok (ram h1)"
    using h1(2) B(6) by (auto simp: rep_def chain_append hdrs_append taken_def split: if_splits)
  have sp': "spaced ?bs" using sp by (auto simp: spaced_simps taken_def)
  have iu': "mem_inuse h1 = of_nat (inuse ?bs)" using iu h1(4) by simp
  show ?thesis
  proof (cases "list_all blk_used xs")
    case True
    then have "lfree h1 = a" using lf h1(3) by (simp add: first_free_append)
    then have "malloc_adjust_lfree a h1 = Some (h1\<lparr>lfree := first_free ?bs\<rparr>)"
      using next_free_spec [OF c] True by (simp add: malloc_adjust_lfree_def first_free_append)
    then show ?thesis using h1 sp' iu' by (simp add: heap_blocks_def)
  next
    case False
    with first_free_lt [OF B(6)] have "first_free xs < a" by blast
    then have "lfree h1 \<noteq> a" "lfree h1 = first_free ?bs" using lf h1(3) False by (simp_all add: first_free_append)
    then show ?thesis using h1 sp' iu' by (simp add: heap_blocks_def malloc_adjust_lfree_def)
  qed
qed

text \<open>First fit: the first free block from the start of the search that is large enough.\<close>

definition fits :: "nat \<Rightarrow> block \<Rightarrow> bool" where
  "fits s t \<longleftrightarrow> (case t of (a, b, u) \<Rightarrow> \<not> u \<and> s \<le> b - (a + 8))"

text \<open>The three ways of one round: too far up for the request, a block that fits, and a block to be passed over.\<close>

lemma malloc_loop_above:
  assumes "rep (xs @ (a, b, u) # ys) r" and "\<not> a < 10240 - unat sz"
  shows "\<not> list_ex (fits (unat sz)) ((a, b, u) # ys)" and "malloc_loop sz a h = Some (None, h\<lparr>mem_err := mem_err h + 1\<rparr>)"
proof -
  have c: "chain a ((a, b, u) # ys) 10240" using assms(1) rep_block(6) [OF assms(1)] by (auto simp: rep_def chain_append)
  have "\<not> fits (unat sz) x" if x: "x \<in> set ((a, b, u) # ys)" for x
  proof -
    obtain a' b' u' where x': "x = (a', b', u')" by (cases x)
    from chain_block [OF c, of a' b' u'] x x' assms(2) show ?thesis by (auto simp: fits_def)
  qed
  then show "\<not> list_ex (fits (unat sz)) ((a, b, u) # ys)" unfolding list_ex_iff by blast
  show "malloc_loop sz a h = Some (None, h\<lparr>mem_err := mem_err h + 1\<rparr>)" using assms(2) by (subst malloc_loop.simps) simp
qed

lemma malloc_loop_fit:
  assumes "heap_blocks (xs @ (a, b, False) # ys) h" and "12 \<le> unat sz" "unat sz mod 4 = 0" and "a < 10240 - unat sz" and "unat sz \<le> b - (a + 8)"
  shows "\<exists>h'. malloc_loop sz a h = Some (Some (int (a + 8)), h') \<and> heap_blocks (xs @ taken (unat sz) a b @ ys) h' \<and>
    touches (starts (xs @ taken (unat sz) a b @ ys)) (ram h) (ram h')"
proof -
  have r: "rep (xs @ (a, b, False) # ys) (ram h)" using assms(1) by (simp add: heap_blocks_def)
  note B = rep_block [OF r]
  obtain m where m: "get_mem a (ram h) = Some m" "m = \<lparr>mem_next = of_nat b, mem_prev = of_nat (last_start 0 xs), mem_used = of_bool False\<rparr>"
    using B(1) by auto
  have room: "(ucast (of_nat b :: u16) - (of_nat a + of_nat 8) :: u32) \<ge> ucast sz"
    unfolding word_le_nat_alt unat_room [OF B(2,3)] unat_ucast_u32 using assms(5) .
  obtain h1 h' where h: "malloc_take sz a m h = Some h1" "malloc_adjust_lfree a h1 = Some h'"
      "heap_blocks (xs @ taken (unat sz) a b @ ys) h'" "touches (starts (xs @ taken (unat sz) a b @ ys)) (ram h) (ram h')"
    using malloc_fit [OF assms(1) _ assms(2,3)] m assms(5) by blast
  have "a + 8 + unat sz \<le> 10240" "(a + 8) mod 4 = 0" using assms(5) B(2,3,4) by (auto simp: mod_add_eq [symmetric])
  then have "malloc_loop sz a h = Some (Some (int (a + 8)), h')"
    using assms(4) room m B(4) h(1,2) by (subst malloc_loop.simps) simp
  then show ?thesis using h(3,4) by blast
qed

lemma malloc_loop_pass:
  assumes "rep (xs @ (a, b, u) # ys) (ram h)" and "a < 10240 - unat sz" and "\<not> (\<not> u \<and> unat sz \<le> b - (a + 8))"
  shows "malloc_loop sz a h = malloc_loop sz (head_start ys) h"
proof -
  note B = rep_block [OF assms(1)]
  have room: "((ucast (of_nat b :: u16) - (of_nat a + of_nat 8) :: u32) \<ge> ucast sz) \<longleftrightarrow> unat sz \<le> b - (a + 8)"
    unfolding word_le_nat_alt unat_room [OF B(2,3)] unat_ucast_u32 ..
  have "malloc_loop sz a h = malloc_loop sz b h" using assms(2,3) room B(1,12) by (subst malloc_loop.simps) auto
  then show ?thesis using chain_head [OF B(7)] by simp
qed

lemma malloc_loop_spec:
  assumes "heap_blocks (xs @ ys) h" and s: "12 \<le> unat sz" "unat sz mod 4 = 0" "unat sz \<le> 10240"
  shows "(\<exists>ws a b zs h'. ys = ws @ (a, b, False) # zs \<and> unat sz \<le> b - (a + 8) \<and>
      malloc_loop sz (head_start ys) h = Some (Some (int (a + 8)), h') \<and> heap_blocks (xs @ ws @ taken (unat sz) a b @ zs) h' \<and>
      touches (starts (xs @ ws @ taken (unat sz) a b @ zs)) (ram h) (ram h')) \<or>
    malloc_loop sz (head_start ys) h = Some (None, h\<lparr>mem_err := mem_err h + 1\<rparr>) \<and> \<not> list_ex (fits (unat sz)) ys"
  using assms(1)
proof (induction ys arbitrary: xs)
  case Nil
  have "\<not> 10240 < 10240 - unat sz" by arith
  then have "malloc_loop sz 10240 h = Some (None, h\<lparr>mem_err := mem_err h + 1\<rparr>)" by (subst malloc_loop.simps) simp
  then show ?case by simp
next
  case (Cons t ys)
  obtain a b u where t: "t = (a, b, u)" by (cases t)
  have r: "rep (xs @ (a, b, u) # ys) (ram h)" using Cons.prems t by (simp add: heap_blocks_def)
  show ?case
  proof (cases "a < 10240 - unat sz")
    case False
    then show ?thesis using malloc_loop_above [OF r] t by simp
  next
    case lt: True
    show ?thesis
    proof (cases "\<not> u \<and> unat sz \<le> b - (a + 8)")
      case True
      then obtain h' where h: "malloc_loop sz a h = Some (Some (int (a + 8)), h')" "heap_blocks (xs @ taken (unat sz) a b @ ys) h'"
          "touches (starts (xs @ taken (unat sz) a b @ ys)) (ram h) (ram h')"
        using malloc_loop_fit [of xs a b ys h sz] Cons.prems t s(1,2) lt by auto
      then show ?thesis using True t by (intro disjI1 exI [of _ "[]"] exI [of _ a] exI [of _ b] exI [of _ ys] exI [of _ h']) simp
    next
      case False
      note loop = malloc_loop_pass [OF r lt False]
      have nf: "\<not> fits (unat sz) t" using False t by (simp add: fits_def)
      have hb: "heap_blocks ((xs @ [t]) @ ys) h" using Cons.prems by simp
      from Cons.IH [OF hb] show ?thesis
      proof (elim disjE exE conjE)
        fix ws a' b' zs h'
        assume *: "ys = ws @ (a', b', False) # zs" "unat sz \<le> b' - (a' + 8)" "malloc_loop sz (head_start ys) h = Some (Some (int (a' + 8)), h')"
          "heap_blocks ((xs @ [t]) @ ws @ taken (unat sz) a' b' @ zs) h'" "touches (starts ((xs @ [t]) @ ws @ taken (unat sz) a' b' @ zs)) (ram h) (ram h')"
        have "t # ys = (t # ws) @ (a', b', False) # zs" "malloc_loop sz (head_start (t # ys)) h = Some (Some (int (a' + 8)), h')"
          "heap_blocks (xs @ (t # ws) @ taken (unat sz) a' b' @ zs) h'" "touches (starts (xs @ (t # ws) @ taken (unat sz) a' b' @ zs)) (ram h) (ram h')"
          using * loop t by simp_all
        then show ?thesis using *(2) by blast
      next
        assume "malloc_loop sz (head_start ys) h = Some (None, h\<lparr>mem_err := mem_err h + 1\<rparr>)" "\<not> list_ex (fits (unat sz)) ys"
        then show ?thesis using loop nf t by simp
      qed
    qed
  qed
qed

lemma first_free_split: "\<exists>xs ys. bs = xs @ ys \<and> list_all blk_used xs \<and> first_free bs = head_start ys"
proof (induction bs rule: first_free.induct)
  case 1
  then show ?case by simp
next
  case (2 a b u bs)
  show ?case
  proof (cases u)
    case True
    with 2 obtain xs ys where "bs = xs @ ys" "list_all blk_used xs" "first_free bs = head_start ys" by blast
    then have "(a, b, u) # bs = ((a, b, u) # xs) @ ys \<and> list_all blk_used ((a, b, u) # xs) \<and> first_free ((a, b, u) # bs) = head_start ys"
      using True by simp
    then show ?thesis by blast
  next
    case False
    then show ?thesis by (intro exI [of _ "[]"] exI [of _ "(a, b, u) # bs"]) simp
  qed
qed

lemma mem_malloc_blocks:
  assumes hb: "heap_blocks bs h"
  shows "(\<exists>xs a b ys h' s. bs = xs @ (a, b, False) # ys \<and> block_size n = Some s \<and> unat s \<le> b - (a + 8) \<and>
      mem_malloc n h = Some (Some (int (a + 8)), h') \<and> heap_blocks (xs @ taken (unat s) a b @ ys) h' \<and>
      touches (starts (xs @ taken (unat s) a b @ ys)) (ram h) (ram h')) \<or>
    (\<exists>h'. mem_malloc n h = Some (None, h') \<and> heap_blocks bs h' \<and> ram h' = ram h \<and>
      (n \<noteq> 0 \<longrightarrow> (\<forall>s. block_size n = Some s \<longrightarrow> \<not> list_ex (fits (unat s)) bs)))"
proof (cases "n = 0 \<or> block_size n = None")
  case True
  then have "mem_malloc n h = Some (None, h)" by (auto simp: mem_malloc_def)
  then show ?thesis using True hb by auto
next
  case False
  then obtain s where n: "n \<noteq> 0" and s: "block_size n = Some s" by auto
  note S = block_size_Some [OF s]
  obtain xs ys where x: "bs = xs @ ys" "list_all blk_used xs" "first_free bs = head_start ys" using first_free_split by blast
  have e: "mem_malloc n h = malloc_loop s (head_start ys) h" using n s hb x(3) by (simp add: mem_malloc_def heap_blocks_def)
  have hb': "heap_blocks (xs @ ys) h" using hb x(1) by simp
  from malloc_loop_spec [OF hb' S(1,3,2)] show ?thesis
  proof (elim disjE exE conjE)
    fix ws a b zs h'
    assume *: "ys = ws @ (a, b, False) # zs" "unat s \<le> b - (a + 8)" "malloc_loop s (head_start ys) h = Some (Some (int (a + 8)), h')"
      "heap_blocks (xs @ ws @ taken (unat s) a b @ zs) h'" "touches (starts (xs @ ws @ taken (unat s) a b @ zs)) (ram h) (ram h')"
    then have "bs = (xs @ ws) @ (a, b, False) # zs" "heap_blocks ((xs @ ws) @ taken (unat s) a b @ zs) h'"
      "touches (starts ((xs @ ws) @ taken (unat s) a b @ zs)) (ram h) (ram h')" using x(1) by simp_all
    moreover have "mem_malloc n h = Some (Some (int (a + 8)), h')" using *(3) e by simp
    ultimately show ?thesis using *(2) s by blast
  next
    assume *: "malloc_loop s (head_start ys) h = Some (None, h\<lparr>mem_err := mem_err h + 1\<rparr>)" "\<not> list_ex (fits (unat s)) ys"
    have "\<not> list_ex (fits (unat s)) xs" using x(2) by (auto simp: list_ex_iff list_all_iff fits_def)
    then show ?thesis using * e s hb x(1) by (auto simp: heap_blocks_def)
  qed
qed

section \<open>Shrinking a block, and the start\<close>

lemma cut_rep:
  assumes c: "chain 0 (xs @ (a, c, u) # ys) 10240" and h: "hdrs r 0 xs" "hdrs r z ys" "end_ok r"
    and a: "get_mem a r = Some \<lparr>mem_next = n, mem_prev = of_nat (last_start 0 xs), mem_used = of_bool u\<rparr>"
    and p: "a + 20 \<le> p" "p + 20 \<le> c" "p mod 4 = 0"
  shows "\<exists>r1 r2. new_block a p (of_nat c) r = Some r1 \<and> link_back p p r1 = Some r2 \<and> rep (xs @ (a, p, u) # (p, c, False) # ys) r2 \<and>
    touches (starts (xs @ (a, p, u) # (p, c, False) # ys)) r r2"
proof -
  obtain r1 where r1: "new_block a p (of_nat c) r = Some r1" "touches {a, p} r r1" "hdrs r1 0 ((xs @ [(a, p, u)]) @ [(p, c, False)])"
      "hdrs r1 z ys" "end_ok r1"
    using new_block_hdrs [OF c h a p(1,2)] by auto
  have g: "get_mem p r1 = Some \<lparr>mem_next = of_nat c, mem_prev = of_nat a, mem_used = of_bool False\<rparr>" using r1(3) by (simp add: hdrs_append)
  have cc: "chain c ys 10240" and c2: "chain 0 ((xs @ [(a, p, u)]) @ (p, c, False) # ys) 10240" using c p by (auto simp: chain_append)
  obtain r2 where r2: "link_back p p r1 = Some r2" "rep ((xs @ [(a, p, u)]) @ (p, c, False) # ys) r2" "touches (if ys = [] then {} else {c}) r1 r2"
    using link_back_rep [OF c2 r1(3,4,5) g] by auto
  have "touches ({a, p} \<union> (if ys = [] then {} else {c})) r r2" using touches_trans [OF r1(2) r2(3)] .
  then have "touches (starts (xs @ (a, p, u) # (p, c, False) # ys)) r r2" using cc by (elim touches_mono) (cases ys, auto)
  then show ?thesis using r1(1) r2(1,2) by auto
qed

text \<open>The sizes that \<open>mem_trim\<close> computes.\<close>

lemma trim_sizes:
  assumes "a + 20 \<le> b" "b \<le> 10240" "a mod 4 = 0" "b mod 4 = 0" and n: "unat n \<le> b - a - 8"
  obtains s where "block_size n = Some s" "12 \<le> unat s" "unat n \<le> unat s" "unat s mod 4 = 0" "unat s \<le> b - a - 8"
    "unat (of_nat b - of_nat a - of_nat 8 :: u16) = b - a - 8" "unat (of_nat a + of_nat 8 + s :: u16) = a + 8 + unat s"
    "of_nat b - of_nat a - of_nat 8 - s = (of_nat (b - (a + 8 + unat s)) :: u16)"
proof -
  have "unat n \<le> 10240" using n assms(2) by simp
  then obtain s where s: "block_size n = Some s" "unat s = max 12 ((unat n + 3) div 4 * 4)" using block_size_small by blast
  note S = block_size_Some [OF s(1)]
  have "(b - a - 8) mod 4 = 0" using assms by presburger
  then have "(unat n + 3) div 4 * 4 \<le> b - a - 8" using n by presburger
  then have le: "unat s \<le> b - a - 8" using s(2) assms(1) by simp
  have eq: "of_nat b - of_nat a - of_nat 8 = (of_nat (b - a - 8) :: u16)" using assms(1) by (simp add: of_nat_diff)
  then have u: "unat (of_nat b - of_nat a - of_nat 8 :: u16) = b - a - 8" using assms(2) by (simp only: u16_of_nat)
  have "(of_nat a + of_nat 8 + s :: u16) = of_nat (a + 8 + unat s)" by simp
  then have p: "unat (of_nat a + of_nat 8 + s :: u16) = a + 8 + unat s" using le assms(1,2) by (simp only: u16_of_nat)
  have "of_nat (b - a - 8) - s = (of_nat (b - a - 8) - of_nat (unat s) :: u16)" by simp
  also have "\<dots> = of_nat (b - a - 8 - unat s)" using le by (rule of_nat_diff [symmetric])
  also have "b - a - 8 - unat s = b - (a + 8 + unat s)" by simp
  finally have "of_nat b - of_nat a - of_nat 8 - s = (of_nat (b - (a + 8 + unat s)) :: u16)" unfolding eq .
  from that [OF s(1) S(1,4,3) le u p this] show ?thesis .
qed

lemma mem_trim_eval:
  assumes r: "rep (xs @ (a, b, True) # ys) (ram h)" and b: "b \<noteq> 10240" and s: "block_size n = Some s" "unat s \<le> b - a - 8"
    and u: "unat (of_nat b - of_nat a - of_nat 8 :: u16) = b - a - 8" "unat (of_nat a + of_nat 8 + s :: u16) = a + 8 + unat s"
    and p: "p = a + 8 + unat s" and sz: "sz = of_nat b - of_nat a - of_nat 8"
  shows "mem_trim (int (a + 8)) n h = (if s = sz then Some (Some (int (a + 8)), h) else do {
      m2 \<leftarrow> get_mem b (ram h);
      if mem_used m2 = 0 then do {
        r \<leftarrow> new_block a p (mem_next m2) (ram h);
        r \<leftarrow> link_back p p r;
        Some (Some (int (a + 8)), h\<lparr>ram := r, lfree := (if lfree h = b then p else lfree h), mem_inuse := mem_inuse h - (sz - s)\<rparr>) }
      else if p + 20 \<le> b then do {
        r \<leftarrow> new_block a p (of_nat b) (ram h);
        r \<leftarrow> link_back p p r;
        Some (Some (int (a + 8)), h\<lparr>ram := r, lfree := (if p < lfree h then p else lfree h), mem_inuse := mem_inuse h - (sz - s)\<rparr>) }
      else Some (Some (int (a + 8)), h) })"
proof -
  note B = rep_block [OF r]
  have le: "s \<le> sz" using s(2) u(1) by (simp add: word_le_nat_alt sz)
  have room: "unat s + 8 + 12 \<le> unat sz \<longleftrightarrow> p + 20 \<le> b" using u(1) B(2) by (auto simp: sz p)
  have ptr: "int (a + 8) - int 8 = int a" "int (a + 8) < int 10240" using B(2,3) by simp_all
  show ?thesis
    unfolding mem_trim_def s(1) option.case ptr(1) Let_def
    using ptr(2) B(1,12) b le room sz [symmetric] u(2) by (simp add: p cong: if_cong)
qed

lemma mem_trim_blocks:
  assumes hb: "heap_blocks (xs @ (a, b, True) # (b, c, v) # ys) h" and n: "unat n \<le> b - a - 8"
  shows "\<exists>h' b' zs. mem_trim (int (a + 8)) n h = Some (Some (int (a + 8)), h') \<and> heap_blocks (xs @ (a, b', True) # zs) h' \<and>
    used_blocks zs = used_blocks ((b, c, v) # ys) \<and> b' \<le> b \<and> unat n \<le> b' - a - 8 \<and>
    touches (starts (xs @ (a, b', True) # zs)) (ram h) (ram h')"
proof -
  let ?ys = "(b, c, v) # ys"
  have r: "rep (xs @ (a, b, True) # ?ys) (ram h)" and sp: "spaced (xs @ (a, b, True) # ?ys)"
    and lf: "lfree h = first_free (xs @ (a, b, True) # ?ys)" and iu: "mem_inuse h = of_nat (inuse (xs @ (a, b, True) # ?ys))"
    using hb by (simp_all add: heap_blocks_def)
  note B = rep_block [OF r]
  have r2: "rep ((xs @ [(a, b, True)]) @ (b, c, v) # ys) (ram h)" using r by simp
  note C = rep_block [OF r2]
  obtain s where s: "block_size n = Some s" "12 \<le> unat s" "unat n \<le> unat s" "unat s mod 4 = 0" "unat s \<le> b - a - 8"
      and u: "unat (of_nat b - of_nat a - of_nat 8 :: u16) = b - a - 8" "unat (of_nat a + of_nat 8 + s :: u16) = a + 8 + unat s"
        "of_nat b - of_nat a - of_nat 8 - s = (of_nat (b - (a + 8 + unat s)) :: u16)"
    by (rule trim_sizes [OF B(2,3,4,5) n])
  define p where "p = a + 8 + unat s"
  define sz where "sz = (of_nat b - of_nat a - of_nat 8 :: u16)"
  have pa: "a + 20 \<le> p" "p mod 4 = 0" "p \<le> b" using s B(2,4) by (simp_all add: p_def) presburger
  have le: "s = sz \<longleftrightarrow> p = b" using s(5) u(1) B(2) by (auto simp: word_le_nat_alt word_unat_eq_iff sz_def p_def)
  have fp: "a < p" "first_free xs < a \<or> list_all blk_used xs" using pa first_free_lt [OF B(6)] by auto
  have b: "b \<noteq> 10240" using C(2,3) by simp
  have sub: "sz - s = of_nat (b - p)" using u(3) by (simp add: sz_def p_def)
  note start = mem_trim_eval [OF r b s(1,5) u(1,2) p_def sz_def]
  show ?thesis
  proof (cases "p = b \<or> v \<and> \<not> p + 20 \<le> b")
    case True
    then have "mem_trim (int (a + 8)) n h = Some (Some (int (a + 8)), h)" unfolding start using C(1) le by auto
    then show ?thesis using hb n by (intro exI [of _ h] exI [of _ b] exI [of _ ?ys]) simp
  next
    case False
    define d zs z where "d = (if v then b else c)" and "zs = (if v then ?ys else ys)" and "z = (if v then a else b)"
    have ch: "chain 0 (xs @ (a, d, True) # zs) 10240" using r B(6) C(2,7) by (auto simp: rep_def chain_append d_def zs_def)
    have hz: "hdrs (ram h) z zs" using B(9) by (auto simp: zs_def z_def)
    have pd: "p + 20 \<le> d" using False pa(3) C(2) by (auto simp: d_def)
    obtain r1 r2 where cut: "new_block a p (of_nat d) (ram h) = Some r1" "link_back p p r1 = Some r2"
        "rep (xs @ (a, p, True) # (p, d, False) # zs) r2" "touches (starts (xs @ (a, p, True) # (p, d, False) # zs)) (ram h) r2"
      using cut_rep [OF ch B(8) hz B(10) B(1) pa(1) pd pa(2)] by blast
    define lf' where "lf' = (if v then if p < lfree h then p else lfree h else if lfree h = b then p else lfree h)"
    have lf': "lf' = first_free (xs @ (a, p, True) # (p, d, False) # zs)"
      using lf fp pa(3) B(2) first_free_ge [OF C(7)] C(2) by (auto simp: lf'_def first_free_append)
    have sp': "spaced (xs @ (a, p, True) # (p, d, False) # zs)" using sp by (auto simp: spaced_simps zs_def)
    have "inuse (xs @ (a, b, True) # ?ys) = inuse (xs @ (a, p, True) # (p, d, False) # zs) + (b - p)" using pa by (auto simp: zs_def)
    then have "mem_inuse h - (sz - s) = of_nat (inuse (xs @ (a, p, True) # (p, d, False) # zs))" unfolding iu sub by simp
    with cut(3) sp' lf' have "heap_blocks (xs @ (a, p, True) # (p, d, False) # zs) (h\<lparr>ram := r2, lfree := lf', mem_inuse := mem_inuse h - (sz - s)\<rparr>)"
      by (simp add: heap_blocks_def)
    moreover have "mem_trim (int (a + 8)) n h = Some (Some (int (a + 8)), h\<lparr>ram := r2, lfree := lf', mem_inuse := mem_inuse h - (sz - s)\<rparr>)"
      unfolding start using False le C(1) cut(1,2) by (auto simp: d_def lf'_def)
    moreover have "used_blocks ((p, d, False) # zs) = used_blocks ?ys" by (simp add: zs_def)
    moreover have "unat n \<le> p - a - 8" using s(3) by (simp add: p_def)
    ultimately show ?thesis using cut(4) pa(3)
      by (intro exI [of _ "h\<lparr>ram := r2, lfree := lf', mem_inuse := mem_inuse h - (sz - s)\<rparr>"] exI [of _ p] exI [of _ "(p, d, False) # zs"]) simp
  qed
qed

lemma mem_trim_top:
  assumes hb: "heap_blocks (xs @ [(a, 10240, True)]) h" and n: "block_size n = Some s" "unat s + 20 \<le> 10240 - a - 8"
  shows "mem_trim (int (a + 8)) n h = None"
proof -
  have r: "rep (xs @ [(a, 10240, True)]) (ram h)" using hb by (simp add: heap_blocks_def)
  note B = rep_block [OF r]
  define sz where "sz = (of_nat 10240 - of_nat a - of_nat 8 :: u16)"
  have "sz = of_nat (10240 - a - 8)" using B(2) by (simp add: sz_def of_nat_diff)
  then have sz: "unat sz = 10240 - a - 8" by (simp only: u16_of_nat)
  then have c: "s \<le> sz" "s \<noteq> sz" "unat s + 8 + 12 \<le> unat sz" using n(2) by (auto simp: word_le_nat_alt)
  have ptr: "int (a + 8) - int 8 = int a" "int (a + 8) < int 10240" using B(2) by simp_all
  have e: "get_mem 10240 (ram h) = Some \<lparr>mem_next = of_nat 10240, mem_prev = of_nat 10240, mem_used = 1\<rparr>" using B(10) by (simp add: end_ok_def)
  show ?thesis unfolding mem_trim_def n(1) option.case ptr(1) Let_def
    using ptr(2) B(1,12) c e sz_def [symmetric] by (simp cong: if_cong)
qed

lemma mem_init_blocks:
  assumes "length (ram h) = 10256" and "mem_inuse h = 0"
  shows "\<exists>h'. mem_init h = Some h' \<and> heap_blocks [(0, 10240, False)] h'"
proof -
  have len: "0 + 5 \<le> length (ram h)" "10240 + 5 \<le> length (ram h)" using assms(1) by simp_all
  obtain m where m: "get_mem 0 (ram h) = Some m" using get_mem_Some [OF len(1)] by blast
  obtain r1 where r1: "set_next 0 (of_nat 10240) (ram h) = Some r1" "writes_at 0 (m\<lparr>mem_next := of_nat 10240\<rparr>) (ram h) r1" using set_next_writes [OF m] by blast
  then have "get_mem 0 r1 = Some (m\<lparr>mem_next := of_nat 10240\<rparr>)" by (simp add: writes_at_def)
  from set_prev_writes [OF this, of 0] obtain r2 where r2: "set_prev 0 0 r1 = Some r2" "writes_at 0 (m\<lparr>mem_next := of_nat 10240, mem_prev := 0\<rparr>) r1 r2" by auto
  then have "get_mem 0 r2 = Some (m\<lparr>mem_next := of_nat 10240, mem_prev := 0\<rparr>)" by (simp add: writes_at_def)
  from set_used_writes [OF this, of 0] obtain r3 where r3: "set_used 0 0 r2 = Some r3" "writes_at 0 (m\<lparr>mem_next := of_nat 10240, mem_prev := 0, mem_used := 0\<rparr>) r2 r3" by auto
  have m3: "m\<lparr>mem_next := of_nat 10240, mem_prev := 0, mem_used := 0\<rparr> = \<lparr>mem_next = of_nat 10240, mem_prev = 0, mem_used = 0\<rparr>" by (cases m) simp
  have l3: "length r3 = 10256" using r1(2) r2(2) r3(2) assms(1) by (simp add: writes_at_def)
  then obtain k where "get_mem 10240 r3 = Some k" using get_mem_Some [of 10240 r3] by auto
  from set_used_writes [OF this, of 1] obtain r4 k4 where r4: "set_used 10240 1 r3 = Some r4" "writes_at 10240 k4 r3 r4" "mem_used k4 = 1" by fastforce
  then have "get_mem 10240 r4 = Some k4" by (simp add: writes_at_def)
  from set_next_writes [OF this, of "of_nat 10240"] obtain r5 k5 where r5: "set_next 10240 (of_nat 10240) r4 = Some r5" "writes_at 10240 k5 r4 r5"
      "mem_used k5 = 1" "mem_next k5 = of_nat 10240" using r4(3) by fastforce
  then have "get_mem 10240 r5 = Some k5" by (simp add: writes_at_def)
  from set_prev_writes [OF this, of "of_nat 10240"] obtain r6 where r6: "set_prev 10240 (of_nat 10240) r5 = Some r6"
      "writes_at 10240 (k5\<lparr>mem_prev := of_nat 10240\<rparr>) r5 r6" by blast
  have "k5\<lparr>mem_prev := of_nat 10240\<rparr> = \<lparr>mem_next = of_nat 10240, mem_prev = of_nat 10240, mem_used = 1\<rparr>" using r5(3,4) by (cases k5) simp
  then have e: "end_ok r6" using r6(2) r5(2) r4(2) l3 by (simp add: end_ok_def writes_at_def)
  have "touches ({10240} \<union> {10240} \<union> {10240}) r3 r6" using r4(2) r5(2) r6(2) by (intro touches_trans writes_touches)
  then have "get_mem 0 r6 = get_mem 0 r3" by (intro touches_get) auto
  then have "rep [(0, 10240, False)] r6" using e r3(2) m3 by (simp add: rep_def writes_at_def)
  moreover have "mem_init h = Some (h\<lparr>ram := r6, lfree := 0, mem_avail := of_nat 10240\<rparr>)"
    using r1(1) r2(1) r3(1) r4(1) r5(1) r6(1) by (simp add: mem_init_def)
  ultimately show ?thesis using assms(2) by (simp add: heap_blocks_def spaced_simps)
qed

text \<open>What \<open>mem_calloc\<close> returns is filled with zeros.\<close>

lemma mem_calloc_zero:
  assumes "mem_calloc count sz h = Some (Some p, h')"
  shows "peek (nat p) (unat count * unat sz) (ram h') = Some (replicate (unat count * unat sz) 0)"
proof -
  have "unat count * unat sz \<le> 65535 * 65535"
    using unat_u16_bound [of count] unat_u16_bound [of sz] by (intro mult_le_mono) simp_all
  then have u: "unat (ucast count * ucast sz :: u32) = unat count * unat sz"
    unfolding unat_word_ariths unat_ucast_u32 by simp
  obtain h1 r where "poke (nat p) (replicate (unat count * unat sz) 0) (ram h1) = Some r" "h' = h1\<lparr>ram := r\<rparr>"
    using assms u by (auto simp: mem_calloc_def Let_def split: if_splits bind_splits option.splits)
  then show ?thesis using peek_poke_same [of "nat p" "replicate (unat count * unat sz) 0" "ram h1" r] by simp
qed

end
