(* ===== verification/Lwip_Heap_Props.thy ===== *)
theory Lwip_Heap_Props
  imports Lwip_Mem
begin

text \<open>
  The heap of lwIP for its users: the locale \<open>block_heap\<close> is the contract of an allocator over one byte memory, its lemmas follow
  owners that allocate, shrink, free and fill blocks, and the heap of \<open>Lwip_Mem\<close> provides it.
\<close>

section \<open>The interface of a heap\<close>

text \<open>The live blocks: their addresses and sizes.\<close>

type_synonym live = "nat \<Rightarrow> nat option"

definition covers :: "live \<Rightarrow> nat \<Rightarrow> bool" where
  "covers L i \<longleftrightarrow> (\<exists>p k. L p = Some k \<and> p \<le> i \<and> i < p + k)"

definition keeps :: "('s \<Rightarrow> nat \<Rightarrow> byte) \<Rightarrow> live \<Rightarrow> 's \<Rightarrow> 's \<Rightarrow> bool" where
  "keeps cell L s s' \<longleftrightarrow> (\<forall>i. covers L i \<longrightarrow> cell s' i = cell s i)"

text \<open>What the owners of blocks do: the numbers are the places of their blocks in the list of those they own.\<close>

datatype heap_op = Alloc u16 | Release nat | Shrink nat u16 | Store nat nat byte

text \<open>The owners keep the address of a block and what they believe is in it.\<close>

fun heap_run :: "(u16 \<Rightarrow> 's \<Rightarrow> (nat option \<times> 's) option) \<Rightarrow> (nat \<Rightarrow> 's \<Rightarrow> 's option) \<Rightarrow> (nat \<Rightarrow> u16 \<Rightarrow> 's \<Rightarrow> 's option) \<Rightarrow>
    ('s \<Rightarrow> nat \<Rightarrow> byte) \<Rightarrow> (nat \<Rightarrow> byte \<Rightarrow> 's \<Rightarrow> 's) \<Rightarrow> heap_op list \<Rightarrow> (nat \<times> byte list) list \<Rightarrow> 's \<Rightarrow> ((nat \<times> byte list) list \<times> 's) option" where
  "heap_run al fr tr cell put [] own s = Some (own, s)"
| "heap_run al fr tr cell put (Alloc n # ops) own s = do {
     (p, s) \<leftarrow> al n s;
     heap_run al fr tr cell put ops (case p of None \<Rightarrow> own | Some a \<Rightarrow> (a, map (\<lambda>i. cell s (a + i)) [0..<unat n]) # own) s }"
| "heap_run al fr tr cell put (Release j # ops) own s =
     (if j < length own then do { s \<leftarrow> fr (fst (own ! j)) s; heap_run al fr tr cell put ops (take j own @ drop (Suc j) own) s }
      else heap_run al fr tr cell put ops own s)"
| "heap_run al fr tr cell put (Shrink j n # ops) own s =
     (if j < length own \<and> unat n \<le> length (snd (own ! j)) then do {
        s \<leftarrow> tr (fst (own ! j)) n s;
        heap_run al fr tr cell put ops (own[j := (fst (own ! j), take (unat n) (snd (own ! j)))]) s }
      else heap_run al fr tr cell put ops own s)"
| "heap_run al fr tr cell put (Store j i b # ops) own s =
     (if j < length own \<and> i < length (snd (own ! j)) then
        heap_run al fr tr cell put ops (own[j := (fst (own ! j), (snd (own ! j))[i := b])]) (put (fst (own ! j) + i) b s)
      else heap_run al fr tr cell put ops own s)"

text \<open>The blocks of the owners are aligned, inside of the heap and apart from each other, and hold what the owners believe.\<close>

definition isolated :: "nat \<Rightarrow> ('s \<Rightarrow> nat \<Rightarrow> byte) \<Rightarrow> (nat \<times> byte list) list \<Rightarrow> 's \<Rightarrow> bool" where
  "isolated lim cell own s \<longleftrightarrow>
     (\<forall>j<length own. fst (own ! j) mod 4 = 0 \<and> fst (own ! j) + length (snd (own ! j)) \<le> lim \<and>
        (\<forall>i<length (snd (own ! j)). cell s (fst (own ! j) + i) = snd (own ! j) ! i)) \<and>
     (\<forall>j<length own. \<forall>k<length own. j \<noteq> k \<longrightarrow>
        fst (own ! j) + length (snd (own ! j)) \<le> fst (own ! k) \<or> fst (own ! k) + length (snd (own ! k)) \<le> fst (own ! j))"

locale block_heap =
  fixes al :: "u16 \<Rightarrow> 's \<Rightarrow> (nat option \<times> 's) option"
    and fr :: "nat \<Rightarrow> 's \<Rightarrow> 's option"
    and tr :: "nat \<Rightarrow> u16 \<Rightarrow> 's \<Rightarrow> 's option"
    and cell :: "'s \<Rightarrow> nat \<Rightarrow> byte"
    and put :: "nat \<Rightarrow> byte \<Rightarrow> 's \<Rightarrow> 's"
    and lim :: nat
    and invar :: "live \<Rightarrow> 's \<Rightarrow> bool"
  assumes alloc: "invar L s \<Longrightarrow> \<exists>r s'. al n s = Some (r, s') \<and> keeps cell L s s' \<and>
      (case r of None \<Rightarrow> invar L s' | Some p \<Rightarrow> \<exists>k. unat n \<le> k \<and> L p = None \<and> invar (L(p \<mapsto> k)) s')"
    and release: "invar L s \<Longrightarrow> L p = Some k \<Longrightarrow> \<exists>s'. fr p s = Some s' \<and> invar (L(p := None)) s' \<and> keeps cell (L(p := None)) s s'"
    and shrink: "invar L s \<Longrightarrow> L p = Some k \<Longrightarrow> unat n \<le> k \<Longrightarrow> tr p n s = Some s' \<Longrightarrow>
      \<exists>k'. unat n \<le> k' \<and> k' \<le> k \<and> invar (L(p \<mapsto> k')) s' \<and> keeps cell (L(p \<mapsto> k')) s s'"
    and shrink_total: "invar L s \<Longrightarrow> L p = Some k \<Longrightarrow> unat n \<le> k \<Longrightarrow> p + k \<noteq> lim \<Longrightarrow> tr p n s \<noteq> None"
    and store: "invar L s \<Longrightarrow> covers L i \<Longrightarrow> invar L (put i b s) \<and> cell (put i b s) i = b \<and> (\<forall>j. j \<noteq> i \<longrightarrow> cell (put i b s) j = cell s j)"
    and inside: "invar L s \<Longrightarrow> L p = Some k \<Longrightarrow> p mod 4 = 0 \<and> p + k \<le> lim"
    and apart: "invar L s \<Longrightarrow> L p = Some k \<Longrightarrow> L q = Some l \<Longrightarrow> p \<noteq> q \<Longrightarrow> p + k \<le> q \<or> q + l \<le> p"
    and whole: "invar Map.empty s \<Longrightarrow> 0 < unat n \<Longrightarrow> unat n + 8 \<le> lim \<Longrightarrow> \<exists>p s'. al n s = Some (Some p, s')"
begin

definition owns :: "live \<Rightarrow> 's \<Rightarrow> nat \<times> byte list \<Rightarrow> bool" where
  "owns L s t \<longleftrightarrow> (\<exists>k. L (fst t) = Some k \<and> length (snd t) \<le> k \<and> (\<forall>i<length (snd t). cell s (fst t + i) = snd t ! i))"

definition owned :: "live \<Rightarrow> (nat \<times> byte list) list \<Rightarrow> 's \<Rightarrow> bool" where
  "owned L own s \<longleftrightarrow> distinct (map fst own) \<and> dom L = fst ` set own \<and> (\<forall>t\<in>set own. owns L s t)"

lemma owns_keeps:
  assumes "owns L s t" and "keeps cell L' s s'" and "L' (fst t) = L (fst t)"
  shows "owns L' s' t"
proof -
  obtain k where k: "L (fst t) = Some k" "length (snd t) \<le> k" "\<forall>i<length (snd t). cell s (fst t + i) = snd t ! i" using assms(1) by (auto simp: owns_def)
  have "cell s' (fst t + i) = cell s (fst t + i)" if "i < length (snd t)" for i
  proof -
    have "covers L' (fst t + i)" unfolding covers_def using k(1,2) that assms(3) by (intro exI [of _ "fst t"] exI [of _ k]) simp
    then show ?thesis using assms(2) by (simp add: keeps_def)
  qed
  then show ?thesis using k assms(3) by (auto simp: owns_def)
qed

lemma alloc_owned:
  assumes "invar L s" and "owned L own s"
  shows "\<exists>r s' L'. al n s = Some (r, s') \<and> invar L' s' \<and>
    owned L' (case r of None \<Rightarrow> own | Some a \<Rightarrow> (a, map (\<lambda>i. cell s' (a + i)) [0..<unat n]) # own) s'"
proof -
  obtain r s' where a: "al n s = Some (r, s')" "keeps cell L s s'"
      "case r of None \<Rightarrow> invar L s' | Some p \<Rightarrow> \<exists>k. unat n \<le> k \<and> L p = None \<and> invar (L(p \<mapsto> k)) s'"
    using alloc [OF assms(1), of n] by blast
  have o: "\<forall>t\<in>set own. owns L s' t" using assms(2) owns_keeps [OF _ a(2)] by (auto simp: owned_def)
  show ?thesis
  proof (cases r)
    case None
    then show ?thesis using a o assms(2) by (intro exI [of _ r] exI [of _ s'] exI [of _ L]) (simp add: owned_def)
  next
    case (Some p)
    then obtain k where k: "unat n \<le> k" "L p = None" "invar (L(p \<mapsto> k)) s'" using a(3) by auto
    have "p \<notin> dom L" using k(2) by (simp add: domIff)
    then have "p \<notin> fst ` set own" using assms(2) by (simp add: owned_def)
    then have "\<forall>t\<in>set own. owns (L(p \<mapsto> k)) s' t" using o by (auto simp: owns_def)
    moreover have "owns (L(p \<mapsto> k)) s' (p, map (\<lambda>i. cell s' (p + i)) [0..<unat n])" using k(1) by (simp add: owns_def)
    ultimately show ?thesis using a(1) k(3) Some assms(2) \<open>p \<notin> fst ` set own\<close>
      by (intro exI [of _ r] exI [of _ s'] exI [of _ "L(p \<mapsto> k)"]) (auto simp: owned_def)
  qed
qed

lemma owned_nth:
  assumes "owned L own s" and "j < length own"
  shows "owns L s (own ! j)" and "\<And>t. t \<in> set (take j own @ drop (Suc j) own) \<Longrightarrow> t \<in> set own \<and> fst t \<noteq> fst (own ! j)"
    and "own = take j own @ own ! j # drop (Suc j) own"
proof -
  show own: "own = take j own @ own ! j # drop (Suc j) own" using assms(2) by (rule id_take_nth_drop)
  show "owns L s (own ! j)" using assms by (simp add: owned_def)
  fix t
  assume t: "t \<in> set (take j own @ drop (Suc j) own)"
  have "distinct (map fst (take j own @ own ! j # drop (Suc j) own))" using own assms(1) by (metis owned_def)
  then have "fst (own ! j) \<notin> fst ` set (take j own @ drop (Suc j) own)" by (simp add: image_Un)
  then have "fst t \<noteq> fst (own ! j)" using t by (metis image_eqI)
  then show "t \<in> set own \<and> fst t \<noteq> fst (own ! j)" using t by (auto dest: in_set_takeD in_set_dropD)
qed

lemma release_owned:
  assumes "invar L s" and "owned L own s" and "j < length own"
  shows "\<exists>s' L'. fr (fst (own ! j)) s = Some s' \<and> invar L' s' \<and> owned L' (take j own @ drop (Suc j) own) s'"
proof -
  note N = owned_nth [OF assms(2,3)]
  let ?p = "fst (own ! j)" and ?own = "take j own @ drop (Suc j) own"
  obtain k where "L ?p = Some k" using N(1) by (auto simp: owns_def)
  then obtain s' where s': "fr ?p s = Some s'" "invar (L(?p := None)) s'" "keeps cell (L(?p := None)) s s'" using release [OF assms(1)] by blast
  have "owns (L(?p := None)) s' t" if "t \<in> set ?own" for t
    using N(2) [OF that] assms(2) by (intro owns_keeps [OF _ s'(3)]) (auto simp: owned_def)
  moreover have "fst ` set ?own = fst ` set own - {?p}"
  proof -
    have d: "distinct (map fst (take j own @ own ! j # drop (Suc j) own))" using N(3) assms(2) by (metis owned_def)
    have "set own = insert (own ! j) (set ?own)" by (subst N(3)) auto
    moreover have "?p \<notin> fst ` set ?own" using d by (simp add: image_Un)
    ultimately show ?thesis by (simp only: image_insert) blast
  qed
  moreover have "distinct (map fst ?own)"
  proof -
    have "distinct (map fst (take j own @ own ! j # drop (Suc j) own))" using N(3) assms(2) by (metis owned_def)
    then show ?thesis by simp
  qed
  ultimately have "owned (L(?p := None)) ?own s'" using assms(2) by (auto simp: owned_def)
  then show ?thesis using s'(1,2) by blast
qed

lemma update_owned:
  assumes o: "owned L own s" and j: "j < length own" and L: "L' = L(fst (own ! j) \<mapsto> k')" and d: "owns L' s' (fst (own ! j), d)"
    and rest: "\<And>t. t \<in> set own \<Longrightarrow> fst t \<noteq> fst (own ! j) \<Longrightarrow> owns L' s' t"
  shows "owned L' (own[j := (fst (own ! j), d)]) s'"
proof -
  note N = owned_nth [OF o j]
  have u: "own[j := (fst (own ! j), d)] = take j own @ (fst (own ! j), d) # drop (Suc j) own" using j by (rule upd_conv_take_nth_drop)
  have m: "map fst (own[j := (fst (own ! j), d)]) = map fst own" using j by (simp add: map_update list_update_id) (metis list_update_id nth_map)
  then have "fst ` set (own[j := (fst (own ! j), d)]) = fst ` set own" by (metis set_map)
  moreover have "fst (own ! j) \<in> dom L" using N(1) by (auto simp: owns_def)
  then have "dom L' = dom L" using L by auto
  moreover have "owns L' s' t" if "t \<in> set (own[j := (fst (own ! j), d)])" for t
  proof (cases "t = (fst (own ! j), d)")
    case False
    then have "t \<in> set (take j own @ drop (Suc j) own)" using that unfolding u by auto
    from N(2) [OF this] show ?thesis using rest by blast
  qed (use d in simp)
  ultimately show ?thesis using o m by (simp add: owned_def)
qed

end

context block_heap
begin

lemma shrink_owned:
  assumes "invar L s" and "owned L own s" and "j < length own" and n: "unat n \<le> length (snd (own ! j))" and t: "tr (fst (own ! j)) n s = Some s'"
  shows "\<exists>L'. invar L' s' \<and> owned L' (own[j := (fst (own ! j), take (unat n) (snd (own ! j)))]) s'"
proof -
  let ?p = "fst (own ! j)"
  obtain k where k: "L ?p = Some k" "length (snd (own ! j)) \<le> k" "\<forall>i<length (snd (own ! j)). cell s (?p + i) = snd (own ! j) ! i"
    using owned_nth(1) [OF assms(2,3)] by (auto simp: owns_def)
  then have "unat n \<le> k" using n by simp
  from shrink [OF assms(1) k(1) this t] obtain k' where k': "unat n \<le> k'" "invar (L(?p \<mapsto> k')) s'" "keeps cell (L(?p \<mapsto> k')) s s'" by blast
  have "owns (L(?p \<mapsto> k')) s (?p, take (unat n) (snd (own ! j)))" using k k'(1) n by (auto simp: owns_def)
  then have "owns (L(?p \<mapsto> k')) s' (?p, take (unat n) (snd (own ! j)))" by (rule owns_keeps [OF _ k'(3)]) simp
  moreover have "owns (L(?p \<mapsto> k')) s' u" if "u \<in> set own" "fst u \<noteq> ?p" for u
    using that assms(2) by (intro owns_keeps [OF _ k'(3)]) (auto simp: owned_def)
  ultimately have "owned (L(?p \<mapsto> k')) (own[j := (?p, take (unat n) (snd (own ! j)))]) s'"
    by (intro update_owned [OF assms(2,3) refl])
  then show ?thesis using k'(2) by blast
qed

lemma store_owned:
  assumes "invar L s" and "owned L own s" and "j < length own" and i: "i < length (snd (own ! j))"
  shows "\<exists>L'. invar L' (put (fst (own ! j) + i) b s) \<and> owned L' (own[j := (fst (own ! j), (snd (own ! j))[i := b])]) (put (fst (own ! j) + i) b s)"
proof -
  let ?p = "fst (own ! j)"
  obtain k where k: "L ?p = Some k" "length (snd (own ! j)) \<le> k" "\<forall>i<length (snd (own ! j)). cell s (?p + i) = snd (own ! j) ! i"
    using owned_nth(1) [OF assms(2,3)] by (auto simp: owns_def)
  then have "covers L (?p + i)" unfolding covers_def using i by (intro exI [of _ ?p] exI [of _ k]) simp
  from store [OF assms(1) this, of b] have st: "invar L (put (?p + i) b s)" "cell (put (?p + i) b s) (?p + i) = b"
    "\<forall>q. q \<noteq> ?p + i \<longrightarrow> cell (put (?p + i) b s) q = cell s q" by auto
  have "cell (put (?p + i) b s) (?p + m) = (snd (own ! j))[i := b] ! m" if "m < length (snd (own ! j))" for m
    using that k(3) st(2,3) by (cases "m = i") auto
  then have "owns L (put (?p + i) b s) (?p, (snd (own ! j))[i := b])" using k(1,2) by (simp add: owns_def)
  moreover have "owns L (put (?p + i) b s) u" if u: "u \<in> set own" "fst u \<noteq> ?p" for u
  proof -
    obtain l where l: "L (fst u) = Some l" "length (snd u) \<le> l" "\<forall>m<length (snd u). cell s (fst u + m) = snd u ! m"
      using u assms(2) by (auto simp: owned_def owns_def)
    have "fst u + l \<le> ?p \<or> ?p + k \<le> fst u" using apart [OF assms(1) l(1) k(1) u(2)] .
    then have "fst u + m \<noteq> ?p + i" if "m < length (snd u)" for m using that l(2) k(2) i by linarith
    then show ?thesis using l st(3) by (auto simp: owns_def)
  qed
  moreover have "L = L(?p \<mapsto> k)" using k(1) by auto
  ultimately have "owned L (own[j := (?p, (snd (own ! j))[i := b])]) (put (?p + i) b s)" by (intro update_owned [OF assms(2,3)])
  then show ?thesis using st(1) by blast
qed

lemma run_owned:
  assumes "invar L s" and "owned L own s"
  shows "(heap_run al fr tr cell put ops own s = None \<longrightarrow> (\<exists>j n. Shrink j n \<in> set ops)) \<and>
    (\<forall>own' s'. heap_run al fr tr cell put ops own s = Some (own', s') \<longrightarrow> (\<exists>L'. invar L' s' \<and> owned L' own' s'))"
  using assms
proof (induction ops arbitrary: own s L)
  case Nil
  then show ?case by auto
next
  case (Cons x ops)
  show ?case
  proof (cases x)
    case (Alloc n)
    obtain r s' L' where "al n s = Some (r, s')" "invar L' s'" "owned L' (case r of None \<Rightarrow> own | Some a \<Rightarrow> (a, map (\<lambda>i. cell s' (a + i)) [0..<unat n]) # own) s'"
      using alloc_owned [OF Cons.prems] by blast
    then show ?thesis using Cons.IH [of L' s'] Alloc by auto
  next
    case (Release j)
    show ?thesis
    proof (cases "j < length own")
      case True
      then obtain s' L' where "fr (fst (own ! j)) s = Some s'" "invar L' s'" "owned L' (take j own @ drop (Suc j) own) s'" using release_owned [OF Cons.prems] by blast
      then show ?thesis using Cons.IH [of L' s'] Release True by auto
    qed (use Cons Release in auto)
  next
    case (Shrink j n)
    show ?thesis
    proof (cases "j < length own \<and> unat n \<le> length (snd (own ! j))")
      case True
      show ?thesis
      proof (cases "tr (fst (own ! j)) n s")
        case (Some s')
        from shrink_owned [OF Cons.prems _ _ this] True obtain L' where
          "invar L' s'" "owned L' (own[j := (fst (own ! j), take (unat n) (snd (own ! j)))]) s'" by blast
        then show ?thesis using Cons.IH [of L' s'] Shrink True Some by auto
      qed (use Shrink True in auto)
    qed (use Cons Shrink in auto)
  next
    case (Store j i b)
    show ?thesis
    proof (cases "j < length own \<and> i < length (snd (own ! j))")
      case True
      then obtain L' where "invar L' (put (fst (own ! j) + i) b s)" "owned L' (own[j := (fst (own ! j), (snd (own ! j))[i := b])]) (put (fst (own ! j) + i) b s)"
        using store_owned [OF Cons.prems] by blast
      then show ?thesis using Cons.IH Store True by auto
    qed (use Cons Store in auto)
  qed
qed

lemma owned_isolated:
  assumes "invar L s" and "owned L own s"
  shows "isolated lim cell own s"
  unfolding isolated_def
proof (intro conjI allI impI)
  fix j
  assume j: "j < length own"
  obtain k where k: "L (fst (own ! j)) = Some k" "length (snd (own ! j)) \<le> k" "\<forall>i<length (snd (own ! j)). cell s (fst (own ! j) + i) = snd (own ! j) ! i"
    using owned_nth(1) [OF assms(2) j] by (auto simp: owns_def)
  show "fst (own ! j) mod 4 = 0" "fst (own ! j) + length (snd (own ! j)) \<le> lim" using inside [OF assms(1) k(1)] k(2) by auto
  show "cell s (fst (own ! j) + i) = snd (own ! j) ! i" if "i < length (snd (own ! j))" for i using k(3) that by blast
  fix m
  assume m: "m < length own" "j \<noteq> m"
  obtain l where l: "L (fst (own ! m)) = Some l" "length (snd (own ! m)) \<le> l" using owned_nth(1) [OF assms(2) m(1)] by (auto simp: owns_def)
  have "map fst own ! j \<noteq> map fst own ! m" using assms(2) j m nth_eq_iff_index_eq [of "map fst own" j m] by (simp add: owned_def)
  then have "fst (own ! j) \<noteq> fst (own ! m)" using j m by simp
  from apart [OF assms(1) k(1) l(1) this] show "fst (own ! j) + length (snd (own ! j)) \<le> fst (own ! m) \<or> fst (own ! m) + length (snd (own ! m)) \<le> fst (own ! j)"
    using k(2) l(2) by linarith
qed

lemma run_isolated:
  assumes "invar Map.empty s"
  shows "(heap_run al fr tr cell put ops [] s = None \<longrightarrow> (\<exists>j n. Shrink j n \<in> set ops)) \<and>
    (\<forall>own' s'. heap_run al fr tr cell put ops [] s = Some (own', s') \<longrightarrow> isolated lim cell own' s' \<and>
      (own' = [] \<longrightarrow> (\<forall>n. 0 < unat n \<and> unat n + 8 \<le> lim \<longrightarrow> (\<exists>p s''. al n s' = Some (Some p, s'')))))"
proof -
  have "owned Map.empty [] s" by (simp add: owned_def)
  note R = run_owned [OF assms this, of ops]
  have "L' = Map.empty" if "owned L' [] s'" for L' s' using that by (simp add: owned_def dom_eq_empty_conv)
  then show ?thesis using R owned_isolated whole by blast
qed

end

section \<open>The heap provides the interface\<close>

definition heap_alloc :: "u16 \<Rightarrow> lwip_heap \<Rightarrow> (nat option \<times> lwip_heap) option" where
  "heap_alloc n h = map_option (\<lambda>(p, h). (map_option nat p, h)) (mem_malloc n h)"

definition heap_release :: "nat \<Rightarrow> lwip_heap \<Rightarrow> lwip_heap option" where
  "heap_release p h = mem_free (Some (int p)) h"

text \<open>The owner goes on with the address that it has, which \<open>mem_trim\<close> must return.\<close>

definition heap_trim :: "nat \<Rightarrow> u16 \<Rightarrow> lwip_heap \<Rightarrow> lwip_heap option" where
  "heap_trim p n h = do { (q, h) \<leftarrow> mem_trim (int p) n h; if q = Some (int p) then Some h else None }"

definition heap_cell :: "lwip_heap \<Rightarrow> nat \<Rightarrow> byte" where
  "heap_cell h i = ram h ! i"

definition heap_put :: "nat \<Rightarrow> byte \<Rightarrow> lwip_heap \<Rightarrow> lwip_heap" where
  "heap_put i b h = h\<lparr>ram := (ram h)[i := b]\<rparr>"

definition live_in :: "live \<Rightarrow> block list \<Rightarrow> bool" where
  "live_in L bs \<longleftrightarrow> (\<forall>p k. L p = Some k \<longleftrightarrow> (\<exists>a b. (a, b) \<in> used_blocks bs \<and> p = a + 8 \<and> k = b - a - 8))"

definition heap_inv :: "live \<Rightarrow> lwip_heap \<Rightarrow> bool" where
  "heap_inv L h \<longleftrightarrow> (\<exists>bs. heap_blocks bs h \<and> live_in L bs)"

lemma chain_apart:
  assumes "chain p bs q" and "(a, b, u) \<in> set bs" and "(a', b', u') \<in> set bs"
  shows "(a, b, u) = (a', b', u') \<or> b \<le> a' \<or> b' \<le> a"
  using assms
proof (induction p bs q rule: chain.induct)
  case (2 p a1 b1 u1 bs q)
  then have c: "chain b1 bs q" by simp
  show ?case using 2 chain_block [OF c, of a b u] chain_block [OF c, of a' b' u'] by auto
qed simp

lemma data_outside:
  assumes "chain p bs q" and "(a, b, True) \<in> set bs" and "a + 8 \<le> i" "i < b" and "t \<in> starts bs"
  shows "i < t \<or> t + 5 \<le> i"
proof -
  obtain b' u' where t: "(t, b', u') \<in> set bs" using assms(5) by (auto simp: starts_def)
  have "t + 20 \<le> b'" using chain_block [OF assms(1) t] by simp
  then show ?thesis using chain_apart [OF assms(1,2) t] assms(3,4) by auto
qed

lemma live_block:
  assumes "live_in L bs" and "L p = Some k"
  obtains xs a b ys where "bs = xs @ (a, b, True) # ys" "p = a + 8" "k = b - a - 8"
proof -
  obtain a b where "(a, b) \<in> used_blocks bs" "p = a + 8" "k = b - a - 8" using assms by (auto simp: live_in_def)
  then show ?thesis using that by (auto simp: used_blocks_def dest: split_list)
qed

lemma keeps_touches:
  assumes c: "chain 0 bs 10240" and L: "\<And>p k. L p = Some k \<Longrightarrow> \<exists>a b. (a, b) \<in> used_blocks bs \<and> p = a + 8 \<and> k = b - a - 8"
    and t: "touches (starts bs) (ram h) (ram h')"
  shows "keeps heap_cell L h h'"
  unfolding keeps_def heap_cell_def
proof (intro allI impI)
  fix i
  assume i: "covers L i"
  then obtain p k where p: "L p = Some k" "p \<le> i" "i < p + k" by (auto simp: covers_def)
  obtain a b where ab: "(a, b) \<in> used_blocks bs" "p = a + 8" "k = b - a - 8" using L [OF p(1)] by blast
  then have "(a, b, True) \<in> set bs" "a + 8 \<le> i" "i < b" using p by (auto simp: used_blocks_def)
  from data_outside [OF c this] show "ram h' ! i = ram h ! i" using t by (simp add: touches_def)
qed

lemma live_insert:
  assumes c: "chain 0 bs 10240" and L: "live_in L bs" and u: "used_blocks bs' = insert (a, b) (used_blocks bs)" and n: "\<And>b'. (a, b') \<notin> used_blocks bs"
  shows "live_in (L(a + 8 \<mapsto> b - a - 8)) bs'" and "L (a + 8) = None"
proof -
  show "L (a + 8) = None" using L n by (cases "L (a + 8)") (auto simp: live_in_def)
  show "live_in (L(a + 8 \<mapsto> b - a - 8)) bs'" using L u n unfolding live_in_def by auto
qed

lemma used_block_start:
  assumes "chain 0 bs 10240" and "(a, b) \<in> used_blocks bs" and "(a, b') \<in> used_blocks bs"
  shows "b = b'"
proof -
  have m: "(a, b, True) \<in> set bs" "(a, b', True) \<in> set bs" using assms(2,3) by (auto simp: used_blocks_def)
  from chain_apart [OF assms(1) m] chain_block [OF assms(1) m(1)] chain_block [OF assms(1) m(2)] show ?thesis by auto
qed

lemma live_remove:
  assumes c: "chain 0 bs 10240" and L: "live_in L bs" and u: "used_blocks bs' = used_blocks bs - {(a, b)}" and m: "(a, b) \<in> used_blocks bs"
  shows "live_in (L(a + 8 := None)) bs'"
  using L u used_block_start [OF c m] unfolding live_in_def by auto

lemma heap_alloc_law:
  assumes "heap_inv L h"
  shows "\<exists>r h'. heap_alloc n h = Some (r, h') \<and> keeps heap_cell L h h' \<and>
      (case r of None \<Rightarrow> heap_inv L h' | Some p \<Rightarrow> \<exists>k. unat n \<le> k \<and> L p = None \<and> heap_inv (L(p \<mapsto> k)) h')"
proof -
  obtain bs where bs: "heap_blocks bs h" "live_in L bs" using assms by (auto simp: heap_inv_def)
  have c: "chain 0 bs 10240" using bs(1) by (simp add: heap_blocks_def rep_def)
  from mem_malloc_blocks [OF bs(1), of n] show ?thesis
  proof (elim disjE exE conjE)
    fix xs a b ys h' s
    assume *: "bs = xs @ (a, b, False) # ys" "block_size n = Some s" "unat s \<le> b - (a + 8)" "mem_malloc n h = Some (Some (int (a + 8)), h')"
      "heap_blocks (xs @ taken (unat s) a b @ ys) h'" "touches (starts (xs @ taken (unat s) a b @ ys)) (ram h) (ram h')"
    let ?bs = "xs @ taken (unat s) a b @ ys"
    define b' where "b' = (if unat s + 20 \<le> b - (a + 8) then a + 8 + unat s else b)"
    have c': "chain 0 ?bs 10240" using *(5) by (simp add: heap_blocks_def rep_def)
    have u: "used_blocks ?bs = insert (a, b') (used_blocks bs)" using *(1) by (auto simp: taken_def b'_def)
    have m: "(a, b, False) \<in> set bs" using *(1) by simp
    have n: "(a, d) \<notin> used_blocks bs" for d
      using chain_apart [OF c m, of a d True] chain_block [OF c m] chain_block [OF c, of a d True] by (auto simp: used_blocks_def)
    note I = live_insert [OF c bs(2) u n]
    have "keeps heap_cell L h h'" using bs(2) u by (intro keeps_touches [OF c' _ *(6)]) (auto simp: live_in_def)
    moreover have "unat n \<le> b' - a - 8" using block_size_Some(4) [OF *(2)] *(3) by (auto simp: b'_def)
    moreover have "heap_alloc n h = Some (Some (a + 8), h')" using *(4) by (simp add: heap_alloc_def nat_add_distrib)
    ultimately show ?thesis using I *(5) by (intro exI [of _ "Some (a + 8)"] exI [of _ h']) (auto simp: heap_inv_def)
  next
    fix h'
    assume "mem_malloc n h = Some (None, h')" "heap_blocks bs h'" "ram h' = ram h"
    then show ?thesis using bs(2) by (intro exI [of _ None] exI [of _ h']) (auto simp: heap_alloc_def heap_inv_def keeps_def heap_cell_def)
  qed
qed

lemma heap_release_law:
  assumes "heap_inv L h" and "L p = Some k"
  shows "\<exists>h'. heap_release p h = Some h' \<and> heap_inv (L(p := None)) h' \<and> keeps heap_cell (L(p := None)) h h'"
proof -
  obtain bs where bs: "heap_blocks bs h" "live_in L bs" using assms(1) by (auto simp: heap_inv_def)
  obtain xs a b ys where x: "bs = xs @ (a, b, True) # ys" "p = a + 8" "k = b - a - 8" using live_block [OF bs(2) assms(2)] .
  have c: "chain 0 bs 10240" using bs(1) by (simp add: heap_blocks_def rep_def)
  obtain h' cs where h': "mem_free (Some (int (a + 8))) h = Some h'" "heap_blocks cs h'" "used_blocks cs = used_blocks xs \<union> used_blocks ys"
      "touches (starts bs) (ram h) (ram h')" using mem_free_blocks bs(1) unfolding x(1) by blast
  have m: "(a, b) \<in> used_blocks bs" using x(1) by simp
  have "chain 0 xs a" "chain b ys 10240" "a + 20 \<le> b" using c x(1) by (auto simp: chain_append)
  then have "(a, b) \<notin> used_blocks xs \<union> used_blocks ys" using chain_block [of 0 xs a a b True] chain_block [of b ys 10240 a b True]
    by (auto simp: used_blocks_def)
  then have u: "used_blocks cs = used_blocks bs - {(a, b)}" using h'(3) x(1) by simp
  have "keeps heap_cell (L(p := None)) h h'" using bs(2) by (intro keeps_touches [OF c _ h'(4)]) (auto simp: live_in_def split: if_splits)
  then show ?thesis using live_remove [OF c bs(2) u m] h'(1,2) x(2) by (auto simp: heap_release_def heap_inv_def)
qed

lemma mem_trim_top_cases:
  assumes hb: "heap_blocks (xs @ [(a, 10240, True)]) h" and n: "unat n \<le> 10240 - a - 8" and t: "mem_trim (int (a + 8)) n h = Some q"
  shows "q = (Some (int (a + 8)), h)"
proof -
  have r: "rep (xs @ [(a, 10240, True)]) (ram h)" using hb by (simp add: heap_blocks_def)
  note B = rep_block [OF r]
  obtain s where s: "block_size n = Some s" "unat s \<le> 10240 - a - 8" and u: "unat (of_nat 10240 - of_nat a - of_nat 8 :: u16) = 10240 - a - 8"
    by (rule trim_sizes [OF B(2,3,4,5) n])
  show ?thesis
  proof (cases "unat s + 20 \<le> 10240 - a - 8")
    case True
    then show ?thesis using mem_trim_top [OF hb s(1)] t by simp
  next
    case False
    define sz where "sz = (of_nat 10240 - of_nat a - of_nat 8 :: u16)"
    have c: "s \<le> sz" "\<not> unat s + 8 + 12 \<le> unat sz" using False s(2) u by (auto simp: word_le_nat_alt sz_def)
    have ptr: "int (a + 8) - int 8 = int a" "int (a + 8) < int 10240" using B(2) by simp_all
    have e: "get_mem 10240 (ram h) = Some \<lparr>mem_next = of_nat 10240, mem_prev = of_nat 10240, mem_used = 1\<rparr>" using B(10) by (simp add: end_ok_def)
    have "mem_trim (int (a + 8)) n h = Some (Some (int (a + 8)), h)" unfolding mem_trim_def s(1) option.case ptr(1) Let_def
      using ptr(2) B(1,12) c e sz_def [symmetric] by (simp cong: if_cong)
    then show ?thesis using t by simp
  qed
qed

lemma live_update:
  assumes c: "chain 0 bs 10240" and L: "live_in L bs" and x: "bs = xs @ (a, b, True) # ys" and x': "bs' = xs @ (a, b', True) # zs"
    and u: "used_blocks zs = used_blocks ys"
  shows "live_in (L(a + 8 \<mapsto> b' - a - 8)) bs'"
proof -
  have ch: "chain 0 xs a" "chain b ys 10240" "a + 20 \<le> b" using c x by (auto simp: chain_append)
  have n: "(a, d) \<notin> used_blocks xs \<union> used_blocks ys" for d
    using chain_block [OF ch(1), of a d True] chain_block [OF ch(2), of a d True] ch(3) by (auto simp: used_blocks_def)
  show ?thesis unfolding live_in_def
  proof (intro allI)
    fix p k
    have "L p = Some k \<longleftrightarrow> (\<exists>e d. (e, d) \<in> used_blocks bs \<and> p = e + 8 \<and> k = d - e - 8)" using L by (simp add: live_in_def)
    then show "(L(a + 8 \<mapsto> b' - a - 8)) p = Some k \<longleftrightarrow> (\<exists>e d. (e, d) \<in> used_blocks bs' \<and> p = e + 8 \<and> k = d - e - 8)"
      using n u x x' by (cases "p = a + 8") auto
  qed
qed

lemma heap_trim_law:
  assumes "heap_inv L h" and "L p = Some k" and n: "unat n \<le> k"
  shows "heap_trim p n h = Some h' \<Longrightarrow> \<exists>k'. unat n \<le> k' \<and> k' \<le> k \<and> heap_inv (L(p \<mapsto> k')) h' \<and> keeps heap_cell (L(p \<mapsto> k')) h h'"
    and "p + k \<noteq> 10240 \<Longrightarrow> heap_trim p n h \<noteq> None"
proof -
  obtain bs where bs: "heap_blocks bs h" "live_in L bs" using assms(1) by (auto simp: heap_inv_def)
  obtain xs a b ys where x: "bs = xs @ (a, b, True) # ys" "p = a + 8" "k = b - a - 8" using live_block [OF bs(2) assms(2)] .
  have c: "chain 0 bs 10240" using bs(1) by (simp add: heap_blocks_def rep_def)
  then have cb: "a + 20 \<le> b" "chain b ys 10240" using x(1) by (auto simp: chain_append)
  have not_top: "(\<exists>h' k'. heap_trim p n h = Some h' \<and> unat n \<le> k' \<and> k' \<le> k \<and> heap_inv (L(p \<mapsto> k')) h' \<and> keeps heap_cell (L(p \<mapsto> k')) h h')" if "b \<noteq> 10240"
  proof -
    have "ys \<noteq> []" using that cb(2) by auto
    then obtain d v ys' where y: "ys = (b, d, v) # ys'" using cb(2) by (cases ys) auto
    have "unat n \<le> b - a - 8" using n x(3) by simp
    then obtain h1 b' zs where t: "mem_trim (int (a + 8)) n h = Some (Some (int (a + 8)), h1)" "heap_blocks (xs @ (a, b', True) # zs) h1"
        "used_blocks zs = used_blocks ys" "b' \<le> b" "unat n \<le> b' - a - 8" "touches (starts (xs @ (a, b', True) # zs)) (ram h) (ram h1)"
      using mem_trim_blocks [of xs a b d v ys' h n] bs(1) unfolding x(1) y by blast
    note L' = live_update [OF c bs(2) x(1) refl t(3)]
    have c': "chain 0 (xs @ (a, b', True) # zs) 10240" using t(2) by (simp add: heap_blocks_def rep_def)
    have "keeps heap_cell (L(p \<mapsto> b' - a - 8)) h h1" using L' x(2) by (intro keeps_touches [OF c' _ t(6)]) (simp add: live_in_def)
    moreover have "heap_trim p n h = Some h1" using t(1) x(2) by (simp add: heap_trim_def)
    ultimately show ?thesis using L' t(2,4,5) x(2,3) by (intro exI [of _ h1] exI [of _ "b' - a - 8"]) (auto simp: heap_inv_def)
  qed
  have at_top: "h' = h" if t: "heap_trim p n h = Some h'" "b = 10240" for h'
  proof -
    have "ys = []"
    proof (rule ccontr)
      assume "ys \<noteq> []"
      then obtain e d v l where y: "ys = (e, d, v) # l" by (cases ys) auto
      then have "b + 20 \<le> d" "d \<le> 10240" using cb(2) chain_le [of d l 10240] by auto
      then show False using t(2) by simp
    qed
    then have hb: "heap_blocks (xs @ [(a, 10240, True)]) h" using bs(1) x(1) t(2) by simp
    obtain q where q: "mem_trim (int (a + 8)) n h = Some q" 
      using t(1) x(2) by (cases "mem_trim (int (a + 8)) n h") (auto simp: heap_trim_def)
    then show ?thesis using mem_trim_top_cases [OF hb _ q] n x(3) t x(2) by (simp add: heap_trim_def)
  qed
  have "L = L(p \<mapsto> k)" using assms(2) by auto
  then have same: "heap_inv (L(p \<mapsto> k)) h" "keeps heap_cell (L(p \<mapsto> k)) h h" using assms(1) by (simp_all add: keeps_def)
  show "\<exists>k'. unat n \<le> k' \<and> k' \<le> k \<and> heap_inv (L(p \<mapsto> k')) h' \<and> keeps heap_cell (L(p \<mapsto> k')) h h'" if "heap_trim p n h = Some h'"
  proof (cases "b = 10240")
    case True
    then show ?thesis using at_top [OF that] same n by (intro exI [of _ k]) simp
  next
    case False
    then show ?thesis using not_top that by auto
  qed
  show "p + k \<noteq> 10240 \<Longrightarrow> heap_trim p n h \<noteq> None" using not_top cb(1) x(2,3) by fastforce
qed

lemma put_touches_nothing:
  assumes "\<And>t. t \<in> starts bs \<Longrightarrow> i < t \<or> t + 5 \<le> i" and "i < 10240" and "rep bs r" 
  shows "rep bs (r[i := b])"
proof -
  have len: "length r = 10256" using assms(3) by (simp add: rep_def end_ok_def)
  have "poke i [b] r = Some (r[i := b])" using len assms(2) by (simp add: poke_def upd_conv_take_nth_drop)
  note g = get_mem_poke_other [OF this]
  have "\<forall>t\<in>set bs. get_mem (fst t) (r[i := b]) = get_mem (fst t) r" 
  proof
    fix t
    assume "t \<in> set bs"
    then have "fst t \<in> starts bs" by (simp add: starts_def)
    from assms(1) [OF this] show "get_mem (fst t) (r[i := b]) = get_mem (fst t) r" by (intro g) auto
  qed
  then have "hdrs (r[i := b]) 0 bs = hdrs r 0 bs" by (rule hdrs_cong)
  moreover have "get_mem 10240 (r[i := b]) = get_mem 10240 r" using assms(2) by (intro g) simp
  ultimately show ?thesis using assms(3) by (simp add: rep_def end_ok_def)
qed


lemma heap_put_law:
  assumes "heap_inv L h" and "covers L i"
  shows "heap_inv L (heap_put i b h) \<and> heap_cell (heap_put i b h) i = b \<and> (\<forall>j. j \<noteq> i \<longrightarrow> heap_cell (heap_put i b h) j = heap_cell h j)"
proof -
  obtain bs where bs: "heap_blocks bs h" "live_in L bs" using assms(1) by (auto simp: heap_inv_def)
  have c: "chain 0 bs 10240" and len: "length (ram h) = 10256" using bs(1) by (simp_all add: heap_blocks_def rep_def end_ok_def)
  obtain p k where p: "L p = Some k" "p \<le> i" "i < p + k" using assms(2) by (auto simp: covers_def)
  obtain xs a e ys where x: "bs = xs @ (a, e, True) # ys" "p = a + 8" "k = e - a - 8" using live_block [OF bs(2) p(1)] .
  then have m: "(a, e, True) \<in> set bs" "a + 8 \<le> i" "i < e" using p by auto
  then have i: "i < 10240" using chain_block [OF c m(1)] by simp
  have "rep bs ((ram h)[i := b])" using bs(1) data_outside [OF c m] by (intro put_touches_nothing [OF _ i]) (auto simp: heap_blocks_def)
  then have "heap_blocks bs (heap_put i b h)" using bs(1) by (simp add: heap_blocks_def heap_put_def)
  then show ?thesis using bs(2) i len by (auto simp: heap_inv_def heap_cell_def heap_put_def)
qed

lemma heap_apart:
  assumes "heap_inv L h" and "L p = Some k" and "L q = Some l" and "p \<noteq> q"
  shows "p + k \<le> q \<or> q + l \<le> p"
proof -
  obtain bs where bs: "heap_blocks bs h" "live_in L bs" using assms(1) by (auto simp: heap_inv_def)
  have c: "chain 0 bs 10240" using bs(1) by (simp add: heap_blocks_def rep_def)
  obtain xs a b ys where x: "bs = xs @ (a, b, True) # ys" "p = a + 8" "k = b - a - 8" using live_block [OF bs(2) assms(2)] .
  obtain xs' a' b' ys' where y: "bs = xs' @ (a', b', True) # ys'" "q = a' + 8" "l = b' - a' - 8" using live_block [OF bs(2) assms(3)] .
  have m: "(a, b, True) \<in> set bs" using x(1) by simp
  have m': "(a', b', True) \<in> set bs" using y(1) by simp
  show ?thesis using chain_apart [OF c m m'] chain_block [OF c m] chain_block [OF c m'] x y assms(4) by auto
qed

lemma heap_inside:
  assumes "heap_inv L h" and "L p = Some k"
  shows "p mod 4 = 0 \<and> p + k \<le> 10240"
proof -
  obtain bs where bs: "heap_blocks bs h" "live_in L bs" using assms(1) by (auto simp: heap_inv_def)
  have c: "chain 0 bs 10240" using bs(1) by (simp add: heap_blocks_def rep_def)
  obtain xs a b ys where x: "bs = xs @ (a, b, True) # ys" "p = a + 8" "k = b - a - 8" using live_block [OF bs(2) assms(2)] .
  have m: "(a, b, True) \<in> set bs" using x(1) by simp
  from chain_block [OF c m] x show ?thesis by (auto simp: mod_add_eq [symmetric])
qed

lemma heap_whole:
  assumes "heap_inv Map.empty h" and n: "0 < unat n" "unat n + 8 \<le> 10240"
  shows "\<exists>p h'. heap_alloc n h = Some (Some p, h')"
proof -
  obtain bs where bs: "heap_blocks bs h" "live_in Map.empty bs" using assms(1) by (auto simp: heap_inv_def)
  have c: "chain 0 bs 10240" and sp: "spaced bs" using bs(1) by (simp_all add: heap_blocks_def rep_def)
  have u: "used_blocks bs = {}" using bs(2) by (auto simp: live_in_def)
  obtain a b v ys where y: "bs = (a, b, v) # ys" using c by (cases bs) auto
  have "ys = []" using sp u y by (cases ys) (auto simp: spaced_simps split: if_splits)
  then have b: "bs = [(0, 10240, False)]" using c u y by (auto split: if_splits)
  have "unat n \<le> 10240" using n(2) by simp
  then obtain s where s: "block_size n = Some s" "unat s = max 12 ((unat n + 3) div 4 * 4)" using block_size_small by blast
  have "(unat n + 3) div 4 * 4 \<le> 10232" using n(2) by presburger
  then have "list_ex (fits (unat s)) bs" using s(2) b by (simp add: fits_def)
  moreover have "n \<noteq> 0" using n(1) by auto
  ultimately show ?thesis using mem_malloc_blocks [OF bs(1), of n] s(1) by (auto simp: heap_alloc_def)
qed

interpretation lwmem: block_heap heap_alloc heap_release heap_trim heap_cell heap_put MEM_SIZE_ALIGNED heap_inv
  by unfold_locales (rule heap_alloc_law heap_release_law heap_trim_law heap_put_law heap_inside heap_apart heap_whole; assumption)+

section \<open>Properties\<close>

text \<open>C7: From \<open>mem_init\<close> on, whatever sequence of mem_malloc, mem_free, mem_trim and writes inside of their blocks the owners make, the
  blocks that they hold are aligned, lie inside of the heap, are disjoint, and hold exactly what their owners wrote; the only call that
  can fail an assertion is mem_trim. When all blocks are freed the fragments have been joined: every request of 1 to
  10232 bytes succeeds.\<close>

theorem lwip_heap_isolated:
  assumes "length (ram h) = 10256" and "mem_inuse h = 0"
  shows "\<exists>h0. mem_init h = Some h0 \<and>
    (heap_run heap_alloc heap_release heap_trim heap_cell heap_put ops [] h0 = None \<longrightarrow> (\<exists>j n. Shrink j n \<in> set ops)) \<and>
    (\<forall>own h'. heap_run heap_alloc heap_release heap_trim heap_cell heap_put ops [] h0 = Some (own, h') \<longrightarrow>
       isolated 10240 heap_cell own h' \<and>
       (own = [] \<longrightarrow> (\<forall>n. 0 < unat n \<and> unat n + 8 \<le> 10240 \<longrightarrow> (\<exists>p h''. heap_alloc n h' = Some (Some p, h'')))))"
proof -
  obtain h0 where h0: "mem_init h = Some h0" "heap_blocks [(0, 10240, False)] h0" using mem_init_blocks [OF assms] by blast
  then have "heap_inv Map.empty h0" by (auto simp: heap_inv_def live_in_def)
  from lwmem.run_isolated [OF this] h0(1) show ?thesis by (intro exI [of _ h0]) blast
qed

definition ex_heap :: lwip_heap where
  "ex_heap = \<lparr>ram = replicate 10256 7, lfree = 0, mem_avail = 0, mem_inuse = 0, mem_max = 0, mem_err = 0\<rparr>"

definition ex_heap_ops :: "heap_op list" where
  "ex_heap_ops = [Alloc 100, Alloc 3, Store 0 2 9, Alloc 4000, Shrink 0 50, Release 1, Alloc 20, Store 1 49 1]"

theorem lwip_heap_isolated_witness:
  "\<exists>h0. mem_init ex_heap = Some h0 \<and>
    (heap_run heap_alloc heap_release heap_trim heap_cell heap_put ex_heap_ops [] h0 = None \<longrightarrow> (\<exists>j n. Shrink j n \<in> set ex_heap_ops)) \<and>
    (\<forall>own h'. heap_run heap_alloc heap_release heap_trim heap_cell heap_put ex_heap_ops [] h0 = Some (own, h') \<longrightarrow>
       isolated 10240 heap_cell own h' \<and>
       (own = [] \<longrightarrow> (\<forall>n. 0 < unat n \<and> unat n + 8 \<le> 10240 \<longrightarrow> (\<exists>p h''. heap_alloc n h' = Some (Some p, h'')))))"
  by (rule lwip_heap_isolated) (simp_all add: ex_heap_def)

end
