(* ===== verification/Lwip_Pbuf.thy ===== *)
theory Lwip_Pbuf
  imports Lwip_Mem
begin

text \<open>
  The packet buffers of lwIP, \<open>lwip/core/pbuf.c\<close>: linked chains of buffers with reference counts. The buffers live in a heap of
  structures; a payload pointer is a memory block and a distance from its start, and several buffers may point into one
  block. The block behind a buffer of the types \<open>PBUF_RAM\<close> and \<open>PBUF_POOL\<close> is its own and starts behind the structure.

  The pools serve a request exactly if an element is free (\<open>Lwip_Memp\<close>), so that only the number of free elements is
  kept. What the heap (\<open>Lwip_Mem\<close>) answers depends on its fragmentation: the answers are a list in the state. A new block
  contains arbitrary bytes. Addresses are not used again, so that a pointer to a freed buffer is noticed.
  \<^const>\<open>None\<close> is a failed assertion, a null or dangling pointer, an access outside of a block, or a loop without end.
\<close>

section \<open>State\<close>

datatype pbuf_type = PBUF_RAM | PBUF_ROM | PBUF_REF | PBUF_POOL

definition data_contiguous :: "pbuf_type \<Rightarrow> bool" where
  "data_contiguous t \<longleftrightarrow> t = PBUF_RAM \<or> t = PBUF_POOL"

datatype pbuf_layer = PBUF_TRANSPORT | PBUF_IP | PBUF_LINK | PBUF_RAW_TX | PBUF_RAW

fun layer_offset :: "pbuf_layer \<Rightarrow> u16" where
  "layer_offset PBUF_TRANSPORT = 74"
| "layer_offset PBUF_IP = 54"
| "layer_offset PBUF_LINK = 14"
| "layer_offset PBUF_RAW_TX = 0"
| "layer_offset PBUF_RAW = 0"

text \<open>A block is the one of a buffer, or memory of the users.\<close>

datatype block_id = Own addr | Ext nat

type_synonym payload = "(block_id \<times> nat) option"

text \<open>\<open>pb_custom\<close> is set for a \<open>pbuf_custom\<close>, with its function for freeing it.\<close>

record pbuf =
  pb_next :: ptr
  pb_payload :: payload
  pb_tot_len :: u16
  pb_len :: u16
  pb_type :: pbuf_type
  pb_custom :: "nat option option"
  pb_ref :: byte

record pbufs =
  pb_heap :: "addr \<Rightarrow> pbuf option"
  pb_blocks :: "block_id \<Rightarrow> byte list option"
  pb_new :: addr
  pool_left :: nat
  ref_left :: nat
  ram_answers :: "bool list"
  pb_junk :: "nat \<Rightarrow> byte"
  custom_freed :: "(nat \<times> addr) list" \<comment> \<open>the calls of the functions of custom buffers\<close>

datatype err = ERR_OK | ERR_MEM | ERR_VAL | ERR_ARG

definition pbuf_upd :: "addr \<Rightarrow> (pbuf \<Rightarrow> pbuf) \<Rightarrow> pbufs \<Rightarrow> pbufs" where
  "pbuf_upd a f st = st\<lparr>pb_heap := (pb_heap st)(a := map_option f (pb_heap st a))\<rparr>"

definition pbuf_deref :: "ptr \<Rightarrow> pbufs \<Rightarrow> pbuf option" where
  "pbuf_deref p st = (case p of None \<Rightarrow> None | Some a \<Rightarrow> pb_heap st a)"

definition pay_read :: "payload \<Rightarrow> nat \<Rightarrow> nat \<Rightarrow> pbufs \<Rightarrow> byte list option" where
  "pay_read p i n st = (case p of None \<Rightarrow> None | Some (m, off) \<Rightarrow> do { bs \<leftarrow> pb_blocks st m; peek (off + i) n bs })"

definition pay_write :: "payload \<Rightarrow> nat \<Rightarrow> byte list \<Rightarrow> pbufs \<Rightarrow> pbufs option" where
  "pay_write p i src st =
     (case p of
        None \<Rightarrow> None
      | Some (m, off) \<Rightarrow> do { bs \<leftarrow> pb_blocks st m; bs \<leftarrow> poke (off + i) src bs; Some (st\<lparr>pb_blocks := (pb_blocks st)(m \<mapsto> bs)\<rparr>) })"

definition heap_answer :: "pbufs \<Rightarrow> bool \<times> pbufs" where
  "heap_answer st = (case ram_answers st of [] \<Rightarrow> (False, st) | b # bs \<Rightarrow> (b, st\<lparr>ram_answers := bs\<rparr>))"

section \<open>Allocation\<close>

definition new_pbuf :: "payload \<Rightarrow> u16 \<Rightarrow> u16 \<Rightarrow> pbuf_type \<Rightarrow> nat option option \<Rightarrow> pbuf" where
  "new_pbuf payload tot_len len type custom =
     \<lparr>pb_next = None, pb_payload = payload, pb_tot_len = tot_len, pb_len = len, pb_type = type, pb_custom = custom, pb_ref = 1\<rparr>"

text \<open>A structure with a block of \<open>n\<close> bytes behind it.\<close>

definition place_pbuf :: "nat \<Rightarrow> pbuf \<Rightarrow> pbufs \<Rightarrow> addr \<times> pbufs" where
  "place_pbuf n b st =
     (pb_new st, st\<lparr>pb_heap := (pb_heap st)(pb_new st \<mapsto> b),
        pb_blocks := (pb_blocks st)(Own (pb_new st) \<mapsto> map (pb_junk st) [0..<n]), pb_new := pb_new st + 1\<rparr>)"

definition pbuf_alloc_reference :: "payload \<Rightarrow> u16 \<Rightarrow> pbuf_type \<Rightarrow> pbufs \<Rightarrow> (ptr \<times> pbufs) option" where
  "pbuf_alloc_reference payload len type st =
     (if \<not> (type = PBUF_REF \<or> type = PBUF_ROM) then None
      else if ref_left st = 0 then Some (None, st)
      else let (a, st) = place_pbuf 0 (new_pbuf payload len len type None) (st\<lparr>ref_left := ref_left st - 1\<rparr>)
           in Some (Some a, st))"

definition release_pbuf :: "addr \<Rightarrow> pbuf \<Rightarrow> pbufs \<Rightarrow> pbufs option" where
  "release_pbuf a b st =
     (let st = st\<lparr>pb_heap := (pb_heap st)(a := None), pb_blocks := (pb_blocks st)(Own a := None)\<rparr>
      in case pb_custom b of
           Some None \<Rightarrow> None
         | Some (Some f) \<Rightarrow> Some (st\<lparr>custom_freed := custom_freed st @ [(f, a)]\<rparr>)
         | None \<Rightarrow>
             (case pb_type b of
                PBUF_POOL \<Rightarrow> Some (st\<lparr>pool_left := pool_left st + 1\<rparr>)
              | PBUF_RAM \<Rightarrow> Some st
              | _ \<Rightarrow> Some (st\<lparr>ref_left := ref_left st + 1\<rparr>)))"

partial_function (option) free_loop :: "ptr \<Rightarrow> byte \<Rightarrow> pbufs \<Rightarrow> (byte \<times> pbufs) option" where
  "free_loop p count st =
     (case p of
        None \<Rightarrow> Some (count, st)
      | Some a \<Rightarrow>
          (case pb_heap st a of
             None \<Rightarrow> None
           | Some b \<Rightarrow>
               if pb_ref b = 0 then None
               else if pb_ref b - 1 = 0 then
                 (case release_pbuf a b st of
                    None \<Rightarrow> None
                  | Some st \<Rightarrow> free_loop (pb_next b) (count + 1) st)
               else Some (count, pbuf_upd a (\<lambda>b. b\<lparr>pb_ref := pb_ref b - 1\<rparr>) st)))"

definition pbuf_free :: "ptr \<Rightarrow> pbufs \<Rightarrow> (byte \<times> pbufs) option" where
  "pbuf_free p st = (if p = None then None else free_loop p 0 st)"

abbreviation (input) PBUF_POOL_BUFSIZE_ALIGNED :: nat where "PBUF_POOL_BUFSIZE_ALIGNED \<equiv> 256"

text \<open>The buffers of a \<open>PBUF_POOL\<close> chain: \<open>p\<close> is the head and \<open>last\<close> the last one so far. An empty pool also asks the
  TCP thread to give up segments, which is outside of the model.\<close>

partial_function (option) alloc_pool_loop :: "u16 \<Rightarrow> u16 \<Rightarrow> ptr \<Rightarrow> ptr \<Rightarrow> pbufs \<Rightarrow> (ptr \<times> pbufs) option" where
  "alloc_pool_loop off rem_len p lst st =
     (if pool_left st = 0 then
        (case p of
           None \<Rightarrow> Some (None, st)
         | Some _ \<Rightarrow> (case pbuf_free p st of None \<Rightarrow> None | Some (_, st) \<Rightarrow> Some (None, st)))
      else
        let room = of_nat PBUF_POOL_BUFSIZE_ALIGNED - LWIP_MEM_ALIGN_SIZE off;
            qlen = min rem_len room;
            (q, st) = place_pbuf PBUF_POOL_BUFSIZE_ALIGNED
              (new_pbuf (Some (Own (pb_new st), unat (LWIP_MEM_ALIGN_SIZE off))) rem_len qlen PBUF_POOL None)
              (st\<lparr>pool_left := pool_left st - 1\<rparr>);
            st = (case lst of None \<Rightarrow> st | Some l \<Rightarrow> pbuf_upd l (\<lambda>b. b\<lparr>pb_next := Some q\<rparr>) st);
            p = (case p of None \<Rightarrow> Some q | Some a \<Rightarrow> Some a)
        in if rem_len - qlen > 0 then alloc_pool_loop 0 (rem_len - qlen) p (Some q) st else Some (p, st))"

definition pbuf_alloc :: "pbuf_layer \<Rightarrow> u16 \<Rightarrow> pbuf_type \<Rightarrow> pbufs \<Rightarrow> (ptr \<times> pbufs) option" where
  "pbuf_alloc layer len type st =
     (let off = layer_offset layer in
      case type of
        PBUF_POOL \<Rightarrow> alloc_pool_loop off len None None st
      | PBUF_RAM \<Rightarrow>
          (let alen = (ucast len + 3 :: u32) AND NOT 3;
               payload_len = ucast (ucast (LWIP_MEM_ALIGN_SIZE off) + alen) :: u16;
               alloc_len = ucast (16 + ucast payload_len :: u32) :: u16
           in if (ucast payload_len :: u32) < alen \<or> (ucast alloc_len :: u32) < alen then Some (None, st)
              else case heap_answer st of
                     (False, st) \<Rightarrow> Some (None, st)
                   | (True, st) \<Rightarrow>
                       let (a, st) = place_pbuf (unat payload_len)
                         (new_pbuf (Some (Own (pb_new st), unat (LWIP_MEM_ALIGN_SIZE off))) len len PBUF_RAM None) st
                       in Some (Some a, st))
      | _ \<Rightarrow> pbuf_alloc_reference None len type st)"

text \<open>The structure of a custom buffer is the caller's; \<open>a\<close> is its address.\<close>

definition pbuf_alloced_custom :: "pbuf_layer \<Rightarrow> u16 \<Rightarrow> pbuf_type \<Rightarrow> addr \<Rightarrow> nat option \<Rightarrow> payload \<Rightarrow> u16 \<Rightarrow> pbufs \<Rightarrow> ptr \<times> pbufs" where
  "pbuf_alloced_custom l len type a f payload_mem payload_mem_len st =
     (let off = unat (LWIP_MEM_ALIGN_SIZE (layer_offset l)) in
      if off + unat len > unat payload_mem_len then (None, st)
      else (Some a, st\<lparr>pb_heap := (pb_heap st)(a \<mapsto>
        new_pbuf (map_option (\<lambda>(m, i). (m, i + off)) payload_mem) len len type (Some f)),
        pb_new := max (pb_new st) (a + 1)\<rparr>))"

section \<open>Lengths and headers\<close>

text \<open>The last buffer to be kept, with the length that it keeps; the total lengths on the way are reduced.\<close>

partial_function (option) realloc_walk :: "addr \<Rightarrow> u16 \<Rightarrow> u16 \<Rightarrow> pbufs \<Rightarrow> (addr \<times> u16 \<times> pbufs) option" where
  "realloc_walk q rem_len shr st =
     (case pb_heap st q of
        None \<Rightarrow> None
      | Some b \<Rightarrow>
          if rem_len > pb_len b then
            (case pb_next b of
               None \<Rightarrow> None
             | Some n \<Rightarrow> realloc_walk n (rem_len - pb_len b) shr (pbuf_upd q (\<lambda>b. b\<lparr>pb_tot_len := pb_tot_len b - shr\<rparr>) st))
          else Some (q, rem_len, st))"

text \<open>\<open>mem_trim\<close> of the block of a \<open>PBUF_RAM\<close> buffer: what is cut off is no longer accessible.\<close>

definition trim_pbuf :: "addr \<Rightarrow> pbuf \<Rightarrow> u16 \<Rightarrow> pbufs \<Rightarrow> pbufs option" where
  "trim_pbuf q b rem_len st =
     (if pb_type b = PBUF_RAM \<and> rem_len \<noteq> pb_len b \<and> pb_custom b = None then
        (case heap_answer st of
           (False, st) \<Rightarrow> None
         | (True, st) \<Rightarrow>
             (case pb_payload b of
                Some (m, off) \<Rightarrow> Some (st\<lparr>pb_blocks := (pb_blocks st)(Own q := map_option (take (off + unat rem_len)) (pb_blocks st (Own q)))\<rparr>)
              | None \<Rightarrow> None))
      else Some st)"

definition pbuf_realloc :: "ptr \<Rightarrow> u16 \<Rightarrow> pbufs \<Rightarrow> pbufs option" where
  "pbuf_realloc p new_len st = do {
     a \<leftarrow> p;
     b \<leftarrow> pb_heap st a;
     if new_len \<ge> pb_tot_len b then Some st
     else do {
       (q, rem_len, st) \<leftarrow> realloc_walk a new_len (pb_tot_len b - new_len) st;
       b \<leftarrow> pb_heap st q;
       st \<leftarrow> trim_pbuf q b rem_len st;
       let st = pbuf_upd q (\<lambda>b. b\<lparr>pb_len := rem_len, pb_tot_len := rem_len\<rparr>) st;
       st \<leftarrow> (case pb_next b of None \<Rightarrow> Some st | Some n \<Rightarrow> map_option snd (pbuf_free (Some n) st));
       Some (pbuf_upd q (\<lambda>b. b\<lparr>pb_next := None\<rparr>) st) } }"

definition pbuf_add_header_impl :: "ptr \<Rightarrow> u32 \<Rightarrow> bool \<Rightarrow> pbufs \<Rightarrow> (bool \<times> pbufs) option" where
  "pbuf_add_header_impl p inc force st = do {
     a \<leftarrow> p;
     b \<leftarrow> pb_heap st a;
     if inc > 0xffff then Some (False, st)
     else if inc = 0 then Some (True, st)
     else do {
       let k = (ucast inc :: u16);
       if k + pb_tot_len b < k then Some (False, st)
       else
         (case pb_payload b of
            None \<Rightarrow> if data_contiguous (pb_type b) \<or> force then None else Some (False, st)
          | Some (m, off) \<Rightarrow>
              if data_contiguous (pb_type b) \<and> off < unat inc then Some (False, st)
              else if \<not> data_contiguous (pb_type b) \<and> \<not> force then Some (False, st)
              else if off < unat inc then None
              else Some (True, pbuf_upd a (\<lambda>b. b\<lparr>pb_payload := Some (m, off - unat inc),
                pb_len := pb_len b + k, pb_tot_len := pb_tot_len b + k\<rparr>) st)) } }"

definition pbuf_add_header :: "ptr \<Rightarrow> u32 \<Rightarrow> pbufs \<Rightarrow> (bool \<times> pbufs) option" where
  "pbuf_add_header p inc st = pbuf_add_header_impl p inc False st"

definition pbuf_add_header_force :: "ptr \<Rightarrow> u32 \<Rightarrow> pbufs \<Rightarrow> (bool \<times> pbufs) option" where
  "pbuf_add_header_force p inc st = pbuf_add_header_impl p inc True st"

definition pbuf_remove_header :: "ptr \<Rightarrow> u32 \<Rightarrow> pbufs \<Rightarrow> (bool \<times> pbufs) option" where
  "pbuf_remove_header p dec st = do {
     a \<leftarrow> p;
     b \<leftarrow> pb_heap st a;
     if dec > 0xffff then Some (False, st)
     else if dec = 0 then Some (True, st)
     else do {
       let k = (ucast dec :: u16);
       if \<not> k \<le> pb_len b then Some (False, st)
       else do {
         (m, off) \<leftarrow> pb_payload b;
         Some (True, pbuf_upd a (\<lambda>b. b\<lparr>pb_payload := Some (m, off + unat dec),
           pb_len := pb_len b - k, pb_tot_len := pb_tot_len b - k\<rparr>) st) } } }"

text \<open>The result \<open>True\<close> is the return value 0. The increment is a signed 16-bit number.\<close>

definition pbuf_header_impl :: "ptr \<Rightarrow> int \<Rightarrow> bool \<Rightarrow> pbufs \<Rightarrow> (bool \<times> pbufs) option" where
  "pbuf_header_impl p inc force st =
     (if inc < 0 then pbuf_remove_header p (of_int (- inc)) st else pbuf_add_header_impl p (of_int inc) force st)"

definition pbuf_header :: "ptr \<Rightarrow> int \<Rightarrow> pbufs \<Rightarrow> (bool \<times> pbufs) option" where
  "pbuf_header p inc st = pbuf_header_impl p inc False st"

definition pbuf_header_force :: "ptr \<Rightarrow> int \<Rightarrow> pbufs \<Rightarrow> (bool \<times> pbufs) option" where
  "pbuf_header_force p inc st = pbuf_header_impl p inc True st"

partial_function (option) free_header_loop :: "ptr \<Rightarrow> u16 \<Rightarrow> pbufs \<Rightarrow> (ptr \<times> pbufs) option" where
  "free_header_loop p free_left st =
     (case p of
        None \<Rightarrow> Some (None, st)
      | Some a \<Rightarrow>
          if free_left = 0 then Some (p, st)
          else
            (case pb_heap st a of
               None \<Rightarrow> None
             | Some b \<Rightarrow>
                 if free_left \<ge> pb_len b then
                   (case pbuf_free (Some a) (pbuf_upd a (\<lambda>b. b\<lparr>pb_next := None\<rparr>) st) of
                      None \<Rightarrow> None
                    | Some (_, st) \<Rightarrow> free_header_loop (pb_next b) (free_left - pb_len b) st)
                 else
                   (case pbuf_remove_header (Some a) (ucast free_left) st of
                      None \<Rightarrow> None
                    | Some (_, st) \<Rightarrow> Some (p, st))))"

definition pbuf_free_header :: "ptr \<Rightarrow> u16 \<Rightarrow> pbufs \<Rightarrow> (ptr \<times> pbufs) option" where
  "pbuf_free_header q n st = free_header_loop q n st"

section \<open>Chains\<close>

partial_function (option) clen_loop :: "ptr \<Rightarrow> u16 \<Rightarrow> pbufs \<Rightarrow> u16 option" where
  "clen_loop p len st =
     (case p of None \<Rightarrow> Some len | Some a \<Rightarrow> (case pb_heap st a of None \<Rightarrow> None | Some b \<Rightarrow> clen_loop (pb_next b) (len + 1) st))"

definition pbuf_clen :: "ptr \<Rightarrow> pbufs \<Rightarrow> u16 option" where
  "pbuf_clen p st = clen_loop p 0 st"

definition pbuf_ref :: "ptr \<Rightarrow> pbufs \<Rightarrow> pbufs option" where
  "pbuf_ref p st =
     (case p of
        None \<Rightarrow> Some st
      | Some a \<Rightarrow> do { b \<leftarrow> pb_heap st a; if pb_ref b + 1 = 0 then None else Some (pbuf_upd a (\<lambda>b. b\<lparr>pb_ref := pb_ref b + 1\<rparr>) st) })"

partial_function (option) cat_loop :: "addr \<Rightarrow> addr \<Rightarrow> pbufs \<Rightarrow> pbufs option" where
  "cat_loop p t st =
     (case (pb_heap st p, pb_heap st t) of
        (Some b, Some c) \<Rightarrow>
          (case pb_next b of
             Some n \<Rightarrow> cat_loop n t (pbuf_upd p (\<lambda>b. b\<lparr>pb_tot_len := pb_tot_len b + pb_tot_len c\<rparr>) st)
           | None \<Rightarrow>
               if pb_tot_len b = pb_len b
               then Some (pbuf_upd p (\<lambda>b. b\<lparr>pb_tot_len := pb_tot_len b + pb_tot_len c, pb_next := Some t\<rparr>) st)
               else None)
      | _ \<Rightarrow> None)"

definition pbuf_cat :: "ptr \<Rightarrow> ptr \<Rightarrow> pbufs \<Rightarrow> pbufs option" where
  "pbuf_cat h t st =
     (case (h, t) of
        (Some a, Some c) \<Rightarrow> if a = c then None else cat_loop a c st
      | _ \<Rightarrow> Some st)"

definition pbuf_chain :: "ptr \<Rightarrow> ptr \<Rightarrow> pbufs \<Rightarrow> pbufs option" where
  "pbuf_chain h t st = do { st \<leftarrow> pbuf_cat h t st; pbuf_ref t st }"

definition pbuf_dechain :: "ptr \<Rightarrow> pbufs \<Rightarrow> (ptr \<times> pbufs) option" where
  "pbuf_dechain p st = do {
     a \<leftarrow> p;
     b \<leftarrow> pb_heap st a;
     (gone, st) \<leftarrow>
       (case pb_next b of
          None \<Rightarrow> Some (1, st)
        | Some q \<Rightarrow> do {
            c \<leftarrow> pb_heap st q;
            if int (unat (pb_tot_len c)) \<noteq> int (unat (pb_tot_len b)) - int (unat (pb_len b)) then None
            else do {
              let st = pbuf_upd q (\<lambda>c. c\<lparr>pb_tot_len := pb_tot_len b - pb_len b\<rparr>) st;
              let st = pbuf_upd a (\<lambda>b. b\<lparr>pb_next := None, pb_tot_len := pb_len b\<rparr>) st;
              pbuf_free (Some q) st } });
     b' \<leftarrow> pb_heap st a;
     if pb_tot_len b' = pb_len b' then Some (if gone > 0 then None else pb_next b, st) else None }"

section \<open>Contents\<close>

partial_function (option) skip_loop :: "ptr \<Rightarrow> u16 \<Rightarrow> pbufs \<Rightarrow> (ptr \<times> u16) option" where
  "skip_loop q offset_left st =
     (case q of
        None \<Rightarrow> Some (None, offset_left)
      | Some a \<Rightarrow>
          (case pb_heap st a of
             None \<Rightarrow> None
           | Some b \<Rightarrow> if pb_len b \<le> offset_left then skip_loop (pb_next b) (offset_left - pb_len b) st else Some (q, offset_left)))"

definition pbuf_skip :: "ptr \<Rightarrow> u16 \<Rightarrow> pbufs \<Rightarrow> (ptr \<times> u16) option" where
  "pbuf_skip p in_offset st = skip_loop p in_offset st"

text \<open>\<open>buf\<close> is the part of the caller's buffer that is filled so far.\<close>

partial_function (option) copy_partial_loop :: "ptr \<Rightarrow> u16 \<Rightarrow> u16 \<Rightarrow> byte list \<Rightarrow> pbufs \<Rightarrow> byte list option" where
  "copy_partial_loop p len off buf st =
     (case p of
        None \<Rightarrow> Some buf
      | Some a \<Rightarrow>
          if len = 0 then Some buf
          else
            (case pb_heap st a of
               None \<Rightarrow> None
             | Some b \<Rightarrow>
                 if off \<noteq> 0 \<and> off \<ge> pb_len b then copy_partial_loop (pb_next b) len (off - pb_len b) buf st
                 else
                   let n = min (pb_len b - off) len in
                   (case pay_read (pb_payload b) (unat off) (unat n) st of
                      None \<Rightarrow> None
                    | Some bs \<Rightarrow> copy_partial_loop (pb_next b) (len - n) 0 (buf @ bs) st)))"

text \<open>The bytes copied to \<open>dataptr\<close>, which must have room for them; their number is the result.\<close>

definition pbuf_copy_partial :: "ptr \<Rightarrow> u16 \<Rightarrow> u16 \<Rightarrow> pbufs \<Rightarrow> byte list option" where
  "pbuf_copy_partial p len off st = copy_partial_loop p len off [] st"

datatype contiguous = Nothing | In_place payload | Copied "byte list"

definition pbuf_get_contiguous :: "ptr \<Rightarrow> u32 option \<Rightarrow> u16 \<Rightarrow> u16 \<Rightarrow> pbufs \<Rightarrow> contiguous option" where
  "pbuf_get_contiguous p bufsize len off st =
     (if p = None then Some Nothing
      else if (case bufsize of None \<Rightarrow> False | Some k \<Rightarrow> k < ucast len) then Some Nothing
      else do {
        (q, out) \<leftarrow> pbuf_skip p off st;
        case q of
          None \<Rightarrow> Some Nothing
        | Some a \<Rightarrow> do {
            b \<leftarrow> pb_heap st a;
            if unat (pb_len b) \<ge> unat out + unat len
            then Some (In_place (map_option (\<lambda>(m, i). (m, i + unat out)) (pb_payload b)))
            else if bufsize = None then Some Nothing
            else do {
              bs \<leftarrow> pbuf_copy_partial q len out st;
              Some (if length bs \<noteq> unat len then Nothing else Copied bs) } } })"

partial_function (option) take_loop :: "ptr \<Rightarrow> byte list \<Rightarrow> pbufs \<Rightarrow> pbufs option" where
  "take_loop p src st =
     (if src = [] then Some st
      else
        (case p of
           None \<Rightarrow> None
         | Some a \<Rightarrow>
             (case pb_heap st a of
                None \<Rightarrow> None
              | Some b \<Rightarrow>
                  let n = min (length src) (unat (pb_len b)) in
                  (case pay_write (pb_payload b) 0 (take n src) st of
                     None \<Rightarrow> None
                   | Some st \<Rightarrow> take_loop (pb_next b) (drop n src) st))))"

text \<open>The data are given with their length, a 16-bit number.\<close>

definition pbuf_take :: "ptr \<Rightarrow> byte list \<Rightarrow> pbufs \<Rightarrow> (err \<times> pbufs) option" where
  "pbuf_take p src st =
     (case p of
        None \<Rightarrow> Some (ERR_ARG, st)
      | Some a \<Rightarrow> do {
          b \<leftarrow> pb_heap st a;
          if \<not> unat (pb_tot_len b) \<ge> length src then Some (ERR_MEM, st)
          else do { st \<leftarrow> take_loop p src st; Some (ERR_OK, st) } })"

definition pbuf_take_at :: "ptr \<Rightarrow> byte list \<Rightarrow> u16 \<Rightarrow> pbufs \<Rightarrow> (err \<times> pbufs) option" where
  "pbuf_take_at p src off st = do {
     (q, target) \<leftarrow> pbuf_skip p off st;
     case q of
       None \<Rightarrow> Some (ERR_MEM, st)
     | Some a \<Rightarrow> do {
         b \<leftarrow> pb_heap st a;
         if unat (pb_tot_len b) \<ge> unat target + length src then do {
           if \<not> target < pb_len b then None
           else do {
             let n = min (unat (pb_len b) - unat target) (length src);
             st \<leftarrow> pay_write (pb_payload b) (unat target) (take n src) st;
             if length src - n > 0 then pbuf_take (pb_next b) (drop n src) st else Some (ERR_OK, st) } }
         else Some (ERR_MEM, st) } }"

text \<open>The lengths and distances of \<open>pbuf_copy_partial_pbuf\<close> are of the type \<open>size_t\<close>.\<close>

definition queue_check :: "ptr \<Rightarrow> pbufs \<Rightarrow> bool option" where
  "queue_check p st =
     (case p of None \<Rightarrow> Some True | Some a \<Rightarrow> do { b \<leftarrow> pb_heap st a; Some (pb_len b \<noteq> pb_tot_len b \<or> pb_next b = None) })"

text \<open>One round of the loop: it is over with a result, or the pointers, distances and the length for the next round.\<close>

type_synonym copy_state = "ptr \<times> ptr \<times> u32 \<times> u32 \<times> u16"

definition copy_pbuf_step :: "copy_state \<Rightarrow> pbufs \<Rightarrow> ((err + copy_state) \<times> pbufs) option" where
  "copy_pbuf_step c st = (case c of (p_to, p_from, offset_to, offset_from, copy_len) \<Rightarrow> do {
     t \<leftarrow> pbuf_deref p_to st;
     f \<leftarrow> pbuf_deref p_from st;
     let len = (if ucast (pb_len t) - offset_to \<ge> ucast (pb_len f) - offset_from then ucast (pb_len f) - offset_from else ucast (pb_len t) - offset_to);
     let len = min (ucast copy_len) len;
     bs \<leftarrow> pay_read (pb_payload f) (unat offset_from) (unat len) st;
     st \<leftarrow> pay_write (pb_payload t) (unat offset_to) bs st;
     let offset_to = offset_to + len;
     let offset_from = offset_from + len;
     let copy_len = copy_len - ucast len;
     if \<not> (offset_to \<le> ucast (pb_len t) \<and> offset_from \<le> ucast (pb_len f)) then None
     else do {
       let (p_from, offset_from) = (if offset_from \<ge> ucast (pb_len f) then (pb_next f, 0) else (p_from, offset_from));
       if p_from = None \<and> copy_len \<noteq> 0 then Some (Inl ERR_ARG, st)
       else do {
         let (p_to, offset_to) = (if offset_to = ucast (pb_len t) then (pb_next t, 0) else (p_to, offset_to));
         if p_to = None \<and> copy_len \<noteq> 0 then Some (Inl ERR_ARG, st)
         else do {
           ok_from \<leftarrow> queue_check p_from st;
           if \<not> ok_from then Some (Inl ERR_VAL, st)
           else do {
             ok_to \<leftarrow> queue_check p_to st;
             if \<not> ok_to then Some (Inl ERR_VAL, st)
             else if copy_len \<noteq> 0 then Some (Inr (p_to, p_from, offset_to, offset_from, copy_len), st)
             else Some (Inl ERR_OK, st) } } } } })"

partial_function (option) copy_pbuf_loop :: "copy_state \<Rightarrow> pbufs \<Rightarrow> (err \<times> pbufs) option" where
  "copy_pbuf_loop c st =
     (case copy_pbuf_step c st of
        None \<Rightarrow> None
      | Some (r, st) \<Rightarrow> (case r of Inl e \<Rightarrow> Some (e, st) | Inr c \<Rightarrow> copy_pbuf_loop c st))"

definition pbuf_copy_partial_pbuf :: "ptr \<Rightarrow> ptr \<Rightarrow> u16 \<Rightarrow> u16 \<Rightarrow> pbufs \<Rightarrow> (err \<times> pbufs) option" where
  "pbuf_copy_partial_pbuf p_to p_from copy_len off st =
     (case p_from of
        None \<Rightarrow> Some (ERR_ARG, st)
      | Some f \<Rightarrow> do {
          b \<leftarrow> pb_heap st f;
          if \<not> pb_tot_len b \<ge> copy_len then Some (ERR_ARG, st)
          else
            (case p_to of
               None \<Rightarrow> Some (ERR_ARG, st)
             | Some t \<Rightarrow> do {
                 c \<leftarrow> pb_heap st t;
                 if \<not> unat (pb_tot_len c) \<ge> unat off + unat copy_len then Some (ERR_ARG, st)
                 else copy_pbuf_loop (p_to, p_from, ucast off, 0, copy_len) st }) })"

definition pbuf_copy :: "ptr \<Rightarrow> ptr \<Rightarrow> pbufs \<Rightarrow> (err \<times> pbufs) option" where
  "pbuf_copy p_to p_from st =
     (case p_from of
        None \<Rightarrow> Some (ERR_ARG, st)
      | Some f \<Rightarrow> do { b \<leftarrow> pb_heap st f; pbuf_copy_partial_pbuf p_to p_from (pb_tot_len b) 0 st })"

definition pbuf_clone :: "pbuf_layer \<Rightarrow> pbuf_type \<Rightarrow> ptr \<Rightarrow> pbufs \<Rightarrow> (ptr \<times> pbufs) option" where
  "pbuf_clone layer type p st = do {
     b \<leftarrow> pbuf_deref p st;
     (q, st) \<leftarrow> pbuf_alloc layer (pb_tot_len b) type st;
     if q = None then Some (None, st)
     else do {
       (e, st) \<leftarrow> pbuf_copy q p st;
       if e = ERR_OK then Some (q, st) else None } }"

definition pbuf_coalesce :: "ptr \<Rightarrow> pbuf_layer \<Rightarrow> pbufs \<Rightarrow> (ptr \<times> pbufs) option" where
  "pbuf_coalesce p layer st = do {
     b \<leftarrow> pbuf_deref p st;
     if pb_next b = None then Some (p, st)
     else do {
       (q, st) \<leftarrow> pbuf_clone layer PBUF_RAM p st;
       if q = None then Some (p, st)
       else do { (_, st) \<leftarrow> pbuf_free p st; Some (q, st) } } }"

text \<open>A negative result is \<open>None\<close> inside of the outer option.\<close>

definition pbuf_try_get_at :: "ptr \<Rightarrow> u16 \<Rightarrow> pbufs \<Rightarrow> byte option option" where
  "pbuf_try_get_at p off st = do {
     (q, i) \<leftarrow> pbuf_skip p off st;
     case q of
       None \<Rightarrow> Some None
     | Some a \<Rightarrow> do {
         b \<leftarrow> pb_heap st a;
         if pb_len b > i then do { bs \<leftarrow> pay_read (pb_payload b) (unat i) 1 st; Some (Some (hd bs)) } else Some None } }"

definition pbuf_get_at :: "ptr \<Rightarrow> u16 \<Rightarrow> pbufs \<Rightarrow> byte option" where
  "pbuf_get_at p off st = do { r \<leftarrow> pbuf_try_get_at p off st; Some (case r of None \<Rightarrow> 0 | Some x \<Rightarrow> x) }"

definition pbuf_put_at :: "ptr \<Rightarrow> u16 \<Rightarrow> byte \<Rightarrow> pbufs \<Rightarrow> pbufs option" where
  "pbuf_put_at p off x st = do {
     (q, i) \<leftarrow> pbuf_skip p off st;
     case q of
       None \<Rightarrow> Some st
     | Some a \<Rightarrow> do {
         b \<leftarrow> pb_heap st a;
         if pb_len b > i then pay_write (pb_payload b) (unat i) [x] st else Some st } }"

text \<open>The remaining bytes of \<open>s2\<close> are compared with the bytes from \<open>start\<close> on; \<open>i\<close> counts those before them.\<close>

fun memcmp_loop :: "ptr \<Rightarrow> u16 \<Rightarrow> nat \<Rightarrow> byte list \<Rightarrow> pbufs \<Rightarrow> u16 option" where
  "memcmp_loop q start i [] st = Some 0"
| "memcmp_loop q start i (x # xs) st =
     do { a \<leftarrow> pbuf_get_at q (start + of_nat i) st; if a \<noteq> x then Some (of_nat (min (i + 1) 0xffff)) else memcmp_loop q start (Suc i) xs st }"

definition pbuf_memcmp :: "ptr \<Rightarrow> u16 \<Rightarrow> byte list \<Rightarrow> pbufs \<Rightarrow> u16 option" where
  "pbuf_memcmp p off s2 st = do {
     b \<leftarrow> pbuf_deref p st;
     if unat (pb_tot_len b) < unat off + length s2 then Some 0xffff
     else do { (q, start) \<leftarrow> skip_loop p off st; memcmp_loop q start 0 s2 st } }"

partial_function (option) memfind_loop :: "ptr \<Rightarrow> byte list \<Rightarrow> u16 \<Rightarrow> u16 \<Rightarrow> pbufs \<Rightarrow> u16 option" where
  "memfind_loop p mem i max_cmp_start st =
     (if i \<le> max_cmp_start then
        (case pbuf_memcmp p i mem st of
           None \<Rightarrow> None
         | Some pl \<Rightarrow> if pl = 0 then Some i else memfind_loop p mem (i + 1) max_cmp_start st)
      else Some 0xffff)"

definition pbuf_memfind :: "ptr \<Rightarrow> byte list \<Rightarrow> u16 \<Rightarrow> pbufs \<Rightarrow> u16 option" where
  "pbuf_memfind p mem start_offset st = do {
     b \<leftarrow> pbuf_deref p st;
     if unat (pb_tot_len b) \<ge> length mem + unat start_offset
     then memfind_loop p mem start_offset (pb_tot_len b - of_nat (length mem)) st
     else Some 0xffff }"

text \<open>\<open>s\<close> is a string with its end marker, or a null pointer.\<close>

definition pbuf_strstr :: "ptr \<Rightarrow> byte list option \<Rightarrow> pbufs \<Rightarrow> u16 option" where
  "pbuf_strstr p s st =
     (case s of
        None \<Rightarrow> Some 0xffff
      | Some s \<Rightarrow> do {
          n \<leftarrow> c_strlen s;
          if n = 0 then Some 0xffff
          else do {
            b \<leftarrow> pbuf_deref p st;
            if pb_tot_len b = 0xffff \<or> n \<ge> 0xffff then Some 0xffff
            else pbuf_memfind p (take n s) 0 st } })"

end
