(* ===== verification/Pbuf_Content.thy ===== *)
theory Pbuf_Content
  imports Lwip_Pbuf
begin

text \<open>
  The contents of packets, \<open>lwip/core/pbuf.c\<close>. A packet is a chain of buffers whose total lengths agree with the lengths of the buffers;
  its bytes are those of the payloads, one after another. The operations on the contents are related to the bytes: reading, comparing and searching,
  writing, cloning and making one buffer of a chain.
\<close>

section \<open>Packets\<close>

text \<open>The buffers of a chain with their bytes; the total lengths are those of the rest of the chain.\<close>

type_synonym segs = "(addr \<times> byte list) list"

definition bytes :: "segs \<Rightarrow> byte list" where
  "bytes ss = concat (map snd ss)"

fun packet :: "pbufs \<Rightarrow> ptr \<Rightarrow> segs \<Rightarrow> bool" where
  "packet st p [] \<longleftrightarrow> p = None"
| "packet st p ((a, bs) # ss) \<longleftrightarrow> p = Some a \<and>
     (\<exists>b. pb_heap st a = Some b \<and> pay_read (pb_payload b) 0 (unat (pb_len b)) st = Some bs \<and>
        unat (pb_tot_len b) = length bs + length (bytes ss) \<and> packet st (pb_next b) ss)"

lemma bytes_simps [simp]: "bytes [] = []" "bytes ((a, bs) # ss) = bs @ bytes ss" "bytes (xs @ ys) = bytes xs @ bytes ys"
  by (simp_all add: bytes_def)

lemma pay_read_length: "pay_read p i n st = Some bs \<Longrightarrow> length bs = n"
  by (auto simp: pay_read_def split: option.splits bind_splits dest: peek_length)

lemma pay_read_part:
  assumes "pay_read p 0 n st = Some bs" and "i + k \<le> n"
  shows "pay_read p i k st = Some (take k (drop i bs))"
  proof -
  obtain m off v where p: "p = Some (m, off)" "pb_blocks st m = Some v" "off + n \<le> length v" "bs = take n (drop off v)"
    using assms(1) by (auto simp: pay_read_def peek_def split: option.splits bind_splits if_splits)
  have "take k (drop i bs) = take k (drop (off + i) v)" using assms(2) p(4) by (simp add: drop_take min_def add.commute)
  then show ?thesis using p(1-3) assms(2) by (simp add: pay_read_def peek_def)
qed

lemma packet_Cons:
  assumes "packet st p ((a, bs) # ss)"
  obtains b where "p = Some a" "pb_heap st a = Some b" "pay_read (pb_payload b) 0 (unat (pb_len b)) st = Some bs"
    "unat (pb_len b) = length bs" "unat (pb_tot_len b) = length (bytes ((a, bs) # ss))" "packet st (pb_next b) ss"
proof -
  obtain b where b: "p = Some a" "pb_heap st a = Some b" "pay_read (pb_payload b) 0 (unat (pb_len b)) st = Some bs"
    "unat (pb_tot_len b) = length bs + length (bytes ss)" "packet st (pb_next b) ss" using assms unfolding packet.simps by (elim conjE exE)
  have "unat (pb_len b) = length bs" using pay_read_length [OF b(3)] by simp
  then show ?thesis using that [of b] b by simp
qed

lemma packet_append: "packet st p (xs @ (a, bs) # ys) \<Longrightarrow> packet st (Some a) ((a, bs) # ys)"
  by (induction xs arbitrary: p) auto

lemma packet_total:
  assumes "packet st p ss"
  shows "length (bytes ss) < 65536"
proof (cases ss)
  case (Cons s ss')
  obtain a bs where s: "s = (a, bs)" by (cases s)
  obtain b :: pbuf where "unat (pb_tot_len b) = length (bytes ((a, bs) # ss'))" using assms unfolding Cons s by (elim packet_Cons) blast
  then show ?thesis using unat_u16_bound [of "pb_tot_len b"] Cons s by simp
qed simp

section \<open>Reading\<close>

text \<open>The place of a byte: the buffer and the distance in it.\<close>

lemma skip_loop_spec:
  assumes "packet st p ss"
  shows "\<exists>q r. skip_loop p off st = Some (q, r) \<and>
    (if unat off < length (bytes ss)
     then \<exists>xs a bs ys. ss = xs @ (a, bs) # ys \<and> q = Some a \<and> unat off = length (bytes xs) + unat r \<and> unat r < length bs
     else q = None)"
  using assms
proof (induction ss arbitrary: p off)
  case Nil
  then show ?case by (subst skip_loop.simps) simp
next
  case (Cons s ss)
  obtain a bs where s: "s = (a, bs)" by (cases s)
  obtain b where b: "p = Some a" "pb_heap st a = Some b" "unat (pb_len b) = length bs" "packet st (pb_next b) ss"
    using Cons.prems unfolding s by (elim packet_Cons) blast
  show ?case
  proof (cases "pb_len b \<le> off")
    case True
    then have e: "skip_loop p off st = skip_loop (pb_next b) (off - pb_len b) st" using b by (subst skip_loop.simps) simp
    have u: "unat (off - pb_len b) = unat off - length bs" "length bs \<le> unat off" using True b(3) by (simp_all add: unat_sub word_le_nat_alt)
    obtain q r where IH: "skip_loop (pb_next b) (off - pb_len b) st = Some (q, r)"
      "if unat off - length bs < length (bytes ss)
       then \<exists>xs a' bs' ys. ss = xs @ (a', bs') # ys \<and> q = Some a' \<and> unat off - length bs = length (bytes xs) + unat r \<and> unat r < length bs'
       else q = None" using Cons.IH [OF b(4), of "off - pb_len b"] unfolding u(1) by blast
    show ?thesis
    proof (cases "unat off < length (bytes (s # ss))")
      case lt: True
      then have "unat off - length bs < length (bytes ss)" using u(2) s by simp
      then obtain xs a' bs' ys where "ss = xs @ (a', bs') # ys" "q = Some a'" "unat off - length bs = length (bytes xs) + unat r" "unat r < length bs'"
        using IH(2) by auto
      then have "s # ss = (s # xs) @ (a', bs') # ys \<and> q = Some a' \<and> unat off = length (bytes (s # xs)) + unat r \<and> unat r < length bs'"
        using u(2) s by simp
      then have "\<exists>xs a bs ys. s # ss = xs @ (a, bs) # ys \<and> q = Some a \<and> unat off = length (bytes xs) + unat r \<and> unat r < length bs" by blast
      then show ?thesis using lt e IH(1) by simp
    next
      case False
      then have "\<not> unat off - length bs < length (bytes ss)" using u(2) s by simp
      then show ?thesis using False e IH by simp
    qed
  next
    case False
    then have e: "skip_loop p off st = Some (p, off)" using b by (subst skip_loop.simps) simp
    have lt: "unat off < length bs" using False b(3) by (simp add: word_le_nat_alt)
    have "s # ss = [] @ (a, bs) # ss \<and> p = Some a \<and> unat off = length (bytes []) + unat off \<and> unat off < length bs" using s b(1) lt by simp
    then have "\<exists>xs a bs ys. s # ss = xs @ (a, bs) # ys \<and> p = Some a \<and> unat off = length (bytes xs) + unat off \<and> unat off < length bs" by blast
    then show ?thesis using e lt s by simp
  qed
qed

lemma pbuf_try_get_at_spec:
  assumes "packet st p ss"
  shows "pbuf_try_get_at p off st = Some (if unat off < length (bytes ss) then Some (bytes ss ! unat off) else None)"
proof -
  obtain q r where k: "skip_loop p off st = Some (q, r)"
    and c: "if unat off < length (bytes ss)
     then \<exists>xs a bs ys. ss = xs @ (a, bs) # ys \<and> q = Some a \<and> unat off = length (bytes xs) + unat r \<and> unat r < length bs
     else q = None" using skip_loop_spec [OF assms, of off] by blast
  show ?thesis
  proof (cases "unat off < length (bytes ss)")
    case True
    then obtain xs a bs ys where x: "ss = xs @ (a, bs) # ys" "q = Some a" "unat off = length (bytes xs) + unat r" "unat r < length bs" using c by auto
    have "packet st (Some a) ((a, bs) # ys)" using assms unfolding x(1) by (rule packet_append)
    then obtain b where b: "pb_heap st a = Some b" "pay_read (pb_payload b) 0 (unat (pb_len b)) st = Some bs" "unat (pb_len b) = length bs"
      by (elim packet_Cons) blast
    have "pay_read (pb_payload b) (unat r) 1 st = Some (take 1 (drop (unat r) bs))" using b(2,3) x(4) by (intro pay_read_part) auto
    moreover have "hd (take 1 (drop (unat r) bs)) = bs ! unat r" using x(4) by (simp add: hd_drop_conv_nth take_Suc hd_take)
    moreover have "r < pb_len b" using b(3) x(4) by (simp add: word_less_nat_alt)
    ultimately show ?thesis using True k x b(1) by (simp add: pbuf_try_get_at_def pbuf_skip_def nth_append)
  next
    case False
    then show ?thesis using c k by (simp add: pbuf_try_get_at_def pbuf_skip_def)
  qed
qed

lemma pbuf_get_at_spec:
  "packet st p ss \<Longrightarrow> pbuf_get_at p off st = Some (if unat off < length (bytes ss) then bytes ss ! unat off else 0)"
  by (simp add: pbuf_get_at_def pbuf_try_get_at_spec)

lemma take_min: "take (min (length xs - k) n) (drop k xs) = take n (drop k xs)"
  by (cases "length xs - k \<le> n") (simp_all add: min_def)

lemma copy_partial_loop_spec:
  assumes "packet st p ss"
  shows "copy_partial_loop p len off buf st = Some (buf @ take (unat len) (drop (unat off) (bytes ss)))"
  using assms
proof (induction ss arbitrary: p len off buf)
  case Nil
  then show ?case by (subst copy_partial_loop.simps) simp
next
  case (Cons s ss)
  obtain a bs where s: "s = (a, bs)" by (cases s)
  obtain b where b: "p = Some a" "pb_heap st a = Some b" "pay_read (pb_payload b) 0 (unat (pb_len b)) st = Some bs"
      "unat (pb_len b) = length bs" "packet st (pb_next b) ss"
    using Cons.prems unfolding s by (elim packet_Cons) blast
  consider (zero) "len = 0" | (skip) "len \<noteq> 0" "off \<noteq> 0 \<and> pb_len b \<le> off" | (copy) "len \<noteq> 0" "\<not> (off \<noteq> 0 \<and> pb_len b \<le> off)" by blast
  then show ?case
  proof cases
    case zero
    then show ?thesis using b by (subst copy_partial_loop.simps) simp
  next
    case skip
    then have "copy_partial_loop p len off buf st = copy_partial_loop (pb_next b) len (off - pb_len b) buf st"
      using b by (subst copy_partial_loop.simps) simp
    moreover have "unat (off - pb_len b) = unat off - length bs" "length bs \<le> unat off" using skip b(4) by (simp_all add: unat_sub word_le_nat_alt)
    ultimately show ?thesis using Cons.IH [OF b(5)] s by simp
  next
    case copy
    have le: "off \<le> pb_len b" using copy(2) by (auto simp: not_le)
    define n where "n = min (pb_len b - off) len"
    have u: "unat (pb_len b - off) = length bs - unat off" "unat off \<le> length bs" using le b(4) by (simp_all add: unat_sub word_le_nat_alt)
    have n: "unat n = min (length bs - unat off) (unat len)" "n \<le> len" using u(1) by (auto simp: n_def min_def word_le_nat_alt)
    have rd: "pay_read (pb_payload b) (unat off) (unat n) st = Some (take (unat n) (drop (unat off) bs))"
      using b(3,4) n u(2) by (intro pay_read_part) auto
    have e: "copy_partial_loop p len off buf st = copy_partial_loop (pb_next b) (len - n) 0 (buf @ take (unat n) (drop (unat off) bs)) st"
      using copy b rd by (subst copy_partial_loop.simps) (auto simp: Let_def n_def)
    have "unat (len - n) = unat len - unat n" using n(2) by (simp add: unat_sub)
    then have "unat (len - n) = unat len - (length bs - unat off)" using n(1) by (simp add: min_def)
    then show ?thesis using e Cons.IH [OF b(5)] s n(1) u(2) by (simp add: take_min)
  qed
qed

lemma pbuf_copy_partial_spec: "packet st p ss \<Longrightarrow> pbuf_copy_partial p len off st = Some (take (unat len) (drop (unat off) (bytes ss)))"
  by (simp add: pbuf_copy_partial_def copy_partial_loop_spec)

lemma memcmp_loop_spec:
  assumes "packet st q ss" and "unat start + i + length xs \<le> length (bytes ss)"
  shows "\<exists>r. memcmp_loop q start i xs st = Some r \<and> (r = 0 \<longleftrightarrow> take (length xs) (drop (unat start + i) (bytes ss)) = xs)"
  using assms(2)
proof (induction xs arbitrary: i)
  case (Cons x xs)
  have lt: "unat start + i < length (bytes ss)" using Cons.prems by simp
  then have u: "unat (start + of_nat i) = unat start + i" using packet_total [OF assms(1)] by (simp add: unat_word_ariths unat_of_nat)
  have g: "pbuf_get_at q (start + of_nat i) st = Some (bytes ss ! (unat start + i))" using pbuf_get_at_spec [OF assms(1)] u lt by simp
  have d: "drop (unat start + i) (bytes ss) = bytes ss ! (unat start + i) # drop (unat start + Suc i) (bytes ss)"
    using lt by (simp add: Cons_nth_drop_Suc)
  show ?case
  proof (cases "bytes ss ! (unat start + i) = x")
    case True
    then show ?thesis using Cons.IH [of "Suc i"] Cons.prems g d by auto
  next
    case False
    have "unat (of_nat (min (i + 1) 65535) :: u16) = min (i + 1) 65535" by (simp add: unat_of_nat min_def)
    then have "(of_nat (min (i + 1) 65535) :: u16) \<noteq> 0" by (metis add_is_0 min_def one_neq_zero unat_0 zero_neq_numeral)
    then show ?thesis using False g d by simp
  qed
qed simp

definition occurs :: "byte list \<Rightarrow> nat \<Rightarrow> byte list \<Rightarrow> bool" where
  "occurs xs i bs \<longleftrightarrow> i + length xs \<le> length bs \<and> take (length xs) (drop i bs) = xs"

lemma pbuf_memcmp_spec:
  assumes "packet st p ss" and "p \<noteq> None"
  shows "\<exists>r. pbuf_memcmp p off xs st = Some r \<and> (r = 0 \<longleftrightarrow> occurs xs (unat off) (bytes ss))"
proof -
  obtain b where b: "pbuf_deref p st = Some b" "unat (pb_tot_len b) = length (bytes ss)"
    using assms by (cases ss) (auto simp: pbuf_deref_def elim!: packet_Cons)
  obtain q r where k: "skip_loop p off st = Some (q, r)"
    and c: "if unat off < length (bytes ss)
     then \<exists>xs a bs ys. ss = xs @ (a, bs) # ys \<and> q = Some a \<and> unat off = length (bytes xs) + unat r \<and> unat r < length bs
     else q = None" using skip_loop_spec [OF assms(1), of off] by blast
  show ?thesis
  proof (cases "unat off + length xs \<le> length (bytes ss)")
    case False
    then show ?thesis using b by (auto simp: pbuf_memcmp_def occurs_def)
  next
    case le: True
    then have e: "pbuf_memcmp p off xs st = memcmp_loop q r 0 xs st" using b k by (simp add: pbuf_memcmp_def)
    show ?thesis
    proof (cases "unat off < length (bytes ss)")
      case True
      then obtain ws a bs ys where x: "ss = ws @ (a, bs) # ys" "q = Some a" "unat off = length (bytes ws) + unat r" using c by auto
      have "packet st q ((a, bs) # ys)" using assms(1) unfolding x(1,2) by (rule packet_append)
      from memcmp_loop_spec [OF this, of r 0 xs] le x e show ?thesis by (simp add: occurs_def)
    next
      case False
      then have "length xs = 0" using le by linarith
      then have "xs = []" by simp
      then show ?thesis using e le by (simp add: occurs_def)
    qed
  qed
qed

definition first_at :: "byte list \<Rightarrow> nat \<Rightarrow> byte list \<Rightarrow> nat option" where
  "first_at xs i bs = find (\<lambda>j. occurs xs j bs) [i..<length bs + 1 - length xs]"

lemma memfind_loop_spec:
  assumes "packet st p ss" and "p \<noteq> None" and "length xs \<le> length (bytes ss)" and "unat i \<le> length (bytes ss) - length xs"
    and "unat m = length (bytes ss) - length xs"
  shows "memfind_loop p xs i m st = Some (case first_at xs (unat i) (bytes ss) of None \<Rightarrow> 0xffff | Some j \<Rightarrow> of_nat j)"
  using assms(4)
proof (induction "length (bytes ss) - length xs - unat i" arbitrary: i)
  case 0
  then have i: "unat i = length (bytes ss) - length xs" by simp
  obtain r where r: "pbuf_memcmp p i xs st = Some r" "r = 0 \<longleftrightarrow> occurs xs (unat i) (bytes ss)" using pbuf_memcmp_spec [OF assms(1,2)] by blast
  have f: "[unat i..<length (bytes ss) + 1 - length xs] = [unat i]" using i assms(3) by (simp add: Suc_diff_le)
  have "i \<le> m" using i assms(5) by (simp add: word_le_nat_alt)
  show ?case
  proof (cases "r = 0")
    case True
    then show ?thesis using r f \<open>i \<le> m\<close> by (subst memfind_loop.simps) (simp add: first_at_def)
  next
    case False
    have "xs \<noteq> []" using False r(2) i by (auto simp: occurs_def)
    then have "unat i < 65535" using i packet_total [OF assms(1)] assms(3) by (cases xs) auto
    then have "unat (i + 1) = unat i + 1" by (simp add: unat_word_ariths)
    then have "\<not> i + 1 \<le> m" using i assms(5) by (simp add: word_le_nat_alt)
    then have "memfind_loop p xs (i + 1) m st = Some 0xffff" by (subst memfind_loop.simps) simp
    then show ?thesis using False r f \<open>i \<le> m\<close> by (subst memfind_loop.simps) (simp add: first_at_def)
  qed
next
  case (Suc k)
  obtain r where r: "pbuf_memcmp p i xs st = Some r" "r = 0 \<longleftrightarrow> occurs xs (unat i) (bytes ss)" using pbuf_memcmp_spec [OF assms(1,2)] by blast
  have lt: "unat i < length (bytes ss) - length xs" using Suc.hyps(2) by simp
  then have u: "unat (i + 1) = unat i + 1" using packet_total [OF assms(1)] by (simp add: unat_word_ariths)
  have f: "[unat i..<length (bytes ss) + 1 - length xs] = unat i # [unat (i + 1)..<length (bytes ss) + 1 - length xs]"
    using lt u by (simp add: upt_conv_Cons)
  have IH: "memfind_loop p xs (i + 1) m st = Some (case first_at xs (unat (i + 1)) (bytes ss) of None \<Rightarrow> 0xffff | Some j \<Rightarrow> of_nat j)"
    using Suc.hyps(2) lt u by (intro Suc.hyps(1)) auto
  have "i \<le> m" using lt assms(5) by (simp add: word_le_nat_alt)
  then have "memfind_loop p xs i m st = (if r = 0 then Some i else memfind_loop p xs (i + 1) m st)" using r(1) by (subst memfind_loop.simps) simp
  then show ?case using r(2) IH unfolding first_at_def f by simp
qed

lemma pbuf_memfind_spec:
  assumes "packet st p ss" and "p \<noteq> None"
  shows "pbuf_memfind p xs i st = Some (case first_at xs (unat i) (bytes ss) of None \<Rightarrow> 0xffff | Some j \<Rightarrow> of_nat j)"
proof -
  obtain b where b: "pbuf_deref p st = Some b" "unat (pb_tot_len b) = length (bytes ss)"
    using assms by (cases ss) (auto simp: pbuf_deref_def elim!: packet_Cons)
  show ?thesis
  proof (cases "length xs + unat i \<le> length (bytes ss)")
    case True
    have "of_nat (length xs) \<le> pb_tot_len b" and ux: "unat (of_nat (length xs) :: u16) = length xs"
      using True b(2) packet_total [OF assms(1)] by (simp_all add: word_le_nat_alt unat_of_nat)
    then have "unat (pb_tot_len b - of_nat (length xs)) = length (bytes ss) - length xs" using b(2) by (simp add: unat_sub)
    then have "memfind_loop p xs i (pb_tot_len b - of_nat (length xs)) st = Some (case first_at xs (unat i) (bytes ss) of None \<Rightarrow> 0xffff | Some j \<Rightarrow> of_nat j)"
      using True by (intro memfind_loop_spec [OF assms]) auto
    then show ?thesis using True b by (simp add: pbuf_memfind_def)
  next
    case False
    then have "first_at xs (unat i) (bytes ss) = None" by (simp add: first_at_def)
    then show ?thesis using False b by (simp add: pbuf_memfind_def)
  qed
qed

section \<open>Writing\<close>

text \<open>The blocks that the payloads of a chain are in. Buffers of one chain that refer to different blocks can be written
  one after another.\<close>

definition pay_block :: "pbufs \<Rightarrow> addr \<Rightarrow> block_id option" where
  "pay_block st a = (case pb_heap st a of None \<Rightarrow> None | Some b \<Rightarrow> map_option fst (pb_payload b))"

definition pay_blocks :: "pbufs \<Rightarrow> segs \<Rightarrow> block_id option list" where
  "pay_blocks st ss = map (pay_block st \<circ> fst) ss"

lemma pay_blocks_simps [simp]: "pay_blocks st [] = []" "pay_blocks st ((a, bs) # ss) = pay_block st a # pay_blocks st ss"
    "pay_blocks st (xs @ ys) = pay_blocks st xs @ pay_blocks st ys"
  by (simp_all add: pay_blocks_def)

definition put_in :: "nat \<Rightarrow> byte list \<Rightarrow> byte list \<Rightarrow> byte list" where
  "put_in i src bs = take i bs @ src @ drop (i + length src) bs"

lemma put_in_length [simp]: "i + length src \<le> length bs \<Longrightarrow> length (put_in i src bs) = length bs"
  by (simp add: put_in_def)

lemma put_in_empty [simp]: "put_in i [] bs = bs"
  by (simp add: put_in_def)

text \<open>Two states with the same structures, and the same contents of all blocks but those of a set.\<close>

definition pay_frame :: "block_id option set \<Rightarrow> pbufs \<Rightarrow> pbufs \<Rightarrow> bool" where
  "pay_frame M st st' \<longleftrightarrow> pb_heap st' = pb_heap st \<and> (\<forall>m. Some m \<notin> M \<longrightarrow> pb_blocks st' m = pb_blocks st m)"

lemma pay_frame_refl [simp]: "pay_frame M st st"
  by (simp add: pay_frame_def)

lemma pay_frame_trans: "pay_frame M st st' \<Longrightarrow> pay_frame N st' st'' \<Longrightarrow> M \<subseteq> K \<Longrightarrow> N \<subseteq> K \<Longrightarrow> pay_frame K st st''"
  unfolding pay_frame_def by (metis subsetD)

lemma pay_frame_heap: "pay_frame M st st' \<Longrightarrow> pb_heap st' = pb_heap st"
  by (simp add: pay_frame_def)

lemma pay_frame_blocks: "pay_frame M st st' \<Longrightarrow> pay_block st' a = pay_block st a \<and> pay_blocks st' ss = pay_blocks st ss"
  by (simp add: pay_frame_def pay_block_def pay_blocks_def comp_def)

lemma pay_frame_read: "pay_frame M st st' \<Longrightarrow> map_option fst p \<notin> M \<Longrightarrow> pay_read p i n st' = pay_read p i n st"
  by (cases p) (auto simp: pay_frame_def pay_read_def split: prod.splits)

lemma packet_frame:
  assumes "packet st p ss" and "pay_frame M st st'" and "set (pay_blocks st ss) \<inter> M = {}"
  shows "packet st' p ss"
  using assms(1,3)
proof (induction ss arbitrary: p)
  case (Cons s ss)
  obtain a bs where s: "s = (a, bs)" by (cases s)
  obtain b where b: "p = Some a" "pb_heap st a = Some b" "pay_read (pb_payload b) 0 (unat (pb_len b)) st = Some bs"
      "unat (pb_tot_len b) = length (bytes ((a, bs) # ss))" "packet st (pb_next b) ss"
    using Cons.prems(1) unfolding s by (elim packet_Cons) blast
  have "map_option fst (pb_payload b) \<notin> M" using Cons.prems(2) b(2) s by (auto simp: pay_block_def)
  then have "pay_read (pb_payload b) 0 (unat (pb_len b)) st' = Some bs" using pay_frame_read [OF assms(2)] b(3) by simp
  moreover have "packet st' (pb_next b) ss" using Cons.IH [OF b(5)] Cons.prems(2) s by auto
  ultimately show ?case using b(1,2,4) pay_frame_heap [OF assms(2)] s by simp
qed simp

lemma pay_write_read:
  assumes "pay_read p 0 n st = Some bs" and "i + length src \<le> n"
  shows "\<exists>st'. pay_write p i src st = Some st' \<and> pay_read p 0 n st' = Some (put_in i src bs) \<and> pay_frame {map_option fst p} st st'"
proof -
  obtain m off v where p: "p = Some (m, off)" "pb_blocks st m = Some v" "off + n \<le> length v" "bs = take n (drop off v)"
    using assms(1) by (auto simp: pay_read_def peek_def split: option.splits bind_splits if_splits)
  define v' where "v' = take (off + i) v @ src @ drop (off + i + length src) v"
  have w: "poke (off + i) src v = Some v'" using p(3) assms(2) by (simp add: poke_def v'_def)
  have "take n (drop off v') = put_in i src bs"
    using p(3,4) assms(2) by (cases "i = n") (auto simp: v'_def put_in_def drop_take min_def add.commute add.left_commute)
  moreover have "off + n \<le> length v'" using p(3) assms(2) by (simp add: v'_def)
  ultimately show ?thesis using p(1,2) w
    by (intro exI [of _ "st\<lparr>pb_blocks := (pb_blocks st)(m \<mapsto> v')\<rparr>"]) (simp add: pay_write_def pay_read_def peek_def pay_frame_def)
qed

lemma packet_write:
  assumes "packet st p ((a, bs) # ss)" and "distinct (pay_blocks st ((a, bs) # ss))" and "pb_heap st a = Some b" and "i + length src \<le> length bs"
  shows "\<exists>st'. pay_write (pb_payload b) i src st = Some st' \<and> packet st' p ((a, put_in i src bs) # ss) \<and> pay_frame {pay_block st a} st st'"
proof -
  have b: "p = Some a" "pay_read (pb_payload b) 0 (unat (pb_len b)) st = Some bs" "unat (pb_len b) = length bs"
    "unat (pb_tot_len b) = length (bytes ((a, bs) # ss))" "packet st (pb_next b) ss"
    using assms(1,3) by (auto simp del: packet.simps elim!: packet_Cons)
  obtain st' where w: "pay_write (pb_payload b) i src st = Some st'" "pay_read (pb_payload b) 0 (unat (pb_len b)) st' = Some (put_in i src bs)"
     "pay_frame {map_option fst (pb_payload b)} st st'" using pay_write_read [OF b(2), of i src] b(3) assms(4) by auto
  have m: "pay_block st a = map_option fst (pb_payload b)" using assms(3) by (simp add: pay_block_def)
  have "packet st' (pb_next b) ss" using assms(2) m by (intro packet_frame [OF b(5) w(3)]) simp
  then have "packet st' p ((a, put_in i src bs) # ss)" using w(2) b(1,4) assms(3,4) pay_frame_heap [OF w(3)] by simp
  then show ?thesis using w(1,3) m by auto
qed

definition same_shape :: "segs \<Rightarrow> segs \<Rightarrow> bool" where
  "same_shape ss ss' \<longleftrightarrow> map (\<lambda>(a, bs). (a, length bs)) ss' = map (\<lambda>(a, bs). (a, length bs)) ss"

lemma shape_total: "length (bytes ss) = sum_list (map snd (map (\<lambda>(a, bs). (a, length bs)) ss))"
  by (induction ss) auto

lemma shape_blocks: "pay_blocks st ss = map (pay_block st \<circ> fst) (map (\<lambda>(a, bs). (a, length bs)) ss)"
  by (induction ss) (auto simp: pay_blocks_def)

lemma same_shape_bytes: "same_shape ss ss' \<Longrightarrow> length (bytes ss') = length (bytes ss)"
  unfolding same_shape_def shape_total by simp

lemma same_shape_blocks: "same_shape ss ss' \<Longrightarrow> pay_blocks st ss' = pay_blocks st ss"
  unfolding same_shape_def shape_blocks by simp

lemma take_loop_spec:
  assumes "packet st p ss" and "distinct (pay_blocks st ss)" and "length src \<le> length (bytes ss)"
  shows "\<exists>st' ss'. take_loop p src st = Some st' \<and> packet st' p ss' \<and> same_shape ss ss' \<and> bytes ss' = put_in 0 src (bytes ss) \<and>
    pay_frame (set (pay_blocks st ss)) st st'"
  using assms
proof (induction ss arbitrary: p src st)
  case Nil
  then have "take_loop p src st = Some st \<and> packet st p [] \<and> same_shape [] [] \<and> bytes [] = put_in 0 src (bytes []) \<and> pay_frame (set (pay_blocks st [])) st st"
    by (subst take_loop.simps) (simp add: same_shape_def)
  then show ?case by blast
next
  case (Cons s ss)
  obtain a bs where s: "s = (a, bs)" by (cases s)
  show ?case
  proof (cases "src = []")
    case True
    then have "take_loop p src st = Some st" by (subst take_loop.simps) simp
    then show ?thesis using Cons.prems(1) True by (intro exI [of _ st] exI [of _ "s # ss"]) (simp add: same_shape_def)
  next
    case False
    obtain b where b: "p = Some a" "pb_heap st a = Some b" "unat (pb_len b) = length bs"
      using Cons.prems(1) unfolding s by (elim packet_Cons) blast
    define n where "n = min (length src) (length bs)"
    obtain st1 where w: "pay_write (pb_payload b) 0 (take n src) st = Some st1" "packet st1 p ((a, put_in 0 (take n src) bs) # ss)"
      "pay_frame {pay_block st a} st st1"
      using packet_write [OF Cons.prems(1,2) [unfolded s] b(2), of 0 "take n src"] by (auto simp: n_def)
    have k: "pb_heap st1 a = Some b" using pay_frame_heap [OF w(3)] b(2) by simp
    have nx: "packet st1 (pb_next b) ss" using w(2) k by simp
    have bl: "pay_blocks st1 ss = pay_blocks st ss" using pay_frame_blocks [OF w(3)] by simp
    have dl: "length (drop n src) \<le> length (bytes ss)" using Cons.prems(3) s by (auto simp: n_def min_def)
    obtain st2 ss' where IH: "take_loop (pb_next b) (drop n src) st1 = Some st2" "packet st2 (pb_next b) ss'" "same_shape ss ss'"
      "bytes ss' = put_in 0 (drop n src) (bytes ss)" "pay_frame (set (pay_blocks st ss)) st1 st2"
      using Cons.IH [OF nx _ dl] Cons.prems(2) s bl by auto
    define bs' where "bs' = put_in 0 (take n src) bs"
    have lb: "length bs' = length bs" by (simp add: bs'_def n_def)
    have "packet st2 p ((a, bs') # ss')"
    proof -
      have "pay_read (pb_payload b) 0 (unat (pb_len b)) st1 = Some bs'" using w(2) k by (simp add: bs'_def)
      moreover have "map_option fst (pb_payload b) \<notin> set (pay_blocks st ss)" using Cons.prems(2) s b(2) by (simp add: pay_block_def)
      ultimately have "pay_read (pb_payload b) 0 (unat (pb_len b)) st2 = Some bs'" using pay_frame_read [OF IH(5)] by simp
      moreover have "unat (pb_tot_len b) = length bs' + length (bytes ss')"
        using w(2) k same_shape_bytes [OF IH(3)] by (simp add: bs'_def)
      ultimately show ?thesis using IH(2) b(1) k pay_frame_heap [OF IH(5)] by simp
    qed
    moreover have "take_loop p src st = Some st2" using False b w(1) IH(1) by (subst take_loop.simps) (simp add: n_def Let_def)
    moreover have "same_shape (s # ss) ((a, bs') # ss')" using IH(3) lb s by (simp add: same_shape_def)
    moreover have "bytes ((a, bs') # ss') = put_in 0 src (bytes (s # ss))"
      using IH(4) s by (auto simp: bs'_def put_in_def n_def min_def)
    moreover have "pay_frame (set (pay_blocks st (s # ss))) st st2" using pay_frame_trans [OF w(3) IH(5)] s by auto
    ultimately show ?thesis by (intro exI [of _ st2] exI [of _ "(a, bs') # ss'"] conjI)
  qed
qed

lemma packet_replace:
  assumes "packet st p (xs @ (a, bs) # ys)" and "packet st' (Some a) zs" and "same_shape ((a, bs) # ys) zs"
    and "pay_frame (set (pay_blocks st ((a, bs) # ys))) st st'" and "distinct (pay_blocks st (xs @ (a, bs) # ys))"
  shows "packet st' p (xs @ zs)"
  using assms(1,5)
proof (induction xs arbitrary: p)
  case Nil
  then show ?case using assms(2) by simp
next
  case (Cons s xs)
  obtain c cs where s: "s = (c, cs)" by (cases s)
  obtain b where b: "p = Some c" "pb_heap st c = Some b" "pay_read (pb_payload b) 0 (unat (pb_len b)) st = Some cs"
      "unat (pb_tot_len b) = length (bytes ((c, cs) # xs @ (a, bs) # ys))" "packet st (pb_next b) (xs @ (a, bs) # ys)"
    using Cons.prems(1) unfolding s append_Cons by (elim packet_Cons) blast
  have "packet st' (pb_next b) (xs @ zs)" using Cons.IH [OF b(5)] Cons.prems(2) s by simp
  moreover have "map_option fst (pb_payload b) \<notin> set (pay_blocks st ((a, bs) # ys))"
    using Cons.prems(2) b(2) s by (auto simp: pay_block_def)
  then have "pay_read (pb_payload b) 0 (unat (pb_len b)) st' = Some cs" using pay_frame_read [OF assms(4)] b(3) by simp
  moreover have "length (bytes zs) = length bs + length (bytes ys)" using same_shape_bytes [OF assms(3)] by simp
  ultimately show ?case using b(1,2,4) s pay_frame_heap [OF assms(4)] by simp
qed

text \<open>The outcome of writing \<open>src\<close> at the distance \<open>i\<close>.\<close>

definition written :: "pbufs \<Rightarrow> ptr \<Rightarrow> segs \<Rightarrow> nat \<Rightarrow> byte list \<Rightarrow> pbufs \<Rightarrow> segs \<Rightarrow> bool" where
  "written st p ss i src st' ss' \<longleftrightarrow> packet st' p ss' \<and> same_shape ss ss' \<and> bytes ss' = put_in i src (bytes ss) \<and>
     pay_frame (set (pay_blocks st ss)) st st'"

lemma written_prefix:
  assumes "packet st p (xs @ (a, bs) # ys)" and "distinct (pay_blocks st (xs @ (a, bs) # ys))" and "written st (Some a) ((a, bs) # ys) i src st' zs"
  shows "written st p (xs @ (a, bs) # ys) (length (bytes xs) + i) src st' (xs @ zs)"
proof -
  have w: "packet st' (Some a) zs" "same_shape ((a, bs) # ys) zs" "bytes zs = put_in i src (bytes ((a, bs) # ys))"
    "pay_frame (set (pay_blocks st ((a, bs) # ys))) st st'" using assms(3) by (simp_all only: written_def)
  have "packet st' p (xs @ zs)" using packet_replace [OF assms(1) w(1,2,4) assms(2)] .
  moreover have "same_shape (xs @ (a, bs) # ys) (xs @ zs)" using w(2) by (simp add: same_shape_def)
  moreover have "bytes (xs @ zs) = put_in (length (bytes xs) + i) src (bytes (xs @ (a, bs) # ys))" using w(3) by (simp add: put_in_def)
  moreover have "pay_frame (set (pay_blocks st (xs @ (a, bs) # ys))) st st'" using w(4) by (auto simp: pay_frame_def)
  ultimately show ?thesis by (simp only: written_def)
qed

lemma written_Cons:
  assumes "packet st1 (Some a) ((a, put_in i src bs) # ys)" and "pay_frame {pay_block st a} st st1" and "i + length src \<le> length bs"
    and "pb_heap st a = Some b" and "distinct (pay_blocks st ((a, bs) # ys))" and "written st1 (pb_next b) ys 0 src' st2 zs"
    and "src' = [] \<or> i + length src = length bs"
  shows "written st (Some a) ((a, bs) # ys) i (src @ src') st2 ((a, put_in i src bs) # zs)"
proof -
  have w: "packet st2 (pb_next b) zs" "same_shape ys zs" "bytes zs = put_in 0 src' (bytes ys)" "pay_frame (set (pay_blocks st1 ys)) st1 st2"
    using assms(6) by (simp_all only: written_def)
  have bl: "pay_blocks st1 ys = pay_blocks st ys" using pay_frame_blocks [OF assms(2)] by simp
  have f: "pay_frame (set (pay_blocks st ((a, bs) # ys))) st st2" using pay_frame_trans [OF assms(2) w(4)] bl by auto
  have h: "pb_heap st1 a = Some b" "pb_heap st2 a = Some b" using assms(4) pay_frame_heap [OF assms(2)] pay_frame_heap [OF w(4)] by simp_all
  have "map_option fst (pb_payload b) \<notin> set (pay_blocks st1 ys)" using assms(4,5) bl by (simp add: pay_block_def)
  then have "pay_read (pb_payload b) 0 (unat (pb_len b)) st2 = Some (put_in i src bs)" using pay_frame_read [OF w(4)] assms(1) h(1) by simp
  moreover have "unat (pb_tot_len b) = length (put_in i src bs) + length (bytes zs)" using assms(1) h(1) same_shape_bytes [OF w(2)] by simp
  ultimately have "packet st2 (Some a) ((a, put_in i src bs) # zs)" using w(1) h(2) by simp
  moreover have "same_shape ((a, bs) # ys) ((a, put_in i src bs) # zs)" using w(2) assms(3) by (simp add: same_shape_def)
  moreover have "bytes ((a, put_in i src bs) # zs) = put_in i (src @ src') (bytes ((a, bs) # ys))"
  proof -
    have e: "i + (length src + length src') - length bs = length src'" if "i + length src = length bs" using that by simp
    show ?thesis using assms(7) by (elim disjE) (use w(3) assms(3) in \<open>simp_all add: put_in_def e\<close>)
  qed
  ultimately show ?thesis using f by (simp only: written_def)
qed

lemma pbuf_take_spec:
  assumes "packet st p ss" and "distinct (pay_blocks st ss)" and "p \<noteq> None"
  shows "if length src \<le> length (bytes ss) then \<exists>st' ss'. pbuf_take p src st = Some (ERR_OK, st') \<and> written st p ss 0 src st' ss'
    else pbuf_take p src st = Some (ERR_MEM, st)"
proof -
  obtain a b where b: "p = Some a" "pb_heap st a = Some b" "unat (pb_tot_len b) = length (bytes ss)"
    using assms(1,3) by (cases ss) (auto elim!: packet_Cons)
  show ?thesis
  proof (cases "length src \<le> length (bytes ss)")
    case True
    obtain st' ss' where "take_loop p src st = Some st'" "written st p ss 0 src st' ss'"
      using take_loop_spec [OF assms(1,2) True] unfolding written_def by blast
    then show ?thesis using b True by (auto simp: pbuf_take_def)
  next
    case False
    then show ?thesis using b by (simp add: pbuf_take_def)
  qed
qed

lemma pbuf_take_at_here:
  assumes "packet st (Some a) ((a, bs) # ys)" and "distinct (pay_blocks st ((a, bs) # ys))" and "pb_heap st a = Some b"
    and "unat r < length bs" and "unat r + length src \<le> length (bytes ((a, bs) # ys))" and "n = min (unat (pb_len b) - unat r) (length src)"
  shows "\<exists>st1 st' zs. pay_write (pb_payload b) (unat r) (take n src) st = Some st1 \<and>
    (if length src - n > 0 then pbuf_take (pb_next b) (drop n src) st1 else Some (ERR_OK, st1)) = Some (ERR_OK, st') \<and>
    written st (Some a) ((a, bs) # ys) (unat r) src st' zs"
proof -
  have l: "unat (pb_len b) = length bs" using assms(1,3) by (auto simp del: packet.simps elim!: packet_Cons)
  have n: "unat r + length (take n src) \<le> length bs" "drop n src = [] \<or> unat r + length (take n src) = length bs"
    using assms(4,6) l by (auto simp: min_def)
  obtain st1 where w: "pay_write (pb_payload b) (unat r) (take n src) st = Some st1" "packet st1 (Some a) ((a, put_in (unat r) (take n src) bs) # ys)"
     "pay_frame {pay_block st a} st st1" using packet_write [OF assms(1-3) n(1)] by blast
  have k: "pb_heap st1 a = Some b" using pay_frame_heap [OF w(3)] assms(3) by simp
  have nx: "packet st1 (pb_next b) ys" using w(2) k by simp
  have d: "distinct (pay_blocks st1 ys)" using assms(2) pay_frame_blocks [OF w(3)] by simp
  have dl: "length (drop n src) \<le> length (bytes ys)" using assms(4-6) l by (auto simp: min_def)
  have "\<exists>st' zs. (if length src - n > 0 then pbuf_take (pb_next b) (drop n src) st1 else Some (ERR_OK, st1)) = Some (ERR_OK, st') \<and>
      written st1 (pb_next b) ys 0 (drop n src) st' zs"
  proof (cases "length src - n > 0")
    case True
    then have "pb_next b \<noteq> None" using nx dl by (cases ys) auto
    then show ?thesis using pbuf_take_spec [OF nx d, of "drop n src"] dl True by auto
  next
    case False
    then have "written st1 (pb_next b) ys 0 (drop n src) st1 ys" using nx by (simp add: written_def same_shape_def)
    then show ?thesis using False by auto
  qed
  then obtain st' zs where t: "(if length src - n > 0 then pbuf_take (pb_next b) (drop n src) st1 else Some (ERR_OK, st1)) = Some (ERR_OK, st')"
      "written st1 (pb_next b) ys 0 (drop n src) st' zs" by blast
  have "written st (Some a) ((a, bs) # ys) (unat r) (take n src @ drop n src) st' ((a, put_in (unat r) (take n src) bs) # zs)"
    by (rule written_Cons [OF w(2,3) n(1) assms(3,2) t(2) n(2)])
  then have "written st (Some a) ((a, bs) # ys) (unat r) src st' ((a, put_in (unat r) (take n src) bs) # zs)" by simp
  then show ?thesis using w(1) t(1) by blast
qed

lemma pbuf_take_at_spec:
  assumes "packet st p ss" and "distinct (pay_blocks st ss)"
  shows "if unat off < length (bytes ss) \<and> unat off + length src \<le> length (bytes ss)
    then \<exists>st' ss'. pbuf_take_at p src off st = Some (ERR_OK, st') \<and> written st p ss (unat off) src st' ss'
    else pbuf_take_at p src off st = Some (ERR_MEM, st)"
proof -
  obtain q r where k: "skip_loop p off st = Some (q, r)"
    and c: "if unat off < length (bytes ss)
     then \<exists>xs a bs ys. ss = xs @ (a, bs) # ys \<and> q = Some a \<and> unat off = length (bytes xs) + unat r \<and> unat r < length bs
     else q = None" using skip_loop_spec [OF assms(1), of off] by blast
  show ?thesis
  proof (cases "unat off < length (bytes ss)")
    case False
    then show ?thesis using c k by (simp add: pbuf_take_at_def pbuf_skip_def)
  next
    case True
    then obtain xs a bs ys where x: "ss = xs @ (a, bs) # ys" "q = Some a" "unat off = length (bytes xs) + unat r" "unat r < length bs" using c by auto
    have pk: "packet st (Some a) ((a, bs) # ys)" using assms(1) unfolding x(1) by (rule packet_append)
    have d: "distinct (pay_blocks st ((a, bs) # ys))" using assms(2) x(1) by simp
    obtain b where b: "pb_heap st a = Some b" "unat (pb_len b) = length bs" "unat (pb_tot_len b) = length (bytes ((a, bs) # ys))"
      using pk by (elim packet_Cons) blast
    have lt: "r < pb_len b" using b(2) x(4) by (simp add: word_less_nat_alt)
    show ?thesis
    proof (cases "unat off + length src \<le> length (bytes ss)")
      case fits: True
      then have le: "unat r + length src \<le> length (bytes ((a, bs) # ys))" using x(1,3) by simp
      obtain st1 st' zs where t: "pay_write (pb_payload b) (unat r) (take (min (unat (pb_len b) - unat r) (length src)) src) st = Some st1"
        "(if length src - min (unat (pb_len b) - unat r) (length src) > 0 then pbuf_take (pb_next b) (drop (min (unat (pb_len b) - unat r) (length src)) src) st1
          else Some (ERR_OK, st1)) = Some (ERR_OK, st')" "written st (Some a) ((a, bs) # ys) (unat r) src st' zs"
        using pbuf_take_at_here [OF pk d b(1) x(4) le refl] by blast
      have "pbuf_take_at p src off st = Some (ERR_OK, st')"
        using k x(2) b(1,3) le lt t(1,2) by (simp add: pbuf_take_at_def pbuf_skip_def Let_def)
      moreover have "written st p ss (unat off) src st' (xs @ zs)" using written_prefix [OF assms [unfolded x(1)] t(3)] x(1,3) by simp
      ultimately show ?thesis using True fits by auto
    next
      case False
      then show ?thesis using k x b(1,3) by (simp add: pbuf_take_at_def pbuf_skip_def)
    qed
  qed
qed

lemma pbuf_put_at_spec:
  assumes "packet st p ss" and "distinct (pay_blocks st ss)"
  shows "if unat off < length (bytes ss)
    then \<exists>st' ss'. pbuf_put_at p off x st = Some st' \<and> written st p ss (unat off) [x] st' ss'
    else pbuf_put_at p off x st = Some st"
proof -
  obtain q r where k: "skip_loop p off st = Some (q, r)"
    and c: "if unat off < length (bytes ss)
     then \<exists>xs a bs ys. ss = xs @ (a, bs) # ys \<and> q = Some a \<and> unat off = length (bytes xs) + unat r \<and> unat r < length bs
     else q = None" using skip_loop_spec [OF assms(1), of off] by blast
  show ?thesis
  proof (cases "unat off < length (bytes ss)")
    case False
    then show ?thesis using c k by (simp add: pbuf_put_at_def pbuf_skip_def)
  next
    case True
    then obtain xs a bs ys where x: "ss = xs @ (a, bs) # ys" "q = Some a" "unat off = length (bytes xs) + unat r" "unat r < length bs" using c by auto
    have pk: "packet st (Some a) ((a, bs) # ys)" using assms(1) unfolding x(1) by (rule packet_append)
    have d: "distinct (pay_blocks st ((a, bs) # ys))" using assms(2) x(1) by simp
    obtain b where b: "pb_heap st a = Some b" "unat (pb_len b) = length bs"
      using pk by (elim packet_Cons) blast
    have lt: "r < pb_len b" using b(2) x(4) by (simp add: word_less_nat_alt)
    obtain st' where w: "pay_write (pb_payload b) (unat r) [x] st = Some st'" "packet st' (Some a) ((a, put_in (unat r) [x] bs) # ys)"
      "pay_frame {pay_block st a} st st'" using packet_write [OF pk d b(1), of "unat r" "[x]"] x(4) by auto
    have "written st' (pb_next b) ys 0 [] st' ys" using w(2,3) b(1) by (simp add: written_def same_shape_def pay_frame_def)
    then have "written st (Some a) ((a, bs) # ys) (unat r) ([x] @ []) st' ((a, put_in (unat r) [x] bs) # ys)"
      using x(4) by (intro written_Cons [OF w(2,3) _ b(1) d]) auto
    from written_prefix [OF assms [unfolded x(1)] this [simplified]] k x b(1) w(1) lt True show ?thesis
      by (auto simp: pbuf_put_at_def pbuf_skip_def)
  qed
qed

section \<open>Copies\<close>

lemma layer_offset_aligned: "unat (LWIP_MEM_ALIGN_SIZE (layer_offset l)) \<le> 76"
  by (cases l) (simp_all add: unat_align)

text \<open>The request for a \<open>PBUF_RAM\<close> buffer: the sizes are checked against the wrap-around of their type.\<close>

lemma unat_align_u32: "unat ((ucast (n :: u16) + 3 :: u32) AND NOT 3) = (unat n + 3) div 4 * 4"
proof -
  have n: "unat n < 65536" using unat_u16_bound [of n] by simp
  let ?x = "ucast n + 3 :: u32"
  have x: "unat ?x = unat n + 3" using n by (simp add: unat_word_ariths unat_ucast_u32)
  have d: "unat (drop_bit 2 ?x) = (unat n + 3) div 4" unfolding unat_drop_bit_eq x by (simp add: drop_bit_eq_div)
  show ?thesis unfolding and_not_3 using n d by (simp add: push_bit_eq_mult unat_word_ariths)
qed

lemma alloc_ram_size:
  assumes "payload_len = (ucast (ucast off + ((ucast len + 3 :: u32) AND NOT 3)) :: u16)" and "unat (off :: u16) \<le> 76"
    and "\<not> (ucast payload_len :: u32) < (ucast (len :: u16) + 3) AND NOT 3"
  shows "unat off + unat len \<le> unat payload_len"
proof -
  let ?A = "(unat len + 3) div 4 * 4"
  have lt: "unat len < 65536" by (rule unat_u16_bound)
  have a: "unat ((ucast len + 3 :: u32) AND NOT 3) = ?A" by (rule unat_align_u32)
  have A: "unat len \<le> ?A" "?A \<le> 65536" using lt by presburger+
  have "unat (ucast off + ((ucast len + 3 :: u32) AND NOT 3)) = unat off + ?A"
    unfolding unat_word_ariths a unat_ucast_u32 using A(2) assms(2) by simp
  then have p: "unat payload_len = (unat off + ?A) mod 65536" unfolding assms(1) unat_ucast_low by (simp only:)
  have "?A \<le> unat payload_len" using assms(3) unfolding word_less_nat_alt a unat_ucast_u32 by simp
  moreover have "(unat off + ?A) mod 65536 = unat off + ?A - 65536" if "\<not> unat off + ?A < 65536"
    using that A(2) assms(2) by (simp add: le_mod_geq)
  ultimately have "unat off + ?A < 65536" using p A(2) assms(2) by (cases "unat off + ?A < 65536") auto
  then show ?thesis using p A(1) by simp
qed

lemma alloc_ram_small:
  assumes "payload_len = (ucast (ucast off + ((ucast len + 3 :: u32) AND NOT 3)) :: u16)" and "unat (off :: u16) \<le> 76"
    and "unat (len :: u16) \<le> 60000"
  shows "\<not> (ucast payload_len :: u32) < (ucast len + 3) AND NOT 3" and "\<not> (ucast (ucast (16 + ucast payload_len :: u32) :: u16) :: u32) < (ucast len + 3) AND NOT 3"
proof -
  let ?A = "(unat len + 3) div 4 * 4"
  have A: "?A \<le> 60000" using assms(3) by presburger
  have "unat (ucast off + ((ucast len + 3 :: u32) AND NOT 3)) = unat off + ?A"
    unfolding unat_word_ariths unat_align_u32 unat_ucast_u32 using A assms(2) by simp
  then have p: "unat payload_len = unat off + ?A" unfolding assms(1) unat_ucast_low using A assms(2) by simp
  then show "\<not> (ucast payload_len :: u32) < (ucast len + 3) AND NOT 3" unfolding word_less_nat_alt unat_align_u32 unat_ucast_u32 by simp
  have "unat (16 + ucast payload_len :: u32) = 16 + unat payload_len" unfolding unat_word_ariths unat_ucast_u32 using p A assms(2) by simp
  then show "\<not> (ucast (ucast (16 + ucast payload_len :: u32) :: u16) :: u32) < (ucast len + 3) AND NOT 3"
    unfolding word_less_nat_alt unat_align_u32 unat_ucast_u32 unat_ucast_low using p A assms(2) by simp
qed

lemma pbuf_alloc_ram:
  "\<exists>st1. pb_heap st1 = pb_heap st \<and> pb_blocks st1 = pb_blocks st \<and> pb_new st1 = pb_new st \<and>
     (pbuf_alloc layer len PBUF_RAM st = Some (None, st1) \<and> \<not> (unat len \<le> 60000 \<and> fst (heap_answer st)) \<or>
      (\<exists>off n. off + unat len \<le> n \<and>
         pbuf_alloc layer len PBUF_RAM st = Some (Some (pb_new st),
           snd (place_pbuf n (new_pbuf (Some (Own (pb_new st), off)) len len PBUF_RAM None) st1))))"
proof -
  define off where "off = LWIP_MEM_ALIGN_SIZE (layer_offset layer)"
  define alen where "alen = (ucast len + 3 :: u32) AND NOT 3"
  define pl where "pl = (ucast (ucast off + alen) :: u16)"
  define al where "al = (ucast (16 + ucast pl :: u32) :: u16)"
  obtain ans st1 where h: "heap_answer st = (ans, st1)" by (cases "heap_answer st")
  have st1: "pb_heap st1 = pb_heap st" "pb_blocks st1 = pb_blocks st" "pb_new st1 = pb_new st"
    using h by (auto simp: heap_answer_def split: list.splits)
  have e: "pbuf_alloc layer len PBUF_RAM st = (if (ucast pl :: u32) < alen \<or> (ucast al :: u32) < alen then Some (None, st)
    else if ans then Some (Some (pb_new st), snd (place_pbuf (unat pl) (new_pbuf (Some (Own (pb_new st), unat off)) len len PBUF_RAM None) st1))
    else Some (None, st1))"
    using h st1(3) unfolding pbuf_alloc_def Let_def off_def [symmetric] alen_def [symmetric] pl_def [symmetric] al_def [symmetric]
    by (simp add: place_pbuf_def split: bool.splits)
  consider (big) "(ucast pl :: u32) < alen \<or> (ucast al :: u32) < alen" | (full) "\<not> ((ucast pl :: u32) < alen \<or> (ucast al :: u32) < alen)" "\<not> ans"
    | (ok) "\<not> (ucast pl :: u32) < alen" "\<not> (ucast al :: u32) < alen" "ans" by blast
  then show ?thesis
  proof cases
    case big
    have "\<not> unat len \<le> 60000"
      using alloc_ram_small [of pl off len] big layer_offset_aligned [of layer] by (auto simp: pl_def alen_def off_def al_def)
    then show ?thesis using e big by (intro exI [of _ st]) simp
  next
    case full
    then show ?thesis using e st1 h by (intro exI [of _ st1]) simp
  next
    case ok
    have "unat off + unat len \<le> unat pl"
      using layer_offset_aligned [of layer] ok(1) by (intro alloc_ram_size) (simp_all add: pl_def alen_def off_def)
    then show ?thesis using ok e st1 by (intro exI [of _ st1] conjI disjI2 exI [of _ "unat off"] exI [of _ "unat pl"]) simp_all
  qed
qed


lemma u32_of_nat_le: "a < 65536 \<Longrightarrow> b < 65536 \<Longrightarrow> (of_nat a :: u32) \<le> of_nat b \<longleftrightarrow> a \<le> b"
  by (simp add: word_le_nat_alt unat_of_nat)

lemma u32_of_nat_eq: "a < 65536 \<Longrightarrow> b < 65536 \<Longrightarrow> (of_nat a :: u32) = of_nat b \<longleftrightarrow> a = b"
  using u32_of_nat_le [of a b] u32_of_nat_le [of b a] by auto

lemma ucast_len: "unat (n :: u16) = k \<Longrightarrow> (ucast n :: u32) = of_nat k"
  unfolding word_unat_eq_iff unat_ucast_u32 using unat_u16_bound [of n] by (auto simp: unat_of_nat)

lemma queue_check_packet:
  assumes "packet st p ss" and "list_all (\<lambda>(a, bs). bs \<noteq> []) ss"
  shows "queue_check p st = Some True"
proof (cases ss)
  case Nil
  then show ?thesis using assms(1) by (simp add: queue_check_def)
next
  case (Cons s ts)
  obtain a bs where s: "s = (a, bs)" by (cases s)
  obtain b where b: "p = Some a" "pb_heap st a = Some b" "unat (pb_len b) = length bs" "unat (pb_tot_len b) = length (bytes ((a, bs) # ts))"
      "packet st (pb_next b) ts" using assms(1) unfolding Cons s by (elim packet_Cons) blast
  have "pb_next b = None" if "pb_len b = pb_tot_len b"
  proof -
    have "bytes ts = []" using b(3,4) that by simp
    then have "ts = []" using assms(2) Cons by (cases ts) auto
    then show ?thesis using b(5) by simp
  qed
  then show ?thesis using b(1,2) by (auto simp: queue_check_def)
qed

text \<open>One round when the destination is one buffer with exactly the room that is needed: the whole source buffer is copied.\<close>

lemma copy_single_step:
  assumes "packet st (Some a) ((a, bs) # ss)" and "list_all (\<lambda>(a, bs). bs \<noteq> []) ((a, bs) # ss)" and "pb_heap st a = Some b"
    and "pb_heap st t = Some c" and "pb_next c = None" and "unat (pb_len c) = i + length (bytes ((a, bs) # ss))"
    and "pay_write (pb_payload c) i bs st = Some st1" and "pay_frame {pay_block st t} st st1"
    and "unat copy_len = length (bytes ((a, bs) # ss))" and "packet st1 (pb_next b) ss"
  shows "copy_pbuf_step (Some t, Some a, of_nat i, 0, copy_len) st =
    Some (if ss = [] then Inl ERR_OK else Inr (Some t, pb_next b, of_nat (i + length bs), 0, copy_len - pb_len b), st1)"
proof -
  have lb: "unat (pb_len b) = length bs" and rd: "pay_read (pb_payload b) 0 (length bs) st = Some bs"
    using assms(1,3) by (auto simp del: packet.simps elim!: packet_Cons)
  have lt: "i + length bs + length (bytes ss) < 65536" using assms(6) unat_u16_bound [of "pb_len c"] by simp
  have uf: "(ucast (pb_len b) :: u32) = of_nat (length bs)" using ucast_len [OF lb] .
  have ut: "(ucast (pb_len c) :: u32) = of_nat (i + length bs + length (bytes ss))" using ucast_len [OF assms(6)] by simp
  have uc: "(ucast copy_len :: u32) = of_nat (length bs + length (bytes ss))" using ucast_len [OF assms(9)] by simp
  have room: "ucast (pb_len c) - (of_nat i :: u32) = of_nat (length bs + length (bytes ss))" unfolding ut by simp
  have mn: "min (of_nat (length bs + length (bytes ss)) :: u32) (of_nat (length bs)) = of_nat (length bs)"
    using u32_of_nat_le [of "length bs" "length bs + length (bytes ss)"] lt by (simp add: min_def)
  have len: "min (ucast copy_len) (if ucast (pb_len c) - (of_nat i :: u32) \<ge> ucast (pb_len b) - 0 then ucast (pb_len b) - 0
      else ucast (pb_len c) - of_nat i) = (of_nat (length bs) :: u32)"
    unfolding room uf uc using u32_of_nat_le [of "length bs" "length bs + length (bytes ss)"] lt mn by simp
  have un: "unat (of_nat (length bs) :: u32) = length bs" "unat (of_nat i :: u32) = i" using lt by (simp_all add: unat_of_nat)
  have "ucast (of_nat (length bs) :: u32) = pb_len b" unfolding word_unat_eq_iff unat_ucast_low un(1) lb using lt by simp
  then have cl: "copy_len - ucast (of_nat (length bs) :: u32) = copy_len - pb_len b" by simp
  have chk: "(of_nat i + of_nat (length bs) :: u32) \<le> ucast (pb_len c)" "(0 + of_nat (length bs) :: u32) \<le> ucast (pb_len b)"
    unfolding ut uf using u32_of_nat_le [of "i + length bs" "i + length bs + length (bytes ss)"] lt by simp_all
  have nx: "ss = [] \<longleftrightarrow> pb_next b = None" using assms(10) by (cases ss) auto
  have ne: "bytes ss = [] \<longleftrightarrow> ss = []" using assms(2) by (cases ss) auto
  have end': "(of_nat i + of_nat (length bs) :: u32) = ucast (pb_len c) \<longleftrightarrow> ss = []"
    unfolding ut using u32_of_nat_eq [of "i + length bs" "i + length bs + length (bytes ss)"] lt ne by auto
  have "unat (copy_len - pb_len b) = length (bytes ss)" using assms(9) lb by (simp add: unat_sub word_le_nat_alt)
  then have z: "copy_len - pb_len b = 0 \<longleftrightarrow> ss = []" using ne by (metis length_0_conv unat_eq_zero)
  have q: "queue_check (pb_next b) st1 = Some True" using queue_check_packet [OF assms(10)] assms(2) by simp
  have h: "pb_heap st1 t = Some c" using assms(4) pay_frame_heap [OF assms(8)] by simp
  have d: "pbuf_deref (Some t) st = Some c" "pbuf_deref (Some a) st = Some b" using assms(3,4) by (simp_all add: pbuf_deref_def)
  have r0: "pay_read (pb_payload b) (unat (0 :: u32)) (length bs) st = Some bs" using rd by simp
  have q': "queue_check (if ss = [] then None else Some t) st1 = Some True" using h assms(5) by (simp add: queue_check_def)
  show ?thesis
    unfolding copy_pbuf_step_def prod.case Let_def d bind.bind_lunit len un r0 assms(7) cl
    using chk nx end' z q q' uf assms(5) by (cases ss) auto
qed


lemma copy_single_loop:
  assumes "packet st p ss" and "list_all (\<lambda>(a, bs). bs \<noteq> []) ss" and "ss \<noteq> []" and "pb_heap st t = Some c" and "pb_next c = None"
    and "pay_read (pb_payload c) 0 (unat (pb_len c)) st = Some cs" and "unat (pb_len c) = i + length (bytes ss)"
    and "unat copy_len = length (bytes ss)" and "pay_block st t \<notin> set (pay_blocks st ss)"
  shows "\<exists>st'. copy_pbuf_loop (Some t, p, of_nat i, 0, copy_len) st = Some (ERR_OK, st') \<and>
    pay_read (pb_payload c) 0 (unat (pb_len c)) st' = Some (take i cs @ bytes ss) \<and> pay_frame {pay_block st t} st st'"
  using assms
proof (induction ss arbitrary: p i st cs copy_len)
  case (Cons s ss)
  obtain a bs where s: "s = (a, bs)" by (cases s)
  obtain b where b: "p = Some a" "pb_heap st a = Some b" "unat (pb_len b) = length bs" "packet st (pb_next b) ss"
    using Cons.prems(1) unfolding s by (elim packet_Cons) blast
  have m: "pay_block st t = map_option fst (pb_payload c)" using Cons.prems(4) by (simp add: pay_block_def)
  have lc: "length cs = i + length bs + length (bytes ss)" using pay_read_length [OF Cons.prems(6)] Cons.prems(7) s by simp
  obtain st1 where w: "pay_write (pb_payload c) i bs st = Some st1"
      "pay_read (pb_payload c) 0 (unat (pb_len c)) st1 = Some (put_in i bs cs)" "pay_frame {pay_block st t} st st1"
    using pay_write_read [OF Cons.prems(6), of i bs] Cons.prems(7) s m by auto
  have nx: "packet st1 (pb_next b) ss" using packet_frame [OF b(4) w(3)] Cons.prems(9) s by auto
  have e: "copy_pbuf_step (Some t, Some a, of_nat i, 0, copy_len) st =
    Some (if ss = [] then Inl ERR_OK else Inr (Some t, pb_next b, of_nat (i + length bs), 0, copy_len - pb_len b), st1)"
    by (rule copy_single_step [OF Cons.prems(1,2) [unfolded s b(1)] b(2) Cons.prems(4,5) Cons.prems(7) [unfolded s] w(1,3) Cons.prems(8) [unfolded s] nx])
  show ?case
  proof (cases "ss = []")
    case True
    then have "copy_pbuf_loop (Some t, p, of_nat i, 0, copy_len) st = Some (ERR_OK, st1)" using e b(1) by (subst copy_pbuf_loop.simps) simp
    moreover have "put_in i bs cs = take i cs @ bytes (s # ss)" using lc True s by (simp add: put_in_def)
    ultimately show ?thesis using w(2,3) by auto
  next
    case False
    have bl: "pay_block st1 t = pay_block st t" "pay_blocks st1 ss = pay_blocks st ss" using pay_frame_blocks [OF w(3)] by simp_all
    have h: "pb_heap st1 t = Some c" using Cons.prems(4) pay_frame_heap [OF w(3)] by simp
    have u: "unat (copy_len - pb_len b) = length (bytes ss)" using Cons.prems(8) b(3) s by (simp add: unat_sub word_le_nat_alt)
    obtain st2 where IH: "copy_pbuf_loop (Some t, pb_next b, of_nat (i + length bs), 0, copy_len - pb_len b) st1 = Some (ERR_OK, st2)"
      "pay_read (pb_payload c) 0 (unat (pb_len c)) st2 = Some (take (i + length bs) (put_in i bs cs) @ bytes ss)" "pay_frame {pay_block st t} st1 st2"
      using Cons.IH [OF nx _ False h Cons.prems(5) w(2), of "i + length bs" "copy_len - pb_len b"] Cons.prems(2,7,9) u s bl by auto
    have "copy_pbuf_loop (Some t, p, of_nat i, 0, copy_len) st = Some (ERR_OK, st2)" using e b(1) False IH(1) by (subst copy_pbuf_loop.simps) simp
    moreover have "take (i + length bs) (put_in i bs cs) @ bytes ss = take i cs @ bytes (s # ss)" using lc s by (simp add: put_in_def)
    moreover have "pay_frame {pay_block st t} st st2" using pay_frame_trans [OF w(3) IH(3)] by auto
    ultimately show ?thesis using IH(2) by auto
  qed
qed simp

text \<open>A copy to a distance behind the first buffer of the destination never returns, although the room is checked against the total length:
  the distance is not reduced by the buffers before it.\<close>

lemma pbuf_copy_past_first:
  assumes "pb_heap st t = Some c" and "pb_heap st f = Some b" and "copy_len \<le> pb_tot_len b" and "unat off + unat copy_len \<le> unat (pb_tot_len c)"
    and "pb_len c < off"
  shows "pbuf_copy_partial_pbuf (Some t) (Some f) copy_len off st = None"
proof -
  have big: "\<not> (ucast off + min (ucast copy_len) x :: u32) \<le> ucast (pb_len c)" for x
  proof -
    have "unat (min (ucast copy_len) x) \<le> unat copy_len" using unat_ucast_u32 [of copy_len] by (simp add: min_def word_le_nat_alt)
    then have "unat (ucast off + min (ucast copy_len) x :: u32) = unat off + unat (min (ucast copy_len) x)"
      using unat_u16_bound [of off] unat_u16_bound [of copy_len] unfolding unat_word_ariths unat_ucast_u32 by simp
    then show ?thesis using assms(5) unfolding word_le_nat_alt word_less_nat_alt unat_ucast_u32 by simp
  qed
  have "copy_pbuf_step (Some t, Some f, ucast off, 0, copy_len) st = None"
    using assms(1,2) big by (simp add: copy_pbuf_step_def pbuf_deref_def Let_def split: bind_splits)
  then have "copy_pbuf_loop (Some t, Some f, ucast off, 0, copy_len) st = None" by (subst copy_pbuf_loop.simps) simp
  then show ?thesis using assms by (simp add: pbuf_copy_partial_pbuf_def)
qed

text \<open>Addresses from \<open>pb_new\<close> on are not in use.\<close>

definition fresh_above :: "pbufs \<Rightarrow> bool" where
  "fresh_above st \<longleftrightarrow> (\<forall>a. pb_new st \<le> a \<longrightarrow> pb_heap st a = None \<and> pb_blocks st (Own a) = None)"

lemma packet_cong:
  assumes "packet st p ss" and "\<And>a. a \<in> fst ` set ss \<Longrightarrow> pb_heap st' a = pb_heap st a"
    and "\<And>m. Some m \<in> set (pay_blocks st ss) \<Longrightarrow> pb_blocks st' m = pb_blocks st m"
  shows "packet st' p ss"
  using assms
proof (induction ss arbitrary: p)
  case (Cons s ss)
  obtain a bs where s: "s = (a, bs)" by (cases s)
  obtain b where b: "p = Some a" "pb_heap st a = Some b" "pay_read (pb_payload b) 0 (unat (pb_len b)) st = Some bs"
      "unat (pb_tot_len b) = length (bytes ((a, bs) # ss))" "packet st (pb_next b) ss"
    using Cons.prems(1) unfolding s by (elim packet_Cons) blast
  have "pay_read (pb_payload b) 0 (unat (pb_len b)) st' = Some bs"
    using b(2,3) Cons.prems(3) s by (cases "pb_payload b") (auto simp: pay_read_def pay_block_def split: prod.splits)
  moreover have "packet st' (pb_next b) ss" using Cons.IH [OF b(5)] Cons.prems(2,3) s by simp
  ultimately show ?case using b(1,2,4) Cons.prems(2) s by simp
qed simp

lemma packet_det: "packet st p xs \<Longrightarrow> packet st p ys \<Longrightarrow> xs = ys"
proof (induction xs arbitrary: p ys)
  case Nil
  then show ?case by (cases ys) auto
next
  case (Cons s xs)
  then show ?case by (cases s; cases ys) auto
qed

lemma packet_distinct: "packet st p ss \<Longrightarrow> distinct (map fst ss)"
proof (induction ss arbitrary: p)
  case (Cons s ss)
  obtain a bs where s: "s = (a, bs)" by (cases s)
  have p: "p = Some a" using Cons.prems s by simp
  have "a \<notin> fst ` set ss"
  proof
    assume "a \<in> fst ` set ss"
    then obtain bs' where "(a, bs') \<in> set ss" by auto
    then obtain xs ys where x: "ss = xs @ (a, bs') # ys" by (meson split_list)
    have "packet st (Some a) ((a, bs') # ys)" using Cons.prems unfolding x by (intro packet_append [of st p "s # xs"]) simp
    then have "(a, bs') # ys = s # ss" using packet_det [of st "Some a"] Cons.prems p by blast
    then show False using x by (metis append_Cons length_Cons length_append not_add_less2 lessI add_Suc_right less_irrefl not_less_eq)
  qed
  then show ?case using Cons.IH Cons.prems s by auto
qed simp

lemma packet_member:
  assumes "packet st p ss" and "(a, bs) \<in> set ss"
  obtains b m off v where "pb_heap st a = Some b" "pb_payload b = Some (m, off)" "pb_blocks st m = Some v"
proof -
  obtain xs ys where "ss = xs @ (a, bs) # ys" using assms(2) by (meson split_list)
  then have "packet st (Some a) ((a, bs) # ys)" using assms(1) packet_append by blast
  then obtain b where "pb_heap st a = Some b" "pay_read (pb_payload b) 0 (unat (pb_len b)) st = Some bs" by (elim packet_Cons) blast
  then show ?thesis using that by (auto simp: pay_read_def split: option.splits bind_splits)
qed

lemma packet_blocks_fresh:
  assumes "packet st p ss" and "fresh_above st"
  shows "Some (Own (pb_new st)) \<notin> set (pay_blocks st ss)" and "pb_new st \<notin> fst ` set ss"
proof -
  show "pb_new st \<notin> fst ` set ss"
    using assms(2) by (auto simp: fresh_above_def elim!: packet_member [OF assms(1)])
  show "Some (Own (pb_new st)) \<notin> set (pay_blocks st ss)"
  proof
    assume "Some (Own (pb_new st)) \<in> set (pay_blocks st ss)"
    then obtain a bs where a: "(a, bs) \<in> set ss" "pay_block st a = Some (Own (pb_new st))" by (auto simp: pay_blocks_def)
    obtain b m off v where "pb_heap st a = Some b" "pb_payload b = Some (m, off)" "pb_blocks st m = Some v"
      by (rule packet_member [OF assms(1) a(1)])
    then show False using a(2) assms(2) by (simp add: pay_block_def fresh_above_def)
  qed
qed

lemma pbuf_copy_single:
  assumes "packet st p ss" and "list_all (\<lambda>(a, bs). bs \<noteq> []) ss" and "p \<noteq> None" and "pb_heap st t = Some c" and "pb_next c = None"
    and "pay_read (pb_payload c) 0 (unat (pb_len c)) st = Some cs" and "unat (pb_len c) = length (bytes ss)" and "pb_tot_len c = pb_len c"
    and "pay_block st t \<notin> set (pay_blocks st ss)"
  shows "\<exists>st'. pbuf_copy (Some t) p st = Some (ERR_OK, st') \<and> packet st' (Some t) [(t, bytes ss)] \<and> pay_frame {pay_block st t} st st'"
proof -
  obtain a b where b: "p = Some a" "pb_heap st a = Some b" "unat (pb_tot_len b) = length (bytes ss)" "ss \<noteq> []"
    using assms(1,3) by (cases ss) (auto elim!: packet_Cons)
  obtain st' where l: "copy_pbuf_loop (Some t, p, of_nat 0, 0, pb_tot_len b) st = Some (ERR_OK, st')"
      "pay_read (pb_payload c) 0 (unat (pb_len c)) st' = Some (bytes ss)" "pay_frame {pay_block st t} st st'"
    using copy_single_loop [OF assms(1,2) b(4) assms(4-6) _ b(3) assms(9), of 0] assms(7) by auto
  have "pbuf_copy (Some t) p st = Some (ERR_OK, st')"
    using l(1) b assms(4,7,8) by (simp add: pbuf_copy_def pbuf_copy_partial_pbuf_def)
  moreover have "packet st' (Some t) [(t, bytes ss)]" using l(2,3) assms(4,5,7,8) pay_frame_heap [OF l(3)] by simp
  ultimately show ?thesis using l(3) by blast
qed

lemma pbuf_clone_ram:
  assumes "packet st p ss" and "list_all (\<lambda>(a, bs). bs \<noteq> []) ss" and "p \<noteq> None" and "fresh_above st"
  shows "\<exists>q st'. pbuf_clone layer PBUF_RAM p st = Some (q, st') \<and> packet st' p ss \<and>
    (if q = None then \<not> (length (bytes ss) \<le> 60000 \<and> fst (heap_answer st)) else q = Some (pb_new st) \<and> packet st' q [(pb_new st, bytes ss)] \<and> pay_block st' (pb_new st) = Some (Own (pb_new st))) \<and>
    (\<forall>a. a \<noteq> pb_new st \<longrightarrow> pb_heap st' a = pb_heap st a)"
proof -
  obtain a b where b: "p = Some a" "pb_heap st a = Some b" "unat (pb_tot_len b) = length (bytes ss)"
    using assms(1,3) by (cases ss) (auto elim!: packet_Cons)
  have de: "pbuf_deref p st = Some b" using b by (simp add: pbuf_deref_def)
  obtain st1 where s1: "pb_heap st1 = pb_heap st" "pb_blocks st1 = pb_blocks st" "pb_new st1 = pb_new st"
    and al: "pbuf_alloc layer (pb_tot_len b) PBUF_RAM st = Some (None, st1) \<and> \<not> (unat (pb_tot_len b) \<le> 60000 \<and> fst (heap_answer st)) \<or>
      (\<exists>off n. off + unat (pb_tot_len b) \<le> n \<and> pbuf_alloc layer (pb_tot_len b) PBUF_RAM st = Some (Some (pb_new st),
           snd (place_pbuf n (new_pbuf (Some (Own (pb_new st), off)) (pb_tot_len b) (pb_tot_len b) PBUF_RAM None) st1)))"
    using pbuf_alloc_ram [of st layer "pb_tot_len b"] by blast
  from al show ?thesis
  proof (elim disjE conjE exE)
    assume x: "pbuf_alloc layer (pb_tot_len b) PBUF_RAM st = Some (None, st1)" "\<not> (unat (pb_tot_len b) \<le> 60000 \<and> fst (heap_answer st))"
    have "packet st1 p ss" by (rule packet_cong [OF assms(1)]) (simp_all add: s1)
    then show ?thesis using de x b(3) s1(1) by (intro exI [of _ None] exI [of _ st1]) (simp add: pbuf_clone_def)
  next
    fix off n
    define c where "c = new_pbuf (Some (Own (pb_new st), off)) (pb_tot_len b) (pb_tot_len b) PBUF_RAM None"
    define st2 where "st2 = snd (place_pbuf n c st1)"
    assume x: "off + unat (pb_tot_len b) \<le> n" "pbuf_alloc layer (pb_tot_len b) PBUF_RAM st = Some (Some (pb_new st),
           snd (place_pbuf n (new_pbuf (Some (Own (pb_new st), off)) (pb_tot_len b) (pb_tot_len b) PBUF_RAM None) st1))"
    have c: "pb_next c = None" "pb_payload c = Some (Own (pb_new st), off)" "pb_len c = pb_tot_len b" "pb_tot_len c = pb_tot_len b"
      by (simp_all add: c_def new_pbuf_def)
    have h2: "pb_heap st2 = (pb_heap st)(pb_new st \<mapsto> c)" "pb_blocks st2 = (pb_blocks st)(Own (pb_new st) \<mapsto> map (pb_junk st1) [0..<n])"
      using s1 by (simp_all add: st2_def place_pbuf_def)
    have f: "Some (Own (pb_new st)) \<notin> set (pay_blocks st ss)" "pb_new st \<notin> fst ` set ss" by (rule packet_blocks_fresh [OF assms(1,4)])+
    have pk: "packet st2 p ss"
    proof (rule packet_cong [OF assms(1)])
      show "pb_heap st2 x = pb_heap st x" if "x \<in> fst ` set ss" for x using that f(2) by (cases "x = pb_new st") (simp_all add: h2)
      show "pb_blocks st2 m = pb_blocks st m" if "Some m \<in> set (pay_blocks st ss)" for m
        using that f(1) by (cases "m = Own (pb_new st)") (simp_all add: h2)
    qed
    have "pay_block st2 x = pay_block st x" if "x \<in> fst ` set ss" for x using that f(2) by (cases "x = pb_new st") (simp_all add: pay_block_def h2)
    then have bl: "pay_blocks st2 ss = pay_blocks st ss" by (simp add: pay_blocks_def)
    have pb: "pay_block st2 (pb_new st) = Some (Own (pb_new st))" by (simp add: pay_block_def h2 c)
    obtain cs where cs: "pay_read (pb_payload c) 0 (unat (pb_len c)) st2 = Some cs"
      using x(1) by (simp add: pay_read_def h2 c peek_def)
    obtain st' where cp: "pbuf_copy (Some (pb_new st)) p st2 = Some (ERR_OK, st')" "packet st' (Some (pb_new st)) [(pb_new st, bytes ss)]"
       "pay_frame {pay_block st2 (pb_new st)} st2 st'"
      using pbuf_copy_single [OF pk assms(2,3) _ c(1) cs, of "pb_new st"] f(1) b(3) bl pb by (auto simp: h2 c)
    have "packet st' p ss" using packet_frame [OF pk cp(3)] bl pb f(1) by simp
    moreover have "pb_heap st' a = pb_heap st a" if "a \<noteq> pb_new st" for a using pay_frame_heap [OF cp(3)] that by (simp add: h2)
    moreover have "pbuf_clone layer PBUF_RAM p st = Some (Some (pb_new st), st')" using de x(2) cp(1) by (simp add: pbuf_clone_def st2_def c_def)
    ultimately show ?thesis using cp(2) pb pay_frame_blocks [OF cp(3)] by auto
  qed
qed

text \<open>A chain that can be given back: its buffers are in use, and custom ones have their function.\<close>

definition freeable :: "pbufs \<Rightarrow> segs \<Rightarrow> bool" where
  "freeable st ss \<longleftrightarrow> list_all (\<lambda>(a, bs). \<forall>b. pb_heap st a = Some b \<longrightarrow> pb_ref b \<noteq> 0 \<and> pb_custom b \<noteq> Some None) ss"

lemma release_pbuf_frame:
  assumes "pb_custom b \<noteq> Some None"
  shows "\<exists>st'. release_pbuf a b st = Some st' \<and> pb_heap st' = (pb_heap st)(a := None) \<and> pb_blocks st' = (pb_blocks st)(Own a := None)"
  using assms by (auto simp: release_pbuf_def Let_def split: option.splits pbuf_type.splits)

fun linked :: "pbufs \<Rightarrow> ptr \<Rightarrow> addr list \<Rightarrow> bool" where
  "linked st p [] \<longleftrightarrow> p = None"
| "linked st p (a # as) \<longleftrightarrow> p = Some a \<and> (\<exists>b. pb_heap st a = Some b \<and> linked st (pb_next b) as)"

lemma packet_linked: "packet st p ss \<Longrightarrow> linked st p (map fst ss)"
  by (induction ss arbitrary: p) auto

lemma linked_cong: "linked st p as \<Longrightarrow> (\<And>a. a \<in> set as \<Longrightarrow> pb_heap st' a = pb_heap st a) \<Longrightarrow> linked st' p as"
  by (induction as arbitrary: p) auto

lemma free_loop_frame:
  assumes "linked st p as" and "distinct as" and "\<forall>a\<in>set as. \<forall>b. pb_heap st a = Some b \<longrightarrow> pb_ref b \<noteq> 0 \<and> pb_custom b \<noteq> Some None"
  shows "\<exists>k st'. free_loop p count st = Some (k, st') \<and> (\<forall>t. t \<notin> set as \<longrightarrow> pb_heap st' t = pb_heap st t) \<and>
    (\<forall>m. m \<notin> Own ` set as \<longrightarrow> pb_blocks st' m = pb_blocks st m)"
  using assms
proof (induction as arbitrary: p count st)
  case Nil
  then show ?case by (subst free_loop.simps) simp
next
  case (Cons a as)
  obtain b where b: "p = Some a" "pb_heap st a = Some b" "linked st (pb_next b) as" using Cons.prems(1) by auto
  have r: "pb_ref b \<noteq> 0" "pb_custom b \<noteq> Some None" using Cons.prems(3) b(2) by simp_all
  show ?case
  proof (cases "pb_ref b - 1 = 0")
    case True
    obtain st1 where s: "release_pbuf a b st = Some st1" "pb_heap st1 = (pb_heap st)(a := None)" "pb_blocks st1 = (pb_blocks st)(Own a := None)"
      using release_pbuf_frame [OF r(2)] by blast
    have l: "linked st1 (pb_next b) as" by (rule linked_cong [OF b(3)]) (use Cons.prems(2) s(2) in auto)
    have pre: "\<forall>e\<in>set as. \<forall>d. pb_heap st1 e = Some d \<longrightarrow> pb_ref d \<noteq> 0 \<and> pb_custom d \<noteq> Some None"
      using Cons.prems(3) s(2) by auto
    obtain k st' where IH: "free_loop (pb_next b) (count + 1) st1 = Some (k, st')" "\<forall>t. t \<notin> set as \<longrightarrow> pb_heap st' t = pb_heap st1 t"
      "\<forall>m. m \<notin> Own ` set as \<longrightarrow> pb_blocks st' m = pb_blocks st1 m"
      using Cons.IH [where count = "count + 1", OF l _ pre] Cons.prems(2) by auto
    have "free_loop p count st = Some (k, st')" using True b r s(1) IH(1) by (subst free_loop.simps) simp
    then show ?thesis using IH(2,3) s(2,3) by auto
  next
    case False
    then have "free_loop p count st = Some (count, pbuf_upd a (\<lambda>b. b\<lparr>pb_ref := pb_ref b - 1\<rparr>) st)" using b r by (subst free_loop.simps) simp
    then show ?thesis by (auto simp: pbuf_upd_def)
  qed
qed


text \<open>The number of freed buffers is counted in a byte: for a chain of 256 buffers it is 0, the value for a buffer that is still in use.\<close>

lemma free_loop_count:
  assumes "linked st p as" and "distinct as" and "\<forall>a\<in>set as. \<forall>b. pb_heap st a = Some b \<longrightarrow> pb_ref b = 1 \<and> pb_custom b \<noteq> Some None"
  shows "\<exists>st'. free_loop p count st = Some (count + of_nat (length as), st') \<and> (\<forall>a\<in>set as. pb_heap st' a = None)"
  using assms
proof (induction as arbitrary: p count st)
  case Nil
  then show ?case by (subst free_loop.simps) simp
next
  case (Cons a as)
  obtain b where b: "p = Some a" "pb_heap st a = Some b" "linked st (pb_next b) as" using Cons.prems(1) by auto
  have r: "pb_ref b = 1" "pb_custom b \<noteq> Some None" using Cons.prems(3) b(2) by simp_all
  obtain st1 where s: "release_pbuf a b st = Some st1" "pb_heap st1 = (pb_heap st)(a := None)"
    using release_pbuf_frame [OF r(2)] by blast
  have l: "linked st1 (pb_next b) as" by (rule linked_cong [OF b(3)]) (use Cons.prems(2) s(2) in auto)
  have pre: "\<forall>e\<in>set as. \<forall>d. pb_heap st1 e = Some d \<longrightarrow> pb_ref d = 1 \<and> pb_custom d \<noteq> Some None" using Cons.prems(3) s(2) by auto
  obtain st' where IH: "free_loop (pb_next b) (count + 1) st1 = Some (count + 1 + of_nat (length as), st')" "\<forall>e\<in>set as. pb_heap st' e = None"
    using Cons.IH [where count = "count + 1", OF l _ pre] Cons.prems(2) by auto
  have pre': "\<forall>e\<in>set as. \<forall>d. pb_heap st1 e = Some d \<longrightarrow> pb_ref d \<noteq> 0 \<and> pb_custom d \<noteq> Some None" using pre by auto
  have "pb_heap st' a = None"
    using free_loop_frame [where count = "count + 1", OF l _ pre'] Cons.prems(2) IH(1) s(2) by auto
  moreover have "free_loop p count st = Some (count + of_nat (length (a # as)), st')"
    using b r s(1) IH(1) by (subst free_loop.simps) (simp add: algebra_simps)
  ultimately show ?case using IH(2) by auto
qed

lemma pbuf_free_count_wraps:
  assumes "linked st p as" and "distinct as" and "length as = 256"
    and "\<forall>a\<in>set as. \<forall>b. pb_heap st a = Some b \<longrightarrow> pb_ref b = 1 \<and> pb_custom b \<noteq> Some None"
  shows "\<exists>st'. pbuf_free p st = Some (0, st') \<and> (\<forall>a\<in>set as. pb_heap st' a = None)"
proof -
  have "p \<noteq> None" using assms(1,3) by (cases as) auto
  moreover have z: "of_nat (length as) = (0 :: byte)" unfolding assms(3) word_unat_eq_iff by (simp add: unat_of_nat)
  moreover obtain st' where "free_loop p 0 st = Some (0 + of_nat (length as), st')" "\<forall>a\<in>set as. pb_heap st' a = None"
    using free_loop_count [OF assms(1,2,4), of 0] by blast
  ultimately show ?thesis by (simp only: pbuf_free_def) auto
qed



text \<open>A packet of two pool buffers with the bytes 1 to 5.\<close>

definition two_buffers :: pbufs where
  "two_buffers =
     \<lparr>pb_heap = [0 \<mapsto> (new_pbuf (Some (Own 0, 0)) 5 2 PBUF_POOL None)\<lparr>pb_next := Some 1\<rparr>, 1 \<mapsto> new_pbuf (Some (Own 1, 0)) 3 3 PBUF_POOL None],
      pb_blocks = [Own 0 \<mapsto> [1, 2, 0, 0], Own 1 \<mapsto> [3, 4, 5, 0]], pb_new = 2, pool_left = 118, ref_left = 16,
      ram_answers = [True], pb_junk = (\<lambda>i. of_nat i), custom_freed = []\<rparr>"

lemma two_buffers_packet: "packet two_buffers (Some 0) [(0, [1, 2]), (1, [3, 4, 5])]" "distinct (pay_blocks two_buffers [(0, [1, 2]), (1, [3, 4, 5])])"
  by (simp_all add: two_buffers_def new_pbuf_def pay_read_def peek_def pay_block_def)


text \<open>C16: Reading of a packet agrees with its bytes, over all buffers of the chain: copying a part out, reading one byte, comparing, and searching,
  which finds the first place from the given one on or returns 65535. All of it returns for any distance and length, also beyond the end of
  the packet.\<close>

theorem pbuf_reads_bytes:
  assumes "packet st p ss" and "p \<noteq> None"
  shows "pbuf_copy_partial p len off st = Some (take (unat len) (drop (unat off) (bytes ss))) \<and>
    pbuf_get_at p off st = Some (if unat off < length (bytes ss) then bytes ss ! unat off else 0) \<and>
    (\<exists>r. pbuf_memcmp p off xs st = Some r \<and> (r = 0 \<longleftrightarrow> occurs xs (unat off) (bytes ss))) \<and>
    pbuf_memfind p xs off st = Some (case first_at xs (unat off) (bytes ss) of None \<Rightarrow> 0xffff | Some i \<Rightarrow> of_nat i)"
  using pbuf_copy_partial_spec [OF assms(1)] pbuf_get_at_spec [OF assms(1)] pbuf_memcmp_spec [OF assms] pbuf_memfind_spec [OF assms] by simp

theorem pbuf_reads_bytes_witness:
  "pbuf_copy_partial (Some 0) 9 1 two_buffers = Some [2, 3, 4, 5] \<and> pbuf_get_at (Some 0) 2 two_buffers = Some 3 \<and>
   pbuf_memfind (Some 0) [2, 3] 0 two_buffers = Some 1 \<and> pbuf_memfind (Some 0) [2, 3] 2 two_buffers = Some 0xffff"
  using pbuf_reads_bytes [OF two_buffers_packet(1), of 9 1 "[]"] pbuf_reads_bytes [OF two_buffers_packet(1), of 0 2 "[2, 3]"]
    pbuf_reads_bytes [OF two_buffers_packet(1), of 0 0 "[2, 3]"]
  by (simp add: first_at_def occurs_def upt_rec)

text \<open>C17: Writing into a packet whose buffers have separate memory is checked: data that fit from a distance inside of the packet on are
  written there, over the borders of the buffers, and read back unchanged, with the rest of the packet and the structure of the chain as
  before; otherwise the result is \<open>ERR_MEM\<close> and nothing is written.\<close>

theorem pbuf_take_at_checked:
  assumes "packet st p ss" and "distinct (pay_blocks st ss)" and "length src < 65536"
  shows "if unat off < length (bytes ss) \<and> unat off + length src \<le> length (bytes ss)
    then \<exists>st' ss'. pbuf_take_at p src off st = Some (ERR_OK, st') \<and> packet st' p ss' \<and> same_shape ss ss' \<and>
      bytes ss' = take (unat off) (bytes ss) @ src @ drop (unat off + length src) (bytes ss) \<and>
      pbuf_copy_partial p (of_nat (length src)) off st' = Some src
    else pbuf_take_at p src off st = Some (ERR_MEM, st)"
proof (cases "unat off < length (bytes ss) \<and> unat off + length src \<le> length (bytes ss)")
  case True
  then obtain st' ss' where t: "pbuf_take_at p src off st = Some (ERR_OK, st')" "written st p ss (unat off) src st' ss'"
    using pbuf_take_at_spec [OF assms(1,2), of off src] by auto
  then have w: "packet st' p ss'" "same_shape ss ss'" "bytes ss' = take (unat off) (bytes ss) @ src @ drop (unat off + length src) (bytes ss)"
    by (simp_all add: written_def put_in_def)
  have "pbuf_copy_partial p (of_nat (length src)) off st' = Some src"
    unfolding pbuf_copy_partial_spec [OF w(1)] w(3) using True assms(3) by (simp add: unat_of_nat)
  then show ?thesis using True t(1) w by auto
next
  case False
  then show ?thesis using pbuf_take_at_spec [OF assms(1,2), of off src] by auto
qed

theorem pbuf_take_at_checked_witness:
  "(\<exists>st' ss'. pbuf_take_at (Some 0) [7, 8] 1 two_buffers = Some (ERR_OK, st') \<and> packet st' (Some 0) ss' \<and> bytes ss' = [1, 7, 8, 4, 5]) \<and>
   pbuf_take_at (Some 0) [7, 8] 4 two_buffers = Some (ERR_MEM, two_buffers)"
  using pbuf_take_at_checked [OF two_buffers_packet, of "[7, 8]" 1] pbuf_take_at_checked [OF two_buffers_packet, of "[7, 8]" 4] by auto

end
