(* ===== verification/Pbuf_Refs.thy ===== *)
theory Pbuf_Refs
  imports Lwip_Pbuf
begin

text \<open>
  The reference counts of the packet buffers, \<open>lwip/core/pbuf.c\<close>. The references that the users hold are a part of the state; the invariant
  relates them and the pointers between buffers to the counts. Each operation is one step or a sequence of the steps of the first section, and
  keeps the invariant and the number of elements of the pools.
\<close>

section \<open>The references to a buffer\<close>

text \<open>What a buffer has to do with references: the next buffer, the count, the type, and the function of a custom one.\<close>

type_synonym ref_info = "ptr \<times> byte \<times> pbuf_type \<times> nat option option"

definition view :: "pbufs \<Rightarrow> addr \<Rightarrow> ref_info option" where
  "view st a = map_option (\<lambda>b. (pb_next b, pb_ref b, pb_type b, pb_custom b)) (pb_heap st a)"

text \<open>The pointers from buffer to buffer, except those of some buffers.\<close>

definition links :: "addr set \<Rightarrow> pbufs \<Rightarrow> (addr \<times> addr) set" where
  "links E st = {(a, n). a \<notin> E \<and> (\<exists>r. view st a = Some (Some n, r))}"

definition preds :: "addr set \<Rightarrow> pbufs \<Rightarrow> addr \<Rightarrow> addr set" where
  "preds E st a = {x. (x, a) \<in> links E st}"

text \<open>With \<open>H a\<close> references to \<open>a\<close> held outside of the buffers, the counts are right, nothing points to a freed buffer, and the
  chains end.\<close>

definition refs_ok :: "addr set \<Rightarrow> (addr \<Rightarrow> nat) \<Rightarrow> pbufs \<Rightarrow> bool" where
  "refs_ok E H st \<longleftrightarrow> finite (dom (view st)) \<and> (\<forall>a\<in>dom (view st). a < pb_new st) \<and> acyclic (links E st) \<and>
     (\<forall>a. 0 < H a + card (preds E st a) \<longrightarrow> a \<in> dom (view st)) \<and>
     (\<forall>a n r t c. view st a = Some (n, r, t, c) \<longrightarrow> c \<noteq> Some None \<and> 0 < unat r \<and> unat r = H a + card (preds E st a))"

definition add_ref :: "ptr \<Rightarrow> (addr \<Rightarrow> nat) \<Rightarrow> addr \<Rightarrow> nat" where
  "add_ref p H = (case p of None \<Rightarrow> H | Some a \<Rightarrow> H(a := H a + 1))"

definition drop_ref :: "addr \<Rightarrow> (addr \<Rightarrow> nat) \<Rightarrow> addr \<Rightarrow> nat" where
  "drop_ref a H = H(a := H a - 1)"

lemma add_ref_simps [simp]: "add_ref None H = H" "add_ref (Some a) H = H(a := H a + 1)"
  by (simp_all add: add_ref_def)

lemma drop_add_ref [simp]: "drop_ref a (H(a := H a + 1)) = H" "drop_ref a (H(a := Suc (H a))) = H"
  by (auto simp: drop_ref_def)

lemma preds_finite: "finite (dom (view st)) \<Longrightarrow> finite (preds E st a)"
  by (rule finite_subset [of _ "dom (view st)"]) (auto simp: preds_def links_def)

lemma refs_okD:
  assumes "refs_ok E H st"
  shows "finite (dom (view st))" and "a \<in> dom (view st) \<Longrightarrow> a < pb_new st" and "acyclic (links E st)" and "0 < H a \<Longrightarrow> a \<in> dom (view st)"
    and "(x, a) \<in> links E st \<Longrightarrow> a \<in> dom (view st)"
    and "view st a = Some (n, r, t, c) \<Longrightarrow> c \<noteq> Some None \<and> 0 < unat r \<and> unat r = H a + card (preds E st a)"
proof -
  show f: "finite (dom (view st))" using assms by (simp only: refs_ok_def)
  show "a \<in> dom (view st) \<Longrightarrow> a < pb_new st" "acyclic (links E st)" using assms unfolding refs_ok_def by blast+
  show "0 < H a \<Longrightarrow> a \<in> dom (view st)" using assms unfolding refs_ok_def by (meson add_gr_0)
  have "\<forall>a n r t c. view st a = Some (n, r, t, c) \<longrightarrow> c \<noteq> Some None \<and> 0 < unat r \<and> unat r = H a + card (preds E st a)"
    using assms unfolding refs_ok_def by (elim conjE)
  then show "view st a = Some (n, r, t, c) \<Longrightarrow> c \<noteq> Some None \<and> 0 < unat r \<and> unat r = H a + card (preds E st a)" by metis
  assume "(x, a) \<in> links E st"
  then have "preds E st a \<noteq> {}" by (auto simp: preds_def)
  then have "0 < card (preds E st a)" using preds_finite [OF f] by (simp add: card_gt_0_iff)
  then show "a \<in> dom (view st)" using assms unfolding refs_ok_def by (meson add_gr_0)
qed

lemma refs_ok_cong: "view st' = view st \<Longrightarrow> pb_new st' = pb_new st \<Longrightarrow> refs_ok E H st' = refs_ok E H st"
  by (simp add: refs_ok_def preds_def links_def)

text \<open>The steps of the operations: a new buffer, one more or one less reference, a new pointer, and a buffer that is released.\<close>

lemma refs_new:
  assumes "refs_ok E H st" and "a \<notin> dom (view st)" and "view st' = (view st)(a \<mapsto> (None, 1, t, c))" and "c \<noteq> Some None"
    and "a < pb_new st'" and "pb_new st \<le> pb_new st'"
  shows "refs_ok E (H(a := H a + 1)) st'"
proof -
  have l: "links E st' = links E st" using assms(2,3) by (auto simp: links_def dom_def split: if_splits)
  then have p: "preds E st' = preds E st" by (auto simp: preds_def)
  have pa: "preds E st a = {}" using refs_okD(5) [OF assms(1)] assms(2) by (auto simp: preds_def)
  have ha: "H a = 0" using refs_okD(4) [OF assms(1), of a] assms(2) by auto
  show ?thesis
    unfolding refs_ok_def l p
  proof (intro conjI allI impI ballI)
    show "finite (dom (view st'))" using refs_okD(1) [OF assms(1)] assms(3) by simp
    show "b < pb_new st'" if "b \<in> dom (view st')" for b
      using that refs_okD(2) [OF assms(1), of b] assms(3,5,6) by (cases "b = a") (auto intro: less_le_trans)
    show "acyclic (links E st)" by (rule refs_okD(3) [OF assms(1)])
    show "b \<in> dom (view st')" if "0 < (H(a := H a + 1)) b + card (preds E st b)" for b
      using that assms(1,3) by (auto simp: refs_ok_def split: if_splits)
    fix b n r t' c' assume b: "view st' b = Some (n, r, t', c')"
    have "c' \<noteq> Some None \<and> 0 < unat r \<and> unat r = (H(a := H a + 1)) b + card (preds E st b)"
      using b assms(3,4) pa ha refs_okD(6) [OF assms(1), of b n r t' c'] by (cases "b = a") auto
    then show "c' \<noteq> Some None" "0 < unat r" "unat r = (H(a := H a + 1)) b + card (preds E st b)" by blast+
  qed
qed

lemma refs_count:
  assumes "refs_ok E H st" and "view st a = Some (n, r, t, c)" and "view st' = (view st)(a \<mapsto> (n, r', t, c))" and "0 < unat r'"
    and "pb_new st' = pb_new st" and "unat r' + H a = unat r + k"
  shows "refs_ok E (H(a := k)) st'"
proof -
  have l: "links E st' = links E st" using assms(2,3) by (auto simp: links_def split: if_splits)
  then have p: "preds E st' = preds E st" by (auto simp: preds_def)
  have d: "dom (view st') = dom (view st)" using assms(2,3) by auto
  show ?thesis
    unfolding refs_ok_def l p d
  proof (intro conjI allI impI ballI)
    show "finite (dom (view st))" "acyclic (links E st)" "\<And>b. b \<in> dom (view st) \<Longrightarrow> b < pb_new st'"
      using refs_okD(1-3) [OF assms(1)] assms(5) by auto
    show "b \<in> dom (view st)" if "0 < (H(a := k)) b + card (preds E st b)" for b
      using that assms(1,2) by (cases "b = a") (auto simp: refs_ok_def)
    fix b n' s t' c' assume b: "view st' b = Some (n', s, t', c')"
    have "c' \<noteq> Some None \<and> 0 < unat s \<and> unat s = (H(a := k)) b + card (preds E st b)"
      using b assms(3,4,6) refs_okD(6) [OF assms(1,2)] refs_okD(6) [OF assms(1), of b n' s t' c'] by (cases "b = a") auto
    then show "c' \<noteq> Some None" "0 < unat s" "unat s = (H(a := k)) b + card (preds E st b)" by blast+
  qed
qed


lemma acyclic_add:
  assumes "acyclic r" and "(n, l) \<notin> r\<^sup>*"
  shows "acyclic (insert (l, n) r)"
  using assms by (simp add: acyclic_insert)

lemma refs_link:
  assumes "refs_ok E H st" and "view st l = Some (None, r, i)" and "l \<notin> E" and "0 < H n" and "(n, l) \<notin> (links E st)\<^sup>*"
    and "view st' = (view st)(l \<mapsto> (Some n, r, i))" and "pb_new st' = pb_new st"
  shows "refs_ok E (drop_ref n H) st'"
proof -
  have l: "links E st' = insert (l, n) (links E st)" using assms(2,3,6) by (auto simp: links_def split: if_splits)
  have p: "preds E st' b = (if b = n then insert l (preds E st n) else preds E st b)" for b unfolding preds_def l by auto
  have "l \<notin> preds E st n" using assms(2) by (auto simp: preds_def links_def)
  then have card: "card (preds E st' b) = (if b = n then Suc (card (preds E st n)) else card (preds E st b))" for b
    using preds_finite [OF refs_okD(1) [OF assms(1)]] by (simp add: p)
  have d: "dom (view st') = dom (view st)" using assms(2,6) by auto
  show ?thesis
    unfolding refs_ok_def d
  proof (intro conjI allI impI ballI)
    show "finite (dom (view st))" "\<And>b. b \<in> dom (view st) \<Longrightarrow> b < pb_new st'" using refs_okD(1,2) [OF assms(1)] assms(7) by auto
    show "acyclic (links E st')" unfolding l using refs_okD(3) [OF assms(1)] assms(5) by (rule acyclic_add)
    show "b \<in> dom (view st)" if "0 < drop_ref n H b + card (preds E st' b)" for b
      using that assms(1,4) unfolding card drop_ref_def by (cases "b = n") (auto simp: refs_ok_def)
    fix b m s t c assume b: "view st' b = Some (m, s, t, c)"
    then obtain m' where "view st b = Some (m', s, t, c)" using assms(2,6) by (cases "b = l") auto
    from refs_okD(6) [OF assms(1) this] have "c \<noteq> Some None \<and> 0 < unat s \<and> unat s = drop_ref n H b + card (preds E st' b)"
      unfolding card drop_ref_def using assms(4) by (cases "b = n") auto
    then show "c \<noteq> Some None" "0 < unat s" "unat s = drop_ref n H b + card (preds E st' b)" by blast+
  qed
qed

lemma refs_unlink:
  assumes "refs_ok E H st" and "view st l = Some (Some n, i)" and "l \<notin> E" and "pb_new st' = pb_new st"
    and "links E' st' = links E st - {(l, n)}" and "\<And>b. map_option snd (view st' b) = map_option snd (view st b)"
  shows "refs_ok E' (H(n := H n + 1)) st'"
proof -
  have ln: "(l, n) \<in> links E st" using assms(2,3) by (cases i) (auto simp: links_def)
  have p: "preds E' st' b = (if b = n then preds E st n - {l} else preds E st b)" for b unfolding preds_def assms(5) by auto
  have "l \<in> preds E st n" using ln by (simp add: preds_def)
  then have pos: "card (preds E st n) = Suc (card (preds E st n - {l}))"
    using preds_finite [OF refs_okD(1) [OF assms(1)]] by (intro card_Suc_Diff1 [symmetric])
  have "view st' b = None \<longleftrightarrow> view st b = None" for b using assms(6) [of b] by (metis map_option_is_None)
  then have d: "dom (view st') = dom (view st)" by (simp add: dom_def)
  show ?thesis
    unfolding refs_ok_def d
  proof (intro conjI allI impI ballI)
    show "finite (dom (view st))" "\<And>b. b \<in> dom (view st) \<Longrightarrow> b < pb_new st'" using refs_okD(1,2) [OF assms(1)] assms(4) by auto
    show "acyclic (links E' st')" unfolding assms(5) using refs_okD(3) [OF assms(1)] by (rule acyclic_subset) auto
    show "b \<in> dom (view st)" if "0 < (H(n := H n + 1)) b + card (preds E' st' b)" for b
      using that assms(1) refs_okD(5) [OF assms(1) ln] unfolding p by (cases "b = n") (auto simp: refs_ok_def)
    fix b m s t c assume b: "view st' b = Some (m, s, t, c)"
    then obtain m' where "view st b = Some (m', s, t, c)" using assms(6) [of b] by (cases "view st b") auto
    from refs_okD(6) [OF assms(1) this] have "c \<noteq> Some None \<and> 0 < unat s \<and> unat s = (H(n := H n + 1)) b + card (preds E' st' b)"
      unfolding p using pos by (cases "b = n") auto
    then show "c \<noteq> Some None" "0 < unat s" "unat s = (H(n := H n + 1)) b + card (preds E' st' b)" by blast+
  qed
qed

lemma refs_remove:
  assumes "refs_ok E H st" and "view st a = Some (None, 1, i)" and "0 < H a" and "view st' = (view st)(a := None)" and "pb_new st' = pb_new st"
  shows "refs_ok E (drop_ref a H) st'"
proof -
  obtain t c where i: "i = (t, c)" by (cases i)
  have "H a + card (preds E st a) = 1" using refs_okD(6) [OF assms(1) assms(2) [unfolded i]] by simp
  then have ha: "H a = 1" "card (preds E st a) = 0" using assms(3) by simp_all
  have l: "links E st' = links E st" using assms(2,4) by (auto simp: links_def split: if_splits)
  then have p: "preds E st' = preds E st" by (auto simp: preds_def)
  show ?thesis
    unfolding refs_ok_def l p
  proof (intro conjI allI impI ballI)
    show "finite (dom (view st'))" using refs_okD(1) [OF assms(1)] assms(4) by simp
    show "b < pb_new st'" if "b \<in> dom (view st')" for b using that refs_okD(2) [OF assms(1), of b] assms(4,5) by (auto split: if_splits)
    show "acyclic (links E st)" by (rule refs_okD(3) [OF assms(1)])
    show "b \<in> dom (view st')" if "0 < drop_ref a H b + card (preds E st b)" for b
      using that assms(1,4) ha by (cases "b = a") (auto simp: refs_ok_def drop_ref_def)
    fix b n r t' c' assume b: "view st' b = Some (n, r, t', c')"
    have "c' \<noteq> Some None \<and> 0 < unat r \<and> unat r = drop_ref a H b + card (preds E st b)"
      using b assms(4) refs_okD(6) [OF assms(1), of b n r t' c'] by (cases "b = a") (auto simp: drop_ref_def)
    then show "c' \<noteq> Some None" "0 < unat r" "unat r = drop_ref a H b + card (preds E st b)" by blast+
  qed
qed

section \<open>The elements of the pools\<close>

definition is_pool :: "pbuf_type \<times> nat option option \<Rightarrow> bool" where
  "is_pool i \<longleftrightarrow> i = (PBUF_POOL, None)"

definition is_ref :: "pbuf_type \<times> nat option option \<Rightarrow> bool" where
  "is_ref i \<longleftrightarrow> i = (PBUF_REF, None) \<or> i = (PBUF_ROM, None)"

definition number :: "(pbuf_type \<times> nat option option \<Rightarrow> bool) \<Rightarrow> pbufs \<Rightarrow> nat" where
  "number P st = card {a. \<exists>n r i. view st a = Some (n, r, i) \<and> P i}"

text \<open>The elements of the two pools, in use or not.\<close>

definition totals :: "pbufs \<Rightarrow> nat \<times> nat" where
  "totals st = (pool_left st + number is_pool st, ref_left st + number is_ref st)"

lemma number_cong:
  assumes "\<And>b. map_option (snd \<circ> snd) (view st' b) = map_option (snd \<circ> snd) (view st b)"
  shows "number P st' = number P st"
proof -
  have "(\<exists>n r i. view st' a = Some (n, r, i) \<and> P i) \<longleftrightarrow> (\<exists>n r i. view st a = Some (n, r, i) \<and> P i)" for a
    using assms [of a] by (cases "view st a"; cases "view st' a") auto
  then show ?thesis by (simp add: number_def)
qed

lemma number_finite: "finite (dom (view st)) \<Longrightarrow> finite {a. \<exists>n r i. view st a = Some (n, r, i) \<and> P i}"
  by (rule finite_subset [of _ "dom (view st)"]) auto

lemma number_new:
  assumes "finite (dom (view st))" and "a \<notin> dom (view st)" and "view st' = (view st)(a \<mapsto> (n, r, i))"
  shows "number P st' = number P st + (if P i then 1 else 0)"
proof -
  have "{b. \<exists>n r i. view st' b = Some (n, r, i) \<and> P i} = {b. \<exists>n r i. view st b = Some (n, r, i) \<and> P i} \<union> (if P i then {a} else {})"
    using assms(2,3) by (cases i) (auto split: if_splits)
  moreover have "a \<notin> {b. \<exists>n r i. view st b = Some (n, r, i) \<and> P i}" using assms(2) by auto
  ultimately show ?thesis using number_finite [OF assms(1), of P] by (simp add: number_def)
qed

lemma number_remove:
  assumes "finite (dom (view st))" and "view st a = Some (n, r, i)" and "view st' = (view st)(a := None)"
  shows "number P st = number P st' + (if P i then 1 else 0)"
proof (rule number_new)
  show "finite (dom (view st'))" "a \<notin> dom (view st')" using assms(1,3) by simp_all
  show "view st = (view st')(a \<mapsto> (n, r, i))" using assms(2,3) by auto
qed

lemma view_upd: "pb_heap st a = Some b \<Longrightarrow> view (pbuf_upd a f st) = (view st)(a \<mapsto> (pb_next (f b), pb_ref (f b), pb_type (f b), pb_custom (f b)))"
  by (auto simp: view_def pbuf_upd_def)

lemma pbuf_upd_simps [simp]: "pb_new (pbuf_upd a f st) = pb_new st" "pool_left (pbuf_upd a f st) = pool_left st" "ref_left (pbuf_upd a f st) = ref_left st"
  by (simp_all add: pbuf_upd_def)

lemma release_pbuf_refs:
  assumes "finite (dom (view st))" and "pb_heap st a = Some b" and "pb_custom b \<noteq> Some None"
  shows "\<exists>st'. release_pbuf a b st = Some st' \<and> view st' = (view st)(a := None) \<and> pb_new st' = pb_new st \<and> totals st' = totals st"
proof -
  define st1 where "st1 = st\<lparr>pb_heap := (pb_heap st)(a := None), pb_blocks := (pb_blocks st)(Own a := None)\<rparr>"
  have v: "view st1 = (view st)(a := None)" by (auto simp: view_def st1_def)
  have n: "number P st = number P st1 + (if P (pb_type b, pb_custom b) then 1 else 0)" for P
    using assms(2) by (intro number_remove [OF assms(1) _ v]) (simp add: view_def)
  have v2: "view (st1\<lparr>pool_left := k\<rparr>) = view st1" "view (st1\<lparr>ref_left := k\<rparr>) = view st1" "view (st1\<lparr>custom_freed := l\<rparr>) = view st1" for k l
    by (auto simp: view_def)
  then have n2: "number P (st1\<lparr>pool_left := k\<rparr>) = number P st1" "number P (st1\<lparr>ref_left := k\<rparr>) = number P st1"
      "number P (st1\<lparr>custom_freed := l\<rparr>) = number P st1" for P k l by (simp_all add: number_def)
  have s: "pool_left st1 = pool_left st" "ref_left st1 = ref_left st" "pb_new st1 = pb_new st" by (simp_all add: st1_def)
  show ?thesis
  proof (cases "pb_custom b")
    case None
    then show ?thesis using v v2 n n2 s
      by (cases "pb_type b") (simp_all add: release_pbuf_def st1_def [symmetric] totals_def is_pool_def is_ref_def)
  next
    case (Some f)
    then obtain g where "f = Some g" using assms(3) by (cases f) auto
    then show ?thesis using Some v v2 n n2 s by (simp add: release_pbuf_def st1_def [symmetric] totals_def is_pool_def is_ref_def)
  qed
qed

section \<open>Giving buffers back\<close>

lemma refs_release:
  assumes "refs_ok E H st" and "view st a = Some (nx, 1, i)" and "0 < H a" and "a \<notin> E" and "view st' = (view st)(a := None)" and "pb_new st' = pb_new st"
  shows "refs_ok E (add_ref nx (drop_ref a H)) st'"
proof (cases nx)
  case None
  then show ?thesis using refs_remove [OF assms(1) _ assms(3,5,6)] assms(2) by simp
next
  case (Some n)
  obtain b where b: "pb_heap st a = Some b" "pb_ref b = 1" "(pb_type b, pb_custom b) = i" using assms(2) by (auto simp: view_def)
  let ?st1 = "pbuf_upd a (\<lambda>b. b\<lparr>pb_next := None\<rparr>) st"
  have v1: "view ?st1 = (view st)(a \<mapsto> (None, 1, i))" using b by (simp add: view_upd)
  have an: "n \<noteq> a"
  proof
    assume "n = a"
    then have "(a, a) \<in> links E st" using assms(2,4) Some by (auto simp: links_def)
    then show False using refs_okD(3) [OF assms(1)] by (auto simp: acyclic_def)
  qed
  have "refs_ok E (H(n := H n + 1)) ?st1"
  proof (rule refs_unlink [OF assms(1)])
    show "view st a = Some (Some n, 1, i)" using assms(2) Some by simp
    show "links E ?st1 = links E st - {(a, n)}" using assms(2,4) Some v1 by (auto simp: links_def split: if_splits)
    show "map_option snd (view ?st1 c) = map_option snd (view st c)" for c using v1 assms(2) by simp
  qed (simp_all add: assms(4))
  then have "refs_ok E (drop_ref a (H(n := H n + 1))) st'"
    by (rule refs_remove) (use v1 assms(3,5,6) an in \<open>auto simp: fun_upd_def\<close>)
  moreover have "drop_ref a (H(n := H n + 1)) = add_ref nx (drop_ref a H)" using an Some by (auto simp: drop_ref_def)
  ultimately show ?thesis by simp
qed

lemma unref_refs:
  assumes "refs_ok E H st" and "0 < H a" and "pb_heap st a = Some b" and "pb_ref b - 1 \<noteq> 0" and "st' = pbuf_upd a (\<lambda>b. b\<lparr>pb_ref := pb_ref b - 1\<rparr>) st"
  shows "refs_ok E (drop_ref a H) st' \<and> totals st' = totals st"
proof -
  have v: "view st a = Some (pb_next b, pb_ref b, pb_type b, pb_custom b)" using assms(3) by (simp add: view_def)
  have v': "view st' = (view st)(a \<mapsto> (pb_next b, pb_ref b - 1, pb_type b, pb_custom b))" using assms(3,5) by (simp add: view_upd)
  have r: "0 < unat (pb_ref b)" using refs_okD(6) [OF assms(1) v] by blast
  then have nz: "pb_ref b \<noteq> 0" by auto
  have "pb_ref b \<noteq> 1" using assms(4) by auto
  then have u: "unat (pb_ref b - 1) = unat (pb_ref b) - 1" "1 < unat (pb_ref b)" using nz r
    by (simp_all add: unat_sub word_le_nat_alt) (metis One_nat_def Suc_lessI unat_1 word_unat_eq_iff)
  have "refs_ok E (H(a := H a - 1)) st'"
    by (rule refs_count [OF assms(1) v v']) (use u assms(2,5) in simp_all)
  moreover have "map_option (snd \<circ> snd) (view st' c) = map_option (snd \<circ> snd) (view st c)" for c using v v' by simp
  then have "number P st' = number P st" for P by (rule number_cong)
  then have "totals st' = totals st" using assms(5) by (simp add: totals_def)
  ultimately show ?thesis by (simp add: drop_ref_def)
qed

lemma free_loop_refs:
  assumes "refs_ok E H st" and "0 < H a" and "\<And>e. e \<in> E \<Longrightarrow> (a, e) \<notin> (links E st)\<^sup>*"
  shows "\<exists>k st'. free_loop (Some a) count st = Some (k, st') \<and> refs_ok E (drop_ref a H) st' \<and> totals st' = totals st \<and>
    (\<forall>e\<in>E. view st' e = view st e) \<and> pb_new st' = pb_new st"
  using assms
proof (induction "card (dom (view st))" arbitrary: st H a count rule: less_induct)
  case less
  obtain b where b: "pb_heap st a = Some b" using refs_okD(4) [OF less.prems(1,2)] by (auto simp: view_def)
  then have v: "view st a = Some (pb_next b, pb_ref b, pb_type b, pb_custom b)" by (simp add: view_def)
  have r: "0 < unat (pb_ref b)" "pb_custom b \<noteq> Some None" "unat (pb_ref b) = H a + card (preds E st a)" using refs_okD(6) [OF less.prems(1) v] by blast+
  have aE: "a \<notin> E" using less.prems(3) by blast
  have nz: "pb_ref b \<noteq> 0" using r(1) by auto
  show ?case
  proof (cases "pb_ref b - 1 = 0")
    case False
    let ?st' = "pbuf_upd a (\<lambda>b. b\<lparr>pb_ref := pb_ref b - 1\<rparr>) st"
    have "refs_ok E (drop_ref a H) ?st'" "totals ?st' = totals st" "\<forall>e\<in>E. view ?st' e = view st e"
      using unref_refs [OF less.prems(1,2) b] False aE by (auto simp: view_def pbuf_upd_def)
    moreover have "free_loop (Some a) count st = Some (count, ?st')" using b nz False by (subst free_loop.simps) simp
    ultimately show ?thesis by auto
  next
    case True
    obtain st1 where s: "release_pbuf a b st = Some st1" "view st1 = (view st)(a := None)" "pb_new st1 = pb_new st" "totals st1 = totals st"
      using release_pbuf_refs [OF refs_okD(1) [OF less.prems(1)] b r(2)] by blast
    have e: "free_loop (Some a) count st = free_loop (pb_next b) (count + 1) st1" using b nz True s(1) by (subst free_loop.simps) simp
    have "pb_ref b = 1" using True by simp
    then have ok: "refs_ok E (add_ref (pb_next b) (drop_ref a H)) st1"
      using refs_release [OF less.prems(1) _ less.prems(2) aE s(2,3)] v by simp
    have vE: "\<forall>e\<in>E. view st1 e = view st e" using s(2) aE by auto
    show ?thesis
    proof (cases "pb_next b")
      case None
      then have "free_loop (Some a) count st = Some (count + 1, st1)" using e by (subst (asm) free_loop.simps) simp
      then show ?thesis using ok None s(3,4) vE by simp
    next
      case (Some n)
      have an: "(a, n) \<in> links E st" using v Some aE by (simp add: links_def)
      have "links E st1 \<subseteq> links E st" using s(2) by (auto simp: links_def split: if_splits)
      then have sub: "(links E st1)\<^sup>* \<subseteq> (links E st)\<^sup>*" by (rule rtrancl_mono)
      have reach: "(n, e) \<notin> (links E st1)\<^sup>*" if "e \<in> E" for e
        using less.prems(3) [OF that] an sub by (meson converse_rtrancl_into_rtrancl subsetD)
      have fin: "finite (dom (view st))" by (rule refs_okD(1) [OF less.prems(1)])
      have "dom (view st1) = dom (view st) - {a}" using s(2) by auto
      then have lt: "card (dom (view st1)) < card (dom (view st))" using v fin by (metis card_Diff1_less domI)
      have ok1: "refs_ok E ((drop_ref a H)(n := drop_ref a H n + 1)) st1" using ok Some by simp
      obtain k st' where IH: "free_loop (Some n) (count + 1) st1 = Some (k, st')" "refs_ok E (drop_ref a H) st'" "totals st' = totals st1"
        "\<forall>e\<in>E. view st' e = view st1 e" "pb_new st' = pb_new st1"
        using less.hyps [OF lt ok1, of n "count + 1"] reach by auto
      then show ?thesis using e Some s(3,4) vE by auto
    qed
  qed
qed

lemma pbuf_free_refs:
  assumes "refs_ok {} H st" and "0 < H a"
  shows "\<exists>k st'. pbuf_free (Some a) st = Some (k, st') \<and> refs_ok {} (drop_ref a H) st' \<and> totals st' = totals st \<and> pb_new st' = pb_new st"
  using free_loop_refs [OF assms, of 0] by (auto simp: pbuf_free_def)

section \<open>Operations that leave the references alone\<close>

definition same_refs :: "pbufs \<Rightarrow> pbufs \<Rightarrow> bool" where
  "same_refs st st' \<longleftrightarrow> view st' = view st \<and> pb_new st' = pb_new st \<and> pool_left st' = pool_left st \<and> ref_left st' = ref_left st"

lemma same_refs_refl [simp, intro]: "same_refs st st"
  by (simp add: same_refs_def)

lemma same_refs_trans: "same_refs st st' \<Longrightarrow> same_refs st' st'' \<Longrightarrow> same_refs st st''"
  by (simp add: same_refs_def)

lemma same_refs_ok: "same_refs st st' \<Longrightarrow> refs_ok E H st' = refs_ok E H st"
  unfolding same_refs_def by (intro refs_ok_cong) simp_all

lemma same_refs_totals: "same_refs st st' \<Longrightarrow> totals st' = totals st"
  by (simp add: same_refs_def totals_def number_def)

lemma same_refs_links: "same_refs st st' \<Longrightarrow> links E st' = links E st"
  by (simp add: same_refs_def links_def)

lemma pay_write_refs: "pay_write p i src st = Some st' \<Longrightarrow> same_refs st st'"
  by (auto simp: pay_write_def same_refs_def view_def fun_eq_iff split: option.splits bind_splits)

lemma heap_answer_refs: "same_refs st (snd (heap_answer st))"
  by (auto simp: heap_answer_def same_refs_def view_def fun_eq_iff split: list.splits)

lemma upd_refs:
  assumes "\<And>b. pb_next (f b) = pb_next b \<and> pb_ref (f b) = pb_ref b \<and> pb_type (f b) = pb_type b \<and> pb_custom (f b) = pb_custom b"
  shows "same_refs st (pbuf_upd a f st)"
proof -
  have "view (pbuf_upd a f st) x = view st x" for x using assms by (cases "pb_heap st a") (simp_all add: view_def pbuf_upd_def)
  then show ?thesis by (auto simp: same_refs_def)
qed

lemma pbuf_add_header_refs: "pbuf_add_header_impl p inc force st = Some (r, st') \<Longrightarrow> same_refs st st'"
  by (auto simp: pbuf_add_header_impl_def Let_def split: bind_splits if_splits option.splits intro!: upd_refs)

lemma pbuf_remove_header_refs: "pbuf_remove_header p dec st = Some (r, st') \<Longrightarrow> same_refs st st'"
  by (auto simp: pbuf_remove_header_def Let_def split: bind_splits if_splits option.splits intro!: upd_refs)

lemma pbuf_header_refs: "pbuf_header_impl p inc force st = Some (r, st') \<Longrightarrow> same_refs st st'"
  by (auto simp: pbuf_header_impl_def split: if_splits dest: pbuf_add_header_refs pbuf_remove_header_refs)

lemma take_loop_refs:
  assumes t: "take_loop p src st = Some st'"
  shows "same_refs st st'"
proof (rule take_loop.raw_induct [where P = "\<lambda>p src st st'. same_refs st st'", OF _ t], goal_cases)
  case (1 f p src st st')
  then show ?case by (auto simp: Let_def split: if_splits option.splits dest!: pay_write_refs intro: same_refs_trans)
qed

lemma pbuf_take_refs: "pbuf_take p src st = Some (e, st') \<Longrightarrow> same_refs st st'"
  by (auto simp: pbuf_take_def split: option.splits bind_splits if_splits dest: take_loop_refs)

lemma pbuf_take_at_refs: "pbuf_take_at p src off st = Some (e, st') \<Longrightarrow> same_refs st st'"
  by (auto simp: pbuf_take_at_def Let_def split: option.splits bind_splits if_splits prod.splits dest!: pbuf_take_refs pay_write_refs intro: same_refs_trans)

lemma pbuf_put_at_refs: "pbuf_put_at p off x st = Some st' \<Longrightarrow> same_refs st st'"
  by (auto simp: pbuf_put_at_def split: option.splits bind_splits if_splits prod.splits dest: pay_write_refs)

lemma copy_pbuf_step_refs: "copy_pbuf_step c st = Some (r, st') \<Longrightarrow> same_refs st st'"
  by (auto simp: copy_pbuf_step_def Let_def split: prod.splits bind_splits if_splits dest: pay_write_refs)

lemma copy_pbuf_loop_refs:
  assumes t: "copy_pbuf_loop c st = Some r"
  shows "same_refs st (snd r)"
proof (rule copy_pbuf_loop.raw_induct [where P = "\<lambda>c st r. same_refs st (snd r)", OF _ t], goal_cases)
  case (1 f c st r)
  then obtain x st1 where s: "copy_pbuf_step c st = Some (x, st1)" by (auto split: option.splits)
  show ?case
  proof (cases x)
    case (Inl e)
    then show ?thesis using 1(2) s copy_pbuf_step_refs [OF s] by auto
  next
    case (Inr c')
    then have "f c' st1 = Some r" using 1(2) s by simp
    then show ?thesis using 1(1) copy_pbuf_step_refs [OF s] same_refs_trans by blast
  qed
qed

lemma pbuf_copy_refs: "pbuf_copy q p st = Some (e, st') \<Longrightarrow> same_refs st st'"
  by (auto simp: pbuf_copy_def pbuf_copy_partial_pbuf_def split: option.splits bind_splits if_splits dest: copy_pbuf_loop_refs)

section \<open>Allocation and references\<close>

lemma place_pbuf_refs:
  assumes "refs_ok {} H st" and "place_pbuf n (new_pbuf payload tot len t c) st = (q, st')" and "c \<noteq> Some None"
  shows "q = pb_new st" "q \<notin> dom (view st)" "view st' = (view st)(q \<mapsto> (None, 1, t, c))" "refs_ok {} (H(q := H q + 1)) st'"
    "pool_left st' = pool_left st" "ref_left st' = ref_left st" "number P st' = number P st + (if P (t, c) then 1 else 0)"
proof -
  show q: "q = pb_new st" using assms(2) by (auto simp: place_pbuf_def)
  then show f: "q \<notin> dom (view st)" using refs_okD(2) [OF assms(1), of q] by blast
  show v: "view st' = (view st)(q \<mapsto> (None, 1, t, c))" using assms(2) by (auto simp: place_pbuf_def view_def new_pbuf_def)
  show "pool_left st' = pool_left st" "ref_left st' = ref_left st" using assms(2) by (auto simp: place_pbuf_def)
  have "q < pb_new st'" "pb_new st \<le> pb_new st'" using assms(2) by (auto simp: place_pbuf_def)
  then show "refs_ok {} (H(q := H q + 1)) st'" using refs_new [OF assms(1) f v assms(3)] by simp
  show "number P st' = number P st + (if P (t, c) then 1 else 0)" by (rule number_new [OF refs_okD(1) [OF assms(1)] f v])
qed

lemma pbuf_alloc_reference_refs:
  assumes "refs_ok {} H st" and "type = PBUF_REF \<or> type = PBUF_ROM"
  shows "\<exists>r st'. pbuf_alloc_reference payload len type st = Some (r, st') \<and> refs_ok {} (add_ref r H) st' \<and> totals st' = totals st"
proof (cases "ref_left st = 0")
  case True
  then show ?thesis using assms by (auto simp: pbuf_alloc_reference_def)
next
  case False
  let ?st = "st\<lparr>ref_left := ref_left st - 1\<rparr>"
  have v: "view ?st = view st" by (auto simp: view_def)
  then have ok: "refs_ok {} H ?st" using assms(1) refs_ok_cong [of ?st st] by simp
  obtain q st' where p: "place_pbuf 0 (new_pbuf payload len len type None) ?st = (q, st')" by (cases "place_pbuf 0 (new_pbuf payload len len type None) ?st")
  note r = place_pbuf_refs [OF ok p option.distinct(1)]
  have "number P ?st = number P st" for P using v by (simp only: number_def)
  then have "totals st' = totals st" using False assms(2) r(5,6) unfolding totals_def r(7) by (auto simp: is_pool_def is_ref_def)
  then show ?thesis using False assms(2) p r(4) by (intro exI [of _ "Some q"] exI [of _ st']) (auto simp: pbuf_alloc_reference_def)
qed

text \<open>One more buffer from the pool: it is the head of the chain, or the last buffer points to it.\<close>

lemma alloc_pool_place:
  assumes "refs_ok {} (add_ref p H) st" and "p = None \<longleftrightarrow> lst = None" and "\<And>l. lst = Some l \<Longrightarrow> \<exists>i. view st l = Some (None, i)"
    and "Suc k = pool_left st" and "place_pbuf n (new_pbuf payload tot len PBUF_POOL None) (st\<lparr>pool_left := pool_left st - 1\<rparr>) = (q, st1)"
    and "st2 = (case lst of None \<Rightarrow> st1 | Some l \<Rightarrow> pbuf_upd l (\<lambda>b. b\<lparr>pb_next := Some q\<rparr>) st1)"
    and "p2 = (case p of None \<Rightarrow> Some q | Some a \<Rightarrow> Some a)"
  shows "refs_ok {} (add_ref p2 H) st2 \<and> totals st2 = totals st \<and> (\<exists>i. view st2 q = Some (None, i)) \<and> pool_left st2 = k"
proof -
  let ?st = "st\<lparr>pool_left := pool_left st - 1\<rparr>"
  have v: "view ?st = view st" by (auto simp: view_def)
  then have ok: "refs_ok {} (add_ref p H) ?st" using assms(1) refs_ok_cong [of ?st st] by simp
  note r = place_pbuf_refs [OF ok assms(5) option.distinct(1)]
  have "number P ?st = number P st" for P using v by (simp only: number_def)
  then have tot1: "totals st1 = totals st" using assms(4) r(5,6) unfolding totals_def r(7) by (simp add: is_pool_def is_ref_def)
  show ?thesis
  proof (cases lst)
    case None
    then have "p = None" using assms(2) by simp
    then show ?thesis using None r(3-5) tot1 assms(4) by (simp add: assms(6) assms(7))
  next
    case (Some l)
    then obtain i where i: "view st l = Some (None, i)" using assms(3) by blast
    obtain a where a: "p = Some a" using Some assms(2) by (cases p) auto
    have lq: "l \<noteq> q" using r(2) i v by auto
    have vl: "view st1 l = Some (None, i)" using i lq r(3) v by simp
    obtain b where b: "pb_heap st1 l = Some b" "(pb_ref b, pb_type b, pb_custom b) = i" using vl by (auto simp: view_def)
    have v2: "view st2 = (view st1)(l \<mapsto> (Some q, i))" using b Some by (auto simp: assms(6) view_upd)
    have "q \<notin> Domain (links {} st1)" using r(3) by (auto simp: links_def)
    then have "(q, l) \<notin> (links {} st1)\<^sup>*" using lq by (simp add: Not_Domain_rtrancl)
    moreover have "pb_new st2 = pb_new st1" using Some by (simp add: assms(6))
    ultimately have "refs_ok {} (drop_ref q ((add_ref p H)(q := add_ref p H q + 1))) st2"
      using vl v2 by (cases i) (intro refs_link [OF r(4), of l], auto)
    then have "refs_ok {} (add_ref p H) st2" by (simp only: drop_add_ref)
    moreover have "totals st2 = totals st"
    proof -
      have "map_option (snd \<circ> snd) (view st2 c) = map_option (snd \<circ> snd) (view st1 c)" for c using vl v2 by (cases i) simp
      then have "number P st2 = number P st1" for P by (rule number_cong)
      then show ?thesis using tot1 Some by (simp add: totals_def assms(6))
    qed
    ultimately show ?thesis using a Some r(3,5) v2 lq assms(4) by (simp add: assms(7) assms(6))
  qed
qed

lemma alloc_pool_loop_refs:
  assumes "refs_ok {} (add_ref p H) st" and "p = None \<longleftrightarrow> lst = None" and "\<And>l. lst = Some l \<Longrightarrow> \<exists>i. view st l = Some (None, i)"
  shows "\<exists>r st'. alloc_pool_loop off rem_len p lst st = Some (r, st') \<and> refs_ok {} (add_ref r H) st' \<and> totals st' = totals st"
  using assms
proof (induction "pool_left st" arbitrary: off rem_len p lst st)
  case 0
  show ?case
  proof (cases p)
    case None
    then show ?thesis using 0 by (subst alloc_pool_loop.simps) simp
  next
    case (Some a)
    then have ok: "refs_ok {} (H(a := H a + 1)) st" using 0(2) by (simp only: add_ref_simps)
    obtain k st' where "pbuf_free (Some a) st = Some (k, st')" "refs_ok {} (drop_ref a (H(a := H a + 1))) st'" "totals st' = totals st"
      using pbuf_free_refs [OF ok, of a] by auto
    then show ?thesis using 0(1) Some by (subst alloc_pool_loop.simps) simp
  qed
next
  case (Suc k)
  let ?st = "st\<lparr>pool_left := pool_left st - 1\<rparr>"
  define ql where "ql = min rem_len (of_nat PBUF_POOL_BUFSIZE_ALIGNED - LWIP_MEM_ALIGN_SIZE off)"
  define nb where "nb = new_pbuf (Some (Own (pb_new st), unat (LWIP_MEM_ALIGN_SIZE off))) rem_len ql PBUF_POOL None"
  obtain q st1 where p: "place_pbuf PBUF_POOL_BUFSIZE_ALIGNED nb ?st = (q, st1)" by (cases "place_pbuf PBUF_POOL_BUFSIZE_ALIGNED nb ?st")
  define st2 where "st2 = (case lst of None \<Rightarrow> st1 | Some l \<Rightarrow> pbuf_upd l (\<lambda>b. b\<lparr>pb_next := Some q\<rparr>) st1)"
  define p2 where "p2 = (case p of None \<Rightarrow> Some q | Some a \<Rightarrow> Some a)"
  have s2: "refs_ok {} (add_ref p2 H) st2 \<and> totals st2 = totals st \<and> (\<exists>i. view st2 q = Some (None, i)) \<and> pool_left st2 = k"
    by (rule alloc_pool_place [OF Suc.prems Suc.hyps(2) p [unfolded nb_def] st2_def p2_def])
  have e: "alloc_pool_loop off rem_len p lst st = (if rem_len - ql > 0 then alloc_pool_loop 0 (rem_len - ql) p2 (Some q) st2 else Some (p2, st2))"
    using Suc.hyps(2) p unfolding nb_def ql_def st2_def p2_def by (subst alloc_pool_loop.simps) (simp add: Let_def)
  show ?case
  proof (cases "rem_len - ql > 0")
    case True
    have "p2 = None \<longleftrightarrow> Some q = None" by (simp add: p2_def split: option.splits)
    then obtain x st' where "alloc_pool_loop 0 (rem_len - ql) p2 (Some q) st2 = Some (x, st')" "refs_ok {} (add_ref x H) st'" "totals st' = totals st2"
      using Suc.hyps(1) [of st2 p2 "Some q" 0 "rem_len - ql"] s2 by auto
    then show ?thesis using True e s2 by simp
  next
    case False
    then show ?thesis using e s2 by simp
  qed
qed

lemma pbuf_alloc_refs:
  assumes "refs_ok {} H st"
  shows "\<exists>r st'. pbuf_alloc layer len type st = Some (r, st') \<and> refs_ok {} (add_ref r H) st' \<and> totals st' = totals st"
proof (cases type)
  case PBUF_RAM
  define pl where "pl = (ucast (ucast (LWIP_MEM_ALIGN_SIZE (layer_offset layer)) + ((ucast len + 3 :: u32) AND NOT 3)) :: u16)"
  define big where "big = ((ucast pl :: u32) < (ucast len + 3) AND NOT 3 \<or> (ucast (ucast (16 + ucast pl :: u32) :: u16) :: u32) < (ucast len + 3) AND NOT 3)"
  obtain ans st1 where h: "heap_answer st = (ans, st1)" by (cases "heap_answer st")
  then have s: "same_refs st st1" using heap_answer_refs [of st] by simp
  have ok: "refs_ok {} H st1" "totals st1 = totals st" using assms same_refs_ok [OF s] same_refs_totals [OF s] by simp_all
  obtain q st2 where p: "place_pbuf (unat pl) (new_pbuf (Some (Own (pb_new st1), unat (LWIP_MEM_ALIGN_SIZE (layer_offset layer)))) len len PBUF_RAM None) st1 = (q, st2)"
    by fastforce
  note r = place_pbuf_refs [OF ok(1) p option.distinct(1)]
  have "totals st2 = totals st1" unfolding totals_def r(5,6,7) by (simp add: is_pool_def is_ref_def)
  then have done': "refs_ok {} (add_ref (Some q) H) st2" "totals st2 = totals st" using r(4) ok(2) by (simp_all only: add_ref_simps)
  have e: "pbuf_alloc layer len type st = (if big then Some (None, st) else if ans then Some (Some q, st2) else Some (None, st1))"
    using h p unfolding PBUF_RAM pbuf_alloc_def Let_def pl_def [symmetric] big_def [symmetric] by (simp split: bool.splits)
  show ?thesis
    unfolding e using assms ok done' by auto
next
  case PBUF_POOL
  have "pbuf_alloc layer len type st = alloc_pool_loop (layer_offset layer) len None None st" by (simp add: PBUF_POOL pbuf_alloc_def)
  moreover have "\<exists>r st'. alloc_pool_loop (layer_offset layer) len None None st = Some (r, st') \<and> refs_ok {} (add_ref r H) st' \<and> totals st' = totals st"
    using assms by (intro alloc_pool_loop_refs) simp_all
  ultimately show ?thesis by simp
qed (use pbuf_alloc_reference_refs [OF assms, of type None len] in \<open>simp_all add: pbuf_alloc_def\<close>)

lemma pbuf_alloced_custom_refs:
  assumes "refs_ok {} H st" and "pb_heap st a = None" and "f \<noteq> None" and "pbuf_alloced_custom l len type a f mem mlen st = (r, st')"
  shows "refs_ok {} (add_ref r H) st' \<and> totals st' = totals st"
proof (cases "unat (LWIP_MEM_ALIGN_SIZE (layer_offset l)) + unat len > unat mlen")
  case True
  then show ?thesis using assms(1,4) by (auto simp: pbuf_alloced_custom_def Let_def)
next
  case False
  then have e: "r = Some a" "view st' = (view st)(a \<mapsto> (None, 1, type, Some f))" "pb_new st' = max (pb_new st) (a + 1)"
      "pool_left st' = pool_left st" "ref_left st' = ref_left st"
    using assms(4) by (auto simp: pbuf_alloced_custom_def Let_def view_def new_pbuf_def)
  have n: "a \<notin> dom (view st)" using assms(2) by (auto simp: view_def)
  have "number P st' = number P st + (if P (type, Some f) then 1 else 0)" for P by (rule number_new [OF refs_okD(1) [OF assms(1)] n e(2)])
  then have "totals st' = totals st" using e(4,5) by (simp add: totals_def is_pool_def is_ref_def)
  moreover have "refs_ok {} (H(a := H a + 1)) st'" using e(3) assms(3) by (intro refs_new [OF assms(1) n e(2)]) auto
  ultimately show ?thesis using e(1) by (simp only: add_ref_simps simp_thms)
qed

lemma totals_cong:
  assumes "\<And>c. map_option (snd \<circ> snd) (view st' c) = map_option (snd \<circ> snd) (view st c)" and "pool_left st' = pool_left st" and "ref_left st' = ref_left st"
  shows "totals st' = totals st"
  using number_cong [OF assms(1)] assms(2,3) by (simp add: totals_def)

lemma pbuf_ref_refs:
  assumes "refs_ok {} H st" and "pbuf_ref (Some a) st = Some st'"
  shows "refs_ok {} (H(a := H a + 1)) st' \<and> totals st' = totals st"
proof -
  obtain b where b: "pb_heap st a = Some b" "pb_ref b + 1 \<noteq> 0" "st' = pbuf_upd a (\<lambda>b. b\<lparr>pb_ref := pb_ref b + 1\<rparr>) st"
    using assms(2) by (auto simp: pbuf_ref_def split: bind_splits if_splits)
  have v: "view st a = Some (pb_next b, pb_ref b, pb_type b, pb_custom b)" using b(1) by (simp add: view_def)
  have v': "view st' = (view st)(a \<mapsto> (pb_next b, pb_ref b + 1, pb_type b, pb_custom b))" using b by (simp add: view_upd)
  have u: "unat (pb_ref b + 1) = unat (pb_ref b) + 1" using b(2) by (rule unatSuc [unfolded Suc_eq_plus1, of "pb_ref b", unfolded add.commute [of 1]])
  have "refs_ok {} (H(a := H a + 1)) st'" using u b(3) by (intro refs_count [OF assms(1) v v']) auto
  moreover have "totals st' = totals st" using v v' b(3) by (intro totals_cong) auto
  ultimately show ?thesis ..
qed

section \<open>Chains\<close>

lemma cat_loop_view:
  assumes c: "cat_loop p t st = Some st'"
  shows "\<exists>l i. (p, l) \<in> (links {} st)\<^sup>* \<and> view st l = Some (None, i) \<and> view st' = (view st)(l \<mapsto> (Some t, i)) \<and>
    pb_new st' = pb_new st \<and> pool_left st' = pool_left st \<and> ref_left st' = ref_left st"
proof (rule cat_loop.raw_induct [where P = "\<lambda>p t st st'. \<exists>l i. (p, l) \<in> (links {} st)\<^sup>* \<and> view st l = Some (None, i) \<and> view st' = (view st)(l \<mapsto> (Some t, i)) \<and>
    pb_new st' = pb_new st \<and> pool_left st' = pool_left st \<and> ref_left st' = ref_left st", OF _ c], goal_cases)
  case (1 f p t st st')
  obtain b d where b: "pb_heap st p = Some b" "pb_heap st t = Some d" using 1(2) by (auto split: option.splits)
  show ?case
  proof (cases "pb_next b")
    case None
    let ?st = "pbuf_upd p (\<lambda>b. b\<lparr>pb_tot_len := pb_tot_len b + pb_tot_len d, pb_next := Some t\<rparr>) st"
    have e: "st' = ?st" using 1(2) b None by (auto split: if_splits)
    have v: "view ?st = (view st)(p \<mapsto> (Some t, pb_ref b, pb_type b, pb_custom b))" using b(1) by (simp add: view_upd)
    have "view st p = Some (None, pb_ref b, pb_type b, pb_custom b)" using b(1) None by (simp add: view_def)
    then show ?thesis using v unfolding e by (intro exI [of _ p] exI [of _ "(pb_ref b, pb_type b, pb_custom b)"]) simp
  next
    case (Some n)
    let ?st = "pbuf_upd p (\<lambda>b. b\<lparr>pb_tot_len := pb_tot_len b + pb_tot_len d\<rparr>) st"
    have s: "same_refs st ?st" by (rule upd_refs) simp
    have "f n t ?st = Some st'" using 1(2) b Some by simp
    then obtain l i where l: "(n, l) \<in> (links {} ?st)\<^sup>*" "view ?st l = Some (None, i)" "view st' = (view ?st)(l \<mapsto> (Some t, i))"
      "pb_new st' = pb_new ?st" "pool_left st' = pool_left ?st" "ref_left st' = ref_left ?st" using 1(1) by blast
    have "(p, n) \<in> links {} st" using b(1) Some by (simp add: links_def view_def)
    then have "(p, l) \<in> (links {} st)\<^sup>*" using l(1) same_refs_links [OF s] by (simp add: converse_rtrancl_into_rtrancl)
    moreover have "view ?st = view st" using s by (simp add: same_refs_def)
    ultimately show ?thesis using l(2-6) by (intro exI [of _ l] exI [of _ i]) simp
  qed
qed

lemma pbuf_cat_refs:
  assumes "refs_ok {} H st" and "0 < H t" and "pbuf_cat (Some h) (Some t) st = Some st'"
    and "\<And>x. (h, x) \<in> (links {} st)\<^sup>* \<Longrightarrow> (t, x) \<notin> (links {} st)\<^sup>*"
  shows "refs_ok {} (drop_ref t H) st' \<and> totals st' = totals st"
proof -
  have "cat_loop h t st = Some st'" using assms(3) by (simp add: pbuf_cat_def split: if_splits)
  from cat_loop_view [OF this] obtain l i where l: "(h, l) \<in> (links {} st)\<^sup>*" "view st l = Some (None, i)" "view st' = (view st)(l \<mapsto> (Some t, i))"
      "pb_new st' = pb_new st" "pool_left st' = pool_left st" "ref_left st' = ref_left st" by blast
  obtain r j where i: "i = (r, j)" by (cases i)
  have "refs_ok {} (drop_ref t H) st'"
    using l i assms(2,4) by (intro refs_link [OF assms(1), of l r j]) auto
  moreover have "totals st' = totals st" using l(2,3,5,6) i by (intro totals_cong) auto
  ultimately show ?thesis ..
qed

lemma pbuf_chain_refs:
  assumes "refs_ok {} H st" and "0 < H t" and "pbuf_chain (Some h) (Some t) st = Some st'"
    and "\<And>x. (h, x) \<in> (links {} st)\<^sup>* \<Longrightarrow> (t, x) \<notin> (links {} st)\<^sup>*"
  shows "refs_ok {} H st' \<and> totals st' = totals st"
proof -
  obtain st1 where c: "pbuf_cat (Some h) (Some t) st = Some st1" "pbuf_ref (Some t) st1 = Some st'"
    using assms(3) by (auto simp: pbuf_chain_def split: bind_splits)
  have "refs_ok {} (drop_ref t H) st1" "totals st1 = totals st" using pbuf_cat_refs [OF assms(1,2) c(1) assms(4)] by blast+
  moreover have "(drop_ref t H)(t := drop_ref t H t + 1) = H" using assms(2) by (auto simp: drop_ref_def)
  ultimately show ?thesis using pbuf_ref_refs [OF _ c(2), of "drop_ref t H"] by simp
qed

lemma unlink_refs:
  assumes "refs_ok {} H st" and "pb_heap st a = Some b" and "pb_next b = Some n"
    and "\<And>b. pb_next (f b) = None \<and> pb_ref (f b) = pb_ref b \<and> pb_type (f b) = pb_type b \<and> pb_custom (f b) = pb_custom b"
  shows "refs_ok {} (H(n := H n + 1)) (pbuf_upd a f st) \<and> totals (pbuf_upd a f st) = totals st"
proof -
  let ?st = "pbuf_upd a f st"
  have va: "view st a = Some (Some n, pb_ref b, pb_type b, pb_custom b)" using assms(2,3) by (simp add: view_def)
  have v: "view ?st = (view st)(a \<mapsto> (None, pb_ref b, pb_type b, pb_custom b))" using assms(2,4) by (simp add: view_upd)
  have "refs_ok {} (H(n := H n + 1)) ?st"
  proof (rule refs_unlink [OF assms(1) va])
    show "links {} ?st = links {} st - {(a, n)}" using va v by (auto simp: links_def split: if_splits)
    show "map_option snd (view ?st c) = map_option snd (view st c)" for c using va v by simp
  qed simp_all
  moreover have "totals ?st = totals st" using va v by (intro totals_cong) simp_all
  ultimately show ?thesis ..
qed

lemma pbuf_dechain_refs:
  assumes "refs_ok {} H st" and "pbuf_dechain (Some a) st = Some (r, st')"
  shows "refs_ok {} H st' \<and> totals st' = totals st"
proof -
  obtain b where b: "pb_heap st a = Some b" using assms(2) by (auto simp: pbuf_dechain_def split: bind_splits)
  show ?thesis
  proof (cases "pb_next b")
    case None
    then have "st' = st" using assms(2) b by (auto simp: pbuf_dechain_def split: bind_splits if_splits)
    then show ?thesis using assms(1) by simp
  next
    case (Some n)
    let ?st1 = "pbuf_upd n (\<lambda>c. c\<lparr>pb_tot_len := pb_tot_len b - pb_len b\<rparr>) st"
    let ?f = "\<lambda>b. b\<lparr>pb_next := None, pb_tot_len := pb_len b\<rparr>"
    have s: "same_refs st ?st1" by (rule upd_refs) simp
    have ok: "refs_ok {} H ?st1" "totals ?st1 = totals st" using assms(1) same_refs_ok [OF s] same_refs_totals [OF s] by simp_all
    obtain b1 where b1: "pb_heap ?st1 a = Some b1" "pb_next b1 = Some n"
      using b Some by (cases "a = n") (auto simp: pbuf_upd_def)
    have u: "refs_ok {} (H(n := H n + 1)) (pbuf_upd a ?f ?st1)" "totals (pbuf_upd a ?f ?st1) = totals st"
      using unlink_refs [OF ok(1) b1, of ?f] ok(2) by simp_all
    obtain k st2 where f: "pbuf_free (Some n) (pbuf_upd a ?f ?st1) = Some (k, st2)" "refs_ok {} H st2" "totals st2 = totals st"
      using pbuf_free_refs [OF u(1), of n] u(2) by auto
    have "st' = st2" using assms(2) b Some f(1) by (auto simp: pbuf_dechain_def Let_def split: bind_splits if_splits)
    then show ?thesis using f(2,3) by simp
  qed
qed

lemma realloc_walk_refs:
  assumes w: "realloc_walk q rem shr st = Some r"
  shows "same_refs st (snd (snd r))"
proof (rule realloc_walk.raw_induct [where P = "\<lambda>q rem shr st r. same_refs st (snd (snd r))", OF _ w], goal_cases)
  case (1 f q rem shr st r)
  obtain b where b: "pb_heap st q = Some b" using 1(2) by (auto split: option.splits)
  show ?case
  proof (cases "rem > pb_len b")
    case True
    obtain n where n: "pb_next b = Some n" "f n (rem - pb_len b) shr (pbuf_upd q (\<lambda>b. b\<lparr>pb_tot_len := pb_tot_len b - shr\<rparr>) st) = Some r"
      using 1(2) b True by (auto split: option.splits)
    have "same_refs st (pbuf_upd q (\<lambda>b. b\<lparr>pb_tot_len := pb_tot_len b - shr\<rparr>) st)" by (rule upd_refs) simp
    then show ?thesis using 1(1) [OF n(2)] same_refs_trans by blast
  next
    case False
    then show ?thesis using 1(2) b by auto
  qed
qed

lemma trim_pbuf_refs: "trim_pbuf q b rem st = Some st' \<Longrightarrow> same_refs st st'"
  using heap_answer_refs [of st] by (auto simp: trim_pbuf_def same_refs_def view_def fun_eq_iff split: if_splits prod.splits bool.splits option.splits)

text \<open>The rest of the chain is freed before the pointer to it is cleared.\<close>

lemma free_tail_refs:
  assumes "refs_ok {} H st" and "pb_heap st q = Some b" and "pb_next b = Some n"
  shows "\<exists>k st'. pbuf_free (Some n) st = Some (k, st') \<and>
    refs_ok {} H (pbuf_upd q (\<lambda>b. b\<lparr>pb_next := None\<rparr>) st') \<and> totals (pbuf_upd q (\<lambda>b. b\<lparr>pb_next := None\<rparr>) st') = totals st"
proof -
  have v: "view st q = Some (Some n, pb_ref b, pb_type b, pb_custom b)" using assms(2,3) by (simp add: view_def)
  have qn: "(q, n) \<in> links {} st" using v by (simp add: links_def)
  have l: "links {q} st = links {} st - {(q, n)}" using v by (auto simp: links_def)
  have ok: "refs_ok {q} (H(n := H n + 1)) st" by (rule refs_unlink [OF assms(1) v]) (simp_all add: l)
  have "(n, q) \<notin> (links {} st)\<^sup>*" using refs_okD(3) [OF assms(1)] qn by (meson acyclic_def rtrancl_into_trancl2)
  moreover have "(links {q} st)\<^sup>* \<subseteq> (links {} st)\<^sup>*" unfolding l by (rule rtrancl_mono) auto
  ultimately have reach: "(n, q) \<notin> (links {q} st)\<^sup>*" by blast
  obtain k st' where f: "free_loop (Some n) 0 st = Some (k, st')" "refs_ok {q} H st'" "totals st' = totals st" "view st' q = view st q"
    using free_loop_refs [OF ok, of n 0] reach by auto
  let ?st = "pbuf_upd q (\<lambda>b. b\<lparr>pb_next := None\<rparr>) st'"
  obtain d where d: "pb_heap st' q = Some d" "(pb_ref d, pb_type d, pb_custom d) = (pb_ref b, pb_type b, pb_custom b)"
    using f(4) v by (auto simp: view_def)
  have v': "view ?st = (view st')(q \<mapsto> (None, pb_ref b, pb_type b, pb_custom b))" using d by (simp add: view_upd)
  have vq: "view st' q = Some (Some n, pb_ref b, pb_type b, pb_custom b)" using f(4) v by simp
  have l': "links {} ?st = links {q} st'" using v' by (auto simp: links_def split: if_splits)
  have dm: "dom (view ?st) = dom (view st')" using v' vq by auto
  have "refs_ok {} H ?st"
    unfolding refs_ok_def dm l'
  proof (intro conjI allI impI ballI)
    have p: "preds {} ?st = preds {q} st'" by (auto simp: preds_def l')
    show "finite (dom (view st'))" "acyclic (links {q} st')" "\<And>a. a \<in> dom (view st') \<Longrightarrow> a < pb_new ?st" using refs_okD(1-3) [OF f(2)] by auto
    show "a \<in> dom (view st')" if "0 < H a + card (preds {} ?st a)" for a using that f(2) unfolding p refs_ok_def by auto
    fix a m r t c assume "view ?st a = Some (m, r, t, c)"
    then obtain m' where "view st' a = Some (m', r, t, c)" using v' vq by (cases "a = q") auto
    from refs_okD(6) [OF f(2) this] show "c \<noteq> Some None" "0 < unat r" "unat r = H a + card (preds {} ?st a)" unfolding p by blast+
  qed
  moreover have "totals ?st = totals st'" using v' vq by (intro totals_cong) auto
  ultimately show ?thesis using f(1,3) by (auto simp: pbuf_free_def)
qed

lemma pbuf_realloc_refs:
  assumes "refs_ok {} H st" and "pbuf_realloc (Some a) new_len st = Some st'"
  shows "refs_ok {} H st' \<and> totals st' = totals st"
proof -
  obtain b where b: "pb_heap st a = Some b" using assms(2) by (auto simp: pbuf_realloc_def split: bind_splits)
  show ?thesis
  proof (cases "new_len \<ge> pb_tot_len b")
    case True
    then show ?thesis using assms b by (simp add: pbuf_realloc_def)
  next
    case False
    obtain q rem st1 d st2 where w: "realloc_walk a new_len (pb_tot_len b - new_len) st = Some (q, rem, st1)" "pb_heap st1 q = Some d"
      "trim_pbuf q d rem st1 = Some st2"
      and e: "(case pb_next d of None \<Rightarrow> Some (pbuf_upd q (\<lambda>b. b\<lparr>pb_len := rem, pb_tot_len := rem\<rparr>) st2)
          | Some n \<Rightarrow> map_option snd (pbuf_free (Some n) (pbuf_upd q (\<lambda>b. b\<lparr>pb_len := rem, pb_tot_len := rem\<rparr>) st2))) \<bind>
        (\<lambda>st. Some (pbuf_upd q (\<lambda>b. b\<lparr>pb_next := None\<rparr>) st)) = Some st'"
      using assms(2) b False by (auto simp: pbuf_realloc_def Let_def split: bind_splits)
    let ?st3 = "pbuf_upd q (\<lambda>b. b\<lparr>pb_len := rem, pb_tot_len := rem\<rparr>) st2"
    have "same_refs st st1" using realloc_walk_refs [OF w(1)] by simp
    moreover have "same_refs st1 st2" using trim_pbuf_refs [OF w(3)] .
    moreover have "same_refs st2 ?st3" by (rule upd_refs) simp
    ultimately have s: "same_refs st ?st3" "same_refs st1 ?st3" using same_refs_trans by blast+
    have ok: "refs_ok {} H ?st3" "totals ?st3 = totals st" using assms(1) same_refs_ok [OF s(1)] same_refs_totals [OF s(1)] by simp_all
    obtain d3 where d3: "pb_heap ?st3 q = Some d3" "pb_next d3 = pb_next d" using s(2) w(2) by (auto simp: same_refs_def view_def fun_eq_iff) (metis (no_types, lifting) fst_conv map_option_eq_Some)
    show ?thesis
    proof (cases "pb_next d")
      case None
      then have st': "st' = pbuf_upd q (\<lambda>b. b\<lparr>pb_next := None\<rparr>) ?st3" using e by simp
      have "view st' = view ?st3" using st' d3 None by (auto simp: view_upd) (auto simp: view_def)
      then have "same_refs ?st3 st'" unfolding same_refs_def st' by simp
      then show ?thesis using ok same_refs_ok same_refs_totals by metis
    next
      case (Some n)
      obtain k st4 where f: "pbuf_free (Some n) ?st3 = Some (k, st4)" "refs_ok {} H (pbuf_upd q (\<lambda>b. b\<lparr>pb_next := None\<rparr>) st4)"
        "totals (pbuf_upd q (\<lambda>b. b\<lparr>pb_next := None\<rparr>) st4) = totals ?st3" using free_tail_refs [OF ok(1) d3(1)] d3(2) Some by auto
      have "st' = pbuf_upd q (\<lambda>b. b\<lparr>pb_next := None\<rparr>) st4" using e Some f(1) by simp
      then show ?thesis using f(2,3) ok(2) by simp
    qed
  qed
qed

lemma free_header_loop_refs:
  assumes f: "free_header_loop p n st = Some r"
  shows "\<forall>H. refs_ok {} (add_ref p H) st \<longrightarrow> refs_ok {} (add_ref (fst r) H) (snd r) \<and> totals (snd r) = totals st"
proof (rule free_header_loop.raw_induct [where P = "\<lambda>p n st r. \<forall>H. refs_ok {} (add_ref p H) st \<longrightarrow>
    refs_ok {} (add_ref (fst r) H) (snd r) \<and> totals (snd r) = totals st", OF _ f], goal_cases)
  case (1 f p n st r)
  show ?case
  proof (intro allI impI)
    fix H assume ok: "refs_ok {} (add_ref p H) st"
    consider (stop) "r = (p, st)" | (go) a b where "p = Some a" "pb_heap st a = Some b" "n \<ge> pb_len b" "n \<noteq> 0" | (cut) a x st' where "p = Some a" "pbuf_remove_header p (ucast n) st = Some (x, st')" "r = (p, st')"
      using 1(2) by (auto split: option.splits if_splits prod.splits)
    then show "refs_ok {} (add_ref (fst r) H) (snd r) \<and> totals (snd r) = totals st"
    proof cases
      case stop
      then show ?thesis using ok by simp
    next
      case cut
      then show ?thesis using ok same_refs_ok [OF pbuf_remove_header_refs [OF cut(2)]] same_refs_totals [OF pbuf_remove_header_refs [OF cut(2)]] by simp
    next
      case go
      let ?st = "pbuf_upd a (\<lambda>b. b\<lparr>pb_next := None\<rparr>) st"
      have "refs_ok {} (add_ref (pb_next b) (add_ref p H)) ?st \<and> totals ?st = totals st"
      proof (cases "pb_next b")
        case None
        have "view ?st = view st" using go(2) None by (auto simp: view_upd) (auto simp: view_def)
        then have "same_refs st ?st" by (simp add: same_refs_def)
        then show ?thesis using ok None same_refs_ok same_refs_totals by (metis add_ref_simps(1))
      next
        case (Some m)
        have "refs_ok {} ((add_ref p H)(m := add_ref p H m + 1)) ?st \<and> totals ?st = totals st" by (rule unlink_refs [OF ok go(2) Some]) simp
        then show ?thesis by (simp only: Some add_ref_simps)
      qed
      then have u: "refs_ok {} (add_ref (pb_next b) (add_ref p H)) ?st" "totals ?st = totals st" by blast+
      have cm: "add_ref (pb_next b) (add_ref p H) = (add_ref (pb_next b) H)(a := add_ref (pb_next b) H a + 1)"
        using go(1) by (auto simp: add_ref_def split: option.splits)
      obtain k st1 where f1: "pbuf_free (Some a) ?st = Some (k, st1)" "refs_ok {} (add_ref (pb_next b) H) st1" "totals st1 = totals st"
        using pbuf_free_refs [OF u(1) [unfolded cm], of a] u(2) by auto
      have "f (pb_next b) (n - pb_len b) st1 = Some r" using 1(2) go f1(1) by simp
      then show ?thesis using 1(1) f1(2,3) by metis
    qed
  qed
qed

lemma pbuf_clone_refs:
  assumes "refs_ok {} H st" and "pbuf_clone layer type p st = Some (q, st')"
  shows "refs_ok {} (add_ref q H) st' \<and> totals st' = totals st"
proof -
  obtain b where b: "pbuf_deref p st = Some b" using assms(2) by (auto simp: pbuf_clone_def split: bind_splits)
  obtain r st1 where a: "pbuf_alloc layer (pb_tot_len b) type st = Some (r, st1)" "refs_ok {} (add_ref r H) st1" "totals st1 = totals st"
    using pbuf_alloc_refs [OF assms(1)] by blast
  show ?thesis
  proof (cases r)
    case None
    then show ?thesis using assms(2) a b by (simp add: pbuf_clone_def)
  next
    case (Some x)
    obtain e where e: "pbuf_copy r p st1 = Some (e, st')" "q = r" using assms(2) a(1) b Some by (auto simp: pbuf_clone_def split: bind_splits if_splits)
    show ?thesis using a(2,3) e(2) same_refs_ok [OF pbuf_copy_refs [OF e(1)]] same_refs_totals [OF pbuf_copy_refs [OF e(1)]] by simp
  qed
qed

lemma pbuf_coalesce_refs:
  assumes "refs_ok {} (add_ref p H) st" and "pbuf_coalesce p layer st = Some (q, st')"
  shows "refs_ok {} (add_ref q H) st' \<and> totals st' = totals st"
proof -
  obtain b where b: "pbuf_deref p st = Some b" using assms(2) by (auto simp: pbuf_coalesce_def split: bind_splits)
  obtain a where p: "p = Some a" using b by (cases p) (simp_all add: pbuf_deref_def)
  consider (same) "q = p" "st' = st" | (copy) r st1 where "pbuf_clone layer PBUF_RAM p st = Some (r, st1)" "if r = None then q = p \<and> st' = st1 else \<exists>k. pbuf_free p st1 = Some (k, st') \<and> q = r"
    using assms(2) b by (auto simp: pbuf_coalesce_def split: bind_splits if_splits)
  then show ?thesis
  proof cases
    case same
    then show ?thesis using assms(1) by simp
  next
    case copy
    have c: "refs_ok {} (add_ref r (add_ref p H)) st1" "totals st1 = totals st" using pbuf_clone_refs [OF assms(1) copy(1)] by simp_all
    show ?thesis
    proof (cases r)
      case None
      then show ?thesis using c copy(2) by simp
    next
      case (Some x)
      have cm: "add_ref r (add_ref p H) = (add_ref r H)(a := add_ref r H a + 1)" using p Some by (auto simp: add_ref_def)
      obtain k st2 where "pbuf_free (Some a) st1 = Some (k, st2)" "refs_ok {} (add_ref r H) st2" "totals st2 = totals st"
        using pbuf_free_refs [OF c(1) [unfolded cm], of a] c(2) by auto
      then show ?thesis using copy(2) p Some by simp
    qed
  qed
qed

section \<open>Programs that use buffers\<close>

text \<open>The users hold references, \<open>H a\<close> of them to the buffer \<open>a\<close>. A call takes a buffer that the caller holds a reference to;
  \<open>pbuf_free\<close> gives up one of them and \<open>pbuf_cat\<close> hands the one of the tail over to the chain. Two chains are joined only if they
  have no buffer in common.\<close>

definition apart :: "pbufs \<Rightarrow> addr \<Rightarrow> addr \<Rightarrow> bool" where
  "apart st h t \<longleftrightarrow> (\<forall>x. \<not> ((h, x) \<in> (links {} st)\<^sup>* \<and> (t, x) \<in> (links {} st)\<^sup>*))"

inductive pbuf_step :: "(addr \<Rightarrow> nat) \<times> pbufs \<Rightarrow> (addr \<Rightarrow> nat) \<times> pbufs \<Rightarrow> bool" where
  step_alloc: "pbuf_alloc layer len type st = Some (r, st') \<Longrightarrow> pbuf_step (H, st) (add_ref r H, st')"
| step_reference: "pbuf_alloc_reference payload len type st = Some (r, st') \<Longrightarrow> pbuf_step (H, st) (add_ref r H, st')"
| step_custom: "pb_heap st a = None \<Longrightarrow> pbuf_alloced_custom l len type a (Some f) mem mlen st = (r, st') \<Longrightarrow> pbuf_step (H, st) (add_ref r H, st')"
| step_ref: "0 < H a \<Longrightarrow> pbuf_ref (Some a) st = Some st' \<Longrightarrow> pbuf_step (H, st) (add_ref (Some a) H, st')"
| step_free: "0 < H a \<Longrightarrow> pbuf_free (Some a) st = Some (k, st') \<Longrightarrow> pbuf_step (H, st) (drop_ref a H, st')"
| step_cat: "0 < H h \<Longrightarrow> 0 < H t \<Longrightarrow> apart st h t \<Longrightarrow> pbuf_cat (Some h) (Some t) st = Some st' \<Longrightarrow> pbuf_step (H, st) (drop_ref t H, st')"
| step_chain: "0 < H h \<Longrightarrow> 0 < H t \<Longrightarrow> apart st h t \<Longrightarrow> pbuf_chain (Some h) (Some t) st = Some st' \<Longrightarrow> pbuf_step (H, st) (H, st')"
| step_dechain: "0 < H a \<Longrightarrow> pbuf_dechain (Some a) st = Some (r, st') \<Longrightarrow> pbuf_step (H, st) (H, st')"
| step_realloc: "0 < H a \<Longrightarrow> pbuf_realloc (Some a) n st = Some st' \<Longrightarrow> pbuf_step (H, st) (H, st')"
| step_free_header: "0 < H a \<Longrightarrow> pbuf_free_header (Some a) n st = Some (r, st') \<Longrightarrow> pbuf_step (H, st) (add_ref r (drop_ref a H), st')"
| step_header: "0 < H a \<Longrightarrow> pbuf_header_impl (Some a) inc force st = Some (r, st') \<Longrightarrow> pbuf_step (H, st) (H, st')"
| step_take_at: "0 < H a \<Longrightarrow> pbuf_take_at (Some a) src off st = Some (e, st') \<Longrightarrow> pbuf_step (H, st) (H, st')"
| step_put_at: "0 < H a \<Longrightarrow> pbuf_put_at (Some a) off x st = Some st' \<Longrightarrow> pbuf_step (H, st) (H, st')"
| step_copy: "0 < H a \<Longrightarrow> 0 < H c \<Longrightarrow> pbuf_copy (Some a) (Some c) st = Some (e, st') \<Longrightarrow> pbuf_step (H, st) (H, st')"
| step_clone: "0 < H a \<Longrightarrow> pbuf_clone layer type (Some a) st = Some (r, st') \<Longrightarrow> pbuf_step (H, st) (add_ref r H, st')"
| step_coalesce: "0 < H a \<Longrightarrow> pbuf_coalesce (Some a) layer st = Some (r, st') \<Longrightarrow> pbuf_step (H, st) (add_ref r (drop_ref a H), st')"

lemma add_drop_ref: "0 < H a \<Longrightarrow> add_ref (Some a) (drop_ref a H) = H"
  by (auto simp: drop_ref_def)

lemma pbuf_step_refs:
  assumes "pbuf_step s s'" and "refs_ok {} (fst s) (snd s)"
  shows "refs_ok {} (fst s') (snd s') \<and> totals (snd s') = totals (snd s)"
  using assms
proof (induction rule: pbuf_step.induct)
  case (step_alloc layer len type st r st' H)
  then show ?case using pbuf_alloc_refs [of H st layer len type] by auto
next
  case (step_reference payload len type st r st' H)
  then have "type = PBUF_REF \<or> type = PBUF_ROM" by (simp add: pbuf_alloc_reference_def split: if_splits)
  then show ?case using step_reference pbuf_alloc_reference_refs [of H st type payload len] by auto
next
  case (step_custom st a l len type f mem mlen r st' H)
  then show ?case using pbuf_alloced_custom_refs [of H st a "Some f"] by simp
next
  case (step_ref H a st st')
  have "refs_ok {} H st" using step_ref(3) by simp
  then show ?case unfolding fst_conv snd_conv add_ref_simps using step_ref(2) by (rule pbuf_ref_refs)
next
  case (step_free H a st k st')
  then show ?case using pbuf_free_refs [of H st a] by auto
next
  case (step_cat H h t st st')
  then show ?case using pbuf_cat_refs [of H st t h st'] by (auto simp: apart_def)
next
  case (step_chain H h t st st')
  then show ?case using pbuf_chain_refs [of H st t h st'] by (auto simp: apart_def)
next
  case (step_dechain H a st r st')
  then show ?case using pbuf_dechain_refs [of H st a r st'] by simp
next
  case (step_realloc H a n st st')
  then show ?case using pbuf_realloc_refs [of H st a n st'] by simp
next
  case (step_free_header H a n st r st')
  then have "refs_ok {} (add_ref (Some a) (drop_ref a H)) st" using add_drop_ref [of H a] by simp
  then show ?case using free_header_loop_refs [OF step_free_header(2) [unfolded pbuf_free_header_def]] by (simp only: fst_conv snd_conv)
next
  case (step_header H a inc force st r st')
  then show ?case using same_refs_ok [OF pbuf_header_refs] same_refs_totals [OF pbuf_header_refs] by (metis fst_conv snd_conv)
next
  case (step_take_at H a src off st e st')
  then show ?case using same_refs_ok [OF pbuf_take_at_refs] same_refs_totals [OF pbuf_take_at_refs] by (metis fst_conv snd_conv)
next
  case (step_put_at H a off x st st')
  then show ?case using same_refs_ok [OF pbuf_put_at_refs] same_refs_totals [OF pbuf_put_at_refs] by (metis fst_conv snd_conv)
next
  case (step_copy H a c st e st')
  then show ?case using same_refs_ok [OF pbuf_copy_refs] same_refs_totals [OF pbuf_copy_refs] by (metis fst_conv snd_conv)
next
  case (step_clone H a layer type st r st')
  then show ?case using pbuf_clone_refs [of H st] by auto
next
  case (step_coalesce H a layer st r st')
  then show ?case using pbuf_coalesce_refs [of "Some a" "drop_ref a H" st layer r st'] add_drop_ref [of H a] by simp
qed

definition pbufs_init :: "nat \<Rightarrow> nat \<Rightarrow> bool list \<Rightarrow> (block_id \<Rightarrow> byte list option) \<Rightarrow> (nat \<Rightarrow> byte) \<Rightarrow> pbufs" where
  "pbufs_init pool refs answers mem junk =
     \<lparr>pb_heap = (\<lambda>_. None), pb_blocks = mem, pb_new = 0, pool_left = pool, ref_left = refs, ram_answers = answers, pb_junk = junk, custom_freed = []\<rparr>"

lemma pbufs_init_ok: "refs_ok {} (\<lambda>_. 0) (pbufs_init pool refs answers mem junk)" "totals (pbufs_init pool refs answers mem junk) = (pool, refs)"
proof -
  have v: "view (pbufs_init pool refs answers mem junk) = (\<lambda>_. None)" by (auto simp: view_def pbufs_init_def)
  show "refs_ok {} (\<lambda>_. 0) (pbufs_init pool refs answers mem junk)" by (simp add: refs_ok_def v links_def preds_def acyclic_def)
  show "totals (pbufs_init pool refs answers mem junk) = (pool, refs)" by (simp add: totals_def number_def v) (simp add: pbufs_init_def)
qed

lemma run_refs:
  assumes "pbuf_step\<^sup>*\<^sup>* ((\<lambda>_. 0), pbufs_init pool refs answers mem junk) s"
  shows "refs_ok {} (fst s) (snd s) \<and> totals (snd s) = (pool, refs)"
  using assms
proof (induction rule: rtranclp_induct)
  case base
  then show ?case using pbufs_init_ok by simp
next
  case (step s s')
  then show ?case using pbuf_step_refs [OF step(2)] by simp
qed

text \<open>Without references from outside there is no buffer: the first one of a chain would have none.\<close>

lemma refs_no_leak:
  assumes "refs_ok {} (\<lambda>_. 0) st"
  shows "view st = (\<lambda>_. None)"
proof (rule ccontr)
  assume "view st \<noteq> (\<lambda>_. None)"
  then obtain x where x: "x \<in> dom (view st)" by (auto simp: fun_eq_iff)
  have sub: "links {} st \<subseteq> dom (view st) \<times> dom (view st)" using refs_okD(5) [OF assms] by (fastforce simp: links_def)
  then have "finite (links {} st)" using refs_okD(1) [OF assms] by (meson finite_SigmaI finite_subset)
  then have "wf (links {} st)" using refs_okD(3) [OF assms] by (rule finite_acyclic_wf)
  from wfE_min [OF this x] obtain z where z: "z \<in> dom (view st)" "\<And>y. (y, z) \<in> links {} st \<Longrightarrow> y \<notin> dom (view st)" by blast
  have "(y, z) \<notin> links {} st" for y using z(2) sub by (meson SigmaD1 subsetD)
  then have "preds {} st z = {}" by (simp add: preds_def)
  moreover obtain n r t c where "view st z = Some (n, r, t, c)" using z(1) by (auto simp: dom_def)
  ultimately show False using refs_okD(6) [OF assms, of z n r t c] by auto
qed

text \<open>C8: Reference counting is exact. After any sequence of operations of a program that uses only buffers it holds references to, the
  count of each buffer is the number of references that are held plus the number of buffers that point to it, and the function for
  freeing a custom buffer is set. Every buffer that is held exists, and giving one reference up always returns: no assertion fails, nothing is
  freed twice, and the loop over the chain ends. Once no reference is held, no buffer is left, and the pools have all of their elements
  again.\<close>

theorem pbuf_references_exact:
  assumes "pbuf_step\<^sup>*\<^sup>* ((\<lambda>_. 0), pbufs_init pool refs answers mem junk) (H, st)"
  shows "(\<forall>a b. pb_heap st a = Some b \<longrightarrow> unat (pb_ref b) = H a + card {x. \<exists>d. pb_heap st x = Some d \<and> pb_next d = Some a}) \<and>
    (\<forall>a. 0 < H a \<longrightarrow> pb_heap st a \<noteq> None \<and> (\<exists>k st'. pbuf_free (Some a) st = Some (k, st'))) \<and>
    (H = (\<lambda>_. 0) \<longrightarrow> pb_heap st = (\<lambda>_. None) \<and> pool_left st = pool \<and> ref_left st = refs)"
proof -
  have ok: "refs_ok {} H st" and tot: "totals st = (pool, refs)" using run_refs [OF assms] by simp_all
  have p: "preds {} st a = {x. \<exists>d. pb_heap st x = Some d \<and> pb_next d = Some a}" for a by (auto simp: preds_def links_def view_def)
  show ?thesis
  proof (intro conjI allI impI)
    fix a b assume b: "pb_heap st a = Some b"
    have "view st a = Some (pb_next b, pb_ref b, pb_type b, pb_custom b)" using b by (simp add: view_def)
    from refs_okD(6) [OF ok this] show "unat (pb_ref b) = H a + card {x. \<exists>d. pb_heap st x = Some d \<and> pb_next d = Some a}" unfolding p by blast
  next
    fix a assume a: "0 < H a"
    show "pb_heap st a \<noteq> None" using refs_okD(4) [OF ok a] by (auto simp: view_def)
    show "\<exists>k st'. pbuf_free (Some a) st = Some (k, st')" using pbuf_free_refs [OF ok a] by blast
  next
    assume "H = (\<lambda>_. 0)"
    then have v: "view st = (\<lambda>_. None)" using refs_no_leak ok by simp
    then show "pb_heap st = (\<lambda>_. None)" by (auto simp: view_def fun_eq_iff)
    show "pool_left st = pool" "ref_left st = refs" using tot v by (simp_all add: totals_def number_def)
  qed
qed

theorem pbuf_references_exact_witness:
  "\<exists>st st'. pbuf_alloc PBUF_RAW 10 PBUF_POOL (pbufs_init 120 16 [] (\<lambda>_. None) (\<lambda>_. 0)) = Some (Some 0, st) \<and> pool_left st = 119 \<and>
     (\<exists>k. pbuf_free (Some 0) st = Some (k, st'))"
proof -
  let ?init = "pbufs_init 120 16 [] (\<lambda>_. None) (\<lambda>_. 0)"
  have z: "LWIP_MEM_ALIGN_SIZE 0 = 0" by (simp add: LWIP_MEM_ALIGN_SIZE_def)
  have "alloc_pool_loop 0 10 None None ?init = Some (Some 0, snd (place_pbuf 256 (new_pbuf (Some (Own 0, 0)) 10 10 PBUF_POOL None) (?init\<lparr>pool_left := 119\<rparr>)))"
    by (subst alloc_pool_loop.simps) (simp add: pbufs_init_def z place_pbuf_def Let_def min_def)
  then obtain st where a: "pbuf_alloc PBUF_RAW 10 PBUF_POOL ?init = Some (Some 0, st)" "pool_left st = 119"
    by (simp add: pbuf_alloc_def place_pbuf_def)
  have "pbuf_step ((\<lambda>_. 0), ?init) (add_ref (Some 0) (\<lambda>_. 0), st)" using a(1) by (rule step_alloc)
  then have "pbuf_step\<^sup>*\<^sup>* ((\<lambda>_. 0), ?init) (add_ref (Some 0) (\<lambda>_. 0), st)" by (rule r_into_rtranclp)
  from conjunct1 [OF conjunct2 [OF pbuf_references_exact [OF this]]] obtain k st' where "pbuf_free (Some 0) st = Some (k, st')" by force
  then show ?thesis using a by blast
qed

end
