(* ===== verification/Spec2Isabelle.thy ===== *)
theory Spec2Isabelle
  imports Msgbus_Pc Rtos_Task_Pc Rtos_Mutex_Pc Rtos_Timer_Pc Cmds Luac_Props Net_Props Tp_Pc Fs_Mini Heap_Mini Uart_Pc
    Gpio_Pc Mobile_Imei Gtfont_Pc Buses_Pc Audio_Pc Mock_Pc Log_Mcu Boot_Pc
    Inet_Chksum Ip4_Addr Lwip_Memp Lwip_Timeouts Lwip_Heap_Props Pbuf_Content Pbuf_Refs
begin

text \<open>
  Verification of the PC port of LuatOS (\<open>luatos-soc-pc\<close>): the C code under \<open>src/port\<close>, \<open>src/src/main_mini.c\<close> and
  \<open>src/ffmpeg_x86/ffmpeg.c\<close> that lets the LuatOS firmware run as a program of a desktop system, and the base of the
  lwIP stack under \<open>src/lwip\<close>, which the Windows build can link as its network.

  \<^bold>\<open>The program.\<close> \<open>main\<close> sets up the heaps, the serial drivers, the file systems and the network, reads the command line, and
  starts the Lua machine. While it runs, the machine takes its messages from the message bus, which
  the timers, the network adapter, the serial ports and the audio player fill from the callbacks of
  libuv and SDL; tasks of the C code exchange messages and events over queues of the same kind. The command line
  packs scripts and resources into an image (luadb) and reports on the compiled scripts in it. The other
  files simulate the peripherals of the device.

  \<^bold>\<open>Conventions.\<close> The code is modelled for the 32-bit build (ILP32). Undefined behaviour of C and a call that never returns are
  the value \<^const>\<open>None\<close>; a theorem with \<^const>\<open>Some\<close> in its conclusion says that neither happens. Buffers
  are lists that are accessed by the checked operations \<^const>\<open>peek\<close> and \<^const>\<open>poke\<close>. Code that is not
  part of the repository (libuv, littlefs, bget, Lua, FreeType, FFmpeg, SDL, the library of the CH347, the LuatOS
  core) is a record of functions or an argument; what the port relies on is a named predicate
  (\<open>*_documented\<close>, \<open>*_fine\<close>, \<open>ff_finite\<close>, \<open>glyph_gray\<close>, \<open>ch347_plugged\<close>), and every property that
  assumes one has a witness with a concrete instance. The success of an allocation is an argument too, so that
  the theorems cover running out of memory. Logging is left out except in \<open>Log_Mcu\<close>.

  \<^bold>\<open>Theories.\<close>

    \<^item> \<open>Luatos_Prelude\<close>: machine types, buffers, little-endian encoding, and the locale \<open>fifo_store\<close>, the contract of a
      first-in first-out store. It is interpreted by the message bus, by the messages of a task and by the
      datagrams of a socket.

    \<^item> \<open>Queue_Pc\<close>, \<open>Msgbus_Pc\<close> (\<open>port/rtos/luat_queue_pc.c\<close>, \<open>luat_msgbus_pc.c\<close>): linked cells on an explicit heap; the bus is
      a queue (\<open>msgbus_fifo\<close>), and a receive returns once a message comes (\<open>msgbus_get_returns\<close>).

    \<^item> \<open>Rtos_Task_Pc\<close>, \<open>Rtos_Mutex_Pc\<close> (\<open>luat_rtos_task_pc.c\<close>, \<open>luat_rtos_mutex_pc.c\<close>): events and messages of tasks, and the mutex as a
      step relation over threads with its exclusion and a reachable deadlock.

    \<^item> \<open>Timer_Pc\<close>, \<open>Rtos_Timer_Pc\<close> (\<open>luat_timer_pc.c\<close>, \<open>luat_rtos_timer_pc.c\<close>): the table of 1024 timers and the life of a timer.

    \<^item> \<open>Net_Libuv\<close>, \<open>Net_Props\<close> (\<open>port/network/luat_network_adapter_libuv.c\<close>): the socket table, all operations and callbacks; streams and
      datagrams arrive unchanged and in order, the table keeps its invariant, sockets are isolated.

    \<^item> \<open>Luadb2\<close>, \<open>Cmds\<close> (\<open>port/luat_luadb2.c\<close>, \<open>luat_cmds.c\<close>): the image format and the command line, with the round trip of packing
      against a decoder.

    \<^item> \<open>Luac_Report\<close>, \<open>Luac_Props\<close> (\<open>port/luat_luac_report.c\<close>): the parser of compiled scripts, against an encoder of the
      Lua 5.3 format, and the summary of an image. The parser recurses on nested functions; its model takes fuel, and the
      depth of the tree is shown to be enough.

    \<^item> \<open>Block_Device\<close>, \<open>Fskv_Pc\<close>, \<open>Fs_Mini\<close> (\<open>port/luat_fskv_pc.c\<close>, \<open>luat_fs_mini.c\<close>): the locale \<open>block_device\<close>, interpreted by
      both memory devices; the key-value store refines a map, its enumeration ends; the order of the mounts.

    \<^item> \<open>Heap_Mini\<close> (\<open>port/luat_malloc_mini.c\<close>): the heaps, and the contract that Lua expects of its allocator.

    \<^item> \<open>Uart_Pc\<close>, \<open>Gpio_Pc\<close>, \<open>Buses_Pc\<close>, \<open>Ch347_Pc\<close> (\<open>port/driver\<close>, \<open>port/uart\<close>, \<open>port/gpio\<close>, \<open>port/luat_ztt.c\<close>): serial ports with
      the locale \<open>uart_driver\<close>, pins and their trace records, SPI, I2C and I2S, and the bridge of the Windows
      build.

    \<^item> \<open>Tp_Pc\<close>, \<open>Gtfont_Pc\<close> (\<open>port/driver/luat_tp_pc.c\<close>, \<open>port/luat_gtfont_pc.c\<close>): the ring of touch events, and the font renderers with
      the locale \<open>pixel_plane\<close>, interpreted by the three packed formats.

    \<^item> \<open>Audio_Pc\<close> (\<open>ffmpeg_x86/ffmpeg.c\<close>, \<open>port/driver/luat_audio_pc.c\<close>): the player and its resources, and the list of files. The loops
      are partial functions; they are shown to return for files of finite length.

    \<^item> \<open>Mock_Pc\<close> (\<open>port/mock/luat_mock.c\<close>, ADC, PWM, watchdog, power management): the answers of the mock script.

    \<^item> \<open>Mobile_Imei\<close>, \<open>Log_Mcu\<close> (\<open>port/luat_mobile_pc.c\<close>, \<open>luat_log_mini.c\<close>, \<open>driver/luat_mcu_pc.c\<close>): the device number, log lines, the
      identification of the machine and the clock.

    \<^item> \<open>Boot_Pc\<close> (\<open>src/main_mini.c\<close>, \<open>port/luat_pcconf_pc.c\<close>): the start, which composes the heaps, the serial ports, the file
      systems, the network and the command line.

    \<^item> \<open>Lwip_Def\<close>, \<open>Inet_Chksum\<close>, \<open>Ip4_Addr\<close> (\<open>lwip/core/def.c\<close>, \<open>inet_chksum.c\<close>, \<open>ipv4/ip4_addr.c\<close>): byte order, strings, the Internet
      checksum with its three equivalent versions and its end-to-end property, and the text form of addresses.

    \<^item> \<open>Lwip_Memp\<close>, \<open>Lwip_Timeouts\<close> (\<open>lwip/core/memp.c\<close>, \<open>timeouts.c\<close>): the memory pools, with the locale \<open>object_pool\<close>, and the list of
      timeouts over a clock that wraps around; the loop over the due timeouts is a partial function, shown to return.

    \<^item> \<open>Lwip_Mem\<close>, \<open>Lwip_Heap_Props\<close> (\<open>lwip/core/mem.c\<close>): the heap in its array of bytes, related to a list of blocks, and the locale
      \<open>block_heap\<close>, the contract of an allocator, with the isolation of the blocks of its users. The search for a block is a
      partial function, shown to return.

    \<^item> \<open>Lwip_Pbuf\<close>, \<open>Pbuf_Content\<close>, \<open>Pbuf_Refs\<close> (\<open>lwip/core/pbuf.c\<close>): the packet buffers; their contents, for which a chain is the
      sequence of its bytes; and their references, as a step relation over the state and the references that are held. The loops over
      chains are partial functions, shown to return for chains without a cycle. The heap answers from a list in the state, so that
      the theorems hold for each answer; that its blocks do not overlap is the result of \<open>Lwip_Heap_Props\<close>.

  \<^bold>\<open>Defects.\<close> Theorems and lemmas that describe what the code does where it does not do what it means to are stated beside the
  component: for example \<open>mutex_deadlock_reachable\<close>, \<open>net_connect_failed\<close>, \<open>uart_first_datagram_only\<close>, \<open>mock_repeats_first\<close>,
  \<open>ch347_gpio_close_all\<close>, \<open>spi_bus_protocol\<close>, \<open>gpio_calls_leak\<close>, \<open>imei_check_digit_wrong\<close>, \<open>mem_trim_top\<close>,
  \<open>pbuf_copy_past_first\<close> and \<open>pbuf_free_count_wraps\<close>.

  \<^bold>\<open>Not modelled.\<close> The image data \<open>src/luat_luadb_mod.c\<close> are generated; \<open>src/lua.c\<close> is the interpreter of the Lua distribution; the
  protocols of lwIP above its base (\<open>src/lwip\<close>) and the port to it, the headers of FFmpeg and of the CH347, and the configuration of mbedTLS are third-party code; the serial
  driver and the console of Windows only call the Windows API; the functions that answer a constant
  (CAN, OTP, FOTA, RTC, most of the modem) have no behaviour to state. Threads other than in the mutex are taken to
  run one callback or operation at a time, as libuv runs them in its loop.
\<close>

end
